(* ===== verification/Go_Prelude.thy ===== *)
theory Go_Prelude
  imports Main "HOL-Library.Word" "HOL-Library.Monad_Syntax"
begin

text \<open>
  What every component of the development shares: the fixed-width integer types of Go,
  arithmetic on \<open>int32\<close> written out, slice accesses that may panic, and the interface of a
  component that is driven by a sequence of operations.

  Conventions.  A Go unsigned integer is a word of its width, so that \<open>+\<close>, \<open>-\<close> and
  conversions wrap as they do in Go.  A Go panic (an index or a slice bound out of range, a
  nil dereference) is the value \<^const>\<open>None\<close> of an option type; a returned \<open>error\<close> is the
  left of a sum type.
\<close>

unbundle bit_operations_syntax

type_synonym u8 = "8 word"
type_synonym u16 = "16 word"
type_synonym u32 = "32 word"
type_synonym u64 = "64 word"

named_theorems panic_free \<open>an operation returns a value under the invariant\<close>

section \<open>Signed integers of a fixed width\<close>

text \<open>The value a Go \<open>int32\<close> holds after an operation whose exact result is \<open>x\<close>.\<close>

definition i32 :: "int \<Rightarrow> int" where
  "i32 x = signed_take_bit 31 x"

text \<open>The same for \<open>int64\<close>.\<close>

definition i64 :: "int \<Rightarrow> int" where
  "i64 x = signed_take_bit 63 x"

lemma i64_id: "- 9223372036854775808 \<le> x \<Longrightarrow> x < 9223372036854775808 \<Longrightarrow> i64 x = x"
  by (simp add: i64_def signed_take_bit_int_eq_self)

text \<open>\<open>int64(x)\<close> of a \<open>uint64\<close> difference.\<close>

definition i64_of :: "u64 \<Rightarrow> int" where
  "i64_of x = sint x"

lemma i32_id: "- (2 ^ 31) \<le> x \<Longrightarrow> x < 2 ^ 31 \<Longrightarrow> i32 x = x"
  by (simp add: i32_def signed_take_bit_int_eq_self)

lemma i32_small: "- 2147483648 \<le> x \<Longrightarrow> x < 2147483648 \<Longrightarrow> i32 x = x"
  by (rule i32_id) simp_all

lemma i32_range: "- (2 ^ 31) \<le> i32 x \<and> i32 x < 2 ^ 31"
  unfolding i32_def
  using signed_take_bit_int_greater_eq_minus_exp [of 31 x] signed_take_bit_int_less_exp [of 31 x]
  by simp

section \<open>Extended sequence numbers\<close>

text \<open>
  Incoming numbers below \<open>2 ^ 62\<close>: extended numbers start below \<open>2 ^ 16\<close> and grow by one per
  packet.
\<close>

definition sn_limit :: u64 where
  "sn_limit = 2 ^ 62"

lemma uint_sn_limit [simp]: "uint sn_limit = 2 ^ 62"
  by (simp add: sn_limit_def)

lemma below_limit: "x < sn_limit \<Longrightarrow> uint (x + 1) = uint x + 1"
  using uint_ge_0 [of x] by (simp add: word_less_def uint_plus_if')

lemma limit_bounds:
  assumes "x < sn_limit"
  shows "x < 2 ^ 63" "x + 1 \<le> 2 ^ 63" "x < x + 1"
  using assms below_limit [OF assms] by (simp_all add: word_less_def word_le_def)

lemma sn_diff:
  assumes "x < sn_limit" "y < sn_limit"
  shows "i64_of (x - y) = uint x - uint y"
proof -
  have "x - y = word_of_int (uint x - uint y)" by (simp only: wi_hom_sub [symmetric] word_of_int_uint)
  then have "i64_of (x - y) = signed_take_bit 63 (uint x - uint y)"
    by (simp add: i64_of_def sint_sbintrunc' del: of_int_diff)
  also have "\<dots> = uint x - uint y"
  proof (rule signed_take_bit_int_eq_self)
    have b: "uint x < 2 ^ 62" "uint y < 2 ^ 62" using assms by (simp_all add: word_less_def)
    show "- (2 ^ 63) \<le> uint x - uint y" using b by simp (use uint_ge_0 [of x] in linarith)
    show "uint x - uint y < 2 ^ 63" using b by simp (use uint_ge_0 [of y] in linarith)
  qed
  finally show ?thesis .
qed

lemma sn_cases:
  assumes "x < sn_limit" "y < sn_limit"
  shows "i64_of (x - y) = 1 \<longleftrightarrow> x = y + 1" "i64_of (x - y) > 1 \<longleftrightarrow> y + 1 < x"
    "i64_of (x - y) < 0 \<longleftrightarrow> x < y"
  using below_limit [OF assms(2)] by (auto simp: sn_diff [OF assms] word_less_def word_uint_eq_iff)

section \<open>Numbers and their cycles\<close>

text \<open>Two arithmetic facts about neighbouring numbers and the cycles they lie in.\<close>

lemma forward_cycle:
  fixes N X H :: int
  assumes "0 < N" "H \<le> X" "X - H < N"
  shows "X - X mod N = H - H mod N + (if X mod N < H mod N then N else 0)"
proof -
  have HN: "H = N * (H div N) + H mod N" by simp
  have r: "0 \<le> H mod N" "H mod N < N" using assms by auto
  show ?thesis
  proof (cases "H mod N + (X - H) < N")
    case True
    have "X mod N = (H mod N + (X - H)) mod N" by (simp add: mod_simps)
    also have "\<dots> = H mod N + (X - H)" using True assms r by (intro mod_pos_pos_trivial) auto
    finally show ?thesis using assms by simp
  next
    case False
    have "X mod N = (H mod N + (X - H) - N) mod N" by (simp add: mod_simps)
    also have "\<dots> = H mod N + (X - H) - N" using False assms r by (intro mod_pos_pos_trivial) auto
    finally show ?thesis using assms by simp
  qed
qed

lemma backward_cycle:
  fixes N X H :: int
  assumes "0 < N" "even N" "X < H" "H - X < N div 2"
  shows "X - X mod N = H - H mod N - (if H mod N < N div 2 \<and> N div 2 \<le> X mod N then N else 0)"
proof -
  have r: "0 \<le> X mod N" "X mod N < N" "0 \<le> H mod N" "H mod N < N" using assms by auto
  have lt: "N div 2 < N" using assms by simp
  have "H - H mod N = X - X mod N + (if H mod N < X mod N then N else 0)"
    by (rule forward_cycle) (use assms lt in auto)
  moreover have "X - X mod N \<noteq> H - H mod N" if "H mod N < N div 2" "N div 2 \<le> X mod N"
    using that assms by linarith
  moreover have "H mod N < N div 2 \<and> N div 2 \<le> X mod N" if "H mod N < X mod N"
  proof -
    have "H - X = H mod N - X mod N + N" using calculation(1) that by simp
    then have "H mod N - X mod N + N < N div 2" using assms by linarith
    moreover have "N = 2 * (N div 2)" using \<open>even N\<close> by simp
    ultimately show ?thesis using r by linarith
  qed
  ultimately show ?thesis by (auto split: if_splits)
qed

section \<open>Early returns\<close>

text \<open>The rest of a function after a statement that may have returned an error.\<close>

fun and_then :: "'e + 'a \<Rightarrow> ('a \<Rightarrow> 'e + 'b) \<Rightarrow> 'e + 'b" where
  "and_then (Inl e) f = Inl e"
| "and_then (Inr x) f = f x"

lemma and_then_assoc: "and_then (and_then m f) g = and_then m (\<lambda>x. and_then (f x) g)"
  by (cases m) auto

section \<open>Slices\<close>

text \<open>\<open>xs[i]\<close> with a Go \<open>int\<close> index: it panics out of range.\<close>

definition go_nth :: "'a list \<Rightarrow> int \<Rightarrow> 'a option" where
  "go_nth xs i = (if 0 \<le> i \<and> i < int (length xs) then Some (xs ! nat i) else None)"

text \<open>\<open>xs[i] = x\<close>.\<close>

definition go_update :: "'a list \<Rightarrow> int \<Rightarrow> 'a \<Rightarrow> 'a list option" where
  "go_update xs i x = (if 0 \<le> i \<and> i < int (length xs) then Some (xs[nat i := x]) else None)"

lemma go_nth_Some [simp]: "0 \<le> i \<Longrightarrow> i < int (length xs) \<Longrightarrow> go_nth xs i = Some (xs ! nat i)"
  by (simp add: go_nth_def)

lemma go_nth_of_nat [simp]: "go_nth xs (int n) = (if n < length xs then Some (xs ! n) else None)"
  by (simp add: go_nth_def)

lemma go_update_Some [simp]:
  "0 \<le> i \<Longrightarrow> i < int (length xs) \<Longrightarrow> go_update xs i x = Some (xs[nat i := x])"
  by (simp add: go_update_def)

section \<open>Runs of a component\<close>

text \<open>
  A component is driven by a list of operations; a run stops with \<^const>\<open>None\<close> at the first
  operation that panics.
\<close>

fun run_ops :: "('s \<Rightarrow> 'e \<Rightarrow> 's option) \<Rightarrow> 's \<Rightarrow> 'e list \<Rightarrow> 's option" where
  "run_ops f s [] = Some s"
| "run_ops f s (e # es) = (case f s e of None \<Rightarrow> None | Some t \<Rightarrow> run_ops f t es)"

lemma run_ops_append:
  "run_ops f s (xs @ ys) = (case run_ops f s xs of None \<Rightarrow> None | Some t \<Rightarrow> run_ops f t ys)"
  by (induction xs arbitrary: s) (auto split: option.splits)

text \<open>
  The contract shared by all components: an operation that is admissible in a state keeps
  the invariant and does not panic.  What it gives is that a whole run does neither.
\<close>

locale safe_component =
  fixes op_step :: "'s \<Rightarrow> 'e \<Rightarrow> 's option"
    and ok :: "'s \<Rightarrow> bool"
    and admissible :: "'e \<Rightarrow> bool"
  assumes step_safe: "ok s \<Longrightarrow> admissible e \<Longrightarrow> \<exists>t. op_step s e = Some t \<and> ok t"
begin

lemma run_safe: "ok s \<Longrightarrow> list_all admissible es \<Longrightarrow> \<exists>t. run_ops op_step s es = Some t \<and> ok t"
proof (induction es arbitrary: s)
  case Nil
  then show ?case by simp
next
  case (Cons e es)
  from Cons.prems obtain u where "op_step s e = Some u" "ok u"
    using step_safe [of s e] by auto
  with Cons.IH [of u] Cons.prems show ?case by simp
qed

end

end
