(* ===== verification/Wrap_Around.thy ===== *)
theory Wrap_Around
  imports Go_Prelude
begin

text \<open>
  Extension of wrapping RTP sequence numbers and timestamps to 64 bits
  (\<open>pkg/samvaad/transport/pkg/utils/wraparound.go\<close>), for any pair of widths \<open>'t\<close>
  (the wire) and \<open>'e\<close> (extended); the program uses (16, 64) and (32, 64).
\<close>

record ('t, 'e) wrap_around =
  wa_restart_allowed :: bool
  wa_full_range :: 'e
  wa_initialized :: bool
  wa_start :: 't
  wa_highest :: 't
  wa_cycles :: 'e
  wa_ext_highest :: 'e

record 'e wa_result =
  wr_unhandled :: bool
  wr_restart :: bool
  wr_pre_ext_start :: 'e
  wr_pre_ext_highest :: 'e
  wr_ext_val :: 'e

definition wa_result_zero :: "'e::len word wa_result" where
  "wa_result_zero = \<lparr>wr_unhandled = False, wr_restart = False, wr_pre_ext_start = 0,
     wr_pre_ext_highest = 0, wr_ext_val = 0\<rparr>"

definition new_wrap_around :: "bool \<Rightarrow> ('t::len word, 'e::len word) wrap_around" where
  "new_wrap_around restart = \<lparr>wa_restart_allowed = restart,
     wa_full_range = push_bit LENGTH('t) 1, wa_initialized = False, wa_start = 0,
     wa_highest = 0, wa_cycles = 0, wa_ext_highest = 0\<rparr>"

definition get_extended :: "'e::len word \<Rightarrow> 't::len word \<Rightarrow> 'e word" where
  "get_extended cycles val = cycles + ucast val"

definition update_ext_highest :: "('t::len word, 'e::len word) wrap_around \<Rightarrow> ('t word, 'e word) wrap_around" where
  "update_ext_highest w = w\<lparr>wa_ext_highest := get_extended (wa_cycles w) (wa_highest w)\<rparr>"

definition wa_seed :: "('t::len word, 'e::len word) wrap_around \<Rightarrow> ('t word, 'e word) wrap_around \<Rightarrow> ('t word, 'e word) wrap_around" where
  "wa_seed w from = update_ext_highest (w\<lparr>wa_initialized := wa_initialized from,
     wa_start := wa_start from, wa_highest := wa_highest from, wa_cycles := wa_cycles from\<rparr>)"

definition is_wrap_back :: "('t::len word, 'e::len word) wrap_around \<Rightarrow> 't word \<Rightarrow> 't word \<Rightarrow> bool" where
  "is_wrap_back w earlier later \<longleftrightarrow>
     ucast later < drop_bit 1 (wa_full_range w) \<and> ucast earlier \<ge> drop_bit 1 (wa_full_range w)"

definition wa_get_extended_start :: "('t::len word, 'e::len word) wrap_around \<Rightarrow> 'e word" where
  "wa_get_extended_start w = ucast (wa_start w)"

definition maybe_adjust_start ::
  "('t::len word, 'e::len word) wrap_around \<Rightarrow> 't word \<Rightarrow> ('t word, 'e word) wrap_around \<times> 'e word wa_result" where
  "maybe_adjust_start w val =
    (let half = drop_bit 1 (wa_full_range w);
         total_num = wa_ext_highest w - wa_get_extended_start w + 1;
         cycles = wa_cycles w;
         back = is_wrap_back w val (wa_highest w)
     in if total_num > half then
          (w, wa_result_zero\<lparr>wr_pre_ext_highest := wa_ext_highest w,
             wr_ext_val := get_extended (if back then cycles - wa_full_range w else cycles) val\<rparr>)
        else if val - wa_start w > ucast half then
          (if wa_restart_allowed w then
             let pre_start = (if val > wa_start w then wa_full_range w + ucast (wa_start w)
                              else ucast (wa_start w));
                 w1 = (if back then update_ext_highest (w\<lparr>wa_cycles := wa_full_range w\<rparr>) else w);
                 w2 = w1\<lparr>wa_start := val\<rparr>
             in (w2, wa_result_zero\<lparr>wr_restart := True, wr_pre_ext_start := pre_start,
                   wr_pre_ext_highest := wa_ext_highest w2,
                   wr_ext_val := get_extended (if back then 0 else cycles) val\<rparr>)
           else
             (w, wa_result_zero\<lparr>wr_unhandled := True, wr_pre_ext_highest := wa_ext_highest w,
                wr_ext_val := get_extended cycles val\<rparr>))
        else
          (w, wa_result_zero\<lparr>wr_pre_ext_highest := wa_ext_highest w,
             wr_ext_val := get_extended (if back then cycles - wa_full_range w else cycles) val\<rparr>))"

definition update_with_order_known ::
  "('t::len word, 'e::len word) wrap_around \<Rightarrow> 't word \<Rightarrow> bool \<Rightarrow> ('t word, 'e word) wrap_around \<times> 'e word wa_result" where
  "update_with_order_known w val order_known =
    (if \<not> wa_initialized w then
       (update_ext_highest (w\<lparr>wa_start := val, wa_highest := val\<rparr>)\<lparr>wa_initialized := True\<rparr>,
        wa_result_zero\<lparr>wr_pre_ext_highest := ucast val - 1, wr_ext_val := ucast val\<rparr>)
     else if \<not> order_known \<and> val - wa_highest w > ucast (drop_bit 1 (wa_full_range w)) then
       maybe_adjust_start w val
     else
       let w1 = (if val < wa_highest w then w\<lparr>wa_cycles := wa_cycles w + wa_full_range w\<rparr> else w);
           w2 = update_ext_highest (w1\<lparr>wa_highest := val\<rparr>)
       in (w2, wa_result_zero\<lparr>wr_pre_ext_highest := wa_ext_highest w,
             wr_ext_val := wa_ext_highest w2\<rparr>))"

definition wa_update :: "('t::len word, 'e::len word) wrap_around \<Rightarrow> 't word \<Rightarrow> ('t word, 'e word) wrap_around \<times> 'e word wa_result" where
  "wa_update w val = update_with_order_known w val False"

definition reset_highest :: "('t::len word, 'e::len word) wrap_around \<Rightarrow> 'e word \<Rightarrow> ('t word, 'e word) wrap_around" where
  "reset_highest w ev = update_ext_highest (w\<lparr>wa_highest := ucast ev,
     wa_cycles := ev AND NOT (wa_full_range w - 1)\<rparr>)"

definition undo_update :: "('t::len word, 'e::len word) wrap_around \<Rightarrow> 'e word wa_result \<Rightarrow> ('t word, 'e word) wrap_around" where
  "undo_update w res =
    (if \<not> wa_initialized w \<or> wr_unhandled res \<or> wr_pre_ext_highest res \<ge> wr_ext_val res then w
     else reset_highest w (wr_pre_ext_highest res))"

definition wa_rollover ::
  "('t::len word, 'e::len word) wrap_around \<Rightarrow> 't word \<Rightarrow> int \<Rightarrow> ('t word, 'e word) wrap_around \<times> 'e word wa_result" where
  "wa_rollover w val num_cycles =
    (if num_cycles < 0 \<or> \<not> wa_initialized w then wa_update w val
     else
       let w1 = w\<lparr>wa_cycles := wa_cycles w + word_of_int num_cycles * wa_full_range w,
                  wa_highest := val\<rparr>;
           w2 = update_ext_highest w1
       in (w2, wa_result_zero\<lparr>wr_pre_ext_highest := wa_ext_highest w,
             wr_ext_val := wa_ext_highest w2\<rparr>))"

definition rollback_restart :: "('t::len word, 'e::len word) wrap_around \<Rightarrow> 'e word \<Rightarrow> ('t word, 'e word) wrap_around" where
  "rollback_restart w ev =
    (let w1 = (if is_wrap_back w (wa_start w) (ucast ev)
               then update_ext_highest (w\<lparr>wa_cycles := wa_cycles w - wa_full_range w\<rparr>) else w)
     in w1\<lparr>wa_start := ucast ev\<rparr>)"


section \<open>Words and the true, unbounded numbering\<close>

abbreviation cyc :: "'t::len itself \<Rightarrow> int" where
  "cyc T \<equiv> 2 ^ LENGTH('t)"

lemma cyc_pos [simp]: "0 < cyc TYPE('t::len)"
  by simp

lemma cyc_half: "cyc TYPE('t::len) = 2 * (cyc TYPE('t) div 2)"
  by (simp add: power_gt_expt)

lemma cyc_less: "LENGTH('t::len) < LENGTH('e::len) \<Longrightarrow> cyc TYPE('t) < cyc TYPE('e)"
  by simp

lemma uint_full_range:
  assumes "LENGTH('t::len) < LENGTH('e::len)"
  shows "uint (push_bit LENGTH('t) 1 :: 'e word) = cyc TYPE('t)"
proof -
  have "push_bit LENGTH('t) 1 = (word_of_int (cyc TYPE('t)) :: 'e word)"
    by (simp add: push_bit_eq_mult)
  then show ?thesis
    using cyc_less [OF assms] by (simp only: uint_word_of_int mod_pos_pos_trivial cyc_pos less_imp_le)
qed

lemma uint_half_range:
  assumes "LENGTH('t::len) < LENGTH('e::len)"
  shows "uint (drop_bit 1 (push_bit LENGTH('t) 1 :: 'e word)) = cyc TYPE('t) div 2"
proof -
  have "uint (drop_bit 1 x) = drop_bit 1 (uint x)" for x :: "'e word"
    by (simp add: unsigned_drop_bit_eq take_bit_int_eq_self)
  then show ?thesis
    by (simp only: uint_full_range [OF assms] drop_bit_eq_div power_one_right)
qed

lemma full_range_of_int:
  "(push_bit LENGTH('t::len) 1 :: 'e::len word) = word_of_int (cyc TYPE('t))"
  by (simp add: push_bit_eq_mult)

lemma half_range_of_int:
  assumes "LENGTH('t::len) < LENGTH('e::len)"
  shows "drop_bit 1 (push_bit LENGTH('t) 1 :: 'e word) = word_of_int (cyc TYPE('t) div 2)"
  using uint_half_range [OF assms] by (metis word_of_int_uint)

lemma uint_half_range_narrow:
  assumes "LENGTH('t::len) < LENGTH('e::len)"
  shows "uint (ucast (drop_bit 1 (push_bit LENGTH('t) 1 :: 'e word)) :: 't word) = cyc TYPE('t) div 2"
proof -
  have "0 \<le> cyc TYPE('t) div 2" and "cyc TYPE('t) div 2 < cyc TYPE('t)"
    using cyc_pos [where 't = 't] by linarith+
  then show ?thesis
    by (simp only: unsigned_ucast_eq uint_half_range [OF assms] take_bit_eq_mod mod_pos_pos_trivial)
qed

lemma ucast_word_of_int:
  "(ucast (word_of_int X :: 't::len word) :: 'e::len word) = word_of_int (X mod cyc TYPE('t))"
  by (simp only: ucast_eq uint_word_of_int)

text \<open>
  \<open>wa_rep w S H\<close>: the component was started at the true number \<open>S\<close> and the highest true
  number it has seen is \<open>H\<close>.  True numbers are unbounded integers; the wire carries them
  modulo the range of \<open>'t\<close>.
\<close>

definition wa_rep :: "('t::len word, 'e::len word) wrap_around \<Rightarrow> int \<Rightarrow> int \<Rightarrow> bool" where
  "wa_rep w S H \<longleftrightarrow>
     wa_initialized w \<and> wa_full_range w = push_bit LENGTH('t) 1 \<and>
     wa_start w = word_of_int S \<and> wa_highest w = word_of_int H \<and>
     wa_cycles w = word_of_int (H - H mod cyc TYPE('t)) \<and> wa_ext_highest w = word_of_int H \<and>
     0 \<le> S \<and> S < cyc TYPE('t) \<and> S \<le> H \<and> H + 1 < cyc TYPE('e)"

lemma wa_repD:
  fixes w :: "('t::len word, 'e::len word) wrap_around"
  assumes "wa_rep w S H"
  shows "wa_initialized w" "wa_full_range w = push_bit LENGTH('t) 1"
    "wa_start w = word_of_int S" "wa_highest w = word_of_int H"
    "wa_cycles w = word_of_int (H - H mod cyc TYPE('t))" "wa_ext_highest w = word_of_int H"
    "0 \<le> S" "S < cyc TYPE('t)" "S \<le> H" "H + 1 < cyc TYPE('e)"
  using assms by (simp_all add: wa_rep_def)

lemma is_wrap_back_iff:
  fixes w :: "('t::len word, 'e::len word) wrap_around"
  assumes "LENGTH('t) < LENGTH('e)" and "wa_full_range w = push_bit LENGTH('t) 1"
  shows "is_wrap_back w (word_of_int X) (word_of_int Y) \<longleftrightarrow>
    Y mod cyc TYPE('t) < cyc TYPE('t) div 2 \<and> cyc TYPE('t) div 2 \<le> X mod cyc TYPE('t)"
proof -
  have le: "cyc TYPE('t) < cyc TYPE('e)" using assms(1) by simp
  have "X mod cyc TYPE('t) mod cyc TYPE('e) = X mod cyc TYPE('t)" for X
    using le pos_mod_bound [OF cyc_pos [where 't = 't], of X]
      pos_mod_sign [OF cyc_pos [where 't = 't], of X]
    by (simp only: mod_pos_pos_trivial)
  then show ?thesis
    by (simp only: is_wrap_back_def assms(2) ucast_word_of_int word_less_def word_le_def
        uint_half_range [OF assms(1)] uint_word_of_int)
qed

lemma get_extended_of_int:
  "get_extended (word_of_int C :: 'e::len word) (word_of_int X :: 't::len word) =
     word_of_int (C + X mod cyc TYPE('t))"
  by (simp add: get_extended_def ucast_word_of_int)

section \<open>The extension tracks the true numbering\<close>

lemma get_extended_at:
  "get_extended (word_of_int (X - X mod cyc TYPE('t)) :: 'e::len word) (word_of_int X :: 't::len word)
     = word_of_int X"
  by (simp only: get_extended_of_int diff_add_cancel)

text \<open>What an in-order update does, whatever the order is based on.\<close>

lemma update_advance:
  fixes w :: "('t::len word, 'e::len word) wrap_around"
  assumes L: "LENGTH('t) < LENGTH('e)" and rep: "wa_rep w S H"
    and X: "H \<le> X" "X - H < cyc TYPE('t)" "X + 1 < cyc TYPE('e)"
    and ord: "known \<or> \<not> word_of_int X - wa_highest w > (ucast (drop_bit 1 (wa_full_range w)) :: 't word)"
    and upd: "update_with_order_known w (word_of_int X) known = (w', res)"
  shows "wa_rep w' S X \<and> wr_ext_val res = word_of_int X \<and>
    wr_pre_ext_highest res = word_of_int H \<and> \<not> wr_unhandled res \<and> \<not> wr_restart res"
proof -
  let ?N = "cyc TYPE('t)" and ?v = "word_of_int X :: 't word"
  define C where "C = (if ?v < wa_highest w then wa_cycles w + wa_full_range w else wa_cycles w)"
  have "(?v < word_of_int H) = (X mod ?N < H mod ?N)"
    by (simp only: word_less_def uint_word_of_int)
  moreover have "X - X mod ?N = H - H mod ?N + (if X mod ?N < H mod ?N then ?N else 0)"
    using X by (intro forward_cycle) auto
  ultimately have C: "C = word_of_int (X - X mod ?N)"
    by (cases "X mod ?N < H mod ?N")
      (simp_all only: C_def wa_repD [OF rep] full_range_of_int wi_hom_add add_0_right if_True if_False)
  have "w' = w\<lparr>wa_cycles := C, wa_highest := ?v, wa_ext_highest := get_extended C ?v\<rparr>"
    and "res = wa_result_zero\<lparr>wr_pre_ext_highest := wa_ext_highest w, wr_ext_val := get_extended C ?v\<rparr>"
    using upd ord wa_repD(1) [OF rep]
    by (auto simp: update_with_order_known_def Let_def update_ext_highest_def C_def)
  with C rep X show ?thesis
    by (simp add: get_extended_at wa_rep_def wa_result_zero_def del: of_int_diff)
qed

lemma update_in_order:
  fixes w :: "('t::len word, 'e::len word) wrap_around"
  assumes L: "LENGTH('t) < LENGTH('e)" and rep: "wa_rep w S H"
    and X: "H \<le> X" "X - H \<le> cyc TYPE('t) div 2" "X + 1 < cyc TYPE('e)"
    and upd: "wa_update w (word_of_int X) = (w', res)"
  shows "wa_rep w' S X \<and> wr_ext_val res = word_of_int X \<and>
    wr_pre_ext_highest res = word_of_int H \<and> \<not> wr_unhandled res \<and> \<not> wr_restart res"
proof -
  let ?N = "cyc TYPE('t)"
  have lt: "?N div 2 < ?N" using cyc_pos [where 't = 't] by linarith
  have "uint (word_of_int X - word_of_int H :: 't word) = (X - H) mod ?N"
    by (simp only: wi_hom_sub uint_word_of_int)
  also have "\<dots> = X - H" using X lt by (intro mod_pos_pos_trivial) auto
  finally have "\<not> word_of_int X - wa_highest w > (ucast (drop_bit 1 (wa_full_range w)) :: 't word)"
    using X by (simp only: word_less_def wa_repD [OF rep] uint_half_range_narrow [OF L])
  then show ?thesis
    using update_advance [OF L rep X(1) _ X(3) _ upd [unfolded wa_update_def]] X lt by simp
qed

text \<open>A packet that arrives late, by less than half the range, is given the number it has.\<close>

lemma update_out_of_order:
  fixes w :: "('t::len word, 'e::len word) wrap_around"
  assumes L: "LENGTH('t) < LENGTH('e)" and rep: "wa_rep w S H"
    and X: "S \<le> X" "X < H" "H - X < cyc TYPE('t) div 2"
    and upd: "wa_update w (word_of_int X) = (w', res)"
  shows "w' = w \<and> wr_ext_val res = word_of_int X \<and>
    wr_pre_ext_highest res = word_of_int H \<and> \<not> wr_unhandled res \<and> \<not> wr_restart res"
proof -
  let ?N = "cyc TYPE('t)" and ?v = "word_of_int X :: 't word"
  have lt: "?N div 2 < ?N" and even: "even ?N" using cyc_pos [where 't = 't] by (linarith, simp)
  have "uint (?v - word_of_int H) = (X - H) mod ?N"
    by (simp only: wi_hom_sub uint_word_of_int)
  also have "\<dots> = (X - H + ?N) mod ?N" by simp
  also have "\<dots> = X - H + ?N" using X lt by (intro mod_pos_pos_trivial) auto
  finally have gap: "?v - wa_highest w > (ucast (drop_bit 1 (wa_full_range w)) :: 't word)"
    using X even by (simp only: word_less_def wa_repD [OF rep] uint_half_range_narrow [OF L])
  define C where "C = (if is_wrap_back w ?v (wa_highest w) then wa_cycles w - wa_full_range w else wa_cycles w)"
  have "X - X mod ?N = H - H mod ?N - (if H mod ?N < ?N div 2 \<and> ?N div 2 \<le> X mod ?N then ?N else 0)"
    using X even by (intro backward_cycle) auto
  then have C: "C = word_of_int (X - X mod ?N)"
    unfolding C_def wa_repD(4) [OF rep] is_wrap_back_iff [OF L wa_repD(2) [OF rep]]
    by (cases "H mod ?N < ?N div 2 \<and> ?N div 2 \<le> X mod ?N")
      (simp_all only: wa_repD [OF rep] full_range_of_int wi_hom_sub diff_0_right if_True if_False simp_thms)
  have near: "\<not> ?v - wa_start w > (ucast (drop_bit 1 (wa_full_range w)) :: 't word)"
    if "\<not> wa_ext_highest w - wa_get_extended_start w + 1 > drop_bit 1 (wa_full_range w)"
  proof -
    have S: "S mod ?N = S" using wa_repD [OF rep] by simp
    have "wa_ext_highest w - wa_get_extended_start w + 1 = word_of_int (H - S + 1)"
      by (simp only: wa_repD [OF rep] wa_get_extended_start_def ucast_word_of_int S wi_hom_sub) simp
    moreover have "uint (word_of_int (H - S + 1) :: 'e word) = H - S + 1"
      using wa_repD [OF rep] by (simp only: uint_word_of_int) (intro mod_pos_pos_trivial, auto)
    ultimately have few: "H - S + 1 \<le> ?N div 2"
      using that by (simp only: word_less_def wa_repD [OF rep] uint_half_range [OF L])
    have "uint (?v - word_of_int S) = (X - S) mod ?N"
      by (simp only: wi_hom_sub uint_word_of_int)
    also have "\<dots> = X - S" using X few lt by (intro mod_pos_pos_trivial) auto
    finally show ?thesis
      using X few by (simp only: word_less_def wa_repD [OF rep] uint_half_range_narrow [OF L])
  qed
  have "w' = w" and "res = wa_result_zero\<lparr>wr_pre_ext_highest := wa_ext_highest w, wr_ext_val := get_extended C ?v\<rparr>"
    using upd gap near wa_repD(1) [OF rep]
    by (auto simp: wa_update_def update_with_order_known_def maybe_adjust_start_def Let_def C_def
        split: if_splits)
  with C rep show ?thesis
    by (simp add: get_extended_at wa_repD [OF rep] wa_result_zero_def del: of_int_diff)
qed

section \<open>Undoing an update\<close>

lemma clear_low_bits:
  "(word_of_int H :: 'e::len word) AND NOT (push_bit LENGTH('t::len) 1 - 1)
     = word_of_int (H - H mod cyc TYPE('t))"
proof -
  let ?x = "word_of_int H :: 'e word" and ?n = "LENGTH('t)"
  have m: "push_bit ?n 1 - 1 = (mask ?n :: 'e word)"
    by (simp add: mask_eq_exp_minus_1 push_bit_eq_mult)
  have "?x AND NOT (mask ?n) = push_bit ?n (drop_bit ?n ?x)"
    by (rule bit_word_eqI) (auto simp: bit_simps)
  also have "\<dots> = ?x - take_bit ?n ?x"
    using bits_ident [of ?n ?x] by (simp add: eq_diff_eq)
  also have "take_bit ?n ?x = word_of_int (H mod cyc TYPE('t))"
    by (subst take_bit_of_int) (simp only: take_bit_eq_mod)
  finally show ?thesis by (simp only: m wi_hom_sub)
qed

lemma undo_restores:
  fixes w :: "('t::len word, 'e::len word) wrap_around"
  assumes L: "LENGTH('t) < LENGTH('e)" and rep: "wa_rep w S H"
    and X: "H < X" "X - H \<le> cyc TYPE('t) div 2" "X + 1 < cyc TYPE('e)"
    and upd: "wa_update w (word_of_int X) = (w', res)"
  shows "wa_rep (undo_update w' res) S H"
proof -
  have w': "wa_rep w' S X" and res: "wr_ext_val res = word_of_int X"
    "wr_pre_ext_highest res = word_of_int H" "\<not> wr_unhandled res"
    using update_in_order [OF L rep _ X(2,3) upd] X(1) by auto
  have H0: "0 \<le> H" "H + 1 < cyc TYPE('e)" using wa_repD [OF rep] by auto
  have "uint (word_of_int H :: 'e word) = H" "uint (word_of_int X :: 'e word) = X"
    using H0 X by (auto simp: uint_word_of_int intro!: mod_pos_pos_trivial)
  then have "wr_pre_ext_highest res < wr_ext_val res"
    using X(1) by (simp only: res word_less_def)
  then have und: "undo_update w' res = reset_highest w' (word_of_int H)"
    using wa_repD(1) [OF w'] res by (simp add: undo_update_def)
  have nar: "(ucast (word_of_int H :: 'e word) :: 't word) = word_of_int H"
  proof -
    have "(ucast (word_of_int H :: 'e word) :: 't word) = word_of_int (H mod cyc TYPE('e))"
      by (rule ucast_word_of_int)
    also have "H mod cyc TYPE('e) = H" using H0 by (intro mod_pos_pos_trivial) auto
    finally show ?thesis .
  qed
  show ?thesis
    unfolding und reset_highest_def update_ext_highest_def wa_rep_def
    using wa_repD [OF rep] wa_repD [OF w']
    by (simp add: nar clear_low_bits [unfolded push_bit_eq_mult mult_1] get_extended_at del: of_int_diff)
qed

section \<open>A stream of packets\<close>

text \<open>The extended values given to a stream of wire values.\<close>

fun wa_feed :: "('t::len word, 'e::len word) wrap_around \<Rightarrow> 't word list \<Rightarrow> 'e word list" where
  "wa_feed w [] = []"
| "wa_feed w (v # vs) = (case wa_update w v of (w', res) \<Rightarrow> wr_ext_val res # wa_feed w' vs)"

text \<open>
  The streams the component is meant for, over true numbers: none older than the start, and
  each less than half of the wire's range away from the highest one before it.
\<close>

fun stream_ok :: "'t::len itself \<Rightarrow> 'e::len itself \<Rightarrow> int \<Rightarrow> int \<Rightarrow> int list \<Rightarrow> bool" where
  "stream_ok T E S H [] = True"
| "stream_ok T E S H (X # Xs) = (S \<le> X \<and> \<bar>X - H\<bar> < cyc T div 2 \<and> X + 1 < cyc E \<and>
     stream_ok T E S (max H X) Xs)"

lemma wa_feed_rep:
  fixes w :: "('t::len word, 'e::len word) wrap_around"
  assumes L: "LENGTH('t) < LENGTH('e)"
  shows "wa_rep w S H \<Longrightarrow> stream_ok TYPE('t) TYPE('e) S H Xs \<Longrightarrow>
    wa_feed w (map word_of_int Xs) = map word_of_int Xs"
proof (induction Xs arbitrary: w H)
  case Nil
  then show ?case by simp
next
  case (Cons X Xs)
  obtain w' res where upd: "wa_update w (word_of_int X) = (w', res)" by fastforce
  have "wa_rep w' S (max H X) \<and> wr_ext_val res = word_of_int X"
  proof (cases "H \<le> X")
    case True
    with Cons.prems show ?thesis
      using update_in_order [OF L Cons.prems(1) True _ _ upd] by (simp add: max_def)
  next
    case False
    with Cons.prems show ?thesis
      using update_out_of_order [OF L Cons.prems(1) _ _ _ upd] by (simp add: max_def)
  qed
  with Cons.prems upd Cons.IH [of w' "max H X"] show ?case by simp
qed

lemma wa_first:
  fixes w :: "('t::len word, 'e::len word) wrap_around"
  assumes L: "LENGTH('t) < LENGTH('e)" and X: "0 \<le> X" "X < cyc TYPE('t)"
    and upd: "wa_update (new_wrap_around restart :: ('t word, 'e word) wrap_around) (word_of_int X) = (w, res)"
  shows "wa_rep w X X \<and> wr_ext_val res = word_of_int X"
proof -
  have x: "X mod cyc TYPE('t) = X" using X by simp
  have "LENGTH('t) + 1 \<le> LENGTH('e)" using L by simp
  then have "2 * cyc TYPE('t) \<le> cyc TYPE('e)"
    by (metis power_add power_increasing mult.commute power_one_right one_le_numeral)
  then have "X + 1 < cyc TYPE('e)" using X by linarith
  with upd X x show ?thesis
    by (auto simp: wa_update_def update_with_order_known_def new_wrap_around_def update_ext_highest_def
        wa_rep_def wa_result_zero_def ucast_word_of_int get_extended_def)
qed

section \<open>A packet from before the start\<close>

text \<open>
  When restarts are allowed and the stream is still short, a packet from before the start
  moves the start back.  If its true number would be negative, the whole numbering is shifted
  up by one cycle, so that extended numbers never become negative.
\<close>

definition rebase :: "'t::len itself \<Rightarrow> int \<Rightarrow> int" where
  "rebase T X = (if X < 0 then 2 ^ LENGTH('t) else 0)"

lemma gap_mod:
  assumes "X < H" "H - X < cyc TYPE('t::len) div 2" "LENGTH('t) < LENGTH('e::len)"
  shows "(word_of_int X :: 't word) - word_of_int H > ucast (drop_bit 1 (push_bit LENGTH('t) 1 :: 'e word))"
proof -
  let ?N = "cyc TYPE('t)"
  have lt: "?N div 2 < ?N" and even: "even ?N" using cyc_pos [where 't = 't] by (linarith, simp)
  have "uint ((word_of_int X :: 't word) - word_of_int H) = (X - H) mod ?N"
    by (simp only: wi_hom_sub uint_word_of_int)
  also have "\<dots> = (X - H + ?N) mod ?N" by simp
  also have "\<dots> = X - H + ?N" using assms lt by (intro mod_pos_pos_trivial) auto
  finally show ?thesis
    using assms even by (simp only: word_less_def uint_half_range_narrow [OF assms(3)])
qed

lemma update_restart:
  fixes w :: "('t::len word, 'e::len word) wrap_around"
  assumes L: "LENGTH('t) < LENGTH('e)" and rep: "wa_rep w S H" and allowed: "wa_restart_allowed w"
    and X: "X < S" "H - X < cyc TYPE('t) div 2"
    and upd: "wa_update w (word_of_int X) = (w', res)"
  defines "b \<equiv> rebase TYPE('t) X"
  shows "wr_restart res \<and> \<not> wr_unhandled res \<and> wa_rep w' (X + b) (H + b) \<and>
    wr_ext_val res = word_of_int (X + b) \<and> wr_pre_ext_start res = word_of_int (S + b) \<and>
    wr_pre_ext_highest res = word_of_int (H + b)"
proof -
  let ?N = "cyc TYPE('t)" and ?v = "word_of_int X :: 't word"
  note r = wa_repD [OF rep]
  have N: "?N div 2 < ?N" "?N = 2 * (?N div 2)"
    using cyc_pos [where 't = 't] by (linarith, simp)
  have gap: "?v - wa_highest w > (ucast (drop_bit 1 (wa_full_range w)) :: 't word)"
    and gap': "?v - wa_start w > (ucast (drop_bit 1 (wa_full_range w)) :: 't word)"
    using gap_mod [OF _ _ L, of X H] gap_mod [OF _ _ L, of X S] X r(9)
    unfolding r(2-4) by linarith+
  have N2: "2 * ?N \<le> cyc TYPE('e)"
    using L by (metis Suc_leI power_Suc power_increasing one_le_numeral)
  have S: "S mod ?N = S" using r by simp
  have "wa_ext_highest w - wa_get_extended_start w + 1 = word_of_int (H - S + 1)"
    by (simp only: r wa_get_extended_start_def ucast_word_of_int S wi_hom_sub) simp
  moreover have "uint (word_of_int (H - S + 1) :: 'e word) = H - S + 1"
    using r by (simp only: uint_word_of_int) (intro mod_pos_pos_trivial, auto)
  ultimately have few: "\<not> wa_ext_highest w - wa_get_extended_start w + 1 > drop_bit 1 (wa_full_range w)"
    using X by (simp only: word_less_def r uint_half_range [OF L])
  define bk where "bk = is_wrap_back w ?v (wa_highest w)"
  have Xb: "X mod ?N = X + b" "0 \<le> X + b" "X + b < ?N"
  proof -
    have "X mod ?N = (X + b) mod ?N" by (simp add: b_def rebase_def)
    then show "X mod ?N = X + b" "0 \<le> X + b" "X + b < ?N"
      using X r N by (auto simp: b_def rebase_def)
  qed
  have cH: "X - X mod ?N = H - H mod ?N - (if H mod ?N < ?N div 2 \<and> ?N div 2 \<le> X mod ?N then ?N else 0)"
    using X r(9) by (intro backward_cycle) auto
  have bk_iff: "bk = (H mod ?N < ?N div 2 \<and> ?N div 2 \<le> X mod ?N)"
    by (simp only: bk_def r(4) is_wrap_back_iff [OF L r(2)])
  have Hb: "H - H mod ?N = (if bk then ?N else 0) - b"
    using cH Xb(1) by (simp add: bk_iff split: if_splits)
  have gt: "?v > wa_start w \<longleftrightarrow> X < 0"
    using Xb X r S N by (simp only: r(3) word_less_def uint_word_of_int) (auto simp: b_def rebase_def)
  define w1 where "w1 = (if bk then update_ext_highest (w\<lparr>wa_cycles := wa_full_range w\<rparr>) else w)"
  have w': "w' = w1\<lparr>wa_start := ?v\<rparr>"
    and res: "res = wa_result_zero\<lparr>wr_restart := True,
       wr_pre_ext_start := (if ?v > wa_start w then wa_full_range w + ucast (wa_start w) else ucast (wa_start w)),
       wr_pre_ext_highest := wa_ext_highest w1, wr_ext_val := get_extended (if bk then 0 else wa_cycles w) ?v\<rparr>"
    using upd gap gap' few r(1) allowed
    by (simp_all add: wa_update_def update_with_order_known_def maybe_adjust_start_def Let_def bk_def w1_def)
  have b0: "b = 0 \<or> b = ?N \<and> bk"
  proof (cases "X < 0")
    case True
    then have "b = ?N" by (simp add: b_def rebase_def)
    then show ?thesis using Hb r X N True by (auto split: if_splits)
  qed (simp add: b_def rebase_def)
  have Hb_mod: "(H + b) mod ?N = H mod ?N" by (simp add: b_def rebase_def)
  have cyc1: "wa_cycles w1 = word_of_int (H + b - (H + b) mod ?N)" and ext1: "wa_ext_highest w1 = word_of_int (H + b)"
  proof -
    have C: "H + b - (H + b) mod ?N = (if bk then ?N else 0)" using Hb Hb_mod by linarith
    show "wa_cycles w1 = word_of_int (H + b - (H + b) mod ?N)"
      unfolding C using Hb b0 by (cases bk) (auto simp: w1_def update_ext_highest_def r full_range_of_int simp del: of_int_diff)
    have "word_of_int (H + b) = get_extended (word_of_int (H + b - (H + b) mod ?N) :: 'e word) (word_of_int H :: 't word)"
      by (simp only: get_extended_of_int Hb_mod) simp
    then show "wa_ext_highest w1 = word_of_int (H + b)"
      unfolding C using b0 by (cases bk) (auto simp: w1_def update_ext_highest_def r full_range_of_int)
  qed
  have "H + b + 1 < cyc TYPE('e)"
    using X r N N2 by (auto simp: b_def rebase_def)
  moreover have "(word_of_int (X + b) :: 't word) = ?v" "(word_of_int (H + b) :: 't word) = word_of_int H"
    by (simp_all add: b_def rebase_def flip: full_range_of_int)
  ultimately have "wa_rep w' (X + b) (H + b)"
    using Xb X r cyc1 ext1 by (simp add: w' wa_rep_def w1_def update_ext_highest_def)
  moreover have "get_extended (if bk then 0 else wa_cycles w) ?v = word_of_int (X + b)"
    using Hb b0 Xb(1) get_extended_of_int [where C = 0 and X = X and 'e = 'e and 't = 't]
    by (cases bk) (auto simp: r)
  moreover have "(if ?v > wa_start w then wa_full_range w + ucast (wa_start w) else ucast (wa_start w)) = (word_of_int (S + b) :: 'e word)"
    unfolding gt unfolding r(2,3) full_range_of_int ucast_word_of_int S by (simp add: b_def rebase_def)
  ultimately show ?thesis by (simp add: res ext1 wa_result_zero_def)
qed

lemma wa_rep_unique:
  assumes "wa_rep v S H" "wa_rep w S H" "wa_restart_allowed v = wa_restart_allowed w"
  shows "v = w"
  using assms by (cases v; cases w) (simp add: wa_rep_def)

lemma rollback_rep:
  fixes w :: "('t::len word, 'e::len word) wrap_around"
  assumes L: "LENGTH('t) < LENGTH('e)" and rep: "wa_rep w S H" and allowed: "wa_restart_allowed w"
    and X: "X < S" "H - X < cyc TYPE('t) div 2"
    and upd: "wa_update w (word_of_int X) = (w', res)"
  shows "wa_rep (rollback_restart w' (wr_pre_ext_start res)) S H"
proof -
  let ?N = "cyc TYPE('t)"
  define b where "b = rebase TYPE('t) X"
  note r = wa_repD [OF rep]
  have N: "?N div 2 < ?N" "?N = 2 * (?N div 2)" using cyc_pos [where 't = 't] by (linarith, simp)
  have N2: "2 * ?N \<le> cyc TYPE('e)"
    using L by (metis Suc_leI power_Suc power_increasing one_le_numeral)
  have w': "wa_rep w' (X + b) (H + b)" and ps: "wr_pre_ext_start res = word_of_int (S + b)"
    using update_restart [OF L rep allowed X upd] by (simp_all add: b_def)
  note r' = wa_repD [OF w']
  have Sb: "(S + b) mod ?N = S" using r by (simp add: b_def rebase_def)
  have "(ucast (word_of_int (S + b) :: 'e word) :: 't word) = word_of_int ((S + b) mod cyc TYPE('e))"
    by (rule ucast_word_of_int)
  also have "(S + b) mod cyc TYPE('e) = S + b"
    using r N2 N by (intro mod_pos_pos_trivial) (auto simp: b_def rebase_def)
  finally have nar: "(ucast (wr_pre_ext_start res) :: 't word) = word_of_int S"
    by (simp add: ps b_def rebase_def flip: full_range_of_int)
  have H0: "H < ?N div 2" if "X < 0" using X that by linarith
  have bk: "is_wrap_back w' (wa_start w') (word_of_int S) \<longleftrightarrow> X < 0"
    unfolding r'(3) is_wrap_back_iff [OF L r'(2)] using r r' X N H0
    by (auto simp: b_def rebase_def)
  have Hmod: "(H + b) mod ?N = H mod ?N" and bz: "(word_of_int b :: 't word) = 0"
    by (simp_all add: b_def rebase_def flip: full_range_of_int)
  have wrapped: "word_of_int (H + b - (H + b) mod ?N) - (push_bit LENGTH('t) 1 :: 'e word) = word_of_int (H - H mod ?N)"
    if "X < 0"
  proof -
    have "H + b - (H + b) mod ?N = H - H mod ?N + ?N"
      using Hmod that by (simp add: b_def rebase_def)
    then show ?thesis by (simp only: full_range_of_int wi_hom_sub add_diff_cancel_right')
  qed
  show ?thesis
  proof (cases "X < 0")
    case True
    then show ?thesis
      unfolding rollback_restart_def Let_def nar
      using r r' bk wrapped [OF True] by (simp add: wa_rep_def update_ext_highest_def bz get_extended_at del: of_int_diff)
  next
    case False
    then show ?thesis
      unfolding rollback_restart_def Let_def nar
      using r r' bk by (simp add: wa_rep_def b_def rebase_def del: of_int_diff)
  qed
qed

lemma restart_allowed_update [simp]:
  "wa_restart_allowed (fst (wa_update w v)) = wa_restart_allowed w"
  by (auto simp: wa_update_def update_with_order_known_def maybe_adjust_start_def Let_def update_ext_highest_def)

section \<open>Properties\<close>

text \<open>
  C14. Starting from a fresh component, the extended values given to a stream of wire values are
  the true numbers of its packets, through wrap-arounds of the wire's counter, with packets out
  of order or repeated, as long as none is older than the first packet or half of the wire's
  range or more away from the highest number before it.
\<close>

theorem wrap_around_tracks:
  assumes "LENGTH('t::len) < LENGTH('e::len)" "0 \<le> X" "X < cyc TYPE('t)"
    "stream_ok TYPE('t) TYPE('e) X X Xs"
  shows "wa_feed (new_wrap_around restart :: ('t word, 'e word) wrap_around) (map word_of_int (X # Xs))
    = map word_of_int (X # Xs)"
proof -
  obtain w res where upd: "wa_update (new_wrap_around restart :: ('t word, 'e word) wrap_around) (word_of_int X) = (w, res)"
    by fastforce
  with wa_first [OF assms(1-3) upd] wa_feed_rep [OF assms(1), of w X X Xs] assms(4) show ?thesis
    by simp
qed

lemma wire_numerals:
  "(65536::u16) = 0" "(65537::u16) = 1" "(65539::u16) = 3" "(65541::u16) = 5" "(- 3::u16) = 65533"
  by simp_all

theorem wrap_around_tracks_witness:
  "wa_feed (new_wrap_around False :: (u16, u64) wrap_around) [65534, 1, 65535, 0, 5] =
     [65534, 65537, 65535, 65536, 65541]"
  using wrap_around_tracks [where 't = 16 and 'e = 64, of 65534 "[65537, 65535, 65536, 65541]" False]
  by (simp add: wire_numerals del: wa_feed.simps)

text \<open>
  \<open>UndoUpdate\<close> is an exact inverse of an update that moved the highest number: for a
  component that has seen the numbers \<open>S\<close> to \<open>H\<close>, receiving \<open>X > H\<close> and undoing it gives back
  the component it was, also when the update had wrapped.
\<close>

lemma undo_is_inverse:
  fixes w :: "('t::len word, 'e::len word) wrap_around"
  assumes "LENGTH('t) < LENGTH('e)" "wa_rep w S H" "H < X" "X - H \<le> cyc TYPE('t) div 2" "X + 1 < cyc TYPE('e)"
  shows "(case wa_update w (word_of_int X) of (w', res) \<Rightarrow> undo_update w' res) = w"
proof -
  obtain w' res where upd: "wa_update w (word_of_int X) = (w', res)" by fastforce
  have "wa_restart_allowed (undo_update w' res) = wa_restart_allowed w"
    using restart_allowed_update [of w "word_of_int X"] upd
    by (simp add: undo_update_def reset_highest_def update_ext_highest_def)
  with wa_rep_unique [OF undo_restores [OF assms upd] assms(2)] upd show ?thesis by simp
qed

definition wa_example :: "(u16, u64) wrap_around" where
  "wa_example = fst (wa_update (new_wrap_around True) 65530)"

lemma wa_example_rep: "wa_rep wa_example 65530 65530"
  by (simp add: wa_example_def wa_update_def update_with_order_known_def new_wrap_around_def
      update_ext_highest_def wa_rep_def get_extended_def)

text \<open>
  A packet from before the start of a short stream is a restart: it moves the start back,
  is given its true number (shifted with the whole numbering by one cycle if it would be
  negative), and \<open>RollbackRestart\<close> with the reported previous start gives back the
  component it was.
\<close>

lemma restart_and_rollback:
  fixes w :: "('t::len word, 'e::len word) wrap_around"
  assumes "LENGTH('t) < LENGTH('e)" "wa_rep w S H" "wa_restart_allowed w"
    "X < S" "H - X < cyc TYPE('t) div 2"
  shows "(case wa_update w (word_of_int X) of (w', res) \<Rightarrow>
    wr_restart res \<and> wr_ext_val res = word_of_int (X + rebase TYPE('t) X) \<and>
    wa_rep w' (X + rebase TYPE('t) X) (H + rebase TYPE('t) X) \<and>
    rollback_restart w' (wr_pre_ext_start res) = w)"
proof -
  obtain w' res where upd: "wa_update w (word_of_int X) = (w', res)" by fastforce
  have "wa_restart_allowed (rollback_restart w' (wr_pre_ext_start res)) = wa_restart_allowed w"
    using restart_allowed_update [of w "word_of_int X"] upd
    by (simp add: rollback_restart_def Let_def update_ext_highest_def)
  with wa_rep_unique [OF rollback_rep [OF assms upd] assms(2)] update_restart [OF assms upd] upd
  show ?thesis by simp
qed

end
