(* ===== verification/Range_Map.thy ===== *)
theory Range_Map
  imports Go_Prelude
begin

text \<open>
  Offsets of sequence numbers kept by ranges (\<open>pkg/sfu/utils/rangemap.go\<close>), at the only
  instance the program uses, \<open>RangeMap[uint64, uint64]\<close>.

  The slice \<open>ranges\<close> holds closed ranges followed by one open range and is never empty
  (\<open>initRanges\<close> makes the open range, \<open>prune\<close> keeps it).  The model keeps the open range and
  the closed ones apart, the closed ones newest first, so that \<open>append\<close> is \<open>#\<close>, the
  backwards loop of \<open>GetValue\<close> is a recursion and \<open>prune\<close> is \<^const>\<open>take\<close>.
\<close>

record range_val =
  rv_start :: u64
  rv_end :: u64
  rv_value :: u64

datatype range_err = ErrReversedOrder | ErrKeyNotFound | ErrKeyTooOld | ErrKeyExcluded

record range_map =
  rm_half_range :: u64
  rm_size :: int
  rm_open :: range_val
  rm_closed :: "range_val list"

definition min_ranges :: int where
  "min_ranges = 1"

definition init_ranges :: "range_map \<Rightarrow> u64 \<Rightarrow> u64 \<Rightarrow> range_map" where
  "init_ranges r start val = r\<lparr>rm_open := \<lparr>rv_start = start, rv_end = 0, rv_value = val\<rparr>, rm_closed := []\<rparr>"

definition new_range_map :: "int \<Rightarrow> range_map" where
  "new_range_map size' =
     init_ranges \<lparr>rm_half_range = push_bit 63 1, rm_size = max size' min_ranges,
       rm_open = \<lparr>rv_start = 0, rv_end = 0, rv_value = 0\<rparr>, rm_closed = []\<rparr> 0 0"

definition clear_and_reset_value :: "range_map \<Rightarrow> u64 \<Rightarrow> u64 \<Rightarrow> range_map" where
  "clear_and_reset_value r start val = init_ranges r start val"

definition rm_prune :: "range_map \<Rightarrow> range_map" where
  "rm_prune r = (if int (length (rm_closed r)) + 1 > rm_size r + 1
     then r\<lparr>rm_closed := take (nat (rm_size r)) (rm_closed r)\<rparr> else r)"

definition dec_value :: "range_map \<Rightarrow> u64 \<Rightarrow> u64 \<Rightarrow> range_map" where
  "dec_value r end' dec =
    (let lr = rm_open r
     in if rv_start lr > end' then r\<lparr>rm_open := lr\<lparr>rv_value := rv_value lr - dec\<rparr>\<rparr>
        else rm_prune (r\<lparr>rm_open := \<lparr>rv_start = end' + 1, rv_end = 0, rv_value = rv_value lr - dec\<rparr>,
               rm_closed := lr\<lparr>rv_end := end'\<rparr> # rm_closed r\<rparr>))"

definition exclude_range :: "range_map \<Rightarrow> u64 \<Rightarrow> u64 \<Rightarrow> range_err option \<times> range_map" where
  "exclude_range r start_incl end_excl =
    (if end_excl = start_incl \<or> end_excl - start_incl > rm_half_range r then (Some ErrReversedOrder, r)
     else let lr = rm_open r
     in if rv_start lr > start_incl then (Some ErrReversedOrder, r)
        else let new_value = rv_value lr + (end_excl - start_incl)
        in if rv_start lr = start_incl
           then (None, r\<lparr>rm_open := lr\<lparr>rv_start := end_excl, rv_value := new_value\<rparr>\<rparr>)
           else (None, rm_prune (r\<lparr>rm_open := \<lparr>rv_start = end_excl, rv_end = 0, rv_value = new_value\<rparr>,
                   rm_closed := lr\<lparr>rv_end := start_incl - 1\<rparr> # rm_closed r\<rparr>)))"

text \<open>
  The loop of \<open>GetValue\<close>: \<open>cur\<close> is the range just passed, the list holds the older ones.
  Each turn looks first between the next older range and \<open>cur\<close>, then into that range.
\<close>

fun rm_scan :: "u64 \<Rightarrow> u64 \<Rightarrow> range_val \<Rightarrow> range_val list \<Rightarrow> range_err + u64" where
  "rm_scan half key cur [] = Inl ErrKeyNotFound"
| "rm_scan half key cur (prev # older) =
    (let before_diff = key - rv_end prev; after_diff = rv_start cur - key
     in if before_diff > 0 \<and> before_diff < half \<and> after_diff > 0 \<and> after_diff < half
        then Inl ErrKeyExcluded
        else if key - rv_start prev < half \<and> rv_end prev - key < half then Inr (rv_value prev)
        else rm_scan half key prev older)"

definition oldest_range :: "range_map \<Rightarrow> range_val" where
  "oldest_range r = (if rm_closed r = [] then rm_open r else last (rm_closed r))"

definition get_value :: "range_map \<Rightarrow> u64 \<Rightarrow> range_err + u64" where
  "get_value r key =
    (if key \<ge> rv_start (rm_open r) then Inr (rv_value (rm_open r))
     else if key < rv_start (oldest_range r) then Inl ErrKeyTooOld
     else rm_scan (rm_half_range r) key (rm_open r) (rm_closed r))"

section \<open>The invariant\<close>

text \<open>The closed ranges are non-empty, disjoint and descending below \<open>cur\<close>.\<close>

fun rm_desc :: "range_val \<Rightarrow> range_val list \<Rightarrow> bool" where
  "rm_desc cur [] = True"
| "rm_desc cur (p # ps) = (rv_start p \<le> rv_end p \<and> rv_end p < rv_start cur \<and> rm_desc p ps)"

definition rm_ok :: "range_map \<Rightarrow> bool" where
  "rm_ok r \<longleftrightarrow> rm_half_range r = 2 ^ 63 \<and> 1 \<le> rm_size r \<and>
     int (length (rm_closed r)) \<le> rm_size r \<and> rv_start (rm_open r) \<le> 2 ^ 63 \<and>
     rm_desc (rm_open r) (rm_closed r)"

lemma rm_okD:
  assumes "rm_ok r"
  shows "rm_half_range r = 2 ^ 63" "1 \<le> rm_size r" "int (length (rm_closed r)) \<le> rm_size r"
    "rv_start (rm_open r) \<le> 2 ^ 63" "rm_desc (rm_open r) (rm_closed r)"
  using assms by (simp_all add: rm_ok_def)

text \<open>What the map means: a search down the ranges, with no modular comparison.\<close>

fun rm_find :: "u64 \<Rightarrow> range_val \<Rightarrow> range_val list \<Rightarrow> range_err + u64" where
  "rm_find key cur [] = (if key \<ge> rv_start cur then Inr (rv_value cur) else Inl ErrKeyTooOld)"
| "rm_find key cur (p # ps) =
    (if key \<ge> rv_start cur then Inr (rv_value cur)
     else if rv_end p < key then Inl ErrKeyExcluded
     else rm_find key p ps)"

lemma word_halves:
  fixes a b :: u64
  assumes "a \<le> 2 ^ 63" "b \<le> 2 ^ 63"
  shows "a - b < 2 ^ 63 \<longleftrightarrow> b \<le> a \<and> \<not> (a = 2 ^ 63 \<and> b = 0)"
  using assms by (auto simp: word_le_def word_less_def uint_sub_if' word_uint_eq_iff)
    (insert uint_ge_0 [of a] uint_ge_0 [of b], linarith+)

lemma rm_desc_oldest:
  "rm_desc cur ps \<Longrightarrow> ps \<noteq> [] \<Longrightarrow> rv_start (last ps) < rv_start cur"
  by (induction cur ps rule: rm_desc.induct) (auto split: if_splits)

lemma rm_find_too_old:
  "rm_desc cur ps \<Longrightarrow> key < rv_start (if ps = [] then cur else last ps) \<Longrightarrow>
    rm_find key cur ps = Inl ErrKeyTooOld"
proof (induction key cur ps rule: rm_find.induct)
  case (2 key cur p ps)
  have "rv_start (last (p # ps)) \<le> rv_start p"
    using rm_desc_oldest [of p ps] 2 by (auto split: if_splits)
  with 2 show ?case by (auto split: if_splits)
qed auto

lemma rm_scan_find:
  "rm_desc cur ps \<Longrightarrow> rv_start cur \<le> 2 ^ 63 \<Longrightarrow> key < rv_start cur \<Longrightarrow>
    \<not> key < rv_start (if ps = [] then cur else last ps) \<Longrightarrow>
    rm_scan (2 ^ 63) key cur ps = rm_find key cur ps"
proof (induction "2 ^ 63 :: u64" key cur ps rule: rm_scan.induct)
  case (2 key cur prev older)
  have st: "rv_start prev \<le> rv_end prev" "rv_end prev < rv_start cur" "rm_desc prev older"
    using "2.prems" by auto
  then have b: "rv_end prev \<le> 2 ^ 63" "rv_start prev \<le> 2 ^ 63" "key \<le> 2 ^ 63" "rv_start cur \<le> 2 ^ 63"
    "key \<noteq> 2 ^ 63" "rv_end prev \<noteq> 2 ^ 63"
    using "2.prems" by (auto simp: word_less_def word_le_def)
  show ?case
  proof (cases "rv_end prev < key")
    case True
    then have "rv_start cur - key < 2 ^ 63" "0 < key - rv_end prev" "0 < rv_start cur - key"
      using b "2.prems" word_halves [of "rv_start cur" key] by (auto simp: word_gt_0)
    moreover have "key - rv_end prev < 2 ^ 63"
      using b True word_halves [of key "rv_end prev"] by auto
    ultimately show ?thesis using True "2.prems" by (simp add: Let_def)
  next
    case False
    have k1: "\<not> (key - rv_end prev > 0 \<and> key - rv_end prev < 2 ^ 63)"
      using b False word_halves [of key "rv_end prev"] by (auto simp: word_gt_0)
    have k2: "key - rv_start prev < 2 ^ 63 \<longleftrightarrow> rv_start prev \<le> key"
      using b word_halves [of key "rv_start prev"] by auto
    have k3: "rv_end prev - key < 2 ^ 63"
      using b False word_halves [of "rv_end prev" key] by auto
    have "rm_scan (2 ^ 63) key prev older = rm_find key prev older" if "key < rv_start prev"
      using "2.hyps" [OF refl refl] k1 k2 k3 that "2.prems" st b by (auto simp: not_le)
    then show ?thesis
      using False k1 k2 k3 "2.prems" st by (cases older) (auto simp: Let_def not_le)
  qed
qed auto

text \<open>Under the invariant \<open>GetValue\<close> is the search, and so never answers \<open>key not found\<close>.\<close>

lemma get_value_find: "rm_ok r \<Longrightarrow> get_value r key = rm_find key (rm_open r) (rm_closed r)"
proof -
  assume ok: "rm_ok r"
  have old: "rv_start (oldest_range r) = rv_start (if rm_closed r = [] then rm_open r else last (rm_closed r))"
    by (simp add: oldest_range_def)
  have hd: "rm_find key (rm_open r) (rm_closed r) = Inr (rv_value (rm_open r))" if "rv_start (rm_open r) \<le> key"
    using that by (cases "rm_closed r") auto
  show ?thesis
    using ok hd rm_scan_find [of "rm_open r" "rm_closed r" key]
      rm_find_too_old [of "rm_open r" "rm_closed r" key]
    unfolding get_value_def old rm_ok_def by (auto simp: not_le)
qed


section \<open>The operations keep the invariant\<close>

lemma rm_desc_take: "rm_desc cur ps \<Longrightarrow> rm_desc cur (take n ps)"
proof (induction cur ps arbitrary: n rule: rm_desc.induct)
  case (2 cur p ps)
  then show ?case by (cases n) auto
qed auto

lemma rm_prune_simps [simp]:
  "rm_open (rm_prune r) = rm_open r" "rm_size (rm_prune r) = rm_size r"
  "rm_half_range (rm_prune r) = rm_half_range r"
  by (simp_all add: rm_prune_def)

lemma rm_prune_closed: "0 \<le> rm_size r \<Longrightarrow> rm_closed (rm_prune r) = take (nat (rm_size r)) (rm_closed r)"
  by (auto simp: rm_prune_def)

lemma rm_ok_prune:
  assumes "rm_half_range r = 2 ^ 63" "1 \<le> rm_size r" "rv_start (rm_open r) \<le> 2 ^ 63"
    "rm_desc (rm_open r) (rm_closed r)"
  shows "rm_ok (rm_prune r)"
  using assms by (auto simp: rm_ok_def rm_prune_closed rm_desc_take)

lemma rm_ok_reset: "rm_ok r \<Longrightarrow> start \<le> 2 ^ 63 \<Longrightarrow> rm_ok (clear_and_reset_value r start val)"
  by (simp add: rm_ok_def clear_and_reset_value_def init_ranges_def)

lemma rm_ok_new: "rm_ok (new_range_map n)"
  by (simp add: rm_ok_def new_range_map_def init_ranges_def min_ranges_def push_bit_eq_mult)

text \<open>What a word below \<open>2 ^ 63\<close> has above and below it.\<close>

lemma word_succ_below: "(e::u64) < 2 ^ 63 \<Longrightarrow> e + 1 \<le> 2 ^ 63 \<and> e < e + 1"
  by (auto simp: word_le_def word_less_def uint_plus_if' word_uint_eq_iff)

lemma word_pred: "(s::u64) < t \<Longrightarrow> s \<le> t - 1 \<and> t - 1 < t"
  by (auto simp: word_le_def word_less_def uint_sub_if' word_uint_eq_iff)
    (insert uint_ge_0 [of s], linarith+)

lemma word_le_pred_iff: "(s::u64) < t \<Longrightarrow> k \<le> t - 1 \<longleftrightarrow> k < t"
  by (auto simp: word_le_def word_less_def uint_sub_if' word_uint_eq_iff)
    (insert uint_ge_0 [of s], linarith+)

lemma word_less_succ_iff: "(e::u64) < 2 ^ 63 \<Longrightarrow> k < e + 1 \<longleftrightarrow> k \<le> e"
  by (auto simp: word_le_def word_less_def uint_plus_if' word_uint_eq_iff)

lemma exclude_range_cases:
  assumes "rm_ok r" "s < e" "e \<le> 2 ^ 63" "rv_start (rm_open r) \<le> s"
  shows "exclude_range r s e = (None,
    if rv_start (rm_open r) = s
    then r\<lparr>rm_open := (rm_open r)\<lparr>rv_start := e, rv_value := rv_value (rm_open r) + (e - s)\<rparr>\<rparr>
    else rm_prune (r\<lparr>rm_open := \<lparr>rv_start = e, rv_end = 0, rv_value = rv_value (rm_open r) + (e - s)\<rparr>,
           rm_closed := (rm_open r)\<lparr>rv_end := s - 1\<rparr> # rm_closed r\<rparr>))"
proof -
  have "s \<le> 2 ^ 63" "e \<noteq> s" using assms by (auto simp: word_less_def word_le_def)
  moreover have "\<not> e - s > 2 ^ 63"
    using assms by (auto simp: word_le_def word_less_def uint_sub_if' word_uint_eq_iff)
      (insert uint_ge_0 [of s], linarith+)
  ultimately show ?thesis
    using assms by (auto simp: exclude_range_def rm_ok_def Let_def)
qed

lemma rm_ok_exclude:
  assumes "rm_ok r" "s < e" "e \<le> 2 ^ 63" "rv_start (rm_open r) \<le> s"
  shows "rm_ok (snd (exclude_range r s e)) \<and> rv_start (rm_open (snd (exclude_range r s e))) = e"
proof (cases "rv_start (rm_open r) = s")
  case True
  have "rm_desc ((rm_open r)\<lparr>rv_start := e, rv_value := v\<rparr>) (rm_closed r)" for v
    using assms True by (cases "rm_closed r") (auto simp: rm_ok_def)
  with assms True show ?thesis
    by (simp add: exclude_range_cases [OF assms] rm_ok_def)
next
  case False
  then have "rv_start (rm_open r) < s" using assms by simp
  then have *: "rv_start (rm_open r) \<le> s - 1" "s - 1 < e"
    using word_pred [of "rv_start (rm_open r)" s] assms by auto
  have "rm_desc ((rm_open r)\<lparr>rv_end := s - 1\<rparr>) (rm_closed r)"
    using assms by (cases "rm_closed r") (auto simp: rm_ok_def)
  with assms False * show ?thesis
    unfolding exclude_range_cases [OF assms]
    by (auto intro!: rm_ok_prune dest: rm_okD)
qed

lemma rm_ok_dec:
  assumes "rm_ok r" "e < 2 ^ 63"
  shows "rm_ok (dec_value r e d)"
proof (cases "rv_start (rm_open r) > e")
  case True
  have "rm_desc ((rm_open r)\<lparr>rv_value := v\<rparr>) (rm_closed r)" for v
    using assms by (cases "rm_closed r") (auto simp: rm_ok_def)
  with assms True show ?thesis by (simp add: dec_value_def rm_ok_def Let_def)
next
  case False
  have "rm_desc ((rm_open r)\<lparr>rv_end := e\<rparr>) (rm_closed r)"
    using assms by (cases "rm_closed r") (auto simp: rm_ok_def)
  with assms False word_succ_below [of e] show ?thesis
    by (auto simp: dec_value_def Let_def intro!: rm_ok_prune dest: rm_okD)
qed

section \<open>What a lookup returns after an operation\<close>

definition rm_lookup :: "range_map \<Rightarrow> u64 \<Rightarrow> u64 option" where
  "rm_lookup r key = (case get_value r key of Inl e \<Rightarrow> None | Inr v \<Rightarrow> Some v)"

definition rm_frontier :: "range_map \<Rightarrow> u64" where
  "rm_frontier r = rv_start (rm_open r)"

lemma rm_find_take:
  "rm_find key cur (take n ps) = rm_find key cur ps \<or> rm_find key cur (take n ps) = Inl ErrKeyTooOld"
proof (induction key cur ps arbitrary: n rule: rm_find.induct)
  case (2 key cur p ps)
  then show ?case by (cases n) auto
qed auto

lemma rm_lookup_head: "rm_frontier r \<le> key \<Longrightarrow> rm_lookup r key = Some (rv_value (rm_open r))"
  by (simp add: rm_lookup_def get_value_def rm_frontier_def)

lemma rm_lookup_find: "rm_ok r \<Longrightarrow> rm_lookup r key =
    (case rm_find key (rm_open r) (rm_closed r) of Inl e \<Rightarrow> None | Inr v \<Rightarrow> Some v)"
  by (simp add: rm_lookup_def get_value_find)

text \<open>Below the frontier the value of the open range does not matter, and where it starts
  does not either.\<close>

lemma rm_find_below:
  "key < rv_start cur \<Longrightarrow> key < rv_start cur' \<Longrightarrow> rm_find key cur ps = rm_find key cur' ps"
  by (cases ps) auto

lemma rm_find_shift:
  assumes "key < rv_start cur"
  shows "rm_find key cur ps = rm_find key (cur\<lparr>rv_end := e\<rparr>) ps"
  using assms by (intro rm_find_below) auto

text \<open>A closed range pushed on the list, then pruned: what lookups below see.\<close>

lemma rm_lookup_push:
  assumes "rm_ok r" and ok: "rm_ok (rm_prune (r\<lparr>rm_open := o', rm_closed := (rm_open r)\<lparr>rv_end := e\<rparr> # rm_closed r\<rparr>))"
    and k: "k < rv_start o'" "k \<le> e"
  shows "if rm_frontier r \<le> k
    then rm_lookup (rm_prune (r\<lparr>rm_open := o', rm_closed := (rm_open r)\<lparr>rv_end := e\<rparr> # rm_closed r\<rparr>)) k
      = Some (rv_value (rm_open r))
    else rm_lookup (rm_prune (r\<lparr>rm_open := o', rm_closed := (rm_open r)\<lparr>rv_end := e\<rparr> # rm_closed r\<rparr>)) k
      \<in> {rm_lookup r k, None}"
proof -
  let ?p = "(rm_open r)\<lparr>rv_end := e\<rparr>" and ?n = "nat (rm_size r)"
  let ?r = "rm_prune (r\<lparr>rm_open := o', rm_closed := ?p # rm_closed r\<rparr>)"
  have cl: "rm_closed ?r = ?p # take (?n - 1) (rm_closed r)"
    using rm_okD(2) [OF assms(1)] by (simp add: rm_prune_closed take_Cons split: nat.split)
  have "rm_find k o' (?p # take (?n - 1) (rm_closed r)) = rm_find k ?p (take (?n - 1) (rm_closed r))"
    using k by (auto simp: not_le not_less)
  then have look: "rm_lookup ?r k =
      (case rm_find k ?p (take (?n - 1) (rm_closed r)) of Inl e \<Rightarrow> None | Inr v \<Rightarrow> Some v)"
    unfolding rm_lookup_find [OF ok] cl by (simp del: rm_find.simps)
  show ?thesis
  proof (cases "rm_frontier r \<le> k")
    case True
    then have "rm_find k ?p ps = Inr (rv_value (rm_open r))" for ps
      by (cases ps) (auto simp: rm_frontier_def)
    with True look show ?thesis by simp
  next
    case False
    then have "rm_find k ?p (rm_closed r) = rm_find k (rm_open r) (rm_closed r)"
      by (intro rm_find_below) (auto simp: rm_frontier_def)
    then show ?thesis
      using False look rm_find_take [of k ?p "?n - 1" "rm_closed r"] rm_lookup_find [OF assms(1), of k]
      by auto
  qed
qed

lemma rm_lookup_exclude:
  assumes "rm_ok r" "s < e" "e \<le> 2 ^ 63" "rm_frontier r \<le> s"
  defines "r' \<equiv> snd (exclude_range r s e)"
  shows "e \<le> k \<Longrightarrow> rm_lookup r' k = Some (rv_value (rm_open r) + (e - s))"
    and "s \<le> k \<Longrightarrow> k < e \<Longrightarrow> rm_lookup r' k = None"
    and "rm_frontier r \<le> k \<Longrightarrow> k < s \<Longrightarrow> rm_lookup r' k = Some (rv_value (rm_open r))"
    and "k < rm_frontier r \<Longrightarrow> rm_lookup r' k \<in> {rm_lookup r k, None}"
proof -
  note fr = assms(4) [unfolded rm_frontier_def]
  have ok: "rm_ok r'" and st: "rv_start (rm_open r') = e"
    using rm_ok_exclude [OF assms(1-3) fr] by (auto simp: r'_def)
  have val: "rv_value (rm_open r') = rv_value (rm_open r) + (e - s)"
    by (simp add: r'_def exclude_range_cases [OF assms(1-3) fr])
  show "rm_lookup r' k = Some (rv_value (rm_open r) + (e - s))" if "e \<le> k"
    using rm_lookup_head [of r' k] that by (simp add: rm_frontier_def st val)
  let ?o = "\<lparr>rv_start = e, rv_end = 0, rv_value = rv_value (rm_open r) + (e - s)\<rparr>"
  have r': "r' = rm_prune (r\<lparr>rm_open := ?o, rm_closed := (rm_open r)\<lparr>rv_end := s - 1\<rparr> # rm_closed r\<rparr>)"
    if "rm_frontier r \<noteq> s"
    using that by (simp add: r'_def exclude_range_cases [OF assms(1-3) fr] rm_frontier_def)
  have r'_eq: "r' = r\<lparr>rm_open := (rm_open r)\<lparr>rv_start := e, rv_value := rv_value (rm_open r) + (e - s)\<rparr>\<rparr>"
    if "rm_frontier r = s"
    using that by (simp add: r'_def exclude_range_cases [OF assms(1-3) fr] rm_frontier_def)
  have lt: "rm_frontier r < s" if "rm_frontier r \<noteq> s" using assms(4) that by simp
  have push: "if rm_frontier r \<le> k then rm_lookup r' k = Some (rv_value (rm_open r))
      else rm_lookup r' k \<in> {rm_lookup r k, None}" if "rm_frontier r \<noteq> s" "k < s"
  proof -
    have "k \<le> s - 1" using word_le_pred_iff [OF lt [OF that(1)]] that(2) by simp
    moreover have "k < e" using that assms(2) by simp
    ultimately show ?thesis
      using rm_lookup_push [OF assms(1), where o' = ?o and e = "s - 1" and k = k] ok r' [OF that(1)]
      by (auto split: if_splits)
  qed
  show "rm_lookup r' k = Some (rv_value (rm_open r))" if "rm_frontier r \<le> k" "k < s"
    using push that by auto
  show "rm_lookup r' k \<in> {rm_lookup r k, None}" if k: "k < rm_frontier r"
  proof (cases "rm_frontier r = s")
    case True
    have "rm_closed r' = rm_closed r" by (simp add: r'_eq [OF True])
    moreover have "k < rv_start (rm_open r')" using k assms(2) True by (simp add: st)
    ultimately have "rm_find k (rm_open r') (rm_closed r') = rm_find k (rm_open r) (rm_closed r)"
      using rm_find_below [of k "rm_open r'" "rm_open r" "rm_closed r"] k
      by (simp only: rm_frontier_def)
    then show ?thesis by (simp add: rm_lookup_find [OF ok] rm_lookup_find [OF assms(1)])
  next
    case False
    have "k < s" using k lt [OF False] by simp
    then show ?thesis using push [OF False] k by (simp only: not_le [symmetric] if_False simp_thms)
  qed
  show "rm_lookup r' k = None" if k: "s \<le> k" "k < e"
  proof (cases "rm_frontier r = s")
    case True
    have "rm_find k (rm_open r') (rm_closed r) \<in> {Inl ErrKeyTooOld, Inl ErrKeyExcluded}"
      using k rm_okD(5) [OF assms(1)] True st
      by (cases "rm_closed r") (auto simp: rm_frontier_def)
    then show ?thesis using rm_lookup_find [OF ok, of k] r'_eq [OF True] by auto
  next
    case False
    have "\<not> k \<le> s - 1" using word_le_pred_iff [OF lt [OF False]] k by simp
    moreover have "rm_closed r' = (rm_open r)\<lparr>rv_end := s - 1\<rparr> # take (nat (rm_size r) - 1) (rm_closed r)"
      using rm_okD(2) [OF assms(1)] by (simp add: r' [OF False] rm_prune_closed take_Cons split: nat.split)
    ultimately have "rm_find k (rm_open r') (rm_closed r') = Inl ErrKeyExcluded"
      using k st by (auto simp: not_le)
    then show ?thesis using rm_lookup_find [OF ok, of k] by simp
  qed
qed

lemma rm_lookup_dec:
  fixes d :: u64
  assumes "rm_ok r" "e < 2 ^ 63"
  defines "r' \<equiv> dec_value r e d"
  shows "rm_frontier r' = (if rm_frontier r \<le> e then e + 1 else rm_frontier r)"
    and "rm_frontier r' \<le> k \<Longrightarrow> rm_lookup r' k = Some (rv_value (rm_open r) - d)"
    and "rm_frontier r \<le> k \<Longrightarrow> k \<le> e \<Longrightarrow> rm_lookup r' k = Some (rv_value (rm_open r))"
    and "k < rm_frontier r \<Longrightarrow> rm_lookup r' k \<in> {rm_lookup r k, None}"
proof -
  have ok: "rm_ok r'" using rm_ok_dec [OF assms(1,2)] by (simp add: r'_def)
  show fr: "rm_frontier r' = (if rm_frontier r \<le> e then e + 1 else rm_frontier r)"
    by (auto simp: r'_def dec_value_def rm_frontier_def Let_def)
  have val: "rv_value (rm_open r') = rv_value (rm_open r) - d"
    by (simp add: r'_def dec_value_def Let_def)
  show "rm_lookup r' k = Some (rv_value (rm_open r) - d)" if "rm_frontier r' \<le> k"
    using rm_lookup_head [OF that] by (simp add: val)
  let ?o = "\<lparr>rv_start = e + 1, rv_end = 0, rv_value = rv_value (rm_open r) - d\<rparr>"
  have r': "r' = rm_prune (r\<lparr>rm_open := ?o, rm_closed := (rm_open r)\<lparr>rv_end := e\<rparr> # rm_closed r\<rparr>)"
    if "rm_frontier r \<le> e"
    using that by (simp add: r'_def dec_value_def Let_def rm_frontier_def)
  have push: "if rm_frontier r \<le> k then rm_lookup r' k = Some (rv_value (rm_open r))
      else rm_lookup r' k \<in> {rm_lookup r k, None}" if "rm_frontier r \<le> e" "k \<le> e"
    using rm_lookup_push [OF assms(1), where o' = ?o and e = e and k = k] ok r' [OF that(1)] that(2)
      word_less_succ_iff [OF assms(2), of k] by (auto split: if_splits)
  show "rm_lookup r' k = Some (rv_value (rm_open r))" if "rm_frontier r \<le> k" "k \<le> e"
    using push that by auto
  show "rm_lookup r' k \<in> {rm_lookup r k, None}" if k: "k < rm_frontier r"
  proof (cases "rm_frontier r \<le> e")
    case True
    then have "k \<le> e" using k by simp
    then show ?thesis using push [OF True] k by (simp only: not_le [symmetric] if_False simp_thms)
  next
    case False
    then have "rm_find k (rm_open r') (rm_closed r') = rm_find k (rm_open r) (rm_closed r)"
      using k rm_find_below [of k "(rm_open r)\<lparr>rv_value := rv_value (rm_open r) - d\<rparr>" "rm_open r"]
      by (simp add: r'_def dec_value_def rm_frontier_def Let_def not_le)
    then show ?thesis by (simp add: rm_lookup_find [OF ok] rm_lookup_find [OF assms(1)])
  qed
qed

section \<open>Maps that only exclude\<close>

text \<open>
  The sequencer only excludes ranges.  Then no two keys share a position (the key less its
  offset): positions grow with the keys and are as dense as the keys that are left.
\<close>

fun rm_compact :: "range_val \<Rightarrow> range_val list \<Rightarrow> bool" where
  "rm_compact cur [] = (uint (rv_value cur) \<le> uint (rv_start cur))"
| "rm_compact cur (p # ps) =
    (uint (rv_start cur) - uint (rv_value cur) = uint (rv_end p) + 1 - uint (rv_value p) \<and> rm_compact p ps)"

lemma rm_compact_low: "rm_desc cur ps \<Longrightarrow> rm_compact cur ps \<Longrightarrow> uint (rv_value cur) \<le> uint (rv_start cur)"
  by (induction cur ps rule: rm_compact.induct) (auto simp: word_le_def word_less_def)

lemma rm_compact_below:
  "rm_desc cur ps \<Longrightarrow> rm_compact cur ps \<Longrightarrow> k < rv_start cur \<Longrightarrow> rm_find k cur ps = Inr v \<Longrightarrow>
   uint v \<le> uint k \<and> uint k - uint v < uint (rv_start cur) - uint (rv_value cur)"
proof (induction k cur ps rule: rm_find.induct)
  case (1 k cur)
  then show ?case by (simp add: not_le [symmetric])
next
  case (2 k cur p ps)
  have k: "k \<le> rv_end p" and f: "rm_find k p ps = Inr v"
    using 2(4,5) by (auto split: if_splits)
  show ?case
  proof (cases "rv_start p \<le> k")
    case True
    then have "v = rv_value p" using f by (cases ps) auto
    moreover have "uint (rv_value p) \<le> uint (rv_start p)" using 2(2,3) rm_compact_low [of p ps] by simp
    ultimately show ?thesis using True k 2(3) by (auto simp: word_le_def)
  next
    case False
    then have lt: "k < rv_start p" by simp
    have "\<not> rv_start cur \<le> k" "\<not> rv_end p < k" using 2(4) k by simp_all
    moreover have "rm_desc p ps" "rm_compact p ps" "rv_start p \<le> rv_end p" using 2(2,3) by simp_all
    ultimately have "uint v \<le> uint k \<and> uint k - uint v < uint (rv_start p) - uint (rv_value p)"
      using 2(1) lt f by blast
    then show ?thesis using 2(3) \<open>rv_start p \<le> rv_end p\<close> by (simp add: word_le_def)
  qed
qed

lemma rm_compact_mono:
  "rm_desc cur ps \<Longrightarrow> rm_compact cur ps \<Longrightarrow> rm_find k cur ps = Inr v \<Longrightarrow> rm_find k' cur ps = Inr v' \<Longrightarrow>
   k < k' \<Longrightarrow> uint v \<le> uint k \<and> uint k - uint v < uint k' - uint v'"
proof (induction k cur ps arbitrary: v v' rule: rm_find.induct)
  case (1 k cur)
  then show ?case by (auto simp: word_le_def word_less_def split: if_splits)
next
  case (2 k cur p ps)
  show ?case
  proof (cases "rv_start cur \<le> k'")
    case True
    then have v': "v' = rv_value cur" using 2(5) by simp
    show ?thesis
    proof (cases "rv_start cur \<le> k")
      case True
      then show ?thesis using v' 2(2,3,4,6) rm_compact_low [of cur "p # ps"]
        by (auto simp: word_le_def word_less_def)
    next
      case False
      then have "k < rv_start cur" by simp
      then show ?thesis
        using rm_compact_below [OF 2(2,3) _ 2(4)] v' True by (auto simp: word_le_def)
    qed
  next
    case False
    then show ?thesis using 2 by (auto split: if_splits)
  qed
qed

definition rm_dense :: "range_map \<Rightarrow> bool" where
  "rm_dense r \<longleftrightarrow> rm_ok r \<and> rm_compact (rm_open r) (rm_closed r)"

lemma rm_compact_take: "rm_desc cur ps \<Longrightarrow> rm_compact cur ps \<Longrightarrow> rm_compact cur (take n ps)"
proof (induction cur ps arbitrary: n rule: rm_compact.induct)
  case (1 cur)
  then show ?case by simp
next
  case (2 cur p ps)
  then show ?case using rm_compact_low [of cur "p # ps"] by (cases n) auto
qed

lemma rm_dense_exclude:
  assumes "rm_dense r" "s < e" "e \<le> 2 ^ 63" "rm_frontier r \<le> s"
  shows "rm_dense (snd (exclude_range r s e))"
proof -
  have ok: "rm_ok r" and c: "rm_compact (rm_open r) (rm_closed r)" and fr: "rv_start (rm_open r) \<le> s"
    using assms by (simp_all add: rm_dense_def rm_frontier_def)
  let ?r = "snd (exclude_range r s e)" and ?v = "rv_value (rm_open r)"
  note ok' = conjunct1 [OF rm_ok_exclude [OF ok assms(2,3) fr]]
  have vs: "uint ?v \<le> uint s"
    using rm_compact_low [OF rm_okD(5) [OF ok] c] fr by (simp add: word_le_def)
  have len: "uint (e - s) = uint e - uint s" using assms(2) by (simp add: uint_sub_if' word_less_def)
  have val: "uint (?v + (e - s)) = uint ?v + (uint e - uint s)"
    using vs len assms(2) uint_lt2p [of e] by (simp add: uint_plus_if' word_less_def)
  show ?thesis
  proof (cases "rv_start (rm_open r) = s")
    case True
    have "rm_compact ((rm_open r)\<lparr>rv_start := e, rv_value := ?v + (e - s)\<rparr>) (rm_closed r)"
      using c True vs val by (cases "rm_closed r") simp_all
    with ok' True show ?thesis
      by (simp add: rm_dense_def exclude_range_cases [OF ok assms(2,3) fr])
  next
    case False
    have s1: "uint (s - 1) = uint s - 1" "uint (rv_start (rm_open r)) \<le> uint s - 1"
    proof -
      have "uint (rv_start (rm_open r)) < uint s"
        using False fr by (simp add: word_le_def word_uint_eq_iff)
      moreover from this have "1 \<le> uint s" using uint_ge_0 [of "rv_start (rm_open r)"] by linarith
      ultimately show "uint (s - 1) = uint s - 1" "uint (rv_start (rm_open r)) \<le> uint s - 1"
        by (simp_all add: uint_sub_if')
    qed
    let ?p = "(rm_open r)\<lparr>rv_end := s - 1\<rparr>" and ?o = "\<lparr>rv_start = e, rv_end = 0, rv_value = ?v + (e - s)\<rparr>"
    have p: "rm_compact ?p (rm_closed r)" using c by (cases "rm_closed r") simp_all
    then have co: "rm_compact ?o (?p # rm_closed r)" using s1 val by simp
    have "rm_desc ?p (rm_closed r)" using rm_okD(5) [OF ok] by (cases "rm_closed r") simp_all
    then have "rm_desc ?o (?p # rm_closed r)"
      using s1 assms(2) by (simp add: word_le_def word_less_def)
    from rm_compact_take [OF this co] ok' False show ?thesis
      using rm_okD(2) [OF ok] by (simp add: rm_dense_def exclude_range_cases [OF ok assms(2,3) fr] rm_prune_closed)
  qed
qed

section \<open>The interface its clients use\<close>

text \<open>
  The RTP munger and the sequencer rely on the map through these laws only.  \<open>front\<close> is the
  start of the open range: everything from there on has the newest offset; what lies below it
  keeps the offset it had, or is forgotten by pruning, or was excluded.
\<close>

locale offset_map =
  fixes look :: "'m \<Rightarrow> u64 \<Rightarrow> u64 option"
    and front :: "'m \<Rightarrow> u64"
    and okm :: "'m \<Rightarrow> bool"
    and excl :: "'m \<Rightarrow> u64 \<Rightarrow> u64 \<Rightarrow> 'm"
    and decr :: "'m \<Rightarrow> u64 \<Rightarrow> u64 \<Rightarrow> 'm"
    and reset :: "'m \<Rightarrow> u64 \<Rightarrow> u64 \<Rightarrow> 'm"
  assumes ok_reset: "okm m \<Longrightarrow> s \<le> 2 ^ 63 \<Longrightarrow> okm (reset m s v)"
    and front_reset: "front (reset m s v) = s"
    and look_reset: "okm m \<Longrightarrow> s \<le> 2 ^ 63 \<Longrightarrow> look (reset m s v) k = (if s \<le> k then Some v else None)"
    and look_front: "front m \<le> k \<Longrightarrow> look m k = look m (front m)"
    and front_mapped: "look m (front m) \<noteq> None"
    and ok_excl: "okm m \<Longrightarrow> front m \<le> s \<Longrightarrow> s < e \<Longrightarrow> e \<le> 2 ^ 63 \<Longrightarrow> okm (excl m s e) \<and> front (excl m s e) = e"
    and look_excl_above: "okm m \<Longrightarrow> front m \<le> s \<Longrightarrow> s < e \<Longrightarrow> e \<le> 2 ^ 63 \<Longrightarrow> e \<le> k \<Longrightarrow>
      look (excl m s e) k = map_option (\<lambda>v. v + (e - s)) (look m (front m))"
    and look_excl_inside: "okm m \<Longrightarrow> front m \<le> s \<Longrightarrow> s < e \<Longrightarrow> e \<le> 2 ^ 63 \<Longrightarrow> s \<le> k \<Longrightarrow> k < e \<Longrightarrow>
      look (excl m s e) k = None"
    and look_excl_open: "okm m \<Longrightarrow> front m \<le> s \<Longrightarrow> s < e \<Longrightarrow> e \<le> 2 ^ 63 \<Longrightarrow> front m \<le> k \<Longrightarrow> k < s \<Longrightarrow>
      look (excl m s e) k = look m (front m)"
    and look_excl_below: "okm m \<Longrightarrow> front m \<le> s \<Longrightarrow> s < e \<Longrightarrow> e \<le> 2 ^ 63 \<Longrightarrow> k < front m \<Longrightarrow>
      look (excl m s e) k \<in> {look m k, None}"
    and ok_decr: "okm m \<Longrightarrow> e < 2 ^ 63 \<Longrightarrow> okm (decr m e d)"
    and front_decr: "okm m \<Longrightarrow> e < 2 ^ 63 \<Longrightarrow> front (decr m e d) = (if front m \<le> e then e + 1 else front m)"
    and look_decr_above: "okm m \<Longrightarrow> e < 2 ^ 63 \<Longrightarrow> front (decr m e d) \<le> k \<Longrightarrow>
      look (decr m e d) k = map_option (\<lambda>v. v - d) (look m (front m))"
    and look_decr_open: "okm m \<Longrightarrow> e < 2 ^ 63 \<Longrightarrow> front m \<le> k \<Longrightarrow> k \<le> e \<Longrightarrow>
      look (decr m e d) k = look m (front m)"
    and look_decr_below: "okm m \<Longrightarrow> e < 2 ^ 63 \<Longrightarrow> k < front m \<Longrightarrow> look (decr m e d) k \<in> {look m k, None}"
begin

text \<open>The offset that new sequence numbers get.\<close>

definition head :: "'m \<Rightarrow> u64" where
  "head m = the (look m (front m))"

lemma look_head: "front m \<le> k \<Longrightarrow> look m k = Some (head m)"
  using look_front [of m k] front_mapped [of m] by (cases "look m (front m)") (simp_all add: head_def)

lemma head_reset: "okm m \<Longrightarrow> s \<le> 2 ^ 63 \<Longrightarrow> head (reset m s v) = v"
  by (simp add: head_def front_reset look_reset)

lemma head_excl:
  assumes "okm m" "front m \<le> s" "s < e" "e \<le> 2 ^ 63"
  shows "head (excl m s e) = head m + (e - s)"
proof -
  have "look m (front m) = Some (head m)" by (rule look_head) simp
  then have "look (excl m s e) e = Some (head m + (e - s))"
    using look_excl_above [OF assms order_refl] by simp
  moreover have "look (excl m s e) e = Some (head (excl m s e))"
    using look_head [of "excl m s e" e] ok_excl [OF assms] by simp
  ultimately show ?thesis by simp
qed

lemma head_decr:
  assumes "okm m" "e < 2 ^ 63"
  shows "head (decr m e d) = head m - d"
proof -
  let ?m = "decr m e d"
  have "look ?m (front ?m) = map_option (\<lambda>v. v - d) (look m (front m))"
    using assms by (rule look_decr_above) simp
  also have "look m (front m) = Some (head m)" by (rule look_head) simp
  finally have "look ?m (front ?m) = Some (head m - d)" by simp
  moreover have "look ?m (front ?m) = Some (head ?m)" by (rule look_head) simp
  ultimately show ?thesis by simp
qed

text \<open>Late sequence numbers: an operation at or above \<open>p\<close> never changes an offset below \<open>p\<close>
  into a different one.\<close>

lemma excl_stable:
  assumes "okm m" "front m \<le> s" "s < e" "e \<le> 2 ^ 63" "k < s"
  shows "look (excl m s e) k \<in> {look m k, None}"
proof (cases "front m \<le> k")
  case True
  then show ?thesis
    using look_excl_open [OF assms(1-4) True assms(5)] look_front [OF True] by (simp only: insert_iff simp_thms)
next
  case False
  then show ?thesis using look_excl_below [OF assms(1-4)] by (simp add: not_le)
qed

lemma decr_stable:
  assumes "okm m" "e < 2 ^ 63" "k \<le> e"
  shows "look (decr m e d) k \<in> {look m k, None}"
proof (cases "front m \<le> k")
  case True
  then show ?thesis
    using look_decr_open [OF assms(1,2) True assms(3)] look_front [OF True] by (simp only: insert_iff simp_thms)
next
  case False
  then show ?thesis using look_decr_below [OF assms(1,2)] by (simp add: not_le)
qed

end

abbreviation rm_exclude :: "range_map \<Rightarrow> u64 \<Rightarrow> u64 \<Rightarrow> range_map" where
  "rm_exclude r s e \<equiv> snd (exclude_range r s e)"

interpretation rmap: offset_map rm_lookup rm_frontier rm_ok rm_exclude dec_value clear_and_reset_value
proof (unfold_locales, goal_cases)
  case (1 m s v)
  then show ?case by (rule rm_ok_reset)
next
  case (2 m s v)
  show ?case by (simp add: rm_frontier_def clear_and_reset_value_def init_ranges_def)
next
  case (3 m s v k)
  then show ?case
    by (auto simp: rm_lookup_def get_value_def clear_and_reset_value_def init_ranges_def oldest_range_def)
next
  case (4 m k)
  then show ?case by (simp add: rm_lookup_head)
next
  case (5 m)
  show ?case by (simp add: rm_lookup_head)
next
  case (6 m s e)
  then show ?case using rm_ok_exclude [of m s e] by (simp add: rm_frontier_def)
next
  case (7 m s e k)
  then show ?case using rm_lookup_exclude(1) [of m s e k] by (simp add: rm_lookup_head)
next
  case (8 m s e k)
  then show ?case using rm_lookup_exclude(2) [of m s e k] by simp
next
  case (9 m s e k)
  then show ?case using rm_lookup_exclude(3) [of m s e k] by (simp add: rm_lookup_head)
next
  case (10 m s e k)
  then show ?case using rm_lookup_exclude(4) [of m s e k] by simp
next
  case (11 m e d)
  then show ?case by (rule rm_ok_dec)
next
  case (12 m e d)
  then show ?case by (simp add: rm_lookup_dec(1))
next
  case (13 m e d k)
  then show ?case using rm_lookup_dec(2) [of m e d k] by (simp add: rm_lookup_head)
next
  case (14 m e k d)
  then show ?case using rm_lookup_dec(3) [of m e k d] by (simp add: rm_lookup_head)
next
  case (15 m e k d)
  then show ?case using rm_lookup_dec(4) [of m e k d] by simp
qed

lemma rm_head: "rmap.head r = rv_value (rm_open r)"
  by (simp add: rmap.head_def rm_lookup_head)

text \<open>The contract of a map that is only excluded from: its positions do not collide.\<close>

locale dense_map = offset_map +
  fixes dense :: "'a \<Rightarrow> bool"
  assumes dense_ok: "dense m \<Longrightarrow> okm m"
    and dense_excl: "dense m \<Longrightarrow> front m \<le> s \<Longrightarrow> s < e \<Longrightarrow> e \<le> 2 ^ 63 \<Longrightarrow> dense (excl m s e)"
    and dense_mono: "dense m \<Longrightarrow> look m k = Some v \<Longrightarrow> look m k' = Some v' \<Longrightarrow> k < k' \<Longrightarrow>
      uint v \<le> uint k \<and> uint k - uint v < uint k' - uint v'"
    and dense_le: "dense m \<Longrightarrow> look m k = Some v \<Longrightarrow> uint v \<le> uint k"
begin

text \<open>The position of a key.\<close>

definition pos :: "'a \<Rightarrow> u64 \<Rightarrow> int" where
  "pos m k = uint k - uint (the (look m k))"

lemma pos_word: "dense m \<Longrightarrow> look m k = Some v \<Longrightarrow> uint (k - v) = pos m k"
  using dense_le [of m k v] by (simp add: pos_def uint_sub_if')

lemma pos_less: "dense m \<Longrightarrow> look m k \<noteq> None \<Longrightarrow> look m k' \<noteq> None \<Longrightarrow> k < k' \<Longrightarrow> pos m k < pos m k'"
  using dense_mono by (auto simp: pos_def)

lemma pos_inj: "dense m \<Longrightarrow> look m k \<noteq> None \<Longrightarrow> look m k' \<noteq> None \<Longrightarrow> pos m k = pos m k' \<Longrightarrow> k = k'"
  using pos_less [of m k k'] pos_less [of m k' k] by (cases k k' rule: linorder_cases) auto

lemma pos_nonneg: "dense m \<Longrightarrow> look m k \<noteq> None \<Longrightarrow> 0 \<le> pos m k"
  using dense_le by (auto simp: pos_def)

lemma pos_head: "front m \<le> k \<Longrightarrow> pos m k = uint k - uint (head m)"
  by (simp add: pos_def look_head)

end

interpretation rmap: dense_map rm_lookup rm_frontier rm_ok rm_exclude dec_value clear_and_reset_value rm_dense
proof (unfold_locales, goal_cases)
  case (1 m)
  then show ?case by (simp add: rm_dense_def)
next
  case (2 m s e)
  then show ?case by (intro rm_dense_exclude)
next
  case (3 m k v k' v')
  then have "rm_find k (rm_open m) (rm_closed m) = Inr v" "rm_find k' (rm_open m) (rm_closed m) = Inr v'"
    "rm_desc (rm_open m) (rm_closed m)" "rm_compact (rm_open m) (rm_closed m)"
    by (auto simp: rm_dense_def rm_lookup_find rm_okD split: sum.splits)
  then show ?case using 3(4) by (intro rm_compact_mono [of "rm_open m" "rm_closed m"])
next
  case (4 m k v)
  then have f: "rm_find k (rm_open m) (rm_closed m) = Inr v"
    and d: "rm_desc (rm_open m) (rm_closed m)" "rm_compact (rm_open m) (rm_closed m)"
    by (auto simp: rm_dense_def rm_lookup_find rm_okD split: sum.splits)
  show ?case
  proof (cases "k < rv_start (rm_open m)")
    case True
    then show ?thesis using rm_compact_below [OF d True f] by simp
  next
    case False
    then have "rv_start (rm_open m) \<le> k" by simp
    then have "v = rv_value (rm_open m)" using f by (cases "rm_closed m") auto
    then show ?thesis using rm_compact_low [OF d] False by (simp add: word_less_def)
  qed
qed

lemma new_range_map_dense: "rm_dense (new_range_map n)" "rm_frontier (new_range_map n) = 0"
  by (simp_all add: rm_dense_def rm_ok_def new_range_map_def init_ranges_def min_ranges_def rm_frontier_def push_bit_eq_mult)

section \<open>Properties\<close>

text \<open>
  C36. Under the invariant \<open>GetValue\<close>, with its comparisons modulo \<open>2 ^ 64\<close> and its half range
  tests, is the plain search down the ranges; in particular it never answers \<open>key not found\<close>.
\<close>

theorem get_value_is_search:
  assumes "rm_ok r"
  shows "get_value r key = rm_find key (rm_open r) (rm_closed r) \<and>
    get_value r key \<noteq> Inl ErrKeyNotFound"
proof -
  have "rm_find key c ps \<noteq> Inl ErrKeyNotFound" for c ps
    by (induction key c ps rule: rm_find.induct) auto
  then show ?thesis by (simp add: get_value_find [OF assms])
qed

definition rm_example :: range_map where
  "rm_example = rm_exclude (rm_exclude (new_range_map 100) 10 12) 20 21"

lemma rm_example_ok: "rm_ok rm_example"
  by (simp add: rm_example_def new_range_map_def init_ranges_def exclude_range_def rm_ok_def
      rm_prune_def min_ranges_def push_bit_eq_mult)

theorem get_value_is_search_witness:
  "get_value rm_example 15 = Inr 2 \<and> get_value rm_example 11 = Inl ErrKeyExcluded \<and>
   get_value rm_example 15 = rm_find 15 (rm_open rm_example) (rm_closed rm_example)"
  using get_value_is_search [OF rm_example_ok, of 15] get_value_is_search [OF rm_example_ok, of 11]
  by (simp add: rm_example_def new_range_map_def init_ranges_def exclude_range_def rm_prune_def
      min_ranges_def push_bit_eq_mult)

text \<open>
  Excluding \<open>[s, e)\<close> at or above the open range: the excluded keys have no offset any more,
  the keys from \<open>e\<close> on have an offset larger by the number of excluded keys, the keys just
  below \<open>s\<close> keep theirs, and so the key \<open>e\<close> is mapped right after the key \<open>s - 1\<close>: excluding
  leaves no hole in the outgoing numbering.  Older keys keep their offset or are forgotten.
\<close>

lemma exclude_leaves_no_hole:
  assumes "rm_ok r" "rm_frontier r < s" "s < e" "e \<le> 2 ^ 63"
  shows "(s \<le> k \<and> k < e \<longrightarrow> rm_lookup (rm_exclude r s e) k = None) \<and>
    (\<exists>v w. rm_lookup (rm_exclude r s e) (s - 1) = Some v \<and> rm_lookup (rm_exclude r s e) e = Some w \<and>
       w = v + (e - s) \<and> e - w = (s - 1 - v) + 1) \<and>
    (k < s \<longrightarrow> rm_lookup (rm_exclude r s e) k \<in> {rm_lookup r k, None})"
proof -
  have fr: "rm_frontier r \<le> s" "rm_frontier r \<le> s - 1" "s - 1 < s"
    using assms(2) word_pred [of "rm_frontier r" s] by auto
  have "rm_lookup (rm_exclude r s e) (s - 1) = Some (rmap.head r)"
    using rmap.look_excl_open [OF assms(1) fr(1) assms(3,4) fr(2,3)] rmap.look_head [of r "rm_frontier r"]
    by simp
  moreover have "rm_lookup (rm_exclude r s e) e = Some (rmap.head r + (e - s))"
    using rmap.look_excl_above [OF assms(1) fr(1) assms(3,4) order_refl] rmap.look_head [of r "rm_frontier r"]
    by simp
  ultimately show ?thesis
    using rmap.look_excl_inside [OF assms(1) fr(1) assms(3,4), of k]
      rmap.excl_stable [OF assms(1) fr(1) assms(3,4), of k] by auto
qed

end
