(* ===== verification/Vp8_Codec.thy ===== *)
theory Vp8_Codec
  imports Go_Prelude
begin

text \<open>
  The VP8 payload descriptor (\<open>pkg/samvaad/transport/pkg/codec/vp8.go\<close> and
  \<open>helpers.go\<close>): parsing, writing and the resolution of a key frame.  A byte slice is a list
  of \<^typ>\<open>u8\<close>; the \<open>nil\<close> slice is \<^const>\<open>None\<close>.
\<close>

datatype vp8_err = ErrShortPacket | ErrNilPacket | ErrInvalidPacket

record vp8 =
  v8_first_byte :: u8
  v8_S :: bool
  v8_I :: bool
  v8_M :: bool
  v8_picture_id :: u16
  v8_L :: bool
  v8_tl0picidx :: u8
  v8_T :: bool
  v8_tid :: u8
  v8_Y :: bool
  v8_K :: bool
  v8_keyidx :: u8
  v8_header_size :: int
  v8_is_key_frame :: bool

definition vp8_zero :: vp8 where
  "vp8_zero = \<lparr>v8_first_byte = 0, v8_S = False, v8_I = False, v8_M = False, v8_picture_id = 0,
     v8_L = False, v8_tl0picidx = 0, v8_T = False, v8_tid = 0, v8_Y = False, v8_K = False,
     v8_keyidx = 0, v8_header_size = 0, v8_is_key_frame = False\<rparr>"

section \<open>Parsing\<close>

text \<open>
  \<open>Unmarshal\<close> fills the struct it is called on as it goes and returns early on an error, with
  the fields it has set so far.  Each stage below is one block of the function: it reads at
  the index \<open>idx\<close> it is given and returns the struct and the last index it has read, or the
  error and the struct at that point.
\<close>

type_synonym vp8_stage = "(vp8_err \<times> vp8) + (vp8 \<times> nat)"

definition read_picture_id :: "u8 list \<Rightarrow> vp8 \<Rightarrow> nat \<Rightarrow> vp8_stage" where
  "read_picture_id p v idx =
    (if v8_I v then
       let i = idx + 1
       in if length p < i + 1 then Inl (ErrShortPacket, v)
       else let pid = p ! i AND 0x7f; v1 = v\<lparr>v8_M := (p ! i AND 0x80 > 0)\<rparr>
       in if v8_M v1 then
            (let j = i + 1
             in if length p < j + 1 then Inl (ErrShortPacket, v1)
                else Inr (v1\<lparr>v8_picture_id := push_bit 8 (ucast pid) OR ucast (p ! j)\<rparr>, j))
          else Inr (v1\<lparr>v8_picture_id := ucast pid\<rparr>, i)
     else Inr (v, idx))"

definition read_tl0picidx :: "u8 list \<Rightarrow> vp8 \<Rightarrow> nat \<Rightarrow> vp8_stage" where
  "read_tl0picidx p v idx =
    (if v8_L v then
       let i = idx + 1
       in if length p < i + 1 then Inl (ErrShortPacket, v)
          else Inr (v\<lparr>v8_tl0picidx := p ! i\<rparr>, i)
     else Inr (v, idx))"

definition read_tid_keyidx :: "u8 list \<Rightarrow> vp8 \<Rightarrow> nat \<Rightarrow> vp8_stage" where
  "read_tid_keyidx p v idx =
    (if v8_T v \<or> v8_K v then
       let i = idx + 1
       in if length p < i + 1 then Inl (ErrShortPacket, v)
       else let v1 = (if v8_T v then v\<lparr>v8_tid := drop_bit 6 (p ! i AND 0xc0), v8_Y := (p ! i AND 0x20 > 0)\<rparr> else v);
                v2 = (if v8_K v1 then v1\<lparr>v8_keyidx := p ! i AND 0x1f\<rparr> else v1)
            in Inr (v2, i)
     else Inr (v, idx))"

text \<open>The end of both branches: the first byte of the VP8 payload says if it is a key frame.\<close>

definition read_key_frame :: "u8 list \<Rightarrow> vp8 \<Rightarrow> nat \<Rightarrow> vp8_stage" where
  "read_key_frame p v idx =
    (let i = idx + 1
     in if length p < i + 1 then Inl (ErrShortPacket, v)
        else Inr (v\<lparr>v8_is_key_frame := (p ! i AND 1 = 0 \<and> v8_S v)\<rparr>, i))"

definition read_extension :: "u8 list \<Rightarrow> vp8 \<Rightarrow> vp8_stage" where
  "read_extension p v =
    (if length p < 2 then Inl (ErrShortPacket, v)
     else let x = p ! 1;
              v1 = v\<lparr>v8_I := (x AND 0x80 > 0), v8_L := (x AND 0x40 > 0),
                     v8_T := (x AND 0x20 > 0), v8_K := (x AND 0x10 > 0)\<rparr>
     in if v8_L v1 \<and> \<not> v8_T v1 then Inl (ErrInvalidPacket, v1)
        else Inr (v1, 1))"

definition vp8_unmarshal :: "vp8 \<Rightarrow> u8 list option \<Rightarrow> vp8_err option \<times> vp8" where
  "vp8_unmarshal v payload =
    (case payload of
       None \<Rightarrow> (Some ErrNilPacket, v)
     | Some p \<Rightarrow>
        if length p < 1 then (Some ErrShortPacket, v)
        else let v0 = v\<lparr>v8_first_byte := p ! 0, v8_S := (p ! 0 AND 0x10 > 0)\<rparr>;
                 parsed = (if p ! 0 AND 0x80 > 0
                   then and_then (and_then (and_then (and_then (read_extension p v0)
                          (\<lambda>(v1, i1). read_picture_id p v1 i1))
                          (\<lambda>(v2, i2). read_tl0picidx p v2 i2))
                          (\<lambda>(v3, i3). read_tid_keyidx p v3 i3))
                          (\<lambda>(v4, i4). read_key_frame p v4 i4)
                   else read_key_frame p v0 0)
        in case parsed of Inl (e, v') \<Rightarrow> (Some e, v')
           | Inr (v', idx) \<Rightarrow> (None, v'\<lparr>v8_header_size := int idx\<rparr>))"

section \<open>Writing\<close>

text \<open>
  \<open>MarshalTo\<close> writes into the caller's buffer; every write may panic, which is \<^const>\<open>None\<close>.
  The stages take the buffer, the next index and the flags byte \<open>xval\<close> built so far.
\<close>

type_synonym vp8_out = "u8 list \<times> nat \<times> u8"

definition write_picture_id :: "vp8 \<Rightarrow> vp8_out \<Rightarrow> vp8_out option" where
  "write_picture_id v = (\<lambda>(buf, idx, xval).
    if v8_I v then
      if v8_M v then do {
        buf1 \<leftarrow> go_update buf (int idx) (0x80 OR ucast (drop_bit 8 (v8_picture_id v) AND 0x7f));
        buf2 \<leftarrow> go_update buf1 (int idx + 1) (ucast (v8_picture_id v AND 0xff));
        Some (buf2, idx + 2, xval OR 0x80) }
      else do {
        buf1 \<leftarrow> go_update buf (int idx) (ucast (v8_picture_id v));
        Some (buf1, idx + 1, xval OR 0x80) }
    else Some (buf, idx, xval))"

definition write_tl0picidx :: "vp8 \<Rightarrow> vp8_out \<Rightarrow> vp8_out option" where
  "write_tl0picidx v = (\<lambda>(buf, idx, xval).
    if v8_L v then do {
      buf1 \<leftarrow> go_update buf (int idx) (v8_tl0picidx v);
      Some (buf1, idx + 1, xval OR 0x40) }
    else Some (buf, idx, xval))"

definition tid_keyidx_byte :: "vp8 \<Rightarrow> u8" where
  "tid_keyidx_byte v =
    (let b = (if v8_T v then push_bit 6 (v8_tid v) OR (if v8_Y v then 0x20 else 0) else 0)
     in if v8_K v then b OR (v8_keyidx v AND 0x1f) else b)"

definition write_tid_keyidx :: "vp8 \<Rightarrow> vp8_out \<Rightarrow> vp8_out option" where
  "write_tid_keyidx v = (\<lambda>(buf, idx, xval).
    if v8_T v \<or> v8_K v then do {
      buf1 \<leftarrow> go_update buf (int idx) (tid_keyidx_byte v);
      Some (buf1, idx + 1, (xval OR (if v8_T v then 0x20 else 0)) OR (if v8_K v then 0x10 else 0)) }
    else Some (buf, idx, xval))"

definition has_extension :: "vp8 \<Rightarrow> bool" where
  "has_extension v \<longleftrightarrow> v8_I v \<or> v8_L v \<or> v8_T v \<or> v8_K v"

definition vp8_marshal_to :: "vp8 \<Rightarrow> u8 list \<Rightarrow> (vp8_err + nat \<times> u8 list) option" where
  "vp8_marshal_to v buf =
    (if int (length buf) < v8_header_size v then Some (Inl ErrShortPacket)
     else if has_extension v then do {
       buf1 \<leftarrow> go_update buf 0 (v8_first_byte v OR 0x80);
       out1 \<leftarrow> write_picture_id v (buf1, 2, 0);
       out2 \<leftarrow> write_tl0picidx v out1;
       (buf4, idx, xval) \<leftarrow> write_tid_keyidx v out2;
       buf5 \<leftarrow> go_update buf4 1 xval;
       Some (Inr (idx, buf5)) }
     else do {
       buf1 \<leftarrow> go_update buf 0 (v8_first_byte v AND NOT 0x80);
       Some (Inr (1, buf1)) })"

definition vp8_marshal :: "vp8 \<Rightarrow> (vp8_err + u8 list) option" where
  "vp8_marshal v = do {
     r \<leftarrow> vp8_marshal_to v (replicate 8 0);
     Some (case r of Inl e \<Rightarrow> Inl e | Inr (n, buf) \<Rightarrow> Inr (take n buf)) }"

definition vpx_picture_id_size_diff :: "bool \<Rightarrow> bool \<Rightarrow> int" where
  "vpx_picture_id_size_diff m1 m2 = (if m1 = m2 then 0 else if m1 then 1 else -1)"

record video_size =
  vs_width :: u32
  vs_height :: u32

definition extract_vp8_video_size :: "vp8 \<Rightarrow> u8 list \<Rightarrow> video_size option" where
  "extract_vp8_video_size v payload =
    (if \<not> v8_is_key_frame v \<or> int (length payload) < v8_header_size v + 10
     then Some \<lparr>vs_width = 0, vs_height = 0\<rparr>
     else if v8_header_size v < 0 then None
     else let p = drop (nat (v8_header_size v)) payload
     in if length p < 10 \<or> p ! 3 \<noteq> 0x9D \<or> p ! 4 \<noteq> 0x01 \<or> p ! 5 \<noteq> 0x2A
        then Some \<lparr>vs_width = 0, vs_height = 0\<rparr>
        else Some \<lparr>vs_width = (ucast (p ! 6) OR push_bit 8 (ucast (p ! 7))) AND 0x3FFF,
                   vs_height = (ucast (p ! 8) OR push_bit 8 (ucast (p ! 9))) AND 0x3FFF\<rparr>)"

section \<open>What Marshal writes\<close>

text \<open>The bytes of the descriptor, in order.\<close>

definition picture_id_bytes :: "vp8 \<Rightarrow> u8 list" where
  "picture_id_bytes v =
    (if v8_I v then
       if v8_M v then [0x80 OR ucast (drop_bit 8 (v8_picture_id v) AND 0x7f), ucast (v8_picture_id v AND 0xff)]
       else [ucast (v8_picture_id v)]
     else [])"

definition flags_byte :: "vp8 \<Rightarrow> u8" where
  "flags_byte v = (if v8_I v then 0x80 else 0) OR (if v8_L v then 0x40 else 0) OR
     (if v8_T v then 0x20 else 0) OR (if v8_K v then 0x10 else 0)"

definition header_bytes :: "vp8 \<Rightarrow> u8 list" where
  "header_bytes v =
    (if has_extension v
     then [v8_first_byte v OR 0x80, flags_byte v] @ picture_id_bytes v @
       (if v8_L v then [v8_tl0picidx v] else []) @
       (if v8_T v \<or> v8_K v then [tid_keyidx_byte v] else [])
     else [v8_first_byte v AND NOT 0x80])"

lemma marshal_to_bytes:
  assumes "v8_header_size v \<le> 8"
  shows "vp8_marshal v = Some (Inr (header_bytes v))"
proof (cases "has_extension v")
  case False
  with assms show ?thesis
    by (simp add: vp8_marshal_def vp8_marshal_to_def header_bytes_def eval_nat_numeral)
next
  case True
  with assms show ?thesis
    by (cases "v8_I v"; cases "v8_M v"; cases "v8_L v"; cases "v8_T v"; cases "v8_K v")
      (simp_all add: vp8_marshal_def vp8_marshal_to_def header_bytes_def has_extension_def
        write_picture_id_def write_tl0picidx_def write_tid_keyidx_def picture_id_bytes_def flags_byte_def
        eval_nat_numeral)
qed

section \<open>Round trip\<close>

lemma masks:
  "(x::u8) AND 0x1f = take_bit 5 x" "(x::u8) AND 0x7f = take_bit 7 x"
  "(y::u16) AND 0xff = take_bit 8 y" "(y::u16) AND 0x7f = take_bit 7 y"
  by (simp_all add: take_bit_eq_mask mask_eq_exp_minus_1)

lemma exps:
  "(0xc0::u8) = push_bit 6 (mask 2)" "(0x80::u8) = push_bit 7 1" "(0x40::u8) = push_bit 6 1"
  "(0x20::u8) = push_bit 5 1" "(0x10::u8) = push_bit 4 1"
  by (simp_all add: mask_eq_exp_minus_1 push_bit_eq_mult)

lemma test_bit: "((x::u8) AND push_bit n 1 > 0) = bit x n"
  by (simp add: word_gt_0 and_exp_eq_0_iff_not_bit push_bit_eq_mult)

lemmas test_bits = test_bit [of _ 7, folded exps] test_bit [of _ 6, folded exps]
  test_bit [of _ 5, folded exps] test_bit [of _ 4, folded exps]

lemma bit_below: "take_bit n (x::'a::len word) = x \<Longrightarrow> bit x m \<Longrightarrow> m < n"
  by (metis bit_take_bit_iff)

lemma top_bits: "drop_bit 6 ((x::u8) AND 0xc0) = drop_bit 6 x"
  unfolding exps by (rule bit_word_eqI) (auto simp: bit_simps dest: bit_imp_le_length)

lemma picture_id_15:
  "take_bit 15 (p::u16) = p \<Longrightarrow>
   push_bit 8 (ucast (take_bit 7 (push_bit 7 1 OR ucast (take_bit 7 (drop_bit 8 p))) :: u8))
     OR ucast (ucast (take_bit 8 p) :: u8) = p"
  apply (rule bit_word_eqI)
  subgoal for n by (cases "n < 8") (auto simp: bit_simps dest: bit_below)
  done

lemma picture_id_7: "take_bit 7 (p::u16) = p \<Longrightarrow> ucast (take_bit 7 (ucast p :: u8)) = p"
  by (rule bit_word_eqI) (auto simp: bit_simps dest: bit_below)

lemma tid_byte_tid:
  "take_bit 2 (t::u8) = t \<Longrightarrow> take_bit 6 e = e \<Longrightarrow> drop_bit 6 (push_bit 6 t OR e) = t"
  by (rule bit_word_eqI) (auto simp: bit_simps dest: bit_below)

lemma tid_byte_keyidx: "take_bit 5 (k::u8) = k \<Longrightarrow> take_bit 5 ((push_bit 6 t OR push_bit 5 y) OR k) = k"
  by (rule bit_word_eqI) (auto simp: bit_simps dest: bit_below)

text \<open>A struct that \<open>Unmarshal\<close> can produce: fields without their flag are zero, those with it
  fit their bits, and the sizes agree.\<close>

definition vp8_canonical :: "vp8 \<Rightarrow> bool" where
  "vp8_canonical v \<longleftrightarrow>
     v8_S v = bit (v8_first_byte v) 4 \<and> bit (v8_first_byte v) 7 = has_extension v \<and>
     (v8_L v \<longrightarrow> v8_T v) \<and> (v8_M v \<longrightarrow> v8_I v) \<and>
     (if v8_I v then take_bit (if v8_M v then 15 else 7) (v8_picture_id v) = v8_picture_id v
      else v8_picture_id v = 0) \<and>
     (\<not> v8_L v \<longrightarrow> v8_tl0picidx v = 0) \<and>
     (if v8_T v then take_bit 2 (v8_tid v) = v8_tid v else v8_tid v = 0 \<and> \<not> v8_Y v) \<and>
     (if v8_K v then take_bit 5 (v8_keyidx v) = v8_keyidx v else v8_keyidx v = 0) \<and>
     v8_header_size v = int (length (header_bytes v))"

lemma header_bytes_le: "length (header_bytes v) \<le> 6"
  by (simp add: header_bytes_def picture_id_bytes_def)

lemma flags_bits:
  "bit (flags_byte v) 7 = v8_I v" "bit (flags_byte v) 6 = v8_L v"
  "bit (flags_byte v) 5 = v8_T v" "bit (flags_byte v) 4 = v8_K v"
  unfolding flags_byte_def exps by (auto simp: bit_simps)

text \<open>Each stage of the parser on what the writer wrote.\<close>

lemma read_picture_id_bytes:
  assumes "v8_I u = v8_I v" "v8_M v \<longrightarrow> v8_I v" "\<not> v8_M u" "v8_picture_id u = 0"
    "if v8_I v then take_bit (if v8_M v then 15 else 7) (v8_picture_id v) = v8_picture_id v
     else v8_picture_id v = 0"
  shows "read_picture_id (x # y # picture_id_bytes v @ rest) u 1 =
    Inr (u\<lparr>v8_M := v8_M v, v8_picture_id := v8_picture_id v\<rparr>, 1 + length (picture_id_bytes v))"
proof -
  have m: "bit (push_bit 7 1 OR (ucast (take_bit 7 (drop_bit 8 p)) :: u8)) 7" for p :: u16
    by (simp add: bit_simps)
  have n: "\<not> bit (ucast p :: u8) 7" if "take_bit 7 p = p" for p :: u16
    using that bit_below [of 7 p 7] by (auto simp: bit_simps)
  show ?thesis
    using assms by (cases "v8_I v"; cases "v8_M v")
      (auto simp: read_picture_id_def picture_id_bytes_def Let_def masks test_bits m [folded exps] n
        picture_id_15 [folded exps] picture_id_7 simp del: take_bit_or)
qed

lemma read_tl0picidx_bytes:
  assumes "v8_L u = v8_L v" "\<not> v8_L v \<longrightarrow> v8_tl0picidx v = 0" "v8_tl0picidx u = 0" "idx + 1 = length pre"
  shows "read_tl0picidx (pre @ (if v8_L v then [v8_tl0picidx v] else []) @ rest) u idx =
    Inr (u\<lparr>v8_tl0picidx := v8_tl0picidx v\<rparr>, idx + (if v8_L v then 1 else 0))"
  using assms by (auto simp: read_tl0picidx_def nth_append)

lemma tid_keyidx_bits:
  assumes "take_bit 5 k = k" "take_bit 2 t = t"
  shows "take_bit 5 ((push_bit 6 t OR (if y then push_bit 5 1 else 0)) OR k) = (k::u8)"
    "drop_bit 6 ((push_bit 6 t OR (if y then push_bit 5 1 else 0)) OR k) = (t::u8)"
    "bit ((push_bit 6 t OR (if y then push_bit 5 1 else 0)) OR k) 5 = y"
  using assms by (auto intro!: bit_word_eqI simp: bit_simps dest: bit_below)

lemma read_tid_keyidx_bytes:
  assumes "v8_T u = v8_T v" "v8_K u = v8_K v" "v8_tid u = 0" "v8_keyidx u = 0" "\<not> v8_Y u" "idx + 1 = length pre"
    "if v8_T v then take_bit 2 (v8_tid v) = v8_tid v else v8_tid v = 0 \<and> \<not> v8_Y v"
    "if v8_K v then take_bit 5 (v8_keyidx v) = v8_keyidx v else v8_keyidx v = 0"
  shows "read_tid_keyidx (pre @ (if v8_T v \<or> v8_K v then [tid_keyidx_byte v] else []) @ rest) u idx =
    Inr (u\<lparr>v8_tid := v8_tid v, v8_Y := v8_Y v, v8_keyidx := v8_keyidx v\<rparr>,
      idx + (if v8_T v \<or> v8_K v then 1 else 0))"
proof (cases "v8_T v \<or> v8_K v")
  case False
  with assms show ?thesis by (cases u) (simp add: read_tid_keyidx_def)
next
  case True
  let ?b = "(push_bit 6 (v8_tid v) OR (if v8_Y v then push_bit 5 1 else 0)) OR v8_keyidx v"
  have b: "tid_keyidx_byte v = ?b"
    using assms(7,8) True unfolding tid_keyidx_byte_def exps(4) Let_def masks
    by (cases "v8_T v"; cases "v8_K v") simp_all
  have tid3: "v8_tid v AND 3 = v8_tid v"
    using assms(7) by (auto simp: take_bit_eq_mask mask_eq_exp_minus_1 split: if_splits)
  have kt: "take_bit 5 (v8_keyidx v) = v8_keyidx v" "take_bit 2 (v8_tid v) = v8_tid v"
    using assms by (auto split: if_splits)
  note f = tid_keyidx_bits [OF kt, of "v8_Y v", folded b]
  have t0: "u\<lparr>v8_tid := 0, v8_Y := False\<rparr> = u" "u\<lparr>v8_keyidx := 0\<rparr> = u"
    using assms(3-5) by (cases u; simp)+
  let ?p = "pre @ tid_keyidx_byte v # rest"
  have "?p ! (idx + 1) = tid_keyidx_byte v" "\<not> length ?p < idx + 1 + 1"
    using assms(6) by (simp_all add: nth_append)
  then have "read_tid_keyidx ?p u idx =
    (let v1 = (if v8_T u then u\<lparr>v8_tid := v8_tid v, v8_Y := v8_Y v\<rparr> else u);
         v2 = (if v8_K v1 then v1\<lparr>v8_keyidx := v8_keyidx v\<rparr> else v1)
     in Inr (v2, idx + 1))"
    using True assms(1,2) by (simp add: read_tid_keyidx_def Let_def top_bits test_bits masks f tid3)
  moreover have "u\<lparr>v8_tid := v8_tid v, v8_Y := v8_Y v, v8_keyidx := v8_keyidx v\<rparr> =
    (let v1 = (if v8_T u then u\<lparr>v8_tid := v8_tid v, v8_Y := v8_Y v\<rparr> else u)
     in if v8_K v1 then v1\<lparr>v8_keyidx := v8_keyidx v\<rparr> else v1)"
    using True assms by (cases u) (auto simp: Let_def split: if_splits)
  ultimately show ?thesis using True by (simp add: Let_def)
qed

lemma read_key_frame_bytes:
  assumes "idx + 1 = length pre" "rest \<noteq> []"
  shows "read_key_frame (pre @ rest) u idx =
    Inr (u\<lparr>v8_is_key_frame := (\<not> bit (hd rest) 0 \<and> v8_S u)\<rparr>, idx + 1)"
  using assms by (auto simp: read_key_frame_def nth_append and_one_eq hd_conv_nth bit_0 even_iff_mod_2_eq_zero)

lemma bit_128: "bit (0x80::u8) n \<longleftrightarrow> n = 7"
  using bit_exp_iff [where 'a = "8 word", of 7 n] by auto

lemma first_byte_bits:
  fixes b :: u8
  shows "bit (b OR 0x80) 7" "bit (b OR 0x80) 4 = bit b 4"
    "bit b 7 \<Longrightarrow> b OR 0x80 = b" "\<not> bit b 7 \<Longrightarrow> b AND NOT 0x80 = b"
proof -
  show "bit (b OR 0x80) 7" "bit (b OR 0x80) 4 = bit b 4" by (simp_all add: bit_or_iff)
  show "b OR 0x80 = b" if "bit b 7"
    by (rule bit_word_eqI) (use that bit_128 in \<open>auto simp only: bit_or_iff\<close>)
  show "b AND NOT 0x80 = b" if "\<not> bit b 7"
    by (rule bit_word_eqI) (use that bit_128 in \<open>auto simp only: bit_and_iff bit_not_iff_eq dest: exp_eq_0_imp_not_bit\<close>)
qed

section \<open>Properties\<close>

lemma vp8_canonicalD:
  assumes "vp8_canonical v"
  shows "v8_S v = bit (v8_first_byte v) 4" "bit (v8_first_byte v) 7 = has_extension v"
    "v8_L v \<longrightarrow> v8_T v" "v8_M v \<longrightarrow> v8_I v"
    "if v8_I v then take_bit (if v8_M v then 15 else 7) (v8_picture_id v) = v8_picture_id v
      else v8_picture_id v = 0"
    "\<not> v8_L v \<longrightarrow> v8_tl0picidx v = 0"
    "if v8_T v then take_bit 2 (v8_tid v) = v8_tid v else v8_tid v = 0 \<and> \<not> v8_Y v"
    "if v8_K v then take_bit 5 (v8_keyidx v) = v8_keyidx v else v8_keyidx v = 0"
    "v8_header_size v = int (length (header_bytes v))"
  using assms unfolding vp8_canonical_def by blast+

lemma read_extension_bytes:
  assumes "vp8_canonical v"
  shows "read_extension (x # flags_byte v # q) u =
    Inr (u\<lparr>v8_I := v8_I v, v8_L := v8_L v, v8_T := v8_T v, v8_K := v8_K v\<rparr>, 1)"
  using vp8_canonicalD(3) [OF assms] by (simp add: read_extension_def test_bits flags_bits Let_def)

lemma unmarshal_extended:
  assumes c: "vp8_canonical v" and ext: "has_extension v" and rest: "rest \<noteq> []"
  shows "vp8_unmarshal vp8_zero (Some (header_bytes v @ rest)) =
    (None, v\<lparr>v8_is_key_frame := (\<not> bit (hd rest) 0 \<and> v8_S v)\<rparr>)"
proof -
  note d = vp8_canonicalD [OF c]
  let ?x = "v8_first_byte v" and ?y = "flags_byte v" and ?pid = "picture_id_bytes v"
  let ?tl = "if v8_L v then [v8_tl0picidx v] else []"
  let ?tk = "if v8_T v \<or> v8_K v then [tid_keyidx_byte v] else []"
  let ?p = "?x # ?y # ?pid @ ?tl @ ?tk @ rest"
  have x: "v8_first_byte v OR 0x80 = ?x" "bit ?x 7" "bit ?x 4 = v8_S v"
    using d(1,2) ext first_byte_bits(3) by auto
  have p: "header_bytes v @ rest = ?p"
    using ext x(1) by (simp add: header_bytes_def)
  define u0 where "u0 = vp8_zero\<lparr>v8_first_byte := ?x, v8_S := v8_S v\<rparr>"
  define u1 where "u1 = u0\<lparr>v8_I := v8_I v, v8_L := v8_L v, v8_T := v8_T v, v8_K := v8_K v\<rparr>"
  define u2 where "u2 = u1\<lparr>v8_M := v8_M v, v8_picture_id := v8_picture_id v\<rparr>"
  define u3 where "u3 = u2\<lparr>v8_tl0picidx := v8_tl0picidx v\<rparr>"
  define u4 where "u4 = u3\<lparr>v8_tid := v8_tid v, v8_Y := v8_Y v, v8_keyidx := v8_keyidx v\<rparr>"
  note u = u0_def u1_def u2_def u3_def u4_def vp8_zero_def
  have s1: "read_extension ?p u0 = Inr (u1, 1)"
    by (simp only: read_extension_bytes [OF c] u1_def)
  have s2: "read_picture_id ?p u1 1 = Inr (u2, 1 + length ?pid)"
    using read_picture_id_bytes [of u1 v] d(4,5) by (simp add: u)
  have s3: "read_tl0picidx ?p u2 (1 + length ?pid) = Inr (u3, 1 + length (?pid @ ?tl))"
    using read_tl0picidx_bytes [of u2 v "1 + length ?pid" "?x # ?y # ?pid" "?tk @ rest"] d(6) by (simp add: u)
  have s4: "read_tid_keyidx ?p u3 (1 + length (?pid @ ?tl)) = Inr (u4, 1 + length (?pid @ ?tl @ ?tk))"
    using read_tid_keyidx_bytes [of u3 v "1 + length (?pid @ ?tl)" "?x # ?y # ?pid @ ?tl" rest] d(7,8) by (simp add: u)
  have s5: "read_key_frame ?p u4 (1 + length (?pid @ ?tl @ ?tk)) =
      Inr (u4\<lparr>v8_is_key_frame := (\<not> bit (hd rest) 0 \<and> v8_S v)\<rparr>, 1 + length (?pid @ ?tl @ ?tk) + 1)"
    using read_key_frame_bytes [of "1 + length (?pid @ ?tl @ ?tk)" "?x # ?y # ?pid @ ?tl @ ?tk" rest u4] rest
    by (simp add: u)
  have len: "v8_header_size v = int (1 + length (?pid @ ?tl @ ?tk) + 1)"
    using d(9) ext by (simp add: header_bytes_def)
  have "vp8_unmarshal vp8_zero (Some ?p) = (None, u4\<lparr>v8_is_key_frame := (\<not> bit (hd rest) 0 \<and> v8_S v),
      v8_header_size := int (1 + length (?pid @ ?tl @ ?tk) + 1)\<rparr>)"
    using x(2,3) s1 s2 s3 s4 s5
    by (simp add: vp8_unmarshal_def test_bits u0_def [symmetric] del: of_nat_add of_nat_Suc)
  moreover have "u4\<lparr>v8_is_key_frame := k, v8_header_size := v8_header_size v\<rparr> = v\<lparr>v8_is_key_frame := k\<rparr>" for k
    by (cases v) (simp add: u)
  ultimately show ?thesis by (simp only: p len)
qed

lemma unmarshal_plain:
  assumes c: "vp8_canonical v" and ext: "\<not> has_extension v" and rest: "rest \<noteq> []"
  shows "vp8_unmarshal vp8_zero (Some (header_bytes v @ rest)) =
    (None, v\<lparr>v8_is_key_frame := (\<not> bit (hd rest) 0 \<and> v8_S v)\<rparr>)"
proof -
  note d = vp8_canonicalD [OF c]
  have x: "v8_first_byte v AND NOT 0x80 = v8_first_byte v" "\<not> bit (v8_first_byte v) 7"
    using d(2) ext first_byte_bits(4) by auto
  have p: "header_bytes v @ rest = v8_first_byte v # rest"
    using ext by (simp only: header_bytes_def x(1) if_False append_Cons append_Nil)
  have z: "\<not> v8_I v" "\<not> v8_L v" "\<not> v8_T v" "\<not> v8_K v" using ext by (auto simp: has_extension_def)
  have "v8_header_size v = 1" using d(9) ext by (simp add: header_bytes_def)
  with x(2) rest z d show ?thesis
    using read_key_frame_bytes [of 0 "[v8_first_byte v]" rest]
    unfolding p by (cases v) (simp add: vp8_unmarshal_def test_bits vp8_zero_def)
qed

text \<open>
  C21. Writing and parsing a VP8 descriptor: for a struct whose fields are consistent with
  its flags, \<open>Marshal\<close> does not panic or fail, and parsing the bytes it wrote, followed by any
  payload, gives the struct back; whether it is a key frame is read from the payload.
\<close>

theorem vp8_round_trip:
  assumes "vp8_canonical v" "rest \<noteq> []"
  shows "\<exists>bs. vp8_marshal v = Some (Inr bs) \<and> int (length bs) = v8_header_size v \<and>
    vp8_unmarshal vp8_zero (Some (bs @ rest)) =
      (None, v\<lparr>v8_is_key_frame := (\<not> bit (hd rest) 0 \<and> v8_S v)\<rparr>)"
proof (intro exI conjI)
  have h: "v8_header_size v = int (length (header_bytes v))" by (rule vp8_canonicalD [OF assms(1)])
  then show "vp8_marshal v = Some (Inr (header_bytes v))"
    using header_bytes_le [of v] by (intro marshal_to_bytes) simp
  show "int (length (header_bytes v)) = v8_header_size v" by (simp add: h)
  show "vp8_unmarshal vp8_zero (Some (header_bytes v @ rest)) =
      (None, v\<lparr>v8_is_key_frame := (\<not> bit (hd rest) 0 \<and> v8_S v)\<rparr>)"
    using unmarshal_extended [OF assms(1) _ assms(2)] unmarshal_plain [OF assms(1) _ assms(2)]
    by (cases "has_extension v") auto
qed

definition vp8_example :: vp8 where
  "vp8_example = \<lparr>v8_first_byte = 0x90, v8_S = True, v8_I = True, v8_M = True, v8_picture_id = 0x1234,
     v8_L = True, v8_tl0picidx = 7, v8_T = True, v8_tid = 2, v8_Y = True, v8_K = True,
     v8_keyidx = 5, v8_header_size = 6, v8_is_key_frame = False\<rparr>"

theorem vp8_round_trip_witness:
  "vp8_unmarshal vp8_zero (Some [0x90, 0xF0, 0x92, 0x34, 7, 0xA5, 0xFE]) =
     (None, vp8_example\<lparr>v8_is_key_frame := True\<rparr>)"
proof -
  have c: "vp8_canonical vp8_example"
    by (simp add: vp8_canonical_def vp8_example_def has_extension_def header_bytes_def picture_id_bytes_def)
  have "vp8_marshal vp8_example = Some (Inr [0x90, 0xF0, 0x92, 0x34, 7, 0xA5])"
    by (simp add: marshal_to_bytes vp8_example_def has_extension_def header_bytes_def picture_id_bytes_def
        flags_byte_def tid_keyidx_byte_def)
  with vp8_round_trip [OF c, of "[0xFE]"] show ?thesis by (simp add: vp8_example_def)
qed

section \<open>What the parser accepts\<close>

text \<open>Every field fits the bits it is read from.\<close>

definition vp8_bounded :: "vp8 \<Rightarrow> bool" where
  "vp8_bounded v \<longleftrightarrow> take_bit 15 (v8_picture_id v) = v8_picture_id v \<and>
     take_bit 2 (v8_tid v) = v8_tid v \<and> take_bit 5 (v8_keyidx v) = v8_keyidx v"

lemma read_bounds:
  "take_bit 15 (push_bit 8 (ucast (take_bit 7 (b::u8))) OR ucast (c::u8)) =
     (push_bit 8 (ucast (take_bit 7 b)) OR ucast c :: u16)"
  "take_bit 15 (ucast (take_bit 7 b)) = (ucast (take_bit 7 b) :: u16)"
  "take_bit 2 (drop_bit 6 b) = drop_bit 6 b"
proof -
  have b: "n < 8" if "bit b n" for n using that bit_imp_le_length [of b n] by simp
  have c: "n < 8" if "bit c n" for n using that bit_imp_le_length [of c n] by simp
  let ?w = "push_bit 8 (ucast (take_bit 7 b)) OR ucast c :: u16"
  show "take_bit 15 ?w = ?w"
  proof (rule bit_word_eqI)
    fix n assume "n < LENGTH(16)"
    then show "bit (take_bit 15 ?w) n = bit ?w n"
      using c [of n] by (cases "n < 15") (auto simp: bit_simps)
  qed
  show "take_bit 15 (ucast (take_bit 7 b)) = (ucast (take_bit 7 b) :: u16)"
    by (rule bit_word_eqI) (auto simp: bit_simps)
  show "take_bit 2 (drop_bit 6 b) = drop_bit 6 b"
  proof (rule bit_word_eqI)
    fix n assume "n < LENGTH(8)"
    then show "bit (take_bit 2 (drop_bit 6 b)) n = bit (drop_bit 6 b) n"
      using b [of "6 + n"] by (auto simp: bit_simps)
  qed
qed

definition stage_ok :: "nat \<Rightarrow> u8 list \<Rightarrow> vp8 \<Rightarrow> nat \<Rightarrow> vp8_stage \<Rightarrow> bool" where
  "stage_ok n p v i r \<longleftrightarrow> (case r of Inl _ \<Rightarrow> True | Inr (v', j) \<Rightarrow>
     (vp8_bounded v \<longrightarrow> vp8_bounded v') \<and> i \<le> j \<and> j \<le> i + n \<and> (i < length p \<longrightarrow> j < length p) \<and>
     (v8_L v' \<longrightarrow> v8_T v') = (v8_L v \<longrightarrow> v8_T v))"

lemma read_picture_id_ok: "stage_ok 2 p v i (read_picture_id p v i)"
  by (auto simp: stage_ok_def read_picture_id_def vp8_bounded_def Let_def masks read_bounds
      simp del: take_bit_or)

lemma read_tl0picidx_ok: "stage_ok 1 p v i (read_tl0picidx p v i)"
  by (auto simp: stage_ok_def read_tl0picidx_def vp8_bounded_def Let_def)

lemma read_tid_keyidx_ok: "stage_ok 1 p v i (read_tid_keyidx p v i)"
  by (auto simp: stage_ok_def read_tid_keyidx_def vp8_bounded_def Let_def masks top_bits read_bounds
      simp del: drop_bit_and)

lemma read_key_frame_ok: "stage_ok 1 p v i (read_key_frame p v i)"
  by (auto simp: stage_ok_def read_key_frame_def vp8_bounded_def Let_def)

lemma read_key_frame_index: "read_key_frame p v i = Inr (v', j) \<Longrightarrow> j = i + 1 \<and> j < length p"
  by (auto simp: read_key_frame_def Let_def split: if_splits)

lemma and_then_Inr: "and_then m f = Inr y \<longleftrightarrow> (\<exists>x. m = Inr x \<and> f x = Inr y)"
  by (cases m) auto

lemma stage_okD:
  assumes "stage_ok n p v i r" "r = Inr (v', j)"
  shows "vp8_bounded v \<Longrightarrow> vp8_bounded v'" "i \<le> j" "j \<le> i + n" "(v8_L v' \<longrightarrow> v8_T v') = (v8_L v \<longrightarrow> v8_T v)"
  using assms by (auto simp: stage_ok_def)

lemma vp8_zero_bounded: "vp8_bounded (vp8_zero\<lparr>v8_first_byte := b, v8_S := s\<rparr>)"
  by (simp add: vp8_bounded_def vp8_zero_def)

lemma unmarshal_accepts:
  assumes "vp8_unmarshal vp8_zero (Some p) = (None, v)"
  shows "vp8_bounded v \<and> (v8_L v \<longrightarrow> v8_T v) \<and> 1 \<le> v8_header_size v \<and> v8_header_size v \<le> 6 \<and>
    v8_header_size v < int (length p)"
proof -
  define v0 where "v0 = vp8_zero\<lparr>v8_first_byte := p ! 0, v8_S := (p ! 0 AND 0x10 > 0)\<rparr>"
  have b0: "vp8_bounded v0" by (simp add: v0_def vp8_zero_bounded)
  show ?thesis
  proof (cases "p ! 0 AND 0x80 > 0")
    case False
    with assms obtain u j where r: "read_key_frame p v0 0 = Inr (u, j)" and v: "v = u\<lparr>v8_header_size := int j\<rparr>"
      by (auto simp: vp8_unmarshal_def v0_def Let_def split: if_splits sum.splits)
    have "\<not> v8_L v0" by (simp add: v0_def vp8_zero_def)
    with stage_okD [OF read_key_frame_ok r] read_key_frame_index [OF r] b0 v show ?thesis
      by (auto simp: vp8_bounded_def)
  next
    case True
    with assms obtain u1 i1 u2 i2 u3 i3 u4 i4 u j
      where e: "read_extension p v0 = Inr (u1, i1)" and r2: "read_picture_id p u1 i1 = Inr (u2, i2)"
        and r3: "read_tl0picidx p u2 i2 = Inr (u3, i3)" and r4: "read_tid_keyidx p u3 i3 = Inr (u4, i4)"
        and r5: "read_key_frame p u4 i4 = Inr (u, j)" and v: "v = u\<lparr>v8_header_size := int j\<rparr>"
      by (auto simp: vp8_unmarshal_def v0_def Let_def and_then_Inr split: if_splits sum.splits)
    have u1: "vp8_bounded u1" "i1 = 1" "v8_L u1 \<longrightarrow> v8_T u1"
      using e b0 by (auto simp: read_extension_def Let_def vp8_bounded_def split: if_splits)
    note k = stage_okD [OF read_picture_id_ok r2] stage_okD [OF read_tl0picidx_ok r3]
      stage_okD [OF read_tid_keyidx_ok r4] stage_okD [OF read_key_frame_ok r5]
    have "vp8_bounded u" "v8_L u \<longrightarrow> v8_T u" using k u1 by blast+
    moreover have "j \<le> 6" "1 \<le> j" "j < length p"
      using k u1(2) read_key_frame_index [OF r5] by linarith+
    ultimately show ?thesis using v by (auto simp: vp8_bounded_def)
  qed
qed

text \<open>
  Parsing never reads outside the payload and what it accepts is within bounds: the
  picture id fits 15 bits, the temporal id 2 and the key index 5, \<open>L\<close> comes with \<open>T\<close>, the
  header has 1 to 6 bytes and the payload is longer than it; the struct can be written again
  without an error or a panic.
\<close>

lemma vp8_accepted_is_bounded:
  assumes "vp8_unmarshal vp8_zero (Some p) = (None, v)"
  shows "vp8_bounded v \<and> (v8_L v \<longrightarrow> v8_T v) \<and> 1 \<le> v8_header_size v \<and> v8_header_size v \<le> 6 \<and>
    v8_header_size v < int (length p) \<and> (\<exists>bs. vp8_marshal v = Some (Inr bs) \<and> length bs \<le> 6) \<and>
    extract_vp8_video_size v p \<noteq> None"
proof -
  note a = unmarshal_accepts [OF assms]
  have "vp8_marshal v = Some (Inr (header_bytes v))" using a by (intro marshal_to_bytes) simp
  with a header_bytes_le [of v] show ?thesis by (auto simp: extract_vp8_video_size_def Let_def)
qed

end
