(* ===== verification/Ext_Packet.thy ===== *)
theory Ext_Packet
  imports Vp8_Codec
begin

text \<open>
  Data that the forwarding components exchange: video layers
  (\<open>pkg/sfu/buffer/videolayer.go\<close>), RTP packets with their extended numbers
  (\<open>ExtPacket\<close> in \<open>pkg/sfu/buffer/buffer_base.go\<close>) and the errors of the SFU package.
\<close>

section \<open>Video layers\<close>

datatype video_layer = VideoLayer (vl_spatial: int) (vl_temporal: int)

definition invalid_layer_spatial :: int where
  "invalid_layer_spatial = -1"

definition invalid_layer_temporal :: int where
  "invalid_layer_temporal = -1"

definition default_max_layer_spatial :: int where
  "default_max_layer_spatial = 2"

definition default_max_layer_temporal :: int where
  "default_max_layer_temporal = 3"

lemmas layer_consts [simp] = invalid_layer_spatial_def invalid_layer_temporal_def
  default_max_layer_spatial_def default_max_layer_temporal_def

definition invalid_layer :: video_layer where
  "invalid_layer = VideoLayer invalid_layer_spatial invalid_layer_temporal"

definition default_max_layer :: video_layer where
  "default_max_layer = VideoLayer default_max_layer_spatial default_max_layer_temporal"

definition vl_greater_than :: "video_layer \<Rightarrow> video_layer \<Rightarrow> bool" where
  "vl_greater_than v v2 \<longleftrightarrow> vl_spatial v > vl_spatial v2 \<or>
     (vl_spatial v = vl_spatial v2 \<and> vl_temporal v > vl_temporal v2)"

definition vl_spatial_ge :: "video_layer \<Rightarrow> video_layer \<Rightarrow> bool" where
  "vl_spatial_ge v v2 \<longleftrightarrow> vl_spatial v \<ge> vl_spatial v2"

definition vl_is_valid :: "video_layer \<Rightarrow> bool" where
  "vl_is_valid v \<longleftrightarrow> vl_spatial v \<noteq> invalid_layer_spatial \<and> vl_temporal v \<noteq> invalid_layer_temporal"

text \<open>\<open>GreaterThan\<close> is the strict part of a linear order, the one layers are compared with.\<close>

instantiation video_layer :: linorder
begin

definition less_video_layer :: "video_layer \<Rightarrow> video_layer \<Rightarrow> bool" where
  "less_video_layer v w \<longleftrightarrow> vl_greater_than w v"

definition less_eq_video_layer :: "video_layer \<Rightarrow> video_layer \<Rightarrow> bool" where
  "less_eq_video_layer v w \<longleftrightarrow> v = w \<or> vl_greater_than w v"

instance
  by standard (auto simp: less_video_layer_def less_eq_video_layer_def vl_greater_than_def
      intro: video_layer.expand)

end

lemma vl_greater_than_iff: "vl_greater_than v w \<longleftrightarrow> w < v"
  by (simp add: less_video_layer_def)

lemma invalid_layer_fields [simp]: "vl_spatial invalid_layer = -1" "vl_temporal invalid_layer = -1"
  by (simp_all add: invalid_layer_def)

lemma invalid_layer_not_valid [simp]: "\<not> vl_is_valid invalid_layer"
  by (simp add: vl_is_valid_def)

section \<open>Packets\<close>

text \<open>
  The fields of \<open>rtp.Packet\<close> that the modelled code reads, and those of the payload headers.
  \<open>VP9Packet\<close> is the type of an external package: its fields that are read are here.
\<close>

record rtp_packet =
  rp_marker :: bool
  rp_payload_type :: u8
  rp_sequence_number :: u16
  rp_timestamp :: u32
  rp_ssrc :: u32
  rp_payload :: "u8 list"

record vp9_packet =
  v9_I :: bool
  v9_P :: bool
  v9_L :: bool
  v9_F :: bool
  v9_B :: bool
  v9_E :: bool
  v9_U :: bool
  v9_D :: bool
  v9_tid :: u8
  v9_sid :: u8

datatype payload = PayloadVP8 vp8 | PayloadVP9 vp9_packet | PayloadOther

text \<open>The dependency descriptor extension is a type parameter: only the selector of layered
  codecs looks into it.\<close>

record 'dd ext_packet =
  ep_layer :: video_layer
  ep_arrival :: int
  ep_ext_sequence_number :: u64
  ep_ext_timestamp :: u64
  ep_packet :: rtp_packet
  ep_payload :: payload
  ep_is_key_frame :: bool
  ep_raw_packet :: "u8 list"
  ep_dependency_descriptor :: "'dd option"
  ep_is_out_of_order :: bool
  ep_is_buffered :: bool

text \<open>\<open>len(extPkt.Packet.Payload) != 0\<close>.\<close>

definition ep_has_payload :: "'dd ext_packet \<Rightarrow> bool" where
  "ep_has_payload p \<longleftrightarrow> rp_payload (ep_packet p) \<noteq> []"

definition rtp_packet_zero :: rtp_packet where
  "rtp_packet_zero = \<lparr>rp_marker = False, rp_payload_type = 0, rp_sequence_number = 0,
     rp_timestamp = 0, rp_ssrc = 0, rp_payload = []\<rparr>"

definition ext_packet_zero :: "'dd ext_packet" where
  "ext_packet_zero = \<lparr>ep_layer = VideoLayer 0 0, ep_arrival = 0, ep_ext_sequence_number = 0,
     ep_ext_timestamp = 0, ep_packet = rtp_packet_zero, ep_payload = PayloadOther,
     ep_is_key_frame = False, ep_raw_packet = [], ep_dependency_descriptor = None,
     ep_is_out_of_order = False, ep_is_buffered = False\<rparr>"

section \<open>Errors\<close>

datatype sfu_err =
    ErrOutOfOrderSequenceNumberCacheMiss
  | ErrPaddingOnlyPacket
  | ErrDuplicatePacket
  | ErrPaddingNotOnFrameBoundary
  | ErrNotVP8
  | ErrOutOfOrderVP8PictureIdCacheMiss
  | ErrFilteredVP8TemporalLayer
  | ErrSkipStartOnOutOfOrderPacket
  | ErrSwitchPointTooFarBehind
  | ErrMarshal vp8_err

end
