(* ===== verification/Rtp_Munger.thy ===== *)
theory Rtp_Munger
  imports Range_Map Ext_Packet
begin

text \<open>
  Rewriting of sequence numbers and timestamps for one subscriber
  (\<open>pkg/sfu/rtpmunger.go\<close>).  The calls to the logger are left out; everything else of each
  operation is here.  The errors of the range map that are only logged leave the zero value
  of the result, as in the code.
\<close>

datatype sn_ordering = SnContiguous | SnOutOfOrder | SnGap | SnDuplicate

record translation_params_rtp =
  tr_sn_ordering :: sn_ordering
  tr_ext_sequence_number :: u64
  tr_ext_timestamp :: u64

record sn_ts =
  st_ext_sequence_number :: u64
  st_ext_timestamp :: u64

record rtp_munger =
  rg_ext_highest_incoming_sn :: u64
  rg_sn_range_map :: range_map
  rg_ext_last_sn :: u64
  rg_ext_second_last_sn :: u64
  rg_sn_offset :: u64
  rg_ext_last_ts :: u64
  rg_ext_second_last_ts :: u64
  rg_ts_offset :: u64
  rg_last_marker :: bool
  rg_second_last_marker :: bool
  rg_ext_rtx_gate_sn :: u64
  rg_in_rtx_gate_region :: bool

record rtp_munger_state =
  ms_ext_last_sn :: u64
  ms_ext_second_last_sn :: u64
  ms_ext_last_ts :: u64
  ms_ext_second_last_ts :: u64
  ms_last_marker :: bool
  ms_second_last_marker :: bool

definition rtx_gate_window :: u64 where
  "rtx_gate_window = 2000"

definition new_rtp_munger :: rtp_munger where
  "new_rtp_munger = \<lparr>rg_ext_highest_incoming_sn = 0, rg_sn_range_map = new_range_map 100,
     rg_ext_last_sn = 0, rg_ext_second_last_sn = 0, rg_sn_offset = 0, rg_ext_last_ts = 0,
     rg_ext_second_last_ts = 0, rg_ts_offset = 0, rg_last_marker = False,
     rg_second_last_marker = False, rg_ext_rtx_gate_sn = 0, rg_in_rtx_gate_region = False\<rparr>"

definition rg_get_state :: "rtp_munger \<Rightarrow> rtp_munger_state" where
  "rg_get_state r = \<lparr>ms_ext_last_sn = rg_ext_last_sn r, ms_ext_second_last_sn = rg_ext_second_last_sn r,
     ms_ext_last_ts = rg_ext_last_ts r, ms_ext_second_last_ts = rg_ext_second_last_ts r,
     ms_last_marker = rg_last_marker r, ms_second_last_marker = rg_second_last_marker r\<rparr>"

definition rg_seed_state :: "rtp_munger \<Rightarrow> rtp_munger_state \<Rightarrow> rtp_munger" where
  "rg_seed_state r s = r\<lparr>rg_ext_last_sn := ms_ext_last_sn s, rg_ext_second_last_sn := ms_ext_second_last_sn s,
     rg_ext_last_ts := ms_ext_last_ts s, rg_ext_second_last_ts := ms_ext_second_last_ts s,
     rg_last_marker := ms_last_marker s, rg_second_last_marker := ms_second_last_marker s\<rparr>"

text \<open>The value part of \<open>GetValue\<close>: zero with an error.\<close>

definition get_value_or_zero :: "range_map \<Rightarrow> u64 \<Rightarrow> u64" where
  "get_value_or_zero m key = (case get_value m key of Inl _ \<Rightarrow> 0 | Inr v \<Rightarrow> v)"

definition update_sn_offset :: "rtp_munger \<Rightarrow> rtp_munger" where
  "update_sn_offset r =
     r\<lparr>rg_sn_offset := get_value_or_zero (rg_sn_range_map r) (rg_ext_highest_incoming_sn r + 1)\<rparr>"

definition set_last_sn_ts :: "rtp_munger \<Rightarrow> 'dd ext_packet \<Rightarrow> rtp_munger" where
  "set_last_sn_ts r p =
    (let sn = ep_ext_sequence_number p;
         r1 = r\<lparr>rg_ext_highest_incoming_sn := sn - 1, rg_ext_last_sn := sn,
                rg_ext_second_last_sn := sn - 1,
                rg_sn_range_map := clear_and_reset_value (rg_sn_range_map r) sn 0\<rparr>
     in (update_sn_offset r1)\<lparr>rg_ext_last_ts := ep_ext_timestamp p,
          rg_ext_second_last_ts := ep_ext_timestamp p, rg_ts_offset := 0\<rparr>)"

definition update_sn_ts_offsets :: "rtp_munger \<Rightarrow> 'dd ext_packet \<Rightarrow> u64 \<Rightarrow> u64 \<Rightarrow> rtp_munger" where
  "update_sn_ts_offsets r p sn_adjust ts_adjust =
    (let sn = ep_ext_sequence_number p;
         r1 = r\<lparr>rg_ext_highest_incoming_sn := sn - 1,
                rg_sn_range_map := clear_and_reset_value (rg_sn_range_map r) sn (sn - rg_ext_last_sn r - sn_adjust)\<rparr>
     in (update_sn_offset r1)\<lparr>rg_ts_offset := ep_ext_timestamp p - rg_ext_last_ts r - ts_adjust\<rparr>)"

definition packet_dropped :: "rtp_munger \<Rightarrow> 'dd ext_packet \<Rightarrow> rtp_munger" where
  "packet_dropped r p =
    (if rg_ext_highest_incoming_sn r \<noteq> ep_ext_sequence_number p then r
     else
       let m = snd (exclude_range (rg_sn_range_map r) (rg_ext_highest_incoming_sn r) (rg_ext_highest_incoming_sn r + 1));
           r1 = update_sn_offset (r\<lparr>rg_sn_range_map := m, rg_ext_last_sn := rg_ext_second_last_sn r\<rparr>)
       in r1\<lparr>rg_ext_last_ts := rg_ext_second_last_ts r1, rg_last_marker := rg_second_last_marker r1\<rparr>)"

definition tr_only :: "sn_ordering \<Rightarrow> translation_params_rtp" where
  "tr_only o' = \<lparr>tr_sn_ordering = o', tr_ext_sequence_number = 0, tr_ext_timestamp = 0\<rparr>"

definition update_and_get_sn_ts ::
  "rtp_munger \<Rightarrow> 'dd ext_packet \<Rightarrow> bool \<Rightarrow> rtp_munger \<times> translation_params_rtp \<times> sfu_err option" where
  "update_and_get_sn_ts r p marker =
    (let sn = ep_ext_sequence_number p;
         diff = i64_of (sn - rg_ext_highest_incoming_sn r)
     in if (diff = 1 \<and> ep_has_payload p) \<or> diff > 1 then
          let ordering = (if diff > 1 then SnGap else SnContiguous);
              munged_sn = sn - rg_sn_offset r;
              munged_ts = ep_ext_timestamp p - rg_ts_offset r;
              r1 = r\<lparr>rg_ext_highest_incoming_sn := sn,
                     rg_ext_second_last_sn := rg_ext_last_sn r, rg_ext_last_sn := munged_sn,
                     rg_ext_second_last_ts := rg_ext_last_ts r, rg_ext_last_ts := munged_ts,
                     rg_second_last_marker := rg_last_marker r, rg_last_marker := marker\<rparr>;
              r2 = (if ep_is_key_frame p
                    then r1\<lparr>rg_ext_rtx_gate_sn := munged_sn, rg_in_rtx_gate_region := True\<rparr> else r1);
              r3 = (if rg_in_rtx_gate_region r2 \<and> munged_sn - rg_ext_rtx_gate_sn r2 > rtx_gate_window
                    then r2\<lparr>rg_in_rtx_gate_region := False\<rparr> else r2)
          in (r3, \<lparr>tr_sn_ordering = ordering, tr_ext_sequence_number = munged_sn,
                   tr_ext_timestamp = munged_ts\<rparr>, None)
        else if diff < 0 then
          (case get_value (rg_sn_range_map r) sn of
             Inl _ \<Rightarrow> (r, tr_only SnOutOfOrder, Some ErrOutOfOrderSequenceNumberCacheMiss)
           | Inr off \<Rightarrow>
               if sn - off \<ge> rg_ext_last_sn r
               then (r, tr_only SnOutOfOrder, Some ErrOutOfOrderSequenceNumberCacheMiss)
               else (r, \<lparr>tr_sn_ordering = SnOutOfOrder, tr_ext_sequence_number = sn - off,
                         tr_ext_timestamp = ep_ext_timestamp p - rg_ts_offset r\<rparr>, None))
        else if diff = 1 then
          let m = snd (exclude_range (rg_sn_range_map r) sn (sn + 1))
          in (update_sn_offset (r\<lparr>rg_ext_highest_incoming_sn := sn, rg_sn_range_map := m\<rparr>),
              tr_only SnContiguous, Some ErrPaddingOnlyPacket)
        else (r, tr_only SnDuplicate, Some ErrDuplicatePacket))"

definition filter_rtx :: "rtp_munger \<Rightarrow> u16 list \<Rightarrow> u16 list" where
  "filter_rtx r nacks =
    (if \<not> rg_in_rtx_gate_region r then nacks
     else filter (\<lambda>sn. sn - ucast (rg_ext_rtx_gate_sn r) < push_bit 15 1) nacks)"

text \<open>
  The loop of \<open>UpdateAndGetPaddingSnTs\<close>: \<open>i\<close> counts up to \<open>num\<close>, \<open>last_sn\<close> and \<open>last_ts\<close> are
  its local variables, \<open>r\<close> is not changed by it.
\<close>

definition padding_ts :: "u32 \<Rightarrow> u32 \<Rightarrow> u64 \<Rightarrow> nat \<Rightarrow> nat \<Rightarrow> u64" where
  "padding_ts clock_rate frame_rate ext_rtp_timestamp ts_offset i =
     ext_rtp_timestamp +
       ucast ((word_of_int (int i + 1 - int ts_offset) * clock_rate + frame_rate - 1) div frame_rate)"

fun padding_loop ::
  "rtp_munger \<Rightarrow> u32 \<Rightarrow> u32 \<Rightarrow> bool \<Rightarrow> nat \<Rightarrow> u64 \<Rightarrow> nat \<Rightarrow> nat \<Rightarrow> u64 \<Rightarrow> u64 \<Rightarrow> sn_ts list \<times> u64 \<times> u64" where
  "padding_loop r clock_rate frame_rate use_last ts_offset ext_ts 0 i last_sn last_ts = ([], last_sn, last_ts)"
| "padding_loop r clock_rate frame_rate use_last ts_offset ext_ts (Suc k) i last_sn last_ts =
    (let sn = last_sn + 1;
         (val_ts, last_ts') =
           (if frame_rate \<noteq> 0 then
              if use_last \<and> i = 0 then (rg_ext_last_ts r, last_ts)
              else let ets0 = padding_ts clock_rate frame_rate ext_ts ts_offset i;
                       ets = (if i64_of (ets0 - last_ts) \<le> 0 then last_ts + 1 else ets0)
                   in (ets, ets)
            else (rg_ext_last_ts r, last_ts));
         (rest, sn', ts') = padding_loop r clock_rate frame_rate use_last ts_offset ext_ts k (i + 1) sn last_ts'
     in (\<lparr>st_ext_sequence_number = sn, st_ext_timestamp = val_ts\<rparr> # rest, sn', ts'))"

definition update_and_get_padding_sn_ts ::
  "rtp_munger \<Rightarrow> int \<Rightarrow> u32 \<Rightarrow> u32 \<Rightarrow> bool \<Rightarrow> u64 \<Rightarrow> (rtp_munger \<times> (sfu_err + sn_ts list)) option" where
  "update_and_get_padding_sn_ts r num clock_rate frame_rate force_marker ext_rtp_timestamp =
    (if num = 0 then Some (r, Inr [])
     else if \<not> rg_last_marker r \<and> \<not> force_marker then Some (r, Inl ErrPaddingNotOnFrameBoundary)
     else if num < 0 then None
     else
       let use_last = (\<not> rg_last_marker r);
           (vals, last_sn, last_ts) = padding_loop r clock_rate frame_rate use_last (if use_last then 1 else 0)
              ext_rtp_timestamp (nat num) 0 (rg_ext_last_sn r) (rg_ext_last_ts r);
           r1 = update_sn_offset (r\<lparr>rg_ext_second_last_sn := last_sn - 1, rg_ext_last_sn := last_sn,
                  rg_sn_range_map := dec_value (rg_sn_range_map r) (rg_ext_highest_incoming_sn r) (word_of_int num)\<rparr>);
           r2 = r1\<lparr>rg_ext_second_last_ts := (if length vals = 1 then rg_ext_last_ts r1
                      else st_ext_timestamp (vals ! (length vals - 2)))\<rparr>;
           r3 = r2\<lparr>rg_ts_offset := rg_ts_offset r2 - (last_ts - rg_ext_last_ts r2)\<rparr>;
           r4 = r3\<lparr>rg_ext_last_ts := last_ts, rg_second_last_marker := rg_last_marker r3\<rparr>
       in Some ((if force_marker then r4\<lparr>rg_last_marker := True\<rparr> else r4), Inr vals))"

section \<open>The invariant\<close>

text \<open>The offset is that of the newest range.\<close>

definition munger_ok :: "rtp_munger \<Rightarrow> bool" where
  "munger_ok r \<longleftrightarrow> rm_ok (rg_sn_range_map r) \<and> rg_ext_highest_incoming_sn r < sn_limit \<and>
     rm_frontier (rg_sn_range_map r) \<le> rg_ext_highest_incoming_sn r + 1 \<and>
     rg_sn_offset r = rmap.head (rg_sn_range_map r)"

text \<open>The outgoing number of the packet after the highest one.\<close>

definition rg_next :: "rtp_munger \<Rightarrow> u64" where
  "rg_next r = rg_ext_highest_incoming_sn r + 1 - rg_sn_offset r"

lemma munger_okD:
  assumes "munger_ok r"
  shows "rm_ok (rg_sn_range_map r)" "rg_ext_highest_incoming_sn r < sn_limit"
    "rm_frontier (rg_sn_range_map r) \<le> rg_ext_highest_incoming_sn r + 1"
    "rg_sn_offset r = rmap.head (rg_sn_range_map r)"
  using assms by (simp_all add: munger_ok_def)

lemma get_value_or_zero_head: "rm_frontier m \<le> k \<Longrightarrow> get_value_or_zero m k = rmap.head m"
  by (simp add: get_value_or_zero_def get_value_def rm_frontier_def rm_head)

section \<open>Single operations\<close>

text \<open>A packet ahead of all others, with a payload or after a gap.\<close>

lemma in_order_step:
  assumes "munger_ok r" "ep_ext_sequence_number p < sn_limit"
    "rg_ext_highest_incoming_sn r < ep_ext_sequence_number p"
    "ep_has_payload p \<or> ep_ext_sequence_number p \<noteq> rg_ext_highest_incoming_sn r + 1"
    "update_and_get_sn_ts r p marker = (r', tp, e)"
  shows "e = None \<and> tr_ext_sequence_number tp = ep_ext_sequence_number p - rg_sn_offset r \<and>
    tr_ext_timestamp tp = ep_ext_timestamp p - rg_ts_offset r \<and>
    tr_sn_ordering tp = (if ep_ext_sequence_number p = rg_ext_highest_incoming_sn r + 1 then SnContiguous else SnGap) \<and>
    munger_ok r' \<and> rg_sn_range_map r' = rg_sn_range_map r \<and> rg_sn_offset r' = rg_sn_offset r \<and>
    rg_ext_highest_incoming_sn r' = ep_ext_sequence_number p \<and>
    rg_ext_last_sn r' = ep_ext_sequence_number p - rg_sn_offset r \<and>
    rg_ext_second_last_sn r' = rg_ext_last_sn r \<and> rg_ts_offset r' = rg_ts_offset r \<and>
    rg_ext_last_ts r' = ep_ext_timestamp p - rg_ts_offset r \<and> rg_ext_second_last_ts r' = rg_ext_last_ts r"
proof -
  let ?sn = "ep_ext_sequence_number p" and ?h = "rg_ext_highest_incoming_sn r"
  have gt: "?sn = ?h + 1 \<or> ?h + 1 < ?sn"
    using assms(3) below_limit [OF munger_okD(2) [OF assms(1)]] by (auto simp: word_less_def word_uint_eq_iff)
  note c = sn_cases [OF assms(2) munger_okD(2) [OF assms(1)]]
  have "?h + 1 \<le> ?sn + 1"
    using assms(3) below_limit [OF assms(2)] below_limit [OF munger_okD(2) [OF assms(1)]]
    by (simp add: word_le_def word_less_def)
  with munger_okD(3) [OF assms(1)] have f: "rm_frontier (rg_sn_range_map r) \<le> ?sn + 1" by (rule order_trans)
  show ?thesis
    using assms(4,5) gt c f munger_okD [OF assms(1)] assms(2)
    by (auto simp: update_and_get_sn_ts_def Let_def munger_ok_def split: if_splits)
qed

lemma exclude_next:
  assumes "rm_ok m" "rm_frontier m \<le> x" "x < sn_limit"
  defines "m' \<equiv> rm_exclude m x (x + 1)"
  shows "rm_ok m'" "rm_frontier m' = x + 1" "rmap.head m' = rmap.head m + 1"
    "k < x \<Longrightarrow> rm_lookup m' k \<in> {rm_lookup m k, None}"
  using rmap.ok_excl [OF assms(1,2), of "x + 1"] rmap.head_excl [OF assms(1,2), of "x + 1"]
    rmap.excl_stable [OF assms(1,2), of "x + 1" k] limit_bounds [OF assms(3)]
  by (simp_all add: m'_def)

text \<open>A padding-only packet right after the highest one is swallowed.\<close>

lemma padding_only_step:
  assumes "munger_ok r" "ep_ext_sequence_number p = rg_ext_highest_incoming_sn r + 1"
    "ep_ext_sequence_number p < sn_limit" "\<not> ep_has_payload p"
    "update_and_get_sn_ts r p marker = (r', tp, e)"
  shows "e = Some ErrPaddingOnlyPacket \<and> munger_ok r' \<and> rg_next r' = rg_next r \<and>
    rg_ext_highest_incoming_sn r' = ep_ext_sequence_number p \<and> rg_ext_last_sn r' = rg_ext_last_sn r \<and>
    (\<forall>k < ep_ext_sequence_number p. rm_lookup (rg_sn_range_map r') k \<in> {rm_lookup (rg_sn_range_map r) k, None})"
proof -
  let ?sn = "ep_ext_sequence_number p" and ?m = "rg_sn_range_map r"
  note o' = munger_okD [OF assms(1)]
  have fr: "rm_frontier ?m \<le> ?sn" using o'(3) assms(2) by simp
  note c = sn_cases [OF assms(3) o'(2)]
  note x = exclude_next [OF o'(1) fr assms(3)]
  have "r' = update_sn_offset (r\<lparr>rg_ext_highest_incoming_sn := ?sn, rg_sn_range_map := rm_exclude ?m ?sn (?sn + 1)\<rparr>)"
    and "e = Some ErrPaddingOnlyPacket"
    using assms(2,4,5) c by (auto simp: update_and_get_sn_ts_def Let_def)
  with x o' assms(2,3) show ?thesis
    by (simp add: munger_ok_def update_sn_offset_def get_value_or_zero_head rg_next_def)
qed

text \<open>A packet that was just forwarded in order is taken back.\<close>

lemma drop_step:
  assumes "munger_ok r" "rg_ext_highest_incoming_sn r = ep_ext_sequence_number p"
    "rm_frontier (rg_sn_range_map r) \<le> ep_ext_sequence_number p"
  defines "r' \<equiv> packet_dropped r p"
  shows "munger_ok r' \<and> rg_next r' = rg_next r - 1 \<and> rg_ext_last_sn r' = rg_ext_second_last_sn r \<and>
    rg_ext_highest_incoming_sn r' = rg_ext_highest_incoming_sn r \<and>
    (\<forall>k < ep_ext_sequence_number p. rm_lookup (rg_sn_range_map r') k \<in> {rm_lookup (rg_sn_range_map r) k, None})"
proof -
  note o' = munger_okD [OF assms(1)]
  have lim: "ep_ext_sequence_number p < sn_limit" using o'(2) assms(2) by simp
  note x = exclude_next [OF o'(1) assms(3) lim]
  show ?thesis
    using x o' assms(2) lim
    by (simp add: r'_def packet_dropped_def munger_ok_def update_sn_offset_def get_value_or_zero_head rg_next_def Let_def)
qed

text \<open>Late and repeated packets change nothing.\<close>

lemma late_step:
  assumes "munger_ok r" "ep_ext_sequence_number p \<le> rg_ext_highest_incoming_sn r"
    "update_and_get_sn_ts r p marker = (r', tp, e)"
  shows "r' = r \<and>
    (e = Some ErrDuplicatePacket \<and> ep_ext_sequence_number p = rg_ext_highest_incoming_sn r \<or>
     tr_sn_ordering tp = SnOutOfOrder \<and> e = Some ErrOutOfOrderSequenceNumberCacheMiss \<or>
     tr_sn_ordering tp = SnOutOfOrder \<and> e = None \<and> tr_ext_sequence_number tp < rg_ext_last_sn r \<and>
     rm_lookup (rg_sn_range_map r) (ep_ext_sequence_number p) =
          Some (ep_ext_sequence_number p - tr_ext_sequence_number tp))"
proof -
  let ?sn = "ep_ext_sequence_number p" and ?h = "rg_ext_highest_incoming_sn r"
  have l: "?sn < sn_limit" using munger_okD(2) [OF assms(1)] assms(2) by simp
  note c = sn_cases [OF l munger_okD(2) [OF assms(1)]]
  have n: "\<not> ?h + 1 < ?sn" "?sn \<noteq> ?h + 1"
    using assms(2) limit_bounds(3) [OF munger_okD(2) [OF assms(1)]] by auto
  show ?thesis
  proof (cases "?sn < ?h")
    case True
    then show ?thesis
      using assms(3) n c
      by (auto simp: update_and_get_sn_ts_def Let_def rm_lookup_def tr_only_def split: if_splits sum.splits)
  next
    case False
    then show ?thesis
      using assms(2,3) n c by (auto simp: update_and_get_sn_ts_def Let_def split: if_splits)
  qed
qed

lemma padding_loop_sn:
  "padding_loop r c f u t x k i sn ts = (vals, sn', ts') \<Longrightarrow>
   sn' = sn + of_nat k \<and> map st_ext_sequence_number vals = map (\<lambda>j. sn + 1 + of_nat j) [0..<k]"
proof (induction k arbitrary: i sn ts vals sn' ts')
  case 0
  then show ?case by simp
next
  case (Suc k)
  from Suc.prems obtain v ts1 rest where
    "padding_loop r c f u t x k (i + 1) (sn + 1) ts1 = (rest, sn', ts')"
    "vals = v # rest" "st_ext_sequence_number v = sn + 1"
    by (auto simp: Let_def split: prod.splits)
  moreover have "[0..<Suc k] = 0 # map Suc [0..<k]" by (simp add: upt_conv_Cons map_Suc_upt del: upt_Suc)
  ultimately show ?case
    using Suc.IH [of "i + 1" "sn + 1" ts1 rest sn' ts'] by (simp add: algebra_simps del: upt_Suc)
qed

text \<open>Padding takes the next numbers and shifts the numbering of what follows.\<close>

lemma padding_step:
  assumes "munger_ok r" "0 < num" "rg_last_marker r \<or> force"
  shows "\<exists>r' vals. update_and_get_padding_sn_ts r num c f force x = Some (r', Inr vals) \<and> munger_ok r' \<and>
    map st_ext_sequence_number vals = map (\<lambda>j. rg_ext_last_sn r + 1 + of_nat j) [0..<nat num] \<and>
    rg_next r' = rg_next r + word_of_int num \<and> rg_ext_last_sn r' = rg_ext_last_sn r + word_of_int num \<and>
    rg_ext_highest_incoming_sn r' = rg_ext_highest_incoming_sn r \<and>
    (\<forall>k \<le> rg_ext_highest_incoming_sn r. rm_lookup (rg_sn_range_map r') k \<in> {rm_lookup (rg_sn_range_map r) k, None})"
proof -
  let ?h = "rg_ext_highest_incoming_sn r" and ?m = "rg_sn_range_map r"
  let ?m' = "dec_value ?m ?h (word_of_int num)"
  note o' = munger_okD [OF assms(1)] and l = limit_bounds [OF munger_okD(2) [OF assms(1)]]
  obtain vals sn ts where loop: "padding_loop r c f (\<not> rg_last_marker r) (if \<not> rg_last_marker r then 1 else 0)
      x (nat num) 0 (rg_ext_last_sn r) (rg_ext_last_ts r) = (vals, sn, ts)"
    using prod_cases3 by blast
  note v = padding_loop_sn [OF loop]
  have fr: "rm_frontier ?m' \<le> ?h + 1"
    using rmap.front_decr [OF o'(1) l(1)] o'(3) by simp
  have hd: "rmap.head ?m' = rmap.head ?m - word_of_int num"
    by (rule rmap.head_decr [OF o'(1) l(1)])
  have look: "\<forall>k \<le> ?h. rm_lookup ?m' k \<in> {rm_lookup ?m k, None}"
    using rmap.decr_stable [OF o'(1) l(1)] by blast
  have ok: "rm_ok ?m'" by (rule rmap.ok_decr [OF o'(1) l(1)])
  show ?thesis
    using assms(2,3) loop v fr hd look ok o'
    by (auto simp: update_and_get_padding_sn_ts_def Let_def munger_ok_def update_sn_offset_def
        get_value_or_zero_head rg_next_def)
qed

section \<open>Runs of the munger\<close>

text \<open>
  The forwarder's use of the munger: packets, each with its marker and whether the codec layer
  then filters it (which it does only to a packet in contiguous order), and requests for
  padding.  The trace lists the outgoing numbers: those sent, and for every incoming number
  skipped by a gap a hole for the packet that may still arrive.
\<close>

datatype 'dd munge_event =
    MgPacket "'dd ext_packet" bool bool
  | MgPad int u32 u32 bool u64

datatype out_entry = Sent u64 | Hole u64

definition lost_before :: "u64 \<Rightarrow> u64 \<Rightarrow> out_entry list" where
  "lost_before h sn = map (\<lambda>k. Hole (h + 1 + of_nat k)) [0..<nat (uint sn - uint (h + 1))]"

fun munge_step :: "rtp_munger \<times> out_entry list \<Rightarrow> 'dd munge_event \<Rightarrow> (rtp_munger \<times> out_entry list) option" where
  "munge_step (r, tr) (MgPacket p marker drop') =
    (case update_and_get_sn_ts r p marker of (r', tp, e) \<Rightarrow>
       if e \<noteq> None \<or> ep_ext_sequence_number p \<le> rg_ext_highest_incoming_sn r then Some (r', tr)
       else if drop' \<and> tr_sn_ordering tp = SnContiguous then Some (packet_dropped r' p, tr)
       else Some (r', tr @ lost_before (rg_ext_highest_incoming_sn r) (ep_ext_sequence_number p) @
              [Sent (tr_ext_sequence_number tp)]))"
| "munge_step (r, tr) (MgPad num c f force x) =
    (case update_and_get_padding_sn_ts r num c f force x of
       None \<Rightarrow> None
     | Some (r', Inl _) \<Rightarrow> Some (r', tr)
     | Some (r', Inr vals) \<Rightarrow> Some (r', tr @ map (\<lambda>v. Sent (st_ext_sequence_number v)) vals))"

fun munge_admissible :: "'dd munge_event \<Rightarrow> bool" where
  "munge_admissible (MgPacket p marker drop') = (ep_ext_sequence_number p < sn_limit)"
| "munge_admissible (MgPad num c f force x) = (0 \<le> num)"

fun entry_ok :: "rtp_munger \<Rightarrow> u64 \<Rightarrow> out_entry \<Rightarrow> bool" where
  "entry_ok r x (Sent y) = (y = x)"
| "entry_ok r x (Hole s) = (s < rg_ext_highest_incoming_sn r \<and> rm_lookup (rg_sn_range_map r) s \<in> {Some (s - x), None})"

definition trace_ok :: "u64 \<Rightarrow> rtp_munger \<times> out_entry list \<Rightarrow> bool" where
  "trace_ok n = (\<lambda>(r, tr). munger_ok r \<and> rg_ext_last_sn r = rg_next r - 1 \<and>
     rg_next r = n + of_nat (length tr) \<and> (\<forall>i < length tr. entry_ok r (n + of_nat i) (tr ! i)))"

definition stable :: "rtp_munger \<Rightarrow> rtp_munger \<Rightarrow> bool" where
  "stable r r' \<longleftrightarrow> rg_ext_highest_incoming_sn r \<le> rg_ext_highest_incoming_sn r' \<and>
     (\<forall>k < rg_ext_highest_incoming_sn r. rm_lookup (rg_sn_range_map r') k \<in> {rm_lookup (rg_sn_range_map r) k, None})"

lemma entry_ok_stable: "stable r r' \<Longrightarrow> entry_ok r x e \<Longrightarrow> entry_ok r' x e"
  by (cases e) (fastforce simp: stable_def)+

lemma trace_ok_extend:
  assumes "trace_ok n (r, tr)" "stable r r'" "munger_ok r'" "rg_ext_last_sn r' = rg_next r' - 1"
    "rg_next r' = rg_next r + of_nat (length es)"
    "\<forall>i < length es. entry_ok r' (rg_next r + of_nat i) (es ! i)"
  shows "trace_ok n (r', tr @ es)"
proof -
  have t: "rg_next r = n + of_nat (length tr)" "\<forall>i < length tr. entry_ok r (n + of_nat i) (tr ! i)"
    using assms(1) by (simp_all add: trace_ok_def)
  have "entry_ok r' (n + of_nat i) ((tr @ es) ! i)" if i: "i < length (tr @ es)" for i
  proof (cases "i < length tr")
    case True
    then show ?thesis using t(2) entry_ok_stable [OF assms(2)] by (simp add: nth_append)
  next
    case False
    then obtain j where j: "i = length tr + j" by (metis le_Suc_ex not_less)
    then show ?thesis using assms(6) t(1) i by (simp add: nth_append add.assoc)
  qed
  then show ?thesis using assms(3-5) t(1) by (simp add: trace_ok_def add.assoc)
qed

lemma len64: "LENGTH(64) = 64"
  by simp

lemma lost_before_entries:
  assumes "munger_ok r" "rg_ext_highest_incoming_sn r < sn"
    "rg_sn_range_map r' = rg_sn_range_map r" "rg_ext_highest_incoming_sn r' = sn"
  shows "length (lost_before (rg_ext_highest_incoming_sn r) sn) = nat (uint sn - uint (rg_ext_highest_incoming_sn r + 1))"
    "of_nat (length (lost_before (rg_ext_highest_incoming_sn r) sn)) = sn - (rg_ext_highest_incoming_sn r + 1)"
    "\<forall>i < length (lost_before (rg_ext_highest_incoming_sn r) sn).
       entry_ok r' (rg_next r + of_nat i) (lost_before (rg_ext_highest_incoming_sn r) sn ! i)"
proof -
  let ?h = "rg_ext_highest_incoming_sn r"
  note o' = munger_okD [OF assms(1)] and l = below_limit [OF munger_okD(2) [OF assms(1)]]
  have le: "uint (?h + 1) \<le> uint sn" using assms(2) l by (simp add: word_less_def)
  show "length (lost_before ?h sn) = nat (uint sn - uint (?h + 1))" by (simp add: lost_before_def)
  have "(of_nat (nat (uint sn - uint (?h + 1))) :: u64) = word_of_int (uint sn - uint (?h + 1))"
    using le by simp
  then show "of_nat (length (lost_before ?h sn)) = sn - (?h + 1)"
    by (simp only: lost_before_def length_map length_upt diff_zero wi_hom_sub [symmetric] word_of_int_uint)
  show "\<forall>i < length (lost_before ?h sn). entry_ok r' (rg_next r + of_nat i) (lost_before ?h sn ! i)"
  proof (intro allI impI)
    fix i assume "i < length (lost_before ?h sn)"
    then have i: "int i < uint sn - uint (?h + 1)" by (simp add: lost_before_def)
    then have "i < nat (uint sn - uint (?h + 1))" by linarith
    then have e: "lost_before ?h sn ! i = Hole (?h + 1 + of_nat i)"
      unfolding lost_before_def by (subst nth_map) (simp_all del: map_map)
    have b: "uint sn < 2 ^ 64" using uint_lt2p [of sn] by simp
    have "?h + 1 + of_nat i = (word_of_int (uint (?h + 1) + int i) :: u64)"
      by (simp only: wi_hom_add [symmetric] word_of_int_uint of_int_of_nat_eq)
    then have "uint (?h + 1 + of_nat i) = (uint (?h + 1) + int i) mod 2 ^ 64"
      using uint_word_of_int [where 'a = 64, of "uint (?h + 1) + int i"] by (simp only: len64)
    also have "\<dots> = uint (?h + 1) + int i" using i b uint_ge_0 [of "?h + 1"] by (intro mod_pos_pos_trivial) linarith+
    finally have u: "uint (?h + 1 + of_nat i) = uint (?h + 1) + int i" .
    have "?h + 1 + of_nat i < sn" using i u by (simp add: word_less_def)
    moreover have "?h + 1 \<le> ?h + 1 + of_nat i" using u by (simp add: word_le_def)
    then have "rm_lookup (rg_sn_range_map r) (?h + 1 + of_nat i) = Some (rmap.head (rg_sn_range_map r))"
      using o'(3) by (intro rmap.look_head) (rule order_trans)
    ultimately show "entry_ok r' (rg_next r + of_nat i) (lost_before ?h sn ! i)"
      using assms(3,4) o'(4) by (simp add: e rg_next_def)
  qed
qed

lemma trace_ok_parts:
  assumes "trace_ok n (r, tr)"
  shows "munger_ok r" "rg_ext_last_sn r = rg_next r - 1"
  using assms by (simp_all add: trace_ok_def)

lemma trace_ok_same: "trace_ok n (r, tr) \<Longrightarrow> stable r r' \<Longrightarrow> munger_ok r' \<Longrightarrow>
    rg_ext_last_sn r' = rg_next r' - 1 \<Longrightarrow> rg_next r' = rg_next r \<Longrightarrow> trace_ok n (r', tr)"
  using trace_ok_extend [of n r tr r' "[]"] by simp

lemma packet_step_ok:
  assumes t: "trace_ok n (r, tr)" and lim: "ep_ext_sequence_number p < sn_limit"
  shows "\<exists>s'. munge_step (r, tr) (MgPacket p marker drop') = Some s' \<and> trace_ok n s'"
proof -
  let ?sn = "ep_ext_sequence_number p" and ?h = "rg_ext_highest_incoming_sn r"
  note ok = trace_ok_parts [OF t]
  obtain r' tp e where u: "update_and_get_sn_ts r p marker = (r', tp, e)" using prod_cases3 by blast
  have next': "?h + 1 \<le> ?sn" if "?h < ?sn"
    using that below_limit [OF munger_okD(2) [OF ok(1)]] by (simp add: word_less_def word_le_def)
  consider (late) "?sn \<le> ?h" | (padding) "?sn = ?h + 1" "\<not> ep_has_payload p"
    | (new) "?h < ?sn" "ep_has_payload p \<or> ?sn \<noteq> ?h + 1"
    by force
  then show ?thesis
  proof cases
    case late
    with late_step [OF ok(1) late u] t show ?thesis by (auto simp: u)
  next
    case padding
    then have "?h < ?sn" using limit_bounds(3) [OF munger_okD(2) [OF ok(1)]] by simp
    moreover note ps = padding_only_step [OF ok(1) padding(1) lim padding(2) u]
    ultimately have "stable r r'" by (auto simp: stable_def intro: less_imp_le less_trans)
    then have "trace_ok n (r', tr)"
      using ps ok(2) by (intro trace_ok_same [OF t]) auto
    with ps show ?thesis by (simp add: u)
  next
    case new
    note st = in_order_step [OF ok(1) lim new u]
    show ?thesis
    proof (cases "drop' \<and> ?sn = ?h + 1")
      case True
      have fr: "rm_frontier (rg_sn_range_map r') \<le> ?sn" using st True munger_okD(3) [OF ok(1)] by simp
      have hi: "rg_ext_highest_incoming_sn r' = ?sn" using st by simp
      note d = drop_step [OF _ hi fr]
      have "stable r (packet_dropped r' p)"
        using d st new(1) by (auto simp: stable_def intro: less_imp_le less_trans)
      moreover have "rg_next r' = rg_next r + 1" using st True by (simp add: rg_next_def)
      ultimately have "trace_ok n (packet_dropped r' p, tr)"
        using d st ok(2) by (intro trace_ok_same [OF t]) auto
      with st True new(1) show ?thesis by (auto simp: u)
    next
      case False
      let ?es = "lost_before ?h ?sn @ [Sent (tr_ext_sequence_number tp)]"
      have stab: "stable r r'" using st new(1) by (auto simp: stable_def)
      note le = lost_before_entries [OF ok(1) new(1), of r']
      have nx: "rg_next r' = rg_next r + of_nat (length ?es)" and sent: "tr_ext_sequence_number tp = rg_next r + of_nat (length (lost_before ?h ?sn))"
        using st le(2) by (simp_all add: rg_next_def)
      have "\<forall>i < length ?es. entry_ok r' (rg_next r + of_nat i) (?es ! i)"
        using le(3) st sent by (auto simp: nth_append less_Suc_eq)
      then have "trace_ok n (r', tr @ ?es)"
        using st by (intro trace_ok_extend [OF t stab _ _ nx]) (auto simp: rg_next_def)
      with st False new(1) show ?thesis by (auto simp: u)
    qed
  qed
qed

lemma pad_step_ok:
  assumes t: "trace_ok n (r, tr)" and "0 \<le> num"
  shows "\<exists>s'. munge_step (r, tr) (MgPad num c f force x) = Some s' \<and> trace_ok n s'"
proof (cases "num = 0 \<or> \<not> (rg_last_marker r \<or> force)")
  case True
  with t show ?thesis by (auto simp: update_and_get_padding_sn_ts_def)
next
  case False
  note ok = trace_ok_parts [OF t]
  obtain r' vals where p: "update_and_get_padding_sn_ts r num c f force x = Some (r', Inr vals)" "munger_ok r'"
    "map st_ext_sequence_number vals = map (\<lambda>j. rg_ext_last_sn r + 1 + of_nat j) [0..<nat num]"
    "rg_next r' = rg_next r + word_of_int num" "rg_ext_last_sn r' = rg_ext_last_sn r + word_of_int num"
    "rg_ext_highest_incoming_sn r' = rg_ext_highest_incoming_sn r"
    "\<forall>k \<le> rg_ext_highest_incoming_sn r. rm_lookup (rg_sn_range_map r') k \<in> {rm_lookup (rg_sn_range_map r) k, None}"
    using padding_step [OF ok(1)] False assms(2) by (metis order_le_less)
  let ?es = "map (\<lambda>v. Sent (st_ext_sequence_number v)) vals"
  have len: "length vals = nat num" using arg_cong [OF p(3), of length] by simp
  have es: "?es ! i = Sent (rg_next r + of_nat i)" if "i < length vals" for i
    using arg_cong [OF p(3), of "\<lambda>l. l ! i"] that len ok(2) by simp
  have num: "(of_nat (length ?es) :: u64) = word_of_int num" using len assms(2) by simp
  have "stable r r'" using p(6,7) by (simp add: stable_def less_imp_le)
  then have "trace_ok n (r', tr @ ?es)"
    using p ok(2) es num by (intro trace_ok_extend [OF t]) auto
  with p show ?thesis by simp
qed

interpretation munger_run: safe_component munge_step "trace_ok n" munge_admissible for n
proof
  fix s :: "rtp_munger \<times> out_entry list" and e :: "'a munge_event"
  assume "trace_ok n s" "munge_admissible e"
  then show "\<exists>t. munge_step s e = Some t \<and> trace_ok n t"
    using packet_step_ok [of n "fst s" "snd s"] pad_step_ok [of n "fst s" "snd s"]
    by (cases e) simp_all
qed

section \<open>Properties\<close>

text \<open>What a late packet with the number of a hole is given.\<close>

definition fills_with :: "rtp_munger \<Rightarrow> 'dd ext_packet \<Rightarrow> bool \<Rightarrow> u64 \<Rightarrow> bool" where
  "fills_with r p marker x = (case update_and_get_sn_ts r p marker of (r', tp, e) \<Rightarrow>
     r' = r \<and> (e = Some ErrOutOfOrderSequenceNumberCacheMiss \<or> e = None \<and> tr_ext_sequence_number tp = x))"

lemma hole_filled:
  assumes "munger_ok r" "entry_ok r x (Hole (ep_ext_sequence_number p))"
  shows "fills_with r p marker x"
proof -
  obtain r' tp e where u: "update_and_get_sn_ts r p marker = (r', tp, e)" using prod_cases3 by blast
  have "ep_ext_sequence_number p \<le> rg_ext_highest_incoming_sn r" "ep_ext_sequence_number p \<noteq> rg_ext_highest_incoming_sn r"
    using assms(2) by auto
  with late_step [OF assms(1) this(1) u] assms(2) show ?thesis
    by (auto simp: fills_with_def u)
qed

text \<open>
  C1. The outgoing numbering.  Run the munger on any sequence of packets, in order, late,
  repeated, after gaps, padding-only or filtered by the codec layer, and of requests for
  padding.  Nothing panics, and the trace of outgoing numbers is contiguous: its \<open>i\<close>-th entry
  is the \<open>i\<close>-th number after the one where the run began.  An entry is either a number that was
  sent (a packet or padding) or the place of a lost packet, and such a packet, arriving later,
  is given exactly that number or refused; so no number is used twice and swallowed or
  filtered packets leave no hole.
\<close>

theorem munger_numbering:
  fixes events :: "'dd munge_event list"
  assumes "munger_ok r" "rg_ext_last_sn r = rg_next r - 1" "list_all munge_admissible events"
  shows "\<exists>r' tr. run_ops munge_step (r, []) events = Some (r', tr) \<and>
    (\<forall>i < length tr. case tr ! i of
        Sent x \<Rightarrow> x = rg_next r + of_nat i
      | Hole s \<Rightarrow> (\<forall>(p :: 'dd ext_packet) marker. ep_ext_sequence_number p = s \<longrightarrow>
            fills_with r' p marker (rg_next r + of_nat i)))"
proof -
  have "trace_ok (rg_next r) (r, [])" using assms(1,2) by (simp add: trace_ok_def)
  then obtain r' tr where run: "run_ops munge_step (r, []) events = Some (r', tr)" and t: "trace_ok (rg_next r) (r', tr)"
    using munger_run.run_safe [OF _ assms(3)] by (metis surj_pair)
  then have ok: "munger_ok r'" and e: "\<And>i. i < length tr \<Longrightarrow> entry_ok r' (rg_next r + of_nat i) (tr ! i)"
    by (auto simp: trace_ok_def)
  have "case tr ! i of Sent x \<Rightarrow> x = rg_next r + of_nat i
      | Hole s \<Rightarrow> (\<forall>(p :: 'dd ext_packet) marker. ep_ext_sequence_number p = s \<longrightarrow> fills_with r' p marker (rg_next r + of_nat i))"
    if "i < length tr" for i
    using e [OF that] hole_filled [OF ok] by (cases "tr ! i") auto
  with run show ?thesis by blast
qed

definition mg_packet :: "u64 \<Rightarrow> bool \<Rightarrow> unit ext_packet" where
  "mg_packet sn full = ext_packet_zero\<lparr>ep_ext_sequence_number := sn,
     ep_packet := rtp_packet_zero\<lparr>rp_payload := (if full then [0] else [])\<rparr>\<rparr>"

definition mg_example :: rtp_munger where
  "mg_example = fst (update_and_get_sn_ts (set_last_sn_ts new_rtp_munger (mg_packet 1000 True)) (mg_packet 1000 True) True)"

lemmas mg_eval = mg_example_def set_last_sn_ts_def update_and_get_sn_ts_def new_rtp_munger_def mg_packet_def
  ext_packet_zero_def rtp_packet_zero_def ep_has_payload_def update_sn_offset_def get_value_or_zero_def get_value_def
  new_range_map_def init_ranges_def clear_and_reset_value_def Let_def i64_of_def min_ranges_def

lemma mg_example_ok: "munger_ok mg_example" "rg_ext_last_sn mg_example = rg_next mg_example - 1"
  by (simp_all add: mg_eval munger_ok_def rm_ok_def rm_frontier_def rm_head rg_next_def sn_limit_def push_bit_eq_mult)

text \<open>Two packets, a gap of one, a padding-only packet, two padding packets, a filtered packet and another.\<close>

definition mg_events :: "unit munge_event list" where
  "mg_events = [MgPacket (mg_packet 1001 True) True False, MgPacket (mg_packet 1003 True) True False,
     MgPacket (mg_packet 1004 False) False False, MgPad 2 90000 30 False 0,
     MgPacket (mg_packet 1005 True) False True, MgPacket (mg_packet 1006 True) True False]"

theorem munger_numbering_witness:
  "\<exists>r' tr. run_ops munge_step (mg_example, []) mg_events = Some (r', tr) \<and>
    (\<forall>i < length tr. case tr ! i of Sent x \<Rightarrow> x = 1001 + of_nat i
      | Hole s \<Rightarrow> (\<forall>(p :: unit ext_packet) marker. ep_ext_sequence_number p = s \<longrightarrow> fills_with r' p marker (1001 + of_nat i)))"
proof -
  have nx: "rg_next mg_example = 1001" by (simp add: mg_eval rg_next_def)
  have "list_all munge_admissible mg_events"
    by (simp add: mg_events_def mg_packet_def sn_limit_def ext_packet_zero_def)
  then show ?thesis by (rule munger_numbering [OF mg_example_ok, of mg_events, unfolded nx])
qed

text \<open>
  C35. The branches of \<open>UpdateAndGetSnTs\<close>.  A packet ahead of all others is forwarded, with the
  current offsets applied to its number and timestamp, unless it directly follows and has no
  payload, in which case it is swallowed and the next packet takes its number.  A repeat of
  the highest packet is a duplicate; an older packet is out of order and is given its own
  number below the last one sent, or is refused; both leave the munger as it was.
\<close>

theorem munger_branches:
  assumes "munger_ok r" "ep_ext_sequence_number p < sn_limit"
  defines "sn \<equiv> ep_ext_sequence_number p" and "h \<equiv> rg_ext_highest_incoming_sn r"
  shows "case update_and_get_sn_ts r p marker of (r', tp, e) \<Rightarrow> munger_ok r' \<and>
    (if sn = h then r' = r \<and> e = Some ErrDuplicatePacket
     else if sn < h then r' = r \<and> tr_sn_ordering tp = SnOutOfOrder \<and>
       (e = Some ErrOutOfOrderSequenceNumberCacheMiss \<or>
        e = None \<and> rm_lookup (rg_sn_range_map r) sn = Some (sn - tr_ext_sequence_number tp) \<and>
          tr_ext_sequence_number tp < rg_ext_last_sn r)
     else if sn = h + 1 \<and> \<not> ep_has_payload p then e = Some ErrPaddingOnlyPacket \<and> rg_next r' = rg_next r
     else e = None \<and> tr_sn_ordering tp = (if sn = h + 1 then SnContiguous else SnGap) \<and>
       tr_ext_sequence_number tp = sn - rg_sn_offset r \<and> tr_ext_timestamp tp = ep_ext_timestamp p - rg_ts_offset r \<and>
       rg_next r' = tr_ext_sequence_number tp + 1 \<and> rg_ext_last_sn r' = tr_ext_sequence_number tp)"
proof -
  obtain r' tp e where u: "update_and_get_sn_ts r p marker = (r', tp, e)" using prod_cases3 by blast
  note c = sn_cases [OF assms(2) munger_okD(2) [OF assms(1)], folded sn_def h_def]
  have h1: "h < h + 1" using limit_bounds(3) [OF munger_okD(2) [OF assms(1)]] by (simp add: h_def)
  consider (dup) "sn = h" | (late) "sn < h" | (pad) "sn = h + 1" "\<not> ep_has_payload p"
    | (new) "h < sn" "ep_has_payload p \<or> sn \<noteq> h + 1" by force
  then show ?thesis
  proof cases
    case dup
    then show ?thesis using u c h1 assms(1) by (auto simp: update_and_get_sn_ts_def sn_def h_def)
  next
    case late
    then have "ep_ext_sequence_number p \<le> rg_ext_highest_incoming_sn r" by (simp add: sn_def h_def)
    with late late_step [OF assms(1) this u] assms(1) show ?thesis
      by (auto simp: u sn_def h_def)
  next
    case pad
    then show ?thesis
      using padding_only_step [OF assms(1) _ assms(2) _ u] h1 by (auto simp: u sn_def h_def)
  next
    case new
    then show ?thesis
      using in_order_step [OF assms(1,2) _ _ u] by (auto simp: u sn_def h_def rg_next_def)
  qed
qed

theorem munger_branches_witness:
  "case update_and_get_sn_ts mg_example (mg_packet 1003 False) False of (r', tp, e) \<Rightarrow>
     munger_ok r' \<and> e = None \<and> tr_sn_ordering tp = SnGap \<and> tr_ext_sequence_number tp = 1003"
  using munger_branches [OF mg_example_ok(1), of "mg_packet 1003 False" False]
  by (auto simp: mg_eval sn_limit_def)

section \<open>Padding timestamps\<close>

lemma padding_loop_ts:
  "padding_loop r c f u t x k i sn ts = (vals, sn', ts') \<Longrightarrow> f \<noteq> 0 \<Longrightarrow> (u \<longrightarrow> 0 < i) \<Longrightarrow>
   ts' = last (ts # map st_ext_timestamp vals) \<and>
   successively (\<lambda>a b. 0 < i64_of (b - a)) (ts # map st_ext_timestamp vals)"
proof (induction k arbitrary: i sn ts vals sn' ts')
  case 0
  then show ?case by simp
next
  case (Suc k)
  define e where "e = (let e0 = padding_ts c f x t i in if i64_of (e0 - ts) \<le> 0 then ts + 1 else e0)"
  from Suc.prems obtain rest where
    rest: "padding_loop r c f u t x k (i + 1) (sn + 1) e = (rest, sn', ts')"
    and vals: "vals = \<lparr>st_ext_sequence_number = sn + 1, st_ext_timestamp = e\<rparr> # rest"
    by (auto simp: Let_def e_def split: prod.splits if_splits)
  have "0 < i64_of (e - ts)" by (auto simp: e_def Let_def i64_of_def)
  with Suc.IH [OF rest Suc.prems(2)] vals show ?case by (simp add: successively_Cons)
qed

lemma padding_loop_no_rate:
  "padding_loop r c 0 u t x k i sn ts = (vals, sn', ts') \<Longrightarrow>
   set (map st_ext_timestamp vals) \<subseteq> {rg_ext_last_ts r} \<and> ts' = ts"
proof (induction k arbitrary: i sn vals)
  case 0
  then show ?case by simp
next
  case (Suc k)
  from Suc.prems obtain v rest where "padding_loop r c 0 u t x k (i + 1) (sn + 1) ts = (rest, sn', ts')"
    "vals = v # rest" "st_ext_timestamp v = rg_ext_last_ts r"
    by (auto simp: Let_def split: prod.splits)
  with Suc.IH [of "i + 1" "sn + 1" rest] show ?case by simp
qed

text \<open>
  The timestamps of padding.  With a frame rate, the padding packets have strictly
  increasing timestamps after the last one sent, except that a forced end of frame repeats
  the last timestamp in the first packet; without one they all repeat it.  The timestamps of
  the packets that follow are shifted by the same amount, so that they keep their distance
  from the last timestamp sent.
\<close>

lemma padding_timestamps:
  assumes "update_and_get_padding_sn_ts r num c f force x = Some (r', Inr vals)" "num \<noteq> 0"
  defines "ts \<equiv> map st_ext_timestamp vals"
  shows "length vals = nat num \<and>
    (if f = 0 then set ts = {rg_ext_last_ts r} \<and> rg_ext_last_ts r' = rg_ext_last_ts r
     else successively (\<lambda>a b. 0 < i64_of (b - a))
        (if rg_last_marker r then rg_ext_last_ts r # ts else ts) \<and> rg_ext_last_ts r' = last ts \<and>
        (\<not> rg_last_marker r \<longrightarrow> hd ts = rg_ext_last_ts r)) \<and>
    rg_ext_last_ts r' + rg_ts_offset r' = rg_ext_last_ts r + rg_ts_offset r"
proof -
  have n: "0 < num" "rg_last_marker r \<or> force"
    using assms(1,2) by (auto simp: update_and_get_padding_sn_ts_def split: if_splits)
  let ?u = "\<not> rg_last_marker r"
  obtain v sn t where loop: "padding_loop r c f ?u (if ?u then 1 else 0)
      x (nat num) 0 (rg_ext_last_sn r) (rg_ext_last_ts r) = (v, sn, t)"
    using prod_cases3 by blast
  have r: "v = vals" "rg_ext_last_ts r' = t" "rg_ts_offset r' = rg_ts_offset r - (t - rg_ext_last_ts r)"
    using assms(1,2) n loop by (auto simp: update_and_get_padding_sn_ts_def Let_def update_sn_offset_def)
  have len: "length vals = nat num"
    using arg_cong [OF conjunct2 [OF padding_loop_sn [OF loop]], of length] r(1) by simp
  have ts: "(if f = 0 then set ts = {rg_ext_last_ts r} \<and> t = rg_ext_last_ts r
     else successively (\<lambda>a b. 0 < i64_of (b - a)) (if rg_last_marker r then rg_ext_last_ts r # ts else ts) \<and>
       t = last ts \<and> (\<not> rg_last_marker r \<longrightarrow> hd ts = rg_ext_last_ts r))"
  proof (cases "f = 0 \<or> rg_last_marker r")
    case True
    show ?thesis
    proof (cases "f = 0")
      case True
      then have "set ts \<subseteq> {rg_ext_last_ts r} \<and> t = rg_ext_last_ts r"
        using padding_loop_no_rate [OF loop [unfolded True]] r(1) by (simp add: ts_def)
      moreover have "ts \<noteq> []" using len n(1) by (auto simp: ts_def)
      ultimately have "set ts = {rg_ext_last_ts r}" "t = rg_ext_last_ts r"
        using subset_singletonD [of "set ts"] by auto
      then show ?thesis using True by simp
    next
      case False
      moreover have "vals \<noteq> []" using len n(1) by auto
      ultimately show ?thesis
        using padding_loop_ts [OF loop] \<open>f = 0 \<or> rg_last_marker r\<close> r(1) by (simp add: ts_def last_map)
    qed
  next
    case False
    obtain k where k: "nat num = Suc k" using n(1) by (cases "nat num") auto
    obtain rest where rest: "padding_loop r c f True 1 x k 1 (rg_ext_last_sn r + 1) (rg_ext_last_ts r) = (rest, sn, t)"
      and v: "v = \<lparr>st_ext_sequence_number = rg_ext_last_sn r + 1, st_ext_timestamp = rg_ext_last_ts r\<rparr> # rest"
      using loop False by (auto simp: k Let_def split: prod.splits)
    have f: "f \<noteq> 0" "\<not> rg_last_marker r" using False by auto
    have ts: "ts = rg_ext_last_ts r # map st_ext_timestamp rest"
      using v by (simp add: ts_def r(1) [symmetric])
    show ?thesis using padding_loop_ts [OF rest f(1)] f by (simp add: ts)
  qed
  with len r(2,3) show ?thesis by simp
qed

end
