(* ===== verification/Packet_Sequencer.thy ===== *)
theory Packet_Sequencer
  imports Range_Map "HOL-Library.Signed_Division"
begin

text \<open>
  The ring in which a subscriber's sent packets are remembered for retransmission
  (\<open>pkg/sfu/sequencer.go\<close>).  Time is an argument (\<open>now\<close>, in nanoseconds); the lock and the
  logger are left out.  A slice access that may panic gives an option.
\<close>

definition default_rtt :: u32 where
  "default_rtt = 70"

definition ignore_retransmission :: int where
  "ignore_retransmission = 100"

definition max_ack :: u8 where
  "max_ack = 3"

record packet_meta =
  pm_source_seq_no :: u64
  pm_target_seq_no :: u16
  pm_timestamp :: u32
  pm_marker :: bool
  pm_last_nack :: u32
  pm_nacked :: u8
  pm_layer :: int
  pm_codec_bytes :: "u8 list"
  pm_num_codec_bytes_in :: u8
  pm_num_codec_bytes_out :: u8
  pm_codec_bytes_slice :: "u8 list"
  pm_dd_bytes :: "u8 list"
  pm_dd_bytes_size :: u8
  pm_dd_bytes_slice :: "u8 list"
  pm_act_bytes :: "u8 list"

definition packet_meta_zero :: packet_meta where
  "packet_meta_zero = \<lparr>pm_source_seq_no = 0, pm_target_seq_no = 0, pm_timestamp = 0, pm_marker = False,
     pm_last_nack = 0, pm_nacked = 0, pm_layer = 0, pm_codec_bytes = replicate 8 0,
     pm_num_codec_bytes_in = 0, pm_num_codec_bytes_out = 0, pm_codec_bytes_slice = [],
     pm_dd_bytes = replicate 8 0, pm_dd_bytes_size = 0, pm_dd_bytes_slice = [], pm_act_bytes = []\<rparr>"

record ext_packet_meta =
  em_meta :: packet_meta
  em_ext_sequence_number :: u64
  em_ext_timestamp :: u64

record sequencer =
  sq_size :: int
  sq_start_time :: int
  sq_initialized :: bool
  sq_ext_start_sn :: u64
  sq_ext_highest_sn :: u64
  sq_sn_offset :: u64
  sq_ext_highest_ts :: u64
  sq_meta :: "packet_meta list"
  sq_sn_range_map :: "range_map option"
  sq_rtt :: u32

text \<open>\<open>newSequencer\<close> returns nil for size 0, and \<open>make\<close> panics for a negative one.\<close>

definition new_sequencer :: "int \<Rightarrow> bool \<Rightarrow> int \<Rightarrow> sequencer option option" where
  "new_sequencer size' maybe_sparse now =
    (if size' = 0 then Some None
     else if size' < 0 then None
     else Some (Some \<lparr>sq_size = size', sq_start_time = now, sq_initialized = False, sq_ext_start_sn = 0,
       sq_ext_highest_sn = 0, sq_sn_offset = 0, sq_ext_highest_ts = 0,
       sq_meta = replicate (nat size') packet_meta_zero,
       sq_sn_range_map = (if maybe_sparse then Some (new_range_map ((size' + 1) div 2)) else None),
       sq_rtt = default_rtt\<rparr>))"

definition set_rtt :: "sequencer \<Rightarrow> u32 \<Rightarrow> sequencer" where
  "set_rtt s rtt = s\<lparr>sq_rtt := (if rtt = 0 then default_rtt else rtt)\<rparr>"

text \<open>\<open>uint32((at - s.startTime) / 1e6)\<close> over \<open>int64\<close>.\<close>

definition get_ref_time :: "sequencer \<Rightarrow> int \<Rightarrow> u32" where
  "get_ref_time s at = word_of_int (signed_take_bit 63 (at - sq_start_time s) sdiv 1000000)"

definition sq_update_sn_offset :: "sequencer \<Rightarrow> sequencer" where
  "sq_update_sn_offset s =
    (case sq_sn_range_map s of
       None \<Rightarrow> s
     | Some m \<Rightarrow> (case get_value m (sq_ext_highest_sn s + 1) of
         Inl _ \<Rightarrow> s
       | Inr v \<Rightarrow> s\<lparr>sq_sn_offset := v\<rparr>))"

definition invalidate_slot :: "sequencer \<Rightarrow> nat \<Rightarrow> sequencer" where
  "invalidate_slot s slot =
    (if slot \<ge> length (sq_meta s) then s else s\<lparr>sq_meta := (sq_meta s)[slot := packet_meta_zero]\<rparr>)"

definition is_invalid_slot :: "sequencer \<Rightarrow> nat \<Rightarrow> bool" where
  "is_invalid_slot s slot =
    (if slot \<ge> length (sq_meta s) then True
     else let m = sq_meta s ! slot
     in pm_source_seq_no m = 0 \<and> pm_target_seq_no m = 0 \<and> pm_last_nack m = 0)"

text \<open>The slot of an adjusted number: \<open>adjusted % uint64(s.size)\<close>.\<close>

definition slot_of :: "sequencer \<Rightarrow> u64 \<Rightarrow> nat" where
  "slot_of s adjusted = unat (adjusted mod word_of_int (sq_size s))"

text \<open>The loop that invalidates the numbers skipped; it stops after \<open>s.size\<close> turns.\<close>

fun invalidate_missing :: "nat \<Rightarrow> sequencer \<Rightarrow> u64 \<Rightarrow> u64 \<Rightarrow> sequencer" where
  "invalidate_missing 0 s esn target = s"
| "invalidate_missing (Suc k) s esn target =
    (if esn = target then s else invalidate_missing k (invalidate_slot s (slot_of s esn)) (esn + 1) target)"

text \<open>\<open>copy(dst[:n], src)\<close> into an array of 8 bytes, or a slice of its own if it is longer.\<close>

definition bytes8 :: "u8 list \<Rightarrow> u8 list" where
  "bytes8 bs = (if length bs > 8 then replicate 8 0 else bs @ replicate (8 - length bs) 0)"

definition bytes_slice :: "u8 list \<Rightarrow> u8 list" where
  "bytes_slice bs = (if length bs > 8 then bs else [])"

record push_args =
  pa_packet_time :: int
  pa_ext_incoming_sn :: u64
  pa_ext_modified_sn :: u64
  pa_ext_modified_ts :: u64
  pa_marker :: bool
  pa_layer :: int
  pa_codec_bytes :: "u8 list"
  pa_num_codec_bytes_in :: int
  pa_dd_bytes :: "u8 list"
  pa_act_bytes :: "u8 list"

definition pushed_meta :: "sequencer \<Rightarrow> push_args \<Rightarrow> packet_meta" where
  "pushed_meta s a = \<lparr>pm_source_seq_no = pa_ext_incoming_sn a, pm_target_seq_no = ucast (pa_ext_modified_sn a),
     pm_timestamp = ucast (pa_ext_modified_ts a), pm_marker = pa_marker a,
     pm_last_nack = get_ref_time s (pa_packet_time a), pm_nacked = 0, pm_layer = pa_layer a,
     pm_codec_bytes = bytes8 (pa_codec_bytes a),
     pm_num_codec_bytes_in = word_of_int (pa_num_codec_bytes_in a),
     pm_num_codec_bytes_out = word_of_nat (length (pa_codec_bytes a)),
     pm_codec_bytes_slice = bytes_slice (pa_codec_bytes a),
     pm_dd_bytes = bytes8 (pa_dd_bytes a), pm_dd_bytes_size = word_of_nat (length (pa_dd_bytes a)),
     pm_dd_bytes_slice = bytes_slice (pa_dd_bytes a), pm_act_bytes = pa_act_bytes a\<rparr>"

text \<open>The adjusted number of a packet: an error of the range map makes \<open>push\<close> return.\<close>

definition adjusted_sn :: "sequencer \<Rightarrow> u64 \<Rightarrow> u64 option" where
  "adjusted_sn s sn =
    (if sn < sq_ext_highest_sn s
     then (case sq_sn_range_map s of
         None \<Rightarrow> Some (sn - sq_sn_offset s)
       | Some m \<Rightarrow> (case get_value m sn of Inl _ \<Rightarrow> None | Inr off \<Rightarrow> Some (sn - off)))
     else Some (sn - sq_sn_offset s))"

definition sq_initialize :: "sequencer \<Rightarrow> push_args \<Rightarrow> sequencer" where
  "sq_initialize s a =
    (if \<not> sq_initialized s
     then sq_update_sn_offset (s\<lparr>sq_initialized := True, sq_ext_start_sn := pa_ext_modified_sn a,
            sq_ext_highest_sn := pa_ext_modified_sn a, sq_ext_highest_ts := pa_ext_modified_ts a\<rparr>)
     else s)"

definition sq_push :: "sequencer \<Rightarrow> push_args \<Rightarrow> sequencer option" where
  "sq_push s0 a =
    (let s = sq_initialize s0 a; sn = pa_ext_modified_sn a
     in if sn < sq_ext_start_sn s then Some s
        else let highest_adj = sq_ext_highest_sn s - sq_sn_offset s
        in case adjusted_sn s sn of
             None \<Rightarrow> Some s
           | Some sn_adj \<Rightarrow>
               if i64_of (sn_adj - highest_adj) \<le> - sq_size s then Some s
               else let s1 = (if sn_adj > highest_adj
                      then invalidate_missing (nat (sq_size s)) s (highest_adj + 1) sn_adj else s)
               in (case go_update (sq_meta s1) (int (slot_of s1 sn_adj)) (pushed_meta s1 a) of
                     None \<Rightarrow> None
                   | Some meta' \<Rightarrow> Some (s1\<lparr>sq_meta := meta',
                       sq_ext_highest_sn := max (sq_ext_highest_sn s1) sn,
                       sq_ext_highest_ts := max (sq_ext_highest_ts s1) (pa_ext_modified_ts a)\<rparr>)))"

text \<open>The loop over an exclusion range that lies before what has been sequenced.\<close>

definition invalidate_old :: "u64 \<Rightarrow> range_map \<Rightarrow> sequencer \<Rightarrow> sequencer" where
  "invalidate_old esn m s =
    (let diff = i64_of (esn - sq_ext_highest_sn s)
     in if diff \<ge> 0 \<or> diff < - sq_size s then s
        else case get_value m esn of
               Inl _ \<Rightarrow> s
             | Inr off \<Rightarrow> invalidate_slot s (slot_of s (esn - off)))"

definition push_padding :: "sequencer \<Rightarrow> u64 \<Rightarrow> u64 \<Rightarrow> sequencer" where
  "push_padding s start end' =
    (case sq_sn_range_map s of
       None \<Rightarrow> s
     | Some m \<Rightarrow>
        if \<not> sq_initialized s then s
        else if start \<le> sq_ext_highest_sn s
        then fold (\<lambda>i t. invalidate_old (start + of_nat i) m t) [0..<unat (end' + 1 - start)] s
        else (case exclude_range m start (end' + 1) of
           (Some _, _) \<Rightarrow> s
         | (None, m') \<Rightarrow> sq_update_sn_offset (s\<lparr>sq_sn_range_map := Some m', sq_ext_highest_sn := end'\<rparr>)))"

text \<open>\<open>float64(2*s.rtt)\<close> is exact, so the minimum is the one of the integers.\<close>

definition nack_spacing :: "sequencer \<Rightarrow> u32" where
  "nack_spacing s = word_of_int (min ignore_retransmission (uint (2 * sq_rtt s)))"

definition sn_offset_of :: "sequencer \<Rightarrow> u64 \<Rightarrow> u64 option" where
  "sn_offset_of s sn = (case sq_sn_range_map s of None \<Rightarrow> Some 0
     | Some m \<Rightarrow> (case get_value m sn of Inl _ \<Rightarrow> None | Inr v \<Rightarrow> Some v))"

definition make_ext_meta :: "sequencer \<Rightarrow> packet_meta \<Rightarrow> u64 \<Rightarrow> ext_packet_meta" where
  "make_ext_meta s m sn =
    (let ts0 = ucast (pm_timestamp m) + (sq_ext_highest_ts s AND 0xFFFFFFFF00000000);
         ts = (if pm_timestamp m > ucast (sq_ext_highest_ts s) then ts0 - push_bit 32 1 else ts0)
     in \<lparr>em_meta = m, em_ext_sequence_number = sn, em_ext_timestamp = ts\<rparr>)"

text \<open>The extended number a 16-bit number of a NACK stands for.\<close>

definition nack_ext_sn :: "sequencer \<Rightarrow> u16 \<Rightarrow> u64" where
  "nack_ext_sn s sn =
    (let ext = ucast sn + (sq_ext_highest_sn s AND 0xFFFFFFFFFFFF0000)
     in if sn > ucast (sq_ext_highest_sn s) then ext - push_bit 16 1 else ext)"

text \<open>One turn of the loop of \<open>getExtPacketMetas\<close>: \<open>continue\<close> leaves everything as it is.\<close>

definition nack_one :: "u32 \<Rightarrow> u16 \<Rightarrow> sequencer \<Rightarrow> (sequencer \<times> ext_packet_meta list) option" where
  "nack_one ref_time sn s =
    (if (ucast (sq_ext_highest_sn s) :: u16) - sn > push_bit 15 1 then Some (s, [])
     else let ext = nack_ext_sn s sn
     in case sn_offset_of s ext of
          None \<Rightarrow> Some (s, [])
        | Some off \<Rightarrow>
           let adj = ext - off; highest_adj = sq_ext_highest_sn s - sq_sn_offset s
           in if highest_adj - adj \<ge> word_of_int (sq_size s) then Some (s, [])
              else let slot = slot_of s adj
              in (case go_nth (sq_meta s) (int slot) of
                    None \<Rightarrow> None
                  | Some m \<Rightarrow>
                     if pm_target_seq_no m \<noteq> sn \<or> is_invalid_slot s slot then Some (s, [])
                     else if pm_nacked m < max_ack \<and> ref_time - pm_last_nack m > nack_spacing s
                     then let m' = m\<lparr>pm_nacked := pm_nacked m + 1, pm_last_nack := ref_time\<rparr>
                          in Some (s\<lparr>sq_meta := (sq_meta s)[slot := m']\<rparr>, [make_ext_meta s m' ext])
                     else Some (s, [])))"

fun nack_loop :: "u32 \<Rightarrow> u16 list \<Rightarrow> sequencer \<Rightarrow> (sequencer \<times> ext_packet_meta list) option" where
  "nack_loop ref_time [] s = Some (s, [])"
| "nack_loop ref_time (sn # sns) s =
    (case nack_one ref_time sn s of
       None \<Rightarrow> None
     | Some (s', out) \<Rightarrow> (case nack_loop ref_time sns s' of
         None \<Rightarrow> None
       | Some (s'', out') \<Rightarrow> Some (s'', out @ out')))"

definition get_ext_packet_metas :: "sequencer \<Rightarrow> int \<Rightarrow> u16 list \<Rightarrow> (sequencer \<times> ext_packet_meta list) option" where
  "get_ext_packet_metas s now sns =
    (if \<not> sq_initialized s then Some (s, []) else nack_loop (get_ref_time s now) sns s)"

definition lookup_ext_packet_meta :: "sequencer \<Rightarrow> u64 \<Rightarrow> ext_packet_meta option option" where
  "lookup_ext_packet_meta s ext =
    (if \<not> sq_initialized s then Some None
     else case sn_offset_of s ext of
        None \<Rightarrow> Some None
      | Some off \<Rightarrow>
         let adj = ext - off; highest_adj = sq_ext_highest_sn s - sq_sn_offset s
         in if highest_adj - adj \<ge> word_of_int (sq_size s) then Some None
            else (case go_nth (sq_meta s) (int (slot_of s adj)) of
                    None \<Rightarrow> None
                  | Some m \<Rightarrow>
                     if is_invalid_slot s (slot_of s adj) then Some None
                     else Some (Some (make_ext_meta s m ext))))"

section \<open>Positions in the ring\<close>

definition seq_ok :: "sequencer \<Rightarrow> bool" where
  "seq_ok s \<longleftrightarrow> sq_initialized s \<and> 0 < sq_size s \<and> sq_size s < 2 ^ 31 \<and>
     length (sq_meta s) = nat (sq_size s) \<and> sq_ext_highest_sn s < sn_limit \<and>
     sq_sn_offset s \<le> sq_ext_highest_sn s \<and> sq_ext_start_sn s \<le> sq_ext_highest_sn s \<and>
     (case sq_sn_range_map s of None \<Rightarrow> sq_sn_offset s = 0
      | Some m \<Rightarrow> rm_dense m \<and> rm_frontier m \<le> sq_ext_highest_sn s + 1 \<and> sq_sn_offset s = rmap.head m)"

lemma seq_okD:
  assumes "seq_ok s"
  shows "sq_initialized s" "0 < sq_size s" "sq_size s < 2 ^ 31" "length (sq_meta s) = nat (sq_size s)"
    "sq_ext_highest_sn s < sn_limit" "sq_sn_offset s \<le> sq_ext_highest_sn s"
    "sq_ext_start_sn s \<le> sq_ext_highest_sn s"
  using assms by (simp_all add: seq_ok_def)

text \<open>The position of a number that was not excluded, and of the highest one.\<close>

definition sq_pos :: "sequencer \<Rightarrow> u64 \<Rightarrow> int" where
  "sq_pos s k = uint k - uint (the (sn_offset_of s k))"

definition sq_top :: "sequencer \<Rightarrow> int" where
  "sq_top s = uint (sq_ext_highest_sn s) - uint (sq_sn_offset s)"

lemma sn_offset_lookup: "sq_sn_range_map s = Some m \<Longrightarrow> sn_offset_of s k = rm_lookup m k"
  by (simp add: sn_offset_of_def rm_lookup_def)

lemma offset_new:
  assumes "seq_ok s" "sq_ext_highest_sn s < k"
  shows "sn_offset_of s k = Some (sq_sn_offset s)"
proof (cases "sq_sn_range_map s")
  case None
  with assms show ?thesis by (simp add: seq_ok_def sn_offset_of_def)
next
  case (Some m)
  have "sq_ext_highest_sn s + 1 \<le> k"
    using assms(2) below_limit [OF seq_okD(5) [OF assms(1)]] by (simp add: word_less_def word_le_def)
  then have "rm_frontier m \<le> k" using assms(1) Some by (auto simp: seq_ok_def)
  then show ?thesis using assms(1) Some by (simp add: sn_offset_lookup rmap.look_head seq_ok_def)
qed

lemma offset_le: "seq_ok s \<Longrightarrow> sn_offset_of s k = Some v \<Longrightarrow> uint v \<le> uint k"
proof (cases "sq_sn_range_map s")
  case None
  then show "sn_offset_of s k = Some v \<Longrightarrow> uint v \<le> uint k" by (simp add: sn_offset_of_def)
next
  case (Some m)
  then show "seq_ok s \<Longrightarrow> sn_offset_of s k = Some v \<Longrightarrow> uint v \<le> uint k"
    by (intro rmap.dense_le [of m]) (simp_all add: seq_ok_def sn_offset_lookup)
qed

lemma sq_pos_less:
  assumes "seq_ok s" "sn_offset_of s k \<noteq> None" "sn_offset_of s k' \<noteq> None" "k < k'"
  shows "sq_pos s k < sq_pos s k'"
proof (cases "sq_sn_range_map s")
  case None
  with assms show ?thesis by (simp add: sq_pos_def sn_offset_of_def word_less_def)
next
  case (Some m)
  with assms show ?thesis
    using rmap.pos_less [of m k k'] by (simp add: sq_pos_def sn_offset_lookup rmap.pos_def seq_ok_def)
qed

lemma sq_pos_new: "seq_ok s \<Longrightarrow> sq_ext_highest_sn s < k \<Longrightarrow>
    sq_pos s k = uint k - uint (sq_sn_offset s) \<and> sq_top s < sq_pos s k"
  by (simp add: sq_pos_def offset_new sq_top_def word_less_def)

lemma sq_pos_nonneg: "seq_ok s \<Longrightarrow> sn_offset_of s k \<noteq> None \<Longrightarrow> 0 \<le> sq_pos s k"
  using offset_le by (auto simp: sq_pos_def)

lemma sq_pos_top:
  assumes "seq_ok s" "sn_offset_of s k \<noteq> None" "k \<le> sq_ext_highest_sn s"
  shows "sq_pos s k \<le> sq_top s"
proof -
  let ?h = "sq_ext_highest_sn s"
  have h: "?h < ?h + 1" "uint (?h + 1) = uint ?h + 1"
    using limit_bounds(3) below_limit seq_okD(5) [OF assms(1)] by auto
  have "sq_pos s k < sq_pos s (?h + 1)"
    using assms h(1) offset_new [OF assms(1) h(1)] by (intro sq_pos_less) auto
  also have "\<dots> = sq_top s + 1"
    using sq_pos_new [OF assms(1) h(1)] h(2) by (simp add: sq_top_def)
  finally show ?thesis by simp
qed

lemma uint_pos: "seq_ok s \<Longrightarrow> sn_offset_of s k = Some v \<Longrightarrow> uint (k - v) = sq_pos s k"
  using offset_le [of s k v] by (simp add: sq_pos_def uint_sub_if')

lemma uint_top: "seq_ok s \<Longrightarrow> uint (sq_ext_highest_sn s - sq_sn_offset s) = sq_top s"
  using seq_okD(6) [of s] by (simp add: sq_top_def uint_sub_if' word_le_def)

lemma top_bounds: "seq_ok s \<Longrightarrow> 0 \<le> sq_top s \<and> sq_top s < 2 ^ 62"
  using seq_okD(5,6) [of s] uint_ge_0 [of "sq_sn_offset s"] unfolding sq_top_def word_less_def word_le_def uint_sn_limit
  by linarith

lemma uint_size: "seq_ok s \<Longrightarrow> uint (word_of_int (sq_size s) :: u64) = sq_size s"
  using seq_okD(2,3) [of s] by (simp add: uint_word_of_int)

lemma slot_of_pos: "seq_ok s \<Longrightarrow> slot_of s a = nat (uint a mod sq_size s)"
  by (simp add: slot_of_def unat_eq_nat_uint uint_mod uint_size)

lemma slot_bound: "seq_ok s \<Longrightarrow> slot_of s a < length (sq_meta s)"
  using seq_okD(2,4) [of s] by (simp add: slot_of_pos nat_less_iff)

text \<open>The numbers the ring still has room for.\<close>

definition in_window :: "sequencer \<Rightarrow> u64 \<Rightarrow> bool" where
  "in_window s k \<longleftrightarrow> k \<le> sq_ext_highest_sn s \<and> sn_offset_of s k \<noteq> None \<and> sq_top s - sq_pos s k < sq_size s"

definition sq_slot :: "sequencer \<Rightarrow> u64 \<Rightarrow> nat" where
  "sq_slot s k = nat (sq_pos s k mod sq_size s)"

lemma cong_window:
  fixes a b n :: int
  assumes "a mod n = b mod n" "\<bar>a - b\<bar> < n"
  shows "a = b"
proof (rule ccontr)
  assume "a \<noteq> b"
  moreover have "n dvd a - b" using assms(1) by (simp add: mod_eq_dvd_iff)
  ultimately have "\<bar>n\<bar> \<le> \<bar>a - b\<bar>" by (intro dvd_imp_le_int) auto
  then show False using assms(2) by simp
qed

lemma slot_inj:
  assumes "seq_ok s" "in_window s j" "in_window s k" "sq_slot s j = sq_slot s k"
  shows "j = k"
proof -
  have n: "0 < sq_size s" by (rule seq_okD [OF assms(1)])
  have "sq_pos s j mod sq_size s = sq_pos s k mod sq_size s"
    using assms(4) n by (simp add: sq_slot_def eq_nat_nat_iff)
  moreover have "sq_pos s j \<le> sq_top s" "sq_pos s k \<le> sq_top s"
    "sq_top s - sq_pos s j < sq_size s" "sq_top s - sq_pos s k < sq_size s"
    using assms(2,3) sq_pos_top [OF assms(1)] by (auto simp: in_window_def)
  then have "\<bar>sq_pos s j - sq_pos s k\<bar> < sq_size s" by linarith
  ultimately have "sq_pos s j = sq_pos s k" by (rule cong_window)
  then show ?thesis
    using assms(2,3) sq_pos_less [OF assms(1), of j k] sq_pos_less [OF assms(1), of k j]
    by (cases j k rule: linorder_cases) (auto simp: in_window_def)
qed

section \<open>Looking up\<close>

lemma window_arith:
  fixes A B :: u64
  assumes "0 \<le> uint A" "uint A < 2 ^ 62" "uint B < 2 ^ 62" "0 < n" "n < 2 ^ 31"
  shows "n \<le> uint (A - B) \<longleftrightarrow> \<not> (uint B \<le> uint A \<and> uint A - uint B < n)"
proof (cases "uint B \<le> uint A")
  case True
  then show ?thesis by (simp add: uint_sub_if' not_less)
next
  case False
  then have "uint (A - B) = uint A - uint B + 18446744073709551616" by (simp add: uint_sub_if')
  moreover have "n < 2147483648" "uint B < 4611686018427387904" using assms by simp_all
  ultimately show ?thesis using False uint_ge_0 [of A] \<open>uint (A - B) = _\<close> by linarith
qed

lemma window_test:
  assumes "seq_ok s" "k < sn_limit" "sn_offset_of s k = Some v"
  shows "(sq_ext_highest_sn s - sq_sn_offset s) - (k - v) \<ge> word_of_int (sq_size s) \<longleftrightarrow> \<not> in_window s k"
proof -
  define A where "A = sq_ext_highest_sn s - sq_sn_offset s"
  define B where "B = k - v"
  have A: "uint A = sq_top s" by (simp only: A_def uint_top [OF assms(1)])
  have B: "uint B = sq_pos s k" by (simp only: B_def uint_pos [OF assms(1,3)])
  have "sq_pos s k \<le> uint k" using assms(3) by (simp add: sq_pos_def)
  also have "\<dots> < 2 ^ 62" using assms(2) by (simp add: word_less_def)
  finally have pb: "sq_pos s k < 2 ^ 62" .
  have t: "0 \<le> sq_top s" "sq_top s < 2 ^ 62" using top_bounds [OF assms(1)] by simp_all
  have w: "sq_pos s k \<le> sq_top s \<longleftrightarrow> k \<le> sq_ext_highest_sn s"
    using sq_pos_top [OF assms(1), of k] sq_pos_new [OF assms(1), of k] assms(3) by force
  have "word_of_int (sq_size s) \<le> A - B \<longleftrightarrow> sq_size s \<le> uint (A - B)"
    by (simp only: word_le_def uint_size [OF assms(1)])
  also have "\<dots> \<longleftrightarrow> \<not> in_window s k"
    using window_arith [of A B "sq_size s"] t pb seq_okD(2,3) [OF assms(1)]
    by (simp add: A B w in_window_def assms(3))
  finally show ?thesis by (simp only: A_def B_def)
qed

lemma slot_of_window:
  "seq_ok s \<Longrightarrow> sn_offset_of s k = Some v \<Longrightarrow> slot_of s (k - v) = sq_slot s k"
  by (simp add: slot_of_pos uint_pos sq_slot_def)

lemma lookup_cases:
  assumes "seq_ok s" "k < sn_limit"
  shows "lookup_ext_packet_meta s k = Some
    (if in_window s k \<and> \<not> is_invalid_slot s (sq_slot s k)
     then Some (make_ext_meta s (sq_meta s ! sq_slot s k) k) else None)"
proof (cases "sn_offset_of s k")
  case None
  then show ?thesis using seq_okD(1) [OF assms(1)] by (simp add: lookup_ext_packet_meta_def in_window_def)
next
  case (Some v)
  have "sq_slot s k < length (sq_meta s)"
    using slot_bound [OF assms(1), of "k - v"] slot_of_window [OF assms(1) Some] by simp
  then show ?thesis
    using seq_okD(1) [OF assms(1)] window_test [OF assms Some] slot_of_window [OF assms(1) Some] Some
    by (simp add: lookup_ext_packet_meta_def Let_def)
qed

text \<open>What a sequencer remembers of a number, apart from the NACK bookkeeping.\<close>

definition pm_base :: "packet_meta \<Rightarrow> packet_meta" where
  "pm_base m = m\<lparr>pm_nacked := 0, pm_last_nack := 0\<rparr>"

definition seq_view :: "sequencer \<Rightarrow> u64 \<Rightarrow> packet_meta option" where
  "seq_view s k = (case lookup_ext_packet_meta s k of
     Some (Some em) \<Rightarrow> Some (pm_base (em_meta em)) | _ \<Rightarrow> None)"

lemma seq_view_cases:
  "seq_ok s \<Longrightarrow> k < sn_limit \<Longrightarrow> seq_view s k =
    (if in_window s k \<and> \<not> is_invalid_slot s (sq_slot s k) then Some (pm_base (sq_meta s ! sq_slot s k)) else None)"
  by (simp add: seq_view_def lookup_cases make_ext_meta_def Let_def)

lemma sq_slot_bound: "seq_ok s \<Longrightarrow> sq_slot s k < length (sq_meta s)"
  using seq_okD(2,4) [of s] by (simp add: sq_slot_def nat_less_iff)

section \<open>Pushing\<close>

lemma invalidate_slot_simps [simp]:
  "sq_size (invalidate_slot s i) = sq_size s" "length (sq_meta (invalidate_slot s i)) = length (sq_meta s)"
  by (simp_all add: invalidate_slot_def)

lemma slot_of_invalidate [simp]: "slot_of (invalidate_slot s i) a = slot_of s a"
  by (simp add: slot_of_def)

definition covered :: "int \<Rightarrow> int \<Rightarrow> nat \<Rightarrow> int \<Rightarrow> nat \<Rightarrow> bool" where
  "covered a b k n i \<longleftrightarrow> (\<exists>e. a \<le> e \<and> e < b \<and> e < a + int k \<and> i = nat (e mod n))"

lemma covered_Suc:
  "a < b \<Longrightarrow> covered a b (Suc k) n i \<longleftrightarrow> i = nat (a mod n) \<or> covered (a + 1) b k n i"
proof
  assume "a < b" "covered a b (Suc k) n i"
  then obtain e where e: "a \<le> e" "e < b" "e < a + int (Suc k)" "i = nat (e mod n)" by (auto simp: covered_def)
  then show "i = nat (a mod n) \<or> covered (a + 1) b k n i"
    by (cases "e = a") (auto simp: covered_def intro!: exI [of _ e])
next
  assume a: "a < b" and "i = nat (a mod n) \<or> covered (a + 1) b k n i"
  then consider "i = nat (a mod n)" | e where "a + 1 \<le> e" "e < b" "e < a + 1 + int k" "i = nat (e mod n)"
    by (auto simp: covered_def)
  then show "covered a b (Suc k) n i"
  proof cases
    case 1
    with a show ?thesis unfolding covered_def by (intro exI [of _ a]) simp
  next
    case 2
    then show ?thesis unfolding covered_def by (intro exI [of _ e]) simp
  qed
qed

lemma invalidate_missing_only_meta: "\<exists>M. invalidate_missing k s esn target = s\<lparr>sq_meta := M\<rparr>"
proof (induction k arbitrary: s esn)
  case 0
  have "s = s\<lparr>sq_meta := sq_meta s\<rparr>" by simp
  then show ?case by (metis invalidate_missing.simps(1))
next
  case (Suc k)
  obtain N where n: "invalidate_slot s (slot_of s esn) = s\<lparr>sq_meta := N\<rparr>"
    by (metis invalidate_slot_def sequencer.surjective sequencer.update_convs(8))
  obtain M where "invalidate_missing k (s\<lparr>sq_meta := N\<rparr>) (esn + 1) target = s\<lparr>sq_meta := N\<rparr>\<lparr>sq_meta := M\<rparr>"
    using Suc by blast
  then have "invalidate_missing (Suc k) s esn target = s\<lparr>sq_meta := (if esn = target then sq_meta s else M)\<rparr>"
    by (simp add: n)
  then show ?case by blast
qed

lemma invalidate_missing_fields:
  "invalidate_missing k s esn target = s\<lparr>sq_meta := sq_meta (invalidate_missing k s esn target)\<rparr>"
  using invalidate_missing_only_meta [of k s esn target] by auto

lemma invalidate_missing_length [simp]:
  "length (sq_meta (invalidate_missing k s esn target)) = length (sq_meta s)"
  by (induction k arbitrary: s esn) simp_all

lemma invalidate_missing_meta:
  assumes "uint esn \<le> uint target" "0 < sq_size s" "sq_size s < 2 ^ 31" "i < length (sq_meta s)"
  shows "sq_meta (invalidate_missing k s esn target) ! i =
    (if covered (uint esn) (uint target) k (sq_size s) i then packet_meta_zero else sq_meta s ! i)"
  using assms
proof (induction k arbitrary: s esn)
  case 0
  then show ?case by (auto simp: covered_def)
next
  case (Suc k)
  show ?case
  proof (cases "esn = target")
    case True
    then show ?thesis by (auto simp: covered_def)
  next
    case False
    then have lt: "uint esn < uint target" using Suc.prems(1) by (simp add: word_uint_eq_iff less_le)
    then have u: "uint (esn + 1) = uint esn + 1" using uint_lt2p [of target] by (simp add: uint_plus_if')
    have sl: "slot_of s esn = nat (uint esn mod sq_size s)"
      using Suc.prems(2,3) by (simp add: slot_of_def unat_eq_nat_uint uint_mod uint_word_of_int)
    let ?s = "invalidate_slot s (slot_of s esn)"
    have "sq_meta ?s ! i = (if i = slot_of s esn then packet_meta_zero else sq_meta s ! i)"
      using Suc.prems(4) by (simp add: invalidate_slot_def nth_list_update)
    moreover have "sq_meta (invalidate_missing k ?s (esn + 1) target) ! i =
      (if covered (uint esn + 1) (uint target) k (sq_size s) i then packet_meta_zero else sq_meta ?s ! i)"
      using Suc.IH [of "esn + 1" ?s] Suc.prems lt u by simp
    ultimately show ?thesis
      using False covered_Suc [OF lt, of k "sq_size s" i] sl by auto
  qed
qed

text \<open>A packet above all others.\<close>

lemma covered_window:
  assumes "0 < n" "t < p" "p < t'" "t' - p < int n"
  shows "covered (t + 1) t' n (int n) (nat (p mod int n))"
proof (cases "p < t + 1 + int n")
  case True
  with assms show ?thesis unfolding covered_def by (intro exI [of _ p]) simp
next
  case False
  define e where "e = t + 1 + (p - (t + 1)) mod int n"
  have "0 \<le> (p - (t + 1)) mod int n" "(p - (t + 1)) mod int n < int n" using assms(1) by simp_all
  then have r: "t + 1 \<le> e" "e < t + 1 + int n" by (simp_all add: e_def)
  have "e mod int n = p mod int n" by (simp add: e_def mod_simps)
  with r False assms show ?thesis unfolding covered_def by (intro exI [of _ e]) simp
qed

lemma not_covered_old:
  assumes "0 < n" "p \<le> t" "t' - p < int n"
  shows "\<not> covered (t + 1) t' k (int n) (nat (p mod int n))"
proof
  assume "covered (t + 1) t' k (int n) (nat (p mod int n))"
  then obtain e where e: "t + 1 \<le> e" "e < t'" "nat (p mod int n) = nat (e mod int n)" by (auto simp: covered_def)
  then have "p mod int n = e mod int n" using assms(1) by (simp add: eq_nat_nat_iff)
  moreover have "\<bar>p - e\<bar> < int n" using e assms by linarith
  ultimately have "p = e" by (rule cong_window)
  with e assms show False by simp
qed

lemma push_new:
  assumes ok: "seq_ok s" and k: "sq_ext_highest_sn s < pa_ext_modified_sn a" "pa_ext_modified_sn a < sn_limit"
  defines "k \<equiv> pa_ext_modified_sn a"
  shows "\<exists>s'. sq_push s a = Some s' \<and> seq_ok s' \<and> sq_ext_highest_sn s' = k \<and>
    sn_offset_of s' = sn_offset_of s \<and> sq_top s' = sq_pos s k \<and> sq_size s' = sq_size s \<and>
    sq_start_time s' = sq_start_time s \<and> sq_rtt s' = sq_rtt s \<and>
    sq_meta s' ! sq_slot s k = pushed_meta s a \<and>
    (\<forall>p. sq_pos s k - p < sq_size s \<and> p < sq_pos s k \<longrightarrow> 
       sq_meta s' ! nat (p mod sq_size s) =
         (if sq_top s < p then packet_meta_zero else sq_meta s ! nat (p mod sq_size s))) \<and>
    set (sq_meta s') \<subseteq> insert (pushed_meta s a) (insert packet_meta_zero (set (sq_meta s)))"
proof -
  note d = seq_okD [OF ok]
  let ?off = "sq_sn_offset s" and ?h = "sq_ext_highest_sn s" and ?n = "sq_size s"
  have kh: "?h < k" "k < sn_limit" using k by (simp_all add: k_def)
  have offk: "sn_offset_of s k = Some ?off" by (rule offset_new [OF ok kh(1)])
  have top: "uint (?h - ?off) = sq_top s" and pk: "uint (k - ?off) = sq_pos s k"
    by (rule uint_top [OF ok], rule uint_pos [OF ok offk])
  have gt: "sq_top s < sq_pos s k" using sq_pos_new [OF ok kh(1)] by simp
  have "sq_pos s k \<le> uint k" using offk by (simp add: sq_pos_def)
  also have "\<dots> < 2 ^ 62" using kh(2) by (simp add: word_less_def)
  finally have pl: "sq_pos s k < 2 ^ 62" .
  have diff: "i64_of ((k - ?off) - (?h - ?off)) = sq_pos s k - sq_top s"
    using pl top_bounds [OF ok] by (subst sn_diff) (simp_all add: word_less_def top pk)
  have t1: "uint (?h - ?off + 1) = sq_top s + 1"
    using top_bounds [OF ok] below_limit [of "?h - ?off"] by (simp add: word_less_def top)
  define s1 where "s1 = invalidate_missing (nat ?n) s (?h - ?off + 1) (k - ?off)"
  have m1: "sq_meta s1 ! i = (if covered (sq_top s + 1) (sq_pos s k) (nat ?n) ?n i then packet_meta_zero else sq_meta s ! i)"
    if "i < length (sq_meta s)" for i
    using invalidate_missing_meta [of "?h - ?off + 1" "k - ?off" s i "nat ?n"] gt d(2,3) that
    by (simp add: s1_def t1 pk)
  have l1: "length (sq_meta s1) = length (sq_meta s)" by (simp add: s1_def)
  have s1: "s1 = s\<lparr>sq_meta := sq_meta s1\<rparr>" unfolding s1_def by (rule invalidate_missing_fields)
  have sl: "slot_of s1 (k - ?off) = sq_slot s k"
    using slot_of_window [OF ok offk] by (subst s1) (simp add: slot_of_def)
  have pm: "pushed_meta s1 a = pushed_meta s a" by (subst s1) (simp add: pushed_meta_def get_ref_time_def)
  have slb: "sq_slot s k < length (sq_meta s)" by (rule sq_slot_bound [OF ok])
  define s' where "s' = s1\<lparr>sq_meta := (sq_meta s1)[sq_slot s k := pushed_meta s a],
      sq_ext_highest_sn := k, sq_ext_highest_ts := max (sq_ext_highest_ts s) (pa_ext_modified_ts a)\<rparr>"
  have e1: "sq_ext_highest_sn s1 = ?h" "sq_ext_highest_ts s1 = sq_ext_highest_ts s"
    by (subst s1, simp)+
  have push: "sq_push s a = Some s'"
    using d kh gt diff offk slb l1 sl pm e1
    by (simp add: sq_push_def sq_initialize_def Let_def adjusted_sn_def k_def [symmetric] s1_def [symmetric] s'_def
        word_less_def word_le_def top pk max_def)
  have f': "sq_sn_range_map s' = sq_sn_range_map s" "sq_sn_offset s' = ?off" "sq_size s' = ?n"
    "sq_initialized s'" "sq_ext_highest_sn s' = k" "sq_ext_start_sn s' = sq_ext_start_sn s" "length (sq_meta s') = length (sq_meta s)"
    "sq_start_time s' = sq_start_time s" "sq_rtt s' = sq_rtt s"
    using d(1) unfolding s'_def by (subst s1, simp add: l1)+
  have "?h + 1 \<le> k + 1"
    using below_limit [OF d(5)] below_limit [OF kh(2)] kh(1) by (simp add: word_le_def word_less_def)
  then have ok': "seq_ok s'"
    using ok kh d(6,7) f' by (auto simp: seq_ok_def split: option.splits)
  have "sq_top s' = sq_pos s k" by (simp add: sq_top_def f' sq_pos_def offk)
  moreover have "sn_offset_of s' = sn_offset_of s" by (rule ext) (simp add: sn_offset_of_def f')
  moreover have "sq_meta s' ! sq_slot s k = pushed_meta s a" using slb l1 by (simp add: s'_def)
  moreover have "sq_meta s' ! nat (p mod ?n) = (if sq_top s < p then packet_meta_zero else sq_meta s ! nat (p mod ?n))"
    if p: "sq_pos s k - p < ?n" "p < sq_pos s k" for p
  proof -
    have b: "nat (p mod ?n) < length (sq_meta s)" using d(2,4) by (simp add: nat_less_iff)
    have "p mod ?n \<noteq> sq_pos s k mod ?n"
      using cong_window [of p ?n "sq_pos s k"] p by auto
    then have "nat (p mod ?n) \<noteq> sq_slot s k" using d(2) by (simp add: sq_slot_def eq_nat_nat_iff)
    then have "sq_meta s' ! nat (p mod ?n) = sq_meta s1 ! nat (p mod ?n)" by (simp add: s'_def)
    then show ?thesis
      using m1 [OF b] covered_window [of "nat ?n" "sq_top s" p "sq_pos s k"]
        not_covered_old [of "nat ?n" p "sq_top s" "sq_pos s k" "nat ?n"] p d(2) by auto
  qed
  moreover have "set (sq_meta s') \<subseteq> insert (pushed_meta s a) (insert packet_meta_zero (set (sq_meta s)))"
  proof -
    have "set (sq_meta s1) \<subseteq> insert packet_meta_zero (set (sq_meta s))"
    proof
      fix m assume "m \<in> set (sq_meta s1)"
      then obtain i where "i < length (sq_meta s)" "m = sq_meta s1 ! i" by (auto simp: in_set_conv_nth l1)
      then show "m \<in> insert packet_meta_zero (set (sq_meta s))" using m1 [of i] by auto
    qed
    then show ?thesis using set_update_subset_insert [of "sq_meta s1"] by (fastforce simp: s'_def)
  qed
  ultimately show ?thesis using push ok' f' by blast
qed

text \<open>A packet below the highest one: its slot is set if the ring has room for it.\<close>

lemma same_highest: "s\<lparr>sq_meta := M, sq_ext_highest_sn := sq_ext_highest_sn s, sq_ext_highest_ts := t\<rparr> =
    s\<lparr>sq_meta := M, sq_ext_highest_ts := t\<rparr>"
  by (cases s) simp

lemma push_old:
  assumes ok: "seq_ok s" and k: "pa_ext_modified_sn a < sq_ext_highest_sn s \<or>
    pa_ext_modified_sn a = sq_ext_highest_sn s \<and> sn_offset_of s (pa_ext_modified_sn a) = Some (sq_sn_offset s)"
  defines "k \<equiv> pa_ext_modified_sn a"
  defines "s' \<equiv> (if sq_ext_start_sn s \<le> k \<and> in_window s k
     then s\<lparr>sq_meta := (sq_meta s)[sq_slot s k := pushed_meta s a],
            sq_ext_highest_ts := max (sq_ext_highest_ts s) (pa_ext_modified_ts a)\<rparr> else s)"
  shows "sq_push s a = Some s'"
proof (cases "sn_offset_of s k")
  case None
  then have "adjusted_sn s k = None"
    using k by (auto simp: sn_offset_of_def adjusted_sn_def k_def split: option.splits sum.splits)
  moreover have "s' = s" using None by (simp add: s'_def in_window_def)
  ultimately show ?thesis
    using seq_okD(1) [OF ok] by (simp add: sq_push_def sq_initialize_def Let_def k_def)
next
  case (Some v)
  note d = seq_okD [OF ok]
  have adj: "adjusted_sn s k = Some (k - v)"
    using k Some ok by (fastforce simp: sn_offset_of_def adjusted_sn_def k_def seq_ok_def split: option.splits sum.splits)
  have pk: "uint (k - v) = sq_pos s k" by (rule uint_pos [OF ok Some])
  have top: "uint (sq_ext_highest_sn s - sq_sn_offset s) = sq_top s" by (rule uint_top [OF ok])
  have kh: "k \<le> sq_ext_highest_sn s" using k by (auto simp: k_def)
  then have le: "sq_pos s k \<le> sq_top s" using Some by (intro sq_pos_top [OF ok]) simp_all
  have diff: "i64_of ((k - v) - (sq_ext_highest_sn s - sq_sn_offset s)) = sq_pos s k - sq_top s"
    using le top_bounds [OF ok] by (subst sn_diff) (simp_all add: word_less_def top pk)
  have w: "in_window s k \<longleftrightarrow> \<not> sq_pos s k - sq_top s \<le> - sq_size s"
    using kh Some by (auto simp: in_window_def)
  have "max (sq_ext_highest_sn s) k = sq_ext_highest_sn s" using kh by simp
  then show ?thesis
    using d(1) adj diff w le slot_of_window [OF ok Some] sq_slot_bound [OF ok, of k]
    by (simp add: sq_push_def sq_initialize_def Let_def k_def [symmetric] s'_def word_less_def word_le_def top pk same_highest)
qed

lemma seq_ok_meta: "seq_ok s \<Longrightarrow> length M = length (sq_meta s) \<Longrightarrow> seq_ok (s\<lparr>sq_meta := M, sq_ext_highest_ts := t\<rparr>)"
  by (simp add: seq_ok_def split: option.splits)

lemma seq_simps [simp]:
  "sn_offset_of (s\<lparr>sq_meta := M, sq_ext_highest_ts := t\<rparr>) = sn_offset_of s"
  "sq_pos (s\<lparr>sq_meta := M, sq_ext_highest_ts := t\<rparr>) = sq_pos s"
  "sq_top (s\<lparr>sq_meta := M, sq_ext_highest_ts := t\<rparr>) = sq_top s"
  "in_window (s\<lparr>sq_meta := M, sq_ext_highest_ts := t\<rparr>) = in_window s"
  "sq_slot (s\<lparr>sq_meta := M, sq_ext_highest_ts := t\<rparr>) = sq_slot s"
  by (simp_all add: fun_eq_iff sn_offset_of_def sq_pos_def sq_top_def in_window_def sq_slot_def)

section \<open>What is remembered\<close>

text \<open>Entries are empty or have an incoming number, which is never zero.\<close>

definition sources_ok :: "sequencer \<Rightarrow> bool" where
  "sources_ok s \<longleftrightarrow> (\<forall>m \<in> set (sq_meta s). m = packet_meta_zero \<or> pm_source_seq_no m \<noteq> 0)"

lemma view_entry:
  assumes "seq_ok s" "sources_ok s" "k < sn_limit"
  shows "seq_view s k = (if in_window s k \<and> sq_meta s ! sq_slot s k \<noteq> packet_meta_zero
     then Some (pm_base (sq_meta s ! sq_slot s k)) else None)"
proof -
  have b: "sq_slot s k < length (sq_meta s)" by (rule sq_slot_bound [OF assms(1)])
  then have "sq_meta s ! sq_slot s k = packet_meta_zero \<or> pm_source_seq_no (sq_meta s ! sq_slot s k) \<noteq> 0"
    using assms(2) by (auto simp: sources_ok_def)
  then have "is_invalid_slot s (sq_slot s k) \<longleftrightarrow> sq_meta s ! sq_slot s k = packet_meta_zero"
    using b by (auto simp: is_invalid_slot_def packet_meta_zero_def Let_def)
  then show ?thesis by (simp add: seq_view_cases [OF assms(1,3)])
qed

lemma pushed_nonzero: "pa_ext_incoming_sn a \<noteq> 0 \<Longrightarrow> pushed_meta s a \<noteq> packet_meta_zero"
  by (auto simp: pushed_meta_def packet_meta_zero_def)

lemma push_new_view:
  assumes ok: "seq_ok s" "sources_ok s" and k: "sq_ext_highest_sn s < pa_ext_modified_sn a" "pa_ext_modified_sn a < sn_limit"
    and src: "pa_ext_incoming_sn a \<noteq> 0" and push: "sq_push s a = Some s'"
  shows "seq_ok s' \<and> sources_ok s' \<and> sq_ext_highest_sn s \<le> sq_ext_highest_sn s' \<and> (\<forall>j < sn_limit. seq_view s' j =
    (if j = pa_ext_modified_sn a then Some (pm_base (pushed_meta s a))
     else if sq_pos s (pa_ext_modified_sn a) - sq_pos s j \<ge> sq_size s then None else seq_view s j))"
proof -
  define k where "k = pa_ext_modified_sn a"
  have p: "seq_ok s'" "sq_ext_highest_sn s' = k" "sn_offset_of s' = sn_offset_of s" "sq_top s' = sq_pos s k"
    "sq_size s' = sq_size s" "sq_meta s' ! sq_slot s k = pushed_meta s a"
    "set (sq_meta s') \<subseteq> insert (pushed_meta s a) (insert packet_meta_zero (set (sq_meta s)))"
    and rest: "\<And>p. sq_pos s k - p < sq_size s \<Longrightarrow> p < sq_pos s k \<Longrightarrow> sq_meta s' ! nat (p mod sq_size s) =
         (if sq_top s < p then packet_meta_zero else sq_meta s ! nat (p mod sq_size s))"
    using push_new [OF ok(1) k] push by (auto simp: k_def)
  have "sources_ok s'"
    using ok(2) p(7) src unfolding sources_ok_def by (fastforce simp: pushed_meta_def)
  note view' = view_entry [OF p(1) this]
  have pos: "sq_pos s' = sq_pos s" "sq_slot s' = sq_slot s"
    by (simp_all add: fun_eq_iff sq_pos_def sq_slot_def p(3,5))
  have "seq_view s' j = (if j = k then Some (pm_base (pushed_meta s a))
     else if sq_pos s k - sq_pos s j \<ge> sq_size s then None else seq_view s j)" if j: "j < sn_limit" for j
  proof (cases "sn_offset_of s j = None \<or> k < j")
    case True
    have hk: "sq_ext_highest_sn s < k" using k by (simp add: k_def)
    then have "\<not> in_window s j" "\<not> in_window s' j" "j \<noteq> k"
      using True p(2,3) offset_new [OF ok(1) hk] by (auto simp: in_window_def)
    then show ?thesis using view' [OF j] view_entry [OF ok j] by simp
  next
    case False
    then have off: "sn_offset_of s j \<noteq> None" and jk: "j \<le> k" by auto
    have hk: "sq_ext_highest_sn s < k" using k by (simp add: k_def)
    have offk: "sn_offset_of s k \<noteq> None" using offset_new [OF ok(1) hk] by simp
    have w': "in_window s' j \<longleftrightarrow> sq_pos s k - sq_pos s j < sq_size s"
      using off jk by (simp add: in_window_def p pos)
    show ?thesis
    proof (cases "j = k")
      case True
      then show ?thesis
        using view' [OF j] w' seq_okD(2) [OF ok(1)] pushed_nonzero [OF src] p(6) by (simp add: pos)
    next
      case False
      then have jk: "j < k" using jk by simp
      then have lt: "sq_pos s j < sq_pos s k" by (rule sq_pos_less [OF ok(1) off offk])
      show ?thesis
      proof (cases "sq_pos s k - sq_pos s j < sq_size s")
        case True
        have m: "sq_meta s' ! sq_slot s j = (if sq_top s < sq_pos s j then packet_meta_zero else sq_meta s ! sq_slot s j)"
          using rest [OF True lt] by (simp add: sq_slot_def)
        have "sq_top s < sq_pos s k" using sq_pos_new [OF ok(1) hk] by simp
        moreover have "sq_top s < sq_pos s j \<longleftrightarrow> sq_ext_highest_sn s < j"
          using sq_pos_new [OF ok(1), of j] sq_pos_top [OF ok(1) off] by force
        ultimately have "in_window s j \<longleftrightarrow> \<not> sq_top s < sq_pos s j"
          using True off by (auto simp: in_window_def)
        then show ?thesis
          using view' [OF j] view_entry [OF ok j] m w' True False by (simp add: pos)
      qed (use view' [OF j] w' False in simp)
    qed
  qed
  then show ?thesis using p(1,2) \<open>sources_ok s'\<close> k(1) by (simp add: k_def)
qed

lemma push_old_view:
  assumes ok: "seq_ok s" "sources_ok s" and k: "pa_ext_modified_sn a < sq_ext_highest_sn s \<or>
    pa_ext_modified_sn a = sq_ext_highest_sn s \<and> sn_offset_of s (pa_ext_modified_sn a) = Some (sq_sn_offset s)"
    and src: "pa_ext_incoming_sn a \<noteq> 0" and push: "sq_push s a = Some s'"
  shows "seq_ok s' \<and> sources_ok s' \<and> sq_ext_highest_sn s \<le> sq_ext_highest_sn s' \<and> (\<forall>j < sn_limit. seq_view s' j =
    (if j = pa_ext_modified_sn a \<and> sq_ext_start_sn s \<le> j \<and> in_window s j
     then Some (pm_base (pushed_meta s a)) else seq_view s j))"
proof -
  define k where "k = pa_ext_modified_sn a"
  have s': "s' = (if sq_ext_start_sn s \<le> k \<and> in_window s k
     then s\<lparr>sq_meta := (sq_meta s)[sq_slot s k := pushed_meta s a],
            sq_ext_highest_ts := max (sq_ext_highest_ts s) (pa_ext_modified_ts a)\<rparr> else s)"
    using trans [OF push [symmetric] push_old [OF ok(1) k]] by (simp only: option.inject k_def)
  show ?thesis
  proof (cases "sq_ext_start_sn s \<le> k \<and> in_window s k")
    case False
    then show ?thesis using ok s' by (auto simp: k_def)
  next
    case True
    have ok': "seq_ok s'" using True ok(1) by (simp add: s' seq_ok_meta)
    have src': "sources_ok s'"
      using True ok(2) src set_update_subset_insert [of "sq_meta s" "sq_slot s k" "pushed_meta s a"]
      unfolding sources_ok_def by (fastforce simp: s' pushed_meta_def)
    have "seq_view s' j = (if j = k then Some (pm_base (pushed_meta s a)) else seq_view s j)" if j: "j < sn_limit" for j
    proof -
      have "in_window s j \<Longrightarrow> j \<noteq> k \<Longrightarrow> sq_slot s j \<noteq> sq_slot s k"
        using slot_inj [OF ok(1), of j k] True by auto
      then show ?thesis
        using view_entry [OF ok' src' j] view_entry [OF ok j] True pushed_nonzero [OF src] sq_slot_bound [OF ok(1), of k]
        by (cases "j = k"; cases "in_window s j") (simp_all add: s')
    qed
    moreover have "sq_ext_highest_sn s' = sq_ext_highest_sn s" using True by (simp add: s')
    ultimately show ?thesis using ok' src' True by (auto simp: k_def)
  qed
qed

section \<open>Padding\<close>

lemma meta_simps [simp]:
  "sn_offset_of (s\<lparr>sq_meta := M\<rparr>) = sn_offset_of s" "sq_pos (s\<lparr>sq_meta := M\<rparr>) = sq_pos s"
  "sq_top (s\<lparr>sq_meta := M\<rparr>) = sq_top s" "in_window (s\<lparr>sq_meta := M\<rparr>) = in_window s"
  "sq_slot (s\<lparr>sq_meta := M\<rparr>) = sq_slot s"
  by (simp_all add: fun_eq_iff sn_offset_of_def sq_pos_def sq_top_def in_window_def sq_slot_def)

text \<open>Padding above the highest number, right after it or with a gap.\<close>

lemma pad_new_state:
  assumes ok: "seq_ok s" and m: "sq_sn_range_map s = Some m"
    and st: "sq_ext_highest_sn s < st" "st \<le> e" and e: "e < sn_limit"
  defines "m' \<equiv> rm_exclude m st (e + 1)"
  shows "push_padding s st e = s\<lparr>sq_sn_range_map := Some m', sq_ext_highest_sn := e, sq_sn_offset := rmap.head m'\<rparr>"
    "rm_dense m'" "rm_frontier m' = e + 1" "uint (rmap.head m') = uint (sq_sn_offset s) + (uint e - uint st + 1)"
    "j < st \<Longrightarrow> rm_lookup m' j \<in> {rm_lookup m j, None}" "st \<le> j \<Longrightarrow> j \<le> e \<Longrightarrow> rm_lookup m' j = None"
proof -
  let ?h = "sq_ext_highest_sn s"
  note d = seq_okD [OF ok]
  have h1: "?h + 1 \<le> st" "uint (e + 1) = uint e + 1" "uint st \<le> uint e"
    using below_limit [OF d(5)] below_limit [OF e] st by (simp_all add: word_less_def word_le_def)
  have lt: "st < e + 1" "e + 1 \<le> 2 ^ 63"
    using h1 e by (simp_all add: word_less_def word_le_def)
  have r: "rm_dense m" "rm_ok m" "rm_frontier m \<le> st" "sq_sn_offset s = rmap.head m"
    using ok m h1(1) by (auto simp: seq_ok_def rm_dense_def)
  note x = rmap.ok_excl [OF r(2,3) lt] rmap.dense_excl [OF r(1,3) lt] rmap.head_excl [OF r(2,3) lt]
  have "fst (exclude_range m st (e + 1)) = None"
    using exclude_range_cases [OF r(2) lt] r(3) by (simp add: rm_frontier_def)
  then show "push_padding s st e = s\<lparr>sq_sn_range_map := Some m', sq_ext_highest_sn := e, sq_sn_offset := rmap.head m'\<rparr>"
    using m d(1) x(1) st(1)
    by (cases "exclude_range m st (e + 1)")
      (auto simp: m'_def push_padding_def sq_update_sn_offset_def get_value_def rm_frontier_def rm_head)
  show "rm_dense m'" "rm_frontier m' = e + 1" using x by (simp_all add: m'_def)
  have "uint (e + 1 - st) = uint e - uint st + 1" using h1 by (simp add: uint_sub_if')
  moreover have "uint (sq_sn_offset s) \<le> uint ?h" "uint ?h < uint st" using d(6) st(1) by (simp_all add: word_le_def word_less_def)
  ultimately show "uint (rmap.head m') = uint (sq_sn_offset s) + (uint e - uint st + 1)"
    using x(3) r(4) h1(3) uint_lt2p [of e] by (simp add: m'_def uint_plus_if')
  show "j < st \<Longrightarrow> rm_lookup m' j \<in> {rm_lookup m j, None}"
    unfolding m'_def by (rule rmap.excl_stable [OF r(2,3) lt])
  show "st \<le> j \<Longrightarrow> j \<le> e \<Longrightarrow> rm_lookup m' j = None"
    unfolding m'_def using h1(2) by (intro rmap.look_excl_inside [OF r(2,3) lt]) (simp_all add: word_le_def word_less_def)
qed

lemma pad_new_view:
  assumes ok: "seq_ok s" "sources_ok s" and m: "sq_sn_range_map s = Some m"
    and st: "sq_ext_highest_sn s < st" "st \<le> e" "e < sn_limit"
  defines "s' \<equiv> push_padding s st e"
  shows "seq_ok s'" "sources_ok s'" "sq_ext_highest_sn s' = e" "sq_meta s' = sq_meta s"
    "j \<le> sq_ext_highest_sn s \<Longrightarrow> in_window s' j \<Longrightarrow> in_window s j"
    "j < sn_limit \<Longrightarrow> j \<le> sq_ext_highest_sn s \<or> st \<le> j \<Longrightarrow> seq_view s' j = (if in_window s' j then seq_view s j else None)"
proof -
  let ?h = "sq_ext_highest_sn s" and ?m = "rm_exclude m st (e + 1)"
  note d = seq_okD [OF ok(1)]
  note p = pad_new_state [OF ok(1) m st, folded s'_def]
  have le: "uint ?h < uint st" "uint st \<le> uint e" "uint (sq_sn_offset s) \<le> uint ?h"
    using st d(6) by (simp_all add: word_le_def word_less_def)
  have b: "rmap.head ?m \<le> e" "sq_ext_start_sn s \<le> e" using p(4) le d(7) by (simp_all add: word_le_def)
  show ok': "seq_ok s'" using d(1-4) p(2,3) st(3) b by (simp add: seq_ok_def p(1))
  show src': "sources_ok s'" using ok(2) by (simp add: p(1) sources_ok_def)
  show "sq_ext_highest_sn s' = e" "sq_meta s' = sq_meta s" by (simp_all add: p(1))
  have top: "sq_top s \<le> sq_top s'" using p(4) le by (simp add: sq_top_def p(1))
  have o': "sn_offset_of s' j = rm_lookup ?m j" and o0: "sn_offset_of s j = rm_lookup m j" for j
    by (simp_all add: sn_offset_lookup p(1) m)
  have old: "sn_offset_of s j = sn_offset_of s' j" if "j \<le> ?h" "sn_offset_of s' j \<noteq> None" for j
  proof -
    have "j < st" using that(1) le(1) by (simp add: word_le_def word_less_def)
    from p(5) [OF this] show ?thesis using that(2) by (auto simp: o' o0)
  qed
  then have pos: "sq_pos s j = sq_pos s' j" if "j \<le> ?h" "sn_offset_of s' j \<noteq> None" for j
    using that by (simp add: sq_pos_def)
  show w: "in_window s j" if "j \<le> ?h" "in_window s' j" for j
    using that old [OF that(1)] pos [OF that(1)] top by (auto simp: in_window_def p(1))
  show "seq_view s' j = (if in_window s' j then seq_view s j else None)"
    if j: "j < sn_limit" "j \<le> ?h \<or> st \<le> j"
  proof (cases "in_window s' j")
    case True
    have "j \<le> ?h"
    proof (rule ccontr)
      assume "\<not> j \<le> ?h"
      moreover have "sn_offset_of s' j \<noteq> None" "j \<le> sq_ext_highest_sn s'" using True by (simp_all add: in_window_def)
      moreover have "sq_ext_highest_sn s' = e" by (simp add: p(1))
      ultimately show False using j(2) p(6) [of j] o' [of j] by simp
    qed
    moreover from this have "sq_slot s' j = sq_slot s j"
      using True pos [of j] by (auto simp: sq_slot_def in_window_def p(1))
    ultimately show ?thesis
      using True w [of j] view_entry [OF ok' src' j(1)] view_entry [OF ok j(1)] by (simp add: p(1))
  qed (use view_entry [OF ok' src' j(1)] in simp)
qed

text \<open>Padding over numbers passed already: it only empties slots.\<close>

definition padded_slot :: "sequencer \<Rightarrow> u64 \<Rightarrow> u64 \<Rightarrow> nat \<Rightarrow> bool" where
  "padded_slot s st e i \<longleftrightarrow> (\<exists>k. st \<le> k \<and> k \<le> e \<and> k < sq_ext_highest_sn s \<and> sn_offset_of s k \<noteq> None \<and> i = sq_slot s k)"

definition emptied :: "(nat \<Rightarrow> bool) \<Rightarrow> packet_meta list \<Rightarrow> packet_meta list \<Rightarrow> bool" where
  "emptied P xs ys \<longleftrightarrow> length ys = length xs \<and> (\<forall>i < length xs. ys ! i = xs ! i \<or> ys ! i = packet_meta_zero \<and> P i)"

lemma emptied_refl: "emptied P xs xs"
  by (simp add: emptied_def)

lemma emptied_trans: "emptied P xs ys \<Longrightarrow> emptied P ys zs \<Longrightarrow> emptied P xs zs"
  unfolding emptied_def by metis

lemma emptied_update: "i < length xs \<Longrightarrow> P i \<Longrightarrow> emptied P xs (xs[i := packet_meta_zero])"
  by (simp add: emptied_def nth_list_update)

lemma invalidate_old_slots:
  assumes ok: "seq_ok s" and m: "sq_sn_range_map s = Some m" and k: "k < sn_limit" "st \<le> k" "k \<le> e"
  shows "\<exists>M. invalidate_old k m s = s\<lparr>sq_meta := M\<rparr> \<and> emptied (padded_slot s st e) (sq_meta s) M"
proof (cases "k < sq_ext_highest_sn s \<and> (\<exists>v. get_value m k = Inr v) \<and> \<not> i64_of (k - sq_ext_highest_sn s) < - sq_size s")
  case False
  have "i64_of (k - sq_ext_highest_sn s) = uint k - uint (sq_ext_highest_sn s)" by (rule sn_diff [OF k(1) seq_okD(5) [OF ok]])
  then have "invalidate_old k m s = s"
    using False by (auto simp: invalidate_old_def Let_def word_less_def split: sum.splits)
  then show ?thesis by (intro exI [of _ "sq_meta s"]) (simp add: emptied_refl)
next
  case True
  then obtain v where v: "get_value m k = Inr v" by blast
  have lt: "k < sq_ext_highest_sn s" using True by simp
  then have "\<not> 0 \<le> i64_of (k - sq_ext_highest_sn s)"
    using sn_diff [OF k(1) seq_okD(5) [OF ok]] by (simp add: word_less_def)
  moreover have off: "sn_offset_of s k = Some v" using v m by (simp add: sn_offset_of_def)
  ultimately have "invalidate_old k m s = s\<lparr>sq_meta := (sq_meta s)[sq_slot s k := packet_meta_zero]\<rparr>"
    using True v slot_of_window [OF ok off] sq_slot_bound [OF ok, of k]
    by (simp add: invalidate_old_def Let_def invalidate_slot_def)
  moreover have "padded_slot s st e (sq_slot s k)" using lt off k by (auto simp: padded_slot_def)
  ultimately show ?thesis using emptied_update [OF sq_slot_bound [OF ok]] by blast
qed

lemma pad_old_slots:
  assumes ok: "seq_ok s" and m: "sq_sn_range_map s = Some m" and e: "e < sn_limit"
    and "\<forall>i \<in> set is. st \<le> st + of_nat i \<and> st + of_nat i \<le> e"
  shows "\<exists>M. fold (\<lambda>i t. invalidate_old (st + of_nat i) m t) is s = s\<lparr>sq_meta := M\<rparr> \<and> emptied (padded_slot s st e) (sq_meta s) M"
  using assms(4)
proof (induction "is" rule: rev_induct)
  case Nil
  show ?case by (intro exI [of _ "sq_meta s"]) (simp add: emptied_refl)
next
  case (snoc i "is")
  then obtain M where M: "fold (\<lambda>i t. invalidate_old (st + of_nat i) m t) is s = s\<lparr>sq_meta := M\<rparr>" "emptied (padded_slot s st e) (sq_meta s) M"
    by auto
  let ?t = "s\<lparr>sq_meta := M\<rparr>"
  have ok': "seq_ok ?t" using seq_ok_meta [OF ok, of M "sq_ext_highest_ts s"] M(2) by (simp add: emptied_def)
  have same: "padded_slot ?t st e = padded_slot s st e"
    by (simp add: fun_eq_iff padded_slot_def sq_slot_def sq_pos_def sn_offset_of_def)
  have "st + of_nat i < sn_limit" using snoc.prems e by auto
  then obtain N where "invalidate_old (st + of_nat i) m ?t = ?t\<lparr>sq_meta := N\<rparr>" "emptied (padded_slot s st e) M N"
    using invalidate_old_slots [OF ok', of m "st + of_nat i" st e] m snoc.prems same by auto
  with M emptied_trans [OF M(2)] show ?case by (intro exI [of _ N]) simp
qed

lemma pad_old_view:
  assumes ok: "seq_ok s" "sources_ok s" and m: "sq_sn_range_map s = Some m"
    and st: "st \<le> sq_ext_highest_sn s" "st \<le> e" "e < sn_limit"
  defines "s' \<equiv> push_padding s st e"
  shows "seq_ok s'" "sources_ok s'" "sq_ext_highest_sn s' = sq_ext_highest_sn s" "set (sq_meta s') \<subseteq> insert packet_meta_zero (set (sq_meta s))"
    "in_window s' = in_window s" "j < sn_limit \<Longrightarrow> seq_view s' j \<in> {seq_view s j, None}"
    "j < sn_limit \<Longrightarrow> \<not> padded_slot s st e (sq_slot s j) \<Longrightarrow> seq_view s' j = seq_view s j"
    "sn_offset_of s' = sn_offset_of s" "sq_sn_offset s' = sq_sn_offset s"
proof -
  have "st \<le> st + of_nat i \<and> st + of_nat i \<le> e" if "i \<in> set [0..<unat (e + 1 - st)]" for i
  proof -
    have e1: "uint (e + 1) = uint e + 1" "uint st \<le> uint e"
      using below_limit [OF st(3)] st(2) by (simp_all add: word_le_def)
    have "int (unat (e + 1 - st)) = uint e + 1 - uint st" using e1 by (simp add: uint_sub_if')
    moreover have "i < unat (e + 1 - st)" using that by simp
    then have "int i < int (unat (e + 1 - st))" by (simp only: of_nat_less_iff)
    ultimately have "int i \<le> uint e - uint st" by linarith
    moreover have "uint e < 18446744073709551616" "0 \<le> uint st" using uint_lt2p [of e] by simp_all
    with \<open>int i \<le> uint e - uint st\<close> have "int i < 18446744073709551616" by linarith
    then have "uint (of_nat i :: u64) = int i" by (simp add: unsigned_of_nat take_bit_nat_eq_self_iff)
    ultimately show ?thesis using uint_lt2p [of e] by (simp add: word_le_def uint_plus_if')
  qed
  then have "\<forall>i \<in> set [0..<unat (e + 1 - st)]. st \<le> st + of_nat i \<and> st + of_nat i \<le> e" by blast
  from pad_old_slots [OF ok(1) m st(3) this] st(1) m seq_okD(1) [OF ok(1)]
  obtain M where M: "s' = s\<lparr>sq_meta := M\<rparr>" "length M = length (sq_meta s)"
    "\<forall>i < length M. M ! i = sq_meta s ! i \<or> M ! i = packet_meta_zero \<and> padded_slot s st e i"
    by (auto simp: s'_def push_padding_def emptied_def)
  show ok': "seq_ok s'" using seq_ok_meta [OF ok(1) M(2), of "sq_ext_highest_ts s"] by (simp add: M(1))
  show sub: "set (sq_meta s') \<subseteq> insert packet_meta_zero (set (sq_meta s))"
    using M(2,3) by (fastforce simp: M(1) in_set_conv_nth)
  then show src': "sources_ok s'" using ok(2) by (auto simp: sources_ok_def)
  show "sq_ext_highest_sn s' = sq_ext_highest_sn s" "in_window s' = in_window s"
    "sn_offset_of s' = sn_offset_of s" "sq_sn_offset s' = sq_sn_offset s" by (simp_all add: M(1))
  have e: "sq_meta s' ! sq_slot s j = sq_meta s ! sq_slot s j \<or>
      sq_meta s' ! sq_slot s j = packet_meta_zero \<and> padded_slot s st e (sq_slot s j)" for j
    using M sq_slot_bound [OF ok(1), of j] by simp
  have v: "seq_view s' j = (if in_window s j \<and> sq_meta s' ! sq_slot s j \<noteq> packet_meta_zero
     then Some (pm_base (sq_meta s' ! sq_slot s j)) else None)" if "j < sn_limit" for j
    using view_entry [OF ok' src' that] by (simp add: M(1))
  show "j < sn_limit \<Longrightarrow> seq_view s' j \<in> {seq_view s j, None}"
    using v [of j] view_entry [OF ok, of j] e [of j] by auto
  show "j < sn_limit \<Longrightarrow> \<not> padded_slot s st e (sq_slot s j) \<Longrightarrow> seq_view s' j = seq_view s j"
    using v [of j] view_entry [OF ok, of j] e [of j] by auto
qed

section \<open>Retransmission requests\<close>

text \<open>
  A request for a number is answered when the number is looked up with an entry of its own,
  asked for less than three times before and not within the spacing.
\<close>

definition nack_due :: "sequencer \<Rightarrow> u32 \<Rightarrow> u16 \<Rightarrow> bool" where
  "nack_due s t sn \<longleftrightarrow> \<not> (ucast (sq_ext_highest_sn s) :: u16) - sn > push_bit 15 1 \<and>
    (case lookup_ext_packet_meta s (nack_ext_sn s sn) of
       Some (Some em) \<Rightarrow> pm_target_seq_no (em_meta em) = sn \<and> pm_nacked (em_meta em) < max_ack \<and>
         t - pm_last_nack (em_meta em) > nack_spacing s
     | _ \<Rightarrow> False)"

definition nacked_meta :: "u32 \<Rightarrow> packet_meta \<Rightarrow> packet_meta" where
  "nacked_meta t m = m\<lparr>pm_nacked := pm_nacked m + 1, pm_last_nack := t\<rparr>"

lemma nack_one_cases:
  fixes t :: u32
  assumes ok: "seq_ok s" and lim: "nack_ext_sn s sn < sn_limit"
  defines "k \<equiv> nack_ext_sn s sn"
  defines "m \<equiv> sq_meta s ! sq_slot s k"
  shows "nack_one t sn s = Some (if nack_due s t sn
      then (s\<lparr>sq_meta := (sq_meta s)[sq_slot s k := nacked_meta t m]\<rparr>, [make_ext_meta s (nacked_meta t m) k]) else (s, []))"
    "nack_due s t sn \<longleftrightarrow> \<not> (ucast (sq_ext_highest_sn s) :: u16) - sn > push_bit 15 1 \<and> in_window s k \<and>
        pm_target_seq_no m = sn \<and> \<not> is_invalid_slot s (sq_slot s k) \<and>
        pm_nacked m < max_ack \<and> t - pm_last_nack m > nack_spacing s"
proof -
  show due: "nack_due s t sn \<longleftrightarrow> \<not> (ucast (sq_ext_highest_sn s) :: u16) - sn > push_bit 15 1 \<and> in_window s k \<and>
        pm_target_seq_no m = sn \<and> \<not> is_invalid_slot s (sq_slot s k) \<and>
        pm_nacked m < max_ack \<and> t - pm_last_nack m > nack_spacing s"
    using lookup_cases [OF ok lim] by (auto simp: nack_due_def k_def m_def make_ext_meta_def Let_def)
  show "nack_one t sn s = Some (if nack_due s t sn
      then (s\<lparr>sq_meta := (sq_meta s)[sq_slot s k := nacked_meta t m]\<rparr>, [make_ext_meta s (nacked_meta t m) k]) else (s, []))"
  proof (cases "sn_offset_of s k")
    case None
    then show ?thesis by (simp add: nack_one_def k_def [symmetric] Let_def in_window_def due)
  next
    case (Some v)
    show ?thesis
      using window_test [OF ok lim [folded k_def] Some] slot_of_window [OF ok Some] sq_slot_bound [OF ok, of k] Some
      by (simp add: nack_one_def k_def [symmetric] Let_def m_def nacked_meta_def due)
  qed
qed

lemma and_high_mask: "uint (x AND 0xFFFFFFFFFFFF0000 :: u64) = uint x - uint x mod 2 ^ 16"
proof -
  have "(0xFFFFFFFFFFFF0000 :: u64) = NOT (mask 16)" by (simp add: mask_eq_exp_minus_1)
  moreover have "x AND NOT (mask 16) = push_bit 16 (drop_bit 16 x)"
    by (rule bit_word_eqI) (auto simp: bit_simps)
  ultimately have "x AND 0xFFFFFFFFFFFF0000 = push_bit 16 (drop_bit 16 x)" by simp
  also have "\<dots> = x - take_bit 16 x" using bits_ident [of 16 x] by (simp add: eq_diff_eq)
  finally have "x AND 0xFFFFFFFFFFFF0000 = x - take_bit 16 x" .
  moreover have "uint (take_bit 16 x) = uint x mod 2 ^ 16"
    by (subst unsigned_take_bit_eq) (rule take_bit_eq_mod)
  moreover have "uint x mod 2 ^ 16 \<le> uint x" by (simp add: zmod_le_nonneg_dividend)
  ultimately show ?thesis by (simp add: uint_sub_if')
qed

lemma uint_low16: "uint (ucast (x :: u64) :: u16) = uint x mod 2 ^ 16"
  by (simp add: unsigned_ucast_eq take_bit_eq_mod)

text \<open>
  The subtraction of \<open>1 << 16\<close> wraps around when the highest number is below \<open>2 ^ 16\<close>
  and the number asked for is greater.
\<close>

definition nack_underflow :: "sequencer \<Rightarrow> u16 \<Rightarrow> bool" where
  "nack_underflow s sn \<longleftrightarrow> uint (sq_ext_highest_sn s) < 2 ^ 16 \<and> sn > ucast (sq_ext_highest_sn s)"

lemma nack_ext_sn_bounds:
  assumes "seq_ok s" "\<not> nack_underflow s sn"
  shows "nack_ext_sn s sn \<le> sq_ext_highest_sn s" "nack_ext_sn s sn < sn_limit" "ucast (nack_ext_sn s sn) = sn"
proof -
  define h where "h = uint (sq_ext_highest_sn s)"
  define x where "x = uint sn"
  have hl: "h < 2 ^ 62" using seq_okD(5) [OF assms(1)] by (simp add: h_def word_less_def)
  have xb: "0 \<le> x" "x < 2 ^ 16" using uint_lt2p [of sn] by (simp_all add: x_def)
  have ux: "uint (ucast sn :: u64) = x" using xb by (simp add: x_def unsigned_ucast_eq take_bit_int_eq_self)
  have gt: "sn > ucast (sq_ext_highest_sn s) \<longleftrightarrow> h mod 2 ^ 16 < x"
    by (simp add: word_less_def uint_low16 h_def x_def)
  have small: "2 ^ 16 \<le> h" if "h mod 2 ^ 16 < x"
    using assms(2) gt that unfolding nack_underflow_def h_def [symmetric] by linarith
  have div: "h - h mod 2 ^ 16 = 2 ^ 16 * (h div 2 ^ 16)" by (simp add: minus_mod_eq_mult_div)
  have m: "0 \<le> h mod 2 ^ 16" "h mod 2 ^ 16 < 2 ^ 16" "0 \<le> h" by (simp_all add: h_def)
  have base: "uint (ucast sn + (sq_ext_highest_sn s AND 0xFFFFFFFFFFFF0000)) = x + (h - h mod 2 ^ 16)"
    using xb hl m by (simp add: uint_plus_if' and_high_mask ux h_def [symmetric])
  define y where "y = (if h mod 2 ^ 16 < x then x + (h - h mod 2 ^ 16) - 2 ^ 16 else x + (h - h mod 2 ^ 16))"
  have y: "uint (nack_ext_sn s sn) = y"
  proof (cases "h mod 2 ^ 16 < x")
    case True
    then have "2 ^ 16 \<le> x + (h - h mod 2 ^ 16)" using small m by linarith
    then show ?thesis
      using True by (simp add: nack_ext_sn_def Let_def gt y_def uint_sub_if' base)
  next
    case False
    then show ?thesis by (simp add: nack_ext_sn_def Let_def gt y_def base)
  qed
  have le: "y \<le> h" using m xb by (auto simp: y_def)
  then show "nack_ext_sn s sn \<le> sq_ext_highest_sn s" by (simp add: word_le_def y h_def)
  show "nack_ext_sn s sn < sn_limit" using hl le by (simp add: word_less_def y)
  have "y mod 2 ^ 16 = x mod 2 ^ 16" unfolding y_def div by (simp add: mod_simps)
  then have "uint (ucast (nack_ext_sn s sn) :: u16) = uint sn"
    using xb by (simp add: uint_low16 y x_def [symmetric])
  then show "ucast (nack_ext_sn s sn) = sn" by (simp only: word_uint_eq_iff)
qed

text \<open>
  Entries are of numbers up to the highest one.  So an entry that the wrapped number leads to
  is of another number, and the comparison of the numbers refuses it.
\<close>

definition targets_ok :: "sequencer \<Rightarrow> bool" where
  "targets_ok s \<longleftrightarrow> (\<forall>m \<in> set (sq_meta s). m = packet_meta_zero \<or> (\<exists>k \<le> sq_ext_highest_sn s. pm_target_seq_no m = ucast k))"

lemma nack_underflow_none:
  assumes ok: "seq_ok s" and tg: "targets_ok s" and u: "nack_underflow s sn"
  shows "nack_one t sn s = Some (s, [])" "\<not> nack_due s t sn"
proof -
  have entry: "is_invalid_slot s (slot_of s a) \<or> pm_target_seq_no (sq_meta s ! slot_of s a) \<noteq> sn" for a
  proof (rule ccontr)
    assume c: "\<not> ?thesis"
    let ?m = "sq_meta s ! slot_of s a"
    have b: "slot_of s a < length (sq_meta s)" by (rule slot_bound [OF ok])
    then have "?m \<noteq> packet_meta_zero" using c by (auto simp: is_invalid_slot_def packet_meta_zero_def)
    then obtain k where k: "k \<le> sq_ext_highest_sn s" "sn = ucast k" using tg b c by (fastforce simp: targets_ok_def)
    then have "uint sn \<le> uint (sq_ext_highest_sn s)"
      using zmod_le_nonneg_dividend [of "uint k" "2 ^ 16"] by (simp add: uint_low16 word_le_def)
    moreover have "uint (ucast (sq_ext_highest_sn s) :: u16) = uint (sq_ext_highest_sn s)"
      using u by (simp add: nack_underflow_def uint_low16)
    ultimately show False using u by (simp add: nack_underflow_def word_less_def)
  qed
  have b: "slot_of s a < length (sq_meta s)" for a by (rule slot_bound [OF ok])
  show "nack_one t sn s = Some (s, [])"
    using entry [of "nack_ext_sn s sn - the (sn_offset_of s (nack_ext_sn s sn))"] b
    by (auto simp: nack_one_def Let_def split: option.split)
  show "\<not> nack_due s t sn"
    using entry [of "nack_ext_sn s sn - the (sn_offset_of s (nack_ext_sn s sn))"] b
    by (auto simp: nack_due_def lookup_ext_packet_meta_def make_ext_meta_def Let_def split: option.splits if_splits)
qed

text \<open>The requests of a run: for one number, at the given times; how many are answered.\<close>

fun nack_answers :: "sequencer \<Rightarrow> u16 \<Rightarrow> int list \<Rightarrow> nat" where
  "nack_answers s sn [] = 0"
| "nack_answers s sn (now # nows) = (case get_ext_packet_metas s now [sn] of
     None \<Rightarrow> 0
   | Some (s', out) \<Rightarrow> length out + nack_answers s' sn nows)"

lemma get_single:
  "seq_ok s \<Longrightarrow> get_ext_packet_metas s now [sn] = nack_one (get_ref_time s now) sn s"
  using seq_okD(1) [of s] by (simp add: get_ext_packet_metas_def split: option.splits prod.splits)

lemma seq_ok_meta': "seq_ok s \<Longrightarrow> seq_ok (s\<lparr>sq_meta := (sq_meta s)[i := m]\<rparr>)"
  by (simp add: seq_ok_def split: option.splits)

lemma nack_simps [simp]:
  "nack_ext_sn (s\<lparr>sq_meta := M\<rparr>) = nack_ext_sn s" "nack_spacing (s\<lparr>sq_meta := M\<rparr>) = nack_spacing s"
  "get_ref_time (s\<lparr>sq_meta := M\<rparr>) = get_ref_time s" "nack_underflow (s\<lparr>sq_meta := M\<rparr>) = nack_underflow s"
  by (simp_all add: fun_eq_iff nack_ext_sn_def nack_spacing_def get_ref_time_def nack_underflow_def)

lemma nacked_simps [simp]:
  "pm_nacked (nacked_meta t m) = pm_nacked m + 1" "pm_last_nack (nacked_meta t m) = t"
  "pm_target_seq_no (nacked_meta t m) = pm_target_seq_no m" "pm_base (nacked_meta t m) = pm_base m"
  "pm_source_seq_no (nacked_meta t m) = pm_source_seq_no m"
  by (simp_all add: nacked_meta_def pm_base_def)

lemma inc_nacked: "(x :: u8) < max_ack \<Longrightarrow> unat (x + 1) = unat x + 1 \<and> unat x < 3"
  by (simp add: max_ack_def word_less_nat_alt unat_word_ariths)

lemma nack_answers_bound:
  assumes "seq_ok s" "nack_ext_sn s sn < sn_limit"
  shows "nack_answers s sn nows + min 3 (unat (pm_nacked (sq_meta s ! sq_slot s (nack_ext_sn s sn)))) \<le> 3"
  using assms
proof (induction nows arbitrary: s)
  case Nil
  then show ?case by simp
next
  case (Cons now nows)
  let ?k = "nack_ext_sn s sn"
  let ?m = "sq_meta s ! sq_slot s ?k"
  let ?m' = "nacked_meta (get_ref_time s now) ?m"
  let ?s = "s\<lparr>sq_meta := (sq_meta s)[sq_slot s ?k := ?m']\<rparr>"
  note n = nack_one_cases [OF Cons.prems, of "get_ref_time s now"]
  show ?case
  proof (cases "nack_due s (get_ref_time s now) sn")
    case False
    then show ?thesis using Cons.IH [OF Cons.prems] get_single [OF Cons.prems(1), of now sn] n(1) by simp
  next
    case True
    then have one: "nack_one (get_ref_time s now) sn s = Some (?s, [make_ext_meta s ?m' ?k])" and lt: "pm_nacked ?m < max_ack"
      using n by auto
    have "nack_answers ?s sn nows + min 3 (unat (pm_nacked ?m + 1)) \<le> 3"
      using Cons.IH [OF seq_ok_meta' [OF Cons.prems(1)], of "sq_slot s ?k" ?m'] Cons.prems(2)
        sq_slot_bound [OF Cons.prems(1), of ?k] by simp
    then show ?thesis using one inc_nacked [OF lt] get_single [OF Cons.prems(1), of now sn] by simp
  qed
qed

section \<open>Histories\<close>

text \<open>
  What was done to a sequencer: the packets it took under their numbers; the numbers that
  padding passed over without padding or packets of their own (a gap before the padding); the
  numbers whose slot a padding over old numbers may have emptied.
\<close>

record seq_log =
  sl_sent :: "u64 \<Rightarrow> push_args option"
  sl_skipped :: "u64 set"
  sl_emptied :: "u64 set"

definition log_empty :: seq_log where
  "log_empty = \<lparr>sl_sent = Map.empty, sl_skipped = {}, sl_emptied = {}\<rparr>"

text \<open>A packet is taken if it is the first, above all others, or in its place in the window.\<close>

definition seq_takes :: "sequencer \<Rightarrow> u64 \<Rightarrow> bool" where
  "seq_takes s k \<longleftrightarrow> \<not> sq_initialized s \<or> sq_ext_highest_sn s < k \<or> sq_ext_start_sn s \<le> k \<and> in_window s k"

definition log_push :: "sequencer \<Rightarrow> push_args \<Rightarrow> seq_log \<Rightarrow> seq_log" where
  "log_push s a g = (let k = pa_ext_modified_sn a in
     if seq_takes s k then \<lparr>sl_sent = (sl_sent g)(k \<mapsto> a), sl_skipped = sl_skipped g - {k}, sl_emptied = sl_emptied g - {k}\<rparr>
     else g)"

definition log_pad :: "sequencer \<Rightarrow> u64 \<Rightarrow> u64 \<Rightarrow> seq_log \<Rightarrow> seq_log" where
  "log_pad s st e g =
    (if \<not> sq_initialized s \<or> sq_sn_range_map s = None then g
     else if st \<le> sq_ext_highest_sn s then g\<lparr>sl_emptied := sl_emptied g \<union> {j. padded_slot s st e (sq_slot s j)}\<rparr>
     else g\<lparr>sl_skipped := sl_skipped g \<union> {j. sq_ext_highest_sn s < j \<and> j < st}\<rparr>)"

text \<open>
  Any sequence of the operations, from \<open>newSequencer\<close> on: packets under any number (also
  again, also the number of the highest packet; not the number that padding was given last),
  padding anywhere, requests, round trip times.
\<close>

inductive seq_history :: "sequencer \<Rightarrow> seq_log \<Rightarrow> bool" where
  hist_new: "new_sequencer n sparse now = Some (Some s) \<Longrightarrow> n < 2 ^ 31 \<Longrightarrow> seq_history s log_empty"
| hist_push: "seq_history s g \<Longrightarrow> sq_push s a = Some s' \<Longrightarrow> pa_ext_modified_sn a < sn_limit \<Longrightarrow>
     pa_ext_incoming_sn a \<noteq> 0 \<Longrightarrow>
     (pa_ext_modified_sn a = sq_ext_highest_sn s \<Longrightarrow> sn_offset_of s (sq_ext_highest_sn s) \<noteq> None) \<Longrightarrow>
     seq_history s' (log_push s a g)"
| hist_pad: "seq_history s g \<Longrightarrow> st \<le> e \<Longrightarrow> e < sn_limit \<Longrightarrow> seq_history (push_padding s st e) (log_pad s st e g)"
| hist_nack: "seq_history s g \<Longrightarrow> get_ext_packet_metas s now sns = Some (s', out) \<Longrightarrow> seq_history s' g"
| hist_rtt: "seq_history s g \<Longrightarrow> seq_history (set_rtt s rtt) g"

text \<open>A sequencer in use: it has taken its first packet.\<close>

definition seq_reachable :: "sequencer \<Rightarrow> bool" where
  "seq_reachable s \<longleftrightarrow> (\<exists>g. seq_history s g \<and> sq_initialized s)"

text \<open>
  What is remembered agrees with the history, except for the numbers passed over by padding.
\<close>

definition sent_entry :: "seq_log \<Rightarrow> u64 \<Rightarrow> packet_meta option" where
  "sent_entry g k = map_option (\<lambda>a. pm_base (pushed_meta undefined a)) (sl_sent g k)"

definition seq_inv :: "sequencer \<Rightarrow> seq_log \<Rightarrow> bool" where
  "seq_inv s g \<longleftrightarrow> seq_ok s \<and> sources_ok s \<and> targets_ok s \<and>
     sn_offset_of s (sq_ext_highest_sn s) \<in> {None, Some (sq_sn_offset s)} \<and>
     (\<forall>k a. sl_sent g k = Some a \<longrightarrow> k \<le> sq_ext_highest_sn s \<and> pa_ext_modified_sn a = k) \<and>
     (\<forall>k < sn_limit. k \<notin> sl_skipped g \<longrightarrow> seq_view s k \<in> {None, sent_entry g k} \<and>
       (in_window s k \<and> k \<notin> sl_emptied g \<longrightarrow> seq_view s k = sent_entry g k))"

definition seq_fresh :: "sequencer \<Rightarrow> bool" where
  "seq_fresh s \<longleftrightarrow> \<not> sq_initialized s \<and> 0 < sq_size s \<and> sq_size s < 2 ^ 31 \<and>
     sq_meta s = replicate (nat (sq_size s)) packet_meta_zero \<and> sq_sn_offset s = 0 \<and> sq_ext_highest_sn s = 0 \<and>
     (sq_sn_range_map s = None \<or> (\<exists>k. sq_sn_range_map s = Some (new_range_map k)))"

lemma base_target [simp]: "pm_target_seq_no (pm_base m) = pm_target_seq_no m"
  by (simp add: pm_base_def)

lemma pushed_target [simp]: "pm_target_seq_no (pushed_meta s a) = ucast (pa_ext_modified_sn a)"
  by (simp add: pushed_meta_def)

lemma base_pushed: "pm_base (pushed_meta s a) = pm_base (pushed_meta s' a)"
  by (simp add: pm_base_def pushed_meta_def)

lemma seq_invD:
  assumes "seq_inv s g"
  shows "seq_ok s" "sources_ok s" "targets_ok s"
    "sl_sent g k = Some a \<Longrightarrow> k \<le> sq_ext_highest_sn s" "sl_sent g k = Some a \<Longrightarrow> pa_ext_modified_sn a = k"
    "k < sn_limit \<Longrightarrow> k \<notin> sl_skipped g \<Longrightarrow> seq_view s k \<in> {None, sent_entry g k}"
    "k < sn_limit \<Longrightarrow> k \<notin> sl_skipped g \<Longrightarrow> in_window s k \<Longrightarrow> k \<notin> sl_emptied g \<Longrightarrow> seq_view s k = sent_entry g k"
    "sn_offset_of s (sq_ext_highest_sn s) \<in> {None, Some (sq_sn_offset s)}"
  using assms by (auto simp: seq_inv_def)

lemma targets_step:
  assumes "targets_ok s" "set (sq_meta s') \<subseteq> insert m (insert packet_meta_zero (set (sq_meta s)))"
    "sq_ext_highest_sn s \<le> sq_ext_highest_sn s'" "m = packet_meta_zero \<or> (\<exists>k \<le> sq_ext_highest_sn s'. pm_target_seq_no m = ucast k)"
  shows "targets_ok s'"
  unfolding targets_ok_def
proof
  fix x assume "x \<in> set (sq_meta s')"
  then consider "x = m" | "x = packet_meta_zero" | "x \<in> set (sq_meta s)" using assms(2) by blast
  then show "x = packet_meta_zero \<or> (\<exists>k \<le> sq_ext_highest_sn s'. pm_target_seq_no x = ucast k)"
  proof cases
    case 3
    then show ?thesis using assms(1,3) unfolding targets_ok_def by (meson order_trans)
  qed (use assms(4) in auto)
qed

text \<open>A packet above all others.\<close>

lemma inv_push_new:
  assumes inv: "seq_inv s g" and push: "sq_push s a = Some s'" and k: "sq_ext_highest_sn s < pa_ext_modified_sn a"
    "pa_ext_modified_sn a < sn_limit" and src: "pa_ext_incoming_sn a \<noteq> 0"
  shows "seq_inv s' (log_push s a g)"
proof -
  note d = seq_invD [OF inv]
  define k where "k = pa_ext_modified_sn a"
  have hk: "sq_ext_highest_sn s < k" using k(1) by (simp add: k_def)
  have v: "seq_ok s'" "sources_ok s'" "\<And>j. j < sn_limit \<Longrightarrow> seq_view s' j =
    (if j = k then Some (pm_base (pushed_meta s a)) else if sq_pos s k - sq_pos s j \<ge> sq_size s then None else seq_view s j)"
    using push_new_view [OF d(1,2) k src push] by (simp_all add: k_def)
  have p: "sq_ext_highest_sn s' = k" "sn_offset_of s' = sn_offset_of s" "sq_top s' = sq_pos s k" "sq_size s' = sq_size s"
    "set (sq_meta s') \<subseteq> insert (pushed_meta s a) (insert packet_meta_zero (set (sq_meta s)))"
    using push_new [OF d(1) k] push by (auto simp: k_def)
  have pos: "sq_pos s' = sq_pos s" by (simp add: fun_eq_iff sq_pos_def p(2))
  have g: "log_push s a g = \<lparr>sl_sent = (sl_sent g)(k \<mapsto> a), sl_skipped = sl_skipped g - {k}, sl_emptied = sl_emptied g - {k}\<rparr>"
    using hk by (simp add: log_push_def Let_def seq_takes_def k_def)
  have e: "sent_entry (log_push s a g) j = (if j = k then Some (pm_base (pushed_meta s a)) else sent_entry g j)" for j
    using base_pushed [of undefined a s] by (simp add: g sent_entry_def)
  have w: "in_window s j" if "in_window s' j" "j \<le> sq_ext_highest_sn s" for j
  proof -
    have "sq_top s < sq_pos s k" using sq_pos_new [OF d(1) hk] by simp
    with that show ?thesis by (auto simp: in_window_def p pos)
  qed
  have un: "sent_entry g j = None \<and> seq_view s j = None" if "\<not> j \<le> sq_ext_highest_sn s" "j < sn_limit" for j
    using d(4) [of j] that view_entry [OF d(1,2) that(2)] by (cases "sl_sent g j") (auto simp: sent_entry_def in_window_def)
  have "targets_ok s'" using hk by (intro targets_step [OF d(3) p(5)]) (auto simp: p(1) k_def)
  moreover have "j \<le> k \<and> pa_ext_modified_sn b = j" if "sl_sent (log_push s a g) j = Some b" for j b
    using that d(4,5) [of j b] hk k_def [symmetric] by (cases "j = k") (auto simp: g)
  moreover have "seq_view s' j \<in> {None, sent_entry (log_push s a g) j} \<and>
      (in_window s' j \<and> j \<notin> sl_emptied (log_push s a g) \<longrightarrow> seq_view s' j = sent_entry (log_push s a g) j)"
    if j: "j < sn_limit" "j \<notin> sl_skipped (log_push s a g)" for j
  proof (cases "j = k")
    case False
    then have j': "j \<notin> sl_skipped g" using j(2) by (simp add: g)
    have "in_window s' j \<Longrightarrow> \<not> sq_pos s k - sq_pos s j \<ge> sq_size s" by (simp add: in_window_def p pos)
    then show ?thesis
      using False v(3) [OF j(1)] e [of j] d(6) [OF j(1) j'] d(7) [OF j(1) j'] w [of j] un [OF _ j(1)]
      by (cases "j \<le> sq_ext_highest_sn s") (auto simp: g)
  qed (use v(3) [OF j(1)] e [of j] in simp)
  moreover have "sn_offset_of s' k = Some (sq_sn_offset s')"
    using offset_new [OF d(1) hk] p(1,3) sq_pos_new [OF d(1) hk] by (simp add: p(2) sq_top_def word_uint_eq_iff)
  ultimately show ?thesis using v(1,2) by (simp add: seq_inv_def p(1))
qed

text \<open>A late packet, or one with the number of the highest packet.\<close>

lemma inv_push_old:
  assumes inv: "seq_inv s g" and push: "sq_push s a = Some s'" and k: "pa_ext_modified_sn a \<le> sq_ext_highest_sn s"
    "pa_ext_modified_sn a = sq_ext_highest_sn s \<Longrightarrow> sn_offset_of s (sq_ext_highest_sn s) \<noteq> None"
    and src: "pa_ext_incoming_sn a \<noteq> 0"
  shows "seq_inv s' (log_push s a g)"
proof -
  note d = seq_invD [OF inv]
  define k where "k = pa_ext_modified_sn a"
  have k': "pa_ext_modified_sn a < sq_ext_highest_sn s \<or>
      pa_ext_modified_sn a = sq_ext_highest_sn s \<and> sn_offset_of s (pa_ext_modified_sn a) = Some (sq_sn_offset s)"
    using k d(8) by (cases "pa_ext_modified_sn a = sq_ext_highest_sn s") auto
  have v: "seq_ok s'" "sources_ok s'" "\<And>j. j < sn_limit \<Longrightarrow> seq_view s' j =
    (if j = k \<and> sq_ext_start_sn s \<le> j \<and> in_window s j then Some (pm_base (pushed_meta s a)) else seq_view s j)"
    using push_old_view [OF d(1,2) k' src push] by (simp_all add: k_def)
  have s': "s' = (if sq_ext_start_sn s \<le> k \<and> in_window s k
     then s\<lparr>sq_meta := (sq_meta s)[sq_slot s k := pushed_meta s a],
            sq_ext_highest_ts := max (sq_ext_highest_ts s) (pa_ext_modified_ts a)\<rparr> else s)"
    using trans [OF push [symmetric] push_old [OF d(1) k']] by (simp only: option.inject k_def)
  have takes: "seq_takes s k \<longleftrightarrow> sq_ext_start_sn s \<le> k \<and> in_window s k"
    using seq_okD(1) [OF d(1)] k(1) by (auto simp: seq_takes_def k_def)
  show ?thesis
  proof (cases "sq_ext_start_sn s \<le> k \<and> in_window s k")
    case False
    then show ?thesis using inv s' takes by (auto simp: log_push_def Let_def k_def)
  next
    case True
    have g: "log_push s a g = \<lparr>sl_sent = (sl_sent g)(k \<mapsto> a), sl_skipped = sl_skipped g - {k}, sl_emptied = sl_emptied g - {k}\<rparr>"
      using True takes by (simp add: log_push_def Let_def k_def)
    have e: "sent_entry (log_push s a g) j = (if j = k then Some (pm_base (pushed_meta s a)) else sent_entry g j)" for j
      using base_pushed [of undefined a s] by (simp add: g sent_entry_def)
    have p: "sq_ext_highest_sn s' = sq_ext_highest_sn s" "in_window s' = in_window s" "sq_sn_offset s' = sq_sn_offset s"
      "sn_offset_of s' = sn_offset_of s" "set (sq_meta s') \<subseteq> insert (pushed_meta s a) (insert packet_meta_zero (set (sq_meta s)))"
      using True set_update_subset_insert [of "sq_meta s" "sq_slot s k" "pushed_meta s a"] by (auto simp: s')
    have "targets_ok s'" using k(1) by (intro targets_step [OF d(3) p(5)]) (auto simp: p(1))
    moreover have "j \<le> sq_ext_highest_sn s \<and> pa_ext_modified_sn b = j" if "sl_sent (log_push s a g) j = Some b" for j b
      using that d(4,5) [of j b] k(1) k_def [symmetric] by (cases "j = k") (auto simp: g)
    moreover have "seq_view s' j \<in> {None, sent_entry (log_push s a g) j} \<and>
        (in_window s j \<and> j \<notin> sl_emptied (log_push s a g) \<longrightarrow> seq_view s' j = sent_entry (log_push s a g) j)"
      if j: "j < sn_limit" "j \<notin> sl_skipped (log_push s a g)" for j
      using v(3) [OF j(1)] e [of j] d(6,7) [OF j(1)] j(2) True by (cases "j = k") (auto simp: g)
    ultimately show ?thesis using v(1,2) d(8) by (simp add: seq_inv_def p(1-4))
  qed
qed

lemma inv_push:
  assumes "seq_inv s g" "sq_push s a = Some s'" "pa_ext_modified_sn a < sn_limit" "pa_ext_incoming_sn a \<noteq> 0"
    "pa_ext_modified_sn a = sq_ext_highest_sn s \<Longrightarrow> sn_offset_of s (sq_ext_highest_sn s) \<noteq> None"
  shows "seq_inv s' (log_push s a g)"
  using inv_push_new [OF assms(1,2) _ assms(3,4)] inv_push_old [OF assms(1,2) _ assms(5,4)]
  by (cases "sq_ext_highest_sn s < pa_ext_modified_sn a") (simp_all add: not_less)

lemma inv_pad:
  assumes inv: "seq_inv s g" and st: "st \<le> e" "e < sn_limit"
  shows "seq_inv (push_padding s st e) (log_pad s st e g)"
proof (cases "sq_sn_range_map s")
  case None
  then show ?thesis using inv by (simp add: push_padding_def log_pad_def)
next
  case (Some m)
  note d = seq_invD [OF inv] and i = seq_okD(1) [OF seq_invD(1) [OF inv]]
  let ?s = "push_padding s st e"
  show ?thesis
  proof (cases "st \<le> sq_ext_highest_sn s")
    case True
    note p = pad_old_view [OF d(1,2) Some True st]
    have g: "log_pad s st e g = g\<lparr>sl_emptied := sl_emptied g \<union> {j. padded_slot s st e (sq_slot s j)}\<rparr>"
      using True Some i by (simp add: log_pad_def)
    have "targets_ok ?s"
      by (rule targets_step [OF d(3), of _ packet_meta_zero]) (use p(3,4) in auto)
    moreover have "seq_view ?s j \<in> {None, sent_entry g j} \<and>
        (in_window ?s j \<and> j \<notin> sl_emptied (log_pad s st e g) \<longrightarrow> seq_view ?s j = sent_entry g j)"
      if "j < sn_limit" "j \<notin> sl_skipped g" for j
      using p(6,7) [OF that(1)] d(6,7) [OF that] by (auto simp: g p(5))
    moreover have "sn_offset_of ?s = sn_offset_of s" "sq_sn_offset ?s = sq_sn_offset s"
      by (rule p(8), rule p(9))
    ultimately show ?thesis using p(1-3) d(4,5,8) by (simp add: seq_inv_def g sent_entry_def)
  next
    case False
    then have h: "sq_ext_highest_sn s < st" by simp
    note p = pad_new_view [OF d(1,2) Some h st] and q = pad_new_state [OF d(1) Some h st]
    have g: "log_pad s st e g = g\<lparr>sl_skipped := sl_skipped g \<union> {j. sq_ext_highest_sn s < j \<and> j < st}\<rparr>"
      using False Some i by (simp add: log_pad_def)
    have le: "sq_ext_highest_sn s \<le> e" using h st(1) by simp
    have "targets_ok ?s"
      by (rule targets_step [OF d(3), of _ packet_meta_zero]) (use p(3,4) le in auto)
    moreover have "j \<le> e \<and> pa_ext_modified_sn b = j" if "sl_sent g j = Some b" for j b
      using d(4,5) [OF that] le by simp
    moreover have "seq_view ?s j \<in> {None, sent_entry g j} \<and>
        (in_window ?s j \<and> j \<notin> sl_emptied g \<longrightarrow> seq_view ?s j = sent_entry g j)"
      if j: "j < sn_limit" "j \<notin> sl_skipped g" "\<not> (sq_ext_highest_sn s < j \<and> j < st)" for j
    proof -
      have c: "j \<le> sq_ext_highest_sn s \<or> st \<le> j" using j(3) by (simp add: not_less)
      have "seq_view s j = sent_entry g j" if "in_window ?s j" "j \<notin> sl_emptied g" "st \<le> j"
      proof -
        have "\<not> j \<le> sq_ext_highest_sn s" using h that(3) by simp
        then have "sl_sent g j = None" using d(4) [of j] by (cases "sl_sent g j") auto
        then show ?thesis using d(6) [OF j(1,2)] by (simp add: sent_entry_def)
      qed
      then show ?thesis
        using p(6) [OF j(1) c] d(6) [OF j(1,2)] d(7) [OF j(1,2)] p(5) [of j] c by auto
    qed
    moreover have "sn_offset_of ?s e = None" using q(6) [of e] st(1) by (simp add: q(1) sn_offset_lookup)
    ultimately show ?thesis using p(1-3) by (simp add: seq_inv_def g sent_entry_def)
  qed
qed

lemma new_fresh: "new_sequencer n sparse now = Some (Some s) \<Longrightarrow> n < 2 ^ 31 \<Longrightarrow> seq_fresh s"
  by (auto simp: new_sequencer_def seq_fresh_def split: if_splits)

text \<open>The first packet.\<close>

lemma inv_first:
  assumes f: "seq_fresh s" and push: "sq_push s a = Some s'" and k: "pa_ext_modified_sn a < sn_limit"
    and src: "pa_ext_incoming_sn a \<noteq> 0"
  shows "seq_inv s' (log_push s a log_empty)"
proof -
  define t where "t = sq_initialize s a"
  let ?n = "sq_size s"
  have n: "0 < ?n" "?n < 2 ^ 31" using f by (simp_all add: seq_fresh_def)
  have t: "sq_initialized t" "sq_size t = ?n" "sq_meta t = replicate (nat ?n) packet_meta_zero"
    "sq_ext_highest_sn t = pa_ext_modified_sn a" "sq_ext_start_sn t = pa_ext_modified_sn a" "sq_sn_offset t = 0"
    "sq_sn_range_map t = sq_sn_range_map s"
    using f by (auto simp: t_def seq_fresh_def sq_initialize_def sq_update_sn_offset_def get_value_def
        new_range_map_def init_ranges_def split: if_splits)
  have hd: "rmap.head (new_range_map k) = 0" for k
    by (simp add: rm_head new_range_map_def init_ranges_def)
  have off: "sn_offset_of t j = Some 0" for j
    using f by (auto simp: sn_offset_of_def t get_value_def new_range_map_def init_ranges_def seq_fresh_def)
  have ok: "seq_ok t"
    using f n k new_range_map_dense by (auto simp: seq_ok_def t hd seq_fresh_def)
  have zero: "x = packet_meta_zero" if "x \<in> set (sq_meta t)" for x using that by (simp add: t)
  then have so: "sources_ok t" "targets_ok t" by (auto simp: sources_ok_def targets_ok_def)
  have empty: "seq_view t j = None" if "j < sn_limit" for j
    using view_entry [OF ok so(1) that] sq_slot_bound [OF ok, of j] zero by auto
  have "sq_push t a = Some s'"
    using push t(1) by (simp add: sq_push_def t_def [symmetric]) (simp add: sq_initialize_def)
  moreover have "seq_inv t log_empty"
    using ok so empty off t(6) by (simp add: seq_inv_def log_empty_def sent_entry_def)
  moreover have "log_push s a log_empty = log_push t a log_empty"
  proof -
    have "in_window t (pa_ext_modified_sn a)"
      using ok off n(1) by (simp add: in_window_def t sq_pos_def sq_top_def)
    then have "seq_takes s (pa_ext_modified_sn a) \<and> seq_takes t (pa_ext_modified_sn a)"
      using f t by (simp add: seq_takes_def seq_fresh_def)
    then show ?thesis by (simp add: log_push_def Let_def)
  qed
  ultimately show ?thesis using inv_push [of t log_empty a s'] k src off by simp
qed

lemma source_nonzero: "pm_source_seq_no m \<noteq> 0 \<Longrightarrow> m \<noteq> packet_meta_zero"
  by (auto simp: packet_meta_zero_def)

lemma inv_nack_one:
  assumes inv: "seq_inv s g" and one: "nack_one t sn s = Some (s', out)"
  shows "seq_inv s' g \<and> (\<forall>j < sn_limit. seq_view s' j = seq_view s j) \<and> (\<exists>M. s' = s\<lparr>sq_meta := M\<rparr>)"
proof (cases "nack_due s t sn")
  case False
  then have "s' = s"
    using one nack_underflow_none(1) [OF seq_invD(1,3) [OF inv]] nack_one_cases(1) [OF seq_invD(1) [OF inv]]
      nack_ext_sn_bounds(2) [OF seq_invD(1) [OF inv], of sn] by (cases "nack_underflow s sn") auto
  moreover have "s = s\<lparr>sq_meta := sq_meta s\<rparr>" by simp
  ultimately show ?thesis using inv by blast
next
  case True
  note d = seq_invD [OF inv]
  have nu: "\<not> nack_underflow s sn" using True nack_underflow_none(2) [OF d(1,3)] by blast
  note b = nack_ext_sn_bounds [OF d(1) nu] and c = nack_one_cases [OF d(1) nack_ext_sn_bounds(2) [OF d(1) nu], of t]
  let ?k = "nack_ext_sn s sn"
  let ?m = "sq_meta s ! sq_slot s ?k"
  have s': "s' = s\<lparr>sq_meta := (sq_meta s)[sq_slot s ?k := nacked_meta t ?m]\<rparr>" and v: "\<not> is_invalid_slot s (sq_slot s ?k)"
    using c one True by auto
  have sl: "sq_slot s ?k < length (sq_meta s)" by (rule sq_slot_bound [OF d(1)])
  have "?m \<noteq> packet_meta_zero" using v sl by (auto simp: is_invalid_slot_def packet_meta_zero_def)
  then have src: "pm_source_seq_no ?m \<noteq> 0" using d(2) sl by (auto simp: sources_ok_def)
  then have nz: "nacked_meta t ?m \<noteq> packet_meta_zero" "?m \<noteq> packet_meta_zero"
    using source_nonzero [of "nacked_meta t ?m"] source_nonzero [of ?m] by simp_all
  have ok': "seq_ok s'" unfolding s' by (rule seq_ok_meta' [OF d(1)])
  have sub: "set (sq_meta s') \<subseteq> insert (nacked_meta t ?m) (insert packet_meta_zero (set (sq_meta s)))"
    using set_update_subset_insert [of "sq_meta s" "sq_slot s ?k" "nacked_meta t ?m"] by (auto simp: s')
  have src': "sources_ok s'" using d(2) src sub unfolding sources_ok_def by fastforce
  have "targets_ok s'"
  proof (rule targets_step [OF d(3) sub])
    show "nacked_meta t ?m = packet_meta_zero \<or> (\<exists>k \<le> sq_ext_highest_sn s'. pm_target_seq_no (nacked_meta t ?m) = ucast k)"
      using d(3) sl nz(2) by (auto simp: targets_ok_def s')
  qed (simp add: s')
  moreover have view: "seq_view s' j = seq_view s j" if j: "j < sn_limit" for j
    using view_entry [OF ok' src' j] view_entry [OF d(1,2) j] nz sl by (cases "sq_slot s j = sq_slot s ?k") (simp_all add: s')
  ultimately show ?thesis using inv ok' src' unfolding seq_inv_def by (auto simp: s')
qed

lemma inv_nack_loop: "seq_inv s g \<Longrightarrow> nack_loop t sns s = Some (s', out) \<Longrightarrow>
    seq_inv s' g \<and> (\<forall>j < sn_limit. seq_view s' j = seq_view s j)"
proof (induction sns arbitrary: s out)
  case Nil
  then show ?case by simp
next
  case (Cons sn sns)
  from Cons.prems(2) obtain s1 o1 o2 where "nack_one t sn s = Some (s1, o1)" "nack_loop t sns s1 = Some (s', o2)"
    by (auto split: option.splits prod.splits)
  with inv_nack_one [OF Cons.prems(1)] Cons.IH [of s1 o2] show ?case by metis
qed

lemma inv_get: "seq_inv s g \<Longrightarrow> get_ext_packet_metas s now sns = Some (s', out) \<Longrightarrow> seq_inv s' g"
  using inv_nack_loop by (auto simp: get_ext_packet_metas_def split: if_splits)

lemma rtt_simps [simp]:
  "sn_offset_of (s\<lparr>sq_rtt := r\<rparr>) = sn_offset_of s" "slot_of (s\<lparr>sq_rtt := r\<rparr>) = slot_of s"
  "is_invalid_slot (s\<lparr>sq_rtt := r\<rparr>) = is_invalid_slot s" "make_ext_meta (s\<lparr>sq_rtt := r\<rparr>) = make_ext_meta s"
  "in_window (s\<lparr>sq_rtt := r\<rparr>) = in_window s"
  by (simp_all add: fun_eq_iff sn_offset_of_def slot_of_def is_invalid_slot_def make_ext_meta_def in_window_def sq_top_def sq_pos_def)

lemma lookup_rtt: "lookup_ext_packet_meta (s\<lparr>sq_rtt := r\<rparr>) k = lookup_ext_packet_meta s k"
  by (simp add: lookup_ext_packet_meta_def cong: option.case_cong if_cong)

lemma inv_rtt: "seq_inv s g \<Longrightarrow> seq_inv (set_rtt s rtt) g"
  by (simp add: seq_inv_def seq_ok_def sources_ok_def targets_ok_def set_rtt_def seq_view_def lookup_rtt cong: option.case_cong)

text \<open>A sequencer is as created, or has taken its first packet.\<close>

lemma history_inv: "seq_history s g \<Longrightarrow> if sq_initialized s then seq_inv s g else seq_fresh s \<and> g = log_empty"
proof (induction rule: seq_history.induct)
  case (hist_new n sparse now s)
  then have "seq_fresh s" by (rule new_fresh)
  then show ?case by (simp add: seq_fresh_def)
next
  case (hist_push s g a s')
  have "seq_inv s' (log_push s a g)"
    using hist_push.IH inv_first [OF _ hist_push.hyps(2-4)] inv_push [OF _ hist_push.hyps(2-5)]
    by (cases "sq_initialized s") auto
  then show ?case using seq_okD(1) [OF seq_invD(1)] by auto
next
  case (hist_pad s g st e)
  then show ?case
    using inv_pad [of s g st e] seq_okD(1) [OF seq_invD(1), of "push_padding s st e" "log_pad s st e g"]
    by (cases "sq_initialized s") (auto simp: push_padding_def log_pad_def split: option.splits)
next
  case (hist_nack s g now sns s' out)
  then show ?case
    using inv_get [of s g now sns s' out] seq_okD(1) [OF seq_invD(1), of s' g]
    by (cases "sq_initialized s") (auto simp: get_ext_packet_metas_def)
next
  case (hist_rtt s g rtt)
  then show ?case
    using inv_rtt [of s g rtt] by (auto simp: set_rtt_def seq_fresh_def split: if_splits)
qed

lemma reachable_inv: "seq_reachable s \<Longrightarrow> \<exists>g. seq_inv s g"
  using history_inv by (fastforce simp: seq_reachable_def)

lemma nack_one_total:
  assumes inv: "seq_inv s g"
  shows "\<exists>s' out. nack_one t sn s = Some (s', out) \<and>
    map em_ext_sequence_number out = (if nack_due s t sn then [nack_ext_sn s sn] else []) \<and>
    (\<forall>em \<in> set out. ucast (em_ext_sequence_number em) = sn \<and> em_ext_sequence_number em \<le> sq_ext_highest_sn s \<and>
      em_ext_sequence_number em < sn_limit \<and> pm_target_seq_no (em_meta em) = ucast (em_ext_sequence_number em) \<and>
      seq_view s (em_ext_sequence_number em) = Some (pm_base (em_meta em)) \<and>
      1 \<le> pm_nacked (em_meta em) \<and> pm_nacked (em_meta em) \<le> max_ack \<and> pm_last_nack (em_meta em) = t)"
proof (cases "nack_underflow s sn")
  case True
  then show ?thesis using nack_underflow_none [OF seq_invD(1,3) [OF inv]] by simp
next
  case False
  note d = seq_invD [OF inv]
  note b = nack_ext_sn_bounds [OF d(1) False] and c = nack_one_cases [OF d(1) nack_ext_sn_bounds(2) [OF d(1) False], of t]
  let ?k = "nack_ext_sn s sn"
  let ?m = "sq_meta s ! sq_slot s ?k"
  have inc: "1 \<le> x + 1 \<and> x + 1 \<le> max_ack" if "x < max_ack" for x :: u8
    using inc_nacked [OF that] by (simp add: word_le_nat_alt max_ack_def)
  show ?thesis
    using c seq_view_cases [OF d(1) b(2)] b inc [of "pm_nacked ?m"]
    by (auto simp: make_ext_meta_def Let_def)
qed

text \<open>Answering one request leaves the others as due as they were.\<close>

lemma nack_one_keeps_due:
  assumes inv: "seq_inv s g" and one: "nack_one t sn s = Some (s', out)" and ne: "sn' \<noteq> sn"
  shows "nack_due s' t sn' = nack_due s t sn'"
proof (cases "nack_due s t sn \<and> \<not> nack_underflow s sn'")
  case False
  note d = seq_invD [OF inv]
  have inv': "seq_inv s' g" using inv_nack_one [OF inv one] by blast
  show ?thesis
  proof (cases "nack_underflow s sn'")
    case True
    moreover have "nack_underflow s' sn'" using inv_nack_one [OF inv one] True by auto
    ultimately show ?thesis
      using nack_underflow_none(2) [OF d(1,3)] nack_underflow_none(2) [OF seq_invD(1,3) [OF inv']] by blast
  next
    case False
    with \<open>\<not> (nack_due s t sn \<and> \<not> nack_underflow s sn')\<close> have "\<not> nack_due s t sn" by simp
    then have "s' = s"
      using one nack_underflow_none(1) [OF d(1,3)] nack_one_cases(1) [OF d(1)]
        nack_ext_sn_bounds(2) [OF d(1), of sn] by (cases "nack_underflow s sn") auto
    then show ?thesis by simp
  qed
next
  case True
  note d = seq_invD [OF inv]
  have nu: "\<not> nack_underflow s sn" using True nack_underflow_none(2) [OF d(1,3)] by blast
  have nu': "\<not> nack_underflow s sn'" using True by blast
  note b = nack_ext_sn_bounds [OF d(1) nu] and b' = nack_ext_sn_bounds [OF d(1) nu']
  note c = nack_one_cases [OF d(1) b(2), of t] and c' = nack_one_cases [OF d(1) b'(2), of t]
  let ?k = "nack_ext_sn s sn" and ?k' = "nack_ext_sn s sn'"
  have s': "s' = s\<lparr>sq_meta := (sq_meta s)[sq_slot s ?k := nacked_meta t (sq_meta s ! sq_slot s ?k)]\<rparr>" and w: "in_window s ?k"
    using c one True by auto
  have ok': "seq_ok s'" unfolding s' by (rule seq_ok_meta' [OF d(1)])
  have e: "nack_ext_sn s' sn' = ?k'" by (simp add: s')
  note c'' = nack_one_cases(2) [OF ok', of sn' t, unfolded e, OF b'(2)]
  have "?k' \<noteq> ?k" using b(3) b'(3) ne by auto
  then have "in_window s ?k' \<Longrightarrow> sq_slot s ?k' \<noteq> sq_slot s ?k" using slot_inj [OF d(1) _ w] by blast
  moreover have "is_invalid_slot s' (sq_slot s ?k') = is_invalid_slot s (sq_slot s ?k')" if "sq_slot s ?k' \<noteq> sq_slot s ?k"
    using that by (simp add: is_invalid_slot_def s')
  ultimately show ?thesis unfolding c'(2) c'' by (auto simp: s')
qed

lemma nack_loop_total:
  "seq_inv s g \<Longrightarrow> \<exists>s' out. nack_loop t sns s = Some (s', out) \<and>
    (distinct sns \<longrightarrow> map em_ext_sequence_number out = map (nack_ext_sn s) (filter (nack_due s t) sns)) \<and>
    (\<forall>em \<in> set out. ucast (em_ext_sequence_number em) \<in> set sns \<and> em_ext_sequence_number em \<le> sq_ext_highest_sn s \<and>
      em_ext_sequence_number em < sn_limit \<and> pm_target_seq_no (em_meta em) = ucast (em_ext_sequence_number em) \<and>
      seq_view s (em_ext_sequence_number em) = Some (pm_base (em_meta em)) \<and>
      1 \<le> pm_nacked (em_meta em) \<and> pm_nacked (em_meta em) \<le> max_ack \<and> pm_last_nack (em_meta em) = t)"
proof (induction sns arbitrary: s)
  case Nil
  then show ?case by simp
next
  case (Cons sn sns)
  obtain s1 o1 where one: "nack_one t sn s = Some (s1, o1)"
    and E1: "map em_ext_sequence_number o1 = (if nack_due s t sn then [nack_ext_sn s sn] else [])"
    and P1: "\<forall>em \<in> set o1. ucast (em_ext_sequence_number em) = sn \<and> em_ext_sequence_number em \<le> sq_ext_highest_sn s \<and>
      em_ext_sequence_number em < sn_limit \<and> pm_target_seq_no (em_meta em) = ucast (em_ext_sequence_number em) \<and>
      seq_view s (em_ext_sequence_number em) = Some (pm_base (em_meta em)) \<and>
      1 \<le> pm_nacked (em_meta em) \<and> pm_nacked (em_meta em) \<le> max_ack \<and> pm_last_nack (em_meta em) = t"
    using nack_one_total [OF Cons.prems, of t sn] by blast
  obtain M where inv: "seq_inv s1 g" and view: "\<forall>j < sn_limit. seq_view s1 j = seq_view s j" and M: "s1 = s\<lparr>sq_meta := M\<rparr>"
    using inv_nack_one [OF Cons.prems one] by auto
  obtain s2 o2 where loop: "nack_loop t sns s1 = Some (s2, o2)"
    and E2: "distinct sns \<longrightarrow> map em_ext_sequence_number o2 = map (nack_ext_sn s1) (filter (nack_due s1 t) sns)"
    and P2: "\<forall>em \<in> set o2. ucast (em_ext_sequence_number em) \<in> set sns \<and> em_ext_sequence_number em \<le> sq_ext_highest_sn s1 \<and>
      em_ext_sequence_number em < sn_limit \<and> pm_target_seq_no (em_meta em) = ucast (em_ext_sequence_number em) \<and>
      seq_view s1 (em_ext_sequence_number em) = Some (pm_base (em_meta em)) \<and>
      1 \<le> pm_nacked (em_meta em) \<and> pm_nacked (em_meta em) \<le> max_ack \<and> pm_last_nack (em_meta em) = t"
    using Cons.IH [OF inv] by blast
  have "nack_loop t (sn # sns) s = Some (s2, o1 @ o2)" by (simp add: one loop)
  moreover have "map em_ext_sequence_number (o1 @ o2) = map (nack_ext_sn s) (filter (nack_due s t) (sn # sns))"
    if "distinct (sn # sns)"
  proof -
    have "filter (nack_due s1 t) sns = filter (nack_due s t) sns"
      by (rule filter_cong [OF refl], rule nack_one_keeps_due [OF Cons.prems one]) (use that in auto)
    with that E1 E2 show ?thesis by (simp add: M)
  qed
  moreover have "sq_ext_highest_sn s1 = sq_ext_highest_sn s" by (simp add: M)
  ultimately show ?case using P1 P2 view by (intro exI conjI) (assumption, blast, auto)
qed

section \<open>Properties\<close>

text \<open>
  C8. What \<open>push\<close> does to the memory of a sequencer that has taken a packet, after any history of
  pushes, paddings and requests, seen through \<open>lookupExtPacketMeta\<close>.  It does not panic.  A packet above the highest number is found under
  its own number afterwards; every older packet is still found unless the window of \<open>size\<close>
  packets (padding not counted) has passed it, and the numbers skipped are not found.  A late
  packet is added if it is not older than the start and still in the window, and changes
  nothing else.
\<close>

theorem push_updates_memory:
  assumes "seq_reachable s" "pa_ext_modified_sn a \<noteq> sq_ext_highest_sn s" "pa_ext_modified_sn a < sn_limit"
    "pa_ext_incoming_sn a \<noteq> 0"
  defines "k \<equiv> pa_ext_modified_sn a"
  shows "\<exists>s'. sq_push s a = Some s' \<and> (\<forall>j < sn_limit. seq_view s' j =
    (if sq_ext_highest_sn s < k
     then if j = k then Some (pm_base (pushed_meta s a))
          else if sq_pos s k - sq_pos s j \<ge> sq_size s then None else seq_view s j
     else if j = k \<and> sq_ext_start_sn s \<le> k \<and> in_window s k then Some (pm_base (pushed_meta s a))
     else seq_view s j))"
proof -
  have ok: "seq_ok s" "sources_ok s" using reachable_inv [OF assms(1)] by (auto simp: seq_inv_def)
  show ?thesis
  proof (cases "sq_ext_highest_sn s < k")
    case True
    obtain s' where push: "sq_push s a = Some s'" using push_new [OF ok(1) _ assms(3)] True by (auto simp: k_def)
    show ?thesis
      using push_new_view [OF ok _ assms(3,4) push] True push by (auto simp: k_def)
  next
    case False
    then have lt: "pa_ext_modified_sn a < sq_ext_highest_sn s" using assms(2) by (simp add: k_def)
    obtain s' where push: "sq_push s a = Some s'" using push_old [OF ok(1)] lt by blast
    show ?thesis
      using push_old_view [OF ok _ assms(4) push] lt push False by (auto simp: k_def)
  qed
qed

text \<open>
  C24. \<open>lookupExtPacketMeta\<close>, after any history of pushes, paddings (right after the highest
  number, with a gap, over old numbers) and requests, before the first packet too.  It does not
  panic.  What it finds carries the number asked for and is what was recorded of the last
  packet taken under that number, never the data of another one, unless a padding with a gap
  before it has passed over the number and no packet was taken under it since.  And it finds
  every packet that is in the window and whose slot no padding over old numbers has emptied.
  (The incoming numbers are not 0, and no packet is pushed under the number that padding was
  given last; a number passed over by padding may be answered with an old entry, see
  \<open>lookup_stale_entry\<close> below.)
\<close>

theorem lookup_is_right:
  assumes "seq_history s g" "k < sn_limit"
  shows "\<exists>r. lookup_ext_packet_meta s k = Some r \<and>
    (\<forall>em. r = Some em \<longrightarrow> em_ext_sequence_number em = k \<and>
      (k \<notin> sl_skipped g \<longrightarrow> (\<exists>a. sl_sent g k = Some a \<and> pa_ext_modified_sn a = k \<and>
        pm_base (em_meta em) = pm_base (pushed_meta s a)))) \<and>
    (sl_sent g k \<noteq> None \<and> in_window s k \<and> k \<notin> sl_skipped g \<union> sl_emptied g \<longrightarrow> r \<noteq> None)"
proof (cases "sq_initialized s")
  case False
  then have "g = log_empty" using history_inv [OF assms(1)] by simp
  then show ?thesis using False by (simp add: lookup_ext_packet_meta_def log_empty_def)
next
  case True
  then have inv: "seq_inv s g" using history_inv [OF assms(1)] by simp
  note d = seq_invD [OF inv]
  have "\<exists>a. sl_sent g k = Some a \<and> pa_ext_modified_sn a = k \<and> pm_base (em_meta em) = pm_base (pushed_meta s a)"
    if "lookup_ext_packet_meta s k = Some (Some em)" "k \<notin> sl_skipped g" for em
  proof -
    have "seq_view s k = Some (pm_base (em_meta em))" using that(1) by (simp add: seq_view_def)
    then have "sent_entry g k = Some (pm_base (em_meta em))" using d(6) [OF assms(2) that(2)] by auto
    then obtain a where "sl_sent g k = Some a" "pm_base (em_meta em) = pm_base (pushed_meta undefined a)"
      by (auto simp: sent_entry_def)
    then show ?thesis using d(5) base_pushed [of undefined a s] by auto
  qed
  moreover have "em_ext_sequence_number em = k" if "lookup_ext_packet_meta s k = Some (Some em)" for em
    using that by (auto simp: lookup_cases [OF d(1) assms(2)] make_ext_meta_def Let_def split: if_splits)
  moreover have "lookup_ext_packet_meta s k \<noteq> Some None"
    if "sl_sent g k \<noteq> None" "in_window s k" "k \<notin> sl_skipped g" "k \<notin> sl_emptied g"
    using d(7) [OF assms(2) that(3,2,4)] that(1) by (auto simp: seq_view_def sent_entry_def split: option.splits)
  ultimately show ?thesis by (auto simp: lookup_cases [OF d(1) assms(2)])
qed

text \<open>
  C39. \<open>getExtPacketMetas\<close>, after any such history, whatever the first number was.  It does not
  panic.  Every answer is for one of the numbers asked for, not above the highest one, with the
  entry of that very number (also for a number that a padding passed over); the entry is what
  was recorded of the last packet taken under the number, unless a padding passed over it; it is
  answered for the third time at most, now.  Of different numbers exactly those are answered
  that are found by \<open>lookupExtPacketMeta\<close> with an entry of their own, were answered less than
  three times and not within the spacing, in the order asked.  What is remembered does not
  change.
\<close>

theorem nack_answers_right:
  assumes "seq_history s g"
  shows "\<exists>s' out. get_ext_packet_metas s now sns = Some (s', out) \<and>
    (\<forall>em \<in> set out. let k = em_ext_sequence_number em in ucast k \<in> set sns \<and> k \<le> sq_ext_highest_sn s \<and>
      pm_target_seq_no (em_meta em) = ucast k \<and>
      (k \<notin> sl_skipped g \<longrightarrow> (\<exists>a. sl_sent g k = Some a \<and> pm_base (em_meta em) = pm_base (pushed_meta s a))) \<and>
      1 \<le> pm_nacked (em_meta em) \<and> pm_nacked (em_meta em) \<le> max_ack \<and>
      pm_last_nack (em_meta em) = get_ref_time s now) \<and>
    (distinct sns \<longrightarrow> map em_ext_sequence_number out =
      map (nack_ext_sn s) (filter (nack_due s (get_ref_time s now)) sns)) \<and>
    (\<forall>j < sn_limit. seq_view s' j = seq_view s j)"
proof (cases "sq_initialized s")
  case False
  then have "\<not> nack_due s t sn" for t sn by (simp add: nack_due_def lookup_ext_packet_meta_def)
  then show ?thesis using False by (simp add: get_ext_packet_metas_def)
next
  case True
  then have inv: "seq_inv s g" using history_inv [OF assms] by simp
  note d = seq_invD [OF inv]
  obtain s' out where l: "nack_loop (get_ref_time s now) sns s = Some (s', out)"
    and E: "distinct sns \<longrightarrow> map em_ext_sequence_number out = map (nack_ext_sn s) (filter (nack_due s (get_ref_time s now)) sns)"
    and P: "\<forall>em \<in> set out. ucast (em_ext_sequence_number em) \<in> set sns \<and> em_ext_sequence_number em \<le> sq_ext_highest_sn s \<and>
      em_ext_sequence_number em < sn_limit \<and> pm_target_seq_no (em_meta em) = ucast (em_ext_sequence_number em) \<and>
      seq_view s (em_ext_sequence_number em) = Some (pm_base (em_meta em)) \<and>
      1 \<le> pm_nacked (em_meta em) \<and> pm_nacked (em_meta em) \<le> max_ack \<and> pm_last_nack (em_meta em) = get_ref_time s now"
    using nack_loop_total [OF inv] by blast
  have sent: "\<exists>a. sl_sent g k = Some a \<and> m = pm_base (pushed_meta s a)"
    if "seq_view s k = Some m" "k < sn_limit" "k \<notin> sl_skipped g" for k m
    using d(6) [OF that(2,3)] that(1) base_pushed [of undefined _ s] by (cases "sl_sent g k") (auto simp: sent_entry_def)
  have "get_ext_packet_metas s now sns = Some (s', out)" using l True by (simp add: get_ext_packet_metas_def)
  moreover have "\<forall>em \<in> set out. let k = em_ext_sequence_number em in ucast k \<in> set sns \<and> k \<le> sq_ext_highest_sn s \<and>
      pm_target_seq_no (em_meta em) = ucast k \<and>
      (k \<notin> sl_skipped g \<longrightarrow> (\<exists>a. sl_sent g k = Some a \<and> pm_base (em_meta em) = pm_base (pushed_meta s a))) \<and>
      1 \<le> pm_nacked (em_meta em) \<and> pm_nacked (em_meta em) \<le> max_ack \<and> pm_last_nack (em_meta em) = get_ref_time s now"
    unfolding Let_def using P sent by blast
  ultimately show ?thesis using E inv_nack_loop [OF inv l] by blast
qed

text \<open>
  However often a packet is asked for, it is answered three times at most, and two
  requests within the spacing of \<open>min(100, 2 rtt)\<close> milliseconds are not both answered.
\<close>

lemma nack_throttled:
  assumes "seq_reachable s"
  shows "nack_answers s sn nows \<le> 3 \<and>
    (get_ref_time s now' - get_ref_time s now \<le> nack_spacing s \<longrightarrow> nack_answers s sn [now, now'] \<le> 1)"
proof -
  obtain g where inv: "seq_inv s g" using reachable_inv [OF assms] by blast
  note d = seq_invD [OF inv]
  show ?thesis
  proof (cases "nack_underflow s sn")
    case True
    then have "get_ext_packet_metas s t [sn] = Some (s, [])" for t
      using get_single [OF d(1)] nack_underflow_none(1) [OF d(1,3)] by simp
    moreover from this have "nack_answers s sn nows = 0" by (induction nows) simp_all
    ultimately show ?thesis by simp
  next
    case False
    note b = nack_ext_sn_bounds [OF d(1) False]
    let ?k = "nack_ext_sn s sn"
    let ?m' = "nacked_meta (get_ref_time s now) (sq_meta s ! sq_slot s ?k)"
    let ?s = "s\<lparr>sq_meta := (sq_meta s)[sq_slot s ?k := ?m']\<rparr>"
    have le1: "nack_answers s sn [now, now'] \<le> 1" if t: "get_ref_time s now' - get_ref_time s now \<le> nack_spacing s"
    proof (cases "nack_due s (get_ref_time s now) sn")
      case False
      then show ?thesis using nack_one_cases(1) [OF d(1) b(2)] get_single [OF d(1)] by simp
    next
      case True
      then have one: "nack_one (get_ref_time s now) sn s = Some (?s, [make_ext_meta s ?m' ?k])"
        using nack_one_cases(1) [OF d(1) b(2)] by simp
      have ok': "seq_ok ?s" by (rule seq_ok_meta' [OF d(1)])
      have "\<not> nack_due ?s (get_ref_time s now') sn"
        using nack_one_cases(2) [OF ok', of sn "get_ref_time s now'"] b(2) sq_slot_bound [OF d(1), of ?k] by (simp add: leD [OF t])
      then have "nack_one (get_ref_time s now') sn ?s = Some (?s, [])"
        using nack_one_cases(1) [OF ok', of sn "get_ref_time s now'"] b(2) by simp
      then show ?thesis using one get_single [OF d(1), of now sn] get_single [OF ok', of now' sn] by simp
    qed
    then show ?thesis using nack_answers_bound [OF d(1) b(2), of nows] by simp
  qed
qed

section \<open>Witnesses\<close>

definition sq_args :: "u64 \<Rightarrow> u64 \<Rightarrow> push_args" where
  "sq_args src sn = \<lparr>pa_packet_time = 0, pa_ext_incoming_sn = src, pa_ext_modified_sn = sn,
     pa_ext_modified_ts = sn, pa_marker = False, pa_layer = 0, pa_codec_bytes = [],
     pa_num_codec_bytes_in = 0, pa_dd_bytes = [], pa_act_bytes = []\<rparr>"

text \<open>
  A sequencer whose first number is 400, then 402, then padding 405 with a gap before it; the
  packets 403 and 404 were skipped.
\<close>

definition sq_fresh :: sequencer where
  "sq_fresh = the (the (new_sequencer 4 True 0))"

definition sq_first :: sequencer where
  "sq_first = the (sq_push sq_fresh (sq_args 7 400))"

definition sq_second :: sequencer where
  "sq_second = the (sq_push sq_first (sq_args 9 402))"

definition sq_padded :: sequencer where
  "sq_padded = push_padding sq_second 405 405"

definition padded_log :: seq_log where
  "padded_log = log_pad sq_second 405 405 (log_push sq_first (sq_args 9 402) (log_push sq_fresh (sq_args 7 400) log_empty))"

lemma sq_first_history: "seq_history sq_first (log_push sq_fresh (sq_args 7 400) log_empty)" "sq_initialized sq_first"
proof -
  have "new_sequencer 4 True 0 = Some (Some sq_fresh)" by (simp add: sq_fresh_def new_sequencer_def)
  then have h: "seq_history sq_fresh log_empty" by (rule hist_new) simp
  have p: "sq_push sq_fresh (sq_args 7 400) = Some sq_first" by code_simp
  have "sq_ext_highest_sn sq_fresh = 0" by code_simp
  with hist_push [OF h p] show "seq_history sq_first (log_push sq_fresh (sq_args 7 400) log_empty)"
    by (simp add: sq_args_def sn_limit_def)
  show "sq_initialized sq_first" by code_simp
qed

lemma sq_padded_history: "seq_history sq_padded padded_log"
proof -
  have p: "sq_push sq_first (sq_args 9 402) = Some sq_second" by code_simp
  have "sq_ext_highest_sn sq_first = 400" by code_simp
  with hist_push [OF sq_first_history(1) p]
  have "seq_history sq_second (log_push sq_first (sq_args 9 402) (log_push sq_fresh (sq_args 7 400) log_empty))"
    by (simp add: sq_args_def sn_limit_def)
  from hist_pad [OF this, of 405 405] show ?thesis by (simp add: sq_padded_def padded_log_def sn_limit_def)
qed

theorem push_updates_memory_witness:
  "\<exists>s'. sq_push sq_first (sq_args 9 402) = Some s' \<and>
     seq_view s' 402 = Some (pm_base (pushed_meta sq_first (sq_args 9 402))) \<and>
     seq_view s' 401 = seq_view sq_first 401"
proof -
  have h: "sq_ext_highest_sn sq_first = 400" "sq_pos sq_first 402 - sq_pos sq_first 401 < sq_size sq_first"
    by code_simp+
  have a: "pa_ext_modified_sn (sq_args 9 402) = 402" "pa_ext_incoming_sn (sq_args 9 402) = 9"
    by (simp_all add: sq_args_def)
  have r: "seq_reachable sq_first" using sq_first_history by (auto simp: seq_reachable_def)
  obtain s' where s': "sq_push sq_first (sq_args 9 402) = Some s'"
    and v: "\<forall>j < sn_limit. seq_view s' j =
      (if sq_ext_highest_sn sq_first < 402
       then if j = 402 then Some (pm_base (pushed_meta sq_first (sq_args 9 402)))
            else if sq_pos sq_first 402 - sq_pos sq_first j \<ge> sq_size sq_first then None else seq_view sq_first j
       else if j = 402 \<and> sq_ext_start_sn sq_first \<le> 402 \<and> in_window sq_first 402
       then Some (pm_base (pushed_meta sq_first (sq_args 9 402))) else seq_view sq_first j)"
    using push_updates_memory [OF r, of "sq_args 9 402"] unfolding a h(1)
    by (auto simp: sn_limit_def)
  have "(401 :: u64) < sn_limit" "(402 :: u64) < sn_limit" by (simp_all add: sn_limit_def)
  then show ?thesis using s' v h by (intro exI [of _ s']) simp
qed

theorem lookup_is_right_witness:
  "\<exists>em. lookup_ext_packet_meta sq_padded 402 = Some (Some em) \<and> em_ext_sequence_number em = 402 \<and>
     pm_base (em_meta em) = pm_base (pushed_meta sq_padded (sq_args 9 402))"
proof -
  let ?em = "the (the (lookup_ext_packet_meta sq_padded 402))"
  have l: "lookup_ext_packet_meta sq_padded 402 = Some (Some ?em)" by code_simp
  have t: "seq_takes sq_fresh 400" "seq_takes sq_first 402" "sq_initialized sq_second"
    "sq_sn_range_map sq_second \<noteq> None" "\<not> 405 \<le> sq_ext_highest_sn sq_second" "\<not> sq_ext_highest_sn sq_second < 402"
    by code_simp+
  have g: "sl_sent padded_log 402 = Some (sq_args 9 402)" "402 \<notin> sl_skipped padded_log"
    using t by (simp_all add: padded_log_def log_pad_def log_push_def Let_def sq_args_def log_empty_def)
  show ?thesis using lookup_is_right [OF sq_padded_history, of 402] l g by (auto simp: sn_limit_def)
qed

theorem nack_answers_right_witness:
  "\<exists>s' em. get_ext_packet_metas sq_padded 500000000 [402, 401, 403] = Some (s', [em]) \<and> pm_nacked (em_meta em) \<le> max_ack \<and>
     pm_target_seq_no (em_meta em) = ucast (em_ext_sequence_number em)"
proof -
  let ?r = "get_ext_packet_metas sq_padded 500000000 [402, 401, 403]"
  have r: "?r = Some (fst (the ?r), [hd (snd (the ?r))])" by code_simp
  obtain s' out where o: "?r = Some (s', out)" "\<forall>em \<in> set out. pm_nacked (em_meta em) \<le> max_ack \<and>
      pm_target_seq_no (em_meta em) = ucast (em_ext_sequence_number em)"
    using nack_answers_right [OF sq_padded_history, of 500000000 "[402, 401, 403]"] unfolding Let_def by blast
  have "out = [hd out]" using r o(1) by simp
  moreover from this have "hd out \<in> set out" by (metis list.set_intros(1))
  ultimately show ?thesis using o by metis
qed

section \<open>Two defects\<close>

text \<open>
  Padding recorded with a gap before it leaves the slots of the gap as they were, and
  \<open>lookupExtPacketMeta\<close>, unlike \<open>getExtPacketMetas\<close>, does not compare the number of the entry:
  it answers for 40004, which was never sent, with the packet 40000.
\<close>

definition sq_full :: sequencer where
  "sq_full = fold (\<lambda>sn s. the (sq_push s (sq_args 9 sn))) [40000, 40001, 40002, 40003] sq_fresh"

lemma lookup_stale_entry:
  "map_option (map_option (pm_target_seq_no \<circ> em_meta)) (lookup_ext_packet_meta (push_padding sq_full 40006 40006) 40004)
     = Some (Some 40000)"
  by code_simp

text \<open>
  Padding over an old number exactly \<open>size\<close> below the highest one empties the slot of the
  highest one: the test \<open>diff < -size\<close> lets it through.
\<close>

lemma old_padding_empties_highest:
  "lookup_ext_packet_meta sq_full 40003 \<noteq> Some None \<and>
   lookup_ext_packet_meta (push_padding sq_full 39999 39999) 40003 = Some None"
  by code_simp

end
