(* ===== verification/Vp8_Munger.thy ===== *)
theory Vp8_Munger
  imports Ext_Packet "HOL-Library.AList"
begin

text \<open>
  Rewriting of VP8 picture ids, TL0PICIDX and KEYIDX for one subscriber
  (\<open>pkg/sfu/codecmunger/vp8.go\<close>, \<open>null.go\<close>).  \<open>int32\<close> values are integers, with \<^const>\<open>i32\<close>
  at each operation that can leave the range.  The ordered maps are those of an external
  package: their operations are an argument \<open>omap_ops\<close>, and what is relied on is the locale
  \<open>ordered_map\<close>.
\<close>

section \<open>Ordered maps\<close>

record ('v, 'm) omap_ops =
  om_new :: 'm
  om_get :: "'m \<Rightarrow> int \<Rightarrow> 'v option"
  om_set :: "'m \<Rightarrow> int \<Rightarrow> 'v \<Rightarrow> 'm"
  om_len :: "'m \<Rightarrow> int"
  om_front :: "'m \<Rightarrow> int option"
  om_delete :: "'m \<Rightarrow> int \<Rightarrow> 'm"

text \<open>
  The documented behaviour of \<open>github.com/elliotchance/orderedmap\<close>: the elements in the order
  in which their keys were first set, \<open>Front\<close> the oldest one (nil if there is none).
\<close>

locale ordered_map =
  fixes ops :: "('v, 'm) omap_ops" and items :: "'m \<Rightarrow> (int \<times> 'v) list"
  assumes items_new: "items (om_new ops) = []"
    and get_items: "om_get ops m k = map_of (items m) k"
    and items_set: "items (om_set ops m k v) = AList.update k v (items m)"
    and len_items: "om_len ops m = int (length (items m))"
    and front_items: "om_front ops m = (case items m of [] \<Rightarrow> None | (k, _) # _ \<Rightarrow> Some k)"
    and items_delete: "items (om_delete ops m k) = filter (\<lambda>p. fst p \<noteq> k) (items m)"
begin

lemma get_new: "om_get ops (om_new ops) k = None"
  by (simp add: get_items items_new)

lemma len_new: "om_len ops (om_new ops) = 0"
  by (simp add: len_items items_new)

lemma get_set: "om_get ops (om_set ops m k v) k' = (if k' = k then Some v else om_get ops m k')"
  by (simp add: get_items items_set update_conv')

lemma len_set: "om_len ops (om_set ops m k v) \<le> om_len ops m + 1"
proof -
  have "length (AList.update k v xs) \<le> length xs + 1" for xs :: "(int \<times> 'v) list"
    by (induction xs) auto
  from this [of "items m"] show ?thesis by (simp add: len_items items_set)
qed

lemma len_nonneg: "0 \<le> om_len ops m"
  by (simp add: len_items)

lemma front_some: "0 < om_len ops m \<Longrightarrow> \<exists>k. om_front ops m = Some k \<and> om_len ops (om_delete ops m k) < om_len ops m"
proof -
  assume "0 < om_len ops m"
  then obtain k v xs where i: "items m = (k, v) # xs"
    by (cases "items m") (auto simp: len_items)
  have "length (filter (\<lambda>p. fst p \<noteq> k) xs) \<le> length xs" by (rule length_filter_le)
  then have "int (length (filter (\<lambda>p. fst p \<noteq> k) xs)) < 1 + int (length xs)" by linarith
  then show ?thesis by (simp add: i front_items len_items items_delete)
qed

lemma get_delete: "om_get ops (om_delete ops m k) k' \<in> {om_get ops m k', None}"
proof -
  have "map_of (filter (\<lambda>p. fst p \<noteq> k) xs) k' = (if k' = k then None else map_of xs k')" for xs :: "(int \<times> 'v) list"
    by (induction xs) auto
  then show ?thesis by (simp add: get_items items_delete)
qed

end

text \<open>An implementation with association lists.\<close>

definition omap_alist :: "('v, (int \<times> 'v) list) omap_ops" where
  "omap_alist = \<lparr>om_new = [], om_get = map_of, om_set = (\<lambda>m k v. AList.update k v m),
     om_len = (\<lambda>m. int (length m)), om_front = (\<lambda>m. case m of [] \<Rightarrow> None | (k, _) # _ \<Rightarrow> Some k),
     om_delete = (\<lambda>m k. filter (\<lambda>p. fst p \<noteq> k) m)\<rparr>"

interpretation omap_alist: ordered_map omap_alist id
  by unfold_locales (simp_all add: omap_alist_def)

text \<open>
  \<open>for m.Len() > threshold { el := m.Front(); m.Delete(el.Key) }\<close>: \<^const>\<open>None\<close> is the
  dereference of a nil element, or a loop that does not end.
\<close>

partial_function (option) omap_trim :: "('v, 'm) omap_ops \<Rightarrow> int \<Rightarrow> 'm \<Rightarrow> 'm option" where
  "omap_trim ops threshold m =
    (if om_len ops m > threshold
     then (case om_front ops m of None \<Rightarrow> None | Some k \<Rightarrow> omap_trim ops threshold (om_delete ops m k))
     else Some m)"

lemmas [code] = omap_trim.simps

context ordered_map begin

lemma trim_total:
  "0 \<le> th \<Longrightarrow> \<exists>m'. omap_trim ops th m = Some m' \<and> om_len ops m' \<le> th \<and>
     (\<forall>k. om_get ops m' k \<in> {om_get ops m k, None}) \<and> (om_len ops m \<le> th \<longrightarrow> m' = m)"
proof (induction "nat (om_len ops m)" arbitrary: m rule: less_induct)
  case less
  show ?case
  proof (cases "om_len ops m > th")
    case False
    then show ?thesis by (subst omap_trim.simps) auto
  next
    case True
    then obtain k where k: "om_front ops m = Some k" "om_len ops (om_delete ops m k) < om_len ops m"
      using front_some [of m] less.prems by fastforce
    have "nat (om_len ops (om_delete ops m k)) < nat (om_len ops m)"
      using k(2) len_nonneg [of "om_delete ops m k"] by linarith
    then obtain m' where "omap_trim ops th (om_delete ops m k) = Some m'" "om_len ops m' \<le> th"
      "\<forall>j. om_get ops m' j \<in> {om_get ops (om_delete ops m k) j, None}"
      using less.hyps less.prems by blast
    moreover have "om_get ops m' j \<in> {om_get ops m j, None}" for j
      using \<open>\<forall>j. _\<close> get_delete [of m k j] by (metis insert_iff singletonD)
    ultimately show ?thesis
      using True k by (intro exI [of _ m'] conjI; (subst omap_trim.simps)?) simp_all
  qed
qed

end

section \<open>Unwrapping picture ids\<close>

record wrap_handler =
  wh_max_picture_id :: int
  wh_max_m_bit :: bool
  wh_total_wrap :: int
  wh_last_wrap :: int

definition wrap_handler_zero :: wrap_handler where
  "wrap_handler_zero = \<lparr>wh_max_picture_id = 0, wh_max_m_bit = False, wh_total_wrap = 0, wh_last_wrap = 0\<rparr>"

definition wh_init :: "wrap_handler \<Rightarrow> int \<Rightarrow> bool \<Rightarrow> wrap_handler" where
  "wh_init v ext_picture_id m_bit = \<lparr>wh_max_picture_id = ext_picture_id, wh_max_m_bit = m_bit,
     wh_total_wrap = 0, wh_last_wrap = 0\<rparr>"

definition is_wrapping_7bit :: "int \<Rightarrow> int \<Rightarrow> bool" where
  "is_wrapping_7bit val1 val2 \<longleftrightarrow> val2 < val1 \<and> i32 (val1 - val2) > push_bit 6 1"

definition is_wrapping_15bit :: "int \<Rightarrow> int \<Rightarrow> bool" where
  "is_wrapping_15bit val1 val2 \<longleftrightarrow> val2 < val1 \<and> i32 (val1 - val2) > push_bit 14 1"

definition wh_unwrap :: "wrap_handler \<Rightarrow> u16 \<Rightarrow> bool \<Rightarrow> wrap_handler \<times> int" where
  "wh_unwrap v picture_id m_bit =
    (let max_id = (if wh_max_picture_id v > 0
                   then wh_max_picture_id v AND (if wh_max_m_bit v then 0x7fff else 0x7f)
                   else wh_max_picture_id v);
         new_id = uint (picture_id AND (if m_bit then 0x7fff else 0x7f))
     in if wh_total_wrap v > 0 \<and>
           i32 (wh_max_picture_id v + drop_bit 1 (wh_last_wrap v)) < i32 (new_id + wh_total_wrap v)
        then (v, i32 (i32 (new_id + wh_total_wrap v) - wh_last_wrap v))
        else let wrap = (if wh_max_m_bit v then if is_wrapping_15bit max_id new_id then push_bit 15 1 else 0
                         else if is_wrapping_7bit max_id new_id then push_bit 7 1 else 0);
                 v1 = v\<lparr>wh_total_wrap := i32 (wh_total_wrap v + wrap)\<rparr>;
                 v2 = (if wrap \<noteq> 0 then v1\<lparr>wh_last_wrap := wrap\<rparr> else v1)
             in (v2, i32 (new_id + wh_total_wrap v2)))"

definition wh_update_max :: "wrap_handler \<Rightarrow> int \<Rightarrow> bool \<Rightarrow> wrap_handler" where
  "wh_update_max v ext_picture_id m_bit = v\<lparr>wh_max_picture_id := ext_picture_id, wh_max_m_bit := m_bit\<rparr>"

section \<open>The munger\<close>

definition missing_picture_ids_threshold :: int where
  "missing_picture_ids_threshold = 50"

definition dropped_picture_ids_threshold :: int where
  "dropped_picture_ids_threshold = 20"

definition exempted_picture_ids_threshold :: int where
  "exempted_picture_ids_threshold = 20"

record ('mi, 'mb) vp8_munger =
  vm_wrap_handler :: wrap_handler
  vm_ext_last_picture_id :: int
  vm_picture_id_offset :: int
  vm_picture_id_used :: bool
  vm_last_tl0picidx :: u8
  vm_tl0picidx_offset :: u8
  vm_tl0picidx_used :: bool
  vm_tid_used :: bool
  vm_last_keyidx :: u8
  vm_keyidx_offset :: u8
  vm_keyidx_used :: bool
  vm_missing :: 'mi
  vm_dropped :: 'mb
  vm_exempted :: 'mb

text \<open>The operations of the maps, for values \<open>int32\<close> and \<open>bool\<close>.\<close>

record ('mi, 'mb) vm_env =
  ve_int :: "(int, 'mi) omap_ops"
  ve_bool :: "(bool, 'mb) omap_ops"

record vp8_munger_state =
  vs_ext_last_picture_id :: int
  vs_picture_id_used :: bool
  vs_last_tl0picidx :: u32
  vs_tl0picidx_used :: bool
  vs_tid_used :: bool
  vs_last_keyidx :: u32
  vs_keyidx_used :: bool

definition new_vp8_munger :: "('mi, 'mb) vm_env \<Rightarrow> ('mi, 'mb) vp8_munger" where
  "new_vp8_munger env = \<lparr>vm_wrap_handler = wrap_handler_zero, vm_ext_last_picture_id = 0,
     vm_picture_id_offset = 0, vm_picture_id_used = False, vm_last_tl0picidx = 0,
     vm_tl0picidx_offset = 0, vm_tl0picidx_used = False, vm_tid_used = False, vm_last_keyidx = 0,
     vm_keyidx_offset = 0, vm_keyidx_used = False, vm_missing = om_new (ve_int env),
     vm_dropped = om_new (ve_bool env), vm_exempted = om_new (ve_bool env)\<rparr>"

definition vm_get_state :: "('mi, 'mb) vp8_munger \<Rightarrow> vp8_munger_state" where
  "vm_get_state v = \<lparr>vs_ext_last_picture_id = vm_ext_last_picture_id v, vs_picture_id_used = vm_picture_id_used v,
     vs_last_tl0picidx = ucast (vm_last_tl0picidx v), vs_tl0picidx_used = vm_tl0picidx_used v,
     vs_tid_used = vm_tid_used v, vs_last_keyidx = ucast (vm_last_keyidx v), vs_keyidx_used = vm_keyidx_used v\<rparr>"

text \<open>A seed of another type, or nil, is \<^const>\<open>None\<close>.\<close>

definition vm_seed_state :: "('mi, 'mb) vp8_munger \<Rightarrow> vp8_munger_state option \<Rightarrow> ('mi, 'mb) vp8_munger" where
  "vm_seed_state v seed = (case seed of None \<Rightarrow> v
     | Some st \<Rightarrow> v\<lparr>vm_ext_last_picture_id := vs_ext_last_picture_id st, vm_picture_id_used := vs_picture_id_used st,
         vm_last_tl0picidx := ucast (vs_last_tl0picidx st), vm_tl0picidx_used := vs_tl0picidx_used st,
         vm_tid_used := vs_tid_used st, vm_last_keyidx := ucast (vs_last_keyidx st),
         vm_keyidx_used := vs_keyidx_used st\<rparr>)"

definition vm_set_last :: "('mi, 'mb) vp8_munger \<Rightarrow> 'dd ext_packet \<Rightarrow> ('mi, 'mb) vp8_munger" where
  "vm_set_last v p = (case ep_payload p of
     PayloadVP8 d \<Rightarrow>
       let v1 = v\<lparr>vm_picture_id_used := v8_I d\<rparr>;
           v2 = (if v8_I d then v1\<lparr>vm_wrap_handler := wh_init (vm_wrap_handler v) (uint (v8_picture_id d) - 1) (v8_M d),
                   vm_ext_last_picture_id := uint (v8_picture_id d)\<rparr> else v1);
           v3 = v2\<lparr>vm_tl0picidx_used := v8_L d\<rparr>;
           v4 = (if v8_L d then v3\<lparr>vm_last_tl0picidx := v8_tl0picidx d\<rparr> else v3);
           v5 = v4\<lparr>vm_tid_used := v8_T d, vm_keyidx_used := v8_K d\<rparr>
       in if v8_K d then v5\<lparr>vm_last_keyidx := v8_keyidx d\<rparr> else v5
   | _ \<Rightarrow> v)"

definition vm_update_offsets ::
  "('mi, 'mb) vm_env \<Rightarrow> ('mi, 'mb) vp8_munger \<Rightarrow> 'dd ext_packet \<Rightarrow> ('mi, 'mb) vp8_munger" where
  "vm_update_offsets env v p = (case ep_payload p of
     PayloadVP8 d \<Rightarrow>
       let pid = uint (v8_picture_id d);
           v1 = (if vm_picture_id_used v
                 then v\<lparr>vm_wrap_handler := wh_init (vm_wrap_handler v) (pid - 1) (v8_M d),
                        vm_picture_id_offset := i32 (i32 (pid - vm_ext_last_picture_id v) - 1)\<rparr> else v);
           v2 = (if vm_tl0picidx_used v1
                 then v1\<lparr>vm_tl0picidx_offset := v8_tl0picidx d - vm_last_tl0picidx v1 - 1\<rparr> else v1);
           v3 = (if vm_keyidx_used v2
                 then v2\<lparr>vm_keyidx_offset := (v8_keyidx d - vm_last_keyidx v2 - 1) AND 0x1f\<rparr> else v2)
       in v3\<lparr>vm_missing := om_new (ve_int env), vm_dropped := om_new (ve_bool env),
             vm_exempted := om_new (ve_bool env)\<rparr>
   | _ \<Rightarrow> v)"

text \<open>The packet header that is written: \<open>S\<close> keeps its zero value.\<close>

definition munged_vp8 :: "vp8 \<Rightarrow> u16 \<Rightarrow> u8 \<Rightarrow> u8 \<Rightarrow> vp8" where
  "munged_vp8 d pid tl0 keyidx = \<lparr>v8_first_byte = v8_first_byte d, v8_S = False, v8_I = v8_I d, v8_M = (pid > 127),
     v8_picture_id = pid, v8_L = v8_L d, v8_tl0picidx = tl0, v8_T = v8_T d, v8_tid = v8_tid d, v8_Y = v8_Y d,
     v8_K = v8_K d, v8_keyidx = keyidx,
     v8_header_size = v8_header_size d + vpx_picture_id_size_diff (pid > 127) (v8_M d),
     v8_is_key_frame = v8_is_key_frame d\<rparr>"

text \<open>\<open>uint16(x & 0x7fff)\<close>.\<close>

definition picture_id_of :: "int \<Rightarrow> u16" where
  "picture_id_of x = word_of_int (x AND 0x7fff)"

text \<open>The end of both branches: the header size of the input and the bytes, or the error.\<close>

definition vm_emit :: "vp8 \<Rightarrow> vp8 \<Rightarrow> (sfu_err + int \<times> u8 list) option" where
  "vm_emit d out = (case vp8_marshal out of
     None \<Rightarrow> None
   | Some (Inl e) \<Rightarrow> Some (Inl (ErrMarshal e))
   | Some (Inr bs) \<Rightarrow> Some (Inr (v8_header_size d, bs)))"

text \<open>
  \<open>for lost := prev; lost <= ext; lost++\<close>: every picture from the previous to the current one,
  if it was not dropped, is recorded with the current offset.
\<close>

partial_function (option) record_missing ::
  "('mi, 'mb) vm_env \<Rightarrow> 'mb \<Rightarrow> int \<Rightarrow> int \<Rightarrow> int \<Rightarrow> 'mi \<Rightarrow> 'mi option" where
  "record_missing env dropped off lost ext m =
    (if lost \<le> ext
     then record_missing env dropped off (i32 (lost + 1)) ext
       (if om_get (ve_bool env) dropped lost = None then om_set (ve_int env) m lost off else m)
     else Some m)"

lemmas [code] = record_missing.simps

definition vm_gap :: "('mi, 'mb) vm_env \<Rightarrow> ('mi, 'mb) vp8_munger \<Rightarrow> int \<Rightarrow> int \<Rightarrow> bool \<Rightarrow> ('mi, 'mb) vp8_munger option" where
  "vm_gap env v prev ext over = do {
     m \<leftarrow> record_missing env (vm_dropped v) (vm_picture_id_offset v) prev ext (vm_missing v);
     m' \<leftarrow> omap_trim (ve_int env) missing_picture_ids_threshold m;
     if over then do {
       x \<leftarrow> omap_trim (ve_bool env) exempted_picture_ids_threshold (om_set (ve_bool env) (vm_exempted v) ext True);
       Some (v\<lparr>vm_missing := m', vm_exempted := x\<rparr>) }
     else Some (v\<lparr>vm_missing := m'\<rparr>) }"

definition vm_drop :: "('mi, 'mb) vm_env \<Rightarrow> ('mi, 'mb) vp8_munger \<Rightarrow> vp8 \<Rightarrow> int \<Rightarrow> int \<Rightarrow> ('mi, 'mb) vp8_munger option" where
  "vm_drop env v d prev ext =
    (if v8_I d \<and> prev \<noteq> ext then do {
       x \<leftarrow> omap_trim (ve_bool env) dropped_picture_ids_threshold (om_set (ve_bool env) (vm_dropped v) ext True);
       Some (v\<lparr>vm_dropped := x, vm_picture_id_offset := i32 (vm_picture_id_offset v + 1)\<rparr>) }
     else Some v)"

definition vm_forward :: "('mi, 'mb) vp8_munger \<Rightarrow> vp8 \<Rightarrow> int \<Rightarrow> (('mi, 'mb) vp8_munger \<times> (sfu_err + int \<times> u8 list)) option" where
  "vm_forward v d ext =
    (let ext_munged = i32 (ext - vm_picture_id_offset v);
         pid = picture_id_of ext_munged;
         tl0 = v8_tl0picidx d - vm_tl0picidx_offset v;
         keyidx = (v8_keyidx d - vm_keyidx_offset v) AND 0x1f;
         v1 = v\<lparr>vm_ext_last_picture_id := ext_munged, vm_last_tl0picidx := tl0, vm_last_keyidx := keyidx\<rparr>
     in map_option (\<lambda>r. (v1, r)) (vm_emit d (munged_vp8 d pid tl0 keyidx)))"

definition vm_update_and_get ::
  "('mi, 'mb) vm_env \<Rightarrow> ('mi, 'mb) vp8_munger \<Rightarrow> 'dd ext_packet \<Rightarrow> bool \<Rightarrow> bool \<Rightarrow> int \<Rightarrow>
   (('mi, 'mb) vp8_munger \<times> (sfu_err + int \<times> u8 list)) option" where
  "vm_update_and_get env v p sn_out_of_order sn_has_gap max_temporal_layer =
    (case ep_payload p of
       PayloadVP8 d \<Rightarrow>
         (case wh_unwrap (vm_wrap_handler v) (v8_picture_id d) (v8_M d) of (wh, ext) \<Rightarrow>
            let v1 = v\<lparr>vm_wrap_handler := wh\<rparr>
            in if sn_out_of_order then
                 (case om_get (ve_int env) (vm_missing v1) ext of
                    None \<Rightarrow> Some (v1, Inl ErrOutOfOrderVP8PictureIdCacheMiss)
                  | Some off \<Rightarrow>
                      map_option (\<lambda>r. (v1, r)) (vm_emit d (munged_vp8 d (picture_id_of (i32 (ext - off)))
                        (v8_tl0picidx d - vm_tl0picidx_offset v1) (v8_keyidx d - vm_keyidx_offset v1))))
               else
                 let prev = wh_max_picture_id wh;
                     v2 = v1\<lparr>vm_wrap_handler := wh_update_max wh ext (v8_M d)\<rparr>;
                     over = vl_temporal (ep_layer p) > max_temporal_layer
                 in if sn_has_gap then
                      (case vm_gap env v2 prev ext over of None \<Rightarrow> None | Some v3 \<Rightarrow> vm_forward v3 d ext)
                    else if over \<and> om_get (ve_bool env) (vm_exempted v2) ext = None then
                      map_option (\<lambda>v3. (v3, Inl ErrFilteredVP8TemporalLayer)) (vm_drop env v2 d prev ext)
                    else vm_forward v2 d ext)
     | _ \<Rightarrow> Some (v, Inl ErrNotVP8))"

definition vm_update_and_get_padding ::
  "('mi, 'mb) vp8_munger \<Rightarrow> bool \<Rightarrow> (('mi, 'mb) vp8_munger \<times> (vp8_err + u8 list)) option" where
  "vm_update_and_get_padding v new_picture =
    (let offset = (if new_picture then 1 else 0 :: int);
         h0 = (if vm_picture_id_used v \<or> vm_tl0picidx_used v \<or> vm_tid_used v \<or> vm_keyidx_used v then 2 else 1 :: int);
         ext = (if vm_picture_id_used v then i32 (vm_ext_last_picture_id v + offset) else vm_ext_last_picture_id v);
         v1 = (if vm_picture_id_used v
               then v\<lparr>vm_ext_last_picture_id := ext, vm_picture_id_offset := i32 (vm_picture_id_offset v - offset)\<rparr>
               else v);
         h1 = (if vm_picture_id_used v then if ext AND 0x7fff > 127 then h0 + 2 else h0 + 1 else h0);
         pid = picture_id_of ext;
         tl0 = (if vm_tl0picidx_used v1 then vm_last_tl0picidx v1 + word_of_int offset else 0);
         v2 = (if vm_tl0picidx_used v1
               then v1\<lparr>vm_last_tl0picidx := tl0, vm_tl0picidx_offset := vm_tl0picidx_offset v1 - word_of_int offset\<rparr>
               else v1);
         h2 = (if vm_tl0picidx_used v1 then h1 + 1 else h1);
         h3 = (if vm_tid_used v2 \<or> vm_keyidx_used v2 then h2 + 1 else h2);
         keyidx = (if vm_keyidx_used v2 then (vm_last_keyidx v2 + word_of_int offset) AND 0x1f else 0);
         v3 = (if vm_keyidx_used v2
               then v2\<lparr>vm_last_keyidx := keyidx, vm_keyidx_offset := vm_keyidx_offset v2 - word_of_int offset\<rparr>
               else v2);
         d = \<lparr>v8_first_byte = 0x10, v8_S = False, v8_I = vm_picture_id_used v3, v8_M = (pid > 127), v8_picture_id = pid,
              v8_L = vm_tl0picidx_used v3, v8_tl0picidx = tl0, v8_T = vm_tid_used v3, v8_tid = 0, v8_Y = True,
              v8_K = vm_keyidx_used v3, v8_keyidx = keyidx, v8_header_size = h3, v8_is_key_frame = True\<rparr>
     in map_option (\<lambda>r. (v3, r)) (vp8_marshal d))"

section \<open>The codec munger interface\<close>

text \<open>The implementations of \<open>CodecMunger\<close>: \<open>Null\<close> keeps the seed it was given.\<close>

datatype ('mi, 'mb) codec_munger =
    CmNull "vp8_munger_state option"
  | CmVP8 "('mi, 'mb) vp8_munger"

fun cm_get_state :: "('mi, 'mb) codec_munger \<Rightarrow> vp8_munger_state option" where
  "cm_get_state (CmNull seed) = None"
| "cm_get_state (CmVP8 v) = Some (vm_get_state v)"

fun cm_seed_state :: "('mi, 'mb) codec_munger \<Rightarrow> vp8_munger_state option \<Rightarrow> ('mi, 'mb) codec_munger" where
  "cm_seed_state (CmNull _) seed = CmNull seed"
| "cm_seed_state (CmVP8 v) seed = CmVP8 (vm_seed_state v seed)"

fun new_vp8_from_other :: "('mi, 'mb) vm_env \<Rightarrow> ('mi, 'mb) codec_munger \<Rightarrow> ('mi, 'mb) vp8_munger" where
  "new_vp8_from_other env (CmNull seed) = vm_seed_state (new_vp8_munger env) seed"
| "new_vp8_from_other env (CmVP8 v) = vm_seed_state (new_vp8_munger env) (Some (vm_get_state v))"

fun cm_set_last :: "('mi, 'mb) codec_munger \<Rightarrow> 'dd ext_packet \<Rightarrow> ('mi, 'mb) codec_munger" where
  "cm_set_last (CmNull seed) p = CmNull seed"
| "cm_set_last (CmVP8 v) p = CmVP8 (vm_set_last v p)"

fun cm_update_offsets :: "('mi, 'mb) vm_env \<Rightarrow> ('mi, 'mb) codec_munger \<Rightarrow> 'dd ext_packet \<Rightarrow> ('mi, 'mb) codec_munger" where
  "cm_update_offsets env (CmNull seed) p = CmNull seed"
| "cm_update_offsets env (CmVP8 v) p = CmVP8 (vm_update_offsets env v p)"

fun cm_update_and_get ::
  "('mi, 'mb) vm_env \<Rightarrow> ('mi, 'mb) codec_munger \<Rightarrow> 'dd ext_packet \<Rightarrow> bool \<Rightarrow> bool \<Rightarrow> int \<Rightarrow>
   (('mi, 'mb) codec_munger \<times> (sfu_err + int \<times> u8 list)) option" where
  "cm_update_and_get env (CmNull seed) p ooo gap tlayer = Some (CmNull seed, Inr (0, []))"
| "cm_update_and_get env (CmVP8 v) p ooo gap tlayer =
     map_option (\<lambda>(v', r). (CmVP8 v', r)) (vm_update_and_get env v p ooo gap tlayer)"

fun cm_update_and_get_padding ::
  "('mi, 'mb) codec_munger \<Rightarrow> bool \<Rightarrow> (('mi, 'mb) codec_munger \<times> (vp8_err + u8 list)) option" where
  "cm_update_and_get_padding (CmNull seed) new_picture = Some (CmNull seed, Inr [])"
| "cm_update_and_get_padding (CmVP8 v) new_picture =
     map_option (\<lambda>(v', r). (CmVP8 v', r)) (vm_update_and_get_padding v new_picture)"

section \<open>Unwrapping finds the true picture number\<close>

definition pid_cycle :: "bool \<Rightarrow> int" where
  "pid_cycle m = (if m then 2 ^ 15 else 2 ^ 7)"

lemma pid_cycle_simps: "0 < pid_cycle m" "even (pid_cycle m)" "pid_cycle m \<le> 32768" "2 * (pid_cycle m div 2) = pid_cycle m"
  by (simp_all add: pid_cycle_def)

lemma i32_num: "- 2147483648 \<le> x \<Longrightarrow> x < 2147483648 \<Longrightarrow> i32 x = x"
  using i32_id [of x] by simp

text \<open>The handler has seen the true picture number \<open>T\<close> last (\<open>-1\<close> before the picture 0).\<close>

definition wh_rep :: "wrap_handler \<Rightarrow> bool \<Rightarrow> int \<Rightarrow> bool" where
  "wh_rep v m T \<longleftrightarrow> wh_max_picture_id v = T \<and> wh_max_m_bit v = m \<and> -1 \<le> T \<and> T < 1073741824 \<and>
     wh_total_wrap v = (if T < 0 then 0 else T - T mod pid_cycle m) \<and>
     wh_last_wrap v = (if wh_total_wrap v = 0 then 0 else pid_cycle m)"

lemma masked_id: "uint ((word_of_int X :: u16) AND (if m then 0x7fff else 0x7f)) = X mod pid_cycle m"
proof -
  have "uint ((word_of_int X :: u16) AND mask n) = X mod 2 ^ n" if "n \<le> 16" for n
  proof -
    have "(word_of_int X :: u16) AND mask n = take_bit n (word_of_int X)" by (simp add: take_bit_eq_mask)
    also have "uint (take_bit n (word_of_int X) :: u16) = take_bit n (uint (word_of_int X :: u16))"
      by (rule unsigned_take_bit_eq)
    also have "\<dots> = take_bit n X" using that by (simp add: unsigned_of_int take_bit_take_bit min_def)
    finally show ?thesis by (simp add: take_bit_eq_mod)
  qed
  from this [of 15] this [of 7] show ?thesis by (simp add: pid_cycle_def mask_eq_exp_minus_1)
qed

lemma masked_int: "(x::int) AND (if m then 0x7fff else 0x7f) = x mod pid_cycle m"
  using take_bit_eq_mask [of 15 x] take_bit_eq_mask [of 7 x]
  by (simp add: pid_cycle_def mask_eq_exp_minus_1 take_bit_eq_mod)

lemma wrapping_test: "(if m then is_wrapping_15bit a b else is_wrapping_7bit a b) \<longleftrightarrow>
    b < a \<and> i32 (a - b) > pid_cycle m div 2"
  by (simp add: is_wrapping_15bit_def is_wrapping_7bit_def pid_cycle_def)

lemma wh_unwrap_alt:
  "wh_unwrap v (word_of_int X) m =
    (let N = pid_cycle m; M = pid_cycle (wh_max_m_bit v);
         max_id = (if wh_max_picture_id v > 0 then wh_max_picture_id v mod M else wh_max_picture_id v);
         new_id = X mod N
     in if wh_total_wrap v > 0 \<and> i32 (wh_max_picture_id v + wh_last_wrap v div 2) < i32 (new_id + wh_total_wrap v)
        then (v, i32 (i32 (new_id + wh_total_wrap v) - wh_last_wrap v))
        else let wrap = (if new_id < max_id \<and> i32 (max_id - new_id) > M div 2 then M else 0);
                 v1 = v\<lparr>wh_total_wrap := i32 (wh_total_wrap v + wrap)\<rparr>;
                 v2 = (if wrap \<noteq> 0 then v1\<lparr>wh_last_wrap := wrap\<rparr> else v1)
             in (v2, i32 (new_id + wh_total_wrap v2)))"
proof -
  have "(if m' then if is_wrapping_15bit a b then push_bit 15 1 else 0
         else if is_wrapping_7bit a b then push_bit 7 1 else 0 :: int) =
    (if b < a \<and> i32 (a - b) > pid_cycle m' div 2 then pid_cycle m' else 0)" for m' a b
    by (cases m') (simp_all add: pid_cycle_def push_bit_eq_mult is_wrapping_15bit_def is_wrapping_7bit_def)
  moreover have "drop_bit 1 x = x div 2" for x :: int by (simp add: drop_bit_eq_div)
  ultimately show ?thesis
    unfolding wh_unwrap_def masked_id masked_int Let_def by simp
qed

lemma unwrap_shape:
  fixes X :: int
  assumes "wh_max_picture_id v = T" "wh_max_m_bit v = m" "0 \<le> T" "T < 1073741824"
    "wh_total_wrap v = t" "wh_last_wrap v = l" "0 \<le> t" "t \<le> T" "0 \<le> l" "l \<le> pid_cycle m"
  defines "a \<equiv> T mod pid_cycle m" and "b \<equiv> X mod pid_cycle m"
  shows "wh_unwrap v (word_of_int X) m =
    (if t > 0 \<and> T + l div 2 < b + t then (v, b + t - l)
     else if b < a \<and> pid_cycle m div 2 < a - b
     then (v\<lparr>wh_total_wrap := t + pid_cycle m, wh_last_wrap := pid_cycle m\<rparr>, b + t + pid_cycle m)
     else (v, b + t))"
proof -
  note N = pid_cycle_simps [of m]
  have r: "0 \<le> a" "a < pid_cycle m" "0 \<le> b" "b < pid_cycle m"
    using N(1) by (simp_all add: a_def b_def)
  have mid: "(if T > 0 then a else T) = a" using assms(3) by (cases "T = 0") (auto simp: a_def)
  have l2: "0 \<le> l div 2" "l div 2 \<le> l" using assms(9) by auto
  have i: "i32 (T + l div 2) = T + l div 2" "i32 (b + t) = b + t" "i32 (b + t - l) = b + t - l"
    "i32 (a - b) = a - b" "i32 (t + pid_cycle m) = t + pid_cycle m" "i32 t = t"
    "i32 (b + (t + pid_cycle m)) = b + (t + pid_cycle m)"
    using r assms(3,4,7-10) N(1,3) l2 by (auto intro!: i32_num)
  have same: "v\<lparr>wh_total_wrap := t\<rparr> = v" using assms(5) by (cases v) simp
  show ?thesis
    unfolding wh_unwrap_alt Let_def assms(1,2,5,6) a_def [symmetric] b_def [symmetric] mid
    using N(1) by (simp add: i same assms(5))
qed

lemma wh_repD:
  assumes "wh_rep v m T" "0 \<le> T"
  shows "wh_max_picture_id v = T" "wh_max_m_bit v = m" "T < 1073741824" "wh_total_wrap v = T - T mod pid_cycle m"
    "wh_last_wrap v = (if T - T mod pid_cycle m = 0 then 0 else pid_cycle m)"
  using assms by (auto simp: wh_rep_def)

lemma unwrap_at:
  fixes X :: int
  assumes rep: "wh_rep v m T" "0 \<le> T"
  defines "a \<equiv> T mod pid_cycle m" and "b \<equiv> X mod pid_cycle m"
  defines "l \<equiv> (if T - a = 0 then 0 else pid_cycle m)"
  shows "wh_unwrap v (word_of_int X) m =
    (if T - a > 0 \<and> T + l div 2 < b + (T - a) then (v, b + (T - a) - l)
     else if b < a \<and> pid_cycle m div 2 < a - b
     then (v\<lparr>wh_total_wrap := T - a + pid_cycle m, wh_last_wrap := pid_cycle m\<rparr>, b + (T - a) + pid_cycle m)
     else (v, b + (T - a)))"
  unfolding a_def b_def l_def
  by (rule unwrap_shape) (use wh_repD [OF rep] rep(2) pid_cycle_simps [of m] in \<open>auto simp: zmod_le_nonneg_dividend\<close>)

lemma unwrap_forward:
  assumes rep: "wh_rep v m T" and X: "T \<le> X" "0 \<le> X" "X - T < pid_cycle m div 2" "X < 1073741824"
  shows "\<exists>v'. wh_unwrap v (word_of_int X) m = (v', X) \<and> wh_max_picture_id v' = T \<and> wh_rep (wh_update_max v' X m) m X"
proof -
  define N where "N = pid_cycle m"
  note N = pid_cycle_simps [of m, folded N_def]
  show ?thesis
  proof (cases "T < 0")
    case True
    then have T: "T = -1" using rep by (simp add: wh_rep_def)
    then have "X < N" using X(3) N(1,4) unfolding N_def [symmetric] by linarith
    then have "X mod N = X" using X(2) by simp
    with T rep X show ?thesis
      by (simp add: wh_unwrap_alt Let_def i32_num wh_rep_def wh_update_max_def N_def)
  next
    case False
    then have T0: "0 \<le> T" by simp
    define a where "a = T mod N"
    define b where "b = X mod N"
    note d = wh_repD [OF rep T0, folded N_def, folded a_def]
    have r: "0 \<le> a" "a < N" "0 \<le> b" "b < N" "a \<le> T" using N(1) T0
      by (simp_all add: a_def b_def zmod_le_nonneg_dividend)
    have c: "X - b = T - a + (if b < a then N else 0)"
      unfolding a_def b_def by (rule forward_cycle) (use X N in \<open>simp_all add: N_def\<close>)
    have XT: "X - T < N div 2" using X(3) by (simp add: N_def)
    define l where "l = (if T - a = 0 then 0 else N)"
    have l: "l = 0 \<or> l = N" by (simp add: l_def)
    have nb: "\<not> T + l div 2 < b + (T - a)" if "0 < T - a"
      using that c r X(1) XT N l_def by (cases "b < a") simp_all
    note u = unwrap_at [OF rep T0, of X, folded N_def, folded a_def b_def, folded l_def]
    show ?thesis
    proof (cases "b < a")
      case True
      then have e: "b + (T - a) + N = X" using c by simp
      have w: "N div 2 < a - b" using e XT N by linarith
      have "wh_unwrap v (word_of_int X) m = (v\<lparr>wh_total_wrap := T - a + N, wh_last_wrap := N\<rparr>, X)"
        unfolding u using nb True w e by auto
      moreover have "T - a + N = X - b" using e by linarith
      moreover have "X - b \<noteq> 0" using e r N(1) by linarith
      ultimately show ?thesis
        using d X by (simp add: wh_rep_def wh_update_max_def b_def N_def)
    next
      case False
      then have e: "b + (T - a) = X" using c by simp
      have "wh_unwrap v (word_of_int X) m = (v, X)" unfolding u using nb False e by auto
      moreover have "T - a = X - b" using e by linarith
      ultimately show ?thesis
        using d X by (simp add: wh_rep_def wh_update_max_def b_def N_def)
    qed
  qed
qed

lemma unwrap_backward:
  assumes rep: "wh_rep v m T" and X: "0 \<le> X" "X < T" "T - X < pid_cycle m div 2"
  shows "wh_unwrap v (word_of_int X) m = (v, X)"
proof -
  define N where "N = pid_cycle m"
  note N = pid_cycle_simps [of m, folded N_def]
  have T0: "0 \<le> T" using X by simp
  define a where "a = T mod N"
  define b where "b = X mod N"
  have r: "0 \<le> a" "a < N" "0 \<le> b" "b < N" "a \<le> T" "b \<le> X" using N(1) T0 X(1)
    by (simp_all add: a_def b_def zmod_le_nonneg_dividend)
  have c: "X - b = T - a - (if a < N div 2 \<and> N div 2 \<le> b then N else 0)"
    unfolding a_def b_def by (rule backward_cycle) (use X N in \<open>simp_all add: N_def\<close>)
  have XT: "T - X < N div 2" using X(3) by (simp add: N_def)
  define l where "l = (if T - a = 0 then 0 else N)"
  note u = unwrap_at [OF rep T0, of X, folded N_def, folded a_def b_def, folded l_def]
  show ?thesis
  proof (cases "a < N div 2 \<and> N div 2 \<le> b")
    case True
    then have e: "b + (T - a) - N = X" using c by simp
    then have "0 < T - a" using r X(1) N(1) by linarith
    moreover from this have "l = N" by (simp add: l_def)
    moreover have "T + N div 2 < b + (T - a)" using e XT N by linarith
    ultimately show ?thesis unfolding u using e by simp
  next
    case False
    then have "X - b = T - a" using c by (simp only: if_False diff_0_right)
    then have e: "b + (T - a) = X" by simp
    have "0 \<le> l div 2" using N(1) by (simp add: l_def)
    then have "\<not> T + l div 2 < b + (T - a)" "\<not> N div 2 < a - b" using e X(2) XT by linarith+
    then show ?thesis unfolding u using e by simp
  qed
qed

text \<open>The id on the wire has 7 or 15 bits.\<close>

definition wire_id :: "bool \<Rightarrow> int \<Rightarrow> u16" where
  "wire_id m X = word_of_int (X mod pid_cycle m)"

lemma unwrap_wire: "wh_unwrap v (wire_id m X) m = wh_unwrap v (word_of_int X) m"
  unfolding wire_id_def wh_unwrap_alt by simp

section \<open>What is written\<close>

text \<open>The descriptor a receiver parses out of the bytes written for \<open>munged_vp8\<close>.\<close>

definition munged_norm :: "vp8 \<Rightarrow> u16 \<Rightarrow> u8 \<Rightarrow> u8 \<Rightarrow> vp8" where
  "munged_norm d pid tl0 k = \<lparr>v8_first_byte = v8_first_byte d, v8_S = bit (v8_first_byte d) 4, v8_I = v8_I d,
     v8_M = (pid > 127), v8_picture_id = pid, v8_L = v8_L d, v8_tl0picidx = (if v8_L d then tl0 else 0),
     v8_T = v8_T d, v8_tid = v8_tid d, v8_Y = v8_Y d, v8_K = v8_K d,
     v8_keyidx = (if v8_K d then k AND 0x1f else 0),
     v8_header_size = int (length (header_bytes (munged_vp8 d pid tl0 k))), v8_is_key_frame = False\<rparr>"

lemma norm_bytes: "header_bytes (munged_norm d pid tl0 k) = header_bytes (munged_vp8 d pid tl0 k)"
proof -
  have "has_extension (munged_norm d pid tl0 k) = has_extension (munged_vp8 d pid tl0 k)"
    by (simp add: has_extension_def munged_norm_def munged_vp8_def)
  moreover have "flags_byte (munged_norm d pid tl0 k) = flags_byte (munged_vp8 d pid tl0 k)"
    by (simp add: flags_byte_def munged_norm_def munged_vp8_def)
  moreover have "picture_id_bytes (munged_norm d pid tl0 k) = picture_id_bytes (munged_vp8 d pid tl0 k)"
    by (simp add: picture_id_bytes_def munged_norm_def munged_vp8_def)
  moreover have "v8_T d \<or> v8_K d \<Longrightarrow> tid_keyidx_byte (munged_norm d pid tl0 k) = tid_keyidx_byte (munged_vp8 d pid tl0 k)"
    by (simp add: tid_keyidx_byte_def munged_norm_def munged_vp8_def and.assoc)
  ultimately show ?thesis
    unfolding header_bytes_def by (simp add: munged_norm_def munged_vp8_def)
qed

lemma small_pid: "\<not> (pid :: u16) > 127 \<Longrightarrow> take_bit 7 pid = pid"
proof -
  assume "\<not> pid > 127"
  then have "uint pid \<le> 127" by (simp add: word_less_def)
  then have "take_bit 7 (uint pid) = uint pid" by (intro take_bit_int_eq_self) auto
  then have "uint (take_bit 7 pid) = uint pid" by (subst unsigned_take_bit_eq)
  then show ?thesis by (simp only: word_uint_eq_iff)
qed

lemma norm_canonical:
  assumes "vp8_canonical d" "v8_I d" "take_bit 15 pid = pid"
  shows "vp8_canonical (munged_norm d pid tl0 k)"
proof -
  note c = vp8_canonicalD [OF assms(1)]
  have e: "has_extension d" "has_extension (munged_norm d pid tl0 k)"
    using assms(2) by (simp_all add: has_extension_def munged_norm_def)
  have "v8_header_size (munged_norm d pid tl0 k) = int (length (header_bytes (munged_norm d pid tl0 k)))"
    by (simp add: norm_bytes) (simp add: munged_norm_def)
  moreover have "take_bit 5 (k AND 0x1f) = k AND 0x1f" by (simp add: masks)
  ultimately show ?thesis
    using c(2,3,7) e assms(2,3) small_pid [of pid]
    by (simp add: vp8_canonical_def) (auto simp: munged_norm_def)
qed

lemma emit_bytes:
  assumes "vp8_canonical d"
  shows "vm_emit d (munged_vp8 d pid tl0 k) = Some (Inr (v8_header_size d, header_bytes (munged_vp8 d pid tl0 k)))"
proof -
  have "v8_header_size (munged_vp8 d pid tl0 k) \<le> 8"
    using vp8_canonicalD(9) [OF assms] header_bytes_le [of d]
    by (simp add: munged_vp8_def vpx_picture_id_size_diff_def)
  from marshal_to_bytes [OF this] show ?thesis by (simp add: vm_emit_def)
qed

lemma emit_munged:
  assumes d: "vp8_canonical d" "v8_I d" and pid: "take_bit 15 pid = pid"
  shows "rest \<noteq> [] \<Longrightarrow> vp8_unmarshal vp8_zero (Some (header_bytes (munged_vp8 d pid tl0 k) @ rest)) =
      (None, (munged_norm d pid tl0 k)\<lparr>v8_is_key_frame := (\<not> bit (hd rest) 0 \<and> bit (v8_first_byte d) 4)\<rparr>)"
proof -
  have e: "has_extension (munged_norm d pid tl0 k)" using d(2) by (simp add: has_extension_def munged_norm_def)
  have "v8_S (munged_norm d pid tl0 k) = bit (v8_first_byte d) 4" by (simp add: munged_norm_def)
  then show "rest \<noteq> [] \<Longrightarrow> vp8_unmarshal vp8_zero (Some (header_bytes (munged_vp8 d pid tl0 k) @ rest)) =
      (None, (munged_norm d pid tl0 k)\<lparr>v8_is_key_frame := (\<not> bit (hd rest) 0 \<and> bit (v8_first_byte d) 4)\<rparr>)"
    using unmarshal_extended [OF norm_canonical [OF d pid] e] by (simp only: norm_bytes)
qed

lemma picture_id_15_bits: "take_bit 15 (picture_id_of x) = picture_id_of x"
proof -
  have "x AND 0x7fff = take_bit 15 x" using take_bit_eq_mask [of 15 x] by (simp add: mask_eq_exp_minus_1)
  then have "picture_id_of x = take_bit 15 (word_of_int x)"
    by (simp add: picture_id_of_def take_bit_of_int)
  then show ?thesis by simp
qed

text \<open>The bytes say: this picture, with these indices, and otherwise as the packet came in.\<close>

definition carries :: "u8 list \<Rightarrow> vp8 \<Rightarrow> u16 \<Rightarrow> u8 \<Rightarrow> u8 \<Rightarrow> bool" where
  "carries bs d pid tl0 k \<longleftrightarrow> (\<forall>rest. rest \<noteq> [] \<longrightarrow>
     vp8_unmarshal vp8_zero (Some (bs @ rest)) =
       (None, (munged_norm d pid tl0 k)\<lparr>v8_is_key_frame := (\<not> bit (hd rest) 0 \<and> bit (v8_first_byte d) 4)\<rparr>))"

lemma emit_total:
  assumes "vp8_canonical d"
  shows "\<exists>bs. vm_emit d (munged_vp8 d (picture_id_of x) tl0 k) = Some (Inr (v8_header_size d, bs)) \<and>
    (v8_I d \<longrightarrow> carries bs d (picture_id_of x) tl0 k)"
  using emit_bytes [OF assms] emit_munged [OF assms _ picture_id_15_bits] by (auto simp: carries_def)

section \<open>The invariant\<close>

text \<open>
  The last picture seen is \<open>T\<close>; the last picture id sent is \<open>T\<close> less the offset.  Picture
  numbers and offsets stay below \<open>2 ^ 30\<close>.
\<close>

definition vm_inv :: "('mi, 'mb) vp8_munger \<Rightarrow> bool \<Rightarrow> int \<Rightarrow> bool" where
  "vm_inv v m T \<longleftrightarrow> wh_rep (vm_wrap_handler v) m T \<and>
     vm_ext_last_picture_id v = T - vm_picture_id_offset v \<and>
     - 1073741824 < vm_picture_id_offset v \<and> vm_picture_id_offset v < 1073741824"

definition env_lawful :: "('mi, 'mb) vm_env \<Rightarrow> ('mi \<Rightarrow> (int \<times> int) list) \<Rightarrow> ('mb \<Rightarrow> (int \<times> bool) list) \<Rightarrow> bool" where
  "env_lawful env ii ib \<longleftrightarrow> ordered_map (ve_int env) ii \<and> ordered_map (ve_bool env) ib"

definition vm_bounded :: "('mi, 'mb) vm_env \<Rightarrow> ('mi, 'mb) vp8_munger \<Rightarrow> bool" where
  "vm_bounded env v \<longleftrightarrow> om_len (ve_int env) (vm_missing v) \<le> missing_picture_ids_threshold \<and>
     om_len (ve_bool env) (vm_dropped v) \<le> dropped_picture_ids_threshold \<and>
     om_len (ve_bool env) (vm_exempted v) \<le> exempted_picture_ids_threshold"

lemma record_missing_total:
  assumes "ordered_map (ve_int env) ii" "-1 \<le> lost" "ext < 2147483647"
  shows "\<exists>m'. record_missing env dr off lost ext m = Some m' \<and>
    (\<forall>k. om_get (ve_int env) m' k = (if lost \<le> k \<and> k \<le> ext \<and> om_get (ve_bool env) dr k = None
       then Some off else om_get (ve_int env) m k)) \<and>
    om_len (ve_int env) m' \<le> om_len (ve_int env) m + max 0 (ext - lost + 1)"
  using assms(2,3)
proof (induction "nat (ext + 1 - lost)" arbitrary: lost m)
  case 0
  then show ?case by (subst record_missing.simps) auto
next
  case (Suc n)
  note ordered_map.get_set [OF assms(1), simp]
  let ?m = "if om_get (ve_bool env) dr lost = None then om_set (ve_int env) m lost off else m"
  have i: "i32 (lost + 1) = lost + 1" using Suc.prems Suc.hyps(2) by (intro i32_num) linarith+
  have len: "om_len (ve_int env) ?m \<le> om_len (ve_int env) m + 1"
    using ordered_map.len_set [OF assms(1), of m lost off] by simp
  have le: "lost \<le> ext" using Suc.hyps(2) by linarith
  have n: "n = nat (ext + 1 - (lost + 1))" using Suc.hyps(2) by linarith
  obtain m' where m': "record_missing env dr off (lost + 1) ext ?m = Some m'"
    "\<forall>k. om_get (ve_int env) m' k = (if lost + 1 \<le> k \<and> k \<le> ext \<and> om_get (ve_bool env) dr k = None
       then Some off else om_get (ve_int env) ?m k)"
    "om_len (ve_int env) m' \<le> om_len (ve_int env) ?m + max 0 (ext - (lost + 1) + 1)"
    using Suc.hyps(1) [of "lost + 1" ?m, OF n] Suc.prems by fastforce
  have "record_missing env dr off lost ext m = Some m'"
    using le m'(1) by (subst record_missing.simps) (simp add: i)
  moreover have "om_get (ve_int env) m' k = (if lost \<le> k \<and> k \<le> ext \<and> om_get (ve_bool env) dr k = None
       then Some off else om_get (ve_int env) m k)" for k
    using m'(2) le by (cases "k = lost") auto
  moreover have "om_len (ve_int env) m' \<le> om_len (ve_int env) m + max 0 (ext - lost + 1)"
    using m'(3) len le by linarith
  ultimately show ?case by blast
qed

lemma gap_total:
  assumes env: "env_lawful env ii ib" and b: "vm_bounded env v" and r: "-1 \<le> prev" "ext < 2147483647"
  shows "\<exists>v'. vm_gap env v prev ext over = Some v' \<and> vm_bounded env v' \<and>
    v' = v\<lparr>vm_missing := vm_missing v', vm_exempted := vm_exempted v'\<rparr> \<and>
    (om_len (ve_int env) (vm_missing v) + max 0 (ext - prev + 1) \<le> missing_picture_ids_threshold \<longrightarrow>
      (\<forall>k. prev \<le> k \<and> k \<le> ext \<and> om_get (ve_bool env) (vm_dropped v) k = None \<longrightarrow>
         om_get (ve_int env) (vm_missing v') k = Some (vm_picture_id_offset v)))"
proof -
  have oi: "ordered_map (ve_int env) ii" and ob: "ordered_map (ve_bool env) ib"
    using env by (simp_all add: env_lawful_def)
  obtain m where m: "record_missing env (vm_dropped v) (vm_picture_id_offset v) prev ext (vm_missing v) = Some m"
    "\<forall>k. om_get (ve_int env) m k = (if prev \<le> k \<and> k \<le> ext \<and> om_get (ve_bool env) (vm_dropped v) k = None
       then Some (vm_picture_id_offset v) else om_get (ve_int env) (vm_missing v) k)"
    "om_len (ve_int env) m \<le> om_len (ve_int env) (vm_missing v) + max 0 (ext - prev + 1)"
    using record_missing_total [OF oi r] by blast
  have th: "0 \<le> missing_picture_ids_threshold" "0 \<le> exempted_picture_ids_threshold"
    by (simp_all add: missing_picture_ids_threshold_def exempted_picture_ids_threshold_def)
  obtain m' where m': "omap_trim (ve_int env) missing_picture_ids_threshold m = Some m'"
    "om_len (ve_int env) m' \<le> missing_picture_ids_threshold"
    "om_len (ve_int env) m \<le> missing_picture_ids_threshold \<longrightarrow> m' = m"
    using ordered_map.trim_total [OF oi th(1)] by blast
  obtain x where x: "omap_trim (ve_bool env) exempted_picture_ids_threshold (om_set (ve_bool env) (vm_exempted v) ext True) = Some x"
    "om_len (ve_bool env) x \<le> exempted_picture_ids_threshold"
    using ordered_map.trim_total [OF ob th(2)] by blast
  show ?thesis
    using m m' x b by (cases over) (auto simp: vm_gap_def vm_bounded_def)
qed

lemma drop_total:
  assumes env: "env_lawful env ii ib" and b: "vm_bounded env v"
  shows "\<exists>v'. vm_drop env v d prev ext = Some v' \<and> vm_bounded env v' \<and>
    v' = v\<lparr>vm_dropped := vm_dropped v', vm_picture_id_offset := vm_picture_id_offset v'\<rparr> \<and>
    vm_picture_id_offset v' = (if v8_I d \<and> prev \<noteq> ext then i32 (vm_picture_id_offset v + 1) else vm_picture_id_offset v)"
proof -
  have ob: "ordered_map (ve_bool env) ib" using env by (simp add: env_lawful_def)
  have th: "0 \<le> dropped_picture_ids_threshold" by (simp add: dropped_picture_ids_threshold_def)
  obtain x where "omap_trim (ve_bool env) dropped_picture_ids_threshold (om_set (ve_bool env) (vm_dropped v) ext True) = Some x"
    "om_len (ve_bool env) x \<le> dropped_picture_ids_threshold"
    using ordered_map.trim_total [OF ob th] by blast
  with b show ?thesis by (auto simp: vm_drop_def vm_bounded_def)
qed

lemma forward_total:
  assumes c: "vp8_canonical d"
  shows "\<exists>v' bs. vm_forward v d ext = Some (v', Inr (v8_header_size d, bs)) \<and>
    v' = v\<lparr>vm_ext_last_picture_id := i32 (ext - vm_picture_id_offset v), vm_last_tl0picidx := v8_tl0picidx d - vm_tl0picidx_offset v,
      vm_last_keyidx := (v8_keyidx d - vm_keyidx_offset v) AND 0x1f\<rparr> \<and>
    (v8_I d \<longrightarrow> carries bs d (picture_id_of (i32 (ext - vm_picture_id_offset v)))
      (v8_tl0picidx d - vm_tl0picidx_offset v) ((v8_keyidx d - vm_keyidx_offset v) AND 0x1f))"
  using emit_total [OF c] unfolding vm_forward_def Let_def by fastforce

section \<open>Packets in order\<close>

lemma vm_invD:
  assumes "vm_inv v m T"
  shows "wh_rep (vm_wrap_handler v) m T" "vm_ext_last_picture_id v = T - vm_picture_id_offset v"
    "- 1073741824 < vm_picture_id_offset v" "vm_picture_id_offset v < 1073741824"
  using assms by (simp_all add: vm_inv_def)

lemmas env_maps = env_lawful_def [THEN iffD1, THEN conjunct1] env_lawful_def [THEN iffD1, THEN conjunct2]

text \<open>The picture numbers of a packet that is not out of order and follows picture \<open>T\<close>.\<close>

definition next_picture :: "vp8 \<Rightarrow> bool \<Rightarrow> int \<Rightarrow> int \<Rightarrow> bool" where
  "next_picture d m T X \<longleftrightarrow> vp8_canonical d \<and> v8_I d \<and> v8_M d = m \<and> v8_picture_id d = wire_id m X \<and>
     T \<le> X \<and> 0 \<le> X \<and> X - T < pid_cycle m div 2 \<and> X < 1073741824"

text \<open>The packet is sent as picture \<open>Y\<close>: these are its bytes.\<close>

definition sent_as :: "('mi, 'mb) vp8_munger \<Rightarrow> vp8 \<Rightarrow> int \<Rightarrow> sfu_err + int \<times> u8 list \<Rightarrow> bool" where
  "sent_as v d Y r \<longleftrightarrow> (\<exists>bs. r = Inr (v8_header_size d, bs) \<and>
     carries bs d (picture_id_of Y) (v8_tl0picidx d - vm_tl0picidx_offset v) ((v8_keyidx d - vm_keyidx_offset v) AND 0x1f))"

text \<open>The state between unwrapping a packet in order and treating it.\<close>

lemma in_order_unwrap:
  assumes rep: "wh_rep (vm_wrap_handler v) m T" and p: "ep_payload p = PayloadVP8 d" and X: "next_picture d m T X"
  shows "\<exists>v2. wh_rep (vm_wrap_handler v2) m X \<and> v2 = v\<lparr>vm_wrap_handler := vm_wrap_handler v2\<rparr> \<and>
    (\<forall>gap. vm_update_and_get env v p False gap ml =
      (if gap then (case vm_gap env v2 T X (vl_temporal (ep_layer p) > ml) of None \<Rightarrow> None | Some v3 \<Rightarrow> vm_forward v3 d X)
       else if vl_temporal (ep_layer p) > ml \<and> om_get (ve_bool env) (vm_exempted v) X = None
       then map_option (\<lambda>v3. (v3, Inl ErrFilteredVP8TemporalLayer)) (vm_drop env v2 d T X)
       else vm_forward v2 d X))"
proof -
  note n = X [unfolded next_picture_def]
  obtain wh where wh: "wh_unwrap (vm_wrap_handler v) (wire_id m X) m = (wh, X)" "wh_max_picture_id wh = T"
    "wh_rep (wh_update_max wh X m) m X"
    using unwrap_forward [OF rep] n unfolding unwrap_wire by blast
  show ?thesis
    using n wh by (intro exI [of _ "v\<lparr>vm_wrap_handler := wh_update_max wh X m\<rparr>"])
      (auto simp: vm_update_and_get_def p Let_def)
qed

lemma same_but_handler:
  assumes "v2 = v\<lparr>vm_wrap_handler := w\<rparr>"
  shows "vm_bounded env v2 = vm_bounded env v" "sent_as v2 = sent_as v" "vm_picture_id_offset v2 = vm_picture_id_offset v"
    "vm_ext_last_picture_id v2 = vm_ext_last_picture_id v" "vm_missing v2 = vm_missing v" "vm_dropped v2 = vm_dropped v"
    "vm_exempted v2 = vm_exempted v"
  using assms by (simp_all add: vm_bounded_def sent_as_def [abs_def])

lemma forward_keeps:
  assumes "wh_rep (vm_wrap_handler v) m X" "- 1073741824 < vm_picture_id_offset v" "vm_picture_id_offset v < 1073741824"
    "vp8_canonical d" "v8_I d" "0 \<le> X"
  shows "\<exists>v' r. vm_forward v d X = Some (v', r) \<and> sent_as v d (X - vm_picture_id_offset v) r \<and> vm_inv v' m X \<and>
    vm_missing v' = vm_missing v \<and> vm_dropped v' = vm_dropped v \<and> vm_exempted v' = vm_exempted v \<and>
    vm_picture_id_offset v' = vm_picture_id_offset v"
proof -
  have "i32 (X - vm_picture_id_offset v) = X - vm_picture_id_offset v"
    using assms by (intro i32_num) (auto simp: wh_rep_def)
  with forward_total [OF assms(4), of v X] assms show ?thesis
    by (auto simp: sent_as_def vm_inv_def)
qed

text \<open>
  C13. A packet in sequence, of the picture last seen or of the next one: nothing panics.  A
  packet above the wanted temporal layer is filtered and leaves the last picture id sent as it
  is; any other is sent with the last picture id sent, plus one if its picture is new, however
  many pictures were filtered before and whatever the wrap-around of the 7 or 15 bit ids:
  the receiver parses that id, and the rest of the descriptor with the offsets applied.
\<close>

theorem vp8_in_order:
  assumes env: "env_lawful env ii ib" and b: "vm_bounded env v" and inv: "vm_inv v m T"
    and p: "ep_payload p = PayloadVP8 d" and X: "next_picture d m T X" "X \<le> T + 1"
    and room: "vm_picture_id_offset v < 1073741823"
  shows "\<exists>v' r. vm_update_and_get env v p False False max_temporal = Some (v', r) \<and>
    vm_inv v' m X \<and> vm_bounded env v' \<and>
    (if vl_temporal (ep_layer p) > max_temporal \<and> om_get (ve_bool env) (vm_exempted v) X = None
     then r = Inl ErrFilteredVP8TemporalLayer \<and> vm_ext_last_picture_id v' = vm_ext_last_picture_id v
     else sent_as v d (vm_ext_last_picture_id v + (X - T)) r \<and>
       vm_ext_last_picture_id v' = vm_ext_last_picture_id v + (X - T))"
proof -
  note i = vm_invD [OF inv] and n = X(1) [unfolded next_picture_def]
  obtain v2 where wh: "wh_rep (vm_wrap_handler v2) m X" and v2': "v2 = v\<lparr>vm_wrap_handler := vm_wrap_handler v2\<rparr>"
    and step: "vm_update_and_get env v p False False max_temporal =
    (if vl_temporal (ep_layer p) > max_temporal \<and> om_get (ve_bool env) (vm_exempted v) X = None
     then map_option (\<lambda>v3. (v3, Inl ErrFilteredVP8TemporalLayer)) (vm_drop env v2 d T X)
     else vm_forward v2 d X)"
    using in_order_unwrap [OF i(1) p X(1), of env max_temporal] by auto
  note v2 = same_but_handler [OF v2']
  have b2: "vm_bounded env v2" using b v2(1) by blast
  show ?thesis
  proof (cases "vl_temporal (ep_layer p) > max_temporal \<and> om_get (ve_bool env) (vm_exempted v) X = None")
    case True
    obtain v3 where v3: "vm_drop env v2 d T X = Some v3" "vm_bounded env v3"
      "v3 = v2\<lparr>vm_dropped := vm_dropped v3, vm_picture_id_offset := vm_picture_id_offset v3\<rparr>"
      "vm_picture_id_offset v3 = (if v8_I d \<and> T \<noteq> X then i32 (vm_picture_id_offset v2 + 1) else vm_picture_id_offset v2)"
      using drop_total [OF env b2] by blast
    have w: "vm_wrap_handler v3 = vm_wrap_handler v2" "vm_ext_last_picture_id v3 = vm_ext_last_picture_id v2"
      by (subst v3(3), simp)+
    have off: "vm_picture_id_offset v3 = vm_picture_id_offset v + (X - T)"
      using v3(4) n X(2) v2(3) i(3,4) by (auto simp: i32_num)
    have "vm_inv v3 m X"
      using w off v2 wh i room n X(2) by (auto simp: vm_inv_def)
    with True step v3 w v2 i(2) show ?thesis by simp
  next
    case False
    obtain v' r where f: "vm_forward v2 d X = Some (v', r)" "sent_as v2 d (X - vm_picture_id_offset v2) r" "vm_inv v' m X"
      "vm_missing v' = vm_missing v2" "vm_dropped v' = vm_dropped v2" "vm_exempted v' = vm_exempted v2"
      "vm_picture_id_offset v' = vm_picture_id_offset v2"
      using forward_keeps [of v2 m X d] v2 wh i n by auto
    have b': "vm_bounded env v'" using f b2 by (simp add: vm_bounded_def)
    have e: "X - vm_picture_id_offset v = vm_ext_last_picture_id v + (X - T)" using i(2) by simp
    have "vm_ext_last_picture_id v' = vm_ext_last_picture_id v + (X - T)"
      using vm_invD(2) [OF f(3)] e f(7) v2(3) by simp
    then show ?thesis
      unfolding if_not_P [OF False] step
      using f(1) f(2) [unfolded v2(2,3) e] f(3) b' by blast
  qed
qed

section \<open>A stream of picture ids\<close>

text \<open>What \<open>Unwrap\<close> answers over a stream of (late?, id on the wire).\<close>

fun wh_run :: "wrap_handler \<Rightarrow> bool \<Rightarrow> (bool \<times> u16) list \<Rightarrow> int list" where
  "wh_run v m [] = []"
| "wh_run v m ((late, w) # es) = (case wh_unwrap v w m of
     (v', x) \<Rightarrow> x # wh_run (if late then v' else wh_update_max v' x m) m es)"

text \<open>True picture numbers: each within half a cycle of the last one that was not late.\<close>

fun pictures_ok :: "bool \<Rightarrow> int \<Rightarrow> (bool \<times> int) list \<Rightarrow> bool" where
  "pictures_ok m T [] \<longleftrightarrow> True"
| "pictures_ok m T ((late, X) # es) \<longleftrightarrow> 0 \<le> X \<and> X < 1073741824 \<and>
     (if late then X < T \<and> T - X < pid_cycle m div 2 \<and> pictures_ok m T es
      else T \<le> X \<and> X - T < pid_cycle m div 2 \<and> pictures_ok m X es)"

lemma run_tracks:
  "wh_rep v m T \<Longrightarrow> pictures_ok m T es \<Longrightarrow> wh_run v m (map (\<lambda>(late, X). (late, wire_id m X)) es) = map snd es"
proof (induction es arbitrary: v T)
  case Nil
  then show ?case by simp
next
  case (Cons e es)
  obtain late X where e: "e = (late, X)" by (cases e)
  show ?case
  proof (cases late)
    case True
    with Cons.prems e have "wh_unwrap v (wire_id m X) m = (v, X)" by (auto intro!: unwrap_backward simp: unwrap_wire)
    with Cons e True show ?thesis by simp
  next
    case False
    with Cons.prems e obtain v' where "wh_unwrap v (wire_id m X) m = (v', X)" "wh_rep (wh_update_max v' X m) m X"
      using unwrap_forward [OF Cons.prems(1), of X] by (auto simp: unwrap_wire)
    with Cons e False show ?thesis by simp
  qed
qed

lemma init_rep: "0 \<le> X \<Longrightarrow> X < pid_cycle m \<Longrightarrow> wh_rep (wh_init w (X - 1) m) m (X - 1)"
  using pid_cycle_simps(3) [of m] by (simp add: wh_rep_def wh_init_def)

text \<open>
  Unwrapping: with the handler initialised by the picture id of the first packet, the
  answers over a whole stream of 7 or 15 bit ids, packets in order and late ones mixed, are the
  true picture numbers, across any number of wrap-arounds.
\<close>

lemma unwrap_follows_pictures:
  assumes "0 \<le> X" "X < pid_cycle m" "pictures_ok m (X - 1) es"
  shows "wh_run (wh_init w (X - 1) m) m (map (\<lambda>(late, Y). (late, wire_id m Y)) es) = map snd es"
  by (rule run_tracks [OF init_rep [OF assms(1,2)] assms(3)])

section \<open>Packets after a gap\<close>

lemma carries_masked: "carries bs d pid tl0 (k AND 0x1f) = carries bs d pid tl0 k"
proof -
  have "header_bytes (munged_vp8 d pid tl0 (k AND 0x1f)) = header_bytes (munged_vp8 d pid tl0 k)"
    by (simp add: header_bytes_def has_extension_def flags_byte_def picture_id_bytes_def tid_keyidx_byte_def munged_vp8_def Let_def and.assoc)
  then have "munged_norm d pid tl0 (k AND 0x1f) = munged_norm d pid tl0 k"
    by (simp add: munged_norm_def and.assoc)
  then show ?thesis by (simp add: carries_def)
qed

lemma late_packet:
  assumes rep: "wh_rep (vm_wrap_handler v) m X" and K: "0 \<le> K" "K < X" "X - K < pid_cycle m div 2"
    and q: "ep_payload q = PayloadVP8 d" "vp8_canonical d" "v8_I d" "v8_M d = m" "v8_picture_id d = wire_id m K"
    and off: "om_get (ve_int env) (vm_missing v) K = Some off" "- 1073741824 < off" "off < 1073741824"
  shows "\<exists>r. vm_update_and_get env v q True gap max_temporal = Some (v, r) \<and> sent_as v d (K - off) r"
proof -
  have u: "wh_unwrap (vm_wrap_handler v) (wire_id m K) m = (vm_wrap_handler v, K)"
    unfolding unwrap_wire by (rule unwrap_backward [OF rep K])
  have "X < 1073741824" using rep by (simp add: wh_rep_def)
  then have "i32 (K - off) = K - off" using K off by (intro i32_num) linarith+
  then show ?thesis
    using emit_total [OF q(2), of "K - off" "v8_tl0picidx d - vm_tl0picidx_offset v" "v8_keyidx d - vm_keyidx_offset v"] q(3)
    by (auto simp: vm_update_and_get_def q u off sent_as_def carries_masked)
qed

text \<open>
  C34. A gap of sequence numbers between the pictures \<open>T\<close> and \<open>X\<close>, and then a late packet of a
  picture \<open>K\<close> between them that was not filtered: the packet after the gap is sent with the
  picture offset in force, and the late one is given the id that lies the same distance before
  it, so that it falls into the hole the gap left; sending it changes nothing in the munger.
\<close>

theorem vp8_late_fills_gap:
  assumes env: "env_lawful env ii ib" and b: "vm_bounded env v" and inv: "vm_inv v m T"
    and p: "ep_payload p = PayloadVP8 d" and X: "next_picture d m T X"
    and room: "om_len (ve_int env) (vm_missing v) + (X - T + 1) \<le> missing_picture_ids_threshold"
    and K: "0 \<le> K" "T \<le> K" "K < X" "om_get (ve_bool env) (vm_dropped v) K = None"
    and q: "ep_payload q = PayloadVP8 d'" "vp8_canonical d'" "v8_I d'" "v8_M d' = m" "v8_picture_id d' = wire_id m K"
  shows "\<exists>v1 r r'. vm_update_and_get env v p False True max_temporal = Some (v1, r) \<and> vm_inv v1 m X \<and> vm_bounded env v1 \<and>
    sent_as v d (X - vm_picture_id_offset v) r \<and>
    vm_update_and_get env v1 q True gap max_temporal' = Some (v1, r') \<and>
    sent_as v d' (K - vm_picture_id_offset v) r'"
proof -
  note i = vm_invD [OF inv] and n = X [unfolded next_picture_def]
  obtain v2 where wh: "wh_rep (vm_wrap_handler v2) m X" and v2': "v2 = v\<lparr>vm_wrap_handler := vm_wrap_handler v2\<rparr>"
    and step: "vm_update_and_get env v p False True max_temporal =
    (case vm_gap env v2 T X (vl_temporal (ep_layer p) > max_temporal) of None \<Rightarrow> None | Some v3 \<Rightarrow> vm_forward v3 d X)"
    using in_order_unwrap [OF i(1) p X, of env max_temporal] by auto
  note v2 = same_but_handler [OF v2']
  have b2: "vm_bounded env v2" using b v2(1) by blast
  have r: "-1 \<le> T" "X < 2147483647" using i(1) n by (auto simp: wh_rep_def)
  obtain v3 where v3: "vm_gap env v2 T X (vl_temporal (ep_layer p) > max_temporal) = Some v3" "vm_bounded env v3"
    "v3 = v2\<lparr>vm_missing := vm_missing v3, vm_exempted := vm_exempted v3\<rparr>"
    "om_get (ve_int env) (vm_missing v3) K = Some (vm_picture_id_offset v)"
    using gap_total [OF env b2 r] room K n v2 by fastforce
  have w: "vm_wrap_handler v3 = vm_wrap_handler v2" "vm_picture_id_offset v3 = vm_picture_id_offset v2"
    "sent_as v3 = sent_as v2"
    unfolding sent_as_def [abs_def] by (subst v3(3), simp)+
  obtain v1 r where f: "vm_forward v3 d X = Some (v1, r)" "sent_as v3 d (X - vm_picture_id_offset v3) r" "vm_inv v1 m X"
    "vm_missing v1 = vm_missing v3" "vm_dropped v1 = vm_dropped v3" "vm_exempted v1 = vm_exempted v3"
    using forward_keeps [of v3 m X d] v2 w wh i n by auto
  have s1: "sent_as v1 = sent_as v3"
    using f(1) by (auto simp: vm_forward_def sent_as_def [abs_def] Let_def)
  have late: "\<exists>r. vm_update_and_get env v1 q True gap max_temporal' = Some (v1, r) \<and> sent_as v1 d' (K - vm_picture_id_offset v) r"
    by (rule late_packet [OF vm_invD(1) [OF f(3)] K(1,3) _ q]) (use f(4) v3(4) i n K in auto)
  have step: "vm_update_and_get env v p False True max_temporal = Some (v1, r)"
    using v3(1) f(1) step by simp
  have "vm_bounded env v1" using v3(2) f by (simp add: vm_bounded_def)
  with step late f(2,3) show ?thesis unfolding s1 w(3) v2(2) w(2) v2(3) by blast
qed

section \<open>Any packets at all\<close>

definition wh_sane :: "nat \<Rightarrow> wrap_handler \<Rightarrow> bool" where
  "wh_sane n v \<longleftrightarrow> -1 \<le> wh_max_picture_id v \<and> 0 \<le> wh_last_wrap v \<and> wh_last_wrap v \<le> wh_total_wrap v \<and>
     wh_total_wrap v \<le> int n * 32768"

lemma unwrap_sane:
  assumes s: "wh_sane n v" and n: "n \<le> 32000"
  shows "case wh_unwrap v w m of (v', x) \<Rightarrow>
    wh_sane (Suc n) v' \<and> wh_max_picture_id v' = wh_max_picture_id v \<and> 0 \<le> x \<and> x < 2147483647"
proof -
  define b where "b = uint w mod pid_cycle m"
  define M where "M = pid_cycle (wh_max_m_bit v)"
  have M: "0 < M" "M \<le> 32768" using pid_cycle_simps [of "wh_max_m_bit v"] by (simp_all add: M_def)
  have "0 \<le> b" "b < pid_cycle m" using pid_cycle_simps(1) [of m] by (simp_all add: b_def)
  then have b: "0 \<le> b" "b < 32768" using pid_cycle_simps(3) [of m] by linarith+
  define t where "t = wh_total_wrap v"
  define l where "l = wh_last_wrap v"
  have t: "0 \<le> t" "t \<le> 1048576000" "0 \<le> l" "l \<le> t" "t \<le> int n * 32768" "-1 \<le> wh_max_picture_id v"
    using s n by (simp_all add: wh_sane_def t_def l_def)
  have i: "i32 (b + t) = b + t" "i32 (b + t - l) = b + t - l" "i32 (t + M) = t + M" "i32 t = t"
    "i32 (b + (t + M)) = b + (t + M)"
    using b t M by (auto intro!: i32_num)
  have w: "w = word_of_int (uint w)" by simp
  show ?thesis
    apply (subst w)
    unfolding wh_unwrap_alt Let_def b_def [symmetric] M_def [symmetric] t_def [symmetric] l_def [symmetric]
    using b t M by (auto simp: i wh_sane_def t_def [symmetric] l_def [symmetric])
qed

datatype 'dd vm_event =
    VmSetLast "'dd ext_packet"
  | VmUpdateOffsets "'dd ext_packet"
  | VmPacket "'dd ext_packet" bool bool int
  | VmPadding bool

fun vm_step :: "('mi, 'mb) vm_env \<Rightarrow> ('mi, 'mb) vp8_munger \<Rightarrow> 'dd vm_event \<Rightarrow> ('mi, 'mb) vp8_munger option" where
  "vm_step env v (VmSetLast p) = Some (vm_set_last v p)"
| "vm_step env v (VmUpdateOffsets p) = Some (vm_update_offsets env v p)"
| "vm_step env v (VmPacket p ooo gap ml) = map_option fst (vm_update_and_get env v p ooo gap ml)"
| "vm_step env v (VmPadding b) = map_option fst (vm_update_and_get_padding v b)"

text \<open>Packets come from the parser.\<close>

definition parsed :: "'dd ext_packet \<Rightarrow> bool" where
  "parsed p \<longleftrightarrow> (case ep_payload p of PayloadVP8 d \<Rightarrow> vp8_canonical d | _ \<Rightarrow> True)"

fun event_parsed :: "'dd vm_event \<Rightarrow> bool" where
  "event_parsed (VmPacket p _ _ _) = parsed p"
| "event_parsed _ = True"

definition vm_safe :: "('mi, 'mb) vm_env \<Rightarrow> nat \<Rightarrow> ('mi, 'mb) vp8_munger \<Rightarrow> bool" where
  "vm_safe env n v \<longleftrightarrow> vm_bounded env v \<and> wh_sane n (vm_wrap_handler v)"

lemma uint_minus_one: "- 1 < uint (x :: u16)"
  using uint_ge_0 [of x] by linarith

lemma padding_total: "\<exists>v' r. vm_update_and_get_padding v b = Some (v', r) \<and> vm_wrap_handler v' = vm_wrap_handler v \<and>
    vm_missing v' = vm_missing v \<and> vm_dropped v' = vm_dropped v \<and> vm_exempted v' = vm_exempted v"
  unfolding vm_update_and_get_padding_def Let_def
  by (subst marshal_to_bytes) auto

lemma packet_safe:
  assumes env: "env_lawful env ii ib" and s: "vm_safe env n v" and n: "n \<le> 32000" and p: "parsed p"
  shows "\<exists>v' r. vm_update_and_get env v p ooo gap ml = Some (v', r) \<and> vm_safe env (Suc n) v'"
proof (cases "ep_payload p")
  case (PayloadVP8 d)
  have c: "vp8_canonical d" using p PayloadVP8 by (simp add: parsed_def)
  have b: "vm_bounded env v" and w: "wh_sane n (vm_wrap_handler v)" using s by (simp_all add: vm_safe_def)
  obtain wh X where u: "wh_unwrap (vm_wrap_handler v) (v8_picture_id d) (v8_M d) = (wh, X)" by fastforce
  have wh: "wh_sane (Suc n) wh" "wh_max_picture_id wh = wh_max_picture_id (vm_wrap_handler v)" "0 \<le> X" "X < 2147483647"
    using unwrap_sane [OF w n, of "v8_picture_id d" "v8_M d"] u by simp_all
  have prev: "-1 \<le> wh_max_picture_id wh" using wh(1) by (simp add: wh_sane_def)
  define v2 where "v2 = v\<lparr>vm_wrap_handler := wh_update_max wh X (v8_M d)\<rparr>"
  have s2: "wh_sane (Suc n) (vm_wrap_handler v2)" "vm_bounded env v2"
    using wh(1,3) b by (simp_all add: v2_def wh_sane_def wh_update_max_def vm_bounded_def)
  have fw: "\<exists>v' r. vm_forward u d X = Some (v', r) \<and> vm_safe env (Suc n) v'"
    if "vm_bounded env u" "vm_wrap_handler u = vm_wrap_handler v2" for u
  proof -
    obtain v' bs where "vm_forward u d X = Some (v', Inr (v8_header_size d, bs))"
      and v': "v' = u\<lparr>vm_ext_last_picture_id := i32 (X - vm_picture_id_offset u), vm_last_tl0picidx := v8_tl0picidx d - vm_tl0picidx_offset u,
        vm_last_keyidx := (v8_keyidx d - vm_keyidx_offset u) AND 0x1f\<rparr>"
      using forward_total [OF c] by blast
    moreover have "vm_safe env (Suc n) v'" unfolding v' using that s2 by (simp add: vm_safe_def vm_bounded_def)
    ultimately show ?thesis by blast
  qed
  obtain v3 where v3: "vm_gap env v2 (wh_max_picture_id wh) X (vl_temporal (ep_layer p) > ml) = Some v3" "vm_bounded env v3"
    "v3 = v2\<lparr>vm_missing := vm_missing v3, vm_exempted := vm_exempted v3\<rparr>"
    using gap_total [OF env s2(2) prev wh(4)] by blast
  have w3: "vm_wrap_handler v3 = vm_wrap_handler v2" by (subst v3(3)) simp
  obtain v4 where v4: "vm_drop env v2 d (wh_max_picture_id wh) X = Some v4" "vm_bounded env v4"
    "v4 = v2\<lparr>vm_dropped := vm_dropped v4, vm_picture_id_offset := vm_picture_id_offset v4\<rparr>"
    using drop_total [OF env s2(2)] by blast
  have w4: "vm_wrap_handler v4 = vm_wrap_handler v2" by (subst v4(3)) simp
  have s4: "vm_safe env (Suc n) v4" using v4(2) w4 s2 by (simp add: vm_safe_def)
  have s1: "vm_safe env (Suc n) (v\<lparr>vm_wrap_handler := wh\<rparr>)"
    using wh(1) b by (simp add: vm_safe_def vm_bounded_def)
  show ?thesis
    using fw [OF v3(2) w3] fw [OF s2(2) refl] v3(1) v4(1) s4 s1 emit_bytes [OF c]
    by (auto simp: vm_update_and_get_def PayloadVP8 u Let_def v2_def [symmetric] split: option.split)
qed (use s in \<open>auto simp: vm_update_and_get_def vm_safe_def wh_sane_def\<close>)

lemma step_safe_vm:
  assumes env: "env_lawful env ii ib" and s: "vm_safe env n v" and n: "n \<le> 32000" and e: "event_parsed e"
  shows "\<exists>v'. vm_step env v e = Some v' \<and> vm_safe env (Suc n) v'"
proof (cases e)
  case (VmSetLast p)
  have "vm_safe env (Suc n) (vm_set_last v p)"
    using s by (auto simp: vm_set_last_def vm_safe_def vm_bounded_def wh_sane_def wh_init_def Let_def uint_minus_one split: payload.splits)
  with VmSetLast show ?thesis by simp
next
  case (VmUpdateOffsets p)
  have new: "om_len (ve_int env) (om_new (ve_int env)) = 0" "om_len (ve_bool env) (om_new (ve_bool env)) = 0"
    by (rule ordered_map.len_new [OF env_maps(1) [OF env]], rule ordered_map.len_new [OF env_maps(2) [OF env]])
  have "vm_safe env (Suc n) (vm_update_offsets env v p)"
    using s by (auto simp: vm_update_offsets_def vm_safe_def vm_bounded_def wh_sane_def wh_init_def Let_def new uint_minus_one
        missing_picture_ids_threshold_def dropped_picture_ids_threshold_def exempted_picture_ids_threshold_def split: payload.splits)
  with VmUpdateOffsets show ?thesis by simp
next
  case (VmPacket p ooo gap ml)
  with packet_safe [OF env s n, of p ooo gap ml] e show ?thesis by auto
next
  case (VmPadding b)
  with padding_total [of v b] s show ?thesis by (auto simp: vm_safe_def vm_bounded_def wh_sane_def)
qed

lemma run_safe_vm:
  assumes "env_lawful env ii ib" "vm_safe env n v" "n + length es \<le> 32000" "list_all event_parsed es"
  shows "\<exists>v'. run_ops (vm_step env) v es = Some v' \<and> vm_safe env (n + length es) v'"
  using assms(2-4)
proof (induction es arbitrary: n v)
  case Nil
  then show ?case by simp
next
  case (Cons e es)
  obtain v1 where v1: "vm_step env v e = Some v1" "vm_safe env (Suc n) v1"
    using step_safe_vm [OF assms(1) Cons.prems(1), of e] Cons.prems by auto
  with Cons.IH [of "Suc n" v1] Cons.prems show ?case by auto
qed

text \<open>
  A new munger under up to 32000 operations in any order - packets with any picture ids and
  any of the flags out-of-order and gap, source changes, padding: every loop ends, nothing
  panics, and the three caches hold at most 50, 20 and 20 pictures.  (The descriptors come from
  the parser.)
\<close>

lemma vp8_run_is_safe:
  assumes "env_lawful env ii ib" "length es \<le> 32000" "list_all event_parsed es"
  shows "\<exists>v. run_ops (vm_step env) (new_vp8_munger env) es = Some v \<and> vm_bounded env v"
proof -
  have new: "om_len (ve_int env) (om_new (ve_int env)) = 0" "om_len (ve_bool env) (om_new (ve_bool env)) = 0"
    by (rule ordered_map.len_new [OF env_maps(1) [OF assms(1)]], rule ordered_map.len_new [OF env_maps(2) [OF assms(1)]])
  have "vm_safe env 0 (new_vp8_munger env)"
    by (simp add: vm_safe_def vm_bounded_def new_vp8_munger_def new wh_sane_def wrap_handler_zero_def
        missing_picture_ids_threshold_def dropped_picture_ids_threshold_def exempted_picture_ids_threshold_def)
  from run_safe_vm [OF assms(1) this _ assms(3)] assms(2) show ?thesis by (auto simp: vm_safe_def)
qed

section \<open>Starting and switching\<close>

lemma first_packet:
  assumes w: "vm_wrap_handler v = wh_init w (X - 1) m" and p: "ep_payload p = PayloadVP8 d" "next_picture d m (X - 1) X"
    and X: "X < pid_cycle m" and layer: "vl_temporal (ep_layer p) \<le> max_temporal"
    and off: "- 1073741824 < vm_picture_id_offset v" "vm_picture_id_offset v < 1073741824"
  shows "\<exists>v' r. vm_update_and_get env v p False False max_temporal = Some (v', r) \<and>
    sent_as v d (X - vm_picture_id_offset v) r \<and> vm_inv v' m X"
proof -
  have X0: "0 \<le> X" using p(2) by (simp add: next_picture_def)
  have "wh_rep (vm_wrap_handler v) m (X - 1)" unfolding w by (rule init_rep [OF X0 X])
  from in_order_unwrap [OF this p, of env max_temporal]
  obtain v2 where wh: "wh_rep (vm_wrap_handler v2) m X" and v2': "v2 = v\<lparr>vm_wrap_handler := vm_wrap_handler v2\<rparr>"
    and step: "vm_update_and_get env v p False False max_temporal = vm_forward v2 d X"
    using layer by auto
  note v2 = same_but_handler [OF v2']
  have d: "vp8_canonical d" "v8_I d" using p(2) by (simp_all add: next_picture_def)
  from forward_keeps [OF wh _ _ d X0] off show ?thesis
    unfolding step v2(2,3) by blast
qed

lemma wire_id_small:
  assumes "0 \<le> X" "X < pid_cycle m"
  shows "uint (wire_id m X) = X"
  using assms pid_cycle_simps(3) [of m] by (simp add: wire_id_def unsigned_of_int take_bit_int_eq_self)

text \<open>
  The first packet of a subscription is sent with its own picture id.  After a change of the
  source, the first packet of the new source is sent with the last picture id sent plus one and
  with the last TL0PICIDX plus one, and a munger that was in step is in step again.
\<close>

lemma vp8_start_and_switch:
  assumes p: "ep_payload p = PayloadVP8 d" "next_picture d m (X - 1) X" "X < pid_cycle m"
    and layer: "vl_temporal (ep_layer p) \<le> max_temporal"
    and last: "vm_picture_id_used v" "vm_tl0picidx_used v"
      "- 1000000000 < vm_ext_last_picture_id v" "vm_ext_last_picture_id v < 1000000000"
  shows "(\<exists>v' r. vm_update_and_get env (vm_set_last (new_vp8_munger env) p) p False False max_temporal = Some (v', r) \<and>
      sent_as (new_vp8_munger env) d X r \<and> vm_inv v' m X) \<and>
    (\<exists>v' r bs. vm_update_and_get env (vm_update_offsets env v p) p False False max_temporal = Some (v', r) \<and>
      vm_inv v' m X \<and> r = Inr (v8_header_size d, bs) \<and>
      carries bs d (picture_id_of (vm_ext_last_picture_id v + 1)) (vm_last_tl0picidx v + 1)
        ((v8_keyidx d - vm_keyidx_offset (vm_update_offsets env v p)) AND 0x1f))"
    (is "?start \<and> ?switch")
proof
  have X: "0 \<le> X" "v8_I d" "v8_M d = m" "v8_picture_id d = wire_id m X" using p(2) by (auto simp: next_picture_def)
  have pid: "uint (v8_picture_id d) = X" unfolding X(4) by (rule wire_id_small [OF X(1) p(3)])
  have small: "X < 32768" using p(3) pid_cycle_simps(3) [of m] by linarith
  let ?v = "vm_set_last (new_vp8_munger env) p"
  have "vm_wrap_handler ?v = wh_init wrap_handler_zero (X - 1) m" "vm_picture_id_offset ?v = 0"
    "sent_as ?v = sent_as (new_vp8_munger env)"
    using X(2,3) by (simp_all add: vm_set_last_def p(1) new_vp8_munger_def Let_def pid sent_as_def [abs_def])
  with first_packet [OF _ p layer, of ?v wrap_handler_zero env]
  show ?start by simp
  let ?w = "vm_update_offsets env v p"
  have o: "i32 (i32 (X - vm_ext_last_picture_id v) - 1) = X - vm_ext_last_picture_id v - 1"
    using X(1) small last by (simp add: i32_num)
  have w: "vm_wrap_handler ?w = wh_init (vm_wrap_handler v) (X - 1) m"
    "vm_picture_id_offset ?w = X - vm_ext_last_picture_id v - 1"
    "vm_tl0picidx_offset ?w = v8_tl0picidx d - vm_last_tl0picidx v - 1"
    using X(2,3) last(1,2) by (simp_all add: vm_update_offsets_def p(1) Let_def pid o)
  obtain v' r where "vm_update_and_get env ?w p False False max_temporal = Some (v', r)"
    "sent_as ?w d (X - vm_picture_id_offset ?w) r" "vm_inv v' m X"
    using first_packet [OF w(1) p layer, of env] w(2) X(1) small last by auto
  then show ?switch
    by (auto simp: sent_as_def w(2,3))
qed

section \<open>Instances\<close>

definition env_alist :: "((int \<times> int) list, (int \<times> bool) list) vm_env" where
  "env_alist = \<lparr>ve_int = omap_alist, ve_bool = omap_alist\<rparr>"

lemma env_alist_lawful: "env_lawful env_alist id id"
  by (simp add: env_lawful_def env_alist_def omap_alist.ordered_map_axioms)

definition vp8_at :: "int \<Rightarrow> vp8" where
  "vp8_at X = \<lparr>v8_first_byte = 0x90, v8_S = True, v8_I = True, v8_M = False, v8_picture_id = wire_id False X,
     v8_L = True, v8_tl0picidx = 3, v8_T = True, v8_tid = 1, v8_Y = False, v8_K = True, v8_keyidx = 9,
     v8_header_size = 5, v8_is_key_frame = False\<rparr>"

definition packet_at :: "int \<Rightarrow> unit ext_packet" where
  "packet_at X = ext_packet_zero\<lparr>ep_layer := VideoLayer 0 1, ep_payload := PayloadVP8 (vp8_at X)\<rparr>"

lemma packet_at_simps [simp]:
  "ep_payload (packet_at X) = PayloadVP8 (vp8_at X)" "ep_layer (packet_at X) = VideoLayer 0 1"
  "v8_I (vp8_at X)" "v8_M (vp8_at X) = False" "v8_picture_id (vp8_at X) = wire_id False X"
  by (simp_all add: packet_at_def vp8_at_def)

lemma vp8_at_canonical: "vp8_canonical (vp8_at X)"
proof -
  have "take_bit 7 (X mod 128) = X mod 128" by (simp add: take_bit_eq_mod)
  then have "take_bit 7 (wire_id False X) = wire_id False X"
    unfolding wire_id_def take_bit_of_int by (simp add: pid_cycle_def)
  then show ?thesis
    by (simp add: vp8_canonical_def vp8_at_def has_extension_def header_bytes_def flags_byte_def picture_id_bytes_def bit_simps)
qed

definition munger_at :: "int \<Rightarrow> ((int \<times> int) list, (int \<times> bool) list) vp8_munger" where
  "munger_at T = (vm_set_last (new_vp8_munger env_alist) (packet_at T))
     \<lparr>vm_wrap_handler := wh_init wrap_handler_zero T False, vm_picture_id_offset := 7, vm_ext_last_picture_id := T - 7\<rparr>"

lemma munger_at_inv: "0 \<le> T \<Longrightarrow> T < 128 \<Longrightarrow> vm_inv (munger_at T) False T \<and> vm_bounded env_alist (munger_at T)"
  by (simp add: vm_inv_def munger_at_def wh_rep_def wh_init_def pid_cycle_def vm_bounded_def env_alist_def omap_alist_def
      vm_set_last_def packet_at_def vp8_at_def new_vp8_munger_def Let_def missing_picture_ids_threshold_def
      dropped_picture_ids_threshold_def exempted_picture_ids_threshold_def)

lemma vp8_in_order_witness:
  "\<exists>v' r. vm_update_and_get env_alist (munger_at 127) (packet_at 128) False False 1 = Some (v', r) \<and>
     vm_inv v' False 128 \<and> vm_bounded env_alist v' \<and> vm_ext_last_picture_id v' = vm_ext_last_picture_id (munger_at 127) + 1 \<and>
     sent_as (munger_at 127) (vp8_at 128) (vm_ext_last_picture_id (munger_at 127) + 1) r"
proof -
  have "next_picture (vp8_at 128) False 127 128"
    using vp8_at_canonical by (simp add: next_picture_def pid_cycle_def)
  moreover have "vm_picture_id_offset (munger_at 127) < 1073741823" by (simp add: munger_at_def)
  ultimately show ?thesis
    using vp8_in_order [of env_alist id id "munger_at 127" False 127 "packet_at 128" "vp8_at 128" 128 1]
      env_alist_lawful munger_at_inv [of 127] by auto
qed

lemma vp8_late_fills_gap_witness:
  "\<exists>v1 r r'. vm_update_and_get env_alist (munger_at 120) (packet_at 130) False True 1 = Some (v1, r) \<and>
     sent_as (munger_at 120) (vp8_at 130) 123 r \<and>
     vm_update_and_get env_alist v1 (packet_at 125) True False 1 = Some (v1, r') \<and> sent_as (munger_at 120) (vp8_at 125) 118 r'"
proof -
  have "next_picture (vp8_at 130) False 120 130"
    using vp8_at_canonical by (simp add: next_picture_def pid_cycle_def)
  moreover have "vm_missing (munger_at 120) = []" "vm_dropped (munger_at 120) = []" "vm_picture_id_offset (munger_at 120) = 7"
    by (simp_all add: munger_at_def vm_set_last_def packet_at_def vp8_at_def new_vp8_munger_def Let_def env_alist_def omap_alist_def)
  ultimately show ?thesis
    using vp8_late_fills_gap [of env_alist id id "munger_at 120" False 120 "packet_at 130" "vp8_at 130" 130 125 "packet_at 125"
      "vp8_at 125" 1 False 1] env_alist_lawful munger_at_inv [of 120] vp8_at_canonical
    by (auto simp: env_alist_def omap_alist_def missing_picture_ids_threshold_def)
qed

end
