(* ===== verification/Packet_Bucket.thy ===== *)
theory Packet_Bucket
  imports Go_Prelude
begin

text \<open>
  The ring of packets kept for retransmission to subscribers
  (\<open>pkg/samvaad/transport/pkg/bucket/bucket.go\<close>), at the types it is used with: extended
  sequence numbers \<open>uint64\<close>, numbers in the packets \<open>uint16\<close>.  The slots are disjoint parts of
  one allocation, so that they are a list of byte lists here.  \<open>int\<close> has 64 bits.
\<close>

section \<open>Numbers in byte slices\<close>

text \<open>The big-endian bytes of a number, and the number in them.\<close>

fun be_bytes :: "nat \<Rightarrow> u64 \<Rightarrow> u8 list" where
  "be_bytes 0 v = []"
| "be_bytes (Suc n) v = ucast (drop_bit (8 * n) v) # be_bytes n v"

fun be_value :: "u8 list \<Rightarrow> u64" where
  "be_value [] = 0"
| "be_value (b # bs) = push_bit (8 * length bs) (ucast b) OR be_value bs"

text \<open>\<open>put8\<close> to \<open>put64\<close> and \<open>get8\<close> to \<open>get64\<close>, by the number of bytes; a short slice panics.\<close>

definition put_num :: "nat \<Rightarrow> u8 list \<Rightarrow> u64 \<Rightarrow> u8 list option" where
  "put_num w bs v = (if length bs < w then None else Some (be_bytes w v @ drop w bs))"

definition get_num :: "nat \<Rightarrow> u8 list \<Rightarrow> u64 option" where
  "get_num w bs = (if length bs < w then None else Some (be_value (take w bs)))"

lemma length_be_bytes [simp]: "length (be_bytes n v) = n"
  by (induction n) auto

lemma be_value_bytes: "be_value (be_bytes n v) = take_bit (8 * n) v"
proof (induction n)
  case 0
  then show ?case by simp
next
  case (Suc n)
  show ?case
    by (rule bit_word_eqI) (auto simp: Suc bit_simps)
qed

lemma put_num_Some: "w \<le> length bs \<Longrightarrow> put_num w bs v = Some (be_bytes w v @ drop w bs)"
  by (simp add: put_num_def)

lemma get_num_bytes: "get_num w (be_bytes w v @ bs) = Some (take_bit (8 * w) v)"
  by (simp add: get_num_def be_value_bytes)

section \<open>The bucket\<close>

datatype bucket_err =
    ErrPacketTooLarge | ErrNoBucket | ErrBufferTooSmall | ErrPacketTooNew | ErrPacketTooOld
  | ErrPacketSizeInvalid | ErrPacketMismatch | ErrRTXPacketSize | ErrRTXPacket

text \<open>
  \<open>putSize\<close> and \<open>getSize\<close> are given by the number of bytes \<open>pktSizeHeader\<close>; \<open>putSeqNum\<close> and
  \<open>getSeqNum\<close> are those of two bytes.
\<close>

record bucket =
  bk_max_pkt_size :: int
  bk_seq_num_offset :: int
  bk_pkt_size_header :: nat
  bk_invalid_pkt_size :: u64
  bk_slots :: "u8 list list"
  bk_init :: bool
  bk_resync_on_next_packet :: bool
  bk_step :: int
  bk_head_sn :: u64
  bk_init_capacity :: int
  bk_max_steps :: int

definition pkt_size_limit :: int where
  "pkt_size_limit = 256 * 1024"

definition half_range :: u64 where
  "half_range = push_bit 63 1"

text \<open>A negative length of the allocation panics, and so does a slot too short for its size.\<close>

definition create_slots :: "bucket \<Rightarrow> u8 list list option" where
  "create_slots b =
    (let pkt_size = bk_max_pkt_size b + int (bk_pkt_size_header b)
     in if bk_init_capacity b < 0 \<or> pkt_size * bk_init_capacity b < 0 then None
        else if bk_init_capacity b = 0 then Some []
        else (case put_num (bk_pkt_size_header b) (replicate (nat pkt_size) 0) (bk_invalid_pkt_size b) of
          None \<Rightarrow> None | Some slot \<Rightarrow> Some (replicate (nat (bk_init_capacity b)) slot)))"

text \<open>The outer \<^const>\<open>None\<close> is a panic, the inner one the nil bucket.\<close>

definition new_bucket :: "int \<Rightarrow> int \<Rightarrow> int \<Rightarrow> bucket option option" where
  "new_bucket capacity max_pkt_size seq_num_offset =
    (if max_pkt_size > pkt_size_limit then Some None
     else
       let (header, invalid) = (if max_pkt_size < 256 then (1, 0xff)
              else if max_pkt_size < 65536 then (2, 0xffff) else (4, 0xffffffff));
           b = \<lparr>bk_max_pkt_size = max_pkt_size, bk_seq_num_offset = seq_num_offset, bk_pkt_size_header = header,
                bk_invalid_pkt_size = invalid, bk_slots = [], bk_init = False, bk_resync_on_next_packet = False,
                bk_step = 0, bk_head_sn = 0, bk_init_capacity = capacity, bk_max_steps = capacity\<rparr>
       in map_option (\<lambda>s. Some (b\<lparr>bk_slots := s\<rparr>)) (create_slots b))"

definition slot_size :: "bucket \<Rightarrow> int \<Rightarrow> u64 option" where
  "slot_size b i = Option.bind (go_nth (bk_slots b) i) (get_num (bk_pkt_size_header b))"

text \<open>The loop of \<open>Grow\<close>, with \<open>n\<close> values of \<open>i\<close> left to do, down to \<open>step\<close>.\<close>

fun grow_loop :: "bucket \<Rightarrow> nat \<Rightarrow> u8 list list \<Rightarrow> u8 list list option" where
  "grow_loop b 0 grown = Some grown"
| "grow_loop b (Suc n) grown =
    (let i = bk_step b + int n in
     case slot_size b i of
       None \<Rightarrow> None
     | Some sz \<Rightarrow>
         if sz \<noteq> bk_invalid_pkt_size b then do {
           x \<leftarrow> go_nth grown i;
           y \<leftarrow> go_nth grown (i + bk_init_capacity b);
           g1 \<leftarrow> go_update grown (i + bk_init_capacity b) x;
           g2 \<leftarrow> go_update g1 i y;
           grow_loop b n g2 }
         else grow_loop b n grown)"

definition bk_grow :: "bucket \<Rightarrow> (bucket \<times> int) option" where
  "bk_grow b = do {
     new_slots \<leftarrow> create_slots b;
     grown \<leftarrow> grow_loop b (nat (bk_max_steps b - bk_step b)) (bk_slots b @ new_slots);
     let max_steps = bk_max_steps b + bk_init_capacity b in
     Some (b\<lparr>bk_slots := grown, bk_max_steps := max_steps\<rparr>, max_steps) }"

definition bk_resync :: "bucket \<Rightarrow> bucket" where
  "bk_resync b = b\<lparr>bk_resync_on_next_packet := True\<rparr>"

text \<open>The loops of \<open>wrap\<close>; \<^const>\<open>None\<close> is a loop that does not end.\<close>

partial_function (option) wrap_up :: "bucket \<Rightarrow> int \<Rightarrow> int option" where
  "wrap_up b slot = (if slot < 0 then wrap_up b (i64 (slot + bk_max_steps b)) else Some slot)"

partial_function (option) wrap_down :: "bucket \<Rightarrow> int \<Rightarrow> int option" where
  "wrap_down b slot = (if slot \<ge> bk_max_steps b then wrap_down b (i64 (slot - bk_max_steps b)) else Some slot)"

lemmas [code] = wrap_up.simps wrap_down.simps

definition bk_wrap :: "bucket \<Rightarrow> int \<Rightarrow> int option" where
  "bk_wrap b slot = Option.bind (wrap_up b slot) (wrap_down b)"

definition put_size :: "bucket \<Rightarrow> int \<Rightarrow> u64 \<Rightarrow> bucket option" where
  "put_size b idx v = do {
     slot \<leftarrow> go_nth (bk_slots b) idx;
     slot' \<leftarrow> put_num (bk_pkt_size_header b) slot v;
     slots \<leftarrow> go_update (bk_slots b) idx slot';
     Some (b\<lparr>bk_slots := slots\<rparr>) }"

text \<open>\<open>for i := range numSlots\<close>, from \<open>i\<close> on with \<open>n\<close> values left.\<close>

fun invalidate_loop :: "bucket \<Rightarrow> int \<Rightarrow> nat \<Rightarrow> int \<Rightarrow> bucket option" where
  "invalidate_loop b start 0 i = Some b"
| "invalidate_loop b start (Suc n) i = do {
     idx \<leftarrow> bk_wrap b (i64 (start + i));
     b' \<leftarrow> put_size b idx (bk_invalid_pkt_size b);
     invalidate_loop b' start n (i + 1) }"

definition bk_invalidate :: "bucket \<Rightarrow> int \<Rightarrow> int \<Rightarrow> bucket option" where
  "bk_invalidate b start num_slots =
    (let n = (if num_slots > bk_max_steps b then bk_max_steps b else num_slots)
     in invalidate_loop b start (nat n) 0)"

text \<open>
  \<open>store\<close>: the packet is copied behind the size, at most up to the end of the slot, and the
  stored part is sliced out again.  A slice that would reach beyond the slot (it would run into
  the next one) is taken for a panic here and in \<open>get\<close>; \<open>addPacket\<close> refuses packets that long.
\<close>

definition bk_store :: "bucket \<Rightarrow> int \<Rightarrow> u8 list \<Rightarrow> (bucket \<times> u8 list) option" where
  "bk_store b idx pkt = do {
     b1 \<leftarrow> put_size b idx (word_of_int (int (length pkt)));
     slot \<leftarrow> go_nth (bk_slots b1) idx;
     let h = bk_pkt_size_header b;
         room = drop h slot;
         slot' = take h slot @ take (length room) pkt @ drop (length pkt) room in
     if length slot < h + length pkt then None
     else do {
       slots \<leftarrow> go_update (bk_slots b1) idx slot';
       Some (b1\<lparr>bk_slots := slots\<rparr>, take (length pkt) (drop h slot')) } }"

text \<open>\<open>b.getSeqNum(slot[h + seqNumOffset:])\<close>.\<close>

definition seq_num_at :: "u8 list \<Rightarrow> int \<Rightarrow> u64 option" where
  "seq_num_at bs off = (if off < 0 \<or> int (length bs) < off then None else get_num 2 (drop (nat off) bs))"

definition bk_set :: "bucket \<Rightarrow> u64 \<Rightarrow> int \<Rightarrow> u8 list \<Rightarrow> (bucket \<times> (bucket_err + int \<times> u8 list)) option" where
  "bk_set b sn diff pkt =
    (if diff \<ge> bk_max_steps b then Some (b, Inl ErrPacketTooOld)
     else do {
       idx \<leftarrow> bk_wrap b (i64 (i64 (bk_step b - diff) - 1));
       slot \<leftarrow> go_nth (bk_slots b) idx;
       size \<leftarrow> get_num (bk_pkt_size_header b) slot;
       if size \<noteq> bk_invalid_pkt_size b then
         (if sint size \<noteq> int (length pkt) then Some (b, Inl ErrRTXPacketSize)
          else do {
            stored_sn \<leftarrow> seq_num_at slot (int (bk_pkt_size_header b) + bk_seq_num_offset b);
            if (ucast stored_sn :: u16) = ucast sn then Some (b, Inl ErrRTXPacket)
            else Some (b, Inl ErrPacketMismatch) })
       else do {
         (b', stored) \<leftarrow> bk_store b idx pkt;
         Some (b', Inr (idx, stored)) } })"

definition bk_push :: "bucket \<Rightarrow> u64 \<Rightarrow> int \<Rightarrow> u8 list \<Rightarrow> (bucket \<times> (bucket_err + int \<times> u8 list)) option" where
  "bk_push b sn diff pkt = do {
     b1 \<leftarrow> bk_invalidate (b\<lparr>bk_head_sn := sn\<rparr>) (bk_step b) diff;
     idx \<leftarrow> bk_wrap b1 (i64 (bk_step b + diff));
     (b2, stored) \<leftarrow> bk_store b1 idx pkt;
     step \<leftarrow> bk_wrap b2 (i64 (i64 (bk_step b + diff) + 1));
     Some (b2\<lparr>bk_step := step\<rparr>, Inr (idx, stored)) }"

text \<open>
  \<open>addPacket\<close>.  With the stored bytes comes the index of their slot, as the caller writes
  through the returned slice.
\<close>

definition add_packet_sn :: "bucket \<Rightarrow> u8 list \<Rightarrow> u64 \<Rightarrow> (bucket \<times> (bucket_err + int \<times> u8 list)) option" where
  "add_packet_sn b pkt sn =
    (if int (length pkt) > bk_max_pkt_size b - int (bk_pkt_size_header b) then Some (b, Inl ErrPacketTooLarge)
     else
       let b1 = (if \<not> bk_init b then b\<lparr>bk_head_sn := sn - 1, bk_init := True\<rparr> else b) in
       case (if bk_resync_on_next_packet b1
             then let b2 = b1\<lparr>bk_resync_on_next_packet := False, bk_head_sn := sn - 1\<rparr> in bk_invalidate b2 0 (bk_max_steps b2)
             else Some b1) of
         None \<Rightarrow> None
       | Some b3 \<Rightarrow>
           let diff = sn - bk_head_sn b3 in
           if diff = 0 \<or> diff > half_range then bk_set b3 sn (sint (bk_head_sn b3 - sn)) pkt
           else bk_push b3 sn (i64 (sint diff - 1)) pkt)"

definition add_packet :: "bucket \<Rightarrow> u8 list \<Rightarrow> (bucket \<times> (bucket_err + u8 list)) option" where
  "add_packet b pkt = do {
     sn \<leftarrow> seq_num_at pkt (bk_seq_num_offset b);
     (b', r) \<leftarrow> add_packet_sn b pkt sn;
     Some (b', map_sum id snd r) }"

definition add_packet_with_sequence_number :: "bucket \<Rightarrow> u8 list \<Rightarrow> u64 \<Rightarrow> (bucket \<times> (bucket_err + u8 list)) option" where
  "add_packet_with_sequence_number b pkt sn =
    (case add_packet_sn b pkt sn of
       None \<Rightarrow> None
     | Some (b1, Inl e) \<Rightarrow> Some (b1, Inl e)
     | Some (b1, Inr (idx, stored)) \<Rightarrow>
         (let off = bk_seq_num_offset b1 in
          if off < 0 \<or> int (length stored) < off then None
          else do {
            part \<leftarrow> put_num 2 (drop (nat off) stored) sn;
            slot \<leftarrow> go_nth (bk_slots b1) idx;
            let stored' = take (nat off) stored @ part;
                h = bk_pkt_size_header b1 in do {
            slots \<leftarrow> go_update (bk_slots b1) idx (take h slot @ stored' @ drop (h + length stored') slot);
            Some (b1\<lparr>bk_slots := slots\<rparr>, Inr stored') } }))"

definition bk_get :: "bucket \<Rightarrow> u64 \<Rightarrow> int \<Rightarrow> (bucket_err + u8 list) option" where
  "bk_get b sn diff =
    (if diff < 0 then Some (Inl ErrPacketTooNew)
     else if diff \<ge> bk_max_steps b then Some (Inl ErrPacketTooOld)
     else do {
       idx \<leftarrow> bk_wrap b (i64 (i64 (bk_step b - diff) - 1));
       slot \<leftarrow> go_nth (bk_slots b) idx;
       sz \<leftarrow> get_num (bk_pkt_size_header b) slot;
       if sz = bk_invalid_pkt_size b then Some (Inl ErrPacketSizeInvalid)
       else do {
         cache_sn \<leftarrow> seq_num_at slot (int (bk_pkt_size_header b) + bk_seq_num_offset b);
         if (ucast cache_sn :: u16) \<noteq> ucast sn then Some (Inl ErrPacketMismatch)
         else if unat sz > length slot - bk_pkt_size_header b then None
         else Some (Inr (take (unat sz) (drop (bk_pkt_size_header b) slot))) } })"

text \<open>
  \<open>GetPacket\<close> with a buffer of capacity \<open>cap\<close>: the bytes copied into it.  A nil bucket is
  \<^const>\<open>None\<close>.
\<close>

definition get_packet :: "bucket option \<Rightarrow> nat \<Rightarrow> u64 \<Rightarrow> (bucket_err + u8 list) option" where
  "get_packet bo cap sn = (case bo of
     None \<Rightarrow> Some (Inl ErrNoBucket)
   | Some b \<Rightarrow>
       let diff = bk_head_sn b - sn in
       case (if diff > half_range then bk_get b sn (i64 (- sint (sn - bk_head_sn b))) else bk_get b sn (sint diff)) of
         None \<Rightarrow> None
       | Some (Inl e) \<Rightarrow> Some (Inl e)
       | Some (Inr p) \<Rightarrow> if cap < length p then Some (Inl ErrBufferTooSmall) else Some (Inr p))"

section \<open>What the slots hold\<close>

text \<open>The size and the packet of a slot.\<close>

definition size_of :: "bucket \<Rightarrow> u8 list \<Rightarrow> u64" where
  "size_of b s = be_value (take (bk_pkt_size_header b) s)"

definition content :: "bucket \<Rightarrow> u8 list \<Rightarrow> u8 list option" where
  "content b s = (if size_of b s = bk_invalid_pkt_size b then None
     else Some (take (unat (size_of b s)) (drop (bk_pkt_size_header b) s)))"

definition contents :: "bucket \<Rightarrow> u8 list option list" where
  "contents b = map (content b) (bk_slots b)"

definition header_ok :: "bucket \<Rightarrow> bool" where
  "header_ok b \<longleftrightarrow> bk_pkt_size_header b \<in> {1, 2, 4} \<and> bk_invalid_pkt_size b = mask (8 * bk_pkt_size_header b) \<and>
     bk_max_pkt_size b < 2 ^ (8 * bk_pkt_size_header b) \<and> 0 \<le> bk_seq_num_offset b \<and>
     bk_seq_num_offset b + 2 \<le> bk_max_pkt_size b"

definition slot_ok :: "bucket \<Rightarrow> u8 list \<Rightarrow> bool" where
  "slot_ok b s \<longleftrightarrow> int (length s) = bk_max_pkt_size b + int (bk_pkt_size_header b) \<and>
     (size_of b s = bk_invalid_pkt_size b \<or> uint (size_of b s) \<le> bk_max_pkt_size b - int (bk_pkt_size_header b))"

text \<open>At most \<open>2 ^ 32\<close> slots, so that the indices do not overflow.\<close>

definition bk_ok :: "bucket \<Rightarrow> bool" where
  "bk_ok b \<longleftrightarrow> header_ok b \<and> 0 < bk_init_capacity b \<and> 0 < bk_max_steps b \<and> bk_max_steps b \<le> 4294967296 \<and>
     0 \<le> bk_step b \<and> bk_step b < bk_max_steps b \<and> int (length (bk_slots b)) = bk_max_steps b \<and>
     (\<forall>s \<in> set (bk_slots b). slot_ok b s)"

lemma bk_okD:
  assumes "bk_ok b"
  shows "header_ok b" "0 < bk_init_capacity b" "0 < bk_max_steps b" "bk_max_steps b \<le> 4294967296"
    "0 \<le> bk_step b" "bk_step b < bk_max_steps b" "int (length (bk_slots b)) = bk_max_steps b"
    "\<And>s. s \<in> set (bk_slots b) \<Longrightarrow> slot_ok b s" "length (contents b) = length (bk_slots b)"
  using assms by (simp_all add: bk_ok_def contents_def)

text \<open>A change of one slot.\<close>

lemma with_slot:
  assumes "bk_ok b" "slot_ok b s"
  shows "bk_ok (b\<lparr>bk_slots := (bk_slots b)[i := s]\<rparr>)"
    "contents (b\<lparr>bk_slots := (bk_slots b)[i := s]\<rparr>) = (contents b)[i := content b s]"
proof -
  have "slot_ok (b\<lparr>bk_slots := x\<rparr>) = slot_ok b" for x by (simp add: slot_ok_def [abs_def] size_of_def)
  moreover have "header_ok (b\<lparr>bk_slots := x\<rparr>) = header_ok b" for x by (simp add: header_ok_def)
  ultimately show "bk_ok (b\<lparr>bk_slots := (bk_slots b)[i := s]\<rparr>)"
    using assms set_update_subset_insert [of "bk_slots b" i s] by (auto simp: bk_ok_def)
  have "size_of (b\<lparr>bk_slots := x\<rparr>) s = size_of b s" for x s by (simp add: size_of_def)
  then have "content (b\<lparr>bk_slots := x\<rparr>) = content b" for x by (simp add: content_def fun_eq_iff)
  then show "contents (b\<lparr>bk_slots := (bk_slots b)[i := s]\<rparr>) = (contents b)[i := content b s]"
    by (simp add: contents_def map_update)
qed

lemma size_of_bytes: "size_of b (be_bytes (bk_pkt_size_header b) v @ x) = take_bit (8 * bk_pkt_size_header b) v"
  by (simp add: size_of_def be_value_bytes)

lemma header_okD:
  assumes "header_ok b"
  shows "bk_pkt_size_header b \<in> {1, 2, 4}" "bk_invalid_pkt_size b = mask (8 * bk_pkt_size_header b)"
    "take_bit (8 * bk_pkt_size_header b) (bk_invalid_pkt_size b) = bk_invalid_pkt_size b"
    "0 \<le> bk_seq_num_offset b" "bk_seq_num_offset b + 2 \<le> bk_max_pkt_size b"
    "uint (bk_invalid_pkt_size b) = 2 ^ (8 * bk_pkt_size_header b) - 1"
    "bk_max_pkt_size b < 2 ^ (8 * bk_pkt_size_header b)"
  using assms by (auto simp: header_ok_def mask_eq_exp_minus_1)

lemma packet_size:
  assumes h: "header_ok b" and p: "int (length pkt) \<le> bk_max_pkt_size b - int (bk_pkt_size_header b)"
  defines "sz \<equiv> (word_of_int (int (length pkt)) :: u64)"
  shows "take_bit (8 * bk_pkt_size_header b) sz = sz" "sz \<noteq> bk_invalid_pkt_size b" "uint sz = int (length pkt)"
    "unat sz = length pkt"
proof -
  note hd = header_okD [OF h]
  have small: "int (length pkt) < 2 ^ (8 * bk_pkt_size_header b) - 1" using hd(1,7) p by auto
  then have "int (length pkt) < 2 ^ 64" using hd(1) by auto
  then show u: "uint sz = int (length pkt)" by (simp add: sz_def unsigned_of_nat take_bit_nat_eq_self)
  then show "unat sz = length pkt" by (metis nat_int unat_eq_nat_uint)
  show "sz \<noteq> bk_invalid_pkt_size b" using u small hd(6) by (metis less_irrefl)
  have "take_bit (8 * bk_pkt_size_header b) (uint sz) = uint sz"
    by (rule take_bit_int_eq_self) (use small u in linarith)+
  then have "uint (take_bit (8 * bk_pkt_size_header b) sz) = uint sz" by (simp add: unsigned_take_bit_eq)
  then show "take_bit (8 * bk_pkt_size_header b) sz = sz" by (simp only: word_uint_eq_iff)
qed

lemma slot_at:
  assumes "bk_ok b" "0 \<le> idx" "idx < bk_max_steps b"
  shows "go_nth (bk_slots b) idx = Some (bk_slots b ! nat idx)" "slot_ok b (bk_slots b ! nat idx)"
    "nat idx < length (bk_slots b)" "contents b ! nat idx = content b (bk_slots b ! nat idx)"
proof -
  show l: "nat idx < length (bk_slots b)" using bk_okD(7) [OF assms(1)] assms(2,3) by linarith
  then show "go_nth (bk_slots b) idx = Some (bk_slots b ! nat idx)" using assms(2) by simp
  show "slot_ok b (bk_slots b ! nat idx)" using bk_okD(8) [OF assms(1)] l by simp
  show "contents b ! nat idx = content b (bk_slots b ! nat idx)" using l by (simp add: contents_def)
qed

lemma put_invalid:
  assumes ok: "bk_ok b" and idx: "0 \<le> idx" "idx < bk_max_steps b"
  shows "\<exists>s. put_size b idx (bk_invalid_pkt_size b) = Some (b\<lparr>bk_slots := (bk_slots b)[nat idx := s]\<rparr>) \<and>
    slot_ok b s \<and> content b s = None"
proof -
  note sl = slot_at [OF ok idx] and hd = header_okD [OF bk_okD(1) [OF ok]]
  let ?h = "bk_pkt_size_header b" and ?s = "bk_slots b ! nat idx"
  have len: "int (length ?s) = bk_max_pkt_size b + int ?h" using sl(2) by (simp add: slot_ok_def)
  then have le: "?h \<le> length ?s" using hd(4,5) by linarith
  let ?s' = "be_bytes ?h (bk_invalid_pkt_size b) @ drop ?h ?s"
  have "size_of b ?s' = bk_invalid_pkt_size b" using hd(3) by (simp add: size_of_bytes)
  moreover have "int (length ?s') = bk_max_pkt_size b + int ?h" using len le by simp
  moreover have "put_size b idx (bk_invalid_pkt_size b) = Some (b\<lparr>bk_slots := (bk_slots b)[nat idx := ?s']\<rparr>)"
    using sl(1,3) idx le by (simp add: put_size_def put_num_Some)
  ultimately show ?thesis by (auto simp: slot_ok_def content_def)
qed

lemma store_ok:
  assumes ok: "bk_ok b" and idx: "0 \<le> idx" "idx < bk_max_steps b"
    and p: "int (length pkt) \<le> bk_max_pkt_size b - int (bk_pkt_size_header b)"
  shows "\<exists>s. bk_store b idx pkt = Some (b\<lparr>bk_slots := (bk_slots b)[nat idx := s]\<rparr>, pkt) \<and>
    slot_ok b s \<and> content b s = Some pkt \<and>
    take (bk_pkt_size_header b) s = be_bytes (bk_pkt_size_header b) (word_of_int (int (length pkt))) \<and>
    (\<exists>x. s = take (bk_pkt_size_header b) s @ pkt @ x)"
proof -
  note sl = slot_at [OF ok idx] and hd = header_okD [OF bk_okD(1) [OF ok]] and sz = packet_size [OF bk_okD(1) [OF ok] p]
  let ?h = "bk_pkt_size_header b" and ?s = "bk_slots b ! nat idx" and ?n = "word_of_int (int (length pkt)) :: u64"
  have len: "int (length ?s) = bk_max_pkt_size b + int ?h" using sl(2) by (simp add: slot_ok_def)
  then have le: "?h \<le> length ?s" "?h + length pkt \<le> length ?s" using hd(4,5) p by linarith+
  let ?s' = "be_bytes ?h ?n @ pkt @ drop (length pkt) (drop ?h ?s)"
  have b: "bk_store b idx pkt = Some (b\<lparr>bk_slots := (bk_slots b)[nat idx := ?s']\<rparr>, pkt)"
    using sl(1,3) idx le by (simp add: bk_store_def put_size_def put_num_Some Let_def)
  have size: "size_of b ?s' = ?n" using sz(1) by (simp add: size_of_bytes)
  have "slot_ok b ?s'" using len le size sz(3) p by (simp add: slot_ok_def) 
  moreover have "content b ?s' = Some pkt" using size sz(2,4) by (simp add: content_def)
  ultimately show ?thesis using b by fastforce
qed

section \<open>Wrapping of slot indices\<close>

lemma wrap_up_total:
  assumes "0 < bk_max_steps b" "bk_max_steps b \<le> 4294967296" "- 4611686018427387904 \<le> x" "x < 0"
  shows "\<exists>k. wrap_up b x = Some (x + k * bk_max_steps b) \<and> 0 \<le> x + k * bk_max_steps b \<and> x + k * bk_max_steps b < bk_max_steps b"
  using assms(3,4)
proof (induction "nat (- x)" arbitrary: x rule: less_induct)
  case less
  have i: "i64 (x + bk_max_steps b) = x + bk_max_steps b" using less.prems assms(1,2) by (intro i64_id) linarith+
  show ?case
  proof (cases "x + bk_max_steps b < 0")
    case True
    then obtain k where "wrap_up b (x + bk_max_steps b) = Some (x + bk_max_steps b + k * bk_max_steps b)"
      "0 \<le> x + bk_max_steps b + k * bk_max_steps b" "x + bk_max_steps b + k * bk_max_steps b < bk_max_steps b"
      using less.hyps [of "x + bk_max_steps b"] less.prems assms(1) by auto
    then show ?thesis using less.prems i
      by (intro exI [of _ "k + 1"]) (subst wrap_up.simps, simp add: algebra_simps)
  next
    case False
    then have "wrap_up b (x + bk_max_steps b) = Some (x + bk_max_steps b)" by (subst wrap_up.simps) simp
    then show ?thesis using less.prems i False
      by (intro exI [of _ 1]) (subst wrap_up.simps, simp)
  qed
qed

lemma wrap_down_total:
  assumes "0 < bk_max_steps b" "bk_max_steps b \<le> 4294967296" "x < 9000000000000000000" "0 \<le> x"
  shows "wrap_down b x = Some (x mod bk_max_steps b)"
  using assms(3,4)
proof (induction "nat x" arbitrary: x rule: less_induct)
  case less
  show ?case
  proof (cases "x < bk_max_steps b")
    case True
    then show ?thesis using less.prems by (subst wrap_down.simps) simp
  next
    case False
    have i: "i64 (x - bk_max_steps b) = x - bk_max_steps b" using less.prems assms(1,2) False by (intro i64_id) linarith+
    have "wrap_down b (x - bk_max_steps b) = Some ((x - bk_max_steps b) mod bk_max_steps b)"
      using less.hyps [of "x - bk_max_steps b"] less.prems assms(1) False by auto
    then show ?thesis using False i by (subst wrap_down.simps) (simp add: minus_mod_self2)
  qed
qed

lemma wrap_total:
  assumes "bk_ok b" "- 4611686018427387904 \<le> x" "x < 9000000000000000000"
  shows "bk_wrap b x = Some (x mod bk_max_steps b)"
proof (cases "x < 0")
  case True
  obtain k where k: "wrap_up b x = Some (x + k * bk_max_steps b)" "0 \<le> x + k * bk_max_steps b"
    "x + k * bk_max_steps b < bk_max_steps b"
    using wrap_up_total [OF bk_okD(3,4) [OF assms(1)] assms(2) True] by blast
  have "x mod bk_max_steps b = (x + k * bk_max_steps b) mod bk_max_steps b" by simp
  also have "\<dots> = x + k * bk_max_steps b" using k(2,3) by (rule mod_pos_pos_trivial)
  finally have "x mod bk_max_steps b = x + k * bk_max_steps b" .
  with k show ?thesis unfolding bk_wrap_def by (simp, subst wrap_down.simps) simp
next
  case False
  then have "wrap_up b x = Some x" by (subst wrap_up.simps) simp
  with wrap_down_total [OF bk_okD(3,4) [OF assms(1)] assms(3)] False show ?thesis by (simp add: bk_wrap_def)
qed

lemma invalidate_loop_total:
  assumes "bk_ok b" "0 \<le> start" "start < bk_max_steps b" "0 \<le> i" "i + int n \<le> bk_max_steps b"
  shows "\<exists>slots. invalidate_loop b start n i = Some (b\<lparr>bk_slots := slots\<rparr>) \<and> bk_ok (b\<lparr>bk_slots := slots\<rparr>) \<and>
    (\<forall>j < length (bk_slots b). contents (b\<lparr>bk_slots := slots\<rparr>) ! j =
      (if \<exists>k. i \<le> k \<and> k < i + int n \<and> int j = (start + k) mod bk_max_steps b then None else contents b ! j))"
  using assms
proof (induction n arbitrary: b i)
  case 0
  then show ?case by (intro exI [of _ "bk_slots b"]) auto
next
  case (Suc n)
  let ?M = "bk_max_steps b"
  note ok = bk_okD [OF Suc.prems(1)]
  let ?idx = "(start + i) mod ?M"
  have idx: "0 \<le> ?idx" "?idx < ?M" using ok(3) by simp_all
  have b: "start + i < 8589934592" "0 \<le> start + i" using Suc.prems ok(4) by linarith+
  then have w: "bk_wrap b (i64 (start + i)) = Some ?idx"
    using wrap_total [OF Suc.prems(1)] by (simp add: i64_id)
  obtain s where s: "put_size b ?idx (bk_invalid_pkt_size b) = Some (b\<lparr>bk_slots := (bk_slots b)[nat ?idx := s]\<rparr>)"
    "slot_ok b s" "content b s = None"
    using put_invalid [OF Suc.prems(1) idx] by blast
  let ?b = "b\<lparr>bk_slots := (bk_slots b)[nat ?idx := s]\<rparr>"
  note ws = with_slot [OF Suc.prems(1) s(2), of "nat ?idx"]
  obtain slots where sl: "invalidate_loop ?b start n (i + 1) = Some (?b\<lparr>bk_slots := slots\<rparr>)" "bk_ok (?b\<lparr>bk_slots := slots\<rparr>)"
    "\<forall>j < length (bk_slots ?b). contents (?b\<lparr>bk_slots := slots\<rparr>) ! j =
      (if \<exists>k. i + 1 \<le> k \<and> k < i + 1 + int n \<and> int j = (start + k) mod bk_max_steps ?b then None else contents ?b ! j)"
    using Suc.IH [OF ws(1), of "i + 1"] Suc.prems by auto
  have "contents (b\<lparr>bk_slots := slots\<rparr>) ! j =
      (if \<exists>k. i \<le> k \<and> k < i + int (Suc n) \<and> int j = (start + k) mod ?M then None else contents b ! j)"
    if "j < length (bk_slots b)" for j
  proof -
    have c: "contents ?b ! j = (if int j = ?idx then None else contents b ! j)"
      unfolding ws(2) s(3) using that idx by (auto simp: nth_list_update contents_def)
    have e: "(\<exists>k. i \<le> k \<and> k < i + int (Suc n) \<and> int j = (start + k) mod ?M) \<longleftrightarrow>
      int j = ?idx \<or> (\<exists>k. i + 1 \<le> k \<and> k < i + 1 + int n \<and> int j = (start + k) mod ?M)"
    proof
      assume "\<exists>k. i \<le> k \<and> k < i + int (Suc n) \<and> int j = (start + k) mod ?M"
      then obtain k where k: "i \<le> k" "k < i + int (Suc n)" "int j = (start + k) mod ?M" by blast
      show "int j = ?idx \<or> (\<exists>k. i + 1 \<le> k \<and> k < i + 1 + int n \<and> int j = (start + k) mod ?M)"
      proof (cases "k = i")
        case False
        then have "i + 1 \<le> k" "k < i + 1 + int n" using k(1,2) by simp_all
        with k(3) show ?thesis by blast
      qed (use k(3) in simp)
    next
      assume "int j = ?idx \<or> (\<exists>k. i + 1 \<le> k \<and> k < i + 1 + int n \<and> int j = (start + k) mod ?M)"
      then consider "int j = ?idx" | k where "i + 1 \<le> k" "k < i + 1 + int n" "int j = (start + k) mod ?M" by blast
      then show "\<exists>k. i \<le> k \<and> k < i + int (Suc n) \<and> int j = (start + k) mod ?M"
      proof cases
        case 1
        then show ?thesis by (intro exI [of _ i]) simp
      next
        case (2 k)
        then show ?thesis by (intro exI [of _ k]) simp
      qed
    qed
    show ?thesis using sl(3) that c unfolding e by auto
  qed
  moreover have "invalidate_loop b start (Suc n) i = Some (b\<lparr>bk_slots := slots\<rparr>)" using w s(1) sl(1) by simp
  moreover have "bk_ok (b\<lparr>bk_slots := slots\<rparr>)" using sl(2) by simp
  ultimately show ?case by blast
qed

lemma same_contents: "contents (b\<lparr>bk_head_sn := x\<rparr>) = contents b" "contents (b\<lparr>bk_step := y\<rparr>) = contents b"
  "contents (b\<lparr>bk_init := z\<rparr>) = contents b" "contents (b\<lparr>bk_resync_on_next_packet := w\<rparr>) = contents b"
  by (simp_all add: contents_def content_def [abs_def] size_of_def)

lemma same_ok: "bk_ok (b\<lparr>bk_head_sn := x\<rparr>) = bk_ok b" "bk_ok (b\<lparr>bk_init := z\<rparr>) = bk_ok b"
  "bk_ok (b\<lparr>bk_resync_on_next_packet := w\<rparr>) = bk_ok b"
  by (simp_all add: bk_ok_def slot_ok_def size_of_def header_ok_def)

lemma step_ok: "bk_ok b \<Longrightarrow> 0 \<le> y \<Longrightarrow> y < bk_max_steps b \<Longrightarrow> bk_ok (b\<lparr>bk_step := y\<rparr>)"
proof -
  have "slot_ok (b\<lparr>bk_step := y\<rparr>) = slot_ok b" "header_ok (b\<lparr>bk_step := y\<rparr>) = header_ok b"
    by (simp_all add: slot_ok_def [abs_def] size_of_def header_ok_def)
  then show "bk_ok b \<Longrightarrow> 0 \<le> y \<Longrightarrow> y < bk_max_steps b \<Longrightarrow> bk_ok (b\<lparr>bk_step := y\<rparr>)" by (simp add: bk_ok_def)
qed

lemma push_total:
  assumes ok: "bk_ok b" and gap: "0 \<le> gap" "gap < 4611686018427387904"
    and p: "int (length pkt) \<le> bk_max_pkt_size b - int (bk_pkt_size_header b)"
  defines "idx \<equiv> (bk_step b + gap) mod bk_max_steps b"
  shows "\<exists>slots. bk_push b sn gap pkt =
      Some (b\<lparr>bk_head_sn := sn, bk_slots := slots, bk_step := (bk_step b + gap + 1) mod bk_max_steps b\<rparr>, Inr (idx, pkt)) \<and>
    bk_ok (b\<lparr>bk_slots := slots\<rparr>) \<and>
    (\<forall>j < length (bk_slots b). contents (b\<lparr>bk_slots := slots\<rparr>) ! j =
      (if int j = idx then Some pkt
       else if \<exists>k. 0 \<le> k \<and> k < gap \<and> int j = (bk_step b + k) mod bk_max_steps b then None else contents b ! j))"
proof -
  let ?M = "bk_max_steps b" and ?b = "b\<lparr>bk_head_sn := sn\<rparr>"
  note o = bk_okD [OF ok]
  define n where "n = (if gap > ?M then ?M else gap)"
  have n: "0 \<le> n" "n \<le> ?M" "n \<le> gap" using gap(1) o(3) by (simp_all add: n_def)
  have "bk_ok ?b" using ok by (simp add: same_ok)
  from invalidate_loop_total [OF this, of "bk_step b" 0 "nat n"] o(5,6) n
  obtain slots where sl: "invalidate_loop ?b (bk_step b) (nat n) 0 = Some (?b\<lparr>bk_slots := slots\<rparr>)"
    "bk_ok (?b\<lparr>bk_slots := slots\<rparr>)"
    "\<forall>j < length (bk_slots b). contents (?b\<lparr>bk_slots := slots\<rparr>) ! j =
      (if \<exists>k. 0 \<le> k \<and> k < n \<and> int j = (bk_step b + k) mod ?M then None else contents ?b ! j)"
    by auto
  let ?b1 = "?b\<lparr>bk_slots := slots\<rparr>"
  have inv: "bk_invalidate ?b (bk_step b) gap = Some ?b1" using sl(1) by (cases "gap > ?M") (simp_all add: bk_invalidate_def n_def)
  have idx: "0 \<le> idx" "idx < bk_max_steps ?b1" using o(3) by (simp_all add: idx_def)
  have len: "length slots = length (bk_slots b)" using bk_okD(7) [OF sl(2)] o(7) by simp
  have r: "i64 (bk_step b + gap) = bk_step b + gap" "i64 (i64 (bk_step b + gap) + 1) = bk_step b + gap + 1"
    using o(4-6) gap by (simp_all add: i64_id)
  have w1: "bk_wrap ?b1 (i64 (bk_step b + gap)) = Some idx"
    using wrap_total [OF sl(2), of "bk_step b + gap"] o(4-6) gap r by (simp add: idx_def)
  obtain s where s: "bk_store ?b1 idx pkt = Some (?b1\<lparr>bk_slots := slots[nat idx := s]\<rparr>, pkt)"
    "slot_ok ?b1 s" "content ?b1 s = Some pkt"
    using store_ok [OF sl(2) idx, of pkt] p by auto
  note ws = with_slot [OF sl(2) s(2), of "nat idx"]
  let ?s = "slots[nat idx := s]"
  have w2: "bk_wrap (?b1\<lparr>bk_slots := ?s\<rparr>) (i64 (i64 (bk_step b + gap) + 1)) = Some ((bk_step b + gap + 1) mod ?M)"
    using wrap_total [OF ws(1), of "bk_step b + gap + 1"] o(4-6) gap r by simp
  have swap: "b\<lparr>bk_head_sn := sn, bk_slots := x\<rparr> = b\<lparr>bk_slots := x, bk_head_sn := sn\<rparr>" for x by simp
  have "bk_push b sn gap pkt = Some (b\<lparr>bk_head_sn := sn, bk_slots := ?s, bk_step := (bk_step b + gap + 1) mod ?M\<rparr>, Inr (idx, pkt))"
    using inv w1 s(1) w2 by (simp add: bk_push_def)
  moreover have "bk_ok (b\<lparr>bk_slots := ?s\<rparr>)" using ws(1) by (simp add: swap same_ok)
  moreover have "contents (b\<lparr>bk_slots := ?s\<rparr>) ! j = (if int j = idx then Some pkt
       else if \<exists>k. 0 \<le> k \<and> k < gap \<and> int j = (bk_step b + k) mod ?M then None else contents b ! j)"
    if j: "j < length (bk_slots b)" for j
  proof -
    have "contents (b\<lparr>bk_slots := ?s\<rparr>) = (contents ?b1)[nat idx := Some pkt]"
      using ws(2) s(3) by (simp add: swap same_contents)
    then have c: "contents (b\<lparr>bk_slots := ?s\<rparr>) ! j = (if int j = idx then Some pkt else contents ?b1 ! j)"
      using j idx len by (auto simp: nth_list_update contents_def)
    have e: "(\<exists>k. 0 \<le> k \<and> k < n \<and> int j = (bk_step b + k) mod ?M) \<longleftrightarrow> (\<exists>k. 0 \<le> k \<and> k < gap \<and> int j = (bk_step b + k) mod ?M)"
    proof (cases "gap > ?M")
      case True
      have "int j = (bk_step b + (int j - bk_step b) mod ?M) mod ?M"
        using j o(7) by (simp add: mod_simps)
      then have "\<exists>k. 0 \<le> k \<and> k < ?M \<and> int j = (bk_step b + k) mod ?M"
        using o(3) by (intro exI [of _ "(int j - bk_step b) mod ?M"]) simp
      with True show ?thesis by (auto simp: n_def intro: less_trans)
    qed (simp add: n_def)
    show ?thesis unfolding c e [symmetric] sl(3) [rule_format, OF j] by (simp only: same_contents)
  qed
  ultimately show ?thesis by blast
qed

section \<open>The packets of a bucket\<close>

text \<open>The slot of a number is a linear function of it, which \<open>push\<close> does not change.\<close>

definition slot_of :: "bucket \<Rightarrow> int \<Rightarrow> int" where
  "slot_of b n = (n + (bk_step b - 1 - uint (bk_head_sn b))) mod bk_max_steps b"

definition bk_find :: "bucket \<Rightarrow> int \<Rightarrow> u8 list option" where
  "bk_find b n = (if uint (bk_head_sn b) - bk_max_steps b < n \<and> n \<le> uint (bk_head_sn b)
     then contents b ! nat (slot_of b n) else None)"

lemma slot_of_range:
  assumes "bk_ok b"
  shows "0 \<le> slot_of b n" "slot_of b n < bk_max_steps b" "nat (slot_of b n) < length (bk_slots b)"
  using bk_okD(3,7) [OF assms] by (simp_all add: slot_of_def nat_less_iff)

lemma mod_close:
  fixes a b M :: int
  assumes "a mod M = b mod M" "\<bar>a - b\<bar> < M"
  shows "a = b"
proof -
  have "M dvd (a - b)" using assms(1) by (simp add: mod_eq_dvd_iff)
  then have "a - b = 0" using assms(2) zdvd_not_zless [of "\<bar>a - b\<bar>" M] by (cases "a - b = 0") auto
  then show ?thesis by simp
qed

lemma slot_of_inj: "slot_of b n = slot_of b k \<Longrightarrow> \<bar>n - k\<bar> < bk_max_steps b \<Longrightarrow> n = k"
  unfolding slot_of_def by (drule mod_close) auto

text \<open>Numbers of extended sequence numbers in range, and their differences as 64 bit words.\<close>

lemma uint_bound: "x < sn_limit \<Longrightarrow> uint x < 4611686018427387904 \<and> - 1 < uint (y :: u64)"
  using uint_ge_0 [of y] by (intro conjI) (simp add: word_less_def, linarith)

lemma add_cases:
  assumes sn: "sn < sn_limit" "h < sn_limit"
  shows "(sn - h = 0 \<or> sn - h > half_range) \<longleftrightarrow> uint sn \<le> uint h"
    "uint sn \<le> uint h \<Longrightarrow> sint (h - sn) = uint h - uint sn"
    "uint h < uint sn \<Longrightarrow> i64 (sint (sn - h) - 1) = uint sn - uint h - 1"
proof -
  have b: "uint sn < 4611686018427387904" "uint h < 4611686018427387904" "0 \<le> uint sn" "0 \<le> uint h"
    using sn by (simp_all add: word_less_def)
  have d: "sint (h - sn) = uint h - uint sn" "sint (sn - h) = uint sn - uint h"
    using sn_diff [OF sn(2,1)] sn_diff [OF sn] by (simp_all add: i64_of_def)
  show "sint (h - sn) = uint h - uint sn" by (rule d)
  show "i64 (sint (sn - h) - 1) = uint sn - uint h - 1" unfolding d(2) using b by (intro i64_id) linarith+
  have hr: "uint half_range = 9223372036854775808" by (simp add: half_range_def)
  have u: "uint (sn - h) = (if uint h \<le> uint sn then uint sn - uint h else uint sn - uint h + 18446744073709551616)"
    using b by (simp add: uint_sub_if')
  show "(sn - h = 0 \<or> sn - h > half_range) \<longleftrightarrow> uint sn \<le> uint h"
  proof -
    define x where "x = uint sn"
    define y where "y = uint h"
    show ?thesis
      unfolding word_less_def hr u word_uint_eq_iff x_def [symmetric] y_def [symmetric]
      using b [folded x_def y_def] by auto
  qed
qed

text \<open>A bucket that has packets, up to the number \<open>headSN\<close>.\<close>

definition bk_running :: "bucket \<Rightarrow> bool" where
  "bk_running b \<longleftrightarrow> bk_ok b \<and> bk_init b \<and> \<not> bk_resync_on_next_packet b \<and> bk_head_sn b < sn_limit"

definition fits :: "bucket \<Rightarrow> u8 list \<Rightarrow> bool" where
  "fits b pkt \<longleftrightarrow> int (length pkt) \<le> bk_max_pkt_size b - int (bk_pkt_size_header b) \<and>
     bk_seq_num_offset b + 2 \<le> int (length pkt)"

text \<open>What adding a packet does not change.\<close>

definition same_config :: "bucket \<Rightarrow> bucket \<Rightarrow> bool" where
  "same_config b b' \<longleftrightarrow> bk_max_pkt_size b' = bk_max_pkt_size b \<and> bk_pkt_size_header b' = bk_pkt_size_header b \<and>
     bk_seq_num_offset b' = bk_seq_num_offset b \<and> bk_max_steps b' = bk_max_steps b \<and>
     bk_init_capacity b' = bk_init_capacity b \<and> bk_init b' = bk_init b \<and>
     bk_resync_on_next_packet b' = bk_resync_on_next_packet b"

definition stamped :: "bucket \<Rightarrow> u8 list \<Rightarrow> u64 \<Rightarrow> u8 list" where
  "stamped b pkt sn = (let o' = nat (bk_seq_num_offset b) in take o' pkt @ be_bytes 2 sn @ drop (o' + 2) pkt)"

lemma push_find:
  assumes run: "bk_running b" and sn: "sn < sn_limit" "uint (bk_head_sn b) < uint sn" and p: "fits b pkt"
  shows "\<exists>b1. add_packet_sn b pkt sn = Some (b1, Inr (slot_of b1 (uint sn), pkt)) \<and>
    bk_ok b1 \<and> same_config b b1 \<and> bk_head_sn b1 = sn \<and>
    (\<forall>n. bk_find b1 n = (if n = uint sn then Some pkt
       else if uint sn - bk_max_steps b < n \<and> n \<le> uint (bk_head_sn b) then bk_find b n else None))"
proof -
  note r = run [unfolded bk_running_def]
  have ok: "bk_ok b" and h: "bk_head_sn b < sn_limit" using r by auto
  note o = bk_okD [OF ok] and ac = add_cases [OF sn(1) h]
  let ?M = "bk_max_steps b" and ?H = "uint (bk_head_sn b)"
  define gap where "gap = uint sn - ?H - 1"
  have gap: "0 \<le> gap" "gap < 4611686018427387904"
    using sn(2) uint_bound [OF sn(1), of "bk_head_sn b"] unfolding gap_def by linarith+
  from push_total [OF ok gap, of pkt sn] p
  obtain slots where sl: "bk_push b sn gap pkt =
      Some (b\<lparr>bk_head_sn := sn, bk_slots := slots, bk_step := (bk_step b + gap + 1) mod ?M\<rparr>, Inr ((bk_step b + gap) mod ?M, pkt))"
    "bk_ok (b\<lparr>bk_slots := slots\<rparr>)"
    "\<forall>j < length (bk_slots b). contents (b\<lparr>bk_slots := slots\<rparr>) ! j =
      (if int j = (bk_step b + gap) mod ?M then Some pkt
       else if \<exists>k. 0 \<le> k \<and> k < gap \<and> int j = (bk_step b + k) mod ?M then None else contents b ! j)"
    unfolding fits_def by blast
  let ?st = "(bk_step b + gap + 1) mod ?M"
  let ?b = "b\<lparr>bk_head_sn := sn, bk_slots := slots, bk_step := ?st\<rparr>"
  have swap: "?b = b\<lparr>bk_slots := slots, bk_head_sn := sn, bk_step := ?st\<rparr>" by simp
  have slot: "slot_of ?b n = slot_of b n" for n
  proof -
    have "(n + (?st - 1 - uint sn)) mod ?M = ((n - 1 - uint sn) + (bk_step b + gap + 1) mod ?M) mod ?M"
      by (simp add: algebra_simps)
    also have "\<dots> = ((n - 1 - uint sn) + (bk_step b + gap + 1)) mod ?M" by (rule mod_add_right_eq)
    also have "(n - 1 - uint sn) + (bk_step b + gap + 1) = n + (bk_step b - 1 - ?H)" by (simp add: gap_def)
    finally show ?thesis by (simp add: slot_of_def)
  qed
  have idx: "(bk_step b + gap) mod ?M = slot_of b (uint sn)" by (simp add: slot_of_def gap_def algebra_simps)
  have gaps: "(bk_step b + k) mod ?M = slot_of b (?H + 1 + k)" for k by (simp add: slot_of_def algebra_simps)
  have okb: "bk_ok ?b" unfolding swap using sl(2) o(3) by (intro step_ok) (simp_all add: same_ok)
  have c: "contents ?b = contents (b\<lparr>bk_slots := slots\<rparr>)" unfolding swap by (simp add: same_contents)
  have find: "bk_find ?b n = (if n = uint sn then Some pkt
       else if uint sn - ?M < n \<and> n \<le> ?H then bk_find b n else None)" for n
  proof (cases "uint sn - ?M < n \<and> n \<le> uint sn")
    case True
    let ?j = "nat (slot_of b n)"
    have j: "?j < length (bk_slots b)" "int ?j = slot_of b n" using slot_of_range [OF ok, of n] by simp_all
    have here: "slot_of b n = slot_of b (uint sn) \<longleftrightarrow> n = uint sn"
      using slot_of_inj [of b n "uint sn"] True by auto
    have there: "(\<exists>k. 0 \<le> k \<and> k < gap \<and> slot_of b n = slot_of b (?H + 1 + k)) \<longleftrightarrow> ?H < n" if "n \<noteq> uint sn"
    proof
      assume "\<exists>k. 0 \<le> k \<and> k < gap \<and> slot_of b n = slot_of b (?H + 1 + k)"
      then obtain k where k: "0 \<le> k" "k < gap" "slot_of b n = slot_of b (?H + 1 + k)" by blast
      show "?H < n"
      proof (rule ccontr)
        assume "\<not> ?H < n"
        then have "n = ?H + 1 + k" using slot_of_inj [OF k(3)] k True by (simp add: gap_def)
        with k \<open>\<not> ?H < n\<close> show False by simp
      qed
    next
      assume "?H < n"
      then show "\<exists>k. 0 \<le> k \<and> k < gap \<and> slot_of b n = slot_of b (?H + 1 + k)"
        using True that by (intro exI [of _ "n - ?H - 1"]) (simp add: gap_def)
    qed
    have "bk_find ?b n = contents ?b ! ?j" using True by (simp add: bk_find_def slot)
    also have "\<dots> = (if n = uint sn then Some pkt else if ?H < n then None else contents b ! ?j)"
      unfolding c sl(3) [rule_format, OF j(1)] j(2) idx here
      unfolding gaps using there by auto
    finally show ?thesis using True sn by (auto simp: bk_find_def)
  next
    case False
    then show ?thesis using sn o(3) by (auto simp: bk_find_def)
  qed
  have "add_packet_sn b pkt sn = bk_push b sn gap pkt"
    using p r ac(1,3) sn by (simp add: add_packet_sn_def fits_def Let_def gap_def)
  then have "add_packet_sn b pkt sn = Some (?b, Inr (slot_of ?b (uint sn), pkt))"
    using sl(1) unfolding slot idx by simp
  moreover have "same_config b ?b" "bk_head_sn ?b = sn" by (simp_all add: same_config_def)
  ultimately show ?thesis using okb find by blast
qed

section \<open>Reading a slot\<close>

lemma content_split:
  assumes "bk_ok b" "slot_ok b s" "content b s = Some p"
  shows "\<exists>x. s = take (bk_pkt_size_header b) s @ p @ x" "uint (size_of b s) = int (length p)"
    "length (take (bk_pkt_size_header b) s) = bk_pkt_size_header b" "size_of b s \<noteq> bk_invalid_pkt_size b"
    "int (length p) \<le> bk_max_pkt_size b - int (bk_pkt_size_header b)"
proof -
  let ?h = "bk_pkt_size_header b"
  note hd = header_okD [OF bk_okD(1) [OF assms(1)]]
  show ne: "size_of b s \<noteq> bk_invalid_pkt_size b" using assms(3) by (auto simp: content_def)
  have p: "p = take (unat (size_of b s)) (drop ?h s)" using assms(3) ne by (simp add: content_def)
  have l: "int (length s) = bk_max_pkt_size b + int ?h" "uint (size_of b s) \<le> bk_max_pkt_size b - int ?h"
    using assms(2) ne by (auto simp: slot_ok_def)
  have "unat (size_of b s) \<le> length (drop ?h s)" unfolding unat_eq_nat_uint nat_le_iff using l by simp
  then have lp: "length p = unat (size_of b s)" by (simp add: p)
  show "uint (size_of b s) = int (length p)" unfolding lp by simp
  with l(2) show "int (length p) \<le> bk_max_pkt_size b - int ?h" by simp
  show "length (take ?h s) = ?h" using l hd(4,5) by simp
  have "p @ drop (unat (size_of b s)) (drop ?h s) = drop ?h s"
    by (subst p) (rule append_take_drop_id)
  then have "take ?h s @ p @ drop (unat (size_of b s)) (drop ?h s) = s" by (simp only: append_take_drop_id)
  then show "\<exists>x. s = take ?h s @ p @ x" by metis
qed

lemma read_size:
  assumes "bk_ok b" "slot_ok b s"
  shows "get_num (bk_pkt_size_header b) s = Some (size_of b s)"
proof -
  have "bk_pkt_size_header b \<le> length s"
    using header_okD(4,5) [OF bk_okD(1) [OF assms(1)]] assms(2) unfolding slot_ok_def by linarith
  then show ?thesis by (simp add: get_num_def size_of_def)
qed

lemma read_seq_num:
  assumes "bk_ok b" "slot_ok b s" "content b s = Some p" "bk_seq_num_offset b + 2 \<le> int (length p)"
  shows "seq_num_at s (int (bk_pkt_size_header b) + bk_seq_num_offset b) = seq_num_at p (bk_seq_num_offset b)"
    "\<exists>v. seq_num_at p (bk_seq_num_offset b) = Some v"
proof -
  let ?h = "bk_pkt_size_header b" and ?o = "nat (bk_seq_num_offset b)"
  have o: "0 \<le> bk_seq_num_offset b" using header_okD(4) [OF bk_okD(1) [OF assms(1)]] .
  obtain t x where t: "t = take ?h s" "length t = ?h" and s: "s = t @ p @ x"
    using content_split(1,3) [OF assms(1-3)] by blast
  have len: "?o + 2 \<le> length p" using assms(4) o by linarith
  have d: "nat (int ?h + bk_seq_num_offset b) = length t + ?o" using o t(2) by (simp add: nat_add_distrib)
  show "\<exists>v. seq_num_at p (bk_seq_num_offset b) = Some v"
    using len o by (auto simp: seq_num_at_def get_num_def)
  show "seq_num_at s (int ?h + bk_seq_num_offset b) = seq_num_at p (bk_seq_num_offset b)"
    unfolding seq_num_at_def d using len o t(2) by (auto simp: s get_num_def)
qed

lemma stamped_length: "bk_seq_num_offset b + 2 \<le> int (length pkt) \<Longrightarrow> 0 \<le> bk_seq_num_offset b \<Longrightarrow> length (stamped b pkt sn) = length pkt"
  by (simp add: stamped_def Let_def)

lemma stamped_seq_num:
  assumes "bk_seq_num_offset b + 2 \<le> int (length pkt)" "0 \<le> bk_seq_num_offset b"
  shows "seq_num_at (stamped b pkt sn) (bk_seq_num_offset b) = Some (take_bit 16 sn)"
proof -
  have l: "nat (bk_seq_num_offset b) + 2 \<le> length pkt" using assms by linarith
  then have "drop (nat (bk_seq_num_offset b)) (stamped b pkt sn) = be_bytes 2 sn @ drop (nat (bk_seq_num_offset b) + 2) pkt"
    by (simp add: stamped_def Let_def)
  moreover have "\<not> int (length (stamped b pkt sn)) < bk_seq_num_offset b"
    using stamped_length [OF assms] assms by simp
  ultimately show ?thesis using assms(2) by (simp add: seq_num_at_def get_num_bytes)
qed

text \<open>The sequence number is written over the stored packet.\<close>

lemma restamp:
  assumes ok: "bk_ok b" and idx: "0 \<le> idx" "idx < bk_max_steps b"
    and c: "contents b ! nat idx = Some pkt" and p: "bk_seq_num_offset b + 2 \<le> int (length pkt)"
  defines "o' \<equiv> nat (bk_seq_num_offset b)"
  shows "\<exists>s. put_num 2 (drop o' pkt) sn = Some (be_bytes 2 sn @ drop (o' + 2) pkt) \<and>
    (let st = stamped b pkt sn; slot = bk_slots b ! nat idx; h = bk_pkt_size_header b
     in s = take h slot @ st @ drop (h + length st) slot) \<and> slot_ok b s \<and> content b s = Some (stamped b pkt sn)"
proof -
  let ?h = "bk_pkt_size_header b" and ?s = "bk_slots b ! nat idx" and ?st = "stamped b pkt sn"
  note sl = slot_at [OF ok idx]
  have cs: "content b ?s = Some pkt" using c sl(4) by simp
  note k = content_split [OF ok sl(2) cs]
  have o: "0 \<le> bk_seq_num_offset b" using header_okD(4) [OF bk_okD(1) [OF ok]] .
  have len: "length ?st = length pkt" using p o by (rule stamped_length)
  let ?n = "take ?h ?s @ ?st @ drop (?h + length ?st) ?s"
  obtain x where x: "?s = take ?h ?s @ pkt @ x" using k(1) by blast
  have "length ?s = ?h + length pkt + length x" using arg_cong [OF x, of length] k(3) by simp
  then have "length ?n = length ?s" using k(3) len by simp
  moreover have size: "size_of b ?n = size_of b ?s" using k(3) by (simp add: size_of_def)
  ultimately have "slot_ok b ?n" using sl(2) by (simp add: slot_ok_def)
  moreover have "content b ?n = Some ?st"
  proof -
    have "unat (size_of b ?s) = length pkt" using k(2) by (metis nat_int unat_eq_nat_uint)
    then show ?thesis using size k(3,4) len by (simp add: content_def)
  qed
  moreover have "put_num 2 (drop o' pkt) sn = Some (be_bytes 2 sn @ drop (o' + 2) pkt)"
    using p o by (simp add: put_num_def o'_def add.commute)
  ultimately show ?thesis by (auto simp: Let_def)
qed

section \<open>The window a bucket implements\<close>

text \<open>
  What a caller sees: the newest number, how many numbers are kept, and the packets by their
  extended numbers.
\<close>

record packet_window =
  pw_head :: int
  pw_size :: int
  pw_packets :: "int \<Rightarrow> u8 list option"

definition pw_add :: "packet_window \<Rightarrow> int \<Rightarrow> u8 list \<Rightarrow> packet_window \<times> (bucket_err + u8 list)" where
  "pw_add w n p =
    (if pw_head w < n then
       (w\<lparr>pw_head := n, pw_packets := (\<lambda>k. if k = n then Some p
          else if n - pw_size w < k \<and> k \<le> pw_head w then pw_packets w k else None)\<rparr>, Inr p)
     else if pw_head w - n \<ge> pw_size w then (w, Inl ErrPacketTooOld)
     else case pw_packets w n of
       None \<Rightarrow> (w\<lparr>pw_packets := (pw_packets w)(n \<mapsto> p)\<rparr>, Inr p)
     | Some q \<Rightarrow> (w, Inl (if length q = length p then ErrRTXPacket else ErrRTXPacketSize)))"

definition pw_get :: "packet_window \<Rightarrow> nat \<Rightarrow> int \<Rightarrow> bucket_err + u8 list" where
  "pw_get w cap n =
    (if pw_head w < n then Inl ErrPacketTooNew
     else if pw_head w - n \<ge> pw_size w then Inl ErrPacketTooOld
     else case pw_packets w n of
       None \<Rightarrow> Inl ErrPacketSizeInvalid
     | Some p \<Rightarrow> if cap < length p then Inl ErrBufferTooSmall else Inr p)"

definition window :: "bucket \<Rightarrow> packet_window" where
  "window b = \<lparr>pw_head = uint (bk_head_sn b), pw_size = bk_max_steps b, pw_packets = bk_find b\<rparr>"

text \<open>Every packet carries the low 16 bits of the number it is found under.\<close>

definition bk_good :: "bucket \<Rightarrow> bool" where
  "bk_good b \<longleftrightarrow> bk_running b \<and> (\<forall>n p. bk_find b n = Some p \<longrightarrow> fits b p \<and>
     seq_num_at p (bk_seq_num_offset b) = Some (take_bit 16 (word_of_int n)))"

lemma bk_goodD:
  assumes "bk_good b"
  shows "bk_running b" "bk_ok b" "bk_init b" "\<not> bk_resync_on_next_packet b" "bk_head_sn b < sn_limit"
    "bk_find b n = Some p \<Longrightarrow> fits b p"
    "bk_find b n = Some p \<Longrightarrow> seq_num_at p (bk_seq_num_offset b) = Some (take_bit 16 (word_of_int n))"
    "0 \<le> bk_seq_num_offset b"
  using assms header_okD(4) [OF bk_okD(1)] by (auto simp: bk_good_def bk_running_def)

lemma low16: "(ucast (take_bit 16 (word_of_int (uint sn)) :: u64) :: u16) = ucast (sn :: u64)"
  by (rule bit_word_eqI) (simp add: bit_simps)

text \<open>The slot that \<open>get\<close> and \<open>set\<close> look at.\<close>

lemma looked_at:
  assumes g: "bk_good b" and n: "uint (bk_head_sn b) - bk_max_steps b < uint sn" "uint sn \<le> uint (bk_head_sn b)"
  defines "idx \<equiv> slot_of b (uint sn)" and "diff \<equiv> uint (bk_head_sn b) - uint sn"
  shows "bk_wrap b (i64 (i64 (bk_step b - diff) - 1)) = Some idx" "0 \<le> idx" "idx < bk_max_steps b"
    "go_nth (bk_slots b) idx = Some (bk_slots b ! nat idx)" "slot_ok b (bk_slots b ! nat idx)"
    "content b (bk_slots b ! nat idx) = bk_find b (uint sn)" "contents b ! nat idx = bk_find b (uint sn)"
proof -
  note ok = bk_goodD(2) [OF g]
  note o = bk_okD [OF ok]
  have "i64 (i64 (bk_step b - diff) - 1) = bk_step b - diff - 1"
    using o(4-6) n by (simp add: i64_id diff_def)
  moreover have "bk_wrap b (bk_step b - diff - 1) = Some ((bk_step b - diff - 1) mod bk_max_steps b)"
    by (rule wrap_total [OF ok]) (use o(4-6) n in \<open>simp_all add: diff_def\<close>)
  moreover have "(bk_step b - diff - 1) mod bk_max_steps b = idx"
    by (simp add: idx_def slot_of_def diff_def algebra_simps)
  ultimately show "bk_wrap b (i64 (i64 (bk_step b - diff) - 1)) = Some idx" by simp
  show r: "0 \<le> idx" "idx < bk_max_steps b" using slot_of_range [OF ok] by (simp_all add: idx_def)
  note sl = slot_at [OF ok r]
  show "go_nth (bk_slots b) idx = Some (bk_slots b ! nat idx)" "slot_ok b (bk_slots b ! nat idx)" by (rule sl)+
  show "contents b ! nat idx = bk_find b (uint sn)" using n by (simp add: bk_find_def idx_def)
  then show "content b (bk_slots b ! nat idx) = bk_find b (uint sn)" using sl(4) by simp
qed

lemma get_offset:
  assumes h: "bk_head_sn b < sn_limit" and sn: "sn < sn_limit"
  shows "(if bk_head_sn b - sn > half_range then bk_get b sn (i64 (- sint (sn - bk_head_sn b)))
      else bk_get b sn (sint (bk_head_sn b - sn))) = bk_get b sn (uint (bk_head_sn b) - uint sn)"
proof -
  let ?H = "uint (bk_head_sn b)" and ?d = "bk_head_sn b - sn"
  note ac = add_cases [OF h sn]
  have b: "uint sn < 4611686018427387904" "- 1 < uint sn" "?H < 4611686018427387904" "- 1 < ?H"
    using uint_bound [OF sn, of sn] uint_bound [OF h, of "bk_head_sn b"] by simp_all
  show ?thesis
  proof (cases "?H \<le> uint sn")
    case True
    have m: "sint (sn - bk_head_sn b) = uint sn - ?H" using ac(2) True by simp
    then have "i64 (- sint (sn - bk_head_sn b)) = ?H - uint sn" using b by (simp add: i64_id)
    moreover have "sint ?d = ?H - uint sn" if "\<not> ?d > half_range" using ac(1) that True by auto
    ultimately show ?thesis by simp
  next
    case False
    then have "\<not> ?d > half_range" using ac(1) by simp
    moreover have "sint ?d = ?H - uint sn" using sn_diff [OF h sn] by (simp add: i64_of_def)
    ultimately show ?thesis by simp
  qed
qed

lemma get_at_offset:
  assumes g: "bk_good b"
  shows "bk_get b sn (uint (bk_head_sn b) - uint sn) = Some (if uint (bk_head_sn b) < uint sn then Inl ErrPacketTooNew
     else if uint (bk_head_sn b) - uint sn \<ge> bk_max_steps b then Inl ErrPacketTooOld
     else case bk_find b (uint sn) of None \<Rightarrow> Inl ErrPacketSizeInvalid | Some p \<Rightarrow> Inr p)"
proof (cases "uint (bk_head_sn b) < uint sn \<or> uint (bk_head_sn b) - uint sn \<ge> bk_max_steps b")
  case True
  then show ?thesis by (auto simp: bk_get_def)
next
  case False
  then have n: "uint (bk_head_sn b) - bk_max_steps b < uint sn" "uint sn \<le> uint (bk_head_sn b)" by auto
  note ok = bk_goodD(2) [OF g]
  let ?idx = "slot_of b (uint sn)"
  let ?s = "bk_slots b ! nat ?idx"
  note l = looked_at [OF g n]
  show ?thesis
  proof (cases "bk_find b (uint sn)")
    case None
    then have "size_of b ?s = bk_invalid_pkt_size b" using l(6) by (auto simp: content_def split: if_splits)
    then show ?thesis using False None l(1,4) read_size [OF ok l(5)] by (simp add: bk_get_def)
  next
    case (Some p)
    have c: "content b ?s = Some p" using l(6) Some by simp
    note k = content_split [OF ok l(5) c]
    have f: "fits b p" using bk_goodD(6) [OF g Some] .
    have seq: "seq_num_at ?s (int (bk_pkt_size_header b) + bk_seq_num_offset b) = Some (take_bit 16 (word_of_int (uint sn)))"
      using read_seq_num(1) [OF ok l(5) c] f bk_goodD(7) [OF g Some] by (simp add: fits_def)
    have u: "unat (size_of b ?s) = length p" using k(2) by (metis nat_int unat_eq_nat_uint)
    obtain x where x: "?s = take (bk_pkt_size_header b) ?s @ p @ x" using k(1) by blast
    have "length ?s = bk_pkt_size_header b + length p + length x" using arg_cong [OF x, of length] k(3) by simp
    moreover have "take (length p) (drop (bk_pkt_size_header b) ?s) = p"
      using c k(4) u by (simp add: content_def)
    ultimately show ?thesis
      using False Some l(1,4) read_size [OF ok l(5)] k(4) seq u low16 [of sn] by (simp add: bk_get_def)
  qed
qed

text \<open>
  C25. \<open>GetPacket\<close> is the lookup of the window: too new, too old, not there, too large for the
  buffer, or the packet that was stored under that number.  It never panics, and
  \<open>ErrPacketMismatch\<close> does not occur.
\<close>

theorem get_packet_is_lookup:
  assumes g: "bk_good b" and sn: "sn < sn_limit"
  shows "get_packet (Some b) cap sn = Some (pw_get (window b) cap (uint sn))"
proof -
  note lookup = get_offset [OF bk_goodD(5) [OF g] sn] get_at_offset [OF g]
  show ?thesis
    unfolding get_packet_def option.case Let_def lookup
    by (simp add: pw_get_def window_def split: option.splits)
qed

lemma find_update:
  assumes ok: "bk_ok b" and s: "slot_ok b s" "content b s = Some q"
    and n0: "uint (bk_head_sn b) - bk_max_steps b < n0" "n0 \<le> uint (bk_head_sn b)"
  shows "bk_find (b\<lparr>bk_slots := (bk_slots b)[nat (slot_of b n0) := s]\<rparr>) n = (if n = n0 then Some q else bk_find b n)"
proof -
  let ?b = "b\<lparr>bk_slots := (bk_slots b)[nat (slot_of b n0) := s]\<rparr>"
  note r = slot_of_range [OF ok]
  have len: "length (contents b) = length (bk_slots b)" by (simp add: contents_def)
  have same: "slot_of ?b n = slot_of b n" by (simp add: slot_of_def)
  have c: "contents ?b = (contents b)[nat (slot_of b n0) := Some q]"
    using with_slot(2) [OF ok s(1), of "nat (slot_of b n0)"] s(2) by simp
  show ?thesis
  proof (cases "uint (bk_head_sn b) - bk_max_steps b < n \<and> n \<le> uint (bk_head_sn b)")
    case True
    have "nat (slot_of b n) = nat (slot_of b n0) \<longleftrightarrow> slot_of b n = slot_of b n0" using r(1) [of n] r(1) [of n0] by auto
    also have "\<dots> \<longleftrightarrow> n = n0" using slot_of_inj [of b n n0] True n0 by auto
    finally show ?thesis
      using True r(3) [of n] unfolding bk_find_def same c by (auto simp: nth_list_update len)
  next
    case False
    then show ?thesis using n0 by (auto simp: bk_find_def)
  qed
qed

text \<open>The tail of \<open>AddPacketWithSequenceNumber\<close> on a packet that was stored at its slot.\<close>

lemma stamp_find:
  assumes add: "add_packet_sn b pkt sn = Some (b1, Inr (slot_of b1 (uint sn), pkt))"
    and ok: "bk_ok b1" and p: "fits b pkt" "bk_seq_num_offset b1 = bk_seq_num_offset b"
    and f: "bk_find b1 (uint sn) = Some pkt" and n0: "uint (bk_head_sn b1) - bk_max_steps b1 < uint sn" "uint sn \<le> uint (bk_head_sn b1)"
  shows "\<exists>b2. add_packet_with_sequence_number b pkt sn = Some (b2, Inr (stamped b pkt sn)) \<and>
    bk_ok b2 \<and> same_config b1 b2 \<and> bk_head_sn b2 = bk_head_sn b1 \<and>
    (\<forall>n. bk_find b2 n = (if n = uint sn then Some (stamped b pkt sn) else bk_find b1 n))"
proof -
  let ?idx = "slot_of b1 (uint sn)"
  note r = slot_of_range [OF ok, of "uint sn"]
  note sl = slot_at [OF ok r(1,2)]
  have st: "stamped b1 pkt sn = stamped b pkt sn" using p(2) by (simp add: stamped_def)
  have c: "contents b1 ! nat ?idx = Some pkt" using f n0 by (simp add: bk_find_def)
  have len: "bk_seq_num_offset b1 + 2 \<le> int (length pkt)" using p by (simp add: fits_def)
  obtain s where s: "put_num 2 (drop (nat (bk_seq_num_offset b1)) pkt) sn =
      Some (be_bytes 2 sn @ drop (nat (bk_seq_num_offset b1) + 2) pkt)"
    "s = take (bk_pkt_size_header b1) (bk_slots b1 ! nat ?idx) @ stamped b pkt sn @
       drop (bk_pkt_size_header b1 + length (stamped b pkt sn)) (bk_slots b1 ! nat ?idx)"
    "slot_ok b1 s" "content b1 s = Some (stamped b pkt sn)"
    using restamp [OF ok r(1,2) c len, of sn] unfolding st Let_def by blast
  have o: "0 \<le> bk_seq_num_offset b1" using header_okD(4) [OF bk_okD(1) [OF ok]] .
  define part where "part = be_bytes 2 sn @ drop (nat (bk_seq_num_offset b1) + 2) pkt"
  have sd: "take (nat (bk_seq_num_offset b1)) pkt @ part = stamped b pkt sn"
    using p(2) by (simp add: stamped_def Let_def part_def)
  have sp: "length (stamped b pkt sn) = nat (bk_seq_num_offset b1) + length part"
    using len o unfolding sd [symmetric] by simp
  have "add_packet_with_sequence_number b pkt sn =
      Some (b1\<lparr>bk_slots := (bk_slots b1)[nat ?idx := s]\<rparr>, Inr (stamped b pkt sn))"
    using len o sl(1,3) s(1) [folded part_def] s(2) r(1)
    by (simp add: add_packet_with_sequence_number_def add Let_def sd sp del: append_assoc)
  moreover have "same_config b1 (b1\<lparr>bk_slots := (bk_slots b1)[nat ?idx := s]\<rparr>)"
    "bk_head_sn (b1\<lparr>bk_slots := (bk_slots b1)[nat ?idx := s]\<rparr>) = bk_head_sn b1" by (simp_all add: same_config_def)
  moreover note with_slot(1) [OF ok s(3), of "nat ?idx"] find_update [OF ok s(3,4) n0]
  ultimately show ?thesis by blast
qed

lemma keep_good:
  assumes g: "bk_good b" and st: "fits b st" "seq_num_at st (bk_seq_num_offset b) = Some (take_bit 16 sn)"
    and b2: "bk_ok b2" "same_config b b2" "bk_head_sn b2 < sn_limit"
    and find: "\<And>n. bk_find b2 n \<in> {None, bk_find b n, if n = uint sn then Some st else None}"
  shows "bk_good b2"
proof -
  have f: "fits b2 = fits b" using b2(2) by (simp add: fits_def fun_eq_iff same_config_def)
  have "fits b p \<and> seq_num_at p (bk_seq_num_offset b) = Some (take_bit 16 (word_of_int n))" if "bk_find b2 n = Some p" for n p
  proof -
    from that find [of n] consider "bk_find b n = Some p" | "n = uint sn" "p = st"
      by (auto split: if_splits)
    then show ?thesis using bk_goodD(6,7) [OF g, of n p] st by cases auto
  qed
  with b2 bk_goodD(3,4) [OF g] show ?thesis by (simp add: bk_good_def bk_running_def f same_config_def)
qed

lemma same_config_trans: "same_config a b \<Longrightarrow> same_config b c \<Longrightarrow> same_config a c"
  by (simp add: same_config_def)

lemma stamped_fits:
  assumes "bk_ok b" "fits b pkt"
  shows "fits b (stamped b pkt sn)" "seq_num_at (stamped b pkt sn) (bk_seq_num_offset b) = Some (take_bit 16 sn)"
    "length (stamped b pkt sn) = length pkt"
  using assms(2) header_okD(4) [OF bk_okD(1) [OF assms(1)]] stamped_length [of b pkt sn] stamped_seq_num [of b pkt sn]
  by (simp_all add: fits_def)

text \<open>The three cases: a new highest number, a hole, a number that is there.\<close>

lemma add_new:
  assumes g: "bk_good b" and sn: "sn < sn_limit" "uint (bk_head_sn b) < uint sn" and p: "fits b pkt"
  shows "\<exists>b2. add_packet_with_sequence_number b pkt sn = Some (b2, Inr (stamped b pkt sn)) \<and>
    bk_ok b2 \<and> same_config b b2 \<and> bk_head_sn b2 = sn \<and>
    (\<forall>n. bk_find b2 n = (if n = uint sn then Some (stamped b pkt sn)
       else if uint sn - bk_max_steps b < n \<and> n \<le> uint (bk_head_sn b) then bk_find b n else None))"
proof -
  note gd = bk_goodD [OF g]
  obtain b1 where b1: "add_packet_sn b pkt sn = Some (b1, Inr (slot_of b1 (uint sn), pkt))"
    "bk_ok b1" "same_config b b1" "bk_head_sn b1 = sn"
    "\<And>n. bk_find b1 n = (if n = uint sn then Some pkt
     else if uint sn - bk_max_steps b < n \<and> n \<le> uint (bk_head_sn b) then bk_find b n else None)"
    using push_find [OF gd(1) sn p] by blast
  have "bk_seq_num_offset b1 = bk_seq_num_offset b" "uint (bk_head_sn b1) - bk_max_steps b1 < uint sn"
    using b1(3,4) bk_okD(3) [OF gd(2)] by (simp_all add: same_config_def)
  with stamp_find [OF b1(1,2) p] b1 show ?thesis
    by (auto intro: same_config_trans)
qed

lemma add_into_hole:
  assumes g: "bk_good b" and p: "fits b pkt" and sn: "sn < sn_limit"
    and n: "uint (bk_head_sn b) - bk_max_steps b < uint sn" "uint sn \<le> uint (bk_head_sn b)" "bk_find b (uint sn) = None"
  shows "\<exists>b2. add_packet_with_sequence_number b pkt sn = Some (b2, Inr (stamped b pkt sn)) \<and>
    bk_ok b2 \<and> same_config b b2 \<and> bk_head_sn b2 = bk_head_sn b \<and>
    (\<forall>k. bk_find b2 k = (if k = uint sn then Some (stamped b pkt sn) else bk_find b k))"
proof -
  note gd = bk_goodD [OF g]
  let ?idx = "slot_of b (uint sn)" and ?s = "bk_slots b ! nat (slot_of b (uint sn))"
  note l = looked_at [OF g n(1,2)]
  have inv: "size_of b ?s = bk_invalid_pkt_size b" using l(6) n(3) by (auto simp: content_def split: if_splits)
  obtain s where s: "bk_store b ?idx pkt = Some (b\<lparr>bk_slots := (bk_slots b)[nat ?idx := s]\<rparr>, pkt)"
    "slot_ok b s" "content b s = Some pkt"
    using store_ok [OF gd(2) l(2,3)] p unfolding fits_def by blast
  define b1 where "b1 = b\<lparr>bk_slots := (bk_slots b)[nat ?idx := s]\<rparr>"
  have same: "slot_of b1 = slot_of b" "same_config b b1" "bk_head_sn b1 = bk_head_sn b"
    by (simp_all add: b1_def slot_of_def fun_eq_iff same_config_def)
  have "add_packet_sn b pkt sn = bk_set b sn (uint (bk_head_sn b) - uint sn) pkt"
    using p gd(3,4) add_cases(1,2) [OF sn gd(5)] n(2) by (simp add: add_packet_sn_def fits_def Let_def)
  also have "\<dots> = Some (b1, Inr (slot_of b1 (uint sn), pkt))"
    unfolding same(1) using n l(1,4) read_size [OF gd(2) l(5)] s(1) inv by (simp add: bk_set_def b1_def)
  finally have add: "add_packet_sn b pkt sn = Some (b1, Inr (slot_of b1 (uint sn), pkt))" .
  have ok1: "bk_ok b1" unfolding b1_def by (rule with_slot(1) [OF gd(2) s(2)])
  have f1: "bk_find b1 k = (if k = uint sn then Some pkt else bk_find b k)" for k
    unfolding b1_def by (rule find_update [OF gd(2) s(2,3) n(1,2)])
  have "bk_seq_num_offset b1 = bk_seq_num_offset b" "bk_max_steps b1 = bk_max_steps b"
    using same(2) by (simp_all add: same_config_def)
  with stamp_find [OF add ok1 p] f1 n same(2,3) show ?thesis
    by (auto intro: same_config_trans)
qed

lemma add_duplicate:
  assumes g: "bk_good b" and p: "fits b pkt" and sn: "sn < sn_limit"
    and n: "uint (bk_head_sn b) - bk_max_steps b < uint sn" "uint sn \<le> uint (bk_head_sn b)" "bk_find b (uint sn) = Some q"
  shows "add_packet_with_sequence_number b pkt sn = Some (b, Inl (if length q = length pkt then ErrRTXPacket else ErrRTXPacketSize))"
proof -
  note gd = bk_goodD [OF g]
  let ?s = "bk_slots b ! nat (slot_of b (uint sn))"
  note l = looked_at [OF g n(1,2)]
  have c: "content b ?s = Some q" using l(6) n(3) by simp
  note k = content_split [OF gd(2) l(5) c]
  have seq: "seq_num_at ?s (int (bk_pkt_size_header b) + bk_seq_num_offset b) = Some (take_bit 16 (word_of_int (uint sn)))"
    using read_seq_num(1) [OF gd(2) l(5) c] gd(6,7) [OF n(3)] by (simp add: fits_def)
  have "int (length q) < 9223372036854775808"
    using k(5) header_okD(1,7) [OF bk_okD(1) [OF gd(2)]] by auto
  then have size: "sint (size_of b ?s) = int (length q)"
    using k(2) by (simp add: sint_uint signed_take_bit_int_eq_self)
  have "add_packet_sn b pkt sn = bk_set b sn (uint (bk_head_sn b) - uint sn) pkt"
    using p gd(3,4) add_cases(1,2) [OF sn gd(5)] n(2) by (simp add: add_packet_sn_def fits_def Let_def)
  then show ?thesis
    using n l(1,4) read_size [OF gd(2) l(5)] k(4) seq low16 [of sn] size
    by (simp add: add_packet_with_sequence_number_def bk_set_def)
qed

text \<open>A bucket that has packets.\<close>

lemma add_packet_running:
  assumes g: "bk_good b" and sn: "sn < sn_limit" and p: "bk_seq_num_offset b + 2 \<le> int (length pkt)"
  shows "if int (length pkt) > bk_max_pkt_size b - int (bk_pkt_size_header b)
    then add_packet_with_sequence_number b pkt sn = Some (b, Inl ErrPacketTooLarge)
    else \<exists>b'. add_packet_with_sequence_number b pkt sn =
        Some (b', snd (pw_add (window b) (uint sn) (stamped b pkt sn))) \<and>
      bk_good b' \<and> window b' = fst (pw_add (window b) (uint sn) (stamped b pkt sn))"
proof (cases "fits b pkt")
  case False
  then have "int (length pkt) > bk_max_pkt_size b - int (bk_pkt_size_header b)" using p by (auto simp: fits_def)
  then show ?thesis by (simp add: add_packet_with_sequence_number_def add_packet_sn_def)
next
  case fits: True
  note gd = bk_goodD [OF g]
  let ?H = "uint (bk_head_sn b)" and ?st = "stamped b pkt sn"
  have st: "fits b ?st" "length ?st = length pkt" "seq_num_at ?st (bk_seq_num_offset b) = Some (take_bit 16 sn)"
    using stamped_fits [OF gd(2) fits] by simp_all
  note keep = keep_good [OF g st(1,3)]
  have fit: "\<not> int (length pkt) > bk_max_pkt_size b - int (bk_pkt_size_header b)" using fits by (simp add: fits_def)
  consider "?H < uint sn" | "\<not> ?H < uint sn" "?H - uint sn \<ge> bk_max_steps b"
    | "\<not> ?H < uint sn" "\<not> ?H - uint sn \<ge> bk_max_steps b" "bk_find b (uint sn) = None"
    | q where "\<not> ?H < uint sn" "\<not> ?H - uint sn \<ge> bk_max_steps b" "bk_find b (uint sn) = Some q"
    by fastforce
  then show ?thesis
  proof cases
    case 1
    obtain b2 where b2: "add_packet_with_sequence_number b pkt sn = Some (b2, Inr ?st)" "bk_ok b2" "same_config b b2" "bk_head_sn b2 = sn"
      "\<And>n. bk_find b2 n = (if n = uint sn then Some ?st
         else if uint sn - bk_max_steps b < n \<and> n \<le> ?H then bk_find b n else None)"
      using add_new [OF g sn 1 fits] by blast
    have "bk_good b2" by (rule keep) (use b2(2-4) sn in \<open>auto simp: b2(5)\<close>)
    moreover have "bk_max_steps b2 = bk_max_steps b" using b2(3) by (simp add: same_config_def)
    ultimately show ?thesis
      using fit b2(1,4) 1 by (simp add: window_def pw_add_def b2(5) fun_eq_iff)
  next
    case 2
    then have "add_packet_sn b pkt sn = Some (b, Inl ErrPacketTooOld)"
      using fits gd(3,4) add_cases(1,2) [OF sn gd(5)] by (simp add: add_packet_sn_def fits_def Let_def bk_set_def)
    then show ?thesis using fit 2 g by (simp add: add_packet_with_sequence_number_def window_def pw_add_def)
  next
    case 3
    then have n: "?H - bk_max_steps b < uint sn" "uint sn \<le> ?H" by linarith+
    obtain b2 where b2: "add_packet_with_sequence_number b pkt sn = Some (b2, Inr ?st)" "bk_ok b2" "same_config b b2"
      "bk_head_sn b2 = bk_head_sn b" "\<And>k. bk_find b2 k = (if k = uint sn then Some ?st else bk_find b k)"
      using add_into_hole [OF g fits sn n 3(3)] by blast
    have "bk_good b2" by (rule keep) (use b2(2-4) gd(5) in \<open>auto simp: b2(5)\<close>)
    moreover have "bk_max_steps b2 = bk_max_steps b" using b2(3) by (simp add: same_config_def)
    ultimately show ?thesis
      using fit b2(1,4) 3 by (simp add: window_def pw_add_def b2(5) fun_eq_iff)
  next
    case (4 q)
    then have "add_packet_with_sequence_number b pkt sn = Some (b, Inl (if length q = length pkt then ErrRTXPacket else ErrRTXPacketSize))"
      using add_duplicate [OF g fits sn _ _ 4(3)] by simp
    then show ?thesis using fit 4 g st(2) by (auto simp: window_def pw_add_def)
  qed
qed

section \<open>Starting and starting over\<close>

lemma invalidate_all:
  assumes ok: "bk_ok b"
  shows "\<exists>slots. bk_invalidate b 0 (bk_max_steps b) = Some (b\<lparr>bk_slots := slots\<rparr>) \<and> bk_ok (b\<lparr>bk_slots := slots\<rparr>) \<and>
    (\<forall>x \<in> set (contents (b\<lparr>bk_slots := slots\<rparr>)). x = None)"
proof -
  note o = bk_okD [OF ok]
  obtain slots where sl: "invalidate_loop b 0 (nat (bk_max_steps b)) 0 = Some (b\<lparr>bk_slots := slots\<rparr>)"
    "bk_ok (b\<lparr>bk_slots := slots\<rparr>)"
    "\<forall>j < length (bk_slots b). contents (b\<lparr>bk_slots := slots\<rparr>) ! j =
      (if \<exists>k. 0 \<le> k \<and> k < 0 + int (nat (bk_max_steps b)) \<and> int j = (0 + k) mod bk_max_steps b then None else contents b ! j)"
    using invalidate_loop_total [OF ok, of 0 0 "nat (bk_max_steps b)"] o(3) by auto
  have len: "length (contents (b\<lparr>bk_slots := slots\<rparr>)) = length (bk_slots b)"
    using bk_okD(7,9) [OF sl(2)] o(7) by simp
  have "contents (b\<lparr>bk_slots := slots\<rparr>) ! j = None" if "j < length (bk_slots b)" for j
  proof -
    have "\<exists>k. 0 \<le> k \<and> k < 0 + int (nat (bk_max_steps b)) \<and> int j = (0 + k) mod bk_max_steps b"
      using that o(3,7) by (intro exI [of _ "int j"]) simp
    with sl(3) that show ?thesis by simp
  qed
  then have "\<forall>x \<in> set (contents (b\<lparr>bk_slots := slots\<rparr>)). x = None"
    using len by (auto simp: in_set_conv_nth)
  then show ?thesis using sl(1,2) by (auto simp: bk_invalidate_def)
qed

lemma empty_good:
  assumes "bk_ok b" "\<forall>x \<in> set (contents b). x = None" "bk_init b" "\<not> bk_resync_on_next_packet b" "bk_head_sn b < sn_limit"
  shows "bk_good b" "bk_find b n = None"
proof -
  show none: "bk_find b n = None" for n
    using assms(2) slot_of_range(3) [OF assms(1)] by (simp add: bk_find_def contents_def)
  show "bk_good b" using assms by (simp add: bk_good_def bk_running_def none)
qed

lemma create_slots_ok:
  assumes h: "header_ok b" "0 < bk_init_capacity b"
  shows "\<exists>s. create_slots b = Some (replicate (nat (bk_init_capacity b)) s) \<and> slot_ok b s \<and> content b s = None"
proof -
  let ?h = "bk_pkt_size_header b" and ?n = "nat (bk_max_pkt_size b + int (bk_pkt_size_header b))"
  note hd = header_okD [OF h(1)]
  let ?s = "be_bytes ?h (bk_invalid_pkt_size b) @ replicate (?n - ?h) 0"
  have le: "?h \<le> ?n" using hd(4,5) by linarith
  then have "put_num ?h (replicate ?n 0) (bk_invalid_pkt_size b) = Some ?s" by (simp add: put_num_Some)
  moreover have "0 \<le> (bk_max_pkt_size b + int ?h) * bk_init_capacity b"
    using hd(4,5) h(2) by (intro mult_nonneg_nonneg) linarith+
  ultimately have "create_slots b = Some (replicate (nat (bk_init_capacity b)) ?s)"
    using h(2) by (simp add: create_slots_def Let_def)
  moreover have "size_of b ?s = bk_invalid_pkt_size b" using hd(3) by (simp add: size_of_bytes)
  moreover have "int (length ?s) = bk_max_pkt_size b + int ?h" using le hd(4,5) by simp
  ultimately show ?thesis by (auto simp: slot_ok_def content_def)
qed

text \<open>The slots with \<open>n\<close> of the wrapped ones still to be moved up.\<close>

definition bk_fresh :: "bucket \<Rightarrow> bool" where
  "bk_fresh b \<longleftrightarrow> bk_ok b \<and> \<not> bk_init b \<and> \<not> bk_resync_on_next_packet b \<and> (\<forall>x \<in> set (contents b). x = None)"

lemma new_bucket_fresh:
  assumes "0 < capacity" "capacity \<le> 4294967296" "0 \<le> off" "off + 2 \<le> max_size" "max_size \<le> 262144"
  shows "\<exists>b. new_bucket capacity max_size off = Some (Some b) \<and> bk_fresh b \<and> bk_max_steps b = capacity \<and>
    bk_max_pkt_size b = max_size \<and> bk_seq_num_offset b = off \<and> bk_init_capacity b = capacity \<and>
    bk_pkt_size_header b = (if max_size < 256 then 1 else if max_size < 65536 then 2 else 4)"
proof -
  define h where "h = (if max_size < 256 then 1 else if max_size < 65536 then 2 else 4 :: nat)"
  define b where "b = \<lparr>bk_max_pkt_size = max_size, bk_seq_num_offset = off, bk_pkt_size_header = h,
    bk_invalid_pkt_size = mask (8 * h), bk_slots = [], bk_init = False, bk_resync_on_next_packet = False,
    bk_step = 0, bk_head_sn = 0, bk_init_capacity = capacity, bk_max_steps = capacity\<rparr>"
  have hd: "header_ok b" using assms by (auto simp: header_ok_def b_def h_def)
  obtain s where s: "create_slots b = Some (replicate (nat capacity) s)" "slot_ok b s" "content b s = None"
    using create_slots_ok [OF hd] assms(1) by (auto simp: b_def)
  let ?b = "b\<lparr>bk_slots := replicate (nat capacity) s\<rparr>"
  have new: "new_bucket capacity max_size off = Some (Some ?b)"
    using assms(5) s(1) by (auto simp: new_bucket_def pkt_size_limit_def b_def h_def mask_eq_exp_minus_1)
  have same: "slot_ok ?b = slot_ok b" "header_ok ?b = header_ok b" "size_of ?b = size_of b"
    by (simp_all add: slot_ok_def header_ok_def size_of_def fun_eq_iff)
  have "content ?b s = content b s" using same(3) by (simp add: content_def)
  then have "\<forall>x \<in> set (contents ?b). x = None" using s(3) by (auto simp: contents_def)
  moreover have "bk_ok ?b" unfolding bk_ok_def same using hd s(2) assms by (auto simp: b_def)
  ultimately show ?thesis using new by (auto simp: bk_fresh_def b_def h_def)
qed

text \<open>A packet that is pushed into a bucket whose slots are all empty, whatever its number.\<close>

lemma push_first:
  assumes ok: "bk_ok m" and none: "\<forall>x \<in> set (contents m). x = None" and head: "bk_head_sn m = sn - 1"
    and ready: "bk_init m" "\<not> bk_resync_on_next_packet m" and p: "fits m pkt"
  shows "\<exists>b1. add_packet_sn m pkt sn = Some (b1, Inr (slot_of b1 (uint sn), pkt)) \<and> bk_ok b1 \<and> same_config m b1 \<and>
    bk_head_sn b1 = sn \<and> (\<forall>n. bk_find b1 n = (if n = uint sn then Some pkt else None))"
proof -
  note o = bk_okD [OF ok]
  let ?M = "bk_max_steps m" and ?st = "(bk_step m + 1) mod bk_max_steps m"
  have no: "(\<exists>k. 0 \<le> k \<and> k < (0 :: int) \<and> P k) = False" for P by auto
  obtain slots where sl: "bk_push m sn 0 pkt =
      Some (m\<lparr>bk_head_sn := sn, bk_slots := slots, bk_step := ?st\<rparr>, Inr (bk_step m mod ?M, pkt))"
    "bk_ok (m\<lparr>bk_slots := slots\<rparr>)"
    "\<forall>j < length (bk_slots m). contents (m\<lparr>bk_slots := slots\<rparr>) ! j =
      (if int j = bk_step m mod ?M then Some pkt else contents m ! j)"
    using push_total [OF ok, of 0 pkt sn] p unfolding fits_def no if_False add_0_right by auto
  let ?b = "m\<lparr>bk_head_sn := sn, bk_slots := slots, bk_step := ?st\<rparr>"
  have swap: "?b = m\<lparr>bk_slots := slots, bk_head_sn := sn, bk_step := ?st\<rparr>" by simp
  have okb: "bk_ok ?b" unfolding swap using sl(2) o(3) by (intro step_ok) (simp_all add: same_ok)
  have slot: "slot_of ?b n = (bk_step m + (n - uint sn)) mod ?M" for n
    unfolding slot_of_def using mod_add_left_eq [of "bk_step m + 1" ?M "n - 1 - uint sn"] by (simp add: algebra_simps)
  have here: "slot_of ?b (uint sn) = bk_step m mod ?M" unfolding slot by simp
  have find: "bk_find ?b n = (if n = uint sn then Some pkt else None)" for n
  proof (cases "uint sn - ?M < n \<and> n \<le> uint sn")
    case True
    let ?j = "nat (slot_of ?b n)"
    have j: "?j < length (bk_slots m)" "int ?j = slot_of ?b n" using slot_of_range [OF okb, of n] okb o(7)
      by (simp_all add: nat_less_iff)
    have e: "slot_of ?b n = slot_of ?b (uint sn) \<longleftrightarrow> n = uint sn" using slot_of_inj [of ?b n "uint sn"] True by auto
    have "contents m ! ?j = None" using none j(1) by (simp add: contents_def)
    moreover have "bk_find ?b n = contents (m\<lparr>bk_slots := slots\<rparr>) ! ?j"
      using True by (simp add: bk_find_def swap same_contents del: bucket.update_convs)
    ultimately show ?thesis using sl(3) [rule_format, OF j(1)] unfolding j(2) here [symmetric] e by simp
  next
    case False
    then show ?thesis using o(3) by (auto simp: bk_find_def)
  qed
  have "sn - (sn - 1) = 1" "\<not> half_range < 1" by (simp_all add: half_range_def)
  then have "add_packet_sn m pkt sn = bk_push m sn 0 pkt"
    using p ready head by (simp add: add_packet_sn_def fits_def Let_def i64_id)
  then have "add_packet_sn m pkt sn = Some (?b, Inr (slot_of ?b (uint sn), pkt))" using sl(1) here by simp
  then show ?thesis using okb find by (intro exI [of _ ?b]) (simp add: same_config_def)
qed

text \<open>
  The first packet of a new bucket, and the first one after \<open>ResyncOnNextPacket\<close> whatever its
  number and whatever the bucket held, meets a bucket whose slots are empty and whose highest
  number is the one before.
\<close>

lemma emptied_first:
  assumes b: "bk_fresh b \<or> bk_ok b \<and> bk_resync_on_next_packet b" and p: "fits b pkt"
  shows "\<exists>m. add_packet_sn b pkt sn = add_packet_sn m pkt sn \<and> bk_ok m \<and> (\<forall>x \<in> set (contents m). x = None) \<and>
    bk_head_sn m = sn - 1 \<and> bk_init m \<and> \<not> bk_resync_on_next_packet m \<and>
    same_config (b\<lparr>bk_head_sn := sn - 1, bk_init := True, bk_resync_on_next_packet := False\<rparr>) m"
proof -
  have ok: "bk_ok b" using b by (auto simp: bk_fresh_def)
  let ?b0 = "b\<lparr>bk_head_sn := sn - 1, bk_init := True, bk_resync_on_next_packet := False\<rparr>"
  have ok0: "bk_ok ?b0" using ok by (simp add: same_ok)
  show ?thesis
  proof (cases "bk_resync_on_next_packet b")
    case True
    obtain slots where sl: "bk_invalidate ?b0 0 (bk_max_steps ?b0) = Some (?b0\<lparr>bk_slots := slots\<rparr>)"
      "bk_ok (?b0\<lparr>bk_slots := slots\<rparr>)" "\<forall>x \<in> set (contents (?b0\<lparr>bk_slots := slots\<rparr>)). x = None"
      using invalidate_all [OF ok0] by blast
    define B where "B = (if \<not> bk_init b then b\<lparr>bk_head_sn := sn - 1, bk_init := True\<rparr> else b)"
    have B: "bk_resync_on_next_packet B" "B\<lparr>bk_resync_on_next_packet := False, bk_head_sn := sn - 1\<rparr> = ?b0"
      using True by (cases b; simp add: B_def)+
    have "add_packet_sn b pkt sn = add_packet_sn (?b0\<lparr>bk_slots := slots\<rparr>) pkt sn"
      unfolding add_packet_sn_def [of b] B_def [symmetric] Let_def B(2) sl(1) if_P [OF B(1)] option.case
      using p by (simp add: add_packet_sn_def fits_def)
    with sl(2,3) show ?thesis by (intro exI [of _ "?b0\<lparr>bk_slots := slots\<rparr>"]) (simp add: same_config_def)
  next
    case False
    then have f: "bk_fresh b" using b by blast
    have e: "(if \<not> bk_init b then b\<lparr>bk_head_sn := sn - 1, bk_init := True\<rparr> else b) = ?b0"
      using f by (cases b) (simp add: bk_fresh_def)
    have "add_packet_sn b pkt sn = add_packet_sn ?b0 pkt sn"
      unfolding add_packet_sn_def [of b] e Let_def using p by (simp add: add_packet_sn_def fits_def)
    with f ok0 show ?thesis by (intro exI [of _ ?b0]) (simp add: same_config_def bk_fresh_def same_contents)
  qed
qed

lemma start_over:
  assumes b: "bk_fresh b \<or> bk_ok b \<and> bk_resync_on_next_packet b" and p: "fits b pkt" and sn: "sn < sn_limit"
  shows "\<exists>b'. add_packet_with_sequence_number b pkt sn = Some (b', Inr (stamped b pkt sn)) \<and> bk_good b' \<and>
    window b' = \<lparr>pw_head = uint sn, pw_size = bk_max_steps b, pw_packets = [uint sn \<mapsto> stamped b pkt sn]\<rparr>"
proof -
  obtain m where m: "add_packet_sn b pkt sn = add_packet_sn m pkt sn" "bk_ok m" "\<forall>x \<in> set (contents m). x = None"
    "bk_head_sn m = sn - 1" "bk_init m" "\<not> bk_resync_on_next_packet m"
    "same_config (b\<lparr>bk_head_sn := sn - 1, bk_init := True, bk_resync_on_next_packet := False\<rparr>) m"
    using emptied_first [OF b p] by blast
  have fm: "fits m pkt" and st: "stamped m pkt sn = stamped b pkt sn"
    using p m(7) by (simp_all add: fits_def stamped_def same_config_def)
  obtain b1 where b1: "add_packet_sn m pkt sn = Some (b1, Inr (slot_of b1 (uint sn), pkt))" "bk_ok b1" "same_config m b1"
    "bk_head_sn b1 = sn" "\<And>n. bk_find b1 n = (if n = uint sn then Some pkt else None)"
    using push_first [OF m(2-6) fm] by blast
  have c: "bk_seq_num_offset b1 = bk_seq_num_offset m" "bk_find b1 (uint sn) = Some pkt"
    "uint (bk_head_sn b1) - bk_max_steps b1 < uint sn" "uint sn \<le> uint (bk_head_sn b1)"
    using b1(3-5) bk_okD(3) [OF b1(2)] by (simp_all add: same_config_def)
  obtain b2 where b2: "add_packet_with_sequence_number m pkt sn = Some (b2, Inr (stamped b pkt sn))" "bk_ok b2"
    "same_config m b2" "bk_head_sn b2 = sn" "\<forall>n. bk_find b2 n = (if n = uint sn then Some (stamped b pkt sn) else bk_find b1 n)"
    using stamp_find [OF b1(1,2) fm c] same_config_trans [OF b1(3)] unfolding b1(4) st by blast
  have find: "bk_find b2 n = (if n = uint sn then Some (stamped b pkt sn) else None)" for n using b2(5) b1(5) by simp
  have "fits b2 = fits m" "bk_seq_num_offset b2 = bk_seq_num_offset m"
    using b2(3) by (simp_all add: fits_def fun_eq_iff same_config_def)
  then have "bk_good b2"
    using b2(2-4) find m(5,6) sn stamped_fits [OF m(2) fm, of sn] st by (simp add: bk_good_def bk_running_def same_config_def)
  moreover have "bk_max_steps b2 = bk_max_steps b" using b2(3) m(7) by (simp add: same_config_def)
  moreover have "add_packet_with_sequence_number b pkt sn = add_packet_with_sequence_number m pkt sn"
    by (simp add: add_packet_with_sequence_number_def m(1))
  ultimately show ?thesis
    using b2(1,4) by (auto simp: window_def find fun_eq_iff)
qed

section \<open>Adding a packet\<close>

text \<open>
  The window a packet with number \<open>n\<close> finds: what the bucket holds, or an empty window that ends
  right before it when the bucket has no packet yet or is to start over.
\<close>

definition entry_window :: "bucket \<Rightarrow> int \<Rightarrow> packet_window" where
  "entry_window b n = (if \<not> bk_init b \<or> bk_resync_on_next_packet b
     then \<lparr>pw_head = n - 1, pw_size = bk_max_steps b, pw_packets = Map.empty\<rparr> else window b)"

definition bk_usable :: "bucket \<Rightarrow> bool" where
  "bk_usable b \<longleftrightarrow> bk_good b \<or> bk_fresh b \<or> bk_ok b \<and> bk_resync_on_next_packet b"

text \<open>Every bucket is one of these: a new one, one that packets were added to, one told to start over.\<close>

lemma bk_usable_intros:
  "bk_good b \<Longrightarrow> bk_usable b" "bk_fresh b \<Longrightarrow> bk_usable b" "bk_usable b \<Longrightarrow> bk_usable (bk_resync b)"
proof -
  have "bk_ok (bk_resync b) = bk_ok b" by (simp add: bk_resync_def bk_ok_def slot_ok_def [abs_def] size_of_def header_ok_def)
  then show "bk_usable b \<Longrightarrow> bk_usable (bk_resync b)"
    by (auto simp: bk_usable_def bk_fresh_def bk_resync_def dest: bk_goodD(2))
qed (simp_all add: bk_usable_def)

text \<open>
  C7. \<open>AddPacketWithSequenceNumber\<close> is the insertion into the window, from every state a bucket
  gets into: new, holding packets, or told to start over by \<open>ResyncOnNextPacket\<close> (with whatever it
  held).  A packet with a new highest number moves the window and empties what was skipped; a late
  packet fills its hole; a duplicate or a number that has left the window is refused and changes
  nothing; the first packet of a new bucket and the first one after \<open>ResyncOnNextPacket\<close> becomes the
  highest one, whatever its number, and the only packet of the window.  It never panics, ends
  with a bucket that holds packets and has no start-over pending, and refuses only what is too
  large for a slot otherwise (then nothing changes, a pending start-over included).  The packet is long enough for its sequence
  number; the extended number is below \<^const>\<open>sn_limit\<close>.
\<close>

theorem add_packet_is_insert:
  assumes b: "bk_usable b" and sn: "sn < sn_limit" and p: "bk_seq_num_offset b + 2 \<le> int (length pkt)"
  shows "if int (length pkt) > bk_max_pkt_size b - int (bk_pkt_size_header b)
    then add_packet_with_sequence_number b pkt sn = Some (b, Inl ErrPacketTooLarge)
    else \<exists>b'. add_packet_with_sequence_number b pkt sn =
        Some (b', snd (pw_add (entry_window b (uint sn)) (uint sn) (stamped b pkt sn))) \<and>
      bk_good b' \<and> window b' = fst (pw_add (entry_window b (uint sn)) (uint sn) (stamped b pkt sn))"
proof (cases "bk_good b")
  case True
  with add_packet_running [OF True sn p] show ?thesis using bk_goodD(3,4) [OF True] by (simp add: entry_window_def)
next
  case False
  with b have s: "bk_fresh b \<or> bk_ok b \<and> bk_resync_on_next_packet b" by (auto simp: bk_usable_def)
  then have e: "entry_window b n = \<lparr>pw_head = n - 1, pw_size = bk_max_steps b, pw_packets = Map.empty\<rparr>" for n
    by (auto simp: entry_window_def bk_fresh_def)
  show ?thesis
  proof (cases "fits b pkt")
    case True
    with start_over [OF s True sn] show ?thesis by (auto simp: e pw_add_def fits_def fun_eq_iff)
  next
    case False
    then have "int (length pkt) > bk_max_pkt_size b - int (bk_pkt_size_header b)" using p by (auto simp: fits_def)
    then show ?thesis by (simp add: add_packet_with_sequence_number_def add_packet_sn_def)
  qed
qed

section \<open>Growing\<close>

definition moved :: "bucket \<Rightarrow> nat \<Rightarrow> u8 list list \<Rightarrow> bool" where
  "moved b n g \<longleftrightarrow> (let st = nat (bk_step b); cap = nat (bk_init_capacity b) in
     length g = length (bk_slots b) + cap \<and> (\<forall>s \<in> set g. slot_ok b s) \<and>
     (\<forall>j < length g. content b (g ! j) = (if j < st + n then content b (bk_slots b ! j)
        else if j < st + n + cap then None else content b (bk_slots b ! (j - cap)))))"

lemma grow_loop_total:
  assumes ok: "bk_ok b" and g: "moved b n g" and n: "nat (bk_step b) + n \<le> length (bk_slots b)"
  shows "\<exists>g'. grow_loop b n g = Some g' \<and> moved b 0 g'"
  using g n
proof (induction n arbitrary: g)
  case 0
  then show ?case by simp
next
  case (Suc n)
  define st where "st = nat (bk_step b)"
  define cap where "cap = nat (bk_init_capacity b)"
  note o = bk_okD [OF ok]
  have cap: "0 < cap" "bk_init_capacity b = int cap" using o(2) by (simp_all add: cap_def)
  let ?i = "st + n"
  have i: "bk_step b + int n = int ?i" using o(5) by (simp add: st_def)
  have lt: "?i < length (bk_slots b)" using Suc.prems(2) by (simp add: st_def)
  note m = Suc.prems(1) [unfolded moved_def Let_def, folded st_def cap_def]
  have len: "?i < length g" "?i + cap < length g" using m lt by simp_all
  have so: "slot_ok b (bk_slots b ! ?i)" using o(8) lt by simp
  have size: "slot_size b (int ?i) = Some (size_of b (bk_slots b ! ?i))"
    using lt read_size [OF ok so] by (simp add: slot_size_def del: of_nat_add)
  have gi: "content b (g ! ?i) = content b (bk_slots b ! ?i)" "content b (g ! (?i + cap)) = None"
    using m len cap(1) by (simp_all add: less_Suc_eq)
  show ?case
  proof (cases "size_of b (bk_slots b ! ?i) = bk_invalid_pkt_size b")
    case True
    have none: "content b (bk_slots b ! ?i) = None" using True by (simp add: content_def)
    have "moved b n g"
      unfolding moved_def Let_def st_def [symmetric] cap_def [symmetric]
    proof (intro conjI allI impI)
      fix j assume "j < length g"
      with m none gi(2) show "content b (g ! j) = (if j < st + n then content b (bk_slots b ! j)
        else if j < st + n + cap then None else content b (bk_slots b ! (j - cap)))"
        by (cases "j = ?i \<or> j = ?i + cap") auto
    qed (use m in auto)
    then obtain g' where "grow_loop b n g = Some g'" "moved b 0 g'"
      using Suc.IH Suc.prems(2) by (metis Suc_leD add_Suc_right)
    then show ?thesis using True size i by (simp add: Let_def)
  next
    case False
    let ?g = "g[?i + cap := g ! ?i, ?i := g ! (?i + cap)]"
    have "moved b n ?g"
      unfolding moved_def Let_def st_def [symmetric] cap_def [symmetric]
    proof (intro conjI allI impI)
      show "length ?g = length (bk_slots b) + cap" using m by simp
      show "\<forall>s \<in> set ?g. slot_ok b s"
        using m len by (auto simp: in_set_conv_nth nth_list_update)
      fix j assume "j < length ?g"
      with m len gi cap(1) show "content b (?g ! j) = (if j < st + n then content b (bk_slots b ! j)
        else if j < st + n + cap then None else content b (bk_slots b ! (j - cap)))"
        by (auto simp: nth_list_update)
    qed
    then obtain g' where "grow_loop b n ?g = Some g'" "moved b 0 g'"
      using Suc.IH Suc.prems(2) by (metis Suc_leD add_Suc_right)
    moreover have "int ?i + bk_init_capacity b = int (?i + cap)" using cap(2) by simp
    ultimately show ?thesis using False size i len
      by (simp add: Let_def del: of_nat_add) 
  qed
qed

lemma slot_index:
  assumes "bk_ok b" and n: "uint (bk_head_sn b) - bk_max_steps b < n" "n \<le> uint (bk_head_sn b)"
  shows "slot_of b n = (let d = n + (bk_step b - 1 - uint (bk_head_sn b)) in if d < 0 then d + bk_max_steps b else d)"
proof -
  note o = bk_okD [OF assms(1)]
  define d where "d = n + (bk_step b - 1 - uint (bk_head_sn b))"
  have d: "- bk_max_steps b \<le> d" "d < bk_max_steps b" using n o(5,6) by (simp_all add: d_def)
  have "d mod bk_max_steps b = (if d < 0 then d + bk_max_steps b else d)"
  proof (cases "d < 0")
    case True
    have "d mod bk_max_steps b = (d + bk_max_steps b) mod bk_max_steps b" by simp
    also have "\<dots> = d + bk_max_steps b" using d True by (intro mod_pos_pos_trivial) auto
    finally show ?thesis using True by simp
  qed (use d in simp)
  then show ?thesis by (simp add: slot_of_def d_def Let_def)
qed

lemma find_spread:
  assumes ok: "bk_ok b" and ok': "bk_ok b'"
    and o: "bk_max_steps b = int (length (bk_slots b))" "bk_step b = int st" "st < length (bk_slots b)"
    and head: "bk_head_sn b' = bk_head_sn b" "bk_max_steps b' = int (length (bk_slots b) + cap)" "bk_step b' = bk_step b"
    and nth: "\<And>j. j < length (bk_slots b) + cap \<Longrightarrow> contents b' ! j = (if j < st then contents b ! j
      else if j < st + cap then None else contents b ! (j - cap))"
  shows "bk_find b' n = bk_find b n"
proof (cases "uint (bk_head_sn b) - int (length (bk_slots b) + cap) < n \<and> n \<le> uint (bk_head_sn b)")
  case True
  define d where "d = n + (bk_step b - 1 - uint (bk_head_sn b))"
  have r: "- int (length (bk_slots b) + cap) \<le> d" "d < int st" using True o by (simp_all add: d_def)
  have f: "bk_find b' n = contents b' ! nat (if d < 0 then d + int (length (bk_slots b) + cap) else d)"
    using True slot_index [OF ok', of n] by (simp add: bk_find_def head d_def Let_def)
  show ?thesis
  proof (cases "uint (bk_head_sn b) - int (length (bk_slots b)) < n")
    case in_old: True
    have f0: "bk_find b n = contents b ! nat (if d < 0 then d + int (length (bk_slots b)) else d)"
      using in_old True slot_index [OF ok, of n] o(1) by (simp add: bk_find_def d_def Let_def)
    have lo: "int st - int (length (bk_slots b)) \<le> d" using in_old o by (simp add: d_def)
    show ?thesis
    proof (cases "d < 0")
      case neg: True
      have j: "nat (d + int (length (bk_slots b) + cap)) = nat (d + int (length (bk_slots b))) + cap"
        using lo by (simp add: nat_add_distrib [symmetric])
      have "nat (d + int (length (bk_slots b))) < length (bk_slots b)" "st \<le> nat (d + int (length (bk_slots b)))" using neg lo by linarith+
      then show ?thesis unfolding f f0 using neg j nth [of "nat (d + int (length (bk_slots b))) + cap"] by simp
    next
      case False
      then have "nat d < st" using r(2) by simp
      then show ?thesis unfolding f f0 using False nth [of "nat d"] o(3) by simp
    qed
  next
    case False
    have neg: "d < 0" "nat (d + int (length (bk_slots b) + cap)) < st + cap" "st \<le> nat (d + int (length (bk_slots b) + cap))"
      using False True o by (auto simp: d_def)
    then have "contents b' ! nat (d + int (length (bk_slots b) + cap)) = None" using nth o(3) by auto
    then show ?thesis using neg(1) f False o(1) by (simp add: bk_find_def)
  qed
next
  case False
  then show ?thesis using o(1) by (auto simp: bk_find_def head)
qed

text \<open>
  C40. \<open>Grow\<close> raises the capacity by the initial one and keeps every packet findable under its
  number: the window gets larger and holds what it held.
\<close>

theorem grow_keeps_packets:
  assumes g: "bk_good b" and M: "bk_max_steps b + bk_init_capacity b \<le> 4294967296"
  shows "\<exists>b'. bk_grow b = Some (b', bk_max_steps b + bk_init_capacity b) \<and> bk_good b' \<and>
    window b' = (window b)\<lparr>pw_size := bk_max_steps b + bk_init_capacity b\<rparr>"
proof -
  note gd = bk_goodD [OF g]
  note o = bk_okD [OF gd(2)]
  define cap where "cap = nat (bk_init_capacity b)"
  define st where "st = nat (bk_step b)"
  let ?L = "length (bk_slots b)" and ?H = "uint (bk_head_sn b)"
  have eqs: "bk_init_capacity b = int cap" "bk_step b = int st" "bk_max_steps b = int ?L" "st < ?L" "0 < cap"
    using o(2,3,5-7) by (simp_all add: cap_def st_def nat_less_iff)
  obtain s where s: "create_slots b = Some (replicate cap s)" "slot_ok b s" "content b s = None"
    using create_slots_ok [OF o(1,2)] unfolding cap_def by blast
  have "moved b (?L - st) (bk_slots b @ replicate cap s)"
    using s o(8) eqs(4) by (auto simp: moved_def Let_def cap_def [symmetric] st_def [symmetric] nth_append)
  then obtain g' where g': "grow_loop b (?L - st) (bk_slots b @ replicate cap s) = Some g'" "moved b 0 g'"
    using grow_loop_total [OF gd(2), of "?L - st" "bk_slots b @ replicate cap s"] eqs(4)
    by (auto simp: st_def [symmetric])
  note m = g'(2) [unfolded moved_def Let_def, folded cap_def st_def]
  define b' where "b' = b\<lparr>bk_slots := g', bk_max_steps := bk_max_steps b + bk_init_capacity b\<rparr>"
  have count: "nat (bk_max_steps b - bk_step b) = ?L - st" using eqs by simp
  have grow: "bk_grow b = Some (b', bk_max_steps b + bk_init_capacity b)"
    using s(1) g'(1) by (simp add: bk_grow_def count b'_def Let_def)
  have same: "slot_ok b' = slot_ok b" "header_ok b' = header_ok b" "size_of b' = size_of b" "fits b' = fits b"
    by (simp_all add: b'_def slot_ok_def header_ok_def size_of_def fits_def fun_eq_iff)
  then have cont: "content b' = content b" by (simp add: content_def fun_eq_iff) (simp add: b'_def)
  have ok': "bk_ok b'"
  proof -
    have "length g' = ?L + cap" "\<forall>s \<in> set g'. slot_ok b s" using m by blast+
    then show ?thesis unfolding bk_ok_def same using o(1-6) M eqs(1-3) by (simp add: b'_def)
  qed
  have nth: "j < ?L + cap \<Longrightarrow> contents b' ! j = (if j < st then contents b ! j
      else if j < st + cap then None else contents b ! (j - cap))" for j
    using m eqs(4) by (simp add: contents_def cont) (auto simp: b'_def)
  have head: "bk_head_sn b' = bk_head_sn b" "bk_max_steps b' = int (?L + cap)" "bk_step b' = bk_step b"
    using eqs by (simp_all add: b'_def)
  have find: "bk_find b' n = bk_find b n" for n
    by (rule find_spread [OF gd(2) ok' eqs(3,2,4) head nth])
  have "bk_good b'"
    using g ok' by (simp add: bk_good_def bk_running_def find same) (simp add: b'_def)
  moreover have "window b' = (window b)\<lparr>pw_size := bk_max_steps b + bk_init_capacity b\<rparr>"
    using eqs by (simp add: window_def head find fun_eq_iff)
  ultimately show ?thesis using grow by blast
qed

section \<open>Instances\<close>

definition sample_new :: bucket where
  "sample_new = (case new_bucket 3 12 2 of Some (Some b) \<Rightarrow> b | _ \<Rightarrow> undefined)"

lemma sample_new: "bk_fresh sample_new" "bk_max_steps sample_new = 3" "bk_max_pkt_size sample_new = 12"
  "bk_seq_num_offset sample_new = 2" "bk_init_capacity sample_new = 3" "bk_pkt_size_header sample_new = 1"
proof -
  obtain b where b: "new_bucket 3 12 2 = Some (Some b)" "bk_fresh b" "bk_max_steps b = 3"
    "bk_max_pkt_size b = 12" "bk_seq_num_offset b = 2" "bk_init_capacity b = 3" "bk_pkt_size_header b = 1"
    using new_bucket_fresh [of 3 2 12] by auto
  then have s: "sample_new = b" by (simp add: sample_new_def)
  show "bk_fresh sample_new" "bk_max_steps sample_new = 3" "bk_max_pkt_size sample_new = 12"
    "bk_seq_num_offset sample_new = 2" "bk_init_capacity sample_new = 3" "bk_pkt_size_header sample_new = 1"
    unfolding s by (rule b)+
qed

definition sample_bucket :: bucket where
  "sample_bucket = (case add_packet_with_sequence_number sample_new [1, 2, 0, 0, 5] 70000 of Some (b', _) \<Rightarrow> b' | None \<Rightarrow> sample_new)"

lemma sample_stamp: "stamped sample_new [1, 2, 0, 0, 5] 70000 = [1, 2, 0x11, 0x70, 5]"
  unfolding stamped_def sample_new(4) by code_simp

lemma sample_start: "\<exists>b'. add_packet_with_sequence_number sample_new [1, 2, 0, 0, 5] 70000 = Some (b', Inr [1, 2, 0x11, 0x70, 5]) \<and>
    bk_good b' \<and> window b' = \<lparr>pw_head = 70000, pw_size = 3, pw_packets = [70000 \<mapsto> [1, 2, 0x11, 0x70, 5]]\<rparr>"
  using start_over [of sample_new "[1, 2, 0, 0, 5]" 70000] sample_stamp
  by (simp add: sample_new fits_def word_less_def)

lemma sample_good: "bk_good sample_bucket"
  "window sample_bucket = \<lparr>pw_head = 70000, pw_size = 3, pw_packets = [70000 \<mapsto> [1, 2, 0x11, 0x70, 5]]\<rparr>"
  using sample_start by (auto simp: sample_bucket_def)

lemma sample_config: "bk_init_capacity sample_bucket = 3" "bk_max_steps sample_bucket = 3"
  "bk_max_pkt_size sample_bucket = 12" "bk_pkt_size_header sample_bucket = 1" "bk_seq_num_offset sample_bucket = 2"
  by code_simp+

lemma get_packet_is_lookup_witness:
  "get_packet (Some sample_bucket) 8 70000 = Some (Inr [1, 2, 0x11, 0x70, 5]) \<and>
   get_packet (Some sample_bucket) 8 69999 = Some (Inl ErrPacketSizeInvalid)"
  using get_packet_is_lookup [OF sample_good(1), of 70000 8] get_packet_is_lookup [OF sample_good(1), of 69999 8]
  by (simp add: sample_good(2) pw_get_def word_less_def)

lemma add_packet_is_insert_witness:
  "(\<exists>b'. add_packet_with_sequence_number sample_bucket [7, 8, 0, 0] 70002 = Some (b', Inr [7, 8, 0x11, 0x72]) \<and> bk_good b' \<and>
    pw_packets (window b') 70002 = Some [7, 8, 0x11, 0x72] \<and> pw_packets (window b') 70001 = None \<and>
    pw_packets (window b') 70000 = Some [1, 2, 0x11, 0x70, 5]) \<and>
   (\<exists>b'. add_packet_with_sequence_number (bk_resync sample_bucket) [7, 8, 0, 0] 70002 = Some (b', Inr [7, 8, 0x11, 0x72]) \<and>
    bk_good b' \<and> pw_packets (window b') = [70002 \<mapsto> [7, 8, 0x11, 0x72]])"
proof -
  have st: "stamped sample_bucket [7, 8, 0, 0] 70002 = [7, 8, 0x11, 0x72]"
    unfolding stamped_def sample_config by code_simp
  have c: "stamped (bk_resync sample_bucket) = stamped sample_bucket" "bk_max_steps (bk_resync sample_bucket) = 3"
    "bk_max_pkt_size (bk_resync sample_bucket) = 12" "bk_pkt_size_header (bk_resync sample_bucket) = 1"
    "bk_seq_num_offset (bk_resync sample_bucket) = 2" "bk_resync_on_next_packet (bk_resync sample_bucket)"
    using sample_config by (simp_all add: bk_resync_def stamped_def fun_eq_iff)
  note u = bk_usable_intros(1) [OF sample_good(1)] bk_usable_intros(3) [OF bk_usable_intros(1) [OF sample_good(1)]]
  have e: "entry_window sample_bucket n = window sample_bucket" for n
    using bk_goodD(3,4) [OF sample_good(1)] by (simp add: entry_window_def)
  show ?thesis
    using add_packet_is_insert [OF u(1), of 70002 "[7, 8, 0, 0]"] add_packet_is_insert [OF u(2), of 70002 "[7, 8, 0, 0]"]
    by (auto simp: sample_config sample_good(2) c st e entry_window_def [of "bk_resync sample_bucket"] pw_add_def word_less_def fun_eq_iff)
qed

lemma grow_keeps_packets_witness:
  "\<exists>b'. bk_grow sample_bucket = Some (b', 6) \<and> bk_good b' \<and> pw_packets (window b') 70000 = Some [1, 2, 0x11, 0x70, 5]"
  using grow_keeps_packets [OF sample_good(1)] by (auto simp: sample_config sample_good(2))

end
