(* ===== verification/Layer_Selector.thy ===== *)
theory Layer_Selector
  imports Ext_Packet
begin

text \<open>
  Which packets of the spatial and temporal layers a subscriber gets
  (\<open>pkg/sfu/videolayerselector\<close>: \<open>base.go\<close>, \<open>simulcast.go\<close>, \<open>vp9.go\<close>, \<open>null.go\<close> and
  \<open>temporallayerselector/vp8.go\<close>).  The selectors share the record \<open>base\<close>; the selector for
  dependency descriptors has a state of its own besides, a type parameter here and the record
  \<open>dd_selector\<close> of the theory \<open>Dd_Selector\<close>.
\<close>

section \<open>The common state\<close>

text \<open>\<open>temporallayerselector.VP8\<close> is the only temporal selector that is installed.\<close>

datatype temporal_selector = TlsVP8

record base =
  bs_tls :: "temporal_selector option"
  bs_max :: video_layer
  bs_max_seen :: video_layer
  bs_target :: video_layer
  bs_previous_target :: video_layer
  bs_request_spatial :: int
  bs_current :: video_layer
  bs_previous :: video_layer

definition new_base :: base where
  "new_base = \<lparr>bs_tls = None, bs_max = invalid_layer, bs_max_seen = invalid_layer, bs_target = invalid_layer,
     bs_previous_target = invalid_layer, bs_request_spatial = invalid_layer_spatial, bs_current = invalid_layer,
     bs_previous = invalid_layer\<rparr>"

definition set_spatial :: "int \<Rightarrow> video_layer \<Rightarrow> video_layer" where
  "set_spatial s v = VideoLayer s (vl_temporal v)"

definition set_temporal :: "int \<Rightarrow> video_layer \<Rightarrow> video_layer" where
  "set_temporal t v = VideoLayer (vl_spatial v) t"

lemma layer_updates [simp]:
  "vl_spatial (set_spatial s v) = s" "vl_temporal (set_spatial s v) = vl_temporal v"
  "vl_spatial (set_temporal t v) = vl_spatial v" "vl_temporal (set_temporal t v) = t"
  by (simp_all add: set_spatial_def set_temporal_def)

definition bs_set_max_spatial :: "int \<Rightarrow> base \<Rightarrow> base" where
  "bs_set_max_spatial l b = b\<lparr>bs_max := set_spatial l (bs_max b)\<rparr>"

definition bs_set_max_temporal :: "int \<Rightarrow> base \<Rightarrow> base" where
  "bs_set_max_temporal l b = b\<lparr>bs_max := set_temporal l (bs_max b)\<rparr>"

definition bs_set_target :: "video_layer \<Rightarrow> base \<Rightarrow> base" where
  "bs_set_target l b = b\<lparr>bs_previous_target := l, bs_target := l\<rparr>"

definition bs_check_sync :: "base \<Rightarrow> bool \<times> int" where
  "bs_check_sync b = (bs_request_spatial b = vl_spatial (bs_current b), bs_request_spatial b)"

definition bs_set_max_seen_spatial :: "int \<Rightarrow> base \<Rightarrow> base" where
  "bs_set_max_seen_spatial l b = b\<lparr>bs_max_seen := set_spatial l (bs_max_seen b)\<rparr>"

definition bs_set_max_seen_temporal :: "int \<Rightarrow> base \<Rightarrow> base" where
  "bs_set_max_seen_temporal l b = b\<lparr>bs_max_seen := set_temporal l (bs_max_seen b)\<rparr>"

definition bs_rollback :: "base \<Rightarrow> base" where
  "bs_rollback b = b\<lparr>bs_current := bs_previous b, bs_target := bs_previous_target b\<rparr>"

text \<open>The layer of this packet and that of the next ones.\<close>

definition tls_vp8_select :: "'dd ext_packet \<Rightarrow> int \<Rightarrow> int \<Rightarrow> int \<times> int" where
  "tls_vp8_select p current target =
    (if current = target then (current, current)
     else case ep_payload p of
       PayloadVP8 d \<Rightarrow>
         let tid = vl_temporal (ep_layer p) in
         if current < target
         then if tid > current \<and> tid \<le> target \<and> v8_S d then (tid, tid) else (current, current)
         else if rp_marker (ep_packet p) then (current, target) else (current, current)
     | _ \<Rightarrow> (current, current))"

fun tls_select :: "temporal_selector \<Rightarrow> 'dd ext_packet \<Rightarrow> int \<Rightarrow> int \<Rightarrow> int \<times> int" where
  "tls_select TlsVP8 p current target = tls_vp8_select p current target"

definition bs_select_temporal :: "base \<Rightarrow> 'dd ext_packet \<Rightarrow> base \<times> int" where
  "bs_select_temporal b p = (case bs_tls b of
     None \<Rightarrow> (b, vl_temporal (bs_current b))
   | Some tls \<Rightarrow>
       (case tls_select tls p (vl_temporal (bs_current b)) (vl_temporal (bs_target b)) of
          (this_t, next_t) \<Rightarrow>
            (if next_t \<noteq> vl_temporal (bs_current b)
             then b\<lparr>bs_current := set_temporal next_t (bs_current b)\<rparr> else b, this_t)))"

section \<open>Selecting\<close>

record vls_result =
  vr_is_selected :: bool
  vr_is_relevant :: bool
  vr_is_switching :: bool
  vr_is_resuming :: bool
  vr_rtp_marker :: bool
  vr_dd_extension :: "u8 list"

definition vls_result_zero :: vls_result where
  "vls_result_zero = \<lparr>vr_is_selected = False, vr_is_relevant = False, vr_is_switching = False,
     vr_is_resuming = False, vr_rtp_marker = False, vr_dd_extension = []\<rparr>"

text \<open>The end of a switch of the spatial layer: the target follows at the top layers.\<close>

definition sc_settle :: "base \<Rightarrow> base" where
  "sc_settle b =
    (if vl_spatial (bs_current b) \<ge> vl_spatial (bs_max b) \<or> vl_spatial (bs_current b) = vl_spatial (bs_max_seen b)
     then b\<lparr>bs_target := set_spatial (vl_spatial (bs_current b)) (bs_target b)\<rparr> else b)"

text \<open>A key frame moves the current layer to its own when that is towards the target.\<close>

definition sc_towards_target :: "base \<Rightarrow> 'dd ext_packet \<Rightarrow> int \<Rightarrow> base \<times> vls_result \<Rightarrow> base \<times> vls_result" where
  "sc_towards_target b p layer r =
    (if vl_spatial (bs_current b) \<noteq> vl_spatial (bs_target b) \<and> ep_is_key_frame p \<and>
        (layer > vl_spatial (bs_current b) \<and> layer \<le> vl_spatial (bs_target b) \<or>
         layer < vl_spatial (bs_current b) \<and> layer \<ge> vl_spatial (bs_target b))
     then (sc_settle (b\<lparr>bs_previous := bs_current b, bs_current := VideoLayer layer (vl_temporal (ep_layer p)),
                       bs_previous_target := bs_target b\<rparr>),
           (snd r)\<lparr>vr_is_switching := True, vr_is_resuming := \<not> vl_is_valid (bs_current b)\<rparr>)
     else r)"

definition sc_overshoot :: "base \<times> vls_result \<Rightarrow> 'dd ext_packet \<Rightarrow> int \<Rightarrow> base \<times> vls_result" where
  "sc_overshoot r p layer = (case r of (b, res) \<Rightarrow>
     if vl_spatial (bs_current b) > vl_spatial (bs_max b) \<and> layer \<le> vl_spatial (bs_max b) \<and> ep_is_key_frame p
     then (sc_settle (b\<lparr>bs_previous := bs_current b, bs_current := set_spatial layer (bs_current b),
                       bs_previous_target := bs_target b\<rparr>),
           res\<lparr>vr_is_switching := True\<rparr>)
     else r)"

definition sc_select :: "base \<Rightarrow> 'dd ext_packet \<Rightarrow> int \<Rightarrow> base \<times> vls_result" where
  "sc_select b p layer =
    (case sc_overshoot (sc_towards_target b p layer (b, vls_result_zero)) p layer of
       (b', res) \<Rightarrow> (b', res\<lparr>vr_rtp_marker := rp_marker (ep_packet p),
          vr_is_selected := (layer = vl_spatial (bs_current b')), vr_is_relevant := False\<rparr>))"

text \<open>
  VP9: the packet is judged against the layer \<open>cur\<close> in force for it, and \<open>upd\<close> is the layer for
  the packets after it.
\<close>

definition vp9_layers :: "base \<Rightarrow> 'dd ext_packet \<Rightarrow> vp9_packet \<Rightarrow> video_layer \<times> video_layer" where
  "vp9_layers b p v =
    (let c = bs_current b; t = bs_target b; l = ep_layer p;
         (cur1, upd1) =
           (if vl_temporal c < vl_temporal t then
              (if vl_temporal l > vl_temporal c \<and> vl_temporal l \<le> vl_temporal t \<and> v9_U v \<and> v9_B v
               then (set_temporal (vl_temporal l) c, set_temporal (vl_temporal l) c) else (c, c))
            else if vl_temporal c > vl_temporal t then (c, if v9_E v then set_temporal (vl_temporal t) c else c)
            else (c, c))
     in (if vl_spatial c < vl_spatial t then
           (if vl_spatial l > vl_spatial c \<and> vl_spatial l \<le> vl_spatial t \<and> \<not> v9_P v \<and> v9_B v
            then (set_spatial (vl_spatial l) cur1, set_spatial (vl_spatial l) upd1) else (cur1, upd1))
         else if vl_spatial c > vl_spatial t then (cur1, if v9_E v then set_spatial (vl_spatial t) upd1 else upd1)
         else (cur1, upd1)))"

definition vp9_select :: "base \<Rightarrow> 'dd ext_packet \<Rightarrow> int \<Rightarrow> base \<times> vls_result" where
  "vp9_select b p layer = (case ep_payload p of
     PayloadVP9 v \<Rightarrow>
       (if bs_current b \<noteq> bs_target b \<and> \<not> vl_is_valid (bs_current b) \<and> \<not> ep_is_key_frame p then (b, vls_result_zero)
        else
          let (cur, upd) =
                (if bs_current b = bs_target b then (bs_current b, bs_current b)
                 else if \<not> vl_is_valid (bs_current b) then (bs_current b, ep_layer p)
                 else vp9_layers b p v);
              sw = (upd \<noteq> bs_current b);
              b' = (if sw then b\<lparr>bs_previous := bs_current b, bs_current := upd\<rparr> else b)
          in (b', \<lparr>vr_is_selected = (\<not> vl_greater_than (ep_layer p) cur), vr_is_relevant = True,
                   vr_is_switching = sw,
                   vr_is_resuming = (sw \<and> \<not> vl_is_valid (bs_current b) \<and> vl_is_valid upd),
                   vr_rtp_marker = (rp_marker (ep_packet p) \<or>
                     v9_E v \<and> vl_spatial (ep_layer p) = vl_spatial cur \<and>
                     (v9_P v \<or> vl_spatial (bs_target b') \<le> vl_spatial (bs_current b'))),
                   vr_dd_extension = []\<rparr>))
   | _ \<Rightarrow> (b, vls_result_zero))"

section \<open>The selector in use\<close>

datatype 'd vls = VlsNull base | VlsSimulcast base | VlsVP9 base | VlsDD base 'd

fun vls_base :: "'d vls \<Rightarrow> base" where
  "vls_base (VlsNull b) = b"
| "vls_base (VlsSimulcast b) = b"
| "vls_base (VlsVP9 b) = b"
| "vls_base (VlsDD b d) = b"

fun vls_map_base :: "(base \<Rightarrow> base) \<Rightarrow> 'd vls \<Rightarrow> 'd vls" where
  "vls_map_base f (VlsNull b) = VlsNull (f b)"
| "vls_map_base f (VlsSimulcast b) = VlsSimulcast (f b)"
| "vls_map_base f (VlsVP9 b) = VlsVP9 (f b)"
| "vls_map_base f (VlsDD b d) = VlsDD (f b) d"

fun is_overshoot_okay :: "'d vls \<Rightarrow> bool" where
  "is_overshoot_okay (VlsSimulcast b) = True"
| "is_overshoot_okay _ = False"

definition new_null_selector :: "'d vls" where
  "new_null_selector = VlsNull new_base"

definition new_simulcast_from_other :: "'d vls \<Rightarrow> 'd vls" where
  "new_simulcast_from_other v = VlsSimulcast (vls_base v)"

definition new_vp9_from_other :: "'d vls \<Rightarrow> 'd vls" where
  "new_vp9_from_other v = VlsVP9 (vls_base v)"

lemma vls_base_map [simp]: "vls_base (vls_map_base f v) = f (vls_base v)"
  by (cases v) auto

lemma overshoot_map [simp]: "is_overshoot_okay (vls_map_base f v) = is_overshoot_okay v"
  by (cases v) auto

section \<open>Simulcast\<close>

lemmas sc_defs = sc_select_def sc_overshoot_def sc_towards_target_def sc_settle_def

lemma sc_unchanged: "bs_max (fst (sc_select b p layer)) = bs_max b" "bs_max_seen (fst (sc_select b p layer)) = bs_max_seen b"
  by (auto simp: sc_defs)

lemma sc_current:
  "vl_spatial (bs_current (fst (sc_select b p layer))) = vl_spatial (bs_current b) \<or>
   ep_is_key_frame p \<and> vl_spatial (bs_current (fst (sc_select b p layer))) = layer"
  by (auto simp: sc_defs)

lemma sc_selected: "vr_is_selected (snd (sc_select b p layer)) \<longleftrightarrow> layer = vl_spatial (bs_current (fst (sc_select b p layer)))"
  by (simp add: sc_select_def split: prod.split)

text \<open>
  What happens to a selector in use: packets with their spatial layer, and new settings.  The
  forwarder calls \<open>Rollback\<close> when the source cannot be switched to the packet that was just
  selected (\<open>getTranslationParamsCommon\<close>): that packet is refused, it is not sent.
\<close>

datatype 'dd selector_event =
    SePacket "'dd ext_packet" int
  | SeRefused "'dd ext_packet" int
  | SeTemporal "'dd ext_packet"
  | SeTarget video_layer
  | SeMax video_layer
  | SeMaxSpatial int
  | SeMaxTemporal int
  | SeMaxSeen video_layer
  | SeMaxSeenSpatial int
  | SeMaxSeenTemporal int
  | SeRequestSpatial int
  | SeTemporalSelector "temporal_selector option"
  | SeResync

fun sc_step :: "base \<Rightarrow> 'dd selector_event \<Rightarrow> base" where
  "sc_step b (SePacket p layer) = fst (sc_select b p layer)"
| "sc_step b (SeRefused p layer) = bs_rollback (fst (sc_select b p layer))"
| "sc_step b (SeTemporal p) = fst (bs_select_temporal b p)"
| "sc_step b (SeTarget l) = bs_set_target l b"
| "sc_step b (SeMax l) = b\<lparr>bs_max := l\<rparr>"
| "sc_step b (SeMaxSpatial l) = bs_set_max_spatial l b"
| "sc_step b (SeMaxTemporal l) = bs_set_max_temporal l b"
| "sc_step b (SeMaxSeen l) = b\<lparr>bs_max_seen := l\<rparr>"
| "sc_step b (SeMaxSeenSpatial l) = bs_set_max_seen_spatial l b"
| "sc_step b (SeMaxSeenTemporal l) = bs_set_max_seen_temporal l b"
| "sc_step b (SeRequestSpatial l) = b\<lparr>bs_request_spatial := l\<rparr>"
| "sc_step b (SeTemporalSelector t) = b\<lparr>bs_tls := t\<rparr>"
| "sc_step b SeResync = b\<lparr>bs_current := invalid_layer\<rparr>"

text \<open>The packets that are selected and not refused, over a run: (key frame?, spatial layer).\<close>

fun sc_sent :: "base \<Rightarrow> 'dd selector_event \<Rightarrow> (bool \<times> int) list" where
  "sc_sent b (SePacket p layer) = (if vr_is_selected (snd (sc_select b p layer)) then [(ep_is_key_frame p, layer)] else [])"
| "sc_sent b _ = []"

fun sc_sent_run :: "base \<Rightarrow> 'dd selector_event list \<Rightarrow> (bool \<times> int) list" where
  "sc_sent_run b [] = []"
| "sc_sent_run b (e # es) = sc_sent b e @ sc_sent_run (sc_step b e) es"

text \<open>A decoder can follow: it starts, and changes the layer, at key frames only.\<close>

fun decodable :: "int option \<Rightarrow> (bool \<times> int) list \<Rightarrow> bool" where
  "decodable c [] \<longleftrightarrow> True"
| "decodable c ((key, l) # xs) \<longleftrightarrow> (key \<or> c = Some l) \<and> decodable (Some l) xs"

text \<open>The layers of packets are not negative, and a packet that is refused is one that switched the layer.\<close>

fun sc_event_ok :: "base \<Rightarrow> 'dd selector_event \<Rightarrow> bool" where
  "sc_event_ok b (SePacket p layer) \<longleftrightarrow> 0 \<le> layer"
| "sc_event_ok b (SeRefused p layer) \<longleftrightarrow> vr_is_switching (snd (sc_select b p layer))"
| "sc_event_ok b _ \<longleftrightarrow> True"

fun sc_events_ok :: "base \<Rightarrow> 'dd selector_event list \<Rightarrow> bool" where
  "sc_events_ok b [] \<longleftrightarrow> True"
| "sc_events_ok b (e # es) \<longleftrightarrow> sc_event_ok b e \<and> sc_events_ok (sc_step b e) es"

definition decoder_at :: "base \<Rightarrow> int option" where
  "decoder_at b = (if vl_spatial (bs_current b) = -1 then None else Some (vl_spatial (bs_current b)))"

lemma decodable_start: "decodable None xs \<Longrightarrow> decodable c xs"
  by (cases xs) auto

text \<open>A rollback right after a switch brings back the layer and the target of before.\<close>

lemma rollback_undoes_switch:
  assumes "vr_is_switching (snd (sc_select b p layer))"
  shows "bs_current (bs_rollback (fst (sc_select b p layer))) = bs_current b"
    "bs_target (bs_rollback (fst (sc_select b p layer))) = bs_target b"
  using assms by (auto simp: sc_defs bs_rollback_def vls_result_zero_def)

lemma sc_step_current:
  assumes "\<And>p l. e \<noteq> SePacket p l" "sc_event_ok b e"
  shows "decoder_at (sc_step b e) = decoder_at b \<or> decoder_at (sc_step b e) = None"
proof (cases "\<exists>p l. e = SeRefused p l")
  case True
  then obtain p l where e: "e = SeRefused p l" by blast
  then have "vr_is_switching (snd (sc_select b p l))" using assms(2) by simp
  from rollback_undoes_switch(1) [OF this] show ?thesis by (simp add: e decoder_at_def)
next
  case False
  then show ?thesis
    using assms(1) by (cases e)
      (auto simp: decoder_at_def bs_select_temporal_def bs_set_target_def bs_set_max_spatial_def bs_set_max_temporal_def
        bs_set_max_seen_spatial_def bs_set_max_seen_temporal_def split: option.split prod.split)
qed

text \<open>A packet: what is selected is of the layer the decoder is at, or is a key frame.\<close>

lemma sc_packet_decoder:
  assumes "0 \<le> layer"
  shows "if vr_is_selected (snd (sc_select b p layer))
    then decoder_at (fst (sc_select b p layer)) = Some layer \<and> (ep_is_key_frame p \<or> decoder_at b = Some layer)
    else decoder_at (fst (sc_select b p layer)) = decoder_at b"
proof -
  let ?b = "fst (sc_select b p layer)"
  consider "vl_spatial (bs_current ?b) = vl_spatial (bs_current b)" | "ep_is_key_frame p" "vl_spatial (bs_current ?b) = layer"
    using sc_current [of b p layer] by blast
  then show ?thesis using assms by cases (auto simp: decoder_at_def sc_selected)
qed

lemma run_decodable:
  "sc_events_ok b es \<Longrightarrow> decodable (decoder_at b) (sc_sent_run b es)"
proof (induction es arbitrary: b)
  case (Cons e es)
  have IH: "decodable (decoder_at (sc_step b e)) (sc_sent_run (sc_step b e) es)" using Cons by simp
  have ok: "sc_event_ok b e" using Cons.prems by simp
  show ?case
  proof (cases "\<exists>p layer. e = SePacket p layer")
    case True
    then obtain p layer where e: "e = SePacket p layer" by blast
    have "0 \<le> layer" using ok e by simp
    from sc_packet_decoder [OF this, of b p] IH show ?thesis by (auto simp: e split: if_splits)
  next
    case False
    then have "sc_sent b e = []" by (cases e) auto
    moreover have "decoder_at (sc_step b e) = decoder_at b \<or> decoder_at (sc_step b e) = None"
      using False ok by (intro sc_step_current) auto
    ultimately show ?thesis using IH by (auto intro: decodable_start)
  qed
qed simp

text \<open>
  C6. Through any sequence of the events of a simulcast selector (packets of all layers mixed,
  temporal selections, new targets, maxima and layers seen, resyncs, and switches of the layer
  that the forwarder refuses and rolls back, in any order), the packets it selects and that are
  not refused start with a key frame and change the spatial layer at key frames only: what is
  forwarded can be decoded.  A packet that is refused must be one that switched the layer;
  a rollback after a packet that did not switch brings back an older layer without a key frame
  (\<open>rollback_without_switch\<close> below).
\<close>

theorem simulcast_decodable:
  assumes "bs_current b = invalid_layer" "sc_events_ok b es"
  shows "decodable None (sc_sent_run b es)"
  using run_decodable [OF assms(2)] assms(1) by (simp add: decoder_at_def)

definition key_packet :: "bool \<Rightarrow> unit ext_packet" where
  "key_packet k = ext_packet_zero\<lparr>ep_is_key_frame := k\<rparr>"

lemma simulcast_decodable_witness:
  "decodable None (sc_sent_run new_base
     [SeMaxSpatial 2, SeTarget (VideoLayer 2 0), SePacket (key_packet False) 0, SePacket (key_packet True) 0,
      SePacket (key_packet False) 0, SeRefused (key_packet True) 2, SePacket (key_packet False) 2, SePacket (key_packet False) 0,
      SePacket (key_packet True) 2, SePacket (key_packet False) 2, SeTarget (VideoLayer 0 0), SePacket (key_packet True) 0])"
proof (rule simulcast_decodable)
  show "bs_current new_base = invalid_layer" by (simp add: new_base_def)
  show "sc_events_ok new_base
     [SeMaxSpatial 2, SeTarget (VideoLayer 2 0), SePacket (key_packet False) 0, SePacket (key_packet True) 0,
      SePacket (key_packet False) 0, SeRefused (key_packet True) 2, SePacket (key_packet False) 2, SePacket (key_packet False) 0,
      SePacket (key_packet True) 2, SePacket (key_packet False) 2, SeTarget (VideoLayer 0 0), SePacket (key_packet True) 0]"
    by code_simp
qed

text \<open>
  \<open>Rollback\<close> restores the layer of before the last switch, whenever that was: after a packet
  that did not switch (its source changed for another reason), the selector goes back to a
  layer it had left, and selects packets of it that are no key frames.
\<close>

lemma rollback_without_switch:
  "\<not> decodable None (sc_sent_run new_base
     [SeMaxSpatial 2, SeTarget (VideoLayer 0 0), SePacket (key_packet True) 0, SeTarget (VideoLayer 2 0),
      SePacket (key_packet True) 2, SePacket (key_packet False) 2, SeRefused (key_packet False) 2, SePacket (key_packet False) 0])"
  by code_simp

text \<open>Locked: the current spatial layer is the target.\<close>

definition sc_locked :: "base \<Rightarrow> bool" where
  "sc_locked b \<longleftrightarrow> vl_spatial (bs_current b) = vl_spatial (bs_target b)"

definition sc_within_max :: "base \<Rightarrow> bool" where
  "sc_within_max b \<longleftrightarrow> vl_spatial (bs_current b) \<le> vl_spatial (bs_max b) \<and> vl_spatial (bs_target b) \<le> vl_spatial (bs_max b)"

fun sc_after :: "base \<Rightarrow> ('dd ext_packet \<times> int) list \<Rightarrow> base" where
  "sc_after b [] = b"
| "sc_after b ((p, layer) # ps) = sc_after (fst (sc_select b p layer)) ps"

lemma sc_within: "sc_within_max b \<Longrightarrow> sc_within_max (fst (sc_select b p layer))"
  by (auto simp: sc_within_max_def sc_defs)

lemma sc_stays_locked: "sc_within_max b \<Longrightarrow> sc_locked b \<Longrightarrow> sc_locked (fst (sc_select b p layer))"
  by (auto simp: sc_within_max_def sc_locked_def sc_defs)

lemma sc_progress:
  "sc_within_max b \<Longrightarrow> sc_locked (fst (sc_select b p layer)) \<or>
    vl_spatial (bs_target (fst (sc_select b p layer))) = vl_spatial (bs_target b) \<and>
    \<not> (ep_is_key_frame p \<and> layer = vl_spatial (bs_target b))"
  by (auto simp: sc_within_max_def sc_locked_def sc_defs)

lemma sc_after_locked: "sc_within_max b \<Longrightarrow> sc_locked b \<Longrightarrow> sc_locked (sc_after b ps)"
  by (induction b ps rule: sc_after.induct) (auto intro: sc_within sc_stays_locked)

text \<open>
  C33. Switching comes to an end: after any stream of packets that contains a key frame of the
  target spatial layer (a layer within the maximum), the selector is locked to its target, at
  this layer or at the highest one seen; packets of other layers and their key frames do not
  prevent it.
\<close>

theorem simulcast_gets_locked:
  assumes "sc_within_max b" "\<exists>p. (p, vl_spatial (bs_target b)) \<in> set ps \<and> ep_is_key_frame p"
  shows "sc_locked (sc_after b ps) \<and> sc_within_max (sc_after b ps)"
  using assms
proof (induction b ps rule: sc_after.induct)
  case (1 b)
  then show ?case by simp
next
  case (2 b p layer ps)
  let ?b = "fst (sc_select b p layer)"
  have w: "sc_within_max ?b" by (rule sc_within [OF 2(2)])
  have w': "sc_within_max (sc_after c qs)" if "sc_within_max c" for c qs
    using that by (induction c qs rule: sc_after.induct) (auto intro: sc_within)
  show ?case
  proof (cases "sc_locked ?b")
    case True
    then show ?thesis using sc_after_locked [OF w True, of ps] w' [OF w, of ps] by simp
  next
    case False
    with sc_progress [OF 2(2), of p layer] have "vl_spatial (bs_target ?b) = vl_spatial (bs_target b)"
      "\<not> (ep_is_key_frame p \<and> layer = vl_spatial (bs_target b))" by auto
    with 2 w show ?thesis by auto
  qed
qed

lemma simulcast_gets_locked_witness:
  "sc_locked (sc_after (new_base\<lparr>bs_max := VideoLayer 2 3, bs_max_seen := VideoLayer 2 3, bs_target := VideoLayer 1 2\<rparr>)
     [(key_packet False, 0), (key_packet True, 2), (key_packet True, 0), (key_packet False, 1), (key_packet True, 1), (key_packet True, 2)])"
proof -
  let ?b = "new_base\<lparr>bs_max := VideoLayer 2 3, bs_max_seen := VideoLayer 2 3, bs_target := VideoLayer 1 2\<rparr>"
  have "sc_within_max ?b" by (simp add: sc_within_max_def new_base_def)
  then show ?thesis
    using simulcast_gets_locked [of ?b "[(key_packet False, 0), (key_packet True, 2), (key_packet True, 0),
      (key_packet False, 1), (key_packet True, 1), (key_packet True, 2)]"]
    by (force simp: key_packet_def)
qed

section \<open>VP9\<close>

text \<open>
  Resuming at a VP9 key frame makes its layer the current one, but the packet itself is judged
  against the invalid layer that was current before: it is not selected, so that the first
  packet of the key frame is missing from what is forwarded.
\<close>

lemma vp9_resume_drops_packet:
  assumes "ep_payload p = PayloadVP9 v" "bs_current b = invalid_layer" "vl_is_valid (bs_target b)"
    and "ep_is_key_frame p" "0 \<le> vl_spatial (ep_layer p)" "0 \<le> vl_temporal (ep_layer p)"
  shows "bs_current (fst (vp9_select b p layer)) = ep_layer p"
    "vr_is_resuming (snd (vp9_select b p layer))" "\<not> vr_is_selected (snd (vp9_select b p layer))"
proof -
  have v: "bs_current b \<noteq> bs_target b" "\<not> vl_is_valid (bs_current b)" "vl_is_valid (ep_layer p)" "ep_layer p \<noteq> invalid_layer"
    using assms by (auto simp: vl_is_valid_def)
  have g: "vl_greater_than (ep_layer p) invalid_layer" using assms(5) by (simp add: vl_greater_than_def)
  show "bs_current (fst (vp9_select b p layer)) = ep_layer p"
    "vr_is_resuming (snd (vp9_select b p layer))" "\<not> vr_is_selected (snd (vp9_select b p layer))"
    using v assms(1,2,4) g by (simp_all add: vp9_select_def Let_def)
qed

text \<open>The layers a VP9 packet is judged against and the next one lie between the current one and the target.\<close>

definition between :: "int \<Rightarrow> int \<Rightarrow> int \<Rightarrow> bool" where
  "between a x b \<longleftrightarrow> (a \<le> x \<and> x \<le> b) \<or> (b \<le> x \<and> x \<le> a)"

lemma vp9_layers_between:
  assumes "vp9_layers b p v = (cur, upd)"
  shows "between (vl_spatial (bs_current b)) (vl_spatial cur) (vl_spatial (bs_target b))"
    "between (vl_temporal (bs_current b)) (vl_temporal cur) (vl_temporal (bs_target b))"
    "between (vl_spatial (bs_current b)) (vl_spatial upd) (vl_spatial (bs_target b))"
    "between (vl_temporal (bs_current b)) (vl_temporal upd) (vl_temporal (bs_target b))"
  using assms by (auto simp: vp9_layers_def Let_def between_def split: if_splits)

text \<open>
  C37. A VP9 stream that is forwarded moves towards its target only: each step leaves the current
  layer between the old one and the target, in both dimensions; it climbs spatially only at the
  start of a frame that needs no earlier picture and temporally only at a switching-up point,
  it goes down only after the end of a frame; and a packet above both the current layer and
  the target is never selected.
\<close>

theorem vp9_moves_to_target:
  assumes p: "ep_payload p = PayloadVP9 v" and cur: "vl_is_valid (bs_current b)"
  shows "let b' = fst (vp9_select b p layer); r = snd (vp9_select b p layer); c = bs_current b; c' = bs_current b'; t = bs_target b in
    between (vl_spatial c) (vl_spatial c') (vl_spatial t) \<and> between (vl_temporal c) (vl_temporal c') (vl_temporal t) \<and>
    (vl_spatial c' > vl_spatial c \<longrightarrow> v9_B v \<and> \<not> v9_P v \<and> vl_spatial c' = vl_spatial (ep_layer p)) \<and>
    (vl_temporal c' > vl_temporal c \<longrightarrow> v9_B v \<and> v9_U v \<and> vl_temporal c' = vl_temporal (ep_layer p)) \<and>
    (vl_spatial c' < vl_spatial c \<or> vl_temporal c' < vl_temporal c \<longrightarrow> v9_E v) \<and>
    (vr_is_selected r \<longrightarrow> vl_spatial (ep_layer p) \<le> max (vl_spatial c) (vl_spatial t)) \<and>
    (vr_is_switching r \<longleftrightarrow> c' \<noteq> c)"
proof (cases "bs_current b = bs_target b")
  case True
  then show ?thesis using p by (auto simp: vp9_select_def Let_def between_def vl_greater_than_def)
next
  case False
  obtain c u where cu: "vp9_layers b p v = (c, u)" by fastforce
  note bt = vp9_layers_between [OF cu]
  have sel: "bs_current (fst (vp9_select b p layer)) = u" "vr_is_selected (snd (vp9_select b p layer)) = (\<not> vl_greater_than (ep_layer p) c)"
    "vr_is_switching (snd (vp9_select b p layer)) = (u \<noteq> bs_current b)"
    using p cur False cu by (auto simp: vp9_select_def Let_def)
  have up: "vl_spatial u > vl_spatial (bs_current b) \<longrightarrow> v9_B v \<and> \<not> v9_P v \<and> vl_spatial u = vl_spatial (ep_layer p)"
    "vl_temporal u > vl_temporal (bs_current b) \<longrightarrow> v9_B v \<and> v9_U v \<and> vl_temporal u = vl_temporal (ep_layer p)"
    "vl_spatial u < vl_spatial (bs_current b) \<or> vl_temporal u < vl_temporal (bs_current b) \<longrightarrow> v9_E v"
    using cu by (auto simp: vp9_layers_def Let_def split: if_splits)
  show ?thesis
    unfolding Let_def sel using bt up by (auto simp: vl_greater_than_def between_def)
qed

lemma vp9_moves_to_target_witness:
  "between 0 (vl_spatial (bs_current (fst (vp9_select
      (new_base\<lparr>bs_current := VideoLayer 0 0, bs_target := VideoLayer 2 0\<rparr>)
      (ext_packet_zero\<lparr>ep_layer := VideoLayer 1 0, ep_payload := PayloadVP9 \<lparr>v9_I = True, v9_P = False, v9_L = True, v9_F = False,
         v9_B = True, v9_E = False, v9_U = False, v9_D = False, v9_tid = 0, v9_sid = 1\<rparr>\<rparr> :: unit ext_packet) 0)))) 2"
  using vp9_moves_to_target [of "ext_packet_zero\<lparr>ep_layer := VideoLayer 1 0, ep_payload := PayloadVP9 \<lparr>v9_I = True, v9_P = False, v9_L = True, v9_F = False,
         v9_B = True, v9_E = False, v9_U = False, v9_D = False, v9_tid = 0, v9_sid = 1\<rparr>\<rparr> :: unit ext_packet" _
      "new_base\<lparr>bs_current := VideoLayer 0 0, bs_target := VideoLayer 2 0\<rparr>" 0]
  by (simp add: Let_def vl_is_valid_def)

end
