(* ===== verification/Layer_Rates.thy ===== *)
theory Layer_Rates
  imports Complex_Main Ext_Packet
begin

text \<open>
  Bitrates of the layers of a stream and the searches over them
  (\<open>Bitrates\<close> in \<open>pkg/sfu/receiver_base.go\<close>; \<open>getOptimalBandwidthNeeded\<close>, \<open>getBandwidthNeeded\<close>,
  \<open>getDistanceToDesired\<close> and the search loops of \<open>pkg/sfu/forwarder.go\<close>).  The array has a fixed
  size: it is a function here, and an access outside the grid is a panic.
\<close>

section \<open>Bitrates\<close>

type_synonym bitrates = "int \<Rightarrow> int \<Rightarrow> int"

definition in_grid :: "video_layer \<Rightarrow> bool" where
  "in_grid l \<longleftrightarrow> 0 \<le> vl_spatial l \<and> vl_spatial l \<le> 2 \<and> 0 \<le> vl_temporal l \<and> vl_temporal l \<le> 3"

definition rate :: "bitrates \<Rightarrow> video_layer \<Rightarrow> int" where
  "rate brs l = brs (vl_spatial l) (vl_temporal l)"

definition br_at :: "bitrates \<Rightarrow> video_layer \<Rightarrow> int option" where
  "br_at brs l = (if in_grid l then Some (rate brs l) else None)"

definition no_bitrates :: bitrates where
  "no_bitrates = (\<lambda>_ _. 0)"

lemma br_at_grid [simp]: "in_grid l \<Longrightarrow> br_at brs l = Some (rate brs l)"
  by (simp add: br_at_def)

text \<open>
  The loops over the grid end at the first layer that satisfies a condition:
  \<open>Some None\<close> when there is none.
\<close>

fun first_such :: "(int \<Rightarrow> bool) \<Rightarrow> bitrates \<Rightarrow> video_layer list \<Rightarrow> video_layer option option" where
  "first_such P brs [] = Some None"
| "first_such P brs (l # ls) = (case br_at brs l of
     None \<Rightarrow> None
   | Some r \<Rightarrow> if P r then Some (Some l) else first_such P brs ls)"

text \<open>Spatial layers outside, temporal layers inside, both counted up; and both counted down to 0.\<close>

definition layers_up :: "int \<Rightarrow> int \<Rightarrow> int \<Rightarrow> int \<Rightarrow> video_layer list" where
  "layers_up s0 s1 t0 t1 = concat (map (\<lambda>s. map (VideoLayer s) [t0..t1]) [s0..s1])"

definition layers_down :: "int \<Rightarrow> int \<Rightarrow> video_layer list" where
  "layers_down s t = rev (layers_up 0 s 0 t)"

section \<open>Bandwidth and distance\<close>

definition get_optimal_bandwidth_needed :: "bool \<Rightarrow> bool \<Rightarrow> int \<Rightarrow> bitrates \<Rightarrow> video_layer \<Rightarrow> int option" where
  "get_optimal_bandwidth_needed muted pub_muted max_published brs mx =
    (if muted \<or> pub_muted \<or> max_published = invalid_layer_spatial then Some 0
     else case first_such (\<lambda>r. r \<noteq> 0) brs (layers_down (vl_spatial mx) (vl_temporal mx)) of
       None \<Rightarrow> None
     | Some None \<Rightarrow> Some 0
     | Some (Some l) \<Rightarrow> Some (rate brs l))"

definition get_bandwidth_needed :: "bitrates \<Rightarrow> video_layer \<Rightarrow> int \<Rightarrow> int option" where
  "get_bandwidth_needed brs layer fallback =
    (if vl_is_valid layer then
       (case br_at brs layer of None \<Rightarrow> None | Some r \<Rightarrow> Some (if r > 0 then r else fallback))
     else Some fallback)"

text \<open>\<open>getDistanceToDesired\<close>: the highest layer that could be had, and how far the target is from it.\<close>

fun raise_to_available :: "int \<Rightarrow> int list \<Rightarrow> int \<times> int \<Rightarrow> int \<times> int" where
  "raise_to_available seen_t [] st = st"
| "raise_to_available seen_t (l # ls) (s, t) = raise_to_available seen_t ls (if l > s then (l, seen_t) else (s, t))"

definition max_available :: "video_layer \<Rightarrow> int list \<Rightarrow> bitrates \<Rightarrow> int \<times> int" where
  "max_available max_seen available brs =
    raise_to_available (vl_temporal max_seen) available
      (case first_such (\<lambda>r. r \<noteq> 0) brs (layers_down 2 3) of
         Some (Some l) \<Rightarrow> vl_spatial l | _ \<Rightarrow> invalid_layer_spatial, invalid_layer_temporal)"

definition top_temporal :: "bitrates \<Rightarrow> int \<Rightarrow> int \<Rightarrow> int option" where
  "top_temporal brs s t0 =
    (if s \<noteq> invalid_layer_spatial then
       (case first_such (\<lambda>r. r \<noteq> 0) brs (map (VideoLayer s) (rev [0..3])) of
          None \<Rightarrow> None | Some None \<Rightarrow> Some t0 | Some (Some l) \<Rightarrow> Some (vl_temporal l))
     else Some t0)"

definition adjusted_max_layer :: "video_layer \<Rightarrow> int list \<Rightarrow> bitrates \<Rightarrow> video_layer \<Rightarrow> video_layer option" where
  "adjusted_max_layer max_seen available brs mx =
    (case max_available max_seen available brs of (avail_s, avail_t) \<Rightarrow>
       let s = min (min avail_s (vl_spatial mx)) (vl_spatial max_seen) in
       do {
         avail_t' \<leftarrow> top_temporal brs s avail_t;
         let t = min (min avail_t' (vl_temporal mx)) (vl_temporal max_seen);
         Some (if vl_is_valid (VideoLayer s t) then VideoLayer s t else VideoLayer 0 0)
       })"

definition layer_distance :: "video_layer \<Rightarrow> video_layer \<Rightarrow> video_layer \<Rightarrow> int" where
  "layer_distance max_seen adjusted target =
    (let t = (if vl_is_valid target then target else VideoLayer 0 0);
         d = i32 ((vl_spatial adjusted - vl_spatial t) * (vl_temporal max_seen + 1) + (vl_temporal adjusted - vl_temporal t))
     in if vl_is_valid target then d else i32 (d + (vl_temporal max_seen + 1)))"

text \<open>The \<open>float64\<close> quotient of two small integers is the exact one here.\<close>

definition get_distance_to_desired ::
  "bool \<Rightarrow> bool \<Rightarrow> video_layer \<Rightarrow> int list \<Rightarrow> bitrates \<Rightarrow> video_layer \<Rightarrow> video_layer \<Rightarrow> rat option" where
  "get_distance_to_desired muted pub_muted max_seen available brs target mx =
    (if muted \<or> pub_muted \<or> \<not> vl_is_valid max_seen \<or> \<not> vl_is_valid mx then Some 0
     else do {
       adjusted \<leftarrow> adjusted_max_layer max_seen available brs mx;
       Some (of_int (layer_distance max_seen adjusted target) / of_int (i32 (vl_temporal max_seen + 1)))
     })"

section \<open>Searching in order\<close>

lemma set_layers_up: "set (layers_up s0 s1 t0 t1) =
  {l. s0 \<le> vl_spatial l \<and> vl_spatial l \<le> s1 \<and> t0 \<le> vl_temporal l \<and> vl_temporal l \<le> t1}" (is "?A = ?B")
proof (rule set_eqI)
  fix l
  show "l \<in> ?A \<longleftrightarrow> l \<in> ?B" by (cases l) (force simp: layers_up_def image_iff)
qed

lemma sorted_map_layer: "sorted_wrt (<) xs \<Longrightarrow> sorted_wrt (<) (map (VideoLayer s) xs)"
  by (induction xs) (auto simp: less_video_layer_def vl_greater_than_def)

lemma sorted_upto_wrt: "sorted_wrt (<) [a..b :: int]"
proof (induction a b rule: upto.induct)
  case (1 a b)
  then show ?case by (subst upto.simps) auto
qed

lemma sorted_rows:
  "sorted_wrt (<) ss \<Longrightarrow> sorted_wrt (<) (concat (map (\<lambda>s. map (VideoLayer s) [t0..t1]) ss))"
proof (induction ss)
  case (Cons s ss)
  have "x < y" if "vl_spatial x < vl_spatial y" for x y
    using that by (simp add: less_video_layer_def vl_greater_than_def)
  with Cons show ?case
    using sorted_map_layer [OF sorted_upto_wrt, of s t0 t1] by (auto simp: sorted_wrt_append)
qed simp

lemma sorted_layers_up: "sorted_wrt (<) (layers_up s0 s1 t0 t1)"
  unfolding layers_up_def by (rule sorted_rows [OF sorted_upto_wrt])

lemma first_such_total:
  "list_all in_grid ls \<Longrightarrow> first_such P brs ls \<noteq> None"
  by (induction ls) auto

lemma first_such_none: "first_such P brs ls = Some None \<Longrightarrow> l \<in> set ls \<Longrightarrow> \<not> P (rate brs l)"
  by (induction ls) (auto simp: br_at_def split: if_splits)

lemma first_such_some:
  "first_such P brs ls = Some (Some l) \<Longrightarrow> \<exists>xs ys. ls = xs @ l # ys \<and> in_grid l \<and> P (rate brs l) \<and> (\<forall>x\<in>set xs. \<not> P (rate brs x))"
proof (induction ls)
  case (Cons a ls)
  show ?case
  proof (cases "in_grid a \<and> P (rate brs a)")
    case True
    with Cons.prems show ?thesis by (intro exI [of _ "[]"] exI [of _ ls]) auto
  next
    case False
    with Cons.prems have a: "in_grid a" "\<not> P (rate brs a)" and r: "first_such P brs ls = Some (Some l)"
      by (auto simp: br_at_def split: if_splits)
    from Cons.IH [OF r] obtain xs ys where "ls = xs @ l # ys" "in_grid l" "P (rate brs l)" "\<forall>x\<in>set xs. \<not> P (rate brs x)"
      by blast
    with a show ?thesis by (intro exI [of _ "a # xs"] exI [of _ ys]) auto
  qed
qed simp

text \<open>In an ascending list the search finds the least layer, in a descending one the greatest.\<close>

lemma first_such_least:
  assumes "first_such P brs ls = Some (Some l)" "sorted_wrt (<) ls"
  shows "in_grid l" "l \<in> set ls" "P (rate brs l)" "\<And>k. k \<in> set ls \<Longrightarrow> P (rate brs k) \<Longrightarrow> l \<le> k"
proof -
  obtain xs ys where "ls = xs @ l # ys" "in_grid l" "P (rate brs l)" "\<forall>x\<in>set xs. \<not> P (rate brs x)"
    using first_such_some [OF assms(1)] by blast
  then show "in_grid l" "l \<in> set ls" "P (rate brs l)" "\<And>k. k \<in> set ls \<Longrightarrow> P (rate brs k) \<Longrightarrow> l \<le> k"
    using assms(2) by (auto simp: sorted_wrt_append less_imp_le)
qed

lemma first_such_greatest:
  assumes "first_such P brs (rev ls) = Some (Some l)" "sorted_wrt (<) ls"
  shows "in_grid l" "l \<in> set ls" "P (rate brs l)" "\<And>k. k \<in> set ls \<Longrightarrow> P (rate brs k) \<Longrightarrow> k \<le> l"
proof -
  obtain xs ys where x: "rev ls = xs @ l # ys" "in_grid l" "P (rate brs l)" "\<forall>x\<in>set xs. \<not> P (rate brs x)"
    using first_such_some [OF assms(1)] by blast
  from arg_cong [OF x(1), of rev] have "ls = rev ys @ l # rev xs" by simp
  with x show "in_grid l" "l \<in> set ls" "P (rate brs l)" "\<And>k. k \<in> set ls \<Longrightarrow> P (rate brs k) \<Longrightarrow> k \<le> l"
    using assms(2) by (auto simp: sorted_wrt_append less_imp_le)
qed

section \<open>The optimal bandwidth\<close>

text \<open>The layers up to a maximum that have a bitrate; the best one is their greatest.\<close>

definition offered :: "bitrates \<Rightarrow> video_layer \<Rightarrow> video_layer set" where
  "offered brs mx = {l. 0 \<le> vl_spatial l \<and> vl_spatial l \<le> vl_spatial mx \<and> 0 \<le> vl_temporal l \<and>
     vl_temporal l \<le> vl_temporal mx \<and> rate brs l \<noteq> 0}"

definition best_rate :: "bitrates \<Rightarrow> video_layer \<Rightarrow> int" where
  "best_rate brs mx = (if offered brs mx = {} then 0 else rate brs (Max (offered brs mx)))"

definition layer_ok :: "video_layer \<Rightarrow> bool" where
  "layer_ok l \<longleftrightarrow> - 1 \<le> vl_spatial l \<and> vl_spatial l \<le> 2 \<and> - 1 \<le> vl_temporal l \<and> vl_temporal l \<le> 3"

lemma grid_layer_ok [simp]: "in_grid l \<Longrightarrow> layer_ok l" "layer_ok invalid_layer"
  by (auto simp: in_grid_def layer_ok_def)

lemma invalid_not_in_grid [simp]: "\<not> in_grid invalid_layer"
  by (simp add: in_grid_def)

lemma valid_in_grid: "layer_ok l \<Longrightarrow> vl_is_valid l \<longleftrightarrow> in_grid l"
  by (auto simp: layer_ok_def in_grid_def vl_is_valid_def)

lemma grid_up: "layer_ok mx \<Longrightarrow> list_all in_grid (layers_up 0 (vl_spatial mx) 0 (vl_temporal mx))"
  by (auto simp: list_all_iff set_layers_up in_grid_def layer_ok_def)

lemma offered_set: "offered brs mx = {l \<in> set (layers_up 0 (vl_spatial mx) 0 (vl_temporal mx)). rate brs l \<noteq> 0}"
  by (auto simp: offered_def set_layers_up)

lemma finite_offered [simp]: "finite (offered brs mx)"
  unfolding offered_set by simp

lemma search_down:
  assumes "layer_ok mx"
  shows "first_such (\<lambda>r. r \<noteq> 0) brs (layers_down (vl_spatial mx) (vl_temporal mx)) =
    Some (if offered brs mx = {} then None else Some (Max (offered brs mx)))"
proof -
  let ?up = "layers_up 0 (vl_spatial mx) 0 (vl_temporal mx)"
  have t: "first_such (\<lambda>r. r \<noteq> 0) brs (rev ?up) \<noteq> None"
    using grid_up [OF assms] by (intro first_such_total) (simp add: list_all_iff)
  then consider (n) "first_such (\<lambda>r. r \<noteq> 0) brs (rev ?up) = Some None"
    | (s) l where "first_such (\<lambda>r. r \<noteq> 0) brs (rev ?up) = Some (Some l)" by (metis not_None_eq)
  then show ?thesis
  proof cases
    case n
    from first_such_none [OF n] have "offered brs mx = {}" by (auto simp: offered_set)
    with n show ?thesis by (simp add: layers_down_def)
  next
    case s
    note g = first_such_greatest [OF s sorted_layers_up]
    have "Max (offered brs mx) = l" using g(2-4) by (intro Max_eqI) (auto simp: offered_set)
    moreover have "offered brs mx \<noteq> {}" using g(2,3) by (auto simp: offered_set)
    ultimately show ?thesis using s by (simp add: layers_down_def)
  qed
qed

lemma optimal_bandwidth:
  "layer_ok mx \<Longrightarrow> get_optimal_bandwidth_needed muted pub_muted max_published brs mx =
    Some (if muted \<or> pub_muted \<or> max_published = -1 then 0 else best_rate brs mx)"
  by (simp add: get_optimal_bandwidth_needed_def search_down best_rate_def)

lemma bandwidth_needed:
  "layer_ok l \<Longrightarrow> get_bandwidth_needed brs l fb = Some (if in_grid l \<and> rate brs l > 0 then rate brs l else fb)"
  by (auto simp: get_bandwidth_needed_def valid_in_grid)

text \<open>
  C11. The optimal bandwidth of a stream is the bitrate of its best layer: of the greatest one,
  spatial layer first, that is within the subscribed maximum and is being sent; it is 0 when
  the stream is muted on either side or nothing has been published, and the search never
  leaves the table of bitrates.
\<close>

theorem optimal_is_best_layer:
  assumes "layer_ok mx"
  shows "get_optimal_bandwidth_needed muted pub_muted max_published brs mx =
    Some (if muted \<or> pub_muted \<or> max_published = -1 \<or> offered brs mx = {} then 0
          else rate brs (Max (offered brs mx)))"
  by (simp add: optimal_bandwidth [OF assms] best_rate_def)

lemma optimal_is_best_layer_witness:
  "get_optimal_bandwidth_needed False False 2 ((\<lambda>_ _. 0)(0 := (\<lambda>_. 0)(0 := 100, 2 := 150), 1 := (\<lambda>_. 0)(1 := 500))) (VideoLayer 2 3)
    = Some 500"
proof -
  let ?b = "(\<lambda>_ _. 0)(0 := (\<lambda>_. 0)(0 := 100, 2 := 150), 1 := (\<lambda>_. 0)(1 := 500)) :: bitrates"
  have "VideoLayer 1 1 \<in> offered ?b (VideoLayer 2 3)" by (simp add: offered_def rate_def)
  moreover have "Max (offered ?b (VideoLayer 2 3)) = VideoLayer 1 1"
  proof (rule Max_eqI [OF finite_offered])
    fix l
    assume "l \<in> offered ?b (VideoLayer 2 3)"
    then have "vl_spatial l = 1 \<and> vl_temporal l = 1 \<or> vl_spatial l = 0"
      by (auto simp: offered_def rate_def fun_upd_def split: if_splits)
    then show "l \<le> VideoLayer 1 1" by (cases l) (auto simp: less_eq_video_layer_def vl_greater_than_def)
  qed (auto simp: offered_def rate_def)
  ultimately show ?thesis
    using optimal_is_best_layer [of "VideoLayer 2 3" False False 2 ?b]
    by (auto simp: layer_ok_def rate_def simp del: layer_consts)
qed

section \<open>The distance to the desired layer\<close>

lemma raise_range:
  assumes "list_all (\<lambda>l. 0 \<le> l \<and> l \<le> 2) ls" "- 1 \<le> s" "s \<le> 2" "- 1 \<le> t" "t \<le> 3" "- 1 \<le> seen" "seen \<le> 3"
    and "raise_to_available seen ls (s, t) = (s', t')"
  shows "- 1 \<le> s' \<and> s' \<le> 2 \<and> - 1 \<le> t' \<and> t' \<le> 3"
  using assms
proof (induction ls arbitrary: s t)
  case (Cons l ls)
  show ?case
  proof (cases "l > s")
    case True
    with Cons.prems Cons.IH [of l seen] show ?thesis by auto
  next
    case False
    with Cons.prems Cons.IH [of s t] show ?thesis by auto
  qed
qed simp

lemma available_range:
  assumes "list_all (\<lambda>l. 0 \<le> l \<and> l \<le> 2) available" "layer_ok max_seen" "max_available max_seen available brs = (s, t)"
  shows "- 1 \<le> s \<and> s \<le> 2 \<and> - 1 \<le> t \<and> t \<le> 3"
proof -
  have ok: "layer_ok (VideoLayer 2 3)" by (simp add: layer_ok_def)
  define x where "x = (case first_such (\<lambda>r. r \<noteq> 0) brs (layers_down 2 3) of Some (Some l) \<Rightarrow> vl_spatial l | _ \<Rightarrow> invalid_layer_spatial)"
  have "- 1 \<le> x \<and> x \<le> 2"
  proof (cases "offered brs (VideoLayer 2 3) = {}")
    case False
    then have "Max (offered brs (VideoLayer 2 3)) \<in> offered brs (VideoLayer 2 3)" by simp
    with False show ?thesis using search_down [OF ok, of brs] by (simp add: x_def offered_def)
  qed (use search_down [OF ok, of brs] in \<open>simp add: x_def\<close>)
  then show ?thesis
    using assms by (intro raise_range [of available x "-1" "vl_temporal max_seen"]) (auto simp: max_available_def x_def layer_ok_def)
qed

lemma top_temporal_range:
  assumes "- 1 \<le> s" "s \<le> 2" "- 1 \<le> t0" "t0 \<le> 3"
  shows "\<exists>t. top_temporal brs s t0 = Some t \<and> - 1 \<le> t \<and> t \<le> 3"
proof (cases "s = -1")
  case False
  let ?ls = "map (VideoLayer s) (rev [0..3])"
  have "list_all in_grid ?ls" using assms False by (auto simp: list_all_iff in_grid_def)
  from first_such_total [OF this, of "\<lambda>r. r \<noteq> 0" brs] obtain r where r: "first_such (\<lambda>r. r \<noteq> 0) brs ?ls = Some r" by auto
  then show ?thesis using False assms
    by (cases r) (auto simp: top_temporal_def in_grid_def dest!: first_such_some)
qed (use assms in \<open>simp add: top_temporal_def\<close>)

lemma adjusted_grid:
  assumes "list_all (\<lambda>l. 0 \<le> l \<and> l \<le> 2) available" "in_grid max_seen" "in_grid mx"
  shows "\<exists>a. adjusted_max_layer max_seen available brs mx = Some a \<and> in_grid a \<and>
    vl_spatial a \<le> vl_spatial mx \<and> vl_temporal a \<le> vl_temporal mx \<and>
    vl_spatial a \<le> vl_spatial max_seen \<and> vl_temporal a \<le> vl_temporal max_seen"
proof -
  obtain s t where st: "max_available max_seen available brs = (s, t)" by fastforce
  from available_range [OF assms(1) _ this] assms(2) have r: "- 1 \<le> s" "s \<le> 2" "- 1 \<le> t" "t \<le> 3" by auto
  let ?s = "min (min s (vl_spatial mx)) (vl_spatial max_seen)"
  have "- 1 \<le> ?s" "?s \<le> 2" using r assms(2,3) by (auto simp: in_grid_def)
  from top_temporal_range [OF this r(3,4), of brs] obtain t' where "top_temporal brs ?s t = Some t'" "- 1 \<le> t'" "t' \<le> 3" by blast
  then show ?thesis using r assms(2,3) by (auto simp: adjusted_max_layer_def st Let_def in_grid_def vl_is_valid_def)
qed

lemma grid_product:
  assumes "in_grid a" "in_grid m"
  shows "0 \<le> vl_spatial a * (vl_temporal m + 1)" "vl_spatial a * (vl_temporal m + 1) \<le> 8"
  using assms mult_mono [of "vl_spatial a" 2 "vl_temporal m + 1" 4] by (auto simp: in_grid_def)

lemma distance_exact:
  assumes "in_grid a" "in_grid m" "in_grid t \<or> t = invalid_layer"
  shows "layer_distance m a t = (if t = invalid_layer then vl_spatial a * (vl_temporal m + 1) + vl_temporal a + (vl_temporal m + 1)
    else vl_spatial a * (vl_temporal m + 1) - vl_spatial t * (vl_temporal m + 1) + (vl_temporal a - vl_temporal t))"
proof -
  note p = grid_product [OF assms(1,2)]
  have r: "0 \<le> vl_temporal a" "vl_temporal a \<le> 3" "0 \<le> vl_temporal m" "vl_temporal m \<le> 3"
    using assms by (auto simp: in_grid_def)
  show ?thesis
  proof (cases "t = invalid_layer")
    case True
    have "i32 (vl_spatial a * (vl_temporal m + 1) + vl_temporal a) = vl_spatial a * (vl_temporal m + 1) + vl_temporal a"
      by (rule i32_small) (use p r in linarith)+
    moreover have "i32 (vl_spatial a * (vl_temporal m + 1) + vl_temporal a + (vl_temporal m + 1)) =
        vl_spatial a * (vl_temporal m + 1) + vl_temporal a + (vl_temporal m + 1)"
      by (rule i32_small) (use p r in linarith)+
    ultimately show ?thesis using True by (simp add: layer_distance_def Let_def)
  next
    case False
    then have g: "in_grid t" using assms by simp
    note q = grid_product [OF g assms(2)]
    have t: "0 \<le> vl_temporal t" "vl_temporal t \<le> 3" "vl_is_valid t" using g valid_in_grid [of t] by (auto simp: in_grid_def)
    have "i32 (vl_spatial a * (vl_temporal m + 1) - vl_spatial t * (vl_temporal m + 1) + (vl_temporal a - vl_temporal t)) =
      vl_spatial a * (vl_temporal m + 1) - vl_spatial t * (vl_temporal m + 1) + (vl_temporal a - vl_temporal t)"
      by (rule i32_small) (use p q r t in linarith)+
    then show ?thesis using False t(3) by (simp add: layer_distance_def Let_def left_diff_distrib)
  qed
qed

text \<open>
  The distance to the desired layer measures how far a stream is from the best it could
  have: there is a layer within what is subscribed, published and available at distance 0;
  among the layers the stream could have, a higher one (spatial first) is always nearer; and
  a paused stream is farther away than any streaming one.
\<close>

lemma distance_orders_layers:
  assumes "list_all (\<lambda>l. 0 \<le> l \<and> l \<le> 2) available" "in_grid max_seen" "in_grid mx"
  shows "\<exists>best d. in_grid best \<and>
    vl_spatial best \<le> min (vl_spatial mx) (vl_spatial max_seen) \<and> vl_temporal best \<le> min (vl_temporal mx) (vl_temporal max_seen) \<and>
    (\<forall>t. in_grid t \<or> t = invalid_layer \<longrightarrow>
      get_distance_to_desired False False max_seen available brs t mx = Some (d t) \<and> (in_grid t \<longrightarrow> d t < d invalid_layer)) \<and>
    d best = 0 \<and>
    (\<forall>t t'. in_grid t \<and> in_grid t' \<and> t < t' \<and> vl_temporal t \<le> vl_temporal max_seen \<longrightarrow> d t' < d t)"
proof -
  obtain a where a: "adjusted_max_layer max_seen available brs mx = Some a" "in_grid a"
    "vl_spatial a \<le> vl_spatial mx" "vl_temporal a \<le> vl_temporal mx" "vl_spatial a \<le> vl_spatial max_seen" "vl_temporal a \<le> vl_temporal max_seen"
    using adjusted_grid [OF assms, of brs] by blast
  let ?T = "vl_temporal max_seen + 1"
  have T: "0 < ?T" "i32 ?T = ?T" using assms(2) by (auto simp: in_grid_def i32_id)
  have v: "vl_is_valid max_seen" "vl_is_valid mx" using assms(2,3) by (simp_all add: valid_in_grid)
  define d :: "video_layer \<Rightarrow> rat" where "d t = of_int (layer_distance max_seen a t) / of_int ?T" for t
  have lt: "d t' < d t" if "layer_distance max_seen a t' < layer_distance max_seen a t" for t t'
    using that T unfolding d_def by (intro divide_strict_right_mono) auto
  have "d t < d invalid_layer" if t: "in_grid t" for t
  proof (rule lt)
    have "t \<noteq> invalid_layer" "0 \<le> vl_temporal t" using t by (auto simp: in_grid_def)
    then show "layer_distance max_seen a t < layer_distance max_seen a invalid_layer"
      using distance_exact [OF a(2) assms(2), of t] distance_exact [OF a(2) assms(2), of invalid_layer] t T(1)
        grid_product(1) [OF t assms(2)] by (simp only: simp_thms if_True if_False)
  qed
  moreover have "d t' < d t" if t: "in_grid t" "in_grid t'" "t < t'" "vl_temporal t \<le> vl_temporal max_seen" for t t'
  proof (rule lt)
    have n: "t \<noteq> invalid_layer" "t' \<noteq> invalid_layer" "0 \<le> vl_temporal t'" using t by (auto simp: in_grid_def)
    have "vl_spatial t * ?T + ?T \<le> vl_spatial t' * ?T" if "vl_spatial t < vl_spatial t'"
      using that T(1) mult_right_mono [of "vl_spatial t + 1" "vl_spatial t'" ?T] by (simp add: algebra_simps)
    then have "vl_spatial t * ?T + vl_temporal t < vl_spatial t' * ?T + vl_temporal t'"
      using t(3,4) n(3) by (auto simp: less_video_layer_def vl_greater_than_def)
    then show "layer_distance max_seen a t' < layer_distance max_seen a t"
      using distance_exact [OF a(2) assms(2), of t] distance_exact [OF a(2) assms(2), of t'] t n
      by (simp only: simp_thms if_False)
  qed
  moreover have "d a = 0" using distance_exact [OF a(2) assms(2), of a] a(2) by (auto simp: d_def in_grid_def)
  moreover have "get_distance_to_desired False False max_seen available brs t mx = Some (d t)" for t
    using v a(1) T(2) by (simp add: get_distance_to_desired_def d_def)
  ultimately show ?thesis using a(2-6) by (intro exI [of _ a] exI [of _ d]) auto
qed

end
