(* ===== verification/Forwarder.thy ===== *)
theory Forwarder
  imports Layer_Rates Rtp_Munger Vp8_Munger Layer_Selector
begin

text \<open>
  The forwarder of one track to one subscriber (\<open>pkg/sfu/forwarder.go\<close>): its state, the
  operations that configure it, and the allocation of a target layer when the channel is not
  congested (\<open>AllocateOptimal\<close>, \<open>Pause\<close>).  The lock is held over each operation, so an operation is
  one step; a panic is \<^const>\<open>None\<close>.  The selector of dependency descriptors has a state of
  the type \<open>'d\<close>, which is that of \<open>Dd_Selector\<close> where packets are translated
  (\<open>Forwarder_Translation\<close>).
\<close>

section \<open>Data\<close>

datatype mime_type = MimeUnknown | MimeH264 | MimeH265 | MimeOpus | MimeRED | MimeVP8 | MimeVP9 | MimeAV1
  | MimeG722 | MimePCMU | MimePCMA | MimeRTX | MimeFlexFEC | MimeULPFEC

datatype codec_kind = KindUnknown | KindAudio | KindVideo

datatype video_layer_mode = ModeUnused | OneSpatialLayerPerStream | MultipleSpatialLayersPerStream
  | OneSpatialLayerPerStreamIncompleteRtcpSr

definition is_simulcast_mode :: "video_layer_mode \<Rightarrow> bool" where
  "is_simulcast_mode m \<longleftrightarrow> m = OneSpatialLayerPerStream \<or> m = OneSpatialLayerPerStreamIncompleteRtcpSr"

datatype video_pause_reason = PauseNone | PauseMuted | PausePubMuted | PauseFeedDry | PauseBandwidth

record video_allocation =
  va_pause_reason :: video_pause_reason
  va_is_deficient :: bool
  va_bandwidth_requested :: int
  va_bandwidth_delta :: int
  va_bandwidth_needed :: int
  va_bitrates :: bitrates
  va_target_layer :: video_layer
  va_request_layer_spatial :: int
  va_max_layer :: video_layer
  va_distance_to_desired :: rat

definition video_allocation_default :: video_allocation where
  "video_allocation_default = \<lparr>va_pause_reason = PauseFeedDry, va_is_deficient = False, va_bandwidth_requested = 0,
     va_bandwidth_delta = 0, va_bandwidth_needed = 0, va_bitrates = no_bitrates, va_target_layer = invalid_layer,
     va_request_layer_spatial = invalid_layer_spatial, va_max_layer = invalid_layer, va_distance_to_desired = 0\<rparr>"

record provisional =
  pv_muted :: bool
  pv_pub_muted :: bool
  pv_max_seen :: video_layer
  pv_available :: "int list"
  pv_bitrates :: bitrates
  pv_max :: video_layer
  pv_current :: video_layer
  pv_allocated :: video_layer

record video_transition =
  vt_from :: video_layer
  vt_to :: video_layer
  vt_bandwidth_delta :: int

text \<open>The fields of the sender report (a protobuf message) that are read.\<close>

record sender_report =
  sr_rtp_timestamp :: u32
  sr_rtp_timestamp_ext :: u64
  sr_ntp_timestamp :: u64

record ref_info =
  ri_sender_report :: "sender_report option"
  ri_ts_offset :: u64
  ri_is_ts_offset_valid :: bool

definition ref_info_zero :: ref_info where
  "ref_info_zero = \<lparr>ri_sender_report = None, ri_ts_offset = 0, ri_is_ts_offset_valid = False\<rparr>"

text \<open>
  The forwarder without its logger and its statistics (which are shared with the down track,
  and an argument of the operations that ask them).  A zero \<open>time.Time\<close> is \<^const>\<open>None\<close>, any
  other one its nanoseconds.
\<close>

record ('mi, 'mb, 'd) forwarder =
  fw_mime :: mime_type
  fw_clock_rate :: u32
  fw_kind :: codec_kind
  fw_skip_reference_ts :: bool
  fw_disable_opportunistic :: bool
  fw_muted :: bool
  fw_pub_muted :: bool
  fw_resume_behind_threshold :: rat
  fw_started :: bool
  fw_pre_start_time :: "int option"
  fw_ext_first_ts :: u64
  fw_last_ssrc :: u32
  fw_last_reference_payload_type :: int
  fw_last_switch_ext_incoming_ts :: u64
  fw_reference_layer_spatial :: int
  fw_dummy_start_ts_offset :: u64
  fw_ref_infos :: "ref_info list"
  fw_ref_video_layer_mode :: video_layer_mode
  fw_is_dd_available :: bool
  fw_provisional :: "provisional option"
  fw_last_allocation :: video_allocation
  fw_rtp_munger :: rtp_munger
  fw_vls :: "'d vls"
  fw_codec_munger :: "('mi, 'mb) codec_munger"

abbreviation fw_base :: "('mi, 'mb, 'd) forwarder \<Rightarrow> base" where
  "fw_base f \<equiv> vls_base (fw_vls f)"

text \<open>A call of a setter of the selector.\<close>

definition on_vls :: "(base \<Rightarrow> base) \<Rightarrow> ('mi, 'mb, 'd) forwarder \<Rightarrow> ('mi, 'mb, 'd) forwarder" where
  "on_vls g f = f\<lparr>fw_vls := vls_map_base g (fw_vls f)\<rparr>"

definition new_forwarder :: "codec_kind \<Rightarrow> bool \<Rightarrow> bool \<Rightarrow> ('mi, 'mb, 'd) forwarder" where
  "new_forwarder kind skip_reference_ts disable_opportunistic =
    (let f = \<lparr>fw_mime = MimeUnknown, fw_clock_rate = 0, fw_kind = kind, fw_skip_reference_ts = skip_reference_ts,
        fw_disable_opportunistic = disable_opportunistic, fw_muted = False, fw_pub_muted = False,
        fw_resume_behind_threshold = 0, fw_started = False, fw_pre_start_time = None, fw_ext_first_ts = 0,
        fw_last_ssrc = 0, fw_last_reference_payload_type = -1, fw_last_switch_ext_incoming_ts = 0,
        fw_reference_layer_spatial = invalid_layer_spatial, fw_dummy_start_ts_offset = 0,
        fw_ref_infos = replicate 3 ref_info_zero, fw_ref_video_layer_mode = ModeUnused, fw_is_dd_available = False,
        fw_provisional = None, fw_last_allocation = video_allocation_default, fw_rtp_munger = new_rtp_munger,
        fw_vls = new_null_selector, fw_codec_munger = CmNull None\<rparr>
     in if kind = KindVideo then on_vls (bs_set_max_temporal default_max_layer_temporal) f else f)"

section \<open>Configuration\<close>

definition set_max_published_layer :: "int \<Rightarrow> ('mi, 'mb, 'd) forwarder \<Rightarrow> ('mi, 'mb, 'd) forwarder \<times> bool" where
  "set_max_published_layer l f =
    (if l \<le> vl_spatial (bs_max_seen (fw_base f)) then (f, False) else (on_vls (bs_set_max_seen_spatial l) f, True))"

definition set_max_temporal_layer_seen :: "int \<Rightarrow> ('mi, 'mb, 'd) forwarder \<Rightarrow> ('mi, 'mb, 'd) forwarder \<times> bool" where
  "set_max_temporal_layer_seen l f =
    (if l \<le> vl_temporal (bs_max_seen (fw_base f)) then (f, False) else (on_vls (bs_set_max_seen_temporal l) f, True))"

text \<open>
  \<open>DetermineCodec\<close>: \<open>dd_available\<close> says whether one of the extensions is the dependency
  descriptor, \<open>new_dd\<close> is the initial state of its selector.
\<close>

definition selector_for ::
  "'d \<Rightarrow> mime_type \<Rightarrow> bool \<Rightarrow> video_layer_mode \<Rightarrow> 'd vls \<Rightarrow> 'd vls" where
  "selector_for new_dd mime dd_available mode v = (case mime of
     MimeVP8 \<Rightarrow> vls_map_base (\<lambda>b. b\<lparr>bs_tls := Some TlsVP8\<rparr>) (new_simulcast_from_other v)
   | MimeH264 \<Rightarrow> new_simulcast_from_other v
   | MimeH265 \<Rightarrow> new_simulcast_from_other v
   | MimeVP9 \<Rightarrow> if is_simulcast_mode mode then new_simulcast_from_other v
                else if dd_available then VlsDD (vls_base v) new_dd else new_vp9_from_other v
   | MimeAV1 \<Rightarrow> if is_simulcast_mode mode then new_simulcast_from_other v
                else if dd_available then VlsDD (vls_base v) new_dd else new_simulcast_from_other v
   | _ \<Rightarrow> v)"

definition determine_codec ::
  "('mi, 'mb) vm_env \<Rightarrow> 'd \<Rightarrow> mime_type \<Rightarrow> u32 \<Rightarrow> bool \<Rightarrow> video_layer_mode \<Rightarrow>
   ('mi, 'mb, 'd) forwarder \<Rightarrow> ('mi, 'mb, 'd) forwarder" where
  "determine_codec env new_dd mime clock_rate dd_available mode f =
    (let f1 = (if mode = OneSpatialLayerPerStreamIncompleteRtcpSr then f\<lparr>fw_skip_reference_ts := True\<rparr> else f);
         f2 = f1\<lparr>fw_mime := mime, fw_clock_rate := clock_rate, fw_ref_video_layer_mode := mode,
                 fw_vls := selector_for new_dd mime dd_available mode (fw_vls f)\<rparr>;
         f3 = (case mime of
             MimeVP8 \<Rightarrow> f2\<lparr>fw_codec_munger := CmVP8 (new_vp8_from_other env (fw_codec_munger f))\<rparr>
           | _ \<Rightarrow> if mime \<in> {MimeH264, MimeH265, MimeVP9, MimeAV1} then f2\<lparr>fw_codec_munger := CmNull None\<rparr> else f2)
     in if mime \<in> {MimeVP9, MimeAV1} \<and> \<not> is_simulcast_mode mode then f3\<lparr>fw_is_dd_available := dd_available\<rparr> else f3)"

definition resync_locked :: "('mi, 'mb, 'd) forwarder \<Rightarrow> ('mi, 'mb, 'd) forwarder" where
  "resync_locked f =
    (let f1 = (on_vls (\<lambda>b. b\<lparr>bs_current := invalid_layer\<rparr>) f)\<lparr>fw_last_ssrc := 0\<rparr>
     in if fw_pub_muted f then f1\<lparr>fw_resume_behind_threshold := 1 / 5\<rparr> else f1)"

definition fw_mute :: "bool \<Rightarrow> bool \<Rightarrow> ('mi, 'mb, 'd) forwarder \<Rightarrow> ('mi, 'mb, 'd) forwarder \<times> bool" where
  "fw_mute muted is_subscribe_mutable f =
    (if fw_muted f = muted then (f, False)
     else if muted \<and> \<not> is_subscribe_mutable then (f, False)
     else (let f1 = f\<lparr>fw_muted := muted\<rparr> in if muted then resync_locked f1 else f1, True))"

definition fw_pub_mute :: "bool \<Rightarrow> ('mi, 'mb, 'd) forwarder \<Rightarrow> ('mi, 'mb, 'd) forwarder \<times> bool" where
  "fw_pub_mute pub_muted f =
    (if fw_pub_muted f = pub_muted then (f, False)
     else (let f1 = f\<lparr>fw_pub_muted := pub_muted\<rparr> in if pub_muted then resync_locked f1 else f1, True))"

definition is_any_muted :: "('mi, 'mb, 'd) forwarder \<Rightarrow> bool" where
  "is_any_muted f \<longleftrightarrow> fw_muted f \<or> fw_pub_muted f"

definition set_target_layer :: "video_layer \<Rightarrow> int \<Rightarrow> ('mi, 'mb, 'd) forwarder \<Rightarrow> ('mi, 'mb, 'd) forwarder" where
  "set_target_layer target request f =
    on_vls (\<lambda>b. (bs_set_target target b)\<lparr>bs_request_spatial :=
      (if vl_is_valid target then request else invalid_layer_spatial)\<rparr>) f"

definition update_allocation ::
  "('mi, 'mb, 'd) forwarder \<Rightarrow> video_allocation \<Rightarrow> ('mi, 'mb, 'd) forwarder \<times> video_allocation" where
  "update_allocation f alloc =
    (let a = (if vl_is_valid (va_target_layer alloc) \<and> fw_mime f = MimeH264
              then alloc\<lparr>va_target_layer := set_temporal 0 (va_target_layer alloc)\<rparr> else alloc);
         f1 = set_target_layer (va_target_layer a) (va_request_layer_spatial a) (f\<lparr>fw_last_allocation := a\<rparr>)
     in (if vl_is_valid (bs_target (fw_base f1)) then f1 else resync_locked f1, a))"

definition set_max_spatial_layer ::
  "int \<Rightarrow> ('mi, 'mb, 'd) forwarder \<Rightarrow> (('mi, 'mb, 'd) forwarder \<times> bool \<times> video_layer) option" where
  "set_max_spatial_layer l f =
    (if fw_kind f = KindAudio then Some (f, False, invalid_layer)
     else if l = vl_spatial (bs_max (fw_base f)) then Some (f, False, bs_max (fw_base f))
     else
       let f1 = on_vls (bs_set_max_spatial l) f; mx = bs_max (fw_base f1); last = fw_last_allocation f in
       if fw_disable_opportunistic f \<or> vl_spatial (bs_target (fw_base f)) \<noteq> invalid_layer_spatial \<or> va_is_deficient last \<or>
         va_pause_reason last = PauseMuted \<or> va_pause_reason last = PausePubMuted
       then Some (f1, True, mx)
       else do {
         distance \<leftarrow> get_distance_to_desired (fw_muted f) (fw_pub_muted f) (bs_max_seen (fw_base f)) [] no_bitrates mx mx;
         Some (fst (update_allocation f1 (last\<lparr>va_bandwidth_requested := 0, va_bandwidth_delta := 0,
             va_bitrates := no_bitrates, va_target_layer := mx, va_request_layer_spatial := vl_spatial mx,
             va_max_layer := mx, va_distance_to_desired := distance\<rparr>)), True, mx)
       })"

definition set_max_temporal_layer ::
  "int \<Rightarrow> ('mi, 'mb, 'd) forwarder \<Rightarrow> ('mi, 'mb, 'd) forwarder \<times> bool \<times> video_layer" where
  "set_max_temporal_layer l f =
    (if fw_kind f = KindAudio then (f, False, invalid_layer)
     else if l = vl_temporal (bs_max (fw_base f)) then (f, False, bs_max (fw_base f))
     else let f1 = on_vls (bs_set_max_temporal l) f in (f1, True, bs_max (fw_base f1)))"

definition get_max_subscribed_spatial :: "('mi, 'mb, 'd) forwarder \<Rightarrow> int option" where
  "get_max_subscribed_spatial f =
    (if fw_muted f then Some invalid_layer_spatial
     else
       let layer = max (vl_spatial (bs_max (fw_base f))) (vl_spatial (bs_current (fw_base f)));
           ref = fw_reference_layer_spatial f in
       if ref \<noteq> invalid_layer_spatial \<and> layer < ref then do {
         info \<leftarrow> go_nth (fw_ref_infos f) ref;
         Some (if ri_sender_report info = None then ref else layer)
       }
       else Some layer)"

section \<open>Sender reports\<close>

definition get_ref_layer :: "('mi, 'mb, 'd) forwarder \<Rightarrow> int \<times> int" where
  "get_ref_layer f =
    (let current = vl_spatial (bs_current (fw_base f)) in
     if fw_last_ssrc f = 0 then (invalid_layer_spatial, invalid_layer_spatial)
     else if fw_kind f = KindAudio then (0, 0)
     else if current < 0 \<or> current > default_max_layer_spatial then (invalid_layer_spatial, invalid_layer_spatial)
     else if fw_ref_video_layer_mode f = MultipleSpatialLayersPerStream then (0, current)
     else (current, current))"

definition set_ref_sender_report ::
  "int \<Rightarrow> sender_report option \<Rightarrow> ('mi, 'mb, 'd) forwarder \<Rightarrow> ('mi, 'mb, 'd) forwarder option" where
  "set_ref_sender_report layer report f =
    (if 0 \<le> layer \<and> layer < int (length (fw_ref_infos f)) then
       if layer = fst (get_ref_layer f) then
         (case report of
            None \<Rightarrow> None
          | Some sr \<Rightarrow>
              let valid = sr_rtp_timestamp_ext sr \<ge> fw_last_switch_ext_incoming_ts f in
              Some (f\<lparr>fw_ref_infos := (fw_ref_infos f)[nat layer :=
                \<lparr>ri_sender_report = Some sr, ri_ts_offset = (if valid then rg_ts_offset (fw_rtp_munger f) else 0),
                 ri_is_ts_offset_valid = valid\<rparr>]\<rparr>))
       else Some (f\<lparr>fw_ref_infos := (fw_ref_infos f)[nat layer :=
              \<lparr>ri_sender_report = report, ri_ts_offset = 0, ri_is_ts_offset_valid = False\<rparr>]\<rparr>)
     else Some f)"

definition get_sender_report_params :: "('mi, 'mb, 'd) forwarder \<Rightarrow> (int \<times> bool \<times> u64 \<times> sender_report option) option" where
  "get_sender_report_params f = (case get_ref_layer f of (ref, current) \<Rightarrow>
     if ref = invalid_layer_spatial then Some (invalid_layer_spatial, False, 0, None)
     else do {
       info \<leftarrow> go_nth (fw_ref_infos f) ref;
       Some (if ri_sender_report info = None \<or> \<not> ri_is_ts_offset_valid info
             then (invalid_layer_spatial, False, 0, None)
             else (current, fw_ref_video_layer_mode f = MultipleSpatialLayersPerStream,
                   ri_ts_offset info, ri_sender_report info))
     })"

definition fw_restart :: "('mi, 'mb, 'd) forwarder \<Rightarrow> ('mi, 'mb, 'd) forwarder" where
  "fw_restart f = (set_target_layer invalid_layer invalid_layer_spatial (resync_locked f))
     \<lparr>fw_reference_layer_spatial := invalid_layer_spatial, fw_last_reference_payload_type := -1,
      fw_ref_infos := map (\<lambda>_. ref_info_zero) (fw_ref_infos f), fw_last_switch_ext_incoming_ts := 0,
      fw_ref_video_layer_mode := ModeUnused\<rparr>"

text \<open>The retransmissions that are refused, by layer, while the stream is deficient.\<close>

definition fw_filter_rtx :: "('mi, 'mb, 'd) forwarder \<Rightarrow> u16 list \<Rightarrow> u16 list \<times> bool list" where
  "fw_filter_rtx f nacks = (nacks, map (\<lambda>layer. va_is_deficient (fw_last_allocation f) \<and>
     (vl_spatial (bs_target (fw_base f)) < vl_spatial (bs_current (fw_base f)) \<or>
      layer > vl_spatial (bs_current (fw_base f)))) [0..default_max_layer_spatial])"

section \<open>State transfer\<close>

record forwarder_state =
  fs_started :: bool
  fs_reference_layer_spatial :: int
  fs_pre_start_time :: int
  fs_ext_first_timestamp :: u64
  fs_dummy_start_ts_offset :: u64
  fs_rtp_munger :: rtp_munger_state
  fs_codec_munger :: "vp8_munger_state option"
  fs_sender_reports :: "sender_report option list"

definition fw_get_state :: "('mi, 'mb, 'd) forwarder \<Rightarrow> forwarder_state option" where
  "fw_get_state f =
    (if \<not> fw_started f then None
     else Some \<lparr>fs_started = fw_started f, fs_reference_layer_spatial = fw_reference_layer_spatial f,
       fs_pre_start_time = (case fw_pre_start_time f of None \<Rightarrow> 0 | Some t \<Rightarrow> t),
       fs_ext_first_timestamp = fw_ext_first_ts f, fs_dummy_start_ts_offset = fw_dummy_start_ts_offset f,
       fs_rtp_munger = rg_get_state (fw_rtp_munger f), fs_codec_munger = cm_get_state (fw_codec_munger f),
       fs_sender_reports = map ri_sender_report (fw_ref_infos f)\<rparr>)"

fun seed_reports :: "ref_info list \<Rightarrow> int \<Rightarrow> sender_report option list \<Rightarrow> ref_info list option" where
  "seed_reports infos layer [] = Some infos"
| "seed_reports infos layer (r # rs) = do {
     infos' \<leftarrow> go_update infos layer (case r of
         Some sr \<Rightarrow> if sr_ntp_timestamp sr \<noteq> 0 then ref_info_zero\<lparr>ri_sender_report := Some sr\<rparr> else ref_info_zero
       | None \<Rightarrow> ref_info_zero);
     seed_reports infos' (layer + 1) rs
   }"

definition fw_seed_state :: "forwarder_state option \<Rightarrow> ('mi, 'mb, 'd) forwarder \<Rightarrow> ('mi, 'mb, 'd) forwarder option" where
  "fw_seed_state state f = (case state of
     None \<Rightarrow> Some f
   | Some st \<Rightarrow>
       if \<not> fs_started st then Some f
       else do {
         infos \<leftarrow> seed_reports (fw_ref_infos f) 0 (fs_sender_reports st);
         Some (f\<lparr>fw_ref_infos := infos, fw_rtp_munger := rg_seed_state (fw_rtp_munger f) (fs_rtp_munger st),
           fw_codec_munger := cm_seed_state (fw_codec_munger f) (fs_codec_munger st), fw_started := True,
           fw_reference_layer_spatial := fs_reference_layer_spatial st,
           fw_pre_start_time := (if fs_pre_start_time st \<noteq> 0 then Some (fs_pre_start_time st) else fw_pre_start_time f),
           fw_ext_first_ts := fs_ext_first_timestamp st, fw_dummy_start_ts_offset := fs_dummy_start_ts_offset st\<rparr>)
       })"

section \<open>Allocation without congestion\<close>

definition max_temporal :: "video_layer \<Rightarrow> video_layer \<Rightarrow> int" where
  "max_temporal mx seen =
    (if vl_temporal seen \<noteq> invalid_layer_temporal \<and> vl_temporal seen < vl_temporal mx then vl_temporal seen else vl_temporal mx)"

definition opportunistic_layer :: "('mi, 'mb, 'd) forwarder \<Rightarrow> bool \<Rightarrow> video_layer" where
  "opportunistic_layer f allow_overshoot =
    (let mx = bs_max (fw_base f); seen = bs_max_seen (fw_base f);
         s = (if allow_overshoot \<and> is_overshoot_okay (fw_vls f) \<and> vl_spatial seen > vl_spatial mx
              then vl_spatial seen else vl_spatial mx)
     in VideoLayer (min (vl_spatial seen) s) (max_temporal mx seen))"

text \<open>One pass over the available layers: the one to request, the highest and the lowest.\<close>

fun scan_available :: "int \<Rightarrow> int list \<Rightarrow> int \<times> int \<times> int \<Rightarrow> int \<times> int \<times> int" where
  "scan_available limit [] st = st"
| "scan_available limit (al # als) (request, highest, lowest) = scan_available limit als
     (if al > request \<and> al \<le> limit then al else request,
      if al > highest then al else highest,
      if lowest = invalid_layer_spatial \<or> al < lowest then al else lowest)"

text \<open>The target and the requested spatial layer of a stream that may flow.\<close>

definition optimal_target :: "('mi, 'mb, 'd) forwarder \<Rightarrow> int list \<Rightarrow> bool \<Rightarrow> bool \<Rightarrow> video_layer \<times> int" where
  "optimal_target f available allow_overshoot hold =
    (let b = fw_base f; mx = bs_max b; seen = bs_max_seen b; current = bs_current b;
         limit = min (vl_spatial mx) (vl_spatial seen);
         (request0, highest, lowest) =
           scan_available limit available (invalid_layer_spatial, invalid_layer_spatial, invalid_layer_spatial);
         request =
           (if request0 = invalid_layer_spatial \<and> highest \<noteq> invalid_layer_spatial \<and> allow_overshoot \<and> is_overshoot_okay (fw_vls f)
            then highest else request0)
     in if vl_is_valid current then
          let target =
                (if (request = bs_request_spatial b \<and> vl_spatial current = bs_request_spatial b) \<or> request = invalid_layer_spatial
                 then VideoLayer (vl_spatial current) (max_temporal mx seen)
                 else if hold then VideoLayer lowest 0
                 else VideoLayer request (max_temporal mx seen))
          in (target, vl_spatial target)
        else if hold then
          let target = VideoLayer (if lowest = invalid_layer_spatial then 0 else lowest) 0 in (target, vl_spatial target)
        else (opportunistic_layer f allow_overshoot, if request = invalid_layer_spatial then limit else request))"

text \<open>The switch of \<open>AllocateOptimal\<close>, and what an invalid target becomes after it.\<close>

definition optimal_choice ::
  "('mi, 'mb, 'd) forwarder \<Rightarrow> int list \<Rightarrow> bool \<Rightarrow> bool \<Rightarrow> int \<Rightarrow> video_pause_reason \<times> video_layer \<times> int" where
  "optimal_choice f available allow_overshoot hold needed =
    (let b = fw_base f;
         pause0 = (if needed = 0 then PauseFeedDry else PauseNone);
         (pause, target, request) =
           (if \<not> vl_is_valid (bs_max b) \<or> vl_spatial (bs_max_seen b) = invalid_layer_spatial
            then (pause0, invalid_layer, bs_request_spatial b)
            else if fw_muted f then (PauseMuted, invalid_layer, bs_request_spatial b)
            else if fw_pub_muted f then (PausePubMuted, invalid_layer, bs_request_spatial b)
            else (pause0, optimal_target f available allow_overshoot hold))
     in if vl_is_valid target then (pause, target, request) else (pause, invalid_layer, invalid_layer_spatial))"

definition allocate_optimal ::
  "('mi, 'mb, 'd) forwarder \<Rightarrow> int list \<Rightarrow> bitrates \<Rightarrow> bool \<Rightarrow> bool \<Rightarrow> (('mi, 'mb, 'd) forwarder \<times> video_allocation) option" where
  "allocate_optimal f available brs allow_overshoot hold =
    (if fw_kind f = KindAudio then Some (f, fw_last_allocation f)
     else
       let b = fw_base f; mx = bs_max b; seen = bs_max_seen b in do {
         needed \<leftarrow> get_optimal_bandwidth_needed (fw_muted f) (fw_pub_muted f) (vl_spatial seen) brs mx;
         let (pause, target, request) = optimal_choice f available allow_overshoot hold needed;
         requested \<leftarrow> (if vl_is_valid target
           then get_optimal_bandwidth_needed (fw_muted f) (fw_pub_muted f) (vl_spatial seen) brs target else Some 0);
         existing \<leftarrow> get_bandwidth_needed brs (bs_target b) (va_bandwidth_requested (fw_last_allocation f));
         distance \<leftarrow> get_distance_to_desired (fw_muted f) (fw_pub_muted f) seen available brs target mx;
         Some (update_allocation f \<lparr>va_pause_reason = pause, va_is_deficient = False, va_bandwidth_requested = requested,
           va_bandwidth_delta = i64 (requested - existing), va_bandwidth_needed = needed, va_bitrates = brs,
           va_target_layer = target, va_request_layer_spatial = request, va_max_layer = mx,
           va_distance_to_desired = distance\<rparr>)
       })"

definition fw_pause ::
  "('mi, 'mb, 'd) forwarder \<Rightarrow> int list \<Rightarrow> bitrates \<Rightarrow> (('mi, 'mb, 'd) forwarder \<times> video_allocation) option" where
  "fw_pause f available brs =
    (let b = fw_base f; mx = bs_max b; seen = bs_max_seen b in do {
       needed \<leftarrow> get_optimal_bandwidth_needed (fw_muted f) (fw_pub_muted f) (vl_spatial seen) brs mx;
       existing \<leftarrow> get_bandwidth_needed brs (bs_target b) (va_bandwidth_requested (fw_last_allocation f));
       distance \<leftarrow> get_distance_to_desired (fw_muted f) (fw_pub_muted f) seen available brs invalid_layer mx;
       let (pause, deficient) =
         (if fw_muted f then (PauseMuted, False) else if fw_pub_muted f then (PausePubMuted, False)
          else if needed = 0 then (PauseFeedDry, False) else (PauseBandwidth, True));
       Some (update_allocation f \<lparr>va_pause_reason = pause, va_is_deficient = deficient, va_bandwidth_requested = 0,
         va_bandwidth_delta = i64 (0 - existing), va_bandwidth_needed = needed, va_bitrates = brs,
         va_target_layer = invalid_layer, va_request_layer_spatial = invalid_layer_spatial, va_max_layer = mx,
         va_distance_to_desired = distance\<rparr>)
     })"

text \<open>The questions asked about a forwarder: their answers follow the last allocation.\<close>

definition bandwidth_requested :: "('mi, 'mb, 'd) forwarder \<Rightarrow> bitrates \<Rightarrow> int option" where
  "bandwidth_requested f brs =
    get_bandwidth_needed brs (bs_target (fw_base f)) (va_bandwidth_requested (fw_last_allocation f))"

definition distance_to_desired :: "('mi, 'mb, 'd) forwarder \<Rightarrow> int list \<Rightarrow> bitrates \<Rightarrow> rat option" where
  "distance_to_desired f available brs =
    get_distance_to_desired (fw_muted f) (fw_pub_muted f) (bs_max_seen (fw_base f)) available brs
      (bs_target (fw_base f)) (bs_max (fw_base f))"

definition optimal_bandwidth_needed :: "('mi, 'mb, 'd) forwarder \<Rightarrow> bitrates \<Rightarrow> int option" where
  "optimal_bandwidth_needed f brs =
    get_optimal_bandwidth_needed (fw_muted f) (fw_pub_muted f) (vl_spatial (bs_max_seen (fw_base f))) brs (bs_max (fw_base f))"

section \<open>Facts about the operations\<close>

lemma on_vls_simps [simp]:
  "fw_base (on_vls g f) = g (fw_base f)" "fw_kind (on_vls g f) = fw_kind f" "fw_muted (on_vls g f) = fw_muted f"
  "fw_pub_muted (on_vls g f) = fw_pub_muted f" "fw_last_allocation (on_vls g f) = fw_last_allocation f"
  "fw_provisional (on_vls g f) = fw_provisional f" "fw_mime (on_vls g f) = fw_mime f" "fw_last_ssrc (on_vls g f) = fw_last_ssrc f"
  "is_overshoot_okay (fw_vls (on_vls g f)) = is_overshoot_okay (fw_vls f)" "fw_ref_infos (on_vls g f) = fw_ref_infos f"
  "fw_reference_layer_spatial (on_vls g f) = fw_reference_layer_spatial f"
  by (simp_all add: on_vls_def)

lemma resync_simps [simp]:
  "fw_base (resync_locked f) = (fw_base f)\<lparr>bs_current := invalid_layer\<rparr>" "fw_kind (resync_locked f) = fw_kind f"
  "fw_muted (resync_locked f) = fw_muted f" "fw_pub_muted (resync_locked f) = fw_pub_muted f"
  "fw_last_allocation (resync_locked f) = fw_last_allocation f" "fw_provisional (resync_locked f) = fw_provisional f"
  "fw_mime (resync_locked f) = fw_mime f" "fw_last_ssrc (resync_locked f) = 0"
  "is_overshoot_okay (fw_vls (resync_locked f)) = is_overshoot_okay (fw_vls f)" "fw_ref_infos (resync_locked f) = fw_ref_infos f"
  "fw_reference_layer_spatial (resync_locked f) = fw_reference_layer_spatial f"
  by (simp_all add: resync_locked_def Let_def on_vls_def)

text \<open>The target after the restriction of H.264, and what an allocation leaves behind.\<close>

definition codec_layer :: "mime_type \<Rightarrow> video_layer \<Rightarrow> video_layer" where
  "codec_layer m l = (if vl_is_valid l \<and> m = MimeH264 then set_temporal 0 l else l)"

lemma codec_layer_facts [simp]:
  "vl_spatial (codec_layer m l) = vl_spatial l" "vl_is_valid (codec_layer m l) \<longleftrightarrow> vl_is_valid l"
  "in_grid l \<Longrightarrow> in_grid (codec_layer m l)" "layer_ok l \<Longrightarrow> layer_ok (codec_layer m l)"
  "codec_layer m invalid_layer = invalid_layer"
  by (auto simp: codec_layer_def vl_is_valid_def in_grid_def layer_ok_def)

lemma update_allocation_effect:
  assumes "update_allocation f al = (f', a)"
  shows "a = al\<lparr>va_target_layer := codec_layer (fw_mime f) (va_target_layer al)\<rparr>" "fw_last_allocation f' = a"
    "bs_target (fw_base f') = va_target_layer a" "bs_max (fw_base f') = bs_max (fw_base f)"
    "bs_max_seen (fw_base f') = bs_max_seen (fw_base f)"
    "bs_current (fw_base f') = (if vl_is_valid (va_target_layer a) then bs_current (fw_base f) else invalid_layer)"
    "fw_last_ssrc f' = (if vl_is_valid (va_target_layer a) then fw_last_ssrc f else 0)"
    "bs_request_spatial (fw_base f') = (if vl_is_valid (va_target_layer a) then va_request_layer_spatial a else -1)"
    "fw_kind f' = fw_kind f" "fw_muted f' = fw_muted f" "fw_pub_muted f' = fw_pub_muted f" "fw_mime f' = fw_mime f"
    "fw_provisional f' = fw_provisional f" "is_overshoot_okay (fw_vls f') = is_overshoot_okay (fw_vls f)"
    "fw_ref_infos f' = fw_ref_infos f" "fw_reference_layer_spatial f' = fw_reference_layer_spatial f"
proof -
  define a0 where "a0 = al\<lparr>va_target_layer := codec_layer (fw_mime f) (va_target_layer al)\<rparr>"
  have "(if vl_is_valid (va_target_layer al) \<and> fw_mime f = MimeH264
         then al\<lparr>va_target_layer := set_temporal 0 (va_target_layer al)\<rparr> else al) = a0"
    by (auto simp: a0_def codec_layer_def)
  with assms have u': "update_allocation f al =
      (let f1 = set_target_layer (va_target_layer a0) (va_request_layer_spatial a0) (f\<lparr>fw_last_allocation := a0\<rparr>)
       in (if vl_is_valid (bs_target (fw_base f1)) then f1 else resync_locked f1, a0))"
    by (simp only: update_allocation_def Let_def)
  have u: "a = a0"
    "f' = (let f1 = set_target_layer (va_target_layer a) (va_request_layer_spatial a) (f\<lparr>fw_last_allocation := a\<rparr>)
           in if vl_is_valid (bs_target (fw_base f1)) then f1 else resync_locked f1)"
    using assms unfolding u' Let_def by auto
  from u(1) show "a = al\<lparr>va_target_layer := codec_layer (fw_mime f) (va_target_layer al)\<rparr>" by (simp add: a0_def)
  show "fw_last_allocation f' = a"
    "bs_target (fw_base f') = va_target_layer a" "bs_max (fw_base f') = bs_max (fw_base f)"
    "bs_max_seen (fw_base f') = bs_max_seen (fw_base f)"
    "bs_current (fw_base f') = (if vl_is_valid (va_target_layer a) then bs_current (fw_base f) else invalid_layer)"
    "fw_last_ssrc f' = (if vl_is_valid (va_target_layer a) then fw_last_ssrc f else 0)"
    "bs_request_spatial (fw_base f') = (if vl_is_valid (va_target_layer a) then va_request_layer_spatial a else -1)"
    "fw_kind f' = fw_kind f" "fw_muted f' = fw_muted f" "fw_pub_muted f' = fw_pub_muted f" "fw_mime f' = fw_mime f"
    "fw_provisional f' = fw_provisional f" "is_overshoot_okay (fw_vls f') = is_overshoot_okay (fw_vls f)"
    "fw_ref_infos f' = fw_ref_infos f" "fw_reference_layer_spatial f' = fw_reference_layer_spatial f"
    by (simp_all add: u(2) Let_def set_target_layer_def bs_set_target_def)
qed

lemma distance_total:
  assumes "layer_ok seen" "layer_ok mx" "list_all (\<lambda>l. 0 \<le> l \<and> l \<le> 2) available"
  shows "\<exists>d. get_distance_to_desired muted pub_muted seen available brs target mx = Some d"
proof (cases "muted \<or> pub_muted \<or> \<not> vl_is_valid seen \<or> \<not> vl_is_valid mx")
  case False
  then have "in_grid seen" "in_grid mx" using assms by (simp_all add: valid_in_grid)
  from adjusted_grid [OF assms(3) this, of brs] False show ?thesis by (auto simp: get_distance_to_desired_def)
qed (auto simp: get_distance_to_desired_def)

section \<open>Moving a subscription to another server\<close>

fun seeded_info :: "sender_report option \<Rightarrow> ref_info" where
  "seeded_info None = ref_info_zero"
| "seeded_info (Some sr) = (if sr_ntp_timestamp sr \<noteq> 0 then ref_info_zero\<lparr>ri_sender_report := Some sr\<rparr> else ref_info_zero)"

lemma seed_reports_all:
  "k + length rs = length infos \<Longrightarrow> seed_reports infos (int k) rs = Some (take k infos @ map seeded_info rs)"
proof (induction rs arbitrary: k infos)
  case (Cons r rs)
  let ?i = "infos[k := seeded_info r]"
  have "(case r of Some sr \<Rightarrow> if sr_ntp_timestamp sr \<noteq> 0 then ref_info_zero\<lparr>ri_sender_report := Some sr\<rparr> else ref_info_zero
      | None \<Rightarrow> ref_info_zero) = seeded_info r" by (cases r) auto
  moreover have "seed_reports ?i (int (Suc k)) rs = Some (take (Suc k) ?i @ map seeded_info rs)"
    by (rule Cons.IH) (use Cons.prems in simp)
  moreover have "take (Suc k) ?i = take k infos @ [seeded_info r]" using Cons.prems by (simp add: take_Suc_conv_app_nth)
  ultimately show ?case using Cons.prems by (simp add: add.commute)
qed simp

text \<open>The parts of the state that are transferred determine it.\<close>

lemma vm_state_round: "vm_get_state (vm_seed_state v (Some (vm_get_state w))) = vm_get_state w"
  by (simp add: vm_seed_state_def vm_get_state_def ucast_down_ucast_id is_down)

text \<open>
  Moving a subscription to another server loses nothing of what the state carries: seeding
  a new forwarder with the state of a running VP8 forwarder, and then telling it the codec,
  gives a forwarder with exactly this state; nothing panics. (The reports that are kept are
  those with an NTP time.)
\<close>

lemma state_transfer:
  assumes "fw_get_state f = Some st" "fw_codec_munger f = CmVP8 v"
    and "\<forall>i\<in>set (fw_ref_infos f). \<forall>sr. ri_sender_report i = Some sr \<longrightarrow> sr_ntp_timestamp sr \<noteq> 0"
    and "length (fw_ref_infos f) = length (fw_ref_infos g)" "fw_pre_start_time g = None" "fw_codec_munger g = CmNull seed"
  shows "\<exists>g'. fw_seed_state (Some st) g = Some g' \<and>
    fw_get_state (determine_codec env new_dd MimeVP8 clock_rate ext mode g') = Some st"
proof -
  let ?rs = "map ri_sender_report (fw_ref_infos f)"
  have st: "fs_started st" "fs_sender_reports st = ?rs" "fs_codec_munger st = Some (vm_get_state v)"
    using assms(1,2) by (auto simp: fw_get_state_def split: if_splits)
  have i: "seed_reports (fw_ref_infos g) 0 ?rs = Some (map seeded_info ?rs)"
    using seed_reports_all [of 0 ?rs "fw_ref_infos g"] assms(4) by simp
  have r: "map (ri_sender_report \<circ> seeded_info \<circ> ri_sender_report) (fw_ref_infos f) = ?rs"
  proof (rule map_cong [OF refl])
    fix i assume "i \<in> set (fw_ref_infos f)"
    with assms(3) show "(ri_sender_report \<circ> seeded_info \<circ> ri_sender_report) i = ri_sender_report i"
      by (cases "ri_sender_report i") (auto simp: ref_info_zero_def)
  qed
  have m: "rg_get_state (rg_seed_state x (rg_get_state y)) = rg_get_state y" for x y
    by (simp add: rg_seed_state_def rg_get_state_def)
  obtain g' where g': "fw_seed_state (Some st) g = Some g'"
    and e: "g' = g\<lparr>fw_ref_infos := map seeded_info ?rs, fw_rtp_munger := rg_seed_state (fw_rtp_munger g) (fs_rtp_munger st),
           fw_codec_munger := CmNull (Some (vm_get_state v)), fw_started := True,
           fw_reference_layer_spatial := fs_reference_layer_spatial st,
           fw_pre_start_time := (if fs_pre_start_time st \<noteq> 0 then Some (fs_pre_start_time st) else None),
           fw_ext_first_ts := fs_ext_first_timestamp st, fw_dummy_start_ts_offset := fs_dummy_start_ts_offset st\<rparr>"
    using i st assms(5,6) by (simp add: fw_seed_state_def)
  have "fw_get_state (determine_codec env new_dd MimeVP8 clock_rate ext mode g') = Some st"
    using assms(1,2) r m by (auto simp: e fw_get_state_def determine_codec_def Let_def vm_state_round split: if_splits option.splits)
  with g' show ?thesis by blast
qed

section \<open>The optimal allocation\<close>

definition layers_ok :: "base \<Rightarrow> bool" where
  "layers_ok b \<longleftrightarrow> layer_ok (bs_max b) \<and> layer_ok (bs_max_seen b) \<and> layer_ok (bs_target b) \<and> layer_ok (bs_current b)"

text \<open>Nothing may flow: muted on a side, nothing subscribed or nothing published.\<close>

definition blocked :: "('mi, 'mb, 'd) forwarder \<Rightarrow> bool" where
  "blocked f \<longleftrightarrow> fw_muted f \<or> fw_pub_muted f \<or> \<not> vl_is_valid (bs_max (fw_base f)) \<or> vl_spatial (bs_max_seen (fw_base f)) = -1"

lemma max_temporal_range:
  "in_grid mx \<Longrightarrow> layer_ok seen \<Longrightarrow> 0 \<le> max_temporal mx seen \<and> max_temporal mx seen \<le> vl_temporal mx \<and> max_temporal mx seen \<le> 3"
  by (auto simp: max_temporal_def in_grid_def layer_ok_def)

text \<open>What one pass over the available layers finds.\<close>

lemma scan_available_facts:
  assumes "list_all (\<lambda>l. 0 \<le> l \<and> l \<le> 2) available" "scan_available limit available (r, h, l) = (r', h', l')"
    and "- 1 \<le> r" "r \<le> 2" "r \<noteq> -1 \<longrightarrow> r \<le> limit" "- 1 \<le> h" "h \<le> 2" "- 1 \<le> l" "l \<le> 2" "r \<noteq> -1 \<longrightarrow> l \<noteq> -1 \<and> l \<le> r" "h = -1 \<longleftrightarrow> l = -1"
  shows "- 1 \<le> r' \<and> r' \<le> 2 \<and> (r' \<noteq> -1 \<longrightarrow> r' \<le> limit \<and> l' \<noteq> -1 \<and> l' \<le> r') \<and> - 1 \<le> h' \<and> h' \<le> 2 \<and> - 1 \<le> l' \<and> l' \<le> 2 \<and> (h' = -1 \<longleftrightarrow> l' = -1)"
  using assms
proof (induction available arbitrary: r h l)
  case (Cons a as)
  define r1 where "r1 = (if a > r \<and> a \<le> limit then a else r)"
  define h1 where "h1 = (if a > h then a else h)"
  define l1 where "l1 = (if l = -1 \<or> a < l then a else l)"
  show ?case
  proof (rule Cons.IH [of r1 h1 l1])
    show "scan_available limit as (r1, h1, l1) = (r', h', l')"
      using Cons.prems(2) by (simp add: r1_def h1_def l1_def)
  qed (use Cons.prems in \<open>auto simp: r1_def h1_def l1_def\<close>)
qed simp

lemma scan_from_none:
  assumes "list_all (\<lambda>l. 0 \<le> l \<and> l \<le> 2) available"
    "scan_available limit available (invalid_layer_spatial, invalid_layer_spatial, invalid_layer_spatial) = (r, h, l)"
  shows "- 1 \<le> r \<and> r \<le> 2 \<and> (r \<noteq> -1 \<longrightarrow> r \<le> limit \<and> l \<noteq> -1 \<and> l \<le> r)" "- 1 \<le> h \<and> h \<le> 2" "- 1 \<le> l \<and> l \<le> 2" "h = -1 \<longleftrightarrow> l = -1"
  using scan_available_facts [OF assms] by simp_all

lemma optimal_target_cases:
  assumes t: "optimal_target f available allow hold = (target, request)"
    and s': "scan_available (min (vl_spatial (bs_max (fw_base f))) (vl_spatial (bs_max_seen (fw_base f)))) available (-1, -1, -1) = (r, h, l)"
  defines "q \<equiv> if r = -1 \<and> h \<noteq> -1 \<and> allow \<and> is_overshoot_okay (fw_vls f) then h else r"
  obtains (cur) "vl_is_valid (bs_current (fw_base f))" "request = vl_spatial target"
      "target = VideoLayer (vl_spatial (bs_current (fw_base f))) (max_temporal (bs_max (fw_base f)) (bs_max_seen (fw_base f)))"
    | (low) "vl_is_valid (bs_current (fw_base f))" "hold" "q \<noteq> -1" "target = VideoLayer l 0" "request = l"
    | (req) "vl_is_valid (bs_current (fw_base f))" "\<not> hold" "q \<noteq> -1"
        "target = VideoLayer q (max_temporal (bs_max (fw_base f)) (bs_max_seen (fw_base f)))" "request = q"
    | (held) "\<not> vl_is_valid (bs_current (fw_base f))" "hold" "target = VideoLayer (if l = -1 then 0 else l) 0" "request = vl_spatial target"
    | (opp) "\<not> vl_is_valid (bs_current (fw_base f))" "\<not> hold" "target = opportunistic_layer f allow"
        "request = (if q = -1 then min (vl_spatial (bs_max (fw_base f))) (vl_spatial (bs_max_seen (fw_base f))) else q)"
proof (cases "vl_is_valid (bs_current (fw_base f))")
  case True
  have tq: "(target, request) = (let tg =
        (if q = bs_request_spatial (fw_base f) \<and> vl_spatial (bs_current (fw_base f)) = bs_request_spatial (fw_base f) \<or> q = -1
         then VideoLayer (vl_spatial (bs_current (fw_base f))) (max_temporal (bs_max (fw_base f)) (bs_max_seen (fw_base f)))
         else if hold then VideoLayer l 0 else VideoLayer q (max_temporal (bs_max (fw_base f)) (bs_max_seen (fw_base f))))
      in (tg, vl_spatial tg))"
    unfolding t [symmetric] optimal_target_def Let_def layer_consts s' prod.case q_def [symmetric] using True by simp
  show thesis
  proof (cases "q = bs_request_spatial (fw_base f) \<and> vl_spatial (bs_current (fw_base f)) = bs_request_spatial (fw_base f) \<or> q = -1")
    case stay: True
    show thesis by (rule cur [OF True]) (use tq stay in \<open>simp_all add: Let_def\<close>)
  next
    case move: False
    then have n: "q \<noteq> -1" by simp
    have e: "(target, request) = (if hold then (VideoLayer l 0, l) else (VideoLayer q (max_temporal (bs_max (fw_base f)) (bs_max_seen (fw_base f))), q))"
      unfolding tq Let_def if_not_P [OF move] by simp
    show thesis
    proof (cases hold)
      case h: True
      show thesis by (rule low [OF True h n]) (use e h in simp_all)
    next
      case h: False
      show thesis by (rule req [OF True h n]) (use e h in simp_all)
    qed
  qed
next
  case False
  have tq: "(target, request) = (if hold then let tg = VideoLayer (if l = -1 then 0 else l) 0 in (tg, vl_spatial tg)
      else (opportunistic_layer f allow, if q = -1 then min (vl_spatial (bs_max (fw_base f))) (vl_spatial (bs_max_seen (fw_base f))) else q))"
    unfolding t [symmetric] optimal_target_def Let_def layer_consts s' prod.case q_def [symmetric] using False by simp
  show thesis
  proof (cases hold)
    case h: True
    show thesis by (rule held [OF False h]) (use tq h in \<open>simp_all add: Let_def\<close>)
  next
    case h: False
    show thesis by (rule opp [OF False h]) (use tq h in simp_all)
  qed
qed

lemma optimal_target_facts:
  assumes ok: "layers_ok (fw_base f)" and open_f: "\<not> blocked f" and av: "list_all (\<lambda>l. 0 \<le> l \<and> l \<le> 2) available"
    and t: "optimal_target f available allow hold = (target, request)"
  shows "in_grid target" "- 1 \<le> request" "request \<le> 2"
    "\<not> hold \<Longrightarrow> \<not> (allow \<and> is_overshoot_okay (fw_vls f)) \<Longrightarrow> \<not> vl_is_valid (bs_current (fw_base f)) \<Longrightarrow>
      target = VideoLayer (min (vl_spatial (bs_max (fw_base f))) (vl_spatial (bs_max_seen (fw_base f))))
        (max_temporal (bs_max (fw_base f)) (bs_max_seen (fw_base f)))"
    "\<not> hold \<Longrightarrow> \<not> (allow \<and> is_overshoot_okay (fw_vls f)) \<Longrightarrow>
      vl_spatial target \<le> max (vl_spatial (bs_max (fw_base f))) (vl_spatial (bs_current (fw_base f))) \<and>
      vl_temporal target \<le> vl_temporal (bs_max (fw_base f))"
    "hold \<Longrightarrow> vl_is_valid (bs_current (fw_base f)) \<Longrightarrow>
      vl_spatial target = vl_spatial (bs_current (fw_base f)) \<or> vl_temporal target = 0"
proof -
  let ?b = "fw_base f"
  have g: "in_grid (bs_max ?b)" "layer_ok (bs_max_seen ?b)" "0 \<le> vl_spatial (bs_max_seen ?b)" "layer_ok (bs_current ?b)"
    using ok open_f by (auto simp: layers_ok_def blocked_def valid_in_grid layer_ok_def in_grid_def)
  note mt = max_temporal_range [OF g(1,2)]
  have gs: "0 \<le> vl_spatial (bs_max ?b)" "vl_spatial (bs_max ?b) \<le> 2" "vl_spatial (bs_max_seen ?b) \<le> 2"
    using g(1,2) by (auto simp: in_grid_def layer_ok_def)
  obtain r h l where s: "scan_available (min (vl_spatial (bs_max ?b)) (vl_spatial (bs_max_seen ?b))) available
      (invalid_layer_spatial, invalid_layer_spatial, invalid_layer_spatial) = (r, h, l)" by (metis prod_cases3)
  note sf = scan_from_none [OF av s]
  have s': "scan_available (min (vl_spatial (bs_max ?b)) (vl_spatial (bs_max_seen ?b))) available (-1, -1, -1) = (r, h, l)"
    using s by simp
  define q where "q = (if r = -1 \<and> h \<noteq> -1 \<and> allow \<and> is_overshoot_okay (fw_vls f) then h else r)"
  have q: "- 1 \<le> q" "q \<le> 2" "q \<noteq> -1 \<Longrightarrow> l \<noteq> -1"
    "\<not> (allow \<and> is_overshoot_okay (fw_vls f)) \<Longrightarrow> q \<noteq> -1 \<Longrightarrow> q \<le> vl_spatial (bs_max ?b)"
    using sf by (auto simp: q_def)
  have c: "vl_is_valid (bs_current ?b) \<longleftrightarrow> in_grid (bs_current ?b)" using g(4) by (rule valid_in_grid)
  note cases = optimal_target_cases [OF t s', folded q_def]
  have opp: "in_grid (opportunistic_layer f allow)"
    using mt gs g(3) by (auto simp: opportunistic_layer_def Let_def in_grid_def)
  show "in_grid target" "- 1 \<le> request" "request \<le> 2"
    by (cases rule: cases; use q sf mt gs c g(3) opp in \<open>auto simp: in_grid_def\<close>)+
  show "\<not> hold \<Longrightarrow> \<not> (allow \<and> is_overshoot_okay (fw_vls f)) \<Longrightarrow> \<not> vl_is_valid (bs_current (fw_base f)) \<Longrightarrow>
      target = VideoLayer (min (vl_spatial (bs_max (fw_base f))) (vl_spatial (bs_max_seen (fw_base f))))
        (max_temporal (bs_max (fw_base f)) (bs_max_seen (fw_base f)))"
    by (cases rule: cases) (auto simp: opportunistic_layer_def Let_def min.commute)
  show "\<not> hold \<Longrightarrow> \<not> (allow \<and> is_overshoot_okay (fw_vls f)) \<Longrightarrow>
      vl_spatial target \<le> max (vl_spatial (bs_max (fw_base f))) (vl_spatial (bs_current (fw_base f))) \<and>
      vl_temporal target \<le> vl_temporal (bs_max (fw_base f))"
    by (cases rule: cases; use q mt in \<open>auto simp: opportunistic_layer_def Let_def\<close>)
  show "hold \<Longrightarrow> vl_is_valid (bs_current (fw_base f)) \<Longrightarrow>
      vl_spatial target = vl_spatial (bs_current (fw_base f)) \<or> vl_temporal target = 0"
    by (cases rule: cases) auto
qed

text \<open>
  The layers the loop finds, as those of the set of available layers: the highest one within
  what is subscribed and published (with overshoot, the highest one when there is none), and
  the lowest one; -1 stands for none.
\<close>

definition highest_of :: "int list \<Rightarrow> int" where
  "highest_of ls = (if ls = [] then -1 else Max (set ls))"

definition lowest_of :: "int list \<Rightarrow> int" where
  "lowest_of ls = (if ls = [] then -1 else Min (set ls))"

definition wanted_layer :: "('mi, 'mb, 'd) forwarder \<Rightarrow> int list \<Rightarrow> bool \<Rightarrow> int" where
  "wanted_layer f available overshoot =
    (let limit = min (vl_spatial (bs_max (fw_base f))) (vl_spatial (bs_max_seen (fw_base f)));
         inside = highest_of (filter (\<lambda>l. l \<le> limit) available)
     in if inside = -1 \<and> overshoot then highest_of available else inside)"

lemma scan_fold:
  assumes "\<forall>a \<in> set xs. 0 \<le> a" "- 1 \<le> l"
  shows "scan_available limit xs (r, h, l) = (fold max (filter (\<lambda>a. a \<le> limit) xs) r, fold max xs h,
    if l = -1 then lowest_of xs else fold min xs l)"
  using assms
proof (induction xs arbitrary: r h l)
  case (Cons a as)
  define l1 where "l1 = (if l = -1 \<or> a < l then a else l)"
  have l1: "- 1 \<le> l1" "l1 \<noteq> -1" using Cons.prems by (auto simp: l1_def)
  have low: "(if l = -1 then lowest_of (a # as) else fold min (a # as) l) = fold min as l1"
    unfolding l1_def lowest_of_def by (auto simp: Min.set_eq_fold min_def simp del: set_simps)
  have "scan_available limit (a # as) (r, h, l) =
      scan_available limit as (if a > r \<and> a \<le> limit then a else r, if a > h then a else h, l1)" by (simp add: l1_def)
  also have "\<dots> = (fold max (filter (\<lambda>a. a \<le> limit) as) (if a > r \<and> a \<le> limit then a else r), fold max as (if a > h then a else h),
      fold min as l1)"
    using Cons.IH [OF _ l1(1)] Cons.prems l1(2) by simp
  also have "\<dots> = (fold max (filter (\<lambda>a. a \<le> limit) (a # as)) r, fold max (a # as) h, fold min as l1)"
    by (auto simp: max_def)
  finally show ?case unfolding low .
qed (simp add: lowest_of_def)

lemma fold_max_none:
  assumes "\<forall>a \<in> set xs. (0 :: int) \<le> a"
  shows "fold max xs (- 1) = highest_of xs"
proof (cases xs)
  case (Cons a as)
  then have "fold max xs (- 1) = fold max as a" using assms by (simp add: max_def)
  then show ?thesis by (simp add: highest_of_def Cons Max.set_eq_fold del: set_simps)
qed (simp add: highest_of_def)

lemma none_of:
  assumes "\<forall>a \<in> set xs. 0 \<le> a"
  shows "highest_of xs = -1 \<longleftrightarrow> xs = []" "lowest_of xs = -1 \<longleftrightarrow> xs = []"
    "xs \<noteq> [] \<Longrightarrow> 0 \<le> highest_of xs" "xs \<noteq> [] \<Longrightarrow> 0 \<le> lowest_of xs"
proof -
  show h: "xs \<noteq> [] \<Longrightarrow> 0 \<le> highest_of xs" and l: "xs \<noteq> [] \<Longrightarrow> 0 \<le> lowest_of xs"
    using assms Max_in [of "set xs"] by (simp_all add: highest_of_def lowest_of_def)
  have "highest_of [] = -1" "lowest_of [] = -1" by (simp_all add: highest_of_def lowest_of_def)
  then show "highest_of xs = -1 \<longleftrightarrow> xs = []" "lowest_of xs = -1 \<longleftrightarrow> xs = []"
    using h l by (cases "xs = []"; force)+
qed

text \<open>The target and the spatial layer to request of a stream that may flow.\<close>

definition expected_target ::
  "('mi, 'mb, 'd) forwarder \<Rightarrow> int list \<Rightarrow> bool \<Rightarrow> bool \<Rightarrow> video_layer \<times> int" where
  "expected_target f available allow hold =
    (let b = fw_base f; cur = vl_spatial (bs_current b); temporal = max_temporal (bs_max b) (bs_max_seen b);
         limit = min (vl_spatial (bs_max b)) (vl_spatial (bs_max_seen b));
         overshoot = (allow \<and> is_overshoot_okay (fw_vls f)); wanted = wanted_layer f available overshoot
     in if vl_is_valid (bs_current b) then
          if wanted = -1 \<or> wanted = cur \<and> bs_request_spatial b = cur then (VideoLayer cur temporal, cur)
          else if hold then (VideoLayer (lowest_of available) 0, lowest_of available)
          else (VideoLayer wanted temporal, wanted)
        else if hold then (VideoLayer (max 0 (lowest_of available)) 0, max 0 (lowest_of available))
        else (VideoLayer (if overshoot then vl_spatial (bs_max_seen b) else limit) temporal,
              if wanted = -1 then limit else wanted))"

lemma optimal_target_expected:
  assumes av: "list_all (\<lambda>l. 0 \<le> l \<and> l \<le> 2) available"
  shows "optimal_target f available allow hold = expected_target f available allow hold"
proof -
  let ?b = "fw_base f" and ?l = "min (vl_spatial (bs_max (fw_base f))) (vl_spatial (bs_max_seen (fw_base f)))"
  let ?inside = "highest_of (filter (\<lambda>l. l \<le> ?l) available)"
  have pos: "\<forall>a \<in> set available. 0 \<le> a" using av by (auto simp: list_all_iff)
  note none = none_of [OF pos]
  have low0: "available \<noteq> [] \<Longrightarrow> max 0 (lowest_of available) = lowest_of available"
    using none(4) by simp
  have low1: "available = [] \<Longrightarrow> max 0 (lowest_of available) = 0" by (simp add: lowest_of_def)
  have scan: "scan_available ?l available (-1, -1, -1) = (?inside, highest_of available, lowest_of available)"
    using scan_fold [of available "-1" ?l "-1" "-1"] pos fold_max_none [of available]
      fold_max_none [of "filter (\<lambda>a. a \<le> ?l) available"] by simp
  define q where "q = (if ?inside = -1 \<and> highest_of available \<noteq> -1 \<and> allow \<and> is_overshoot_okay (fw_vls f)
    then highest_of available else ?inside)"
  have q: "q = wanted_layer f available (allow \<and> is_overshoot_okay (fw_vls f))"
    using none(1) by (auto simp: q_def wanted_layer_def Let_def)
  have opp: "opportunistic_layer f allow = VideoLayer (if allow \<and> is_overshoot_okay (fw_vls f) then vl_spatial (bs_max_seen ?b) else ?l)
      (max_temporal (bs_max ?b) (bs_max_seen ?b))"
    by (auto simp: opportunistic_layer_def Let_def min_def)
  show ?thesis
    unfolding optimal_target_def expected_target_def Let_def layer_consts scan prod.case q_def [symmetric] q [symmetric] opp
    using low0 low1 none(2) by (cases "available = []") auto
qed

lemma optimal_choice_facts:
  assumes ok: "layers_ok (fw_base f)" and av: "list_all (\<lambda>l. 0 \<le> l \<and> l \<le> 2) available"
    and c: "optimal_choice f available allow hold needed = (pause, target, request)"
  shows "layer_ok target" "vl_is_valid target \<longleftrightarrow> \<not> blocked f" "blocked f \<Longrightarrow> target = invalid_layer"
    "\<not> blocked f \<Longrightarrow> optimal_target f available allow hold = (target, request)"
    "pause = (if fw_muted f \<and> vl_is_valid (bs_max (fw_base f)) \<and> vl_spatial (bs_max_seen (fw_base f)) \<noteq> -1 then PauseMuted
      else if fw_pub_muted f \<and> vl_is_valid (bs_max (fw_base f)) \<and> vl_spatial (bs_max_seen (fw_base f)) \<noteq> -1 then PausePubMuted
      else if needed = 0 then PauseFeedDry else PauseNone)"
proof -
  obtain tg rq where o: "optimal_target f available allow hold = (tg, rq)" by fastforce
  have v: "vl_is_valid tg" "layer_ok tg" if "\<not> blocked f"
    using optimal_target_facts(1) [OF ok that av o] valid_in_grid [of tg] by auto
  show "layer_ok target" "vl_is_valid target \<longleftrightarrow> \<not> blocked f" "blocked f \<Longrightarrow> target = invalid_layer"
    "\<not> blocked f \<Longrightarrow> optimal_target f available allow hold = (target, request)"
    "pause = (if fw_muted f \<and> vl_is_valid (bs_max (fw_base f)) \<and> vl_spatial (bs_max_seen (fw_base f)) \<noteq> -1 then PauseMuted
      else if fw_pub_muted f \<and> vl_is_valid (bs_max (fw_base f)) \<and> vl_spatial (bs_max_seen (fw_base f)) \<noteq> -1 then PausePubMuted
      else if needed = 0 then PauseFeedDry else PauseNone)"
    using c v o by (auto simp: optimal_choice_def Let_def blocked_def split: if_splits)
qed

text \<open>Allocations find their numbers: the searches stay inside the table.\<close>

lemma allocate_optimal_eq:
  assumes ok: "layers_ok (fw_base f)" and av: "list_all (\<lambda>l. 0 \<le> l \<and> l \<le> 2) available" and k: "fw_kind f \<noteq> KindAudio"
  obtains pause target request requested existing distance where
    "optimal_choice f available allow hold (if fw_muted f \<or> fw_pub_muted f \<or> vl_spatial (bs_max_seen (fw_base f)) = -1 then 0
        else best_rate brs (bs_max (fw_base f))) = (pause, target, request)"
    "requested = (if blocked f then 0 else best_rate brs target)"
    "get_bandwidth_needed brs (bs_target (fw_base f)) (va_bandwidth_requested (fw_last_allocation f)) = Some existing"
    "get_distance_to_desired (fw_muted f) (fw_pub_muted f) (bs_max_seen (fw_base f)) available brs target (bs_max (fw_base f)) = Some distance"
    "allocate_optimal f available brs allow hold = Some (update_allocation f
      \<lparr>va_pause_reason = pause, va_is_deficient = False, va_bandwidth_requested = requested,
       va_bandwidth_delta = i64 (requested - existing),
       va_bandwidth_needed = (if fw_muted f \<or> fw_pub_muted f \<or> vl_spatial (bs_max_seen (fw_base f)) = -1 then 0
         else best_rate brs (bs_max (fw_base f))), va_bitrates = brs,
       va_target_layer = target, va_request_layer_spatial = request, va_max_layer = bs_max (fw_base f),
       va_distance_to_desired = distance\<rparr>)"
proof -
  let ?b = "fw_base f"
  have lo: "layer_ok (bs_max ?b)" "layer_ok (bs_max_seen ?b)" "layer_ok (bs_target ?b)" using ok by (simp_all add: layers_ok_def)
  define needed where "needed = (if fw_muted f \<or> fw_pub_muted f \<or> vl_spatial (bs_max_seen ?b) = -1 then 0 else best_rate brs (bs_max ?b))"
  obtain pause target request where c: "optimal_choice f available allow hold needed = (pause, target, request)" by (metis prod_cases3)
  note cf = optimal_choice_facts [OF ok av c]
  obtain distance where d: "get_distance_to_desired (fw_muted f) (fw_pub_muted f) (bs_max_seen ?b) available brs target (bs_max ?b) = Some distance"
    using distance_total [OF lo(2,1) av] by blast
  obtain existing where e: "get_bandwidth_needed brs (bs_target ?b) (va_bandwidth_requested (fw_last_allocation f)) = Some existing"
    using bandwidth_needed [OF lo(3)] by blast
  have r: "(if vl_is_valid target then get_optimal_bandwidth_needed (fw_muted f) (fw_pub_muted f) (vl_spatial (bs_max_seen ?b)) brs target else Some 0)
      = Some (if blocked f then 0 else best_rate brs target)"
    using optimal_bandwidth [OF cf(1)] cf(2) by (auto simp: blocked_def)
  have n: "get_optimal_bandwidth_needed (fw_muted f) (fw_pub_muted f) (vl_spatial (bs_max_seen ?b)) brs (bs_max ?b) = Some needed"
    by (simp add: optimal_bandwidth [OF lo(1)] needed_def)
  have "allocate_optimal f available brs allow hold = Some (update_allocation f
      \<lparr>va_pause_reason = pause, va_is_deficient = False, va_bandwidth_requested = (if blocked f then 0 else best_rate brs target),
       va_bandwidth_delta = i64 ((if blocked f then 0 else best_rate brs target) - existing),
       va_bandwidth_needed = needed, va_bitrates = brs,
       va_target_layer = target, va_request_layer_spatial = request, va_max_layer = bs_max ?b,
       va_distance_to_desired = distance\<rparr>)"
    unfolding allocate_optimal_def Let_def n Option.bind.bind_lunit c prod.case r e d using k by simp
  with that c e d show ?thesis by (simp only: needed_def)
qed

text \<open>
  C26. Without congestion, a forwarder either may not flow at all (muted on a side, nothing
  subscribed or nothing published): then its target is invalid and it resyncs, so that it
  resumes at a key frame of a fresh source; or it gets a layer of the table as its target,
  never deficient, requesting the bitrate of the best offered layer up to it, and the target is
  exactly this.  With a current layer: stay at its spatial layer if no available layer is
  wanted or the wanted one is both current and requested; otherwise the wanted one, or, on
  hold, the lowest available one at temporal layer 0.  With no current layer: on hold, the
  lowest available one (0 if none is) at temporal layer 0; otherwise the lower one of the
  subscribed and the published maximum (the published one, if layers above the maximum may be
  taken), requesting the wanted one.  The wanted layer is the highest available one within what
  is subscribed and published, or the highest available one when there is none within and
  layers above the maximum may be taken.  Unless on hold, the temporal layer is the highest
  subscribed and seen; H.264 gets temporal layer 0.  In particular, neither on hold nor
  allowed to overshoot, the target stays within the subscribed maximum or at the current layer.
\<close>

theorem optimal_allocation:
  assumes "layers_ok (fw_base f)" "list_all (\<lambda>l. 0 \<le> l \<and> l \<le> 2) available" "fw_kind f = KindVideo"
  shows "\<exists>f' a t. allocate_optimal f available brs allow hold = Some (f', a) \<and>
    fw_last_allocation f' = a \<and> bs_target (fw_base f') = va_target_layer a \<and> \<not> va_is_deficient a \<and>
    (blocked f \<longrightarrow> va_target_layer a = invalid_layer \<and> bs_current (fw_base f') = invalid_layer \<and> fw_last_ssrc f' = 0 \<and>
       va_bandwidth_requested a = 0 \<and> va_pause_reason a \<noteq> PauseBandwidth) \<and>
    (\<not> blocked f \<longrightarrow> in_grid t \<and> va_target_layer a = codec_layer (fw_mime f) t \<and>
       va_bandwidth_requested a = best_rate brs t \<and> bs_current (fw_base f') = bs_current (fw_base f) \<and>
       (t, va_request_layer_spatial a) = expected_target f available allow hold \<and>
       bs_request_spatial (fw_base f') = va_request_layer_spatial a \<and>
       va_pause_reason a = (if best_rate brs (bs_max (fw_base f)) = 0 then PauseFeedDry else PauseNone) \<and>
       (\<not> hold \<and> \<not> (allow \<and> is_overshoot_okay (fw_vls f)) \<longrightarrow>
          vl_spatial t \<le> max (vl_spatial (bs_max (fw_base f))) (vl_spatial (bs_current (fw_base f))) \<and>
          vl_temporal t \<le> vl_temporal (bs_max (fw_base f)) \<and>
          (\<not> vl_is_valid (bs_current (fw_base f)) \<longrightarrow>
             vl_spatial t = min (vl_spatial (bs_max (fw_base f))) (vl_spatial (bs_max_seen (fw_base f))))))"
proof -
  have k: "fw_kind f \<noteq> KindAudio" using assms(3) by simp
  obtain pause target request requested existing distance where
    c: "optimal_choice f available allow hold (if fw_muted f \<or> fw_pub_muted f \<or> vl_spatial (bs_max_seen (fw_base f)) = -1 then 0
        else best_rate brs (bs_max (fw_base f))) = (pause, target, request)"
    and r: "requested = (if blocked f then 0 else best_rate brs target)"
    and q: "allocate_optimal f available brs allow hold = Some (update_allocation f
      \<lparr>va_pause_reason = pause, va_is_deficient = False, va_bandwidth_requested = requested,
       va_bandwidth_delta = i64 (requested - existing),
       va_bandwidth_needed = (if fw_muted f \<or> fw_pub_muted f \<or> vl_spatial (bs_max_seen (fw_base f)) = -1 then 0
         else best_rate brs (bs_max (fw_base f))), va_bitrates = brs,
       va_target_layer = target, va_request_layer_spatial = request, va_max_layer = bs_max (fw_base f),
       va_distance_to_desired = distance\<rparr>)"
    by (rule allocate_optimal_eq [OF assms(1,2) k])
  note cf = optimal_choice_facts [OF assms(1,2) c]
  obtain f' a where u: "update_allocation f
      \<lparr>va_pause_reason = pause, va_is_deficient = False, va_bandwidth_requested = requested,
       va_bandwidth_delta = i64 (requested - existing),
       va_bandwidth_needed = (if fw_muted f \<or> fw_pub_muted f \<or> vl_spatial (bs_max_seen (fw_base f)) = -1 then 0
         else best_rate brs (bs_max (fw_base f))), va_bitrates = brs,
       va_target_layer = target, va_request_layer_spatial = request, va_max_layer = bs_max (fw_base f),
       va_distance_to_desired = distance\<rparr> = (f', a)" by fastforce
  note e = update_allocation_effect [OF u]
  have a: "allocate_optimal f available brs allow hold = Some (f', a)" using q unfolding u .
  have ef: "va_target_layer a = codec_layer (fw_mime f) target" "va_pause_reason a = pause" "\<not> va_is_deficient a" "va_bandwidth_requested a = requested"
    "va_request_layer_spatial a = request"
    by (simp_all add: e(1))
  show ?thesis
  proof (cases "blocked f")
    case True
    then have t: "target = invalid_layer" by (rule cf(3))
    have "pause \<noteq> PauseBandwidth" by (simp add: cf(5))
    with True a e(2,3,6,7) ef t r show ?thesis by (intro exI [of _ f'] exI [of _ a] exI [of _ target]) simp
  next
    case False
    note tf = optimal_target_facts [OF assms(1) False assms(2) cf(4) [OF False]]
    have v: "vl_is_valid target" using cf(2) False by simp
    have "(target, va_request_layer_spatial a) = expected_target f available allow hold"
      using trans [OF cf(4) [OF False, symmetric] optimal_target_expected [OF assms(2)]] ef(5) by simp
    moreover have "va_pause_reason a = (if best_rate brs (bs_max (fw_base f)) = 0 then PauseFeedDry else PauseNone)"
      using cf(5) False ef(2) by (simp add: blocked_def)
    moreover have "bs_request_spatial (fw_base f') = va_request_layer_spatial a" using e(8) v ef(1) by simp
    ultimately show ?thesis
      using False v a e(2,3,6) ef(1,3,4) r tf(1,4,5) by (intro exI [of _ f'] exI [of _ a] exI [of _ target]) auto
  qed
qed

text \<open>A forwarder for the examples: everything subscribed, two spatial layers published.\<close>

definition example_forwarder :: "mime_type \<Rightarrow> (unit, unit, unit) forwarder" where
  "example_forwarder m = (new_forwarder KindVideo False False)\<lparr>fw_mime := m,
     fw_vls := VlsSimulcast (new_base\<lparr>bs_max := VideoLayer 2 3, bs_max_seen := VideoLayer 1 3\<rparr>)\<rparr>"

lemma example_forwarder_facts [simp]:
  "fw_base (example_forwarder m) = new_base\<lparr>bs_max := VideoLayer 2 3, bs_max_seen := VideoLayer 1 3\<rparr>"
  "fw_kind (example_forwarder m) = KindVideo" "fw_mime (example_forwarder m) = m"
  "fw_muted (example_forwarder m) = False" "fw_pub_muted (example_forwarder m) = False"
  "fw_provisional (example_forwarder m) = None" "fw_last_allocation (example_forwarder m) = video_allocation_default"
  "fw_vls (example_forwarder m) = VlsSimulcast (new_base\<lparr>bs_max := VideoLayer 2 3, bs_max_seen := VideoLayer 1 3\<rparr>)"
  by (simp_all add: example_forwarder_def new_forwarder_def on_vls_def)

lemma optimal_allocation_witness:
  "\<exists>f' a. allocate_optimal (example_forwarder MimeVP8) [0, 1] no_bitrates False False = Some (f', a) \<and>
    vl_spatial (va_target_layer a) = 1"
proof -
  have "layers_ok (fw_base (example_forwarder MimeVP8))" by (simp add: layers_ok_def layer_ok_def new_base_def)
  moreover have "\<not> blocked (example_forwarder MimeVP8)" "\<not> vl_is_valid (bs_current (fw_base (example_forwarder MimeVP8)))"
    by (simp_all add: blocked_def vl_is_valid_def new_base_def)
  ultimately show ?thesis
    using optimal_allocation [of "example_forwarder MimeVP8" "[0, 1]" no_bitrates False False] by (auto simp: new_base_def)
qed

end
