(* ===== verification/Forwarder_Congestion.thy ===== *)
theory Forwarder_Congestion
  imports Forwarder
begin

text \<open>
  Allocation of a target layer when the channel is congested (\<open>pkg/sfu/forwarder.go\<close>): the
  provisional allocation that the stream allocator builds up layer by layer, the transitions it
  asks for, the commit, and the boost to the next higher layer.  The available layers and the
  bitrates that the transitions return too are those of the provisional allocation.
\<close>

section \<open>Provisional allocation\<close>

definition provisional_prepare ::
  "int list \<Rightarrow> bitrates \<Rightarrow> ('mi, 'mb, 'd) forwarder \<Rightarrow> ('mi, 'mb, 'd) forwarder" where
  "provisional_prepare available brs f =
    f\<lparr>fw_provisional := Some \<lparr>pv_muted = fw_muted f, pv_pub_muted = fw_pub_muted f,
       pv_max_seen = bs_max_seen (fw_base f), pv_available = available, pv_bitrates = brs,
       pv_max = bs_max (fw_base f), pv_current = bs_current (fw_base f), pv_allocated = invalid_layer\<rparr>\<rparr>"

definition set_allocated :: "provisional \<Rightarrow> video_layer \<Rightarrow> ('mi, 'mb, 'd) forwarder \<Rightarrow> ('mi, 'mb, 'd) forwarder" where
  "set_allocated p l f = f\<lparr>fw_provisional := Some (p\<lparr>pv_allocated := l\<rparr>)\<rparr>"

definition provisional_reset :: "('mi, 'mb, 'd) forwarder \<Rightarrow> ('mi, 'mb, 'd) forwarder option" where
  "provisional_reset f = map_option (\<lambda>p. set_allocated p invalid_layer f) (fw_provisional f)"

definition provisional_allocate ::
  "int \<Rightarrow> video_layer \<Rightarrow> bool \<Rightarrow> bool \<Rightarrow> ('mi, 'mb, 'd) forwarder \<Rightarrow> (('mi, 'mb, 'd) forwarder \<times> bool \<times> int) option" where
  "provisional_allocate capacity layer allow_pause allow_overshoot f = do {
     p \<leftarrow> fw_provisional f;
     if pv_muted p \<or> pv_pub_muted p \<or> vl_spatial (pv_max_seen p) = invalid_layer_spatial \<or> \<not> vl_is_valid (pv_max p) \<or>
        (\<not> allow_overshoot \<or> \<not> is_overshoot_okay (fw_vls f)) \<and> vl_greater_than layer (pv_max p)
     then Some (f, False, 0)
     else do {
       required \<leftarrow> br_at (pv_bitrates p) layer;
       if required = 0 then Some (f, False, 0)
       else do {
         already \<leftarrow> (if vl_is_valid (pv_allocated p) then br_at (pv_bitrates p) (pv_allocated p) else Some 0);
         Some (
           if \<not> vl_greater_than layer (pv_max p) \<and> required \<le> i64 (capacity + already)
           then (set_allocated p layer f, True, i64 (required - already))
           else if \<not> allow_pause \<and> (\<not> vl_is_valid (pv_allocated p) \<or> \<not> vl_greater_than layer (pv_allocated p))
           then (set_allocated p layer f, True, i64 (required - already))
           else (f, False, 0))
       }
     }
   }"

definition transition_to :: "video_layer \<Rightarrow> video_layer \<Rightarrow> int \<Rightarrow> video_transition" where
  "transition_to source target delta = \<lparr>vt_from = source, vt_to = target, vt_bandwidth_delta = delta\<rparr>"

text \<open>\<open>findNextLayer\<close>: the first layer with a bitrate in a rectangle of the table.\<close>

definition find_next_layer :: "bitrates \<Rightarrow> int \<Rightarrow> int \<Rightarrow> int \<Rightarrow> int \<Rightarrow> (video_layer \<times> int) option" where
  "find_next_layer brs s0 s1 t0 t1 = (case first_such (\<lambda>r. r \<noteq> 0) brs (layers_up s0 s1 t0 t1) of
     None \<Rightarrow> None
   | Some None \<Rightarrow> Some (invalid_layer, 0)
   | Some (Some l) \<Rightarrow> Some (l, rate brs l))"

text \<open>What is left when the current target is not to be preserved.\<close>

definition cooperative_fallback ::
  "provisional \<Rightarrow> bool \<Rightarrow> ('mi, 'mb, 'd) forwarder \<Rightarrow> (video_layer \<times> int) option" where
  "cooperative_fallback p allow_overshoot f = do {
     (target, bw) \<leftarrow>
       (if vl_is_valid (bs_target (fw_base f)) then Some (invalid_layer, 0)
        else do {
          (l, bw) \<leftarrow> find_next_layer (pv_bitrates p) 0 (vl_spatial (pv_max p)) 0 (vl_temporal (pv_max p));
          if bw = 0 \<and> vl_is_valid (pv_max p) \<and> allow_overshoot \<and> is_overshoot_okay (fw_vls f)
          then find_next_layer (pv_bitrates p) (i32 (vl_spatial (pv_max p) + 1)) default_max_layer_spatial 0 default_max_layer_temporal
          else Some (l, bw)
        });
     if vl_is_valid target then Some (target, bw)
     else if vl_is_valid (pv_current p) then map_option (\<lambda>r. (pv_current p, r)) (br_at (pv_bitrates p) (pv_current p))
     else Some (pv_current p, bw)
   }"

definition cooperative_transition ::
  "bool \<Rightarrow> ('mi, 'mb, 'd) forwarder \<Rightarrow> (('mi, 'mb, 'd) forwarder \<times> video_transition) option" where
  "cooperative_transition allow_overshoot f = do {
     p \<leftarrow> fw_provisional f;
     let existing = bs_target (fw_base f);
     let last = va_bandwidth_requested (fw_last_allocation f);
     if pv_muted p \<or> pv_pub_muted p then do {
       bw \<leftarrow> get_bandwidth_needed (pv_bitrates p) existing last;
       Some (set_allocated p invalid_layer f, transition_to existing invalid_layer (i64 (- bw)))
     }
     else do {
       maximal \<leftarrow> (if vl_is_valid existing
         then first_such (\<lambda>r. r \<noteq> 0) (pv_bitrates p) (layers_down (vl_spatial (pv_max p)) (vl_temporal (pv_max p)))
         else Some None);
       keeps \<leftarrow> (case maximal of None \<Rightarrow> Some False
         | Some m \<Rightarrow> if vl_greater_than existing m then Some False
                     else map_option (\<lambda>r. r \<noteq> 0) (br_at (pv_bitrates p) existing));
       if keeps then Some (set_allocated p existing f, transition_to existing existing 0)
       else do {
         (target, bw) \<leftarrow> (case maximal of
             Some m \<Rightarrow> if vl_greater_than existing m then Some (m, rate (pv_bitrates p) m)
                       else cooperative_fallback p allow_overshoot f
           | None \<Rightarrow> cooperative_fallback p allow_overshoot f);
         needed \<leftarrow> get_bandwidth_needed (pv_bitrates p) existing last;
         Some (set_allocated p target f, transition_to existing target (i64 (bw - needed)))
       }
     }
   }"

section \<open>The best weighted transition\<close>

text \<open>
  \<open>float32\<close> values that are not negative and far from the ends of the range: the exact number
  rounded to 24 significant bits, ties to even.
\<close>

fun bit_len :: "nat \<Rightarrow> nat" where
  "bit_len n = (if n = 0 then 0 else Suc (bit_len (n div 2)))"

declare bit_len.simps [simp del]

definition round_half_even :: "rat \<Rightarrow> int" where
  "round_half_even q =
    (let fl = \<lfloor>q\<rfloor>; d = q - of_int fl in if d < 1 / 2 then fl else if d > 1 / 2 then fl + 1 else if even fl then fl else fl + 1)"

definition f32 :: "rat \<Rightarrow> rat" where
  "f32 q =
    (if q \<le> 0 then 0
     else let n = bit_len (nat \<lfloor>q * 2 ^ 64\<rfloor>);
              u = (if n \<ge> 88 then 2 ^ (n - 88) else 1 / 2 ^ (88 - n))
          in of_int (round_half_even (q / u)) * u)"

definition transition_cost_spatial :: int where
  "transition_cost_spatial = 10"

definition transition_value :: "video_layer \<Rightarrow> int \<Rightarrow> video_layer \<Rightarrow> int \<Rightarrow> rat" where
  "transition_value target max_reachable l delta =
    (let cost = i32 ((if vl_spatial target \<noteq> vl_spatial l then transition_cost_spatial else 0) +
           ((max_reachable + 1) * (vl_spatial target - vl_spatial l) + (vl_temporal target - vl_temporal l)))
     in if cost \<noteq> 0 then f32 (f32 (of_int delta) / f32 (of_int cost)) else 0)"

fun weigh :: "bitrates \<Rightarrow> video_layer \<Rightarrow> int \<Rightarrow> int \<Rightarrow> video_layer list \<Rightarrow> video_layer \<times> int \<times> rat \<Rightarrow> (video_layer \<times> int \<times> rat) option" where
  "weigh brs target max_reachable existing [] best = Some best"
| "weigh brs target max_reachable existing (l # ls) (bl, bd, bv) = (case br_at brs l of
     None \<Rightarrow> None
   | Some r \<Rightarrow>
       let delta = max 0 (i64 (existing - r)); v = transition_value target max_reachable l delta in
       weigh brs target max_reachable existing ls
         (if v > bv \<or> (v = bv \<and> delta > bd) then (l, delta, v) else (bl, bd, bv)))"

text \<open>The highest temporal layer with a bitrate in any spatial layer: temporal layers outside.\<close>

definition max_reachable_temporal :: "bitrates \<Rightarrow> video_layer \<Rightarrow> int option" where
  "max_reachable_temporal brs mx =
    (case first_such (\<lambda>r. r \<noteq> 0) brs
       (concat (map (\<lambda>t. map (\<lambda>s. VideoLayer s t) (rev [0..vl_spatial mx])) (rev [0..vl_temporal mx]))) of
       None \<Rightarrow> None | Some None \<Rightarrow> Some invalid_layer_temporal | Some (Some l) \<Rightarrow> Some (vl_temporal l))"

definition best_weighted_transition :: "('mi, 'mb, 'd) forwarder \<Rightarrow> (('mi, 'mb, 'd) forwarder \<times> video_transition) option" where
  "best_weighted_transition f = do {
     p \<leftarrow> fw_provisional f;
     let target = bs_target (fw_base f);
     let last = va_bandwidth_requested (fw_last_allocation f);
     if pv_muted p \<or> pv_pub_muted p then do {
       bw \<leftarrow> get_bandwidth_needed (pv_bitrates p) target last;
       Some (set_allocated p invalid_layer f, transition_to target invalid_layer (i64 (0 - bw)))
     }
     else do {
       reachable \<leftarrow> max_reachable_temporal (pv_bitrates p) (pv_max p);
       existing \<leftarrow> get_bandwidth_needed (pv_bitrates p) target last;
       if reachable = invalid_layer_temporal
       then Some (set_allocated p (pv_current p) f, transition_to target (pv_current p) (i64 (0 - existing)))
       else do {
         (l, delta, v) \<leftarrow> weigh (pv_bitrates p) target reachable existing
           (filter (\<lambda>l. l \<noteq> target) (layers_up 0 (vl_spatial target) 0 (vl_temporal target))) (invalid_layer, 0, 0);
         Some (set_allocated p l f, transition_to target l (i64 (- delta)))
       }
     }
   }"

section \<open>Commit\<close>

definition provisional_commit :: "('mi, 'mb, 'd) forwarder \<Rightarrow> (('mi, 'mb, 'd) forwarder \<times> video_allocation) option" where
  "provisional_commit f = do {
     p \<leftarrow> fw_provisional f;
     let brs = pv_bitrates p;
     needed \<leftarrow> get_optimal_bandwidth_needed (pv_muted p) (pv_pub_muted p) (vl_spatial (pv_max_seen p)) brs (pv_max p);
     existing \<leftarrow> get_bandwidth_needed brs (bs_target (fw_base f)) (va_bandwidth_requested (fw_last_allocation f));
     distance \<leftarrow> get_distance_to_desired (pv_muted p) (pv_pub_muted p) (pv_max_seen p) (pv_available p) brs (pv_allocated p) (pv_max p);
     let alloc = \<lparr>va_pause_reason = PauseNone, va_is_deficient = False, va_bandwidth_requested = 0,
       va_bandwidth_delta = i64 (0 - existing), va_bandwidth_needed = needed, va_bitrates = brs,
       va_target_layer = pv_allocated p, va_request_layer_spatial = vl_spatial (pv_allocated p),
       va_max_layer = pv_max p, va_distance_to_desired = distance\<rparr>;
     if pv_muted p then Some (update_allocation f (alloc\<lparr>va_pause_reason := PauseMuted\<rparr>))
     else if pv_pub_muted p then Some (update_allocation f (alloc\<lparr>va_pause_reason := PausePubMuted\<rparr>))
     else do {
       requested \<leftarrow> (if vl_is_valid (pv_allocated p) then br_at brs (pv_allocated p) else Some 0);
       let alloc' = alloc\<lparr>va_bandwidth_requested := requested, va_bandwidth_delta := i64 (requested - existing)\<rparr>;
       Some (
         if needed = 0 then
           if vl_is_valid (pv_allocated p) then update_allocation f alloc'
           else if vl_is_valid (pv_current p) \<and> vl_spatial (pv_current p) \<le> vl_spatial (pv_max p)
           then update_allocation (set_allocated p (pv_current p) f)
             (alloc\<lparr>va_pause_reason := PauseFeedDry, va_target_layer := pv_current p,
                    va_request_layer_spatial := vl_spatial (pv_current p)\<rparr>)
           else update_allocation f (alloc\<lparr>va_pause_reason := PauseFeedDry\<rparr>)
         else if vl_greater_than (pv_allocated p) (pv_max p) \<or> requested \<ge> needed
         then update_allocation f alloc'
         else update_allocation f (alloc'\<lparr>va_is_deficient := True,
           va_pause_reason := (if vl_is_valid (pv_allocated p) then PauseNone else PauseBandwidth)\<rparr>))
     }
   }"

section \<open>The next higher layer\<close>

definition overshoot_allowed :: "bool \<Rightarrow> ('mi, 'mb, 'd) forwarder \<Rightarrow> bool" where
  "overshoot_allowed allow_overshoot f \<longleftrightarrow> allow_overshoot \<and> is_overshoot_okay (fw_vls f)"

text \<open>The regions that are searched, in order: the same spatial layer, the ones above it, the ones above the maximum.\<close>

definition regions_above :: "bool \<Rightarrow> ('mi, 'mb, 'd) forwarder \<Rightarrow> video_layer list list" where
  "regions_above allow_overshoot f =
    (let target = bs_target (fw_base f); mx = bs_max (fw_base f) in
     (if vl_is_valid target
      then [layers_up (vl_spatial target) (vl_spatial target) (i32 (vl_temporal target + 1)) (vl_temporal mx)] else []) @
     [layers_up (i32 (vl_spatial target + 1)) (vl_spatial mx) 0 (vl_temporal mx)] @
     (if overshoot_allowed allow_overshoot f \<and> vl_is_valid mx
      then [layers_up (i32 (vl_spatial mx + 1)) default_max_layer_spatial 0 default_max_layer_temporal] else []))"

definition already_allocated :: "bitrates \<Rightarrow> ('mi, 'mb, 'd) forwarder \<Rightarrow> int option" where
  "already_allocated brs f =
    (if vl_is_valid (bs_target (fw_base f)) then br_at brs (bs_target (fw_base f)) else Some 0)"

text \<open>\<open>doAllocation\<close> over one region; \<open>Some None\<close> is that it is not done.\<close>

definition do_allocation ::
  "int \<Rightarrow> int list \<Rightarrow> bitrates \<Rightarrow> bool \<Rightarrow> int \<Rightarrow> int \<Rightarrow> ('mi, 'mb, 'd) forwarder \<Rightarrow> video_layer list \<Rightarrow>
   (('mi, 'mb, 'd) forwarder \<times> video_allocation \<times> bool) option option" where
  "do_allocation capacity available brs allow_overshoot needed already f ls =
    (let mx = bs_max (fw_base f); seen = bs_max_seen (fw_base f) in do {
       found \<leftarrow> first_such (\<lambda>r. r \<noteq> 0) brs ls;
       case found of
         None \<Rightarrow> Some None
       | Some l \<Rightarrow>
           if \<not> overshoot_allowed allow_overshoot f \<and> i64 (rate brs l - already) > capacity
           then Some (Some (f, fw_last_allocation f, False))
           else do {
             distance \<leftarrow> get_distance_to_desired (fw_muted f) (fw_pub_muted f) seen available brs l mx;
             let (f', a) = update_allocation f \<lparr>va_pause_reason = PauseNone,
               va_is_deficient = \<not> (vl_greater_than l mx \<or> rate brs l \<ge> needed),
               va_bandwidth_requested = rate brs l, va_bandwidth_delta = i64 (rate brs l - already),
               va_bandwidth_needed = needed, va_bitrates = brs, va_target_layer = l,
               va_request_layer_spatial = vl_spatial l, va_max_layer = mx, va_distance_to_desired = distance\<rparr>;
             Some (Some (f', a, True))
           }
     })"

fun first_done :: "('a \<Rightarrow> 'b option option) \<Rightarrow> 'a list \<Rightarrow> 'b option option" where
  "first_done g [] = Some None"
| "first_done g (x # xs) = (case g x of Some None \<Rightarrow> first_done g xs | r \<Rightarrow> r)"

definition allocate_next_higher ::
  "int \<Rightarrow> int list \<Rightarrow> bitrates \<Rightarrow> bool \<Rightarrow> ('mi, 'mb, 'd) forwarder \<Rightarrow> (('mi, 'mb, 'd) forwarder \<times> video_allocation \<times> bool) option" where
  "allocate_next_higher capacity available brs allow_overshoot f =
    (if fw_kind f = KindAudio \<or> \<not> va_is_deficient (fw_last_allocation f) then Some (f, fw_last_allocation f, False)
     else do {
       needed \<leftarrow> get_optimal_bandwidth_needed (fw_muted f) (fw_pub_muted f) (vl_spatial (bs_max_seen (fw_base f))) brs (bs_max (fw_base f));
       already \<leftarrow> already_allocated brs f;
       r \<leftarrow> first_done (do_allocation capacity available brs allow_overshoot needed already f) (regions_above allow_overshoot f);
       Some (case r of None \<Rightarrow> (f, fw_last_allocation f, False) | Some x \<Rightarrow> x)
     })"

definition get_next_higher_transition ::
  "bitrates \<Rightarrow> bool \<Rightarrow> ('mi, 'mb, 'd) forwarder \<Rightarrow> (video_transition \<times> bool) option" where
  "get_next_higher_transition brs allow_overshoot f =
    (let target = bs_target (fw_base f); nothing = (transition_to (VideoLayer 0 0) (VideoLayer 0 0) 0, False) in
     if fw_kind f = KindAudio \<or> \<not> va_is_deficient (fw_last_allocation f) \<or>
        vl_is_valid target \<and> target \<noteq> bs_current (fw_base f)
     then Some nothing
     else do {
       already \<leftarrow> already_allocated brs f;
       r \<leftarrow> first_done (\<lambda>ls. first_such (\<lambda>r. \<not> (r = 0 \<or> r < already)) brs ls) (regions_above allow_overshoot f);
       Some (case r of
           None \<Rightarrow> nothing
         | Some l \<Rightarrow> (transition_to target l (i64 (rate brs l - already)), True))
     })"

section \<open>Provisional allocation stays within the budget\<close>

text \<open>Bitrates and capacities that a channel can have: their sums do not overflow \<open>int64\<close>.\<close>

definition bandwidth_limit :: int where
  "bandwidth_limit = 1152921504606846976"

definition rates_ok :: "bitrates \<Rightarrow> bool" where
  "rates_ok brs \<longleftrightarrow> (\<forall>s t. 0 \<le> brs s t \<and> brs s t < bandwidth_limit)"

lemma rate_bounds: "rates_ok brs \<Longrightarrow> 0 \<le> rate brs l" "rates_ok brs \<Longrightarrow> rate brs l < bandwidth_limit"
  by (simp_all add: rates_ok_def rate_def)

definition allocated_rate :: "provisional \<Rightarrow> int" where
  "allocated_rate p = (if vl_is_valid (pv_allocated p) then rate (pv_bitrates p) (pv_allocated p) else 0)"

text \<open>The allocator offers layers one by one and takes what each uses off its capacity.\<close>

fun provisional_run ::
  "bool \<Rightarrow> bool \<Rightarrow> int \<Rightarrow> ('mi, 'mb, 'd) forwarder \<Rightarrow> video_layer list \<Rightarrow> (('mi, 'mb, 'd) forwarder \<times> int) option" where
  "provisional_run allow_pause allow_overshoot capacity f [] = Some (f, capacity)"
| "provisional_run allow_pause allow_overshoot capacity f (l # ls) =
    (case provisional_allocate capacity l allow_pause allow_overshoot f of
       None \<Rightarrow> None
     | Some (f', _, used) \<Rightarrow> provisional_run allow_pause allow_overshoot (capacity - used) f' ls)"

text \<open>A step: the layer is refused, or it replaces the one that was allocated.\<close>

lemma provisional_allocate_cases:
  assumes p: "fw_provisional f = Some p" and r: "rates_ok (pv_bitrates p)" and a: "layer_ok (pv_allocated p)"
    and l: "in_grid l" and c: "\<bar>capacity\<bar> < 4 * bandwidth_limit"
  obtains (refused) "provisional_allocate capacity l allow_pause allow_overshoot f = Some (f, False, 0)"
  | (taken) "provisional_allocate capacity l allow_pause allow_overshoot f =
        Some (set_allocated p l f, True, rate (pv_bitrates p) l - allocated_rate p)"
      "rate (pv_bitrates p) l \<noteq> 0"
      "l \<le> pv_max p \<or> allow_overshoot \<and> is_overshoot_okay (fw_vls f)"
      "allow_pause \<Longrightarrow> l \<le> pv_max p \<and> rate (pv_bitrates p) l \<le> capacity + allocated_rate p"
proof -
  have b: "0 \<le> rate (pv_bitrates p) l" "rate (pv_bitrates p) l < bandwidth_limit" "0 \<le> allocated_rate p" "allocated_rate p < bandwidth_limit"
    using rate_bounds [OF r] by (auto simp: allocated_rate_def bandwidth_limit_def)
  have i: "i64 (capacity + allocated_rate p) = capacity + allocated_rate p"
    "i64 (rate (pv_bitrates p) l - allocated_rate p) = rate (pv_bitrates p) l - allocated_rate p"
    using b c by (auto simp: bandwidth_limit_def intro!: i64_id)
  have al: "(if vl_is_valid (pv_allocated p) then br_at (pv_bitrates p) (pv_allocated p) else Some 0) = Some (allocated_rate p)"
    using valid_in_grid [OF a] by (simp add: allocated_rate_def)
  define blocked where "blocked \<longleftrightarrow> pv_muted p \<or> pv_pub_muted p \<or> vl_spatial (pv_max_seen p) = invalid_layer_spatial \<or>
    \<not> vl_is_valid (pv_max p) \<or> (\<not> allow_overshoot \<or> \<not> is_overshoot_okay (fw_vls f)) \<and> vl_greater_than l (pv_max p)"
  have e: "provisional_allocate capacity l allow_pause allow_overshoot f =
    (if blocked \<or> rate (pv_bitrates p) l = 0 then Some (f, False, 0)
     else Some (if \<not> vl_greater_than l (pv_max p) \<and> rate (pv_bitrates p) l \<le> capacity + allocated_rate p \<or>
                   \<not> allow_pause \<and> (\<not> vl_is_valid (pv_allocated p) \<or> \<not> vl_greater_than l (pv_allocated p))
       then (set_allocated p l f, True, rate (pv_bitrates p) l - allocated_rate p) else (f, False, 0)))"
    unfolding provisional_allocate_def p Option.bind.bind_lunit blocked_def [symmetric] br_at_grid [OF l] al i by simp
  show thesis
  proof (cases "blocked \<or> rate (pv_bitrates p) l = 0")
    case True
    then show thesis using e refused by simp
  next
    case False
    then have n: "l \<le> pv_max p \<or> allow_overshoot \<and> is_overshoot_okay (fw_vls f)"
      by (auto simp: blocked_def vl_greater_than_iff)
    show thesis
    proof (cases "\<not> vl_greater_than l (pv_max p) \<and> rate (pv_bitrates p) l \<le> capacity + allocated_rate p \<or>
        \<not> allow_pause \<and> (\<not> vl_is_valid (pv_allocated p) \<or> \<not> vl_greater_than l (pv_allocated p))")
      case True
      with e False have "provisional_allocate capacity l allow_pause allow_overshoot f =
          Some (set_allocated p l f, True, rate (pv_bitrates p) l - allocated_rate p)" by simp
      moreover have "allow_pause \<Longrightarrow> l \<le> pv_max p \<and> rate (pv_bitrates p) l \<le> capacity + allocated_rate p"
        using True by (auto simp: vl_greater_than_iff)
      ultimately show thesis using False n taken by blast
    next
      case no: False
      show thesis by (rule refused) (use e False no in simp)
    qed
  qed
qed

definition allocation_within :: "bool \<Rightarrow> bool \<Rightarrow> int \<Rightarrow> int \<Rightarrow> provisional \<Rightarrow> bool" where
  "allocation_within allow_pause overshoot budget capacity p \<longleftrightarrow>
    layer_ok (pv_allocated p) \<and> capacity = budget - allocated_rate p \<and> (allow_pause \<longrightarrow> 0 \<le> capacity) \<and>
    (vl_is_valid (pv_allocated p) \<longrightarrow> rate (pv_bitrates p) (pv_allocated p) \<noteq> 0 \<and> (pv_allocated p \<le> pv_max p \<or> overshoot))"

lemma set_allocated_simps [simp]:
  "fw_provisional (set_allocated p l f) = Some (p\<lparr>pv_allocated := l\<rparr>)" "fw_vls (set_allocated p l f) = fw_vls f"
  "fw_kind (set_allocated p l f) = fw_kind f" "fw_last_allocation (set_allocated p l f) = fw_last_allocation f"
  "fw_muted (set_allocated p l f) = fw_muted f" "fw_pub_muted (set_allocated p l f) = fw_pub_muted f"
  "fw_mime (set_allocated p l f) = fw_mime f" "fw_last_ssrc (set_allocated p l f) = fw_last_ssrc f"
  "fw_ref_infos (set_allocated p l f) = fw_ref_infos f"
  "fw_reference_layer_spatial (set_allocated p l f) = fw_reference_layer_spatial f"
  by (simp_all add: set_allocated_def)

text \<open>
  C12. The accounting of a provisional allocation is exact: after any offers of layers, in any
  order, what is left of the capacity is the budget less the bitrate of the layer allocated at
  the end.  If pausing is allowed the capacity is never overdrawn, so that a stream gets no
  more than the budget; the layer is one that is being sent, within the maximum unless
  overshooting is allowed; nothing else of the forwarder changes and nothing panics.
\<close>

theorem provisional_within_budget:
  assumes "fw_provisional f = Some p" "rates_ok (pv_bitrates p)" "list_all in_grid ls" "0 \<le> budget" "budget < bandwidth_limit"
    and "allocation_within allow_pause (allow_overshoot \<and> is_overshoot_okay (fw_vls f)) budget capacity p"
  shows "\<exists>l capacity'. provisional_run allow_pause allow_overshoot capacity f ls = Some (set_allocated p l f, capacity') \<and>
    allocation_within allow_pause (allow_overshoot \<and> is_overshoot_okay (fw_vls f)) budget capacity' (p\<lparr>pv_allocated := l\<rparr>)"
  using assms
proof (induction ls arbitrary: f p capacity)
  case Nil
  have "f = set_allocated p (pv_allocated p) f" using Nil.prems(1) by (simp add: set_allocated_def)
  moreover have "p = p\<lparr>pv_allocated := pv_allocated p\<rparr>" by simp
  ultimately show ?case using Nil.prems by (intro exI [of _ "pv_allocated p"] exI [of _ capacity]) simp
next
  case (Cons l ls)
  note within = Cons.prems(6) [unfolded allocation_within_def]
  have cap: "\<bar>capacity\<bar> < 4 * bandwidth_limit"
    using within Cons.prems(4,5) rate_bounds [OF Cons.prems(2), of "pv_allocated p"]
    by (auto simp: allocated_rate_def bandwidth_limit_def)
  have l: "in_grid l" "list_all in_grid ls" using Cons.prems(3) by simp_all
  show ?case
  proof (rule provisional_allocate_cases [OF Cons.prems(1,2) _ l(1) cap, of allow_pause allow_overshoot])
    show "layer_ok (pv_allocated p)" using within by simp
  next
    assume "provisional_allocate capacity l allow_pause allow_overshoot f = Some (f, False, 0)"
    with Cons.IH [OF Cons.prems(1,2) l(2) Cons.prems(4-6)] show ?thesis by simp
  next
    assume t: "provisional_allocate capacity l allow_pause allow_overshoot f =
        Some (set_allocated p l f, True, rate (pv_bitrates p) l - allocated_rate p)"
      "rate (pv_bitrates p) l \<noteq> 0" "l \<le> pv_max p \<or> allow_overshoot \<and> is_overshoot_okay (fw_vls f)"
      "allow_pause \<Longrightarrow> l \<le> pv_max p \<and> rate (pv_bitrates p) l \<le> capacity + allocated_rate p"
    let ?p = "p\<lparr>pv_allocated := l\<rparr>" and ?f = "set_allocated p l f"
    let ?c = "capacity - (rate (pv_bitrates p) l - allocated_rate p)"
    have v: "vl_is_valid l" using l(1) by (simp add: valid_in_grid)
    have "allocation_within allow_pause (allow_overshoot \<and> is_overshoot_okay (fw_vls ?f)) budget ?c ?p"
      using within t(2-4) l(1) v by (auto simp: allocation_within_def allocated_rate_def)
    from Cons.IH [OF _ _ l(2) Cons.prems(4,5) this] Cons.prems(2) t(1)
    show ?thesis by (auto simp: set_allocated_def)
  qed
qed

text \<open>Two spatial layers of two temporal layers each, the second spatial layer not sent at its lowest rate.\<close>

definition example_rates :: bitrates where
  "example_rates = (\<lambda>s t. if s = 0 \<and> t = 0 then 100 else if s = 0 \<and> t = 1 then 150 else if s = 1 \<and> t = 1 then 500 else 0)"

lemma example_rates_ok [simp]: "rates_ok example_rates"
  by (simp add: rates_ok_def example_rates_def bandwidth_limit_def)

lemma provisional_within_budget_witness:
  "\<exists>l capacity'. provisional_run True False 300 (provisional_prepare [0, 1] example_rates (example_forwarder MimeVP8))
      [VideoLayer 0 0, VideoLayer 0 1, VideoLayer 1 1] =
      Some (set_allocated \<lparr>pv_muted = False, pv_pub_muted = False, pv_max_seen = VideoLayer 1 3, pv_available = [0, 1],
        pv_bitrates = example_rates, pv_max = VideoLayer 2 3, pv_current = invalid_layer, pv_allocated = invalid_layer\<rparr> l
        (provisional_prepare [0, 1] example_rates (example_forwarder MimeVP8)), capacity') \<and> 0 \<le> capacity'"
proof -
  let ?p = "\<lparr>pv_muted = False, pv_pub_muted = False, pv_max_seen = VideoLayer 1 3, pv_available = [0, 1],
        pv_bitrates = example_rates, pv_max = VideoLayer 2 3, pv_current = invalid_layer, pv_allocated = invalid_layer\<rparr>"
  let ?f = "provisional_prepare [0, 1] example_rates (example_forwarder MimeVP8)"
  have "fw_provisional ?f = Some ?p" by (simp add: provisional_prepare_def new_base_def)
  moreover have "allocation_within True (False \<and> is_overshoot_okay (fw_vls ?f)) 300 300 ?p"
    by (simp add: allocation_within_def allocated_rate_def)
  ultimately obtain l c where r: "provisional_run True False 300 ?f [VideoLayer 0 0, VideoLayer 0 1, VideoLayer 1 1] =
        Some (set_allocated ?p l ?f, c)" "allocation_within True (False \<and> is_overshoot_okay (fw_vls ?f)) 300 c (?p\<lparr>pv_allocated := l\<rparr>)"
    using provisional_within_budget [of ?f ?p "[VideoLayer 0 0, VideoLayer 0 1, VideoLayer 1 1]" 300 True False 300]
    by (auto simp: in_grid_def bandwidth_limit_def)
  from r(2) have "0 \<le> c" by (simp add: allocation_within_def)
  with r(1) show ?thesis by blast
qed

section \<open>The cooperative transition\<close>

lemma find_least_layer:
  assumes "layer_ok mx"
  shows "find_next_layer brs 0 (vl_spatial mx) 0 (vl_temporal mx) =
    Some (if offered brs mx = {} then (invalid_layer, 0) else (Min (offered brs mx), rate brs (Min (offered brs mx))))"
proof -
  let ?up = "layers_up 0 (vl_spatial mx) 0 (vl_temporal mx)"
  have t: "first_such (\<lambda>r. r \<noteq> 0) brs ?up \<noteq> None" using grid_up [OF assms] by (rule first_such_total)
  then consider (n) "first_such (\<lambda>r. r \<noteq> 0) brs ?up = Some None"
    | (s) l where "first_such (\<lambda>r. r \<noteq> 0) brs ?up = Some (Some l)" by (metis not_None_eq)
  then show ?thesis
  proof cases
    case n
    from first_such_none [OF n] have "offered brs mx = {}" by (auto simp: offered_set)
    with n show ?thesis by (simp add: find_next_layer_def)
  next
    case s
    note g = first_such_least [OF s sorted_layers_up]
    have "Min (offered brs mx) = l" using g(2-4) by (intro Min_eqI) (auto simp: offered_set)
    moreover have "offered brs mx \<noteq> {}" using g(2,3) by (auto simp: offered_set)
    ultimately show ?thesis using s by (simp add: find_next_layer_def)
  qed
qed

lemma offered_grid: "layer_ok mx \<Longrightarrow> l \<in> offered brs mx \<Longrightarrow> in_grid l"
  by (auto simp: offered_def in_grid_def layer_ok_def)

lemma offered_extremes:
  assumes "layer_ok mx" "offered brs mx \<noteq> {}"
  shows "in_grid (Max (offered brs mx))" "in_grid (Min (offered brs mx))" "rate brs (Max (offered brs mx)) \<noteq> 0" "rate brs (Min (offered brs mx)) \<noteq> 0"
  using offered_grid [OF assms(1)] Max_in [OF finite_offered assms(2)] Min_in [OF finite_offered assms(2)]
  by (auto simp: offered_def)

text \<open>What a transition is charged against: the bitrate of the target, or what was last requested.\<close>

definition in_use :: "provisional \<Rightarrow> ('mi, 'mb, 'd) forwarder \<Rightarrow> int" where
  "in_use p f = (if in_grid (bs_target (fw_base f)) \<and> rate (pv_bitrates p) (bs_target (fw_base f)) > 0
    then rate (pv_bitrates p) (bs_target (fw_base f)) else va_bandwidth_requested (fw_last_allocation f))"

definition provisional_ok :: "provisional \<Rightarrow> bool" where
  "provisional_ok p \<longleftrightarrow> layer_ok (pv_max_seen p) \<and> layer_ok (pv_max p) \<and> layer_ok (pv_current p) \<and> layer_ok (pv_allocated p) \<and>
    list_all (\<lambda>l. 0 \<le> l \<and> l \<le> 2) (pv_available p)"

lemma fallback_eq:
  assumes p: "provisional_ok p" and ov: "\<not> (allow \<and> is_overshoot_okay (fw_vls f))"
  shows "cooperative_fallback p allow f =
    Some (if \<not> vl_is_valid (bs_target (fw_base f)) \<and> offered (pv_bitrates p) (pv_max p) \<noteq> {}
          then (Min (offered (pv_bitrates p) (pv_max p)), rate (pv_bitrates p) (Min (offered (pv_bitrates p) (pv_max p))))
          else (pv_current p, if vl_is_valid (pv_current p) then rate (pv_bitrates p) (pv_current p) else 0))"
proof -
  let ?O = "offered (pv_bitrates p) (pv_max p)"
  have m: "layer_ok (pv_max p)" "layer_ok (pv_current p)" using p by (simp_all add: provisional_ok_def)
  have c: "vl_is_valid (pv_current p) \<longleftrightarrow> in_grid (pv_current p)" using m(2) by (rule valid_in_grid)
  have no: "\<not> (bw = 0 \<and> vl_is_valid (pv_max p) \<and> allow \<and> is_overshoot_okay (fw_vls f))" for bw using ov by blast
  show ?thesis
  proof (cases "vl_is_valid (bs_target (fw_base f)) \<or> ?O = {}")
    case True
    then show ?thesis using c find_least_layer [OF m(1), of "pv_bitrates p"] no
      by (auto simp: cooperative_fallback_def)
  next
    case False
    then have "vl_is_valid (Min ?O)" using offered_extremes(2) [OF m(1)] by (simp add: valid_in_grid)
    with False show ?thesis using find_least_layer [OF m(1), of "pv_bitrates p"] no
      by (auto simp: cooperative_fallback_def)
  qed
qed

text \<open>
  C23. The cooperative transition of a stream that is not muted, when layers above the maximum
  are not allowed. A stream whose target is being sent keeps it, or moves down to the best layer
  still offered; it never moves up, and the bandwidth delta is that of the move. A stream without
  a target is started at the least layer that is offered. With nothing on offer the target is left
  at the current layer. The target becomes the provisional allocation, and nothing panics.
\<close>

theorem cooperative_moves:
  assumes p: "fw_provisional f = Some p" "provisional_ok p" "\<not> pv_muted p" "\<not> pv_pub_muted p"
    and t: "layer_ok (bs_target (fw_base f))" and r: "rates_ok (pv_bitrates p)"
    and ov: "\<not> (allow \<and> is_overshoot_okay (fw_vls f))"
  shows "\<exists>tr. cooperative_transition allow f = Some (set_allocated p (vt_to tr) f, tr) \<and>
    (let brs = pv_bitrates p; offer = offered brs (pv_max p); target = bs_target (fw_base f) in
     vt_from tr = target \<and>
     (in_grid target \<and> offer \<noteq> {} \<and> rate brs target \<noteq> 0 \<longrightarrow>
        vt_to tr = min target (Max offer) \<and> vt_bandwidth_delta tr = i64 (rate brs (vt_to tr) - rate brs target)) \<and>
     (\<not> vl_is_valid target \<and> offer \<noteq> {} \<longrightarrow>
        vt_to tr = Min offer \<and> vt_bandwidth_delta tr = i64 (rate brs (Min offer) - va_bandwidth_requested (fw_last_allocation f))) \<and>
     (offer = {} \<longrightarrow> vt_to tr = pv_current p))"
proof -
  let ?T = "bs_target (fw_base f)" and ?B = "pv_bitrates p" and ?O = "offered (pv_bitrates p) (pv_max p)"
  have m: "layer_ok (pv_max p)" using p(2) by (simp add: provisional_ok_def)
  have tv: "vl_is_valid ?T \<longleftrightarrow> in_grid ?T" using t by (rule valid_in_grid)
  have bw: "get_bandwidth_needed ?B ?T (va_bandwidth_requested (fw_last_allocation f)) = Some (in_use p f)"
    by (simp add: bandwidth_needed [OF t] in_use_def)
  define M where "M = Max ?O"
  define keeps where "keeps \<longleftrightarrow> in_grid ?T \<and> ?O \<noteq> {} \<and> ?T \<le> M \<and> rate ?B ?T \<noteq> 0"
  define dest where "dest =
    (if in_grid ?T \<and> ?O \<noteq> {} \<and> M < ?T then (M, rate ?B M)
     else if \<not> vl_is_valid ?T \<and> ?O \<noteq> {} then (Min ?O, rate ?B (Min ?O))
     else (pv_current p, if vl_is_valid (pv_current p) then rate ?B (pv_current p) else 0))"
  have e: "cooperative_transition allow f = Some (if keeps then (set_allocated p ?T f, transition_to ?T ?T 0)
      else (set_allocated p (fst dest) f, transition_to ?T (fst dest) (i64 (snd dest - in_use p f))))"
    unfolding cooperative_transition_def p(1) Option.bind.bind_lunit Let_def bw fallback_eq [OF p(2) ov] search_down [OF m] M_def [symmetric]
    using p(3,4) tv by (auto simp: keeps_def dest_def vl_greater_than_iff not_less)
  define tr where "tr = (if keeps then transition_to ?T ?T 0 else transition_to ?T (fst dest) (i64 (snd dest - in_use p f)))"
  have i: "in_use p f = rate ?B ?T" if "in_grid ?T" "rate ?B ?T \<noteq> 0"
    using that rate_bounds(1) [OF r, of ?T] by (simp add: in_use_def)
  have i': "in_use p f = va_bandwidth_requested (fw_last_allocation f)" if "\<not> vl_is_valid ?T"
    using that tv by (simp add: in_use_def)
  have z: "i64 0 = 0" by (rule i64_id) simp_all
  have "cooperative_transition allow f = Some (set_allocated p (vt_to tr) f, tr)"
    using e by (simp add: tr_def transition_to_def)
  moreover have "vt_from tr = ?T" by (simp add: tr_def transition_to_def)
  moreover have "vt_to tr = min ?T (Max ?O) \<and> vt_bandwidth_delta tr = i64 (rate ?B (vt_to tr) - rate ?B ?T)"
    if "in_grid ?T" "?O \<noteq> {}" "rate ?B ?T \<noteq> 0"
    unfolding M_def [symmetric]
  proof (cases "?T \<le> M")
    case True
    then show "vt_to tr = min ?T M \<and> vt_bandwidth_delta tr = i64 (rate ?B (vt_to tr) - rate ?B ?T)"
      using that z by (simp add: tr_def keeps_def transition_to_def min_def)
  next
    case False
    then show "vt_to tr = min ?T M \<and> vt_bandwidth_delta tr = i64 (rate ?B (vt_to tr) - rate ?B ?T)"
      using that i by (auto simp: tr_def keeps_def dest_def transition_to_def min_def dest: leD)
  qed
  moreover have "vt_to tr = Min ?O \<and> vt_bandwidth_delta tr = i64 (rate ?B (Min ?O) - va_bandwidth_requested (fw_last_allocation f))"
    if "\<not> vl_is_valid ?T" "?O \<noteq> {}"
    using that i' tv by (simp add: tr_def keeps_def dest_def transition_to_def)
  moreover have "vt_to tr = pv_current p" if "?O = {}"
    using that by (simp add: tr_def keeps_def dest_def transition_to_def)
  ultimately show ?thesis unfolding Let_def by blast
qed

lemma cooperative_moves_witness:
  "\<exists>f' tr. cooperative_transition False (provisional_prepare [0, 1] example_rates (example_forwarder MimeVP8)) = Some (f', tr) \<and>
    vt_to tr = VideoLayer 0 0 \<and> vt_bandwidth_delta tr = 100"
proof -
  let ?p = "\<lparr>pv_muted = False, pv_pub_muted = False, pv_max_seen = VideoLayer 1 3, pv_available = [0, 1],
        pv_bitrates = example_rates, pv_max = VideoLayer 2 3, pv_current = invalid_layer, pv_allocated = invalid_layer\<rparr>"
  let ?f = "provisional_prepare [0, 1] example_rates (example_forwarder MimeVP8)"
  have p: "fw_provisional ?f = Some ?p" by (simp add: provisional_prepare_def new_base_def)
  have ok: "provisional_ok ?p" by (simp add: provisional_ok_def layer_ok_def)
  have b: "fw_base ?f = new_base\<lparr>bs_max := VideoLayer 2 3, bs_max_seen := VideoLayer 1 3\<rparr>"
    "fw_last_allocation ?f = video_allocation_default" by (simp_all add: provisional_prepare_def)
  have o: "VideoLayer 0 0 \<in> offered example_rates (VideoLayer 2 3)" by (simp add: offered_def rate_def example_rates_def)
  have m: "Min (offered example_rates (VideoLayer 2 3)) = VideoLayer 0 0"
  proof (rule Min_eqI [OF finite_offered])
    fix l
    assume "l \<in> offered example_rates (VideoLayer 2 3)"
    then show "VideoLayer 0 0 \<le> l"
      by (cases l) (auto simp: offered_def less_eq_video_layer_def vl_greater_than_def)
  qed (rule o)
  have ne: "offered example_rates (VideoLayer 2 3) \<noteq> {}" and rt: "rate example_rates (VideoLayer 0 0) = 100"
    using o by (auto simp: rate_def example_rates_def)
  show ?thesis
    using cooperative_moves [OF p ok, of False] b ne m rt
    by (auto simp: Let_def new_base_def video_allocation_default_def i64_id)
qed

section \<open>The best weighted transition\<close>

text \<open>The loop keeps the best of the candidates it has seen.\<close>

lemma weigh_best:
  assumes "list_all in_grid ls"
  shows "\<exists>l d v. weigh brs target mr existing ls (bl, bd, bv) = Some (l, d, v) \<and> bv \<le> v \<and>
    ((l, d, v) = (bl, bd, bv) \<or>
     l \<in> set ls \<and> d = max 0 (i64 (existing - rate brs l)) \<and> v = transition_value target mr l d) \<and>
    (\<forall>k\<in>set ls. transition_value target mr k (max 0 (i64 (existing - rate brs k))) \<le> v)"
  using assms
proof (induction ls arbitrary: bl bd bv)
  case (Cons k ls)
  let ?d = "max 0 (i64 (existing - rate brs k))"
  let ?v = "transition_value target mr k ?d"
  have k: "br_at brs k = Some (rate brs k)" "list_all in_grid ls" using Cons.prems by simp_all
  show ?case
  proof (cases "?v > bv \<or> ?v = bv \<and> ?d > bd")
    case True
    have w: "weigh brs target mr existing (k # ls) (bl, bd, bv) = weigh brs target mr existing ls (k, ?d, ?v)"
      unfolding weigh.simps k(1) option.case Let_def if_P [OF True] by (rule refl)
    from Cons.IH [OF k(2), of k ?d ?v] True show ?thesis unfolding w by fastforce
  next
    case False
    have w: "weigh brs target mr existing (k # ls) (bl, bd, bv) = weigh brs target mr existing ls (bl, bd, bv)"
      unfolding weigh.simps k(1) option.case Let_def if_not_P [OF False] by (rule refl)
    have "?v \<le> bv" using False by auto
    with Cons.IH [OF k(2), of bl bd bv] show ?thesis unfolding w by fastforce
  qed
qed simp

lemma reachable_some:
  assumes "layer_ok mx" "offered brs mx \<noteq> {}"
  shows "\<exists>t. max_reachable_temporal brs mx = Some t \<and> t \<noteq> -1"
proof -
  let ?ls = "concat (map (\<lambda>t. map (\<lambda>s. VideoLayer s t) (rev [0..vl_spatial mx])) (rev [0..vl_temporal mx]))"
  have set: "set ?ls = {l. 0 \<le> vl_spatial l \<and> vl_spatial l \<le> vl_spatial mx \<and> 0 \<le> vl_temporal l \<and> vl_temporal l \<le> vl_temporal mx}"
    (is "_ = ?S")
  proof (rule set_eqI)
    fix l show "l \<in> set ?ls \<longleftrightarrow> l \<in> ?S" by (cases l) (force simp: image_iff)
  qed
  have "list_all in_grid ?ls" unfolding list_all_iff set using assms(1) by (auto simp: in_grid_def layer_ok_def)
  then have "first_such (\<lambda>r. r \<noteq> 0) brs ?ls \<noteq> None" by (rule first_such_total)
  moreover have "first_such (\<lambda>r. r \<noteq> 0) brs ?ls \<noteq> Some None"
    using assms(2) first_such_none [of "\<lambda>r. r \<noteq> 0" brs ?ls] unfolding set by (auto simp: offered_def)
  ultimately obtain l where l: "first_such (\<lambda>r. r \<noteq> 0) brs ?ls = Some (Some l)" by (metis not_None_eq)
  then obtain xs ys where "?ls = xs @ l # ys" "in_grid l" using first_such_some by blast
  with l show ?thesis by (simp add: max_reachable_temporal_def in_grid_def)
qed

text \<open>
  C38. The best weighted transition of a stream that is not muted and for which something is
  offered: it never asks for bandwidth; it is the best of all downward moves, by what is saved
  per cost, where both the cost and the quotient are the code's \<open>float32\<close> values; what it
  gives back is what the move saves.  If no move has a positive value, it offers nothing.
\<close>

theorem best_weighted_offer:
  assumes p: "fw_provisional f = Some p" "provisional_ok p" "\<not> pv_muted p" "\<not> pv_pub_muted p"
    and t: "layer_ok (bs_target (fw_base f))" and o: "offered (pv_bitrates p) (pv_max p) \<noteq> {}"
  shows "\<exists>tr d reachable. best_weighted_transition f = Some (set_allocated p (vt_to tr) f, tr) \<and>
    max_reachable_temporal (pv_bitrates p) (pv_max p) = Some reachable \<and>
    vt_from tr = bs_target (fw_base f) \<and> vt_bandwidth_delta tr = i64 (- d) \<and> 0 \<le> d \<and>
    (let target = bs_target (fw_base f);
         saved = (\<lambda>l. max 0 (i64 (in_use p f - rate (pv_bitrates p) l)));
         worth = (\<lambda>l. transition_value target reachable l (saved l));
         candidates = {l. 0 \<le> vl_spatial l \<and> 0 \<le> vl_temporal l \<and> vl_spatial l \<le> vl_spatial target \<and>
           vl_temporal l \<le> vl_temporal target \<and> l \<noteq> target}
     in vt_to tr \<in> candidates \<and> d = saved (vt_to tr) \<and> (\<forall>l\<in>candidates. worth l \<le> worth (vt_to tr)) \<or>
        vt_to tr = invalid_layer \<and> d = 0 \<and> (\<forall>l\<in>candidates. worth l \<le> 0))"
proof -
  let ?T = "bs_target (fw_base f)" and ?B = "pv_bitrates p"
  let ?ls = "filter (\<lambda>l. l \<noteq> ?T) (layers_up 0 (vl_spatial ?T) 0 (vl_temporal ?T))"
  have m: "layer_ok (pv_max p)" using p(2) by (simp add: provisional_ok_def)
  obtain mr where mr: "max_reachable_temporal ?B (pv_max p) = Some mr" "mr \<noteq> -1" using reachable_some [OF m o] by blast
  have bw: "get_bandwidth_needed ?B ?T (va_bandwidth_requested (fw_last_allocation f)) = Some (in_use p f)"
    by (simp add: bandwidth_needed [OF t] in_use_def)
  have "list_all in_grid ?ls" using grid_up [OF t] by (auto simp: list_all_iff)
  from weigh_best [OF this, of ?B ?T mr "in_use p f" invalid_layer 0 0] obtain l d v where
    w: "weigh ?B ?T mr (in_use p f) ?ls (invalid_layer, 0, 0) = Some (l, d, v)"
    "(l, d, v) = (invalid_layer, 0, 0) \<or>
     l \<in> set ?ls \<and> d = max 0 (i64 (in_use p f - rate ?B l)) \<and> v = transition_value ?T mr l d"
    "\<forall>k\<in>set ?ls. transition_value ?T mr k (max 0 (i64 (in_use p f - rate ?B k))) \<le> v" by blast
  have e: "best_weighted_transition f = Some (set_allocated p l f, transition_to ?T l (i64 (- d)))"
    unfolding best_weighted_transition_def p(1) Option.bind.bind_lunit Let_def bw mr(1) w(1) using p(3,4) mr(2) by simp
  have d: "0 \<le> d" using w(2) by auto
  show ?thesis
    by (intro exI [of _ "transition_to ?T l (i64 (- d))"] exI [of _ d] exI [of _ mr])
      (use e d mr(1) w(2,3) in \<open>auto simp: transition_to_def Let_def set_layers_up\<close>)
qed

lemma best_weighted_offer_witness:
  "\<exists>f' tr. best_weighted_transition (on_vls (bs_set_target (VideoLayer 1 1))
      (provisional_prepare [0, 1] example_rates (example_forwarder MimeVP8))) = Some (f', tr) \<and>
    vt_from tr = VideoLayer 1 1 \<and> vt_to tr < VideoLayer 1 1"
proof -
  let ?p = "\<lparr>pv_muted = False, pv_pub_muted = False, pv_max_seen = VideoLayer 1 3, pv_available = [0, 1],
        pv_bitrates = example_rates, pv_max = VideoLayer 2 3, pv_current = invalid_layer, pv_allocated = invalid_layer\<rparr>"
  let ?f = "on_vls (bs_set_target (VideoLayer 1 1)) (provisional_prepare [0, 1] example_rates (example_forwarder MimeVP8))"
  have p: "fw_provisional ?f = Some ?p" by (simp add: provisional_prepare_def new_base_def)
  have ok: "provisional_ok ?p" by (simp add: provisional_ok_def layer_ok_def)
  have b: "bs_target (fw_base ?f) = VideoLayer 1 1" by (simp add: bs_set_target_def)
  have "VideoLayer 0 0 \<in> offered example_rates (VideoLayer 2 3)" by (simp add: offered_def rate_def example_rates_def)
  then have ne: "offered (pv_bitrates ?p) (pv_max ?p) \<noteq> {}" by auto
  have less: "vt_to tr < VideoLayer 1 1"
    if "0 \<le> vl_spatial (vt_to tr)" "0 \<le> vl_temporal (vt_to tr)" "vl_spatial (vt_to tr) \<le> 1" "vl_temporal (vt_to tr) \<le> 1" "vt_to tr \<noteq> VideoLayer 1 1" for tr
    using that by (cases "vt_to tr") (auto simp: less_video_layer_def vl_greater_than_def)
  have inv: "invalid_layer < VideoLayer 1 1" by (simp add: less_video_layer_def vl_greater_than_def)
  have l: "layer_ok (bs_target (fw_base ?f))" unfolding b by (simp add: layer_ok_def)
  from best_weighted_offer [OF p ok _ _ l ne] show ?thesis
    unfolding b Let_def by (auto intro!: less simp: inv)
qed

section \<open>Deficiency\<close>

text \<open>
  C27. A commit of a provisional allocation that is not muted, for a stream of which something
  is offered, tells the truth: the stream is deficient exactly if the layer it got is within
  the maximum and carries less than the optimal bandwidth, it is paused for lack of bandwidth
  exactly if it got no layer at all, the bandwidth requested is that of its layer, and the
  target is the allocated layer (temporal layer 0 for H.264).  Nothing panics.
\<close>

theorem commit_deficiency:
  assumes p: "fw_provisional f = Some p" "provisional_ok p" "\<not> pv_muted p" "\<not> pv_pub_muted p" "vl_spatial (pv_max_seen p) \<noteq> -1"
    and t: "layer_ok (bs_target (fw_base f))" and o: "offered (pv_bitrates p) (pv_max p) \<noteq> {}"
  shows "\<exists>f' a. provisional_commit f = Some (f', a) \<and> fw_last_allocation f' = a \<and>
    va_bandwidth_requested a = allocated_rate p \<and> va_bandwidth_needed a = best_rate (pv_bitrates p) (pv_max p) \<and>
    va_bandwidth_delta a = i64 (allocated_rate p - in_use p f) \<and>
    (va_is_deficient a \<longleftrightarrow> pv_allocated p \<le> pv_max p \<and> allocated_rate p < best_rate (pv_bitrates p) (pv_max p)) \<and>
    (va_pause_reason a = PauseBandwidth \<longleftrightarrow> va_is_deficient a \<and> \<not> vl_is_valid (pv_allocated p)) \<and>
    va_target_layer a = codec_layer (fw_mime f) (pv_allocated p) \<and> bs_target (fw_base f') = va_target_layer a"
proof -
  let ?B = "pv_bitrates p"
  have l: "layer_ok (pv_max p)" "layer_ok (pv_allocated p)" "layer_ok (pv_max_seen p)" "list_all (\<lambda>l. 0 \<le> l \<and> l \<le> 2) (pv_available p)"
    using p(2) by (simp_all add: provisional_ok_def)
  have needed: "get_optimal_bandwidth_needed (pv_muted p) (pv_pub_muted p) (vl_spatial (pv_max_seen p)) ?B (pv_max p) = Some (best_rate ?B (pv_max p))"
    using p(3-5) by (simp add: optimal_bandwidth [OF l(1)])
  have existing: "get_bandwidth_needed ?B (bs_target (fw_base f)) (va_bandwidth_requested (fw_last_allocation f)) = Some (in_use p f)"
    by (simp add: bandwidth_needed [OF t] in_use_def)
  obtain distance where distance: "get_distance_to_desired (pv_muted p) (pv_pub_muted p) (pv_max_seen p) (pv_available p) ?B (pv_allocated p) (pv_max p) = Some distance"
    using distance_total [OF l(3,1,4)] by blast
  have requested: "(if vl_is_valid (pv_allocated p) then br_at ?B (pv_allocated p) else Some 0) = Some (allocated_rate p)"
    using valid_in_grid [OF l(2)] by (simp add: allocated_rate_def)
  have nz: "best_rate ?B (pv_max p) \<noteq> 0" using o offered_extremes(3) [OF l(1) o] by (simp add: best_rate_def)
  define deficient where "deficient \<longleftrightarrow> \<not> (vl_greater_than (pv_allocated p) (pv_max p) \<or> allocated_rate p \<ge> best_rate ?B (pv_max p))"
  define al where "al = \<lparr>va_pause_reason = (if deficient \<and> \<not> vl_is_valid (pv_allocated p) then PauseBandwidth else PauseNone),
    va_is_deficient = deficient, va_bandwidth_requested = allocated_rate p, va_bandwidth_delta = i64 (allocated_rate p - in_use p f),
    va_bandwidth_needed = best_rate ?B (pv_max p), va_bitrates = ?B, va_target_layer = pv_allocated p,
    va_request_layer_spatial = vl_spatial (pv_allocated p), va_max_layer = pv_max p, va_distance_to_desired = distance\<rparr>"
  have c: "provisional_commit f = Some (update_allocation f al)"
    unfolding provisional_commit_def p(1) Option.bind.bind_lunit Let_def needed existing distance requested
    using p(3,4) nz by (auto simp: al_def deficient_def)
  obtain f' a where u: "update_allocation f al = (f', a)" by fastforce
  note e = update_allocation_effect [OF u]
  show ?thesis
    using c e(2,3) unfolding u by (intro exI [of _ f'] exI [of _ a]) (auto simp: e(1) al_def deficient_def vl_greater_than_iff not_le)
qed

lemma commit_deficiency_witness:
  "\<exists>f' a. provisional_commit (provisional_prepare [0, 1] example_rates (example_forwarder MimeVP8)) = Some (f', a) \<and>
    va_pause_reason a = PauseBandwidth \<and> va_is_deficient a"
proof -
  let ?p = "\<lparr>pv_muted = False, pv_pub_muted = False, pv_max_seen = VideoLayer 1 3, pv_available = [0, 1],
        pv_bitrates = example_rates, pv_max = VideoLayer 2 3, pv_current = invalid_layer, pv_allocated = invalid_layer\<rparr>"
  let ?f = "provisional_prepare [0, 1] example_rates (example_forwarder MimeVP8)"
  have p: "fw_provisional ?f = Some ?p" by (simp add: provisional_prepare_def new_base_def)
  have ok: "provisional_ok ?p" by (simp add: provisional_ok_def layer_ok_def)
  have "VideoLayer 0 0 \<in> offered example_rates (VideoLayer 2 3)" by (simp add: offered_def rate_def example_rates_def)
  then have ne: "offered (pv_bitrates ?p) (pv_max ?p) \<noteq> {}" by auto
  have m: "layer_ok (pv_max ?p)" by (simp add: layer_ok_def)
  have "0 < best_rate example_rates (VideoLayer 2 3)"
    using offered_extremes(3) [OF m ne] ne rate_bounds(1) [of example_rates "Max (offered example_rates (VideoLayer 2 3))"]
    by (simp add: best_rate_def)
  moreover have "invalid_layer \<le> VideoLayer 2 3" by (simp add: less_eq_video_layer_def vl_greater_than_def)
  moreover have "layer_ok (bs_target (fw_base ?f))" by (simp add: provisional_prepare_def new_base_def)
  ultimately show ?thesis
    using commit_deficiency [OF p ok _ _ _ _ ne] by (auto simp: allocated_rate_def)
qed

section \<open>The next higher layer is the next one in order\<close>

lemma first_such_append:
  "first_such P brs (xs @ ys) = (case first_such P brs xs of Some None \<Rightarrow> first_such P brs ys | r \<Rightarrow> r)"
  by (induction xs) (auto split: option.splits)

lemma first_done_regions: "first_done (first_such P brs) lss = first_such P brs (concat lss)"
  by (induction lss) (auto simp: first_such_append split: option.splits)

text \<open>What \<open>doAllocation\<close> does with the layer it has found.\<close>

definition boost_to ::
  "int \<Rightarrow> int list \<Rightarrow> bitrates \<Rightarrow> bool \<Rightarrow> int \<Rightarrow> int \<Rightarrow> ('mi, 'mb, 'd) forwarder \<Rightarrow> video_layer \<Rightarrow>
   (('mi, 'mb, 'd) forwarder \<times> video_allocation \<times> bool) option" where
  "boost_to capacity available brs allow needed already f l =
    (if \<not> overshoot_allowed allow f \<and> i64 (rate brs l - already) > capacity then Some (f, fw_last_allocation f, False)
     else map_option (\<lambda>distance. case update_allocation f \<lparr>va_pause_reason = PauseNone,
         va_is_deficient = \<not> (vl_greater_than l (bs_max (fw_base f)) \<or> rate brs l \<ge> needed),
         va_bandwidth_requested = rate brs l, va_bandwidth_delta = i64 (rate brs l - already),
         va_bandwidth_needed = needed, va_bitrates = brs, va_target_layer = l,
         va_request_layer_spatial = vl_spatial l, va_max_layer = bs_max (fw_base f), va_distance_to_desired = distance\<rparr>
         of (f', a) \<Rightarrow> (f', a, True))
       (get_distance_to_desired (fw_muted f) (fw_pub_muted f) (bs_max_seen (fw_base f)) available brs l (bs_max (fw_base f))))"

lemma do_allocation_eq:
  "do_allocation capacity available brs allow needed already f ls = (case first_such (\<lambda>r. r \<noteq> 0) brs ls of
     None \<Rightarrow> None | Some None \<Rightarrow> Some None
   | Some (Some l) \<Rightarrow> map_option Some (boost_to capacity available brs allow needed already f l))"
  by (auto simp: do_allocation_def boost_to_def Let_def split: option.splits prod.splits Option.bind_splits)

lemma first_done_allocation:
  "first_done (do_allocation capacity available brs allow needed already f) lss =
    (case first_such (\<lambda>r. r \<noteq> 0) brs (concat lss) of
       None \<Rightarrow> None | Some None \<Rightarrow> Some None
     | Some (Some l) \<Rightarrow> map_option Some (boost_to capacity available brs allow needed already f l))"
  by (induction lss) (auto simp: do_allocation_eq first_such_append split: option.splits)

text \<open>The layers that a boost may choose from.\<close>

definition higher_layers :: "bool \<Rightarrow> bitrates \<Rightarrow> ('mi, 'mb, 'd) forwarder \<Rightarrow> video_layer set" where
  "higher_layers allow brs f = {l. in_grid l \<and> bs_target (fw_base f) < l \<and> rate brs l \<noteq> 0 \<and>
    (vl_spatial l \<le> vl_spatial (bs_max (fw_base f)) \<and> vl_temporal l \<le> vl_temporal (bs_max (fw_base f)) \<or>
     overshoot_allowed allow f \<and> vl_is_valid (bs_max (fw_base f)) \<and> vl_spatial (bs_max (fw_base f)) < vl_spatial l)}"

definition target_settled :: "('mi, 'mb, 'd) forwarder \<Rightarrow> bool" where
  "target_settled f \<longleftrightarrow> (in_grid (bs_target (fw_base f)) \<or> bs_target (fw_base f) = invalid_layer) \<and>
    vl_spatial (bs_target (fw_base f)) \<le> vl_spatial (bs_max (fw_base f)) \<and> layer_ok (bs_max (fw_base f))"

lemma regions_sorted:
  assumes "target_settled f"
  shows "sorted_wrt (<) (concat (regions_above allow f))" "list_all in_grid (concat (regions_above allow f))"
    "higher_layers allow brs f = {l \<in> set (concat (regions_above allow f)). rate brs l \<noteq> 0}"
proof -
  let ?T = "bs_target (fw_base f)" and ?M = "bs_max (fw_base f)"
  have t: "in_grid ?T \<or> ?T = invalid_layer" "vl_spatial ?T \<le> vl_spatial ?M" "layer_ok ?M"
    using assms by (simp_all add: target_settled_def)
  have v: "vl_is_valid ?T \<longleftrightarrow> in_grid ?T" using t(1) by (auto simp: valid_in_grid)
  have b: "- 1 \<le> vl_spatial ?T" "vl_spatial ?T \<le> 2" "- 1 \<le> vl_temporal ?T" "vl_temporal ?T \<le> 3"
    "- 1 \<le> vl_spatial ?M" "vl_spatial ?M \<le> 2" "vl_temporal ?M \<le> 3" using t(1,3) by (auto simp: in_grid_def layer_ok_def)
  have i: "i32 (vl_temporal ?T + 1) = vl_temporal ?T + 1" "i32 (vl_spatial ?T + 1) = vl_spatial ?T + 1" "i32 (vl_spatial ?M + 1) = vl_spatial ?M + 1"
    using b by (simp_all add: i32_small)
  have lt: "x < y \<longleftrightarrow> vl_spatial x < vl_spatial y \<or> vl_spatial x = vl_spatial y \<and> vl_temporal x < vl_temporal y" for x y
    by (auto simp: less_video_layer_def vl_greater_than_def)
  define S where "S = set (concat (regions_above allow f))"
  have s: "l \<in> S \<longleftrightarrow>
     in_grid ?T \<and> vl_spatial l = vl_spatial ?T \<and> vl_temporal ?T < vl_temporal l \<and> vl_temporal l \<le> vl_temporal ?M \<or>
     vl_spatial ?T < vl_spatial l \<and> vl_spatial l \<le> vl_spatial ?M \<and> 0 \<le> vl_temporal l \<and> vl_temporal l \<le> vl_temporal ?M \<or>
     overshoot_allowed allow f \<and> vl_is_valid ?M \<and> vl_spatial ?M < vl_spatial l \<and> vl_spatial l \<le> 2 \<and> 0 \<le> vl_temporal l \<and> vl_temporal l \<le> 3" for l
    by (auto simp: S_def regions_above_def Let_def set_layers_up i v)
  show "list_all in_grid (concat (regions_above allow f))"
    unfolding list_all_iff S_def [symmetric] using b t(1) by (auto simp: s in_grid_def)
  show "higher_layers allow brs f = {l \<in> set (concat (regions_above allow f)). rate brs l \<noteq> 0}"
    unfolding S_def [symmetric] higher_layers_def using b t(1,2)
    by (auto simp: s in_grid_def lt)
  show "sorted_wrt (<) (concat (regions_above allow f))"
    using t(2) by (auto simp: regions_above_def Let_def sorted_wrt_append sorted_layers_up set_layers_up i lt)
qed

lemma search_higher:
  assumes "target_settled f" "\<And>l. l \<in> higher_layers allow brs f \<Longrightarrow> P (rate brs l)" "\<not> P 0"
  shows "first_such P brs (concat (regions_above allow f)) =
    Some (if higher_layers allow brs f = {} then None else Some (Min (higher_layers allow brs f)))"
proof -
  let ?ls = "concat (regions_above allow f)"
  note r = regions_sorted [OF assms(1)]
  have h: "l \<in> higher_layers allow brs f \<longleftrightarrow> l \<in> set ?ls \<and> P (rate brs l)" for l
    using assms(2,3) r(3) [of allow brs] by auto
  have fin: "finite (higher_layers allow brs f)" unfolding r(3) by simp
  have t: "first_such P brs ?ls \<noteq> None" using r(2) by (rule first_such_total)
  then consider (n) "first_such P brs ?ls = Some None" | (s) l where "first_such P brs ?ls = Some (Some l)" by (metis not_None_eq)
  then show ?thesis
  proof cases
    case n
    then have "higher_layers allow brs f = {}" using first_such_none [OF n] h by blast
    with n show ?thesis by simp
  next
    case s
    note g = first_such_least [OF s r(1)]
    have "Min (higher_layers allow brs f) = l" using g(2-4) by (intro Min_eqI [OF fin]) (auto simp: h)
    moreover have "higher_layers allow brs f \<noteq> {}" using g(2,3) h by blast
    ultimately show ?thesis using s by simp
  qed
qed

lemma higher_min:
  assumes "target_settled f" "higher_layers allow brs f \<noteq> {}"
  shows "Min (higher_layers allow brs f) \<in> higher_layers allow brs f"
  by (rule Min_in) (use assms regions_sorted(3) [OF assms(1), of allow brs] in auto)

definition target_rate :: "bitrates \<Rightarrow> ('mi, 'mb, 'd) forwarder \<Rightarrow> int" where
  "target_rate brs f = (if in_grid (bs_target (fw_base f)) then rate brs (bs_target (fw_base f)) else 0)"

lemma already_eq: "target_settled f \<Longrightarrow> already_allocated brs f = Some (target_rate brs f)"
  by (auto simp: already_allocated_def target_rate_def target_settled_def valid_in_grid in_grid_def)

text \<open>The bandwidth of a move up to a layer, and whether the channel has it.\<close>

definition boost_fits :: "int \<Rightarrow> bitrates \<Rightarrow> bool \<Rightarrow> ('mi, 'mb, 'd) forwarder \<Rightarrow> video_layer \<Rightarrow> bool" where
  "boost_fits capacity brs allow f l \<longleftrightarrow> overshoot_allowed allow f \<or> i64 (rate brs l - target_rate brs f) \<le> capacity"

lemma allocate_next_higher_eq:
  assumes f: "fw_kind f = KindVideo" "va_is_deficient (fw_last_allocation f)" "target_settled f"
  shows "allocate_next_higher capacity available brs allow f =
    (if higher_layers allow brs f = {} then Some (f, fw_last_allocation f, False)
     else boost_to capacity available brs allow
       (if fw_muted f \<or> fw_pub_muted f \<or> vl_spatial (bs_max_seen (fw_base f)) = -1 then 0 else best_rate brs (bs_max (fw_base f)))
       (target_rate brs f) f (Min (higher_layers allow brs f)))"
proof -
  have m: "layer_ok (bs_max (fw_base f))" using f(3) by (simp add: target_settled_def)
  have s: "first_such (\<lambda>r. r \<noteq> 0) brs (concat (regions_above allow f)) =
      Some (if higher_layers allow brs f = {} then None else Some (Min (higher_layers allow brs f)))"
    by (rule search_higher [OF f(3)]) (auto simp: higher_layers_def)
  show ?thesis
    unfolding allocate_next_higher_def optimal_bandwidth [OF m] already_eq [OF f(3)] Option.bind.bind_lunit first_done_allocation s
    using f(1,2) by (auto split: option.splits Option.bind_splits simp: map_option_case)
qed

text \<open>
  C22. The boost of a deficient stream takes the next layer in order: the least one above the
  target that is being sent and allowed. If there is none, or if it does not fit into the
  capacity and overshooting is not allowed, nothing changes. Otherwise it becomes the target
  (temporal layer 0 for H.264), its bandwidth is requested, and the stream stays deficient exactly
  if the layer is within the maximum and carries less than the optimal bandwidth.
\<close>

theorem next_higher_is_next:
  assumes "fw_kind f = KindVideo" "va_is_deficient (fw_last_allocation f)" "target_settled f"
    and "layers_ok (fw_base f)" "list_all (\<lambda>l. 0 \<le> l \<and> l \<le> 2) available"
  shows "let higher = higher_layers allow brs f; next_layer = Min higher in
    if higher = {} \<or> \<not> boost_fits capacity brs allow f next_layer
    then allocate_next_higher capacity available brs allow f = Some (f, fw_last_allocation f, False)
    else \<exists>f' a. allocate_next_higher capacity available brs allow f = Some (f', a, True) \<and> fw_last_allocation f' = a \<and>
      next_layer \<in> higher \<and> bs_target (fw_base f') = codec_layer (fw_mime f) next_layer \<and>
      va_target_layer a = codec_layer (fw_mime f) next_layer \<and>
      va_bandwidth_requested a = rate brs next_layer \<and> va_bandwidth_delta a = i64 (rate brs next_layer - target_rate brs f) \<and>
      (va_is_deficient a \<longleftrightarrow> next_layer \<le> bs_max (fw_base f) \<and> rate brs next_layer < va_bandwidth_needed a)"
proof (cases "higher_layers allow brs f = {}")
  case True
  then show ?thesis by (simp add: allocate_next_higher_eq [OF assms(1-3)])
next
  case False
  let ?n = "Min (higher_layers allow brs f)"
  define needed where "needed = (if fw_muted f \<or> fw_pub_muted f \<or> vl_spatial (bs_max_seen (fw_base f)) = -1 then 0 else best_rate brs (bs_max (fw_base f)))"
  have e: "allocate_next_higher capacity available brs allow f = boost_to capacity available brs allow needed (target_rate brs f) f ?n"
    using False by (simp add: allocate_next_higher_eq [OF assms(1-3)] needed_def)
  show ?thesis
  proof (cases "boost_fits capacity brs allow f ?n")
    case no: False
    then show ?thesis using e False by (auto simp: Let_def boost_to_def boost_fits_def)
  next
    case fits: True
    obtain d where d: "get_distance_to_desired (fw_muted f) (fw_pub_muted f) (bs_max_seen (fw_base f)) available brs ?n (bs_max (fw_base f)) = Some d"
      using distance_total assms(4,5) by (metis layers_ok_def)
    define al where "al = \<lparr>va_pause_reason = PauseNone,
      va_is_deficient = \<not> (vl_greater_than ?n (bs_max (fw_base f)) \<or> rate brs ?n \<ge> needed), va_bandwidth_requested = rate brs ?n,
      va_bandwidth_delta = i64 (rate brs ?n - target_rate brs f), va_bandwidth_needed = needed, va_bitrates = brs, va_target_layer = ?n,
      va_request_layer_spatial = vl_spatial ?n, va_max_layer = bs_max (fw_base f), va_distance_to_desired = d\<rparr>"
    obtain f' a where u: "update_allocation f al = (f', a)" by fastforce
    note eff = update_allocation_effect [OF u]
    have "\<not> (\<not> overshoot_allowed allow f \<and> i64 (rate brs ?n - target_rate brs f) > capacity)"
      using fits by (auto simp: boost_fits_def)
    then have "allocate_next_higher capacity available brs allow f = Some (f', a, True)"
      unfolding e boost_to_def d option.map al_def [symmetric] u by (simp only: if_False prod.case)
    moreover have "va_target_layer a = codec_layer (fw_mime f) ?n" "va_bandwidth_requested a = rate brs ?n"
      "va_bandwidth_delta a = i64 (rate brs ?n - target_rate brs f)" "va_bandwidth_needed a = needed"
      "va_is_deficient a \<longleftrightarrow> \<not> (vl_greater_than ?n (bs_max (fw_base f)) \<or> rate brs ?n \<ge> needed)"
      by (simp_all add: eff(1) al_def)
    ultimately show ?thesis
      using False fits eff(2,3) higher_min [OF assms(3) False]
      by (simp only: Let_def if_False simp_thms) (auto simp: vl_greater_than_iff not_less not_le)
  qed
qed

text \<open>A deficient forwarder that streams the lowest layer.\<close>

definition deficient_forwarder :: "(unit, unit, unit) forwarder" where
  "deficient_forwarder = (on_vls (\<lambda>b. b\<lparr>bs_target := VideoLayer 0 0, bs_current := VideoLayer 0 0\<rparr>) (example_forwarder MimeVP8))
     \<lparr>fw_last_allocation := video_allocation_default\<lparr>va_is_deficient := True, va_target_layer := VideoLayer 0 0\<rparr>\<rparr>"

lemma deficient_forwarder_facts [simp]:
  "fw_base deficient_forwarder = new_base\<lparr>bs_max := VideoLayer 2 3, bs_max_seen := VideoLayer 1 3,
     bs_target := VideoLayer 0 0, bs_current := VideoLayer 0 0\<rparr>"
  "fw_kind deficient_forwarder = KindVideo" "va_is_deficient (fw_last_allocation deficient_forwarder)" "fw_mime deficient_forwarder = MimeVP8"
  "target_settled deficient_forwarder" "layers_ok (new_base\<lparr>bs_max := VideoLayer 2 3, bs_max_seen := VideoLayer 1 3,
     bs_target := VideoLayer 0 0, bs_current := VideoLayer 0 0\<rparr>)" "fw_muted deficient_forwarder = False"
  "fw_pub_muted deficient_forwarder = False"
  by (simp_all add: deficient_forwarder_def target_settled_def layers_ok_def in_grid_def layer_ok_def on_vls_def)

lemma deficient_forwarder_next:
  "higher_layers allow example_rates deficient_forwarder \<noteq> {}"
  "Min (higher_layers allow example_rates deficient_forwarder) = VideoLayer 0 1"
proof -
  have m: "VideoLayer 0 1 \<in> higher_layers allow example_rates deficient_forwarder"
    by (simp add: higher_layers_def in_grid_def rate_def example_rates_def less_video_layer_def vl_greater_than_def)
  then show "higher_layers allow example_rates deficient_forwarder \<noteq> {}" by blast
  have fin: "finite (higher_layers allow example_rates deficient_forwarder)"
    by (simp add: regions_sorted(3))
  show "Min (higher_layers allow example_rates deficient_forwarder) = VideoLayer 0 1"
  proof (rule Min_eqI [OF fin _ m])
    fix l
    assume "l \<in> higher_layers allow example_rates deficient_forwarder"
    then have "0 \<le> vl_spatial l" "0 < vl_spatial l \<or> 0 < vl_temporal l"
      by (auto simp: higher_layers_def in_grid_def less_video_layer_def vl_greater_than_def)
    then show "VideoLayer 0 1 \<le> l" by (cases l) (auto simp: less_eq_video_layer_def vl_greater_than_def)
  qed
qed

lemma next_higher_is_next_witness:
  "\<exists>f' a. allocate_next_higher 60 [0, 1] example_rates False deficient_forwarder = Some (f', a, True) \<and>
    va_target_layer a = VideoLayer 0 1 \<and> va_bandwidth_delta a = 50"
proof -
  have r: "rate example_rates (VideoLayer 0 1) = 150" "target_rate example_rates deficient_forwarder = 100"
    by (simp_all add: target_rate_def in_grid_def rate_def example_rates_def)
  have i: "i64 50 = 50" by (rule i64_id) simp_all
  have "boost_fits 60 example_rates False deficient_forwarder (VideoLayer 0 1)" by (simp add: boost_fits_def r i)
  moreover have "codec_layer MimeVP8 (VideoLayer 0 1) = VideoLayer 0 1" by (simp add: codec_layer_def)
  ultimately show ?thesis
    using next_higher_is_next [of deficient_forwarder "[0, 1]" False example_rates 60] deficient_forwarder_next [of False] r i
    by (auto simp: Let_def)
qed

text \<open>
  The transition that is announced is the one that is made: if a boost to a higher layer is
  announced for a stream, no higher layer that is being sent takes less bandwidth than the
  target, and the channel has the announced bandwidth, then the boost makes exactly this
  transition with exactly this delta.
\<close>

lemma next_higher_is_announced:
  assumes "fw_kind f = KindVideo" "target_settled f" "layers_ok (fw_base f)" "list_all (\<lambda>l. 0 \<le> l \<and> l \<le> 2) available"
    and "get_next_higher_transition brs allow f = Some (tr, True)"
    and "\<forall>l\<in>higher_layers allow brs f. target_rate brs f \<le> rate brs l"
    and "vt_bandwidth_delta tr \<le> capacity"
  shows "\<exists>f' a. allocate_next_higher capacity available brs allow f = Some (f', a, True) \<and>
    va_target_layer a = codec_layer (fw_mime f) (vt_to tr) \<and> va_bandwidth_delta a = vt_bandwidth_delta tr \<and>
    vt_from tr = bs_target (fw_base f) \<and> vt_from tr < vt_to tr"
proof -
  let ?H = "higher_layers allow brs f"
  have pos: "first_such (\<lambda>r. \<not> (r = 0 \<or> r < target_rate brs f)) brs (concat (regions_above allow f)) =
      Some (if ?H = {} then None else Some (Min ?H))"
    by (rule search_higher [OF assms(2)]) (use assms(6) in \<open>auto simp: higher_layers_def\<close>)
  have def: "va_is_deficient (fw_last_allocation f)"
    using assms(5) by (auto simp: get_next_higher_transition_def Let_def split: if_splits)
  have g: "get_next_higher_transition brs allow f =
    (if vl_is_valid (bs_target (fw_base f)) \<and> bs_target (fw_base f) \<noteq> bs_current (fw_base f) \<or> ?H = {}
     then Some (transition_to (VideoLayer 0 0) (VideoLayer 0 0) 0, False)
     else Some (transition_to (bs_target (fw_base f)) (Min ?H) (i64 (rate brs (Min ?H) - target_rate brs f)), True))"
    unfolding get_next_higher_transition_def already_eq [OF assms(2)] Option.bind.bind_lunit first_done_regions pos
    using assms(1) def by (auto simp: Let_def)
  then have h: "?H \<noteq> {}" "tr = transition_to (bs_target (fw_base f)) (Min ?H) (i64 (rate brs (Min ?H) - target_rate brs f))"
    using assms(5) by (auto split: if_splits)
  have "boost_fits capacity brs allow f (Min ?H)" using assms(7) h(2) by (simp add: boost_fits_def transition_to_def)
  moreover have "bs_target (fw_base f) < Min ?H" using higher_min [OF assms(2) h(1)] by (simp add: higher_layers_def)
  ultimately show ?thesis
    using next_higher_is_next [OF assms(1) def assms(2-4), of allow brs capacity] h by (auto simp: Let_def transition_to_def)
qed

end
