(* ===== verification/Decision_Cache.thy ===== *)
theory Decision_Cache
  imports Go_Prelude
begin

text \<open>
  What was decided about recent video frames (\<open>SelectorDecisionCache\<close> in
  \<open>pkg/sfu/videolayerselector/selectordecisioncache.go\<close>): two bits per frame in a ring of masks.
  The callbacks that wait for a decision are the identities of frame chains; a call of a
  callback is an entry \<open>(chain, frame, decision)\<close> of a list of notices, in the order of the calls.
  A callback changes its chain only, so the caller can deliver the notices afterwards.
\<close>

datatype selector_decision = SdMissing | SdDropped | SdForwarded | SdUnknown

fun sd_code :: "selector_decision \<Rightarrow> u64" where
  "sd_code SdMissing = 0"
| "sd_code SdDropped = 1"
| "sd_code SdForwarded = 2"
| "sd_code SdUnknown = 3"

definition sd_of_code :: "u64 \<Rightarrow> selector_decision" where
  "sd_of_code x = (if x = 0 then SdMissing else if x = 1 then SdDropped else if x = 2 then SdForwarded else SdUnknown)"

type_synonym notice = "nat \<times> u64 \<times> selector_decision"

record decision_cache =
  dc_initialized :: bool
  dc_base :: u64
  dc_last :: u64
  dc_masks :: "u64 list"
  dc_num_entries :: u64
  dc_num_nack_entries :: u64
  dc_expect :: "(u64 \<times> nat list) list"

definition new_decision_cache :: "u64 \<Rightarrow> u64 \<Rightarrow> decision_cache" where
  "new_decision_cache max_num_elements num_nack_entries =
    (let n = (max_num_elements * 2 + 63) div 64 in
     \<lparr>dc_initialized = False, dc_base = 0, dc_last = 0, dc_masks = replicate (unat n) 0, dc_num_entries = n * 32,
      dc_num_nack_entries = num_nack_entries, dc_expect = []\<rparr>)"

section \<open>Operations\<close>

definition dc_pos :: "decision_cache \<Rightarrow> u64 \<Rightarrow> nat \<times> nat" where
  "dc_pos c e = (let offset = (e - dc_base c) mod dc_num_entries c in (unat (drop_bit 5 offset), unat (offset AND 0x1F) * 2))"

definition dc_get_entity :: "decision_cache \<Rightarrow> u64 \<Rightarrow> selector_decision option" where
  "dc_get_entity c e = (case dc_pos c e of (i, b) \<Rightarrow>
     map_option (\<lambda>m. sd_of_code (drop_bit b m AND 3)) (go_nth (dc_masks c) (int i)))"

definition put_mask :: "u64 \<Rightarrow> nat \<Rightarrow> selector_decision \<Rightarrow> u64" where
  "put_mask m b sd = (m AND NOT (push_bit b 3)) OR push_bit b (sd_code sd AND 3)"

text \<open>The callbacks that wait for a frame, and the map without them.\<close>

definition waiting :: "(u64 \<times> nat list) list \<Rightarrow> u64 \<Rightarrow> nat list" where
  "waiting m e = (case map_of m e of None \<Rightarrow> [] | Some fns \<Rightarrow> fns)"

definition not_waiting :: "(u64 \<times> nat list) list \<Rightarrow> u64 \<Rightarrow> (u64 \<times> nat list) list" where
  "not_waiting m e = filter (\<lambda>(k, _). k \<noteq> e) m"

definition dc_set_entity :: "u64 \<Rightarrow> selector_decision \<Rightarrow> decision_cache \<Rightarrow> (decision_cache \<times> notice list) option" where
  "dc_set_entity e sd c = (case dc_pos c e of (i, b) \<Rightarrow> do {
     m \<leftarrow> go_nth (dc_masks c) (int i);
     masks \<leftarrow> go_update (dc_masks c) (int i) (put_mask m b sd);
     let c1 = c\<lparr>dc_masks := masks\<rparr>;
     Some (if sd \<noteq> SdUnknown
       then (c1\<lparr>dc_expect := not_waiting (dc_expect c) e\<rparr>, map (\<lambda>f. (f, e, sd)) (waiting (dc_expect c) e))
       else (c1, []))
   })"

definition dc_set_if_unknown :: "u64 \<Rightarrow> selector_decision \<Rightarrow> decision_cache \<Rightarrow> (decision_cache \<times> notice list) option" where
  "dc_set_if_unknown e sd c = do {
     d \<leftarrow> dc_get_entity c e;
     if d = SdUnknown then dc_set_entity e sd c else Some (c, [])
   }"

text \<open>A loop over the frames from \<open>e\<close>, \<open>n\<close> of them.\<close>

fun dc_loop ::
  "(u64 \<Rightarrow> decision_cache \<Rightarrow> (decision_cache \<times> notice list) option) \<Rightarrow> nat \<Rightarrow> u64 \<Rightarrow> decision_cache \<Rightarrow> (decision_cache \<times> notice list) option" where
  "dc_loop f 0 e c = Some (c, [])"
| "dc_loop f (Suc n) e c = do {
     (c1, ns1) \<leftarrow> f e c;
     (c2, ns2) \<leftarrow> dc_loop f n (e + 1) c1;
     Some (c2, ns1 @ ns2)
   }"

text \<open>How far the frames that can no longer be retransmitted reach.\<close>

definition missing_limit :: "decision_cache \<Rightarrow> u64 \<Rightarrow> u64" where
  "missing_limit c e = (if e > dc_num_nack_entries c + dc_base c then e - dc_num_nack_entries c else dc_base c)"

text \<open>
  The callbacks for frames that have left the ring are told that the frame is missing.  Go goes
  through the map in an unspecified order; here it is the order of the list.
\<close>

definition dc_expire :: "decision_cache \<Rightarrow> decision_cache \<times> notice list" where
  "dc_expire c =
    (c\<lparr>dc_expect := filter (\<lambda>(e, _). \<not> e + dc_num_entries c < dc_last c) (dc_expect c)\<rparr>,
     concat (map (\<lambda>(e, fns). if e + dc_num_entries c < dc_last c then map (\<lambda>f. (f, e, SdMissing)) fns else []) (dc_expect c)))"

definition dc_add_entity :: "u64 \<Rightarrow> selector_decision \<Rightarrow> decision_cache \<Rightarrow> (decision_cache \<times> notice list) option" where
  "dc_add_entity e sd c =
    (if \<not> dc_initialized c
     then dc_set_entity e sd (c\<lparr>dc_initialized := True, dc_base := e, dc_last := e\<rparr>)
     else if e \<le> dc_base c then Some (c, [])
     else if e \<le> dc_last c then dc_set_entity e sd c
     else do {
       (c1, ns1) \<leftarrow> dc_loop (\<lambda>k. dc_set_entity k SdUnknown) (unat (e - (dc_last c + 1))) (dc_last c + 1) c;
       let start = missing_limit c (dc_last c);
       let stop = missing_limit c e;
       (c2, ns2) \<leftarrow> (if stop > start then dc_loop (\<lambda>k. dc_set_if_unknown k SdMissing) (unat (stop - start)) start c1 else Some (c1, []));
       (c3, ns3) \<leftarrow> dc_set_entity e sd c2;
       let (c4, ns4) = dc_expire (c3\<lparr>dc_last := e\<rparr>);
       Some (c4, ns1 @ ns2 @ ns3 @ ns4)
     })"

text \<open>The decision, and whether there is an error: the frame is too old.\<close>

definition dc_get_decision :: "decision_cache \<Rightarrow> u64 \<Rightarrow> (selector_decision \<times> bool) option" where
  "dc_get_decision c e =
    (if \<not> dc_initialized c \<or> e < dc_base c then Some (SdMissing, False)
     else if e > dc_last c then Some (SdUnknown, False)
     else if dc_last c - e \<ge> dc_num_entries c then Some (SdMissing, True)
     else map_option (\<lambda>d. (d, False)) (dc_get_entity c e))"

definition dc_expect_decision :: "u64 \<Rightarrow> nat \<Rightarrow> decision_cache \<Rightarrow> decision_cache \<times> bool" where
  "dc_expect_decision e f c =
    (if \<not> dc_initialized c \<or> e < dc_base c then (c, False)
     else if e < dc_last c \<and> dc_last c - e \<ge> dc_num_entries c then (c, False)
     else (c\<lparr>dc_expect := not_waiting (dc_expect c) e @ [(e, waiting (dc_expect c) e @ [f])]\<rparr>, True))"

section \<open>The ring\<close>

text \<open>The number of entries fits the masks and no frame number comes near the end of \<open>uint64\<close>.\<close>

definition dc_ok :: "decision_cache \<Rightarrow> bool" where
  "dc_ok c \<longleftrightarrow> dc_masks c \<noteq> [] \<and> length (dc_masks c) < 2 ^ 16 \<and> uint (dc_num_entries c) = 32 * int (length (dc_masks c)) \<and>
    dc_num_nack_entries c \<le> dc_num_entries c \<and> (dc_initialized c \<longrightarrow> dc_base c \<le> dc_last c \<and> dc_last c < sn_limit)"

definition slot_no :: "decision_cache \<Rightarrow> u64 \<Rightarrow> u64" where
  "slot_no c e = (e - dc_base c) mod dc_num_entries c"

text \<open>The entry of a frame, without the check of the index.\<close>

definition entry :: "decision_cache \<Rightarrow> u64 \<Rightarrow> selector_decision" where
  "entry c e = (case dc_pos c e of (i, b) \<Rightarrow> sd_of_code (drop_bit b (dc_masks c ! i) AND 3))"

lemma sd_code_inverse [simp]: "sd_of_code (sd_code sd AND 3) = sd"
  by (cases sd) (simp_all add: sd_of_code_def)

lemma mask_bits:
  fixes m s :: u64
  assumes "even a" "even b" "a < 64" "b < 64"
  shows "drop_bit a ((m AND NOT (push_bit b 3)) OR push_bit b (s AND 3)) AND 3 =
    (if a = b then s AND 3 else drop_bit a m AND 3)"
proof -
  define t :: u64 where "t = 3"
  have "t = mask 2" by (simp add: t_def mask_eq_exp_minus_1)
  then have three: "bit t k \<longleftrightarrow> k < 2" for k by (auto simp: bit_mask_iff)
  have "drop_bit a ((m AND NOT (push_bit b t)) OR push_bit b (s AND t)) AND t = (if a = b then s AND t else drop_bit a m AND t)"
  proof (rule bit_word_eqI)
    fix n :: nat
    assume n: "n < LENGTH(64)"
    show "bit (drop_bit a ((m AND NOT (push_bit b t)) OR push_bit b (s AND t)) AND t) n =
      bit (if a = b then s AND t else drop_bit a m AND t) n"
    proof (cases "n < 2")
      case True
      have e: "2 \<le> a + n - b" if "a \<noteq> b" "b \<le> a + n" using that assms(1,2) True by presburger
      have f: "a + n < 64" using True assms(1,3) by presburger
      show ?thesis using True assms n f e
        by (auto simp: bit_and_iff bit_or_iff bit_not_iff bit_push_bit_iff bit_drop_bit_eq three)
    next
      case False
      then show ?thesis by (auto simp: bit_and_iff three)
    qed
  qed
  then show ?thesis by (simp only: t_def)
qed

lemma slot_less: "dc_ok c \<Longrightarrow> uint (slot_no c e) < 32 * int (length (dc_masks c))"
  unfolding slot_no_def dc_ok_def uint_mod
  by (metis length_greater_0_conv mult_pos_pos of_nat_0_less_iff pos_mod_bound zero_less_numeral)

lemma dc_pos_slot: "dc_pos c e = (nat (uint (slot_no c e) div 32), nat (uint (slot_no c e) mod 32) * 2)"
proof -
  have "x AND 0x1F = take_bit 5 x" for x :: u64 by (simp only: take_bit_eq_mask mask_eq_exp_minus_1) simp
  then have low: "uint (x AND 0x1F) = uint x mod 32" for x :: u64 by (simp add: unsigned_take_bit_eq take_bit_eq_mod uint_mod)
  have high: "uint (drop_bit 5 x) = uint x div 32" for x :: u64 by (simp add: drop_bit_eq_div uint_div)
  show ?thesis unfolding dc_pos_def Let_def slot_no_def [symmetric] unat_eq_nat_uint low high by (rule refl)
qed

lemma pos_bounds:
  assumes "dc_ok c" "dc_pos c e = (i, b)"
  shows "i < length (dc_masks c)" "even b" "b < 64"
proof -
  have "uint (slot_no c e) div 32 < int (length (dc_masks c))" using slot_less [OF assms(1), of e] by linarith
  moreover have "0 \<le> uint (slot_no c e) div 32" by (simp add: pos_imp_zdiv_nonneg_iff)
  ultimately have "nat (uint (slot_no c e) div 32) < length (dc_masks c)" by (simp only: nat_less_iff)
  then show "i < length (dc_masks c)" using assms(2) by (simp add: dc_pos_slot)
  have "nat (uint (slot_no c e) mod 32) < 32" by (simp add: nat_less_iff)
  then show "even b" "b < 64" using assms(2) by (auto simp: dc_pos_slot)
qed

lemma entry_pos_inj: "dc_pos c e = dc_pos c k \<longleftrightarrow> slot_no c e = slot_no c k"
proof
  assume "dc_pos c e = dc_pos c k"
  then have "uint (slot_no c e) div 32 = uint (slot_no c k) div 32" "uint (slot_no c e) mod 32 = uint (slot_no c k) mod 32"
    by (auto simp: dc_pos_slot nat_eq_iff2 pos_imp_zdiv_nonneg_iff)
  then have "uint (slot_no c e) = uint (slot_no c k)" by (metis mult_div_mod_eq)
  then show "slot_no c e = slot_no c k" by (simp add: word_uint_eq_iff)
qed (simp add: dc_pos_slot)

lemma get_entity_entry: "dc_ok c \<Longrightarrow> dc_get_entity c e = Some (entry c e)"
  using pos_bounds(1) [of c e] by (auto simp: dc_get_entity_def entry_def split: prod.split)

text \<open>Writing an entry changes the entries of its slot and tells those who wait for it.\<close>

lemma set_entity_effect:
  assumes "dc_ok c"
  obtains c' where "dc_set_entity e sd c = Some (c', if sd \<noteq> SdUnknown then map (\<lambda>f. (f, e, sd)) (waiting (dc_expect c) e) else [])"
    "dc_initialized c' = dc_initialized c" "dc_base c' = dc_base c" "dc_last c' = dc_last c"
    "dc_num_entries c' = dc_num_entries c" "dc_num_nack_entries c' = dc_num_nack_entries c" "dc_ok c'"
    "\<And>k. entry c' k = (if slot_no c k = slot_no c e then sd else entry c k)"
    "dc_expect c' = (if sd \<noteq> SdUnknown then not_waiting (dc_expect c) e else dc_expect c)"
proof -
  obtain i b where p: "dc_pos c e = (i, b)" by fastforce
  note pb = pos_bounds [OF assms p]
  define c' where "c' = (if sd \<noteq> SdUnknown
    then c\<lparr>dc_masks := (dc_masks c)[i := put_mask (dc_masks c ! i) b sd], dc_expect := not_waiting (dc_expect c) e\<rparr>
    else c\<lparr>dc_masks := (dc_masks c)[i := put_mask (dc_masks c ! i) b sd]\<rparr>)"
  have eq: "dc_set_entity e sd c = Some (c', if sd \<noteq> SdUnknown then map (\<lambda>f. (f, e, sd)) (waiting (dc_expect c) e) else [])"
    using pb(1) by (simp add: dc_set_entity_def p Let_def c'_def)
  have fields: "dc_initialized c' = dc_initialized c" "dc_base c' = dc_base c" "dc_last c' = dc_last c"
    "dc_num_entries c' = dc_num_entries c" "dc_num_nack_entries c' = dc_num_nack_entries c"
    "dc_expect c' = (if sd \<noteq> SdUnknown then not_waiting (dc_expect c) e else dc_expect c)"
    "dc_masks c' = (dc_masks c)[i := put_mask (dc_masks c ! i) b sd]"
    by (simp_all add: c'_def)
  have ok: "dc_ok c'" using assms by (auto simp: dc_ok_def fields)
  have en: "entry c' k = (if slot_no c k = slot_no c e then sd else entry c k)" for k
  proof -
    obtain j a where q: "dc_pos c k = (j, a)" by fastforce
    have q': "dc_pos c' k = (j, a)" using q by (simp add: dc_pos_def fields)
    note qb = pos_bounds [OF assms q]
    have same: "slot_no c k = slot_no c e \<longleftrightarrow> j = i \<and> a = b" using entry_pos_inj [of c k e] p q by auto
    show ?thesis
    proof (cases "j = i")
      case True
      have "drop_bit a (put_mask (dc_masks c ! i) b sd) AND 3 = (if a = b then sd_code sd AND 3 else drop_bit a (dc_masks c ! i) AND 3)"
        unfolding put_mask_def by (rule mask_bits) (use pb qb in auto)
      with True show ?thesis using pb(1) q q' same by (auto simp: entry_def fields)
    next
      case False
      with same show ?thesis using q q' by (simp add: entry_def fields)
    qed
  qed
  show thesis by (rule that [OF eq fields(1-5) ok en fields(6)])
qed

text \<open>Frames of a window as long as the ring have slots of their own.\<close>

lemma slot_window:
  assumes "dc_ok c" "dc_base c \<le> e" "dc_base c \<le> k"
    and "uint e - uint k < uint (dc_num_entries c)" "uint k - uint e < uint (dc_num_entries c)"
  shows "slot_no c e = slot_no c k \<longleftrightarrow> e = k"
proof
  assume s: "slot_no c e = slot_no c k"
  have d: "uint (e - dc_base c) = uint e - uint (dc_base c)" "uint (k - dc_base c) = uint k - uint (dc_base c)"
    using assms(2,3) by (simp_all add: uint_sub_if' word_le_def)
  have "(uint e - uint (dc_base c)) mod uint (dc_num_entries c) = (uint k - uint (dc_base c)) mod uint (dc_num_entries c)"
    using arg_cong [OF s, of uint] by (simp add: slot_no_def uint_mod d)
  then have dvd: "uint (dc_num_entries c) dvd uint e - uint k" by (simp add: mod_eq_dvd_iff)
  have "uint e = uint k"
  proof (rule ccontr)
    assume "uint e \<noteq> uint k"
    then have "\<bar>uint (dc_num_entries c)\<bar> \<le> \<bar>uint e - uint k\<bar>" using dvd by (intro dvd_imp_le_int) simp_all
    then show False using assms(4,5) by linarith
  qed
  then show "e = k" by (simp add: word_uint_eq_iff)
qed simp

section \<open>The loops\<close>

text \<open>What all writes keep.\<close>

definition same_ring :: "decision_cache \<Rightarrow> decision_cache \<Rightarrow> bool" where
  "same_ring c c' \<longleftrightarrow> dc_initialized c' = dc_initialized c \<and> dc_base c' = dc_base c \<and> dc_last c' = dc_last c \<and>
    dc_num_entries c' = dc_num_entries c \<and> dc_num_nack_entries c' = dc_num_nack_entries c \<and> dc_ok c'"

lemma same_ring_trans: "same_ring a b \<Longrightarrow> same_ring b c \<Longrightarrow> same_ring a c"
  by (simp add: same_ring_def)

lemma same_ring_refl: "dc_ok c \<Longrightarrow> same_ring c c"
  by (simp add: same_ring_def)

lemma same_slots: "same_ring c c' \<Longrightarrow> slot_no c' e = slot_no c e"
  by (simp add: same_ring_def slot_no_def)

lemma set_entity_same:
  assumes "dc_ok c"
  obtains c' ns where "dc_set_entity e sd c = Some (c', ns)" "same_ring c c'"
    "\<And>k. entry c' k = (if slot_no c k = slot_no c e then sd else entry c k)"
  using set_entity_effect [OF assms, of e sd] assms unfolding same_ring_def by metis

lemma set_if_unknown_same:
  assumes "dc_ok c"
  obtains c' ns where "dc_set_if_unknown e sd c = Some (c', ns)" "same_ring c c'"
    "\<And>k. entry c' k = (if slot_no c k = slot_no c e \<and> entry c e = SdUnknown then sd else entry c k)"
proof (cases "entry c e = SdUnknown")
  case True
  show ?thesis by (rule set_entity_same [OF assms, of e sd]) (use True that assms in \<open>auto simp: dc_set_if_unknown_def get_entity_entry\<close>)
next
  case False
  then show ?thesis using that [of c "[]"] assms by (simp add: dc_set_if_unknown_def get_entity_entry same_ring_refl)
qed

lemma entry_slot: "slot_no c k = slot_no c e \<Longrightarrow> entry c k = entry c e"
  by (simp add: entry_def entry_pos_inj [THEN iffD2, of c k e])

text \<open>The frames a loop visits.\<close>

fun frames_from :: "nat \<Rightarrow> u64 \<Rightarrow> u64 list" where
  "frames_from 0 e = []"
| "frames_from (Suc n) e = e # frames_from n (e + 1)"

lemma set_frames_from: "uint e + int n < 2 ^ 64 \<Longrightarrow> set (frames_from n e) = {m. uint e \<le> uint m \<and> uint m < uint e + int n}"
proof (induction n arbitrary: e)
  case (Suc n)
  have u: "uint (e + 1) = uint e + 1" using Suc.prems by (simp add: uint_plus_if')
  have "set (frames_from n (e + 1)) = {m. uint e + 1 \<le> uint m \<and> uint m < uint e + 1 + int n}"
    using Suc.IH [of "e + 1"] Suc.prems u by simp
  then have "set (frames_from (Suc n) e) = insert e {m. uint e + 1 \<le> uint m \<and> uint m < uint e + 1 + int n}" by simp
  also have "\<dots> = {m. uint e \<le> uint m \<and> uint m < uint e + int (Suc n)}" by (auto simp: word_uint_eq_iff)
  finally show ?case .
qed simp

definition hits :: "decision_cache \<Rightarrow> u64 \<Rightarrow> u64 list \<Rightarrow> bool" where
  "hits c k es \<longleftrightarrow> slot_no c k \<in> slot_no c ` set es"

lemma hits_simps [simp]: "\<not> hits c k []" "hits c k (e # es) \<longleftrightarrow> slot_no c k = slot_no c e \<or> hits c k es"
  by (simp_all add: hits_def)

lemma same_hits: "same_ring c c' \<Longrightarrow> hits c' k es = hits c k es"
  by (simp add: hits_def same_slots cong: image_cong)

lemma loop_unknown:
  "dc_ok c \<Longrightarrow> \<exists>c' ns. dc_loop (\<lambda>k. dc_set_entity k SdUnknown) n e c = Some (c', ns) \<and> same_ring c c' \<and>
    (\<forall>k. entry c' k = (if hits c k (frames_from n e) then SdUnknown else entry c k))"
proof (induction n arbitrary: c e)
  case 0
  then show ?case by (simp add: same_ring_refl)
next
  case (Suc n)
  obtain c1 ns1 where c1: "dc_set_entity e SdUnknown c = Some (c1, ns1)" "same_ring c c1"
    "\<And>k. entry c1 k = (if slot_no c k = slot_no c e then SdUnknown else entry c k)"
    using set_entity_same [OF Suc.prems, where e = e and sd = SdUnknown] by blast
  have "dc_ok c1" using c1(2) by (simp add: same_ring_def)
  from Suc.IH [OF this, of "e + 1"] obtain c2 ns2 where c2: "dc_loop (\<lambda>k. dc_set_entity k SdUnknown) n (e + 1) c1 = Some (c2, ns2)" "same_ring c1 c2"
    "\<And>k. entry c2 k = (if hits c1 k (frames_from n (e + 1)) then SdUnknown else entry c1 k)" by blast
  have "dc_loop (\<lambda>k. dc_set_entity k SdUnknown) (Suc n) e c = Some (c2, ns1 @ ns2)" using c1(1) c2(1) by simp
  moreover have "same_ring c c2" by (rule same_ring_trans [OF c1(2) c2(2)])
  moreover have "entry c2 k = (if hits c k (frames_from (Suc n) e) then SdUnknown else entry c k)" for k
    by (simp add: c2(3) c1(3) same_hits [OF c1(2)])
  ultimately show ?case by blast
qed

lemma loop_missing:
  "dc_ok c \<Longrightarrow> \<exists>c' ns. dc_loop (\<lambda>k. dc_set_if_unknown k SdMissing) n e c = Some (c', ns) \<and> same_ring c c' \<and>
    (\<forall>k. entry c' k = (if hits c k (frames_from n e) \<and> entry c k = SdUnknown then SdMissing else entry c k))"
proof (induction n arbitrary: c e)
  case 0
  then show ?case by (simp add: same_ring_refl)
next
  case (Suc n)
  obtain c1 ns1 where c1: "dc_set_if_unknown e SdMissing c = Some (c1, ns1)" "same_ring c c1"
    "\<And>k. entry c1 k = (if slot_no c k = slot_no c e \<and> entry c e = SdUnknown then SdMissing else entry c k)"
    using set_if_unknown_same [OF Suc.prems, where e = e and sd = SdMissing] by blast
  have "dc_ok c1" using c1(2) by (simp add: same_ring_def)
  from Suc.IH [OF this, of "e + 1"] obtain c2 ns2 where c2: "dc_loop (\<lambda>k. dc_set_if_unknown k SdMissing) n (e + 1) c1 = Some (c2, ns2)" "same_ring c1 c2"
    "\<And>k. entry c2 k = (if hits c1 k (frames_from n (e + 1)) \<and> entry c1 k = SdUnknown then SdMissing else entry c1 k)" by blast
  have "dc_loop (\<lambda>k. dc_set_if_unknown k SdMissing) (Suc n) e c = Some (c2, ns1 @ ns2)" using c1(1) c2(1) by simp
  moreover have "same_ring c c2" by (rule same_ring_trans [OF c1(2) c2(2)])
  moreover have "entry c2 k = (if hits c k (frames_from (Suc n) e) \<and> entry c k = SdUnknown then SdMissing else entry c k)" for k
    using entry_slot [of c k e] by (auto simp: c2(3) c1(3) same_hits [OF c1(2)])
  ultimately show ?case by blast
qed

section \<open>The cache remembers\<close>

lemma missing_limit_uint:
  assumes "dc_ok c" "dc_base c \<le> e" "e < sn_limit" "dc_base c < sn_limit"
  shows "uint (missing_limit c e) = max (uint (dc_base c)) (uint e - uint (dc_num_nack_entries c))"
proof -
  have n: "uint (dc_num_nack_entries c) < 2 ^ 21"
    using assms(1) by (auto simp: dc_ok_def word_le_def)
  have b: "uint (dc_base c) < 2 ^ 62" "uint e < 2 ^ 62" using assms(3,4) by (simp_all add: word_less_def)
  have s: "uint (dc_num_nack_entries c + dc_base c) = uint (dc_num_nack_entries c) + uint (dc_base c)"
    using n b by (simp add: uint_plus_if')
  show ?thesis
  proof (cases "e > dc_num_nack_entries c + dc_base c")
    case True
    then have g: "uint (dc_num_nack_entries c) + uint (dc_base c) < uint e" by (simp add: word_less_def s)
    moreover have "uint (e - dc_num_nack_entries c) = uint e - uint (dc_num_nack_entries c)"
    proof -
      have "uint (dc_num_nack_entries c) \<le> uint e" using g uint_ge_0 [of "dc_base c"] by linarith
      then show ?thesis by (simp add: uint_sub_if')
    qed
    ultimately show ?thesis using True by (simp add: missing_limit_def)
  next
    case False
    then have "uint e \<le> uint (dc_num_nack_entries c) + uint (dc_base c)" by (simp add: word_less_def s)
    with False show ?thesis by (simp add: missing_limit_def)
  qed
qed

lemma decision_in_window:
  assumes "dc_ok c" "dc_initialized c" "dc_base c \<le> k" "k \<le> dc_last c" "uint (dc_last c) - uint k < uint (dc_num_entries c)"
  shows "dc_get_decision c k = Some (entry c k, False)"
proof -
  have "uint (dc_last c - k) = uint (dc_last c) - uint k" using assms(4) by (simp add: uint_sub_if' word_le_def)
  then have "\<not> dc_last c - k \<ge> dc_num_entries c" using assms(5) by (simp add: word_le_def)
  moreover have "\<not> k < dc_base c" "\<not> dc_last c < k" using assms(3,4) by auto
  ultimately show ?thesis using assms(1,2) by (simp add: dc_get_decision_def get_entity_entry)
qed

text \<open>What is known of a frame after a newer one was added: gaps are unknown, and missing once too old.\<close>

definition aged :: "decision_cache \<Rightarrow> u64 \<Rightarrow> u64 \<Rightarrow> selector_decision" where
  "aged c e k = (let d = (if dc_last c < k then SdUnknown else entry c k) in
     if missing_limit c (dc_last c) \<le> k \<and> k < missing_limit c e \<and> d = SdUnknown then SdMissing else d)"

lemma add_newer:
  assumes ok: "dc_ok c" "dc_initialized c" and e: "dc_last c < e" "e < sn_limit"
    and jump: "uint e - uint (dc_last c) + uint (dc_num_nack_entries c) \<le> uint (dc_num_entries c)"
  shows "\<exists>c' ns. dc_add_entity e sd c = Some (c', ns) \<and> dc_ok c' \<and> dc_initialized c' \<and> dc_last c' = e \<and> dc_base c' = dc_base c \<and>
    dc_num_entries c' = dc_num_entries c \<and>
    (\<forall>k. dc_base c \<le> k \<and> k \<le> e \<and> uint e - uint k < uint (dc_num_entries c) \<longrightarrow> entry c' k = (if k = e then sd else aged c e k))"
proof -
  let ?N = "uint (dc_num_entries c)"
  define nk where "nk = uint (dc_num_nack_entries c)"
  have nk: "0 \<le> nk" "uint e - uint (dc_last c) + nk \<le> uint (dc_num_entries c)" using jump by (simp_all add: nk_def)
  define n where "n = unat (e - (dc_last c + 1))"
  let ?start = "missing_limit c (dc_last c)" and ?stop = "missing_limit c e"
  have bl: "dc_base c \<le> dc_last c" "dc_last c < sn_limit" using ok by (simp_all add: dc_ok_def)
  then have base: "dc_base c < sn_limit" "dc_base c \<le> e" "\<not> e \<le> dc_base c" "\<not> e \<le> dc_last c" using e by auto
  have le: "uint (dc_base c) \<le> uint (dc_last c)" "uint (dc_last c) < uint e" "uint e < 2 ^ 62"
    using bl e by (simp_all add: word_le_def word_less_def)
  have l1: "uint (dc_last c + 1) = uint (dc_last c) + 1" using below_limit [OF bl(2)] .
  have n_int: "int n = uint e - uint (dc_last c) - 1"
  proof -
    have "uint (e - (dc_last c + 1)) = uint e - uint (dc_last c + 1)" using le l1 by (simp add: uint_sub_if')
    then show ?thesis using l1 by (simp add: n_def)
  qed
  have sum: "uint (dc_last c + 1) + int n = uint e" unfolding n_int l1 by simp
  then have "uint (dc_last c + 1) + int n < 2 ^ 64" using le(3) by simp
  from set_frames_from [OF this] have "set (frames_from n (dc_last c + 1)) = {m. uint (dc_last c) + 1 \<le> uint m \<and> uint m < uint e}"
    unfolding sum unfolding l1 .
  moreover have "{m. uint (dc_last c) + 1 \<le> uint m \<and> uint m < uint e} = {m. dc_last c < m \<and> m < e}" by (auto simp: word_less_def)
  ultimately have gap: "set (frames_from n (dc_last c + 1)) = {m. dc_last c < m \<and> m < e}" by (simp only:)
  obtain c1 ns1 where c1: "dc_loop (\<lambda>k. dc_set_entity k SdUnknown) n (dc_last c + 1) c = Some (c1, ns1)" "same_ring c c1"
    "\<And>k. entry c1 k = (if hits c k (frames_from n (dc_last c + 1)) then SdUnknown else entry c k)"
    using loop_unknown [OF ok(1)] by blast
  have ok1: "dc_ok c1" using c1(2) by (simp add: same_ring_def)
  define es where "es = (if ?stop > ?start then frames_from (unat (?stop - ?start)) ?start else [])"
  have es: "set es = {m. ?start \<le> m \<and> m < ?stop}"
  proof (cases "?stop > ?start")
    case True
    then have "uint (?stop - ?start) = uint ?stop - uint ?start" by (simp add: uint_sub_if' word_less_def)
    then have "uint ?start + int (unat (?stop - ?start)) = uint ?stop" by simp
    moreover have "uint ?stop < 2 ^ 64" using uint_lt2p [of ?stop] by simp
    ultimately show ?thesis using True set_frames_from [of ?start "unat (?stop - ?start)"]
      by (simp add: es_def word_le_def word_less_def)
  qed (auto simp: es_def)
  obtain c2 ns2 where c2: "(if ?stop > ?start then dc_loop (\<lambda>k. dc_set_if_unknown k SdMissing) (unat (?stop - ?start)) ?start c1 else Some (c1, [])) = Some (c2, ns2)"
    "same_ring c1 c2" "\<And>k. entry c2 k = (if hits c1 k es \<and> entry c1 k = SdUnknown then SdMissing else entry c1 k)"
  proof (cases "?stop > ?start")
    case True
    then show ?thesis using loop_missing [OF ok1, of "unat (?stop - ?start)" ?start] that by (auto simp: es_def)
  next
    case False
    then show ?thesis using that [of c1 "[]"] ok1 by (simp add: es_def same_ring_refl)
  qed
  have ok2: "dc_ok c2" using c2(2) by (simp add: same_ring_def)
  obtain c3 ns3 where c3: "dc_set_entity e sd c2 = Some (c3, ns3)" "same_ring c2 c3"
    "\<And>k. entry c3 k = (if slot_no c2 k = slot_no c2 e then sd else entry c2 k)"
    using set_entity_same [OF ok2, where e = e and sd = sd] by blast
  have r: "same_ring c c3" using same_ring_trans [OF same_ring_trans [OF c1(2) c2(2)] c3(2)] .
  obtain c4 ns4 where c4: "dc_expire (c3\<lparr>dc_last := e\<rparr>) = (c4, ns4)" by fastforce
  have f4: "dc_masks c4 = dc_masks c3" "dc_base c4 = dc_base c3" "dc_num_entries c4 = dc_num_entries c3" "dc_last c4 = e"
    "dc_initialized c4 = dc_initialized c3" "dc_num_nack_entries c4 = dc_num_nack_entries c3"
    using c4 by (auto simp: dc_expire_def)
  have en4: "entry c4 k = entry c3 k" for k by (simp add: entry_def dc_pos_def f4)
  have "dc_ok c4" using r f4 e(2) base(2) by (auto simp: same_ring_def dc_ok_def)
  moreover have "dc_add_entity e sd c = Some (c4, ns1 @ ns2 @ ns3 @ ns4)"
    using ok base c1(1) c2(1) c3(1) c4 by (simp add: dc_add_entity_def Let_def n_def)
  moreover have "entry c4 k = (if k = e then sd else aged c e k)"
    if k: "dc_base c \<le> k" "k \<le> e" "uint e - uint k < ?N" for k
  proof -
    have slot: "slot_no c k = slot_no c m \<longleftrightarrow> k = m"
      if "dc_base c \<le> m" "uint k - uint m < ?N" "uint m - uint k < ?N" for m
      using that k(1) by (intro slot_window [OF ok(1)]) simp_all
    have ke: "slot_no c2 k = slot_no c2 e \<longleftrightarrow> k = e"
      using slot [of e] k base(2) same_slots [OF same_ring_trans [OF c1(2) c2(2)]] by (auto simp: word_le_def)
    have h1: "hits c k (frames_from n (dc_last c + 1)) \<longleftrightarrow> dc_last c < k" if "k \<noteq> e"
    proof -
      have "slot_no c k = slot_no c m \<longleftrightarrow> k = m" if "dc_last c < m" "m < e" for m
      proof (rule slot)
        show "dc_base c \<le> m" using bl(1) that by (auto simp: word_le_def word_less_def)
        show "uint k - uint m < ?N" "uint m - uint k < ?N"
          using that k nk le by (auto simp: word_le_def word_less_def)
      qed
      moreover have "k < e" using k(2) \<open>k \<noteq> e\<close> by simp
      ultimately show ?thesis unfolding hits_def gap by auto
    qed
    have lim: "uint ?stop = max (uint (dc_base c)) (uint e - nk)"
      "uint ?start = max (uint (dc_base c)) (uint (dc_last c) - nk)"
      using missing_limit_uint [OF ok(1) _ _ base(1)] base(2) e(2) bl by (simp_all add: nk_def)
    have h2: "hits c1 k es \<longleftrightarrow> ?start \<le> k \<and> k < ?stop" if "k \<noteq> e"
    proof -
      have "uint k < uint e" using k(2) \<open>k \<noteq> e\<close> by (auto simp: word_le_def word_uint_eq_iff)
      then have "slot_no c k = slot_no c m \<longleftrightarrow> k = m" if "?start \<le> m" "m < ?stop" for m
        using that k lim nk le
        by (intro slot) (auto simp: word_le_def word_less_def)
      then show ?thesis unfolding same_hits [OF c1(2)] unfolding hits_def es by auto
    qed
    show ?thesis
    proof (cases "k = e")
      case True
      then show ?thesis by (simp add: en4 c3(3) ke)
    next
      case False
      then show ?thesis using ke h1 h2 by (simp add: en4 c3(3) c2(3) c1(3) aged_def Let_def)
    qed
  qed
  ultimately show ?thesis using r f4 ok(2)
    by (intro exI [of _ c4] exI [of _ "ns1 @ ns2 @ ns3 @ ns4"]) (simp add: same_ring_def)
qed

text \<open>
  C20. The cache of decisions is a memory of the last frames: a decision that is added is the
  one that is found later, every other frame keeps its decision, the frames skipped by a
  newer one are unknown, and unknown frames become missing exactly when they are too old to be
  retransmitted.  This holds for all frames as old as the ring is long, provided a newer frame
  does not jump further than the ring less the part for retransmissions; nothing panics.
\<close>

theorem decision_cache_remembers:
  assumes "dc_ok c" "dc_initialized c" "dc_base c < e" "e < sn_limit"
    and "dc_last c < e \<longrightarrow> uint e - uint (dc_last c) + uint (dc_num_nack_entries c) \<le> uint (dc_num_entries c)"
    and "e \<le> dc_last c \<longrightarrow> uint (dc_last c) - uint e < uint (dc_num_entries c)"
  shows "\<exists>c' ns. dc_add_entity e sd c = Some (c', ns) \<and> dc_ok c' \<and> dc_last c' = max (dc_last c) e \<and>
    (\<forall>k. dc_base c \<le> k \<and> k \<le> max (dc_last c) e \<and> uint (max (dc_last c) e) - uint k < uint (dc_num_entries c) \<longrightarrow>
       dc_get_decision c' k = Some (if k = e then sd else aged c (max (dc_last c) e) k, False))"
proof (cases "dc_last c < e")
  case True
  from add_newer [OF assms(1,2) True assms(4)] assms(5) True obtain c' ns where
    a: "dc_add_entity e sd c = Some (c', ns)" "dc_ok c'" "dc_initialized c'" "dc_last c' = e" "dc_base c' = dc_base c"
      "dc_num_entries c' = dc_num_entries c"
      "\<And>k. dc_base c \<le> k \<and> k \<le> e \<and> uint e - uint k < uint (dc_num_entries c) \<Longrightarrow> entry c' k = (if k = e then sd else aged c e k)"
    by blast
  have "dc_get_decision c' k = Some (if k = e then sd else aged c e k, False)"
    if "dc_base c \<le> k \<and> k \<le> e \<and> uint e - uint k < uint (dc_num_entries c)" for k
    using decision_in_window [OF a(2,3), of k] a(7) [OF that] that a(4-6) by simp
  moreover have "max (dc_last c) e = e" using True by (auto simp: max_def)
  ultimately show ?thesis using a(1,2,4) by (intro exI [of _ c'] exI [of _ ns]) simp
next
  case False
  then have le: "e \<le> dc_last c" by simp
  have m: "max (dc_last c) e = dc_last c" using False by (simp add: max_def)
  obtain c' ns where s: "dc_set_entity e sd c = Some (c', ns)" "same_ring c c'"
    "\<And>k. entry c' k = (if slot_no c k = slot_no c e then sd else entry c k)"
    using set_entity_same [OF assms(1), where e = e and sd = sd] by blast
  have "dc_add_entity e sd c = Some (c', ns)" using s(1) assms(2) assms(3) [unfolded not_le [symmetric]] assms(3) le by (simp add: dc_add_entity_def)
  moreover have "dc_get_decision c' k = Some (if k = e then sd else aged c (dc_last c) k, False)"
    if k: "dc_base c \<le> k" "k \<le> dc_last c" "uint (dc_last c) - uint k < uint (dc_num_entries c)" for k
  proof -
    have "slot_no c k = slot_no c e \<longleftrightarrow> k = e"
      by (rule slot_window [OF assms(1)]) (use k assms(3,6) le in \<open>auto simp: word_le_def word_less_def\<close>)
    moreover have "aged c (dc_last c) k = entry c k" using k(2) by (auto simp: aged_def Let_def)
    ultimately show ?thesis using decision_in_window [of c' k] s(2,3) k assms(2) by (simp add: same_ring_def)
  qed
  ultimately show ?thesis unfolding m using s(2) by (intro exI [of _ c'] exI [of _ ns]) (simp add: same_ring_def)
qed

lemma decision_cache_remembers_witness:
  "\<exists>c' ns. dc_add_entity 5 SdForwarded ((new_decision_cache 256 80)\<lparr>dc_initialized := True, dc_base := 2, dc_last := 3\<rparr>) = Some (c', ns) \<and>
    dc_get_decision c' 5 = Some (SdForwarded, False) \<and> dc_get_decision c' 4 = Some (SdUnknown, False)"
proof -
  let ?c = "(new_decision_cache 256 80)\<lparr>dc_initialized := True, dc_base := 2, dc_last := 3\<rparr>"
  have ok: "dc_ok ?c" by (simp add: dc_ok_def new_decision_cache_def Let_def sn_limit_def)
  have f: "dc_initialized ?c" "dc_base ?c = 2" "dc_last ?c = 3" "dc_num_nack_entries ?c = 80" "dc_num_entries ?c = 256"
    by (simp_all add: new_decision_cache_def Let_def)
  have l: "missing_limit ?c 3 = 2" "missing_limit ?c 5 = 2" by (simp_all add: missing_limit_def f)
  from decision_cache_remembers [OF ok f(1), of 5 SdForwarded] obtain c' ns where
    r: "dc_add_entity 5 SdForwarded ?c = Some (c', ns)"
      "\<forall>k. 2 \<le> k \<and> k \<le> 5 \<and> 5 - uint k < 256 \<longrightarrow> dc_get_decision c' k = Some (if k = 5 then SdForwarded else aged ?c 5 k, False)"
    unfolding f by (auto simp: sn_limit_def)
  have "aged ?c 5 4 = SdUnknown" using l by (simp add: aged_def f del: select_convs)
  with r show ?thesis by auto
qed

text \<open>
  A newer frame that jumps further: the frame just before it is unknown and can still be
  retransmitted, but the loop that marks old frames as missing passes its slot a second time.
  (Shown on a ring of 32 entries with 10 for retransmissions.)
\<close>

lemma dc_loop_numeral:
  "dc_loop f (numeral n) e c = do {
     (c1, ns1) \<leftarrow> f e c;
     (c2, ns2) \<leftarrow> dc_loop f (pred_numeral n) (e + 1) c1;
     Some (c2, ns1 @ ns2)
   }"
  by (simp add: numeral_eq_Suc)

lemma one_mask_set:
  fixes e b l m n :: u64
  shows "dc_set_entity e sd \<lparr>dc_initialized = i, dc_base = b, dc_last = l, dc_masks = [m], dc_num_entries = 32, dc_num_nack_entries = n, dc_expect = []\<rparr> =
    Some (\<lparr>dc_initialized = i, dc_base = b, dc_last = l, dc_masks = [put_mask m (unat (((e - b) mod 32) AND 31) * 2) sd],
      dc_num_entries = 32, dc_num_nack_entries = n, dc_expect = []\<rparr>, [])"
proof -
  have "uint (drop_bit 5 ((e - b) mod 32)) = 0" by (simp add: drop_bit_eq_div uint_div uint_mod)
  then have "drop_bit 5 ((e - b) mod 32) = 0" by (simp add: word_uint_eq_iff)
  then show ?thesis by (simp add: dc_set_entity_def dc_pos_def Let_def waiting_def not_waiting_def go_nth_def go_update_def)
qed

lemma far_jump_loses_frame:
  "(do {
      (c1, ns1) \<leftarrow> dc_add_entity 1 SdForwarded (new_decision_cache 32 10);
      (c2, ns2) \<leftarrow> dc_add_entity 35 SdForwarded c1;
      dc_get_decision c2 34
    }) = Some (SdMissing, False)"
proof -
  let ?c = "\<lparr>dc_initialized = True, dc_base = 1, dc_last = 1, dc_masks = [2], dc_num_entries = 32, dc_num_nack_entries = 10, dc_expect = []\<rparr>"
  have first: "dc_add_entity 1 SdForwarded (new_decision_cache 32 10) = Some (?c, [])"
    by (simp add: dc_add_entity_def new_decision_cache_def one_mask_set put_mask_def)
  have le: "\<not> (32 :: u64) \<le> 1" "\<not> (35 :: u64) \<le> 1" by (simp_all add: word_le_def)
  have "(case dc_add_entity 35 SdForwarded ?c of None \<Rightarrow> None | Some (c2, ns2) \<Rightarrow> dc_get_decision c2 34) = Some (SdMissing, False)"
    by (simp add: dc_add_entity_def one_mask_set dc_loop_numeral put_mask_def dc_set_if_unknown_def dc_get_entity_def dc_pos_def
      go_nth_def missing_limit_def sd_of_code_def dc_expire_def dc_get_decision_def le)
  with first show ?thesis by (simp split: option.splits)
qed

end
