(* ===== verification/Bit_Stream.thy ===== *)
theory Bit_Stream
  imports Go_Prelude
begin

text \<open>
  Reading and writing fields of a few bits in a byte buffer
  (\<open>pkg/sfu/rtpextension/dependencydescriptor/bitstreamreader.go\<close> and \<open>bitstreamwriter.go\<close>), and
  the specification they implement: a buffer is a list of bits, the highest bit of a byte
  first, a reader is the list of the bits not read yet and a writer that of the bits written.
\<close>

section \<open>Operations that change a state and may fail\<close>

datatype dd_err =
    ErrInvalidNumBits | ErrEOF | ErrInvalidNumValues | ErrInsufficientSpace | ErrInvalidArgument
  | ErrDDReaderNoStructure | ErrDDReaderTooManyTemplates | ErrDDReaderTooManyTemporalLayers
  | ErrDDReaderTooManySpatialLayers | ErrDDReaderInvalidTemplateIndex | ErrDDReaderInvalidSpatialLayer
  | ErrDDReaderNumDTIMismatch | ErrDDReaderNumChainDiffsMismatch | ErrDDReaderTemplateWithoutStructure
  | ErrNoTemplate | ErrInvalidStructure | ErrInvalidTemplates | ErrInvalidNextLayer

text \<open>\<^const>\<open>None\<close> is a panic; otherwise the new state and an error or a value.\<close>

type_synonym ('s, 'a) go = "'s \<Rightarrow> ('s \<times> (dd_err + 'a)) option"

definition go_return :: "'a \<Rightarrow> ('s, 'a) go" where
  "go_return x = (\<lambda>s. Some (s, Inr x))"

definition go_fail :: "dd_err \<Rightarrow> ('s, 'a) go" where
  "go_fail e = (\<lambda>s. Some (s, Inl e))"

text \<open>\<open>x, err := m; if err != nil { return err }\<close> and the rest.\<close>

definition go_then :: "('s, 'a) go \<Rightarrow> ('a \<Rightarrow> ('s, 'b) go) \<Rightarrow> ('s, 'b) go" where
  "go_then m f = (\<lambda>s. case m s of
     None \<Rightarrow> None
   | Some (s', Inl e) \<Rightarrow> Some (s', Inl e)
   | Some (s', Inr x) \<Rightarrow> f x s')"

text \<open>A loop that appends one result per element.\<close>

fun go_map :: "('a \<Rightarrow> ('s, 'b) go) \<Rightarrow> 'a list \<Rightarrow> ('s, 'b list) go" where
  "go_map f [] = go_return []"
| "go_map f (x # xs) = go_then (f x) (\<lambda>y. go_then (go_map f xs) (\<lambda>ys. go_return (y # ys)))"

text \<open>A loop that only changes the state.\<close>

fun go_each :: "('a \<Rightarrow> ('s, unit) go) \<Rightarrow> 'a list \<Rightarrow> ('s, unit) go" where
  "go_each f [] = go_return ()"
| "go_each f (x # xs) = go_then (f x) (\<lambda>_. go_each f xs)"

lemma go_return_simp [simp]: "go_return x s = Some (s, Inr x)"
  by (simp add: go_return_def)

lemma go_fail_simp [simp]: "go_fail e s = Some (s, Inl e)"
  by (simp add: go_fail_def)

lemma go_then_simps:
  "m s = None \<Longrightarrow> go_then m f s = None"
  "m s = Some (s', Inl e) \<Longrightarrow> go_then m f s = Some (s', Inl e)"
  "m s = Some (s', Inr x) \<Longrightarrow> go_then m f s = f x s'"
  by (simp_all add: go_then_def)

section \<open>The reader\<close>

record bit_reader =
  br_buf :: "u8 list"
  br_pos :: nat
  br_remaining :: int

definition new_bit_reader :: "u8 list \<Rightarrow> bit_reader" where
  "new_bit_reader buf = \<lparr>br_buf = buf, br_pos = 0, br_remaining = int (length buf) * 8\<rparr>"

text \<open>The whole bytes: the position, the bits still wanted and the value so far.\<close>

fun read_bytes :: "u8 list \<Rightarrow> nat \<Rightarrow> nat \<Rightarrow> u64 \<Rightarrow> (nat \<times> nat \<times> u64) option" where
  "read_bytes buf p n v =
    (if n \<ge> 8 then do {
       b \<leftarrow> go_nth buf (int p);
       read_bytes buf (p + 1) (n - 8) (v OR push_bit (n - 8) (ucast b)) }
     else Some (p, n, v))"

declare read_bytes.simps [simp del]

definition read_bits :: "int \<Rightarrow> (bit_reader, u64) go" where
  "read_bits bits r =
    (if bits < 0 \<or> bits > 64 then Some (r, Inl ErrInvalidNumBits)
     else if br_remaining r < bits then Some (r\<lparr>br_remaining := br_remaining r - bits\<rparr>, Inl ErrEOF)
     else
       let n = nat bits; first = nat (br_remaining r mod 8); r1 = r\<lparr>br_remaining := br_remaining r - bits\<rparr>
       in if n < first then do {
            b \<leftarrow> go_nth (br_buf r) (int (br_pos r));
            Some (r1, Inr (ucast (drop_bit (first - n) b AND (push_bit n 1 - 1)))) }
          else do {
            (p1, n1, v1) \<leftarrow> (if first > 0 then do {
                b \<leftarrow> go_nth (br_buf r) (int (br_pos r));
                Some (br_pos r + 1, n - first, push_bit (n - first) (ucast (b AND (push_bit first 1 - 1)))) }
              else Some (br_pos r, n, 0));
            (p2, n2, v2) \<leftarrow> read_bytes (br_buf r) p1 n1 v1;
            v3 \<leftarrow> (if n2 > 0 then do {
                b \<leftarrow> go_nth (br_buf r) (int p2);
                Some (v2 OR ucast (drop_bit (8 - n2) b)) }
              else Some v2);
            Some (r1\<lparr>br_pos := p2\<rparr>, Inr v3) })"

definition read_bool :: "(bit_reader, bool) go" where
  "read_bool = go_then (read_bits 1) (\<lambda>v. go_return (v \<noteq> 0))"

fun bitwidth :: "nat \<Rightarrow> nat" where
  "bitwidth n = (if n = 0 then 0 else bitwidth (n div 2) + 1)"

declare bitwidth.simps [simp del]

text \<open>
  \<open>num_values\<close> is a \<open>uint32\<close>.
\<close>

definition read_non_symmetric :: "u32 \<Rightarrow> (bit_reader, u32) go" where
  "read_non_symmetric num_values =
    (if num_values \<ge> push_bit 31 1 then go_fail ErrInvalidNumValues
     else let width = bitwidth (unat num_values); num_min = push_bit width 1 - num_values
     in go_then (read_bits (int width - 1)) (\<lambda>v.
          if v < ucast num_min then go_return (ucast v)
          else go_then (read_bits 1) (\<lambda>b. go_return (ucast (push_bit 1 v + b - ucast num_min)))))"

text \<open>\<open>%\<close> of Go is negative or 0 for what is not positive, as after an error.\<close>

definition bytes_read :: "bit_reader \<Rightarrow> int" where
  "bytes_read r = (if br_remaining r > 0 \<and> br_remaining r mod 8 > 0 then int (br_pos r) + 1 else int (br_pos r))"

section \<open>The writer\<close>

record bit_writer =
  bw_buf :: "u8 list"
  bw_pos :: nat
  bw_offset :: nat

definition new_bit_writer :: "u8 list \<Rightarrow> bit_writer" where
  "new_bit_writer buf = \<lparr>bw_buf = buf, bw_pos = 0, bw_offset = 0\<rparr>"

definition bw_remaining :: "bit_writer \<Rightarrow> int" where
  "bw_remaining w = (int (length (bw_buf w)) - int (bw_pos w)) * 8 - int (bw_offset w)"

definition consume_bits :: "nat \<Rightarrow> (bit_writer, unit) go" where
  "consume_bits n w =
    (if int n > bw_remaining w then Some (w, Inl ErrInsufficientSpace)
     else Some (w\<lparr>bw_pos := bw_pos w + (bw_offset w + n) div 8, bw_offset := (bw_offset w + n) mod 8\<rparr>, Inr ()))"

definition write_partial_byte :: "u8 \<Rightarrow> nat \<Rightarrow> u8 \<Rightarrow> nat \<Rightarrow> u8" where
  "write_partial_byte source source_bits target target_offset =
    (let m = drop_bit target_offset (push_bit (8 - source_bits) 0xff)
     in (target AND NOT m) OR drop_bit target_offset source)"

text \<open>The whole bytes: the buffer, the position, the value and the bits still to write.\<close>

fun write_bytes :: "u8 list \<Rightarrow> nat \<Rightarrow> u64 \<Rightarrow> nat \<Rightarrow> (u8 list \<times> nat \<times> u64 \<times> nat) option" where
  "write_bytes buf p v n =
    (if n \<ge> 8 then do {
       buf' \<leftarrow> go_update buf (int p) (ucast (drop_bit 56 v));
       write_bytes buf' (p + 1) (push_bit 8 v) (n - 8) }
     else Some (buf, p, v, n))"

declare write_bytes.simps [simp del]

text \<open>A shift by a negative count panics, so there are at most 64 bits.\<close>

definition write_bits :: "u64 \<Rightarrow> nat \<Rightarrow> (bit_writer, unit) go" where
  "write_bits val n w =
    (if int n > bw_remaining w then Some (w, Inl ErrInsufficientSpace)
     else if n > 64 then None
     else
       let v = push_bit (64 - n) val; room = 8 - bw_offset w; first = min n room
       in do {
         b \<leftarrow> go_nth (bw_buf w) (int (bw_pos w));
         buf1 \<leftarrow> go_update (bw_buf w) (int (bw_pos w)) (write_partial_byte (ucast (drop_bit 56 v)) first b (bw_offset w));
         if n \<le> room then consume_bits n (w\<lparr>bw_buf := buf1\<rparr>)
         else do {
           (buf2, p, v2, n2) \<leftarrow> write_bytes buf1 (bw_pos w + 1) (push_bit first v) (n - first);
           buf3 \<leftarrow> (if n2 > 0 then do {
               c \<leftarrow> go_nth buf2 (int p);
               go_update buf2 (int p) (write_partial_byte (ucast (drop_bit 56 v2)) n2 c 0) }
             else Some buf2);
           consume_bits n (w\<lparr>bw_buf := buf3\<rparr>) } })"

definition write_bool :: "bool \<Rightarrow> (bit_writer, unit) go" where
  "write_bool b = write_bits (if b then 1 else 0) 1"

definition write_non_symmetric :: "u32 \<Rightarrow> u32 \<Rightarrow> (bit_writer, unit) go" where
  "write_non_symmetric val num_values =
    (if val \<ge> num_values \<or> num_values > push_bit 31 1 then go_fail ErrInvalidArgument
     else if num_values = 1 then go_return ()
     else let count = bitwidth (unat num_values); num_min = push_bit count 1 - num_values
     in if val < num_min then write_bits (ucast val) (count - 1) else write_bits (ucast (val + num_min)) count)"

definition size_non_symmetric_bits :: "u32 \<Rightarrow> u32 \<Rightarrow> int" where
  "size_non_symmetric_bits val num_values =
    (let count = bitwidth (unat num_values); num_min = push_bit count 1 - num_values
     in if val < num_min then int count - 1 else int count)"


section \<open>Buffers as lists of bits\<close>

definition sbit :: "u8 list \<Rightarrow> nat \<Rightarrow> bool" where
  "sbit buf j = bit (buf ! (j div 8)) (7 - j mod 8)"

definition bits_of :: "u8 list \<Rightarrow> bool list" where
  "bits_of buf = map (sbit buf) [0..<8 * length buf]"

text \<open>The lowest \<open>n\<close> bits of a word, the highest first.\<close>

definition to_bits :: "nat \<Rightarrow> u64 \<Rightarrow> bool list" where
  "to_bits n v = map (\<lambda>k. bit v (n - 1 - k)) [0..<n]"

lemma length_bits_of [simp]: "length (bits_of buf) = 8 * length buf"
  by (simp add: bits_of_def)

lemma length_to_bits [simp]: "length (to_bits n v) = n"
  by (simp add: to_bits_def)

lemma to_bits_nth: "k < n \<Longrightarrow> to_bits n v ! k = bit v (n - 1 - k)"
  by (simp add: to_bits_def)

lemma to_bits_take: "n \<le> 64 \<Longrightarrow> to_bits n v = to_bits n w \<Longrightarrow> take_bit n v = take_bit n w"
proof (rule bit_word_eqI)
  fix k assume e: "to_bits n v = to_bits n w" and k: "k < LENGTH(64)"
  show "bit (take_bit n v) k = bit (take_bit n w) k"
  proof (cases "k < n")
    case True
    then have i: "n - 1 - k < n" "n - 1 - (n - 1 - k) = k" by simp_all
    have "to_bits n v ! (n - 1 - k) = to_bits n w ! (n - 1 - k)" using e by (rule arg_cong)
    then have "bit v k = bit w k" unfolding to_bits_nth [OF i(1)] i(2) .
    then show ?thesis by (simp add: bit_take_bit_iff)
  qed (simp add: bit_take_bit_iff)
qed

lemma sbit_update:
  "p < length buf \<Longrightarrow> sbit (buf[p := b]) j = (if j div 8 = p then bit b (7 - j mod 8) else sbit buf j)"
  by (auto simp: sbit_def)

section \<open>The reader reads the next bits\<close>

text \<open>The position is that of the first byte with bits not read yet.\<close>

definition rd_ok :: "bit_reader \<Rightarrow> bool" where
  "rd_ok r \<longleftrightarrow> 0 \<le> br_remaining r \<and> br_remaining r \<le> 8 * int (length (br_buf r)) \<and>
    int (br_pos r) = (8 * int (length (br_buf r)) - br_remaining r) div 8"

definition rd_at :: "bit_reader \<Rightarrow> nat" where
  "rd_at r = nat (8 * int (length (br_buf r)) - br_remaining r)"

definition unread :: "bit_reader \<Rightarrow> bool list" where
  "unread r = drop (rd_at r) (bits_of (br_buf r))"

lemma rd_at_facts:
  assumes "rd_ok r"
  shows "int (rd_at r) = 8 * int (length (br_buf r)) - br_remaining r" "br_pos r = rd_at r div 8"
    "nat (br_remaining r mod 8) = (if rd_at r mod 8 = 0 then 0 else 8 - rd_at r mod 8)"
    "int (length (unread r)) = br_remaining r" "rd_at r \<le> 8 * length (br_buf r)"
proof -
  show a: "int (rd_at r) = 8 * int (length (br_buf r)) - br_remaining r" using assms by (simp add: rd_at_def rd_ok_def)
  have "int (br_pos r) = int (rd_at r) div 8" using assms unfolding a by (simp add: rd_ok_def)
  then show "br_pos r = rd_at r div 8" by (simp only: zdiv_int [symmetric, of _ 8, simplified] of_nat_eq_iff)
  have m: "br_remaining r mod 8 = (- int (rd_at r)) mod 8" using a by (simp add: mod_eq_dvd_iff algebra_simps)
  show "nat (br_remaining r mod 8) = (if rd_at r mod 8 = 0 then 0 else 8 - rd_at r mod 8)"
    unfolding m zmod_zminus1_eq_if by (simp add: zmod_int [symmetric, of _ 8, simplified] nat_diff_distrib' flip: of_nat_mod)
  show "int (length (unread r)) = br_remaining r" using a assms by (simp add: unread_def rd_ok_def of_nat_diff)
  show "rd_at r \<le> 8 * length (br_buf r)" using a assms by (simp add: rd_ok_def)
qed

lemma read_bytes_bits:
  "p + n div 8 \<le> length buf \<Longrightarrow> n \<le> 64 \<Longrightarrow>
   \<exists>v'. read_bytes buf p n v = Some (p + n div 8, n mod 8, v') \<and>
     (\<forall>k < 64. bit v' k \<longleftrightarrow> bit v k \<or> n mod 8 \<le> k \<and> k < n \<and> sbit buf (8 * p + (n - 1 - k)))"
proof (induction buf p n v rule: read_bytes.induct)
  case (1 buf p n v)
  show ?case
  proof (cases "n \<ge> 8")
    case True
    let ?w = "v OR push_bit (n - 8) (ucast (buf ! p))"
    have d: "p + 1 + (n - 8) div 8 = p + n div 8" "(n - 8) mod 8 = n mod 8" using True by (simp_all add: le_div_geq le_mod_geq)
    have p: "p < length buf" using 1(2) True by (simp add: le_div_geq)
    then have g: "go_nth buf (int p) = Some (buf ! p)" by simp
    have b: "p + 1 + (n - 8) div 8 \<le> length buf" "n - 8 \<le> 64" using 1(2,3) d by simp_all
    from "1.IH" [OF True, of "buf ! p", OF g b, unfolded d] obtain v' where
      v': "read_bytes buf (p + 1) (n - 8) ?w = Some (p + n div 8, n mod 8, v')"
        "\<forall>k < 64. bit v' k \<longleftrightarrow> bit ?w k \<or> n mod 8 \<le> k \<and> k < n - 8 \<and> sbit buf (8 * (p + 1) + (n - 8 - 1 - k))"
      by blast
    have step: "read_bytes buf p n v = Some (p + n div 8, n mod 8, v')"
      by (subst read_bytes.simps) (simp add: True g v'(1) [simplified] del: go_nth_of_nat)
    have top: "sbit buf (8 * p + (n - 1 - k)) = bit (buf ! p) (k - (n - 8))" if "n - 8 \<le> k" "k < n" for k
    proof -
      have "n - 1 - k < 8" "7 - (n - 1 - k) = k - (n - 8)" using that True by simp_all
      then show ?thesis by (simp add: sbit_def)
    qed
    have low: "8 * (p + 1) + (n - 8 - 1 - k) = 8 * p + (n - 1 - k)" if "k < n - 8" for k using that True by simp
    have m: "n mod 8 \<le> n - 8" using True by (simp add: le_mod_geq)
    have "bit v' k \<longleftrightarrow> bit v k \<or> n mod 8 \<le> k \<and> k < n \<and> sbit buf (8 * p + (n - 1 - k))" if k: "k < 64" for k
    proof (cases "k < n - 8")
      case True
      then show ?thesis using v'(2) k low [OF True] by (auto simp: bit_or_iff bit_push_bit_iff)
    next
      case False
      then have "bit ?w k \<longleftrightarrow> bit v k \<or> k < n \<and> bit (buf ! p) (k - (n - 8))"
        using k True bit_imp_le_length [of "buf ! p" "k - (n - 8)"] by (auto simp: bit_or_iff bit_push_bit_iff bit_ucast_iff)
      then show ?thesis using v'(2) k False m top [of k] by auto
    qed
    with step show ?thesis by blast
  next
    case False
    then show ?thesis using 1(2) by (subst read_bytes.simps) auto
  qed
qed

lemma ones: "push_bit n 1 - 1 = (mask n :: u8)" "2 ^ n - 1 = (mask n :: u8)"
  by (simp_all add: mask_eq_exp_minus_1 push_bit_eq_mult)

lemma same_byte:
  fixes T k :: nat
  assumes "T mod 8 + k < 8"
  shows "(T + k) div 8 = T div 8" "(T + k) mod 8 = T mod 8 + k"
  using assms by (simp_all add: div_add1_eq [of T] mod_add_left_eq [symmetric, of T])

lemma round_up:
  fixes T :: nat
  shows "(T + (8 - T mod 8)) div 8 = T div 8 + 1" "8 * ((T + (8 - T mod 8)) div 8) = T + (8 - T mod 8)"
proof -
  define q m where "q = T div 8" and "m = T mod 8"
  have "T mod 8 < 8" "T = 8 * (T div 8) + T mod 8" by simp_all
  then have "m < 8" "T = 8 * q + m" unfolding q_def m_def by blast+
  then have e: "T + (8 - m) = 8 * (q + 1)" by simp
  then have d: "(T + (8 - m)) div 8 = q + 1" by (simp only: nonzero_mult_div_cancel_left [of "8 :: nat"])
  show "(T + (8 - T mod 8)) div 8 = T div 8 + 1" using d unfolding q_def m_def .
  show "8 * ((T + (8 - T mod 8)) div 8) = T + (8 - T mod 8)"
    using d e unfolding q_def [symmetric] m_def [symmetric] by (simp only:)
qed

lemma head_bits:
  fixes n k m f :: nat
  assumes "f = 8 - m" "m < 8" "f \<le> n" "n - f \<le> k" "k < n"
  shows "m + (n - 1 - k) < 8" "k - (n - f) = 7 - (m + (n - 1 - k))" "k - (n - f) < f"
  using assms by auto

lemma tail_bits:
  fixes n p k :: nat
  assumes "k < n mod 8"
  shows "8 * p + (n - 1 - k) = 8 * (p + n div 8) + (n mod 8 - 1 - k)"
proof -
  define q m where "q = n div 8" and "m = n mod 8"
  have "n = 8 * (n div 8) + n mod 8" by simp
  then have "n = 8 * q + m" unfolding q_def m_def .
  then have "8 * p + (n - 1 - k) = 8 * (p + q) + (m - 1 - k)" using assms unfolding m_def [symmetric] by simp
  then show ?thesis unfolding q_def m_def .
qed

lemma rest_bits:
  fixes T f p n m k :: nat
  assumes "8 * p = T + f" "n = f + m" "k < m"
  shows "8 * p + (m - 1 - k) = T + (n - 1 - k)"
  using assms by simp

lemma three_parts:
  fixes k m a n :: nat
  assumes "m \<le> a" "a \<le> n" "k < a \<Longrightarrow> Y = A" "k < m \<Longrightarrow> X = A"
  shows "((a \<le> k \<and> k < n \<and> A) \<or> m \<le> k \<and> k < a \<and> Y) \<or> k < m \<and> X \<longleftrightarrow> k < n \<and> A"
  using assms by linarith

lemma read_tail:
  assumes "m < 8" "m \<noteq> 0 \<Longrightarrow> p < length buf"
  obtains v' where "(if m > 0 then do {
        b \<leftarrow> go_nth buf (int p);
        Some (v OR ucast (drop_bit (8 - m) b)) }
      else Some v) = Some (v' :: u64)"
    "\<And>k. k < 64 \<Longrightarrow> bit v' k \<longleftrightarrow> bit v k \<or> k < m \<and> sbit buf (8 * p + (m - 1 - k))"
proof (cases "m = 0")
  case True
  then show ?thesis using that [of v] by simp
next
  case False
  let ?v = "v OR ucast (drop_bit (8 - m) (buf ! p))"
  have "bit ?v k \<longleftrightarrow> bit v k \<or> k < m \<and> sbit buf (8 * p + (m - 1 - k))" if "k < 64" for k
  proof (cases "k < m")
    case True
    have e: "(8 * p + (m - 1 - k)) div 8 = p" "(8 * p + (m - 1 - k)) mod 8 = m - 1 - k" using assms(1) by simp_all
    have "8 - m + k = 7 - (m - 1 - k)" using True assms(1) by simp
    then show ?thesis using True that unfolding sbit_def e by (simp add: bit_or_iff bit_ucast_iff bit_drop_bit_eq)
  next
    case k: False
    have "\<not> bit (buf ! p) (8 - m + k)" using k assms(1) bit_imp_le_length [of "buf ! p" "8 - m + k"] by auto
    then show ?thesis using k by (simp add: bit_or_iff bit_ucast_iff bit_drop_bit_eq)
  qed
  then show ?thesis using that [of ?v] False assms(2) by simp
qed

lemma byte_inside:
  fixes T L :: nat
  assumes "T mod 8 \<noteq> 0" "T \<le> 8 * L"
  shows "T div 8 < L"
  using assms by presburger

lemma read_inside_byte:
  assumes ok: "rd_ok r" and n: "n \<le> 64" "n \<le> length (unread r)" and inside: "n < nat (br_remaining r mod 8)"
  obtains v where
    "read_bits (int n) r = Some (r\<lparr>br_pos := (rd_at r + n) div 8, br_remaining := br_remaining r - int n\<rparr>, Inr v)"
    "\<And>k. k < 64 \<Longrightarrow> bit v k \<longleftrightarrow> k < n \<and> sbit (br_buf r) (rd_at r + (n - 1 - k))"
proof -
  let ?buf = "br_buf r" and ?T = "rd_at r" and ?first = "nat (br_remaining r mod 8)"
  let ?r1 = "r\<lparr>br_remaining := br_remaining r - int n\<rparr>"
  note f = rd_at_facts [OF ok]
  have rem: "\<not> br_remaining r < int n" using n(2) f(4) by linarith
  have t: "?T mod 8 \<noteq> 0" "?first = 8 - ?T mod 8" using inside f(3) by (auto split: if_splits)
  have lt: "?T mod 8 + n < 8" using inside t(2) by linarith
  have p: "br_pos r < length ?buf" "(?T + n) div 8 = br_pos r" unfolding f(2) using byte_inside [OF t(1) f(5)] same_byte(1) [OF lt] by blast+
  let ?v = "ucast (drop_bit (?first - n) (?buf ! br_pos r) AND (push_bit n 1 - 1 :: u8)) :: u64"
  have "read_bits (int n) r = Some (?r1, Inr ?v)"
    using rem n(1) inside p(1) by (simp add: read_bits_def Let_def)
  moreover have "?r1 = r\<lparr>br_pos := (?T + n) div 8, br_remaining := br_remaining r - int n\<rparr>" using p(2) by simp
  moreover have "bit ?v k \<longleftrightarrow> k < n \<and> sbit ?buf (?T + (n - 1 - k))" if "k < 64" for k
  proof (cases "k < n")
    case k: True
    have m: "(?T + (n - 1 - k)) div 8 = ?T div 8" "(?T + (n - 1 - k)) mod 8 = ?T mod 8 + (n - 1 - k)"
      by (rule same_byte, use lt k in linarith)+
    have "?first - n + k = 7 - (?T mod 8 + (n - 1 - k))" using t(2) lt k by linarith
    then show ?thesis using k lt unfolding sbit_def m f(2) [symmetric]
      by (simp add: bit_ucast_iff bit_and_iff bit_drop_bit_eq ones bit_mask_iff)
  next
    case False
    then show ?thesis
      by (simp add: bit_ucast_iff bit_and_iff ones bit_mask_iff)
  qed
  ultimately show ?thesis using that [of ?v] by simp
qed

lemma read_head:
  assumes ok: "rd_ok r" and n: "n \<le> length (unread r)" and past: "\<not> n < nat (br_remaining r mod 8)"
  defines "first \<equiv> nat (br_remaining r mod 8)"
  obtains v1 where
    "(if first > 0 then do {
        b \<leftarrow> go_nth (br_buf r) (int (br_pos r));
        Some (br_pos r + 1, n - first, push_bit (n - first) (ucast (b AND (push_bit first 1 - 1)))) }
      else Some (br_pos r, n, 0 :: u64)) = Some ((rd_at r + first) div 8, n - first, v1)"
    "\<And>k. k < 64 \<Longrightarrow> bit v1 k \<longleftrightarrow> n - first \<le> k \<and> k < n \<and> sbit (br_buf r) (rd_at r + (n - 1 - k))"
proof -
  let ?buf = "br_buf r" and ?T = "rd_at r" and ?first = "nat (br_remaining r mod 8)"
  let ?n1 = "n - ?first" and ?p1 = "(?T + ?first) div 8"
  note f = rd_at_facts [OF ok]
  have end_pos: "?T + n \<le> 8 * length ?buf" using n f(1,4,5) ok by (simp add: rd_ok_def)
  have first: "?first = 0 \<or> ?first = 8 - ?T mod 8 \<and> ?T mod 8 \<noteq> 0" using f(3) by auto
  define head where "head = (if ?first > 0 then do {
      b \<leftarrow> go_nth ?buf (int (br_pos r));
      Some (br_pos r + 1, ?n1, push_bit ?n1 (ucast (b AND (push_bit ?first 1 - 1)))) }
    else Some (br_pos r, n, 0 :: u64))"
  have "\<exists>v1. head = Some (?p1, ?n1, v1) \<and>
    (\<forall>k < 64. bit v1 k \<longleftrightarrow> ?n1 \<le> k \<and> k < n \<and> sbit ?buf (?T + (n - 1 - k)))"
  proof (cases "?first = 0")
    case True
    then have "head = Some (?p1, ?n1, 0)" by (simp add: head_def f(2))
    then show ?thesis using True by (intro exI [of _ 0]) simp
  next
    case pos: False
    with first have t: "?first = 8 - ?T mod 8" "?T mod 8 \<noteq> 0" by auto
    have p: "br_pos r < length ?buf" using end_pos f(2) t past by (simp add: div_less_iff_less_mult)
    have p1: "br_pos r + 1 = ?p1" using round_up(1) [of ?T] unfolding f(2) t(1) by simp
    let ?v = "push_bit ?n1 (ucast (?buf ! br_pos r AND (push_bit ?first 1 - 1))) :: u64"
    have "head = Some (?p1, ?n1, ?v)" using pos p p1 by (simp add: head_def)
    moreover have "bit ?v k \<longleftrightarrow> ?n1 \<le> k \<and> k < n \<and> sbit ?buf (?T + (n - 1 - k))" if "k < 64" for k
    proof (cases "?n1 \<le> k \<and> k < n")
      case k: True
      have "?T mod 8 < 8" "?first \<le> n" using past by simp_all
      note h = head_bits [OF t(1) this conjunct1 [OF k] conjunct2 [OF k]]
      have m: "(?T + (n - 1 - k)) div 8 = ?T div 8" "(?T + (n - 1 - k)) mod 8 = ?T mod 8 + (n - 1 - k)"
        by (rule same_byte [OF h(1)])+
      have "?first \<le> 8" by (simp add: t(1))
      from less_le_trans [OF h(3) this] have b: "k - ?n1 < 8" "k - ?n1 < 64" by linarith+
      have "bit ?v k = bit (?buf ! br_pos r) (k - ?n1)"
        using k that b h(3) by (simp only: bit_push_bit_iff bit_ucast_iff bit_and_iff ones bit_mask_iff) simp
      then show ?thesis using k unfolding sbit_def m f(2) [symmetric] h(2) by blast
    next
      case k: False
      have "\<not> bit ?v k"
      proof
        assume "bit ?v k"
        then have "?n1 \<le> k" "k - ?n1 < ?first"
          by (simp_all add: bit_push_bit_iff bit_ucast_iff bit_and_iff ones bit_mask_iff)
        then show False using k past by linarith
      qed
      then show ?thesis using k by blast
    qed
    ultimately show ?thesis by blast
  qed
  then show thesis using that unfolding head_def first_def by blast
qed

lemma read_bits_value:
  assumes ok: "rd_ok r" and n: "n \<le> 64" "n \<le> length (unread r)"
  obtains v where
    "read_bits (int n) r = Some (r\<lparr>br_pos := (rd_at r + n) div 8, br_remaining := br_remaining r - int n\<rparr>, Inr v)"
    "\<And>k. k < 64 \<Longrightarrow> bit v k \<longleftrightarrow> k < n \<and> sbit (br_buf r) (rd_at r + (n - 1 - k))"
proof -
  let ?buf = "br_buf r" and ?T = "rd_at r" and ?first = "nat (br_remaining r mod 8)"
  let ?r1 = "r\<lparr>br_remaining := br_remaining r - int n\<rparr>"
  note f = rd_at_facts [OF ok]
  have rem: "\<not> br_remaining r < int n" using n(2) f(4) by linarith
  have end_pos: "?T + n \<le> 8 * length ?buf" using n(2) f(1,4,5) ok by (simp add: rd_ok_def)
  show thesis
  proof (cases "n < ?first")
    case True
    from read_inside_byte [OF ok n this] show ?thesis using that by blast
  next
    case False
    let ?n1 = "n - ?first" and ?p1 = "(?T + ?first) div 8"
    have split: "8 * ?p1 = ?T + ?first"
    proof (cases "?T mod 8 = 0")
      case True
      then show ?thesis using f(3) by auto
    next
      case False
      then show ?thesis using f(3) round_up(2) [of ?T] by (auto split: if_splits)
    qed
    define head where "head = (if ?first > 0 then do {
        b \<leftarrow> go_nth ?buf (int (br_pos r));
        Some (br_pos r + 1, ?n1, push_bit ?n1 (ucast (b AND (push_bit ?first 1 - 1)))) }
      else Some (br_pos r, n, 0 :: u64))"
    obtain v1 where v1: "head = Some (?p1, ?n1, v1)"
      "\<And>k. k < 64 \<Longrightarrow> bit v1 k \<longleftrightarrow> ?n1 \<le> k \<and> k < n \<and> sbit ?buf (?T + (n - 1 - k))"
      unfolding head_def by (rule read_head [OF ok n(2) False]) blast
    have n1: "n = ?first + ?n1" using False by simp
    have "?T + n = ?T + ?first + ?n1" by (subst n1) (rule add.assoc [symmetric])
    then have tn: "?T + n = 8 * ?p1 + ?n1" unfolding split .
    have p2: "(?T + n) div 8 = ?p1 + ?n1 div 8" "(?T + n) mod 8 = ?n1 mod 8" unfolding tn by simp_all
    have "?p1 + ?n1 div 8 \<le> length ?buf" using div_le_mono [OF end_pos, of 8] unfolding p2(1) by simp
    moreover have "?n1 \<le> 64" using n(1) by simp
    ultimately obtain v2 where
      v2: "read_bytes ?buf ?p1 ?n1 v1 = Some (?p1 + ?n1 div 8, ?n1 mod 8, v2)"
        "\<And>k. k < 64 \<Longrightarrow> bit v2 k \<longleftrightarrow> bit v1 k \<or> ?n1 mod 8 \<le> k \<and> k < ?n1 \<and> sbit ?buf (8 * ?p1 + (?n1 - 1 - k))"
      using read_bytes_bits [of ?p1 ?n1 ?buf v1] by blast
    have m8: "?n1 mod 8 < 8" by simp
    have "?n1 mod 8 \<noteq> 0 \<Longrightarrow> ?p1 + ?n1 div 8 < length ?buf"
      using byte_inside [of "?T + n", OF _ end_pos] unfolding p2 by blast
    from read_tail [OF m8 this, of v2] obtain v3 where
      v3: "(if ?n1 mod 8 > 0 then do {
          b \<leftarrow> go_nth ?buf (int (?p1 + ?n1 div 8));
          Some (v2 OR ucast (drop_bit (8 - ?n1 mod 8) b)) }
        else Some v2) = Some v3"
        "\<And>k. k < 64 \<Longrightarrow> bit v3 k \<longleftrightarrow> bit v2 k \<or>
          k < ?n1 mod 8 \<and> sbit ?buf (8 * (?p1 + ?n1 div 8) + (?n1 mod 8 - 1 - k))"
      by blast
    have "read_bits (int n) r = do {
        (p1, n1, v1) \<leftarrow> head;
        (p2, n2, v2) \<leftarrow> read_bytes ?buf p1 n1 v1;
        v3 \<leftarrow> (if n2 > 0 then do {
            b \<leftarrow> go_nth ?buf (int p2);
            Some (v2 OR ucast (drop_bit (8 - n2) b)) }
          else Some v2);
        Some (?r1\<lparr>br_pos := p2\<rparr>, Inr v3) }"
      using rem n(1) False by (simp add: read_bits_def Let_def head_def)
    also have "\<dots> = Some (?r1\<lparr>br_pos := ?p1 + ?n1 div 8\<rparr>, Inr v3)"
      by (simp only: v1(1) v2(1) v3(1) Option.bind.bind_lunit prod.case)
    finally have "read_bits (int n) r = Some (r\<lparr>br_pos := (?T + n) div 8, br_remaining := br_remaining r - int n\<rparr>, Inr v3)"
      unfolding p2(1) by simp
    moreover have "bit v3 k \<longleftrightarrow> k < n \<and> sbit ?buf (?T + (n - 1 - k))" if k: "k < 64" for k
    proof -
      have a: "8 * ?p1 + (?n1 - 1 - k) = ?T + (n - 1 - k)" if "k < ?n1" by (rule rest_bits [OF split n1 that])
      show ?thesis unfolding v3(2) [OF k] v2(2) [OF k] v1(2) [OF k]
      proof (rule three_parts)
        show "?n1 mod 8 \<le> ?n1" by (rule mod_less_eq_dividend)
        show "?n1 \<le> n" by (rule diff_le_self)
        show "sbit ?buf (8 * ?p1 + (?n1 - 1 - k)) = sbit ?buf (?T + (n - 1 - k))" if "k < ?n1"
          by (simp only: a [OF that])
        show "sbit ?buf (8 * (?p1 + ?n1 div 8) + (?n1 mod 8 - 1 - k)) = sbit ?buf (?T + (n - 1 - k))" if "k < ?n1 mod 8"
          by (simp only: tail_bits [OF that, of ?p1, symmetric] a [OF less_le_trans [OF that mod_less_eq_dividend]])
      qed
    qed
    ultimately show ?thesis by (rule that)
  qed
qed

text \<open>
  The value read is that of the next \<open>n\<close> bits, the highest first; with too few bits left the
  reader runs over the end.
\<close>

lemma read_bits_next:
  assumes ok: "rd_ok r" and n: "n \<le> 64" "n \<le> length (unread r)"
  shows "\<exists>r' v. read_bits (int n) r = Some (r', Inr v) \<and> rd_ok r' \<and> br_buf r' = br_buf r \<and>
    unread r' = drop n (unread r) \<and> to_bits n v = take n (unread r) \<and> take_bit n v = v"
proof -
  from read_bits_value [OF assms] obtain v where
    v: "read_bits (int n) r = Some (r\<lparr>br_pos := (rd_at r + n) div 8, br_remaining := br_remaining r - int n\<rparr>, Inr v)"
      "\<And>k. k < 64 \<Longrightarrow> bit v k \<longleftrightarrow> k < n \<and> sbit (br_buf r) (rd_at r + (n - 1 - k))" by blast
  let ?r = "r\<lparr>br_pos := (rd_at r + n) div 8, br_remaining := br_remaining r - int n\<rparr>"
  note f = rd_at_facts [OF ok]
  have left: "int n \<le> br_remaining r" using n(2) f(4) by linarith
  have "rd_at ?r = nat (int (rd_at r) + int n)" unfolding f(1) by (simp add: rd_at_def algebra_simps)
  then have at: "rd_at ?r = rd_at r + n" by (simp add: nat_int_add)
  have "int ((rd_at r + n) div 8) = (8 * int (length (br_buf r)) - (br_remaining r - int n)) div 8"
    using f(1) by (simp add: zdiv_int)
  then have "rd_ok ?r" using ok left by (simp add: rd_ok_def)
  moreover have "unread ?r = drop n (unread r)" unfolding unread_def at by (simp add: add.commute)
  moreover have "to_bits n v = take n (unread r)"
  proof (rule nth_equalityI)
    show "length (to_bits n v) = length (take n (unread r))" using n(2) by simp
    fix k assume "k < length (to_bits n v)"
    then have k: "k < n" by simp
    then have "take n (unread r) ! k = sbit (br_buf r) (rd_at r + k)" using n(2) by (simp add: unread_def bits_of_def)
    moreover have "bit v (n - 1 - k) = sbit (br_buf r) (rd_at r + k)" using v(2) [of "n - 1 - k"] k n(1) by simp
    ultimately show "to_bits n v ! k = take n (unread r) ! k" using k by (simp add: to_bits_nth)
  qed
  moreover have "take_bit n v = v" by (rule bit_word_eqI) (auto simp: bit_take_bit_iff v(2))
  ultimately show ?thesis using v(1) by (intro exI [of _ ?r] exI [of _ v]) simp
qed

lemma read_bits_short:
  "rd_ok r \<Longrightarrow> n \<le> 64 \<Longrightarrow> length (unread r) < n \<Longrightarrow> read_bits (int n) r = Some (r\<lparr>br_remaining := br_remaining r - int n\<rparr>, Inl ErrEOF)"
  using rd_at_facts(4) [of r] by (simp add: read_bits_def)

section \<open>The writer writes the bits of a value\<close>

definition wr_ok :: "bit_writer \<Rightarrow> bool" where
  "wr_ok w \<longleftrightarrow> bw_offset w < 8 \<and> 8 * bw_pos w + bw_offset w \<le> 8 * length (bw_buf w)"

definition wr_at :: "bit_writer \<Rightarrow> nat" where
  "wr_at w = 8 * bw_pos w + bw_offset w"

definition written :: "bit_writer \<Rightarrow> bool list" where
  "written w = take (wr_at w) (bits_of (bw_buf w))"

lemma wr_remaining: "wr_ok w \<Longrightarrow> bw_remaining w = int (8 * length (bw_buf w) - wr_at w)"
  by (simp add: wr_ok_def wr_at_def bw_remaining_def of_nat_diff)

lemma partial_byte_bits:
  assumes "off + m \<le> 8" "i < 8" "\<And>i. off \<le> i \<Longrightarrow> i < 8 - m \<Longrightarrow> \<not> bit s i"
  shows "bit (write_partial_byte s m t off) i = (if 8 - m \<le> i + off \<and> i + off < 8 then bit s (i + off) else bit t i)"
proof -
  have ff: "bit (0xff :: u8) k \<longleftrightarrow> k < 8" for k
  proof -
    have "(0xff :: u8) = mask 8" by (simp add: mask_eq_exp_minus_1)
    then show ?thesis by (simp only: bit_mask_iff) simp
  qed
  have "bit (drop_bit off (push_bit (8 - m) 0xff) :: u8) i \<longleftrightarrow> 8 - m \<le> i + off \<and> i + off < 8"
    by (auto simp only: bit_drop_bit_eq bit_push_bit_iff ff o_def add.commute [of off]) auto
  moreover have "bit s (i + off) \<Longrightarrow> i + off < 8" using bit_imp_le_length [of s "i + off"] by simp
  moreover have "\<not> bit s (i + off)" if "i + off < 8 - m" using assms(3) [of "i + off"] that by simp
  ultimately show ?thesis using assms(2) unfolding write_partial_byte_def Let_def
    by (auto simp: bit_or_iff bit_and_iff bit_not_iff bit_drop_bit_eq add.commute [of off] simp del: push_bit_of_1)
qed

lemma write_partial_bits:
  assumes "off + m \<le> 8" "p < length buf" "\<And>i. off \<le> i \<Longrightarrow> i < 8 - m \<Longrightarrow> \<not> bit s i"
  shows "sbit (buf[p := write_partial_byte s m (buf ! p) off]) j =
    (if 8 * p + off \<le> j \<and> j < 8 * p + off + m then bit s (7 - (j - (8 * p + off))) else sbit buf j)"
proof (cases "j div 8 = p")
  case True
  define t where "t = j mod 8"
  have j: "j = 8 * p + t" "t < 8" using True by (auto simp: t_def)
  have d: "j div 8 = p" "j mod 8 = t" using True by (simp_all add: t_def)
  have i: "8 - m \<le> 7 - t + off \<and> 7 - t + off < 8 \<longleftrightarrow> off \<le> t \<and> t < off + m" using j(2) assms(1) by auto
  have r: "8 * p + off \<le> j \<and> j < 8 * p + off + m \<longleftrightarrow> off \<le> t \<and> t < off + m" unfolding j(1) by auto
  have e: "7 - t + off = 7 - (j - (8 * p + off))" if "off \<le> t" using j that by simp
  show ?thesis unfolding sbit_update [OF assms(2)] d r
    using partial_byte_bits [OF assms(1), of "7 - t" s "buf ! p", OF _ assms(3)] i e
    by (auto simp: sbit_def d)
next
  case False
  then have "\<not> (8 * p + off \<le> j \<and> j < 8 * p + off + m)" using assms(1) by auto
  then show ?thesis using False by (auto simp: sbit_update [OF assms(2)])
qed

lemma write_bytes_bits:
  "p + n div 8 \<le> length buf \<Longrightarrow>
   \<exists>buf'. write_bytes buf p v n = Some (buf', p + n div 8, push_bit (8 * (n div 8)) v, n mod 8) \<and> length buf' = length buf \<and>
     (\<forall>j. sbit buf' j = (if 8 * p \<le> j \<and> j < 8 * (p + n div 8) then bit (push_bit (j - 8 * p) v) 63 else sbit buf j))"
proof (induction buf p v n rule: write_bytes.induct)
  case (1 buf p v n)
  show ?case
  proof (cases "n \<ge> 8")
    case True
    define m where "m = n div 8 - 1"
    have d: "n div 8 = m + 1" "(n - 8) div 8 = m" "(n - 8) mod 8 = n mod 8" using True by (simp_all add: m_def le_div_geq le_mod_geq)
    have p: "p < length buf" using 1(2) d by simp
    let ?b = "buf[p := ucast (drop_bit 56 v)]"
    have g: "go_update buf (int p) (ucast (drop_bit 56 v)) = Some ?b" using p by (simp add: go_update_def)
    have "p + 1 + (n - 8) div 8 \<le> length ?b" using 1(2) d by simp
    from "1.IH" [OF True g this, unfolded d] obtain buf' where
      b: "write_bytes ?b (p + 1) (push_bit 8 v) (n - 8) = Some (buf', p + 1 + m, push_bit (8 * m) (push_bit 8 v), n mod 8)"
        "length buf' = length ?b"
        "\<And>j. sbit buf' j = (if 8 * (p + 1) \<le> j \<and> j < 8 * (p + 1 + m) then bit (push_bit (j - 8 * (p + 1)) (push_bit 8 v)) 63 else sbit ?b j)"
      by blast
    have "write_bytes buf p v n = Some (buf', p + (m + 1), push_bit (8 * (m + 1)) v, n mod 8)"
      by (subst write_bytes.simps) (use True g b(1) in \<open>simp add: algebra_simps\<close>)
    moreover have "sbit buf' j = (if 8 * p \<le> j \<and> j < 8 * (p + (m + 1)) then bit (push_bit (j - 8 * p) v) 63 else sbit buf j)" for j
    proof -
      consider (low) "j < 8 * p" | (here) t where "j = 8 * p + t" "t < 8" | (high) t where "j = 8 * (p + 1) + t"
      proof (cases "j < 8 * p")
        case False
        then obtain u where u: "j = 8 * p + u" by (metis le_Suc_ex leI)
        show thesis
        proof (cases "u < 8")
          case False
          then obtain t where "u = 8 + t" by (metis le_Suc_ex leI)
          with u show thesis by (intro that(3) [of t]) simp
        qed (use u that(2) in blast)
      qed (use that(1) in blast)
      then show ?thesis
      proof cases
        case low
        then have "j div 8 \<noteq> p" by auto
        then show ?thesis using low by (simp add: b(3) sbit_update [OF p])
      next
        case here
        then have "j div 8 = p" "j mod 8 = t" by simp_all
        moreover have "63 - t = 56 + (7 - t)" "7 - t < 8" using here(2) by simp_all
        ultimately show ?thesis using here
          by (simp add: b(3) sbit_update [OF p] bit_ucast_iff bit_drop_bit_eq bit_push_bit_iff)
      next
        case high
        then have "j div 8 \<noteq> p" by simp
        moreover have "t + 8 \<le> 63 \<Longrightarrow> 63 - (t + 8) = 63 - t - 8" by simp
        ultimately show ?thesis using high
          by (auto simp: b(3) sbit_update [OF p] bit_push_bit_iff)
      qed
    qed
    ultimately show ?thesis using b(2) unfolding d(1) by (intro exI [of _ buf']) simp
  next
    case False
    then show ?thesis by (subst write_bytes.simps) auto
  qed
qed

text \<open>Bit \<open>t\<close> of the \<open>n\<close> bits to write, when they are moved to the top.\<close>

lemma top_aligned:
  fixes val :: u64
  assumes "n \<le> 64"
  shows "t < n \<Longrightarrow> bit (push_bit t (push_bit (64 - n) val)) 63 = bit val (n - 1 - t)"
    "i < 64 - n \<Longrightarrow> \<not> bit (push_bit (64 - n) val) i"
  using assms by (auto simp: bit_push_bit_iff)

lemma write_aligned_bits:
  fixes val :: u64
  assumes n: "n \<le> 64" "0 < n" "s + k \<le> n" and p: "p < length buf"
    and off: "off + k \<le> 8" "s + k = n \<or> off + k = 8"
  shows "sbit (buf[p := write_partial_byte (ucast (drop_bit 56 (push_bit s (push_bit (64 - n) val)))) k (buf ! p) off]) j =
    (if 8 * p + off \<le> j \<and> j < 8 * p + off + k then bit val (n - 1 - (s + (j - (8 * p + off)))) else sbit buf j)"
proof -
  define v where "v = push_bit (64 - n) val"
  note top = top_aligned [OF n(1), of _ val, folded v_def]
  let ?b = "ucast (drop_bit 56 (push_bit s v)) :: u8"
  have "sbit (buf[p := write_partial_byte ?b k (buf ! p) off]) j =
    (if 8 * p + off \<le> j \<and> j < 8 * p + off + k then bit ?b (7 - (j - (8 * p + off))) else sbit buf j)"
  proof (rule write_partial_bits [OF off(1) p])
    fix i assume "off \<le> i" "i < 8 - k"
    then have "s \<le> 56 + i \<Longrightarrow> 56 + i - s < 64 - n" using n off by linarith
    then show "\<not> bit ?b i" using top(2) by (auto simp: bit_ucast_iff bit_drop_bit_eq bit_push_bit_iff)
  qed
  moreover have "bit ?b (7 - t) = bit val (n - 1 - (s + t))" if "t < k" for t
  proof -
    have t: "t < 8" "s + t < n" using that n(3) off(1) by linarith+
    then have "63 - t = 56 + (7 - t)" "7 - t < 8" "s \<le> 63 - t \<longleftrightarrow> t + s \<le> 63" "63 - t < 64" by auto
    then have "bit ?b (7 - t) = bit (push_bit t (push_bit s v)) 63"
      using t(1) by (simp add: bit_ucast_iff bit_drop_bit_eq bit_push_bit_iff)
    also have "\<dots> = bit (push_bit (s + t) v) 63" by (simp only: push_bit_push_bit add.commute)
    finally show ?thesis using top(1) [OF t(2)] by simp
  qed
  from this [of "j - (8 * p + off)"] have "bit ?b (7 - (j - (8 * p + off))) = bit val (n - 1 - (s + (j - (8 * p + off))))"
    if "8 * p + off \<le> j" "j < 8 * p + off + k" using that by linarith
  ultimately show ?thesis unfolding v_def [symmetric] by presburger
qed

lemma write_bits_value:
  assumes ok: "wr_ok w" and n: "0 < n" "n \<le> 64" "wr_at w + n \<le> 8 * length (bw_buf w)"
  shows "\<exists>w'. write_bits val n w = Some (w', Inr ()) \<and> wr_ok w' \<and> wr_at w' = wr_at w + n \<and>
    length (bw_buf w') = length (bw_buf w) \<and>
    (\<forall>j. sbit (bw_buf w') j = (if wr_at w \<le> j \<and> j < wr_at w + n then bit val (n - 1 - (j - wr_at w)) else sbit (bw_buf w) j))"
proof -
  let ?buf = "bw_buf w" and ?p = "bw_pos w" and ?off = "bw_offset w"
  define v where "v = push_bit (64 - n) val"
  define room where "room = 8 - ?off"
  define first where "first = min n room"
  define P where "P = wr_at w"
  note top = top_aligned [OF n(2), of _ val, folded v_def]
  have off: "?off < 8" and P: "P = 8 * ?p + ?off" using ok by (simp_all add: wr_ok_def P_def wr_at_def)
  have p: "?p < length ?buf" using n(1,3) P unfolding P_def [symmetric] by linarith
  have fit: "\<not> int n > bw_remaining w" using n(3) by (simp add: wr_remaining [OF ok])
  let ?buf1 = "?buf[?p := write_partial_byte (ucast (drop_bit 56 v)) first (?buf ! ?p) ?off]"
  have head: "sbit ?buf1 j = (if P \<le> j \<and> j < P + first then bit val (n - 1 - (j - P)) else sbit ?buf j)" for j
  proof -
    have "first \<le> n" "?off + first \<le> 8" "first = n \<or> ?off + first = 8" using off by (auto simp: first_def room_def)
    then show ?thesis
      using write_aligned_bits [OF n(2,1) _ p, of 0 first ?off val j, folded P v_def] by simp
  qed
  define rest where "rest = (if n \<le> room then Some ?buf1
     else do {
       (buf2, p, v2, n2) \<leftarrow> write_bytes ?buf1 (?p + 1) (push_bit first v) (n - first);
       if n2 > 0 then do {
           c \<leftarrow> go_nth buf2 (int p);
           go_update buf2 (int p) (write_partial_byte (ucast (drop_bit 56 v2)) n2 c 0) }
         else Some buf2 })"
  have "\<exists>buf3. rest = Some buf3 \<and> length buf3 = length ?buf \<and>
    (\<forall>j. sbit buf3 j = (if P \<le> j \<and> j < P + n then bit val (n - 1 - (j - P)) else sbit ?buf j))"
  proof (cases "n \<le> room")
    case True
    then have "first = n" by (simp add: first_def)
    then show ?thesis using True head by (simp add: rest_def)
  next
    case False
    then have first: "first = room" "n = first + (n - first)" by (simp_all add: first_def)
    have P1: "P + first = 8 * (?p + 1)" using off by (simp add: P first(1) room_def)
    define m d where "m = (n - first) mod 8" and "d = (n - first) div 8"
    define q where "q = ?p + 1 + d"
    have "8 * ((n - first) div 8) + (n - first) mod 8 = n - first" "(n - first) mod 8 < 8" by simp_all
    then have d: "8 * d + m = n - first" "m < 8" unfolding m_def d_def by blast+
    then have q: "8 * q + m = P + n" "m < 8" using P1 first(2) unfolding q_def by (auto simp: algebra_simps)
    have "?p + 1 + (n - first) div 8 \<le> length ?buf1" unfolding d_def [symmetric] using q n(3) unfolding q_def [symmetric] P_def [symmetric] by simp
    from write_bytes_bits [OF this, of "push_bit first v"] obtain buf2 where
      b2: "write_bytes ?buf1 (?p + 1) (push_bit first v) (n - first) =
          Some (buf2, q, push_bit (8 * d) (push_bit first v), m)"
        "length buf2 = length ?buf"
        "\<And>j. sbit buf2 j = (if 8 * (?p + 1) \<le> j \<and> j < 8 * q then bit (push_bit (j - 8 * (?p + 1)) (push_bit first v)) 63 else sbit ?buf1 j)"
      unfolding m_def [symmetric] d_def [symmetric] q_def [symmetric] by auto
    have "8 * d + first = n - m" using d(1) first(2) by linarith
    then have v2: "push_bit (8 * d) (push_bit first v) = push_bit (n - m) v" by (simp only: push_bit_push_bit)
    have bytes: "sbit buf2 j = (if P \<le> j \<and> j < 8 * q then bit val (n - 1 - (j - P)) else sbit ?buf j)" for j
    proof -
      have "bit (push_bit (j - 8 * (?p + 1)) (push_bit first v)) 63 = bit val (n - 1 - (j - P))"
        if j: "8 * (?p + 1) \<le> j" "j < 8 * q"
      proof -
        have "j - 8 * (?p + 1) + first = j - P" using j(1) unfolding P1 [symmetric] by simp
        moreover have "j - P < n" using j q(1) P1 by linarith
        ultimately show ?thesis using top(1) by (simp only: push_bit_push_bit)
      qed
      moreover have "8 * (?p + 1) \<le> 8 * q" by (simp add: q_def)
      ultimately show ?thesis unfolding b2(3) using head [of j] P1 by auto
    qed
    show ?thesis
    proof (cases "m = 0")
      case True
      then have "rest = Some buf2" using False b2(1) by (simp add: rest_def)
      moreover have "8 * q = P + n" using q(1) True by simp
      ultimately show ?thesis using b2(2) bytes by auto
    next
      case m: False
      have lt: "q < length buf2" using m q n(3) b2(2) unfolding P_def [symmetric] by linarith
      let ?buf3 = "buf2[q := write_partial_byte (ucast (drop_bit 56 (push_bit (n - m) v))) m (buf2 ! q) 0]"
      have "rest = Some ?buf3" using False b2(1) m lt unfolding v2 by (simp add: rest_def)
      moreover have "sbit ?buf3 j = (if P \<le> j \<and> j < P + n then bit val (n - 1 - (j - P)) else sbit ?buf j)" for j
      proof -
        have m: "n - m + m = n" using d(1) first(2) by linarith
        have "sbit ?buf3 j = (if 8 * q \<le> j \<and> j < 8 * q + m then bit val (n - 1 - (n - m + (j - 8 * q))) else sbit buf2 j)"
          using write_aligned_bits [OF n(2,1) _ lt, of "n - m" m 0 val j, folded v_def] m q(2) by simp
        moreover have "P \<le> 8 * q" "8 * q \<le> j \<Longrightarrow> n - m + (j - 8 * q) = j - P" using q(1) m by linarith+
        ultimately show ?thesis using bytes [of j] q(1) by auto
      qed
      ultimately show ?thesis using b2(2) by (intro exI [of _ ?buf3]) simp
    qed
  qed
  then obtain buf3 where b: "rest = Some buf3" "length buf3 = length ?buf"
    "\<And>j. sbit buf3 j = (if P \<le> j \<and> j < P + n then bit val (n - 1 - (j - P)) else sbit ?buf j)" by blast
  let ?w = "w\<lparr>bw_buf := buf3, bw_pos := ?p + (?off + n) div 8, bw_offset := (?off + n) mod 8\<rparr>"
  have "write_bits val n w = (case rest of None \<Rightarrow> None | Some buf \<Rightarrow> consume_bits n (w\<lparr>bw_buf := buf\<rparr>))"
    using fit n(2) p unfolding write_bits_def rest_def first_def room_def v_def Let_def
    by (auto split: option.splits Option.bind_splits)
  also have "\<dots> = Some (?w, Inr ())" using b(1,2) fit by (simp add: consume_bits_def bw_remaining_def)
  finally have "write_bits val n w = Some (?w, Inr ())" .
  moreover have at: "wr_at ?w = P + n" by (simp add: wr_at_def P)
  moreover have "wr_ok ?w" using at n(3) b(2) by (simp add: wr_ok_def wr_at_def P_def)
  ultimately show ?thesis using b(2,3) by (intro exI [of _ ?w]) (simp add: P_def)
qed

lemma write_bits_next:
  assumes "wr_ok w" "0 < n" "n \<le> 64" "wr_at w + n \<le> 8 * length (bw_buf w)"
  shows "\<exists>w'. write_bits val n w = Some (w', Inr ()) \<and> wr_ok w' \<and> wr_at w' = wr_at w + n \<and>
    length (bw_buf w') = length (bw_buf w) \<and> written w' = written w @ to_bits n val"
proof -
  from write_bits_value [OF assms, of val] obtain w' where
    w: "write_bits val n w = Some (w', Inr ())" "wr_ok w'" "wr_at w' = wr_at w + n" "length (bw_buf w') = length (bw_buf w)"
      "\<And>j. sbit (bw_buf w') j = (if wr_at w \<le> j \<and> j < wr_at w + n then bit val (n - 1 - (j - wr_at w)) else sbit (bw_buf w) j)"
    by blast
  have "written w' = written w @ to_bits n val"
  proof (rule nth_equalityI)
    show "length (written w') = length (written w @ to_bits n val)" using assms(4) w(3,4) by (simp add: written_def)
    fix j assume "j < length (written w')"
    then have j: "j < wr_at w + n" "j < 8 * length (bw_buf w)" using w(3,4) by (simp_all add: written_def)
    then have "written w' ! j = sbit (bw_buf w') j" using w(3,4) by (simp add: written_def bits_of_def)
    moreover have "written w ! j = sbit (bw_buf w) j" if "j < wr_at w" using j that by (simp add: written_def bits_of_def)
    moreover have "length (written w) = wr_at w" using assms(4) by (simp add: written_def)
    ultimately show "written w' ! j = (written w @ to_bits n val) ! j"
      using j by (auto simp: nth_append w(5) to_bits_nth)
  qed
  with w show ?thesis by blast
qed

section \<open>Specifications of readers and writers\<close>

text \<open>
  A reader that finds the bits \<open>bs\<close> next returns the value \<open>x\<close> and leaves the rest; a writer
  with room for the bits \<open>bs\<close> appends them.  The rules follow the structure of the code.
\<close>

definition parses :: "(bit_reader, 'a) go \<Rightarrow> bool list \<Rightarrow> 'a \<Rightarrow> bool" where
  "parses m bs x \<longleftrightarrow> (\<forall>r rest. rd_ok r \<and> unread r = bs @ rest \<longrightarrow>
     (\<exists>r'. m r = Some (r', Inr x) \<and> rd_ok r' \<and> br_buf r' = br_buf r \<and> unread r' = rest))"

definition emits :: "(bit_writer, unit) go \<Rightarrow> bool list \<Rightarrow> bool" where
  "emits m bs \<longleftrightarrow> (\<forall>w. wr_ok w \<and> wr_at w + length bs \<le> 8 * length (bw_buf w) \<longrightarrow>
     (\<exists>w'. m w = Some (w', Inr ()) \<and> wr_ok w' \<and> wr_at w' = wr_at w + length bs \<and>
        length (bw_buf w') = length (bw_buf w) \<and> written w' = written w @ bs))"

named_theorems stream_intros \<open>how readers and writers compose\<close>

lemma parses_return [stream_intros]: "parses (go_return x) [] x"
  by (simp add: parses_def)

lemma parses_then [stream_intros]:
  assumes "parses m as x" "parses (f x) bs y"
  shows "parses (go_then m f) (as @ bs) y"
  unfolding parses_def
proof (intro allI impI, elim conjE)
  fix r rest assume r: "rd_ok r" "unread r = (as @ bs) @ rest"
  then obtain r1 where r1: "m r = Some (r1, Inr x)" "rd_ok r1" "br_buf r1 = br_buf r" "unread r1 = bs @ rest"
    using assms(1) unfolding parses_def append_assoc by blast
  then obtain r2 where "f x r1 = Some (r2, Inr y)" "rd_ok r2" "br_buf r2 = br_buf r1" "unread r2 = rest"
    using assms(2) unfolding parses_def by blast
  then show "\<exists>r'. go_then m f r = Some (r', Inr y) \<and> rd_ok r' \<and> br_buf r' = br_buf r \<and> unread r' = rest"
    using r1 by (simp add: go_then_simps(3) [of m r r1 x f])
qed

lemma parses_cong: "parses m bs x \<Longrightarrow> bs = bs' \<Longrightarrow> parses m bs' x"
  by simp

lemma parses_map:
  "length ks = length ys \<Longrightarrow> (\<And>y. y \<in> set ys \<Longrightarrow> parses m (enc y) y) \<Longrightarrow>
   parses (go_map (\<lambda>_. m) ks) (concat (map enc ys)) ys"
proof (induction ks ys rule: list_induct2)
  case Nil
  show ?case by (simp add: parses_return del: go_return_simp)
next
  case (Cons k ks y ys)
  have "parses (go_map (\<lambda>_. m) ks) (concat (map enc ys)) ys" using Cons.IH Cons.prems by simp
  from parses_then [OF this parses_return, of "\<lambda>ys. y # ys"]
  have "parses (go_then (go_map (\<lambda>_. m) ks) (\<lambda>ys. go_return (y # ys))) (concat (map enc ys)) (y # ys)"
    by (simp del: go_return_simp)
  moreover have "parses m (enc y) y" using Cons.prems by simp
  ultimately show ?case unfolding go_map.simps list.map concat.simps by (intro parses_then)
qed

lemma parses_bits [stream_intros]:
  assumes "n \<le> 64" "take_bit n v = v"
  shows "parses (read_bits (int n)) (to_bits n v) v"
  unfolding parses_def
proof (intro allI impI, elim conjE)
  fix r rest assume r: "rd_ok r" "unread r = to_bits n v @ rest"
  from read_bits_next [OF r(1) assms(1)] r(2) obtain r' u where
    u: "read_bits (int n) r = Some (r', Inr u)" "rd_ok r'" "br_buf r' = br_buf r" "unread r' = rest"
      "to_bits n u = to_bits n v" "take_bit n u = u" by auto
  have "u = v" using to_bits_take [OF assms(1) u(5)] u(6) assms(2) by simp
  with u show "\<exists>r'. read_bits (int n) r = Some (r', Inr v) \<and> rd_ok r' \<and> br_buf r' = br_buf r \<and> unread r' = rest" by blast
qed

lemma parses_bool [stream_intros]: "parses read_bool [b] b"
proof -
  let ?v = "of_bool b :: u64"
  have "parses (read_bits (int 1)) (to_bits 1 ?v) ?v" by (rule parses_bits) (simp_all add: take_bit_eq_mod)
  moreover have "to_bits 1 ?v = [b]" by (simp add: to_bits_def)
  ultimately have "parses (read_bits 1) [b] ?v" by simp
  from parses_then [OF this, of "\<lambda>v. go_return (v \<noteq> 0)" "[]" b] show ?thesis
    by (simp add: read_bool_def parses_return)
qed

lemma emits_return [stream_intros]: "emits (go_return ()) []"
  by (simp add: emits_def)

lemma emits_then [stream_intros]:
  assumes "emits m as" "emits (f ()) bs"
  shows "emits (go_then m f) (as @ bs)"
  unfolding emits_def
proof (intro allI impI, elim conjE)
  fix w assume w: "wr_ok w" "wr_at w + length (as @ bs) \<le> 8 * length (bw_buf w)"
  then obtain w1 where w1: "m w = Some (w1, Inr ())" "wr_ok w1" "wr_at w1 = wr_at w + length as"
      "length (bw_buf w1) = length (bw_buf w)" "written w1 = written w @ as"
    using assms(1) unfolding emits_def by fastforce
  then obtain w2 where "f () w1 = Some (w2, Inr ())" "wr_ok w2" "wr_at w2 = wr_at w1 + length bs"
      "length (bw_buf w2) = length (bw_buf w1)" "written w2 = written w1 @ bs"
    using assms(2) w(2) unfolding emits_def by fastforce
  then show "\<exists>w'. go_then m f w = Some (w', Inr ()) \<and> wr_ok w' \<and> wr_at w' = wr_at w + length (as @ bs) \<and>
      length (bw_buf w') = length (bw_buf w) \<and> written w' = written w @ as @ bs"
    using w1 by (simp add: go_then_simps(3) [of m w w1 "()" f])
qed

lemma emits_each:
  "(\<And>x. x \<in> set xs \<Longrightarrow> emits (f x) (enc x)) \<Longrightarrow> emits (go_each f xs) (concat (map enc xs))"
proof (induction xs)
  case Nil
  show ?case by (simp add: emits_return del: go_return_simp)
next
  case (Cons x xs)
  then have "emits (f x) (enc x)" "emits (go_each f xs) (concat (map enc xs))" by simp_all
  then show ?case by (simp add: emits_then)
qed

lemma emits_bits [stream_intros]: "0 < n \<Longrightarrow> n \<le> 64 \<Longrightarrow> emits (write_bits v n) (to_bits n v)"
  using write_bits_next [of _ n v] by (simp add: emits_def)

lemma emits_bool [stream_intros]: "emits (write_bool b) [b]"
proof -
  have "to_bits 1 (if b then 1 else 0) = [b]" by (simp add: to_bits_def)
  with emits_bits [of 1 "if b then 1 else 0"] show ?thesis by (simp add: write_bool_def)
qed

section \<open>Numbers below a bound\<close>

text \<open>
  The code for a value below \<open>num\<close>: with \<open>k = 2 ^ width - num\<close>, a value below \<open>k\<close> takes one bit
  less than the others, which are moved up by \<open>k\<close>.
\<close>

definition ns_bits :: "nat \<Rightarrow> nat \<Rightarrow> bool list" where
  "ns_bits val num = (let count = bitwidth num; k = 2 ^ count - num in
     if val < k then to_bits (count - 1) (of_nat val) else to_bits count (of_nat (val + k)))"

lemma bitwidth_bounds: "n < 2 ^ bitwidth n" "0 < n \<Longrightarrow> 2 ^ (bitwidth n - 1) \<le> n" "0 < n \<Longrightarrow> 0 < bitwidth n"
proof (induction n rule: bitwidth.induct)
  case (1 n)
  have half: "n = 2 * (n div 2) + n mod 2" "n mod 2 < 2" by simp_all
  { case 1
    show ?case
    proof (cases "n = 0")
      case False
      then have "n div 2 < 2 ^ bitwidth (n div 2)" using "1.IH"(1) by simp
      then have "n < 2 * 2 ^ bitwidth (n div 2)" by linarith
      then show ?thesis using False by (simp add: bitwidth.simps [of n])
    qed (simp add: bitwidth.simps [of 0])
  }
  { case 2
    then have w: "bitwidth n - 1 = bitwidth (n div 2)" by (simp add: bitwidth.simps [of n])
    show ?case
    proof (cases "n div 2 = 0")
      case True
      then show ?thesis using 2 unfolding w by (simp add: bitwidth.simps [of 0])
    next
      case False
      then have "2 ^ (bitwidth (n div 2) - 1) \<le> n div 2" "0 < bitwidth (n div 2)" using "1.IH"(2,3) 2 by simp_all
      then have "2 ^ bitwidth (n div 2) \<le> 2 * (n div 2)" by (cases "bitwidth (n div 2)") simp_all
      then show ?thesis unfolding w by linarith
    qed
  }
  { case 3 then show ?case by (simp add: bitwidth.simps [of n]) }
qed

lemma bitwidth_small: "n < 2 ^ k \<Longrightarrow> bitwidth n \<le> k"
proof (rule ccontr)
  assume "n < 2 ^ k" "\<not> bitwidth n \<le> k"
  moreover from this(2) have "0 < n" by (cases n) (simp_all add: bitwidth.simps [of 0])
  moreover have "(2 :: nat) ^ k \<le> 2 ^ (bitwidth n - 1)" using \<open>\<not> bitwidth n \<le> k\<close> by (intro power_increasing) auto
  ultimately show False using bitwidth_bounds(2) [of n] by linarith
qed

lemma to_bits_append:
  "to_bits (n + m) v = to_bits n (drop_bit m v) @ to_bits m v"
  by (rule nth_equalityI) (auto simp: nth_append to_bits_nth bit_drop_bit_eq intro!: arg_cong [where f = "bit v"])

text \<open>The quantities of the code, for a bound below \<open>2 ^ 31\<close>.\<close>

lemma ns_facts:
  assumes "val < num" "num < 2 ^ 31"
  defines "count \<equiv> bitwidth num" and "k \<equiv> 2 ^ bitwidth num - num"
  shows "1 \<le> count" "count \<le> 31" "num < 2 ^ count" "2 ^ (count - 1) \<le> num" "k \<le> 2 ^ (count - 1)"
    "push_bit count 1 - (of_nat num :: u32) = of_nat k" "k < 2 ^ 31" "k + num = 2 ^ count" "val + k < 2 ^ count"
proof -
  show c: "1 \<le> count" "num < 2 ^ count" "2 ^ (count - 1) \<le> num"
    using bitwidth_bounds [of num] assms(1) by (simp_all add: count_def Suc_le_eq)
  show "count \<le> 31" using bitwidth_small [OF assms(2)] by (simp add: count_def)
  show s: "k + num = 2 ^ count" using c(2) by (simp add: k_def count_def)
  have "(2 :: nat) ^ count = 2 * 2 ^ (count - 1)" using c(1) by (simp add: power_eq_if)
  then show k: "k \<le> 2 ^ (count - 1)" using s c(3) by linarith
  then show "k < 2 ^ 31" using c(3) assms(2) by linarith
  show "val + k < 2 ^ count" using s assms(1) by linarith
  have "(of_nat (k + num) :: u32) = of_nat (2 ^ count)" using s by simp
  then show "push_bit count 1 - (of_nat num :: u32) = of_nat k" by (simp add: push_bit_eq_mult algebra_simps)
qed

lemma small_word: "n < 2 ^ 31 \<Longrightarrow> unat (of_nat n :: u32) = n" "n < 2 ^ 31 \<Longrightarrow> unat (of_nat n :: u64) = n"
  by (simp_all add: unat_of_nat take_bit_nat_eq_self)

lemma small_less:
  assumes "a < 2 ^ 31" "b < 2 ^ 31"
  shows "(of_nat a :: u32) < of_nat b \<longleftrightarrow> a < b" "(of_nat a :: u64) < of_nat b \<longleftrightarrow> a < b"
    "(of_nat a :: u32) = of_nat b \<longleftrightarrow> a = b"
  using assms by (simp_all add: word_less_nat_alt small_word word_unat_eq_iff)

lemma small_ucast: "n < 2 ^ 31 \<Longrightarrow> ucast (of_nat n :: u32) = (of_nat n :: u64)" "n < 2 ^ 31 \<Longrightarrow> ucast (of_nat n :: u64) = (of_nat n :: u32)"
  by (simp_all add: unsigned_of_nat take_bit_nat_eq_self)

lemma emits_non_symmetric:
  assumes v: "val < num" "num < 2 ^ 31"
  shows "emits (write_non_symmetric (of_nat val) (of_nat num)) (ns_bits val num)"
proof -
  note f = ns_facts [OF v]
  let ?k = "2 ^ bitwidth num - num"
  have val: "val < 2 ^ 31" using v by simp
  have lim: "\<not> (of_nat num :: u32) > push_bit 31 1" "\<not> (of_nat val :: u32) \<ge> of_nat num"
    using v(1) small_less(1) [OF val v(2)] v(2)
    by (simp_all add: word_less_nat_alt small_word push_bit_eq_mult not_le not_less)
  show ?thesis
  proof (cases "num = 1")
    case True
    then have "ns_bits val num = []" using v(1) by (simp add: ns_bits_def bitwidth.simps Let_def to_bits_def)
    then show ?thesis using True lim by (simp add: write_non_symmetric_def emits_return del: go_return_simp)
  next
    case False
    then have c: "2 \<le> bitwidth num" using v(1) f(1,3) by (cases "bitwidth num = 1") auto
    have one: "(of_nat num :: u32) \<noteq> 1" using False small_less(3) [of num 1] v(2) by simp
    have w: "unat (of_nat num :: u32) = num" by (rule small_word(1) [OF v(2)])
    have eq: "write_non_symmetric (of_nat val) (of_nat num) =
      (if val < ?k then write_bits (of_nat val) (bitwidth num - 1) else write_bits (of_nat (val + ?k)) (bitwidth num))"
    proof -
      have "val + ?k < 2 ^ 32" using f(2,9) by (rule_tac less_le_trans [OF f(9)]) (simp add: power_increasing [of _ 32 "2::nat", simplified])
      then have "ucast (of_nat (val + ?k) :: u32) = (of_nat (val + ?k) :: u64)"
        by (simp add: unsigned_of_nat take_bit_nat_eq_self del: of_nat_add)
      then have "ucast (of_nat val + of_nat ?k :: u32) = (of_nat (val + ?k) :: u64)" by simp
      then show ?thesis using lim one small_less(1) [OF val f(7)] small_ucast(1) [OF val]
        by (simp add: write_non_symmetric_def Let_def w f(6) [simplified] del: of_nat_add)
    qed
    show ?thesis unfolding eq ns_bits_def Let_def using c f(2) by (auto intro!: emits_bits)
  qed
qed

lemma take_small: "n < 2 ^ k \<Longrightarrow> n < 2 ^ 31 \<Longrightarrow> take_bit k (of_nat n :: u64) = of_nat n"
  by (simp add: take_bit_of_nat take_bit_nat_eq_self)

text \<open>The code of \<open>ReadNonSymmetric\<close> for a bound below \<open>2 ^ 31\<close>.\<close>

lemma read_non_symmetric_eq:
  assumes "0 < num" "num < 2 ^ 31"
  defines "c \<equiv> bitwidth num" and "k \<equiv> 2 ^ bitwidth num - num"
  shows "read_non_symmetric (of_nat num) = go_then (read_bits (int (c - 1))) (\<lambda>v.
      if v < of_nat k then go_return (ucast v)
      else go_then (read_bits 1) (\<lambda>b. go_return (ucast (push_bit 1 v + b - of_nat k))))"
proof -
  note f = ns_facts [OF assms(1,2), folded k_def, folded c_def]
  have lim: "\<not> (of_nat num :: u32) \<ge> push_bit 31 1"
    using assms(2) by (simp add: word_le_nat_alt small_word push_bit_eq_mult not_le)
  then show ?thesis using f(1) small_ucast(1) [OF f(7)]
    by (simp add: read_non_symmetric_def Let_def small_word(1) [OF assms(2)] c_def [symmetric] f(6) [simplified] of_nat_diff cong: if_cong)
qed

lemma parses_non_symmetric:
  assumes v: "val < num" "num < 2 ^ 31"
  shows "parses (read_non_symmetric (of_nat num)) (ns_bits val num) (of_nat val)"
proof -
  note f = ns_facts [OF v]
  define c where "c = bitwidth num"
  define k where "k = 2 ^ c - num"
  note f = f [folded c_def, folded k_def]
  have val: "val < 2 ^ 31" using v by simp
  have "0 < num" using v(1) by simp
  note eq = read_non_symmetric_eq [OF this v(2), folded c_def, folded k_def]
  show ?thesis
  proof (cases "val < k")
    case True
    then have "val < 2 ^ (c - 1)" using f(5) by linarith
    then have "parses (read_bits (int (c - 1))) (to_bits (c - 1) (of_nat val)) (of_nat val)"
      using f(2) val by (intro parses_bits take_small) auto
    from parses_then [OF this, of _ "[]" "of_nat val :: u32"] show ?thesis
      unfolding eq ns_bits_def Let_def c_def [symmetric] k_def [symmetric]
      using True small_less(2) [OF val f(7)] small_ucast(2) [OF val] parses_return [of "of_nat val :: u32"]
      by (simp del: go_return_simp)
  next
    case False
    define h b where "h = (val + k) div 2" and "b = (val + k) mod 2"
    have hb: "val + k = 2 * h + b" "b < 2" by (simp_all add: h_def b_def)
    have "(2 :: nat) ^ c = 2 * 2 ^ (c - 1)" using f(1) by (simp add: power_eq_if)
    then have h: "h < 2 ^ (c - 1)" "k \<le> h" "h < 2 ^ 31" using hb f(9) False val f(7) by linarith+
    have small: "val + k < 2 ^ 32" using val f(7) by simp
    have up: "(of_nat (val + k) :: u64) = push_bit 1 (of_nat h) + of_nat b"
      unfolding hb(1) by (simp add: push_bit_eq_mult)
    have "drop_bit 1 (of_nat (val + k) :: u64) = of_nat h"
      using small by (simp add: word_unat_eq_iff unat_drop_bit_eq unsigned_of_nat take_bit_nat_eq_self drop_bit_eq_div unat_div h_def del: of_nat_add)
    moreover have "c = (c - 1) + 1" using f(1) by simp
    ultimately have bits: "to_bits c (of_nat (val + k)) = to_bits (c - 1) (of_nat h) @ to_bits 1 (of_nat (val + k))"
      using to_bits_append [of "c - 1" 1 "of_nat (val + k)"] by simp
    have "bit (of_nat (val + k) :: u64) 0 = bit (of_nat b :: u64) 0" using hb(2) unfolding hb(1) by (simp add: bit_0)
    then have last: "to_bits 1 (of_nat (val + k)) = to_bits 1 (of_nat b)" by (simp add: to_bits_def del: of_nat_add)
    have p1: "parses (read_bits (int (c - 1))) (to_bits (c - 1) (of_nat h)) (of_nat h)"
      using f(2) h by (intro parses_bits take_small) auto
    have p2: "parses (read_bits 1) (to_bits 1 (of_nat b)) (of_nat b)"
      using parses_bits [of 1 "of_nat b"] take_small [of b 1] hb(2) by simp
    have "push_bit 1 (of_nat h) + of_nat b - of_nat k = (of_nat val :: u64)"
      unfolding up [symmetric] by simp
    then have "parses (go_return (ucast (push_bit 1 (of_nat h :: u64) + of_nat b - of_nat k))) [] (of_nat val :: u32)"
      by (simp only: small_ucast(2) [OF val] parses_return)
    then have "parses (go_then (read_bits 1) (\<lambda>b. go_return (ucast (push_bit 1 (of_nat h :: u64) + b - of_nat k)))) (to_bits 1 (of_nat b)) (of_nat val :: u32)"
      by (intro parses_cong [OF parses_then [OF p2]]) simp_all
    then have "parses (if (of_nat h :: u64) < of_nat k then go_return (ucast (of_nat h :: u64))
        else go_then (read_bits 1) (\<lambda>b. go_return (ucast (push_bit 1 (of_nat h :: u64) + b - of_nat k)))) (to_bits 1 (of_nat b)) (of_nat val :: u32)"
      using small_less(2) [OF h(3) f(7)] h(2) by simp
    then show ?thesis
      unfolding eq ns_bits_def Let_def c_def [symmetric] k_def [symmetric] using False bits last
      by (intro parses_cong [OF parses_then [OF p1]]) simp_all
  qed
qed

text \<open>Reading consumes bits, so that loops over what is read end.\<close>

lemma read_bits_consumes:
  "read_bits n r = Some (r', Inr v) \<Longrightarrow> br_remaining r' = br_remaining r - n \<and> n \<le> br_remaining r"
  by (auto simp: read_bits_def Let_def split: if_splits Option.bind_splits)

lemma read_bool_consumes:
  "read_bool r = Some (r', Inr b) \<Longrightarrow> br_remaining r' = br_remaining r - 1 \<and> 1 \<le> br_remaining r"
  by (auto simp: read_bool_def go_then_def split: option.splits prod.splits sum.splits dest: read_bits_consumes)

section \<open>The two streams as lists of bits\<close>

text \<open>
  C31. A reader is a list of bits still to be read: as long as there are enough, reading a field of up
  to 64 bits returns the number that the next bits make, most significant first, and removes them;
  otherwise it returns an error and leaves the reader in a state in which every further read fails.
\<close>

theorem read_bits_takes_next:
  assumes "rd_ok r" "n \<le> 64"
  shows "\<exists>r' res. read_bits (int n) r = Some (r', res) \<and>
    (if n \<le> length (unread r)
     then \<exists>v. res = Inr v \<and> to_bits n v = take n (unread r) \<and> take_bit n v = v \<and>
       rd_ok r' \<and> br_buf r' = br_buf r \<and> unread r' = drop n (unread r)
     else res = Inl ErrEOF \<and> (\<forall>m. 0 \<le> m \<longrightarrow> (\<exists>r''. read_bits m r' = Some (r'', Inl ErrEOF) \<or> 64 < m)))"
proof (cases "n \<le> length (unread r)")
  case True
  then show ?thesis using read_bits_next [OF assms True] by auto
next
  case False
  have "br_remaining r < int n" using False rd_at_facts(4) [OF assms(1)] by simp
  then show ?thesis using False read_bits_short [OF assms] by (auto simp: read_bits_def)
qed

theorem read_bits_takes_next_witness:
  "\<exists>r' res. read_bits (int 11) (new_bit_reader [0xA5, 0x5A, 0xFF]) = Some (r', res) \<and>
    (if 11 \<le> length (unread (new_bit_reader [0xA5, 0x5A, 0xFF]))
     then \<exists>v. res = Inr v \<and> to_bits 11 v = take 11 (unread (new_bit_reader [0xA5, 0x5A, 0xFF])) \<and> take_bit 11 v = v \<and>
       rd_ok r' \<and> br_buf r' = br_buf (new_bit_reader [0xA5, 0x5A, 0xFF]) \<and> unread r' = drop 11 (unread (new_bit_reader [0xA5, 0x5A, 0xFF]))
     else res = Inl ErrEOF \<and> (\<forall>m. 0 \<le> m \<longrightarrow> (\<exists>r''. read_bits m r' = Some (r'', Inl ErrEOF) \<or> 64 < m)))"
  by (rule read_bits_takes_next) (simp_all add: rd_ok_def new_bit_reader_def)

text \<open>
  C32. A writer is the list of bits that it has written: a field of up to 64 bits is appended to it,
  most significant bit first, and nothing of what was written changes; when there is no room an error
  is returned and the writer, its buffer included, stays as it was.
\<close>

theorem write_bits_appends:
  assumes "wr_ok w" "0 < n" "n \<le> 64"
  shows "if wr_at w + n \<le> 8 * length (bw_buf w)
    then \<exists>w'. write_bits val n w = Some (w', Inr ()) \<and> wr_ok w' \<and> wr_at w' = wr_at w + n \<and>
      length (bw_buf w') = length (bw_buf w) \<and> written w' = written w @ to_bits n val
    else write_bits val n w = Some (w, Inl ErrInsufficientSpace)"
proof (cases "wr_at w + n \<le> 8 * length (bw_buf w)")
  case True
  with write_bits_next [OF assms True] show ?thesis by simp
next
  case False
  then have "int n > bw_remaining w" using wr_remaining [OF assms(1)] assms(1) by (simp add: wr_ok_def wr_at_def)
  then show ?thesis using False by (simp add: write_bits_def)
qed

theorem write_bits_appends_witness:
  "if wr_at \<lparr>bw_buf = [0xF0, 0], bw_pos = 0, bw_offset = 5\<rparr> + 10 \<le> 8 * length (bw_buf \<lparr>bw_buf = [0xF0, 0], bw_pos = 0, bw_offset = 5\<rparr>)
    then \<exists>w'. write_bits 0x3A7 10 \<lparr>bw_buf = [0xF0, 0], bw_pos = 0, bw_offset = 5\<rparr> = Some (w', Inr ()) \<and> wr_ok w' \<and>
      wr_at w' = wr_at \<lparr>bw_buf = [0xF0, 0], bw_pos = 0, bw_offset = 5\<rparr> + 10 \<and>
      length (bw_buf w') = length (bw_buf \<lparr>bw_buf = [0xF0, 0], bw_pos = 0, bw_offset = 5\<rparr>) \<and>
      written w' = written \<lparr>bw_buf = [0xF0, 0], bw_pos = 0, bw_offset = 5\<rparr> @ to_bits 10 0x3A7
    else write_bits 0x3A7 10 \<lparr>bw_buf = [0xF0, 0], bw_pos = 0, bw_offset = 5\<rparr> = Some (\<lparr>bw_buf = [0xF0, 0], bw_pos = 0, bw_offset = 5\<rparr>, Inl ErrInsufficientSpace)"
  by (rule write_bits_appends) (simp_all add: wr_ok_def)

end
