(* ===== verification/Dependency_Descriptor.thy ===== *)
theory Dependency_Descriptor
  imports Bit_Stream
begin

text \<open>
  The dependency descriptor of a video frame, an RTP header extension, and its reader and writer
  (\<open>dependencydescriptorextension.go\<close>, \<open>dependencydescriptorreader.go\<close> and
  \<open>dependencydescriptorwriter.go\<close> in \<open>pkg/sfu/rtpextension/dependencydescriptor\<close>).

  A descriptor under construction is not seen by anyone before the reader has returned without
  error, so the reader returns it as a value.  The dependencies of a frame are a copy of those of a
  template, whose slices are not nil: the tests of the writer for nil slices are left out.
\<close>

section \<open>Data\<close>

datatype dti = DecodeTargetNotPresent | DecodeTargetDiscardable | DecodeTargetSwitch | DecodeTargetRequired

fun dti_code :: "dti \<Rightarrow> u64" where
  "dti_code DecodeTargetNotPresent = 0"
| "dti_code DecodeTargetDiscardable = 1"
| "dti_code DecodeTargetSwitch = 2"
| "dti_code DecodeTargetRequired = 3"

definition dti_of_code :: "u64 \<Rightarrow> dti" where
  "dti_of_code x = (if x = 0 then DecodeTargetNotPresent else if x = 1 then DecodeTargetDiscardable
     else if x = 2 then DecodeTargetSwitch else DecodeTargetRequired)"

record fd_template =
  ft_spatial :: int
  ft_temporal :: int
  ft_dtis :: "dti list"
  ft_frame_diffs :: "int list"
  ft_chain_diffs :: "int list"

record render_resolution =
  rr_width :: int
  rr_height :: int

record fd_structure =
  fs_id :: int
  fs_num_targets :: int
  fs_num_chains :: int
  fs_protected :: "int list"
  fs_resolutions :: "render_resolution list"
  fs_templates :: "fd_template list"

record dd =
  dd_first :: bool
  dd_last :: bool
  dd_frame_number :: u16
  dd_dependencies :: "fd_template option"
  dd_resolution :: "render_resolution option"
  dd_bitmask :: "u32 option"
  dd_attached :: "fd_structure option"

definition max_spatial_ids :: int where "max_spatial_ids = 4"
definition max_temporal_ids :: int where "max_temporal_ids = 8"
definition max_decode_targets :: int where "max_decode_targets = 32"
definition max_templates :: nat where "max_templates = 64"

text \<open>The remainder of Go, which has the sign of the dividend.\<close>

definition go_rem :: "int \<Rightarrow> int \<Rightarrow> int" where
  "go_rem a b = (if a < 0 then - ((- a) mod b) else a mod b)"

section \<open>The reader\<close>

text \<open>\<open>Invalidate\<close> and the return of an error.\<close>

definition go_invalidate :: "dd_err \<Rightarrow> (bit_reader, 'a) go" where
  "go_invalidate e = (\<lambda>r. Some (r\<lparr>br_remaining := - 1\<rparr>, Inl e))"

definition reader_ok :: "(bit_reader, bool) go" where
  "reader_ok = (\<lambda>r. Some (r, Inr (br_remaining r \<ge> 0)))"

definition read_mandatory_fields :: "(bit_reader, bool \<times> bool \<times> int \<times> u16) go" where
  "read_mandatory_fields =
    go_then read_bool (\<lambda>first.
    go_then read_bool (\<lambda>last.
    go_then (read_bits 6) (\<lambda>template_id.
    go_then (read_bits 16) (\<lambda>frame_number.
    go_return (first, last, uint template_id, ucast frame_number)))))"

definition new_template :: "int \<Rightarrow> int \<Rightarrow> fd_template" where
  "new_template spatial temporal = \<lparr>ft_spatial = spatial, ft_temporal = temporal, ft_dtis = [], ft_frame_diffs = [], ft_chain_diffs = []\<rparr>"

text \<open>\<open>n\<close> templates may still be added; \<open>next_layer_idc\<close> is 0 for the same layer, 1 for the next
  temporal layer, 2 for the next spatial layer and 3 at the end.\<close>

fun read_template_layers :: "nat \<Rightarrow> int \<Rightarrow> int \<Rightarrow> (bit_reader, fd_template list) go" where
  "read_template_layers 0 temporal spatial = go_fail ErrDDReaderTooManyTemplates"
| "read_template_layers (Suc n) temporal spatial =
    go_then (read_bits 2) (\<lambda>idc.
      let t = (if idc = 1 then temporal + 1 else if idc = 2 then 0 else temporal);
          s = (if idc = 2 then spatial + 1 else spatial)
      in if idc = 1 \<and> t \<ge> max_temporal_ids then go_fail ErrDDReaderTooManyTemporalLayers
      else if idc = 2 \<and> s \<ge> max_spatial_ids then go_fail ErrDDReaderTooManySpatialLayers
      else go_then reader_ok (\<lambda>ok.
        if idc = 3 \<or> \<not> ok then go_return [new_template spatial temporal]
        else go_then (read_template_layers n t s) (\<lambda>ts. go_return (new_template spatial temporal # ts))))"

definition read_dti :: "(bit_reader, dti) go" where
  "read_dti = go_then (read_bits 2) (\<lambda>v. go_return (dti_of_code v))"

definition read_template_dtis :: "int \<Rightarrow> fd_template list \<Rightarrow> (bit_reader, fd_template list) go" where
  "read_template_dtis num_targets = go_map (\<lambda>t.
    go_then (go_map (\<lambda>_. read_dti) (replicate (nat num_targets) ())) (\<lambda>ds. go_return (t\<lparr>ft_dtis := ds\<rparr>)))"

text \<open>The differences of a template, while a flag says that one follows.\<close>

function read_fdiffs :: "(bit_reader, int list) go" where
  "read_fdiffs r = (case read_bool r of
     None \<Rightarrow> None
   | Some (r1, Inl e) \<Rightarrow> Some (r1, Inl e)
   | Some (r1, Inr follow) \<Rightarrow>
       if \<not> follow then Some (r1, Inr [])
       else (case read_bits 4 r1 of
         None \<Rightarrow> None
       | Some (r2, Inl e) \<Rightarrow> Some (r2, Inl e)
       | Some (r2, Inr d) \<Rightarrow> (case read_fdiffs r2 of
           None \<Rightarrow> None
         | Some (r3, Inl e) \<Rightarrow> Some (r3, Inl e)
         | Some (r3, Inr ds) \<Rightarrow> Some (r3, Inr (uint (d + 1) # ds)))))"
  by pat_completeness auto
termination by (relation "measure (\<lambda>r. nat (br_remaining r))") (auto dest!: read_bits_consumes read_bool_consumes)

declare read_fdiffs.simps [simp del]

lemma read_fdiffs_unfold:
  "read_fdiffs = go_then read_bool (\<lambda>follow. if \<not> follow then go_return []
     else go_then (read_bits 4) (\<lambda>d. go_then read_fdiffs (\<lambda>ds. go_return (uint (d + 1) # ds))))"
  by (rule ext, subst read_fdiffs.simps) (auto simp: go_then_def split: option.splits sum.splits)

definition read_template_fdiffs :: "fd_template list \<Rightarrow> (bit_reader, fd_template list) go" where
  "read_template_fdiffs = go_map (\<lambda>t. go_then read_fdiffs (\<lambda>ds. go_return (t\<lparr>ft_frame_diffs := ds\<rparr>)))"

text \<open>The number of chains, the chain of every decode target and the templates.\<close>

definition read_template_chains :: "int \<Rightarrow> fd_template list \<Rightarrow> (bit_reader, int \<times> int list \<times> fd_template list) go" where
  "read_template_chains num_targets ts =
    go_then (read_non_symmetric (word_of_int num_targets + 1)) (\<lambda>num_chains.
      if uint num_chains = 0 then go_return (0, [], ts)
      else
        go_then (go_map (\<lambda>_. go_then (read_non_symmetric num_chains) (\<lambda>c. go_return (uint c))) (replicate (nat num_targets) ())) (\<lambda>protected.
        go_then (go_map (\<lambda>t.
            go_then (go_map (\<lambda>_. go_then (read_bits 4) (\<lambda>d. go_return (uint d))) (replicate (unat num_chains) ()))
              (\<lambda>ds. go_return (t\<lparr>ft_chain_diffs := ds\<rparr>))) ts) (\<lambda>ts.
        go_return (uint num_chains, protected, ts))))"

definition read_resolutions :: "fd_template list \<Rightarrow> (bit_reader, render_resolution list) go" where
  "read_resolutions ts = (case go_nth ts (int (length ts) - 1) of
     None \<Rightarrow> (\<lambda>r. None)
   | Some t \<Rightarrow> go_map (\<lambda>_.
       go_then (read_bits 16) (\<lambda>w. go_then (read_bits 16) (\<lambda>h.
       go_return \<lparr>rr_width = uint (w + 1), rr_height = uint (h + 1)\<rparr>))) (replicate (nat (ft_spatial t + 1)) ()))"

definition read_template_dependency_structure :: "(bit_reader, fd_structure) go" where
  "read_template_dependency_structure =
    go_then (read_bits 6) (\<lambda>structure_id.
    go_then (read_bits 5) (\<lambda>targets_minus_one.
    let num_targets = uint targets_minus_one + 1 in
    go_then (read_template_layers max_templates 0 0) (\<lambda>ts.
    go_then (read_template_dtis num_targets ts) (\<lambda>ts.
    go_then (read_template_fdiffs ts) (\<lambda>ts.
    go_then (read_template_chains num_targets ts) (\<lambda>(num_chains, protected, ts).
    go_then read_bool (\<lambda>flag.
    go_then (if flag then read_resolutions ts else go_return []) (\<lambda>resolutions.
    go_return \<lparr>fs_id = uint structure_id, fs_num_targets = num_targets, fs_num_chains = num_chains,
      fs_protected = protected, fs_resolutions = resolutions, fs_templates = ts\<rparr>))))))))"

text \<open>\<open>uint32((uint64(1) << n) - 1)\<close>.\<close>

definition all_targets :: "int \<Rightarrow> u64" where
  "all_targets n = push_bit (nat n) 1 - 1"

record dd_flags =
  df_active_targets :: bool
  df_custom_dtis :: bool
  df_custom_fdiffs :: bool
  df_custom_chains :: bool

definition no_flags :: dd_flags where
  "no_flags = \<lparr>df_active_targets = False, df_custom_dtis = False, df_custom_fdiffs = False, df_custom_chains = False\<rparr>"

text \<open>The flags, the structure and the bit mask that goes with a new structure.\<close>

definition read_extended_fields :: "(bit_reader, dd_flags \<times> fd_structure option \<times> u32 option) go" where
  "read_extended_fields =
    go_then read_bool (\<lambda>structure_present.
    go_then read_bool (\<lambda>active_targets.
    go_then read_bool (\<lambda>custom_dtis.
    go_then read_bool (\<lambda>custom_fdiffs.
    go_then read_bool (\<lambda>custom_chains.
    let flags = \<lparr>df_active_targets = active_targets, df_custom_dtis = custom_dtis, df_custom_fdiffs = custom_fdiffs,
                 df_custom_chains = custom_chains\<rparr> in
    if structure_present then
      go_then read_template_dependency_structure (\<lambda>s.
      go_return (flags, Some s, Some (ucast (all_targets (fs_num_targets s)))))
    else go_return (flags, None, None))))))"

definition read_frame_dtis :: "fd_structure \<Rightarrow> fd_template \<Rightarrow> (bit_reader, fd_template) go" where
  "read_frame_dtis s fd =
    (if int (length (ft_dtis fd)) \<noteq> fs_num_targets s then go_fail ErrDDReaderNumDTIMismatch
     else go_then (go_map (\<lambda>_. read_dti) (ft_dtis fd)) (\<lambda>ds. go_return (fd\<lparr>ft_dtis := ds\<rparr>)))"

text \<open>The differences of a frame, each after its size in units of four bits.\<close>

function read_sized_fdiffs :: "(bit_reader, int list) go" where
  "read_sized_fdiffs r = (case read_bits 2 r of
     None \<Rightarrow> None
   | Some (r1, Inl e) \<Rightarrow> Some (r1, Inl e)
   | Some (r1, Inr sz) \<Rightarrow>
       if sz = 0 then Some (r1, Inr [])
       else (case read_bits (uint sz * 4) r1 of
         None \<Rightarrow> None
       | Some (r2, Inl e) \<Rightarrow> Some (r2, Inl e)
       | Some (r2, Inr d) \<Rightarrow> (case read_sized_fdiffs r2 of
           None \<Rightarrow> None
         | Some (r3, Inl e) \<Rightarrow> Some (r3, Inl e)
         | Some (r3, Inr ds) \<Rightarrow> Some (r3, Inr (uint (d + 1) # ds)))))"
  by pat_completeness auto
termination
proof (relation "measure (\<lambda>r. nat (br_remaining r))")
  fix r x r1 y sz z r2 u d
  assume "read_bits 2 r = Some x" "(r1, y) = x" "y = Inr sz" "read_bits (uint sz * 4) r1 = Some z" "(r2, u) = z" "u = Inr d"
  then have "br_remaining r1 = br_remaining r - 2" "2 \<le> br_remaining r"
    "br_remaining r2 = br_remaining r1 - uint sz * 4" "uint sz * 4 \<le> br_remaining r1"
    by (auto dest!: read_bits_consumes)
  moreover have "0 \<le> uint sz" by simp
  ultimately have "br_remaining r2 < br_remaining r" "0 < br_remaining r" by linarith+
  then show "(r2, r) \<in> measure (\<lambda>r. nat (br_remaining r))" by simp
qed simp

declare read_sized_fdiffs.simps [simp del]

lemma read_sized_fdiffs_unfold:
  "read_sized_fdiffs = go_then (read_bits 2) (\<lambda>sz. if sz = 0 then go_return []
     else go_then (read_bits (uint sz * 4)) (\<lambda>d. go_then read_sized_fdiffs (\<lambda>ds. go_return (uint (d + 1) # ds))))"
  by (rule ext, subst read_sized_fdiffs.simps) (auto simp: go_then_def split: option.splits sum.splits)

definition read_frame_fdiffs :: "fd_template \<Rightarrow> (bit_reader, fd_template) go" where
  "read_frame_fdiffs fd = go_then read_sized_fdiffs (\<lambda>ds. go_return (fd\<lparr>ft_frame_diffs := ds\<rparr>))"

definition read_frame_chains :: "fd_structure \<Rightarrow> fd_template \<Rightarrow> (bit_reader, fd_template) go" where
  "read_frame_chains s fd =
    (if int (length (ft_chain_diffs fd)) \<noteq> fs_num_chains s then go_fail ErrDDReaderNumChainDiffsMismatch
     else go_then (go_map (\<lambda>_. go_then (read_bits 8) (\<lambda>d. go_return (uint d))) (ft_chain_diffs fd))
       (\<lambda>ds. go_return (fd\<lparr>ft_chain_diffs := ds\<rparr>)))"

definition read_frame_dependency_definition ::
  "fd_structure \<Rightarrow> dd_flags \<Rightarrow> int \<Rightarrow> (bit_reader, fd_template \<times> render_resolution option) go" where
  "read_frame_dependency_definition s flags template_id =
    (let idx = go_rem (template_id + int max_templates - fs_id s) (int max_templates)
     in if idx \<ge> int (length (fs_templates s)) then go_invalidate ErrDDReaderInvalidTemplateIndex
     else case go_nth (fs_templates s) idx of
       None \<Rightarrow> (\<lambda>r. None)
     | Some template \<Rightarrow>
         go_then (if df_custom_dtis flags then read_frame_dtis s template else go_return template) (\<lambda>fd.
         go_then (if df_custom_fdiffs flags then read_frame_fdiffs fd else go_return fd) (\<lambda>fd.
         go_then (if df_custom_chains flags then read_frame_chains s fd else go_return fd) (\<lambda>fd.
         if fs_resolutions s = [] then go_return (fd, None)
         else if ft_spatial fd \<ge> int (length (fs_resolutions s)) then go_invalidate ErrDDReaderInvalidSpatialLayer
         else case go_nth (fs_resolutions s) (ft_spatial fd) of
           None \<Rightarrow> (\<lambda>r. None)
         | Some res \<Rightarrow> go_return (fd, Some res)))))"

definition dd_parse :: "u8 list \<Rightarrow> fd_structure option \<Rightarrow> (bit_reader, dd) go" where
  "dd_parse buf structure =
    go_then read_mandatory_fields (\<lambda>(first, last, template_id, frame_number).
    go_then (if length buf > 3 then read_extended_fields else go_return (no_flags, None, None)) (\<lambda>(flags, attached, bitmask).
    case (if attached \<noteq> None then attached else structure) of
      None \<Rightarrow> go_invalidate ErrDDReaderNoStructure
    | Some s \<Rightarrow>
        go_then (if df_active_targets flags
            then go_then (read_bits (fs_num_targets s)) (\<lambda>m. go_return (Some (ucast m))) else go_return bitmask) (\<lambda>bitmask.
        go_then (read_frame_dependency_definition s flags template_id) (\<lambda>(fd, resolution).
        go_return \<lparr>dd_first = first, dd_last = last, dd_frame_number = frame_number, dd_dependencies = Some fd,
          dd_resolution = resolution, dd_bitmask = bitmask, dd_attached = attached\<rparr>))))"

text \<open>\<open>Unmarshal\<close>: the number of bytes read and the descriptor.\<close>

definition dd_unmarshal :: "u8 list \<Rightarrow> fd_structure option \<Rightarrow> (dd_err + int \<times> dd) option" where
  "dd_unmarshal buf structure = (case dd_parse buf structure (new_bit_reader buf) of
     None \<Rightarrow> None
   | Some (r, Inl e) \<Rightarrow> Some (Inl e)
   | Some (r, Inr d) \<Rightarrow> Some (Inr (bytes_read r, d)))"

section \<open>The writer\<close>

record template_match =
  tm_idx :: nat
  tm_custom_dtis :: bool
  tm_custom_fdiffs :: bool
  tm_custom_chains :: bool
  tm_extra :: int

definition calculate_match :: "fd_structure \<Rightarrow> u32 \<Rightarrow> fd_template \<Rightarrow> nat \<Rightarrow> fd_template \<Rightarrow> template_match" where
  "calculate_match s active fd idx t =
    (let fdiffs = ft_frame_diffs fd \<noteq> ft_frame_diffs t;
         dtis = ft_dtis fd \<noteq> ft_dtis t;
         chains = list_ex (\<lambda>i. bit active i \<and> (length (ft_chain_diffs fd) \<le> i \<or> length (ft_chain_diffs t) \<le> i \<or>
           ft_chain_diffs fd ! i \<noteq> ft_chain_diffs t ! i)) [0..<nat (fs_num_chains s)]
     in \<lparr>tm_idx = idx, tm_custom_dtis = dtis, tm_custom_fdiffs = fdiffs, tm_custom_chains = chains,
       tm_extra =
         (if fdiffs then 2 * (1 + int (length (ft_frame_diffs fd))) +
            sum_list (map (\<lambda>d. if d \<le> 16 then 4 else if d \<le> 256 then 8 else 12) (ft_frame_diffs fd)) else 0) +
         (if dtis then 2 * int (length (ft_dtis fd)) else 0) +
         (if chains then 8 * fs_num_chains s else 0)\<rparr>)"

definition same_layer :: "fd_template \<Rightarrow> fd_template \<Rightarrow> bool" where
  "same_layer a b \<longleftrightarrow> ft_spatial a = ft_spatial b \<and> ft_temporal a = ft_temporal b"

text \<open>
  The first template of the layer of the frame; then a search up to the last template of another
  layer (the code sets \<open>lastSameLayerIdx\<close> at the templates of other layers).
\<close>

definition find_best_template :: "fd_structure \<Rightarrow> u32 \<Rightarrow> fd_template \<Rightarrow> dd_err + template_match" where
  "find_best_template s active fd =
    (case filter (\<lambda>i. same_layer fd (fs_templates s ! i)) [0..<length (fs_templates s)] of
       [] \<Rightarrow> Inl ErrNoTemplate
     | first # _ \<Rightarrow>
         let others = filter (\<lambda>i. \<not> same_layer fd (fs_templates s ! i)) [first..<length (fs_templates s)];
             last_idx = (if others = [] then 0 else last others);
             m = (\<lambda>i. calculate_match s active fd i (fs_templates s ! i))
         in Inr (fold (\<lambda>i best. if tm_extra (m i) < tm_extra best then m i else best) [first + 1..<last_idx + 1] (m first)))"

definition write_mandatory_fields :: "fd_structure \<Rightarrow> dd \<Rightarrow> template_match \<Rightarrow> (bit_writer, unit) go" where
  "write_mandatory_fields s d best =
    go_then (write_bool (dd_first d)) (\<lambda>_.
    go_then (write_bool (dd_last d)) (\<lambda>_.
    go_then (write_bits (word_of_int (go_rem (int (tm_idx best) + fs_id s) (int max_templates))) 6) (\<lambda>_.
    write_bits (ucast (dd_frame_number d)) 16)))"

definition has_extended_fields :: "dd \<Rightarrow> template_match \<Rightarrow> bool" where
  "has_extended_fields d best \<longleftrightarrow> tm_extra best > 0 \<or> dd_attached d \<noteq> None \<or> dd_bitmask d \<noteq> None"

definition should_write_bitmask :: "fd_structure \<Rightarrow> dd \<Rightarrow> bool" where
  "should_write_bitmask s d = (case dd_bitmask d of
     None \<Rightarrow> False
   | Some m \<Rightarrow> \<not> (dd_attached d \<noteq> None \<and> ucast m = all_targets (fs_num_targets s)))"

definition get_next_layer_idc :: "fd_template \<Rightarrow> fd_template \<Rightarrow> int" where
  "get_next_layer_idc prev nxt =
    (if ft_spatial nxt = ft_spatial prev \<and> ft_temporal nxt = ft_temporal prev then 0
     else if ft_spatial nxt = ft_spatial prev \<and> ft_temporal nxt = ft_temporal prev + 1 then 1
     else if ft_spatial nxt = ft_spatial prev + 1 \<and> ft_temporal nxt = 0 then 2
     else 4)"

definition write_template_layers :: "fd_structure \<Rightarrow> (bit_writer, unit) go" where
  "write_template_layers s = (case fs_templates s of
     [] \<Rightarrow> (\<lambda>w. None)
   | t # ts \<Rightarrow>
       if length (t # ts) > max_templates \<or> ft_spatial t \<noteq> 0 \<or> ft_temporal t \<noteq> 0 then go_fail ErrInvalidTemplates
       else go_then (go_each (\<lambda>(prev, nxt). let idc = get_next_layer_idc prev nxt in
           if idc \<ge> 3 then go_fail ErrInvalidNextLayer else write_bits (word_of_int idc) 2) (zip (t # ts) ts))
         (\<lambda>_. write_bits 3 2))"

definition write_dti :: "dti \<Rightarrow> (bit_writer, unit) go" where
  "write_dti x = write_bits (dti_code x) 2"

definition write_template_dtis :: "fd_structure \<Rightarrow> (bit_writer, unit) go" where
  "write_template_dtis s = go_each (\<lambda>t. go_each write_dti (ft_dtis t)) (fs_templates s)"

definition write_template_fdiffs :: "fd_structure \<Rightarrow> (bit_writer, unit) go" where
  "write_template_fdiffs s = go_each (\<lambda>t.
    go_then (go_each (\<lambda>d. write_bits (push_bit 4 1 OR word_of_int (d - 1)) 5) (ft_frame_diffs t)) (\<lambda>_.
    write_bits 0 1)) (fs_templates s)"

definition write_template_chains :: "fd_structure \<Rightarrow> (bit_writer, unit) go" where
  "write_template_chains s =
    go_then (write_non_symmetric (word_of_int (fs_num_chains s)) (word_of_int (fs_num_targets s + 1))) (\<lambda>_.
    if fs_num_chains s = 0 then go_return ()
    else
      go_then (go_each (\<lambda>c. write_non_symmetric (word_of_int c) (word_of_int (fs_num_chains s))) (fs_protected s)) (\<lambda>_.
      go_each (\<lambda>t. go_each (\<lambda>d. write_bits (word_of_int d) 4) (ft_chain_diffs t)) (fs_templates s)))"

definition write_resolutions :: "fd_structure \<Rightarrow> (bit_writer, unit) go" where
  "write_resolutions s = go_each (\<lambda>r.
    go_then (write_bits (word_of_int (rr_width r) - 1) 16) (\<lambda>_.
    write_bits (word_of_int (rr_height r) - 1) 16)) (fs_resolutions s)"

definition write_template_dependency_structure :: "fd_structure \<Rightarrow> (bit_writer, unit) go" where
  "write_template_dependency_structure s =
    (if fs_id s < 0 \<or> fs_id s \<ge> int max_templates \<or> fs_num_targets s \<le> 0 \<or> fs_num_targets s > max_decode_targets
     then go_fail ErrInvalidStructure
     else
       go_then (write_bits (word_of_int (fs_id s)) 6) (\<lambda>_.
       go_then (write_bits (word_of_int (fs_num_targets s - 1)) 5) (\<lambda>_.
       go_then (write_template_layers s) (\<lambda>_.
       go_then (write_template_dtis s) (\<lambda>_.
       go_then (write_template_fdiffs s) (\<lambda>_.
       go_then (write_template_chains s) (\<lambda>_.
       go_then (write_bool (fs_resolutions s \<noteq> [])) (\<lambda>_.
       write_resolutions s))))))))"

definition write_extended_fields :: "fd_structure \<Rightarrow> dd \<Rightarrow> template_match \<Rightarrow> (bit_writer, unit) go" where
  "write_extended_fields s d best =
    go_then (write_bool (dd_attached d \<noteq> None)) (\<lambda>_.
    go_then (write_bool (should_write_bitmask s d)) (\<lambda>_.
    go_then (write_bool (tm_custom_dtis best)) (\<lambda>_.
    go_then (write_bool (tm_custom_fdiffs best)) (\<lambda>_.
    go_then (write_bool (tm_custom_chains best)) (\<lambda>_.
    go_then (if dd_attached d \<noteq> None then write_template_dependency_structure s else go_return ()) (\<lambda>_.
    case dd_bitmask d of
      None \<Rightarrow> go_return ()
    | Some m \<Rightarrow> if should_write_bitmask s d then write_bits (ucast m) (nat (fs_num_targets s)) else go_return ()))))))"

definition write_frame_fdiff :: "int \<Rightarrow> (bit_writer, unit) go" where
  "write_frame_fdiff d =
    (if d \<le> 16 then write_bits (push_bit 4 1 OR word_of_int (d - 1)) 6
     else if d \<le> 256 then write_bits (push_bit 8 2 OR word_of_int (d - 1)) 10
     else write_bits (push_bit 12 3 OR word_of_int (d - 1)) 14)"

definition write_frame_chains :: "fd_structure \<Rightarrow> u32 \<Rightarrow> fd_template \<Rightarrow> (bit_writer, unit) go" where
  "write_frame_chains s active fd = go_each (\<lambda>i.
    if bit active i then (case go_nth (ft_chain_diffs fd) (int i) of
        None \<Rightarrow> (\<lambda>w. None)
      | Some d \<Rightarrow> write_bits (word_of_int d) 8)
    else write_bits 0 8) [0..<nat (fs_num_chains s)]"

definition write_frame_dependency_definition ::
  "fd_structure \<Rightarrow> u32 \<Rightarrow> fd_template \<Rightarrow> template_match \<Rightarrow> (bit_writer, unit) go" where
  "write_frame_dependency_definition s active fd best =
    go_then (if tm_custom_dtis best then go_each write_dti (ft_dtis fd) else go_return ()) (\<lambda>_.
    go_then (if tm_custom_fdiffs best
        then go_then (go_each write_frame_fdiff (ft_frame_diffs fd)) (\<lambda>_. write_bits 0 2) else go_return ()) (\<lambda>_.
    if tm_custom_chains best then write_frame_chains s active fd else go_return ()))"

text \<open>The rest of the buffer is filled with zeros.\<close>

definition write_padding :: "(bit_writer, unit) go" where
  "write_padding w =
    (let remaining = bw_remaining w
     in go_then (if go_rem remaining 64 \<noteq> 0 then write_bits 0 (nat (go_rem remaining 64)) else go_return ())
       (\<lambda>_. go_each (\<lambda>_. write_bits 0 64) (replicate (nat (remaining div 64)) ())) w)"

definition dd_write :: "fd_structure \<Rightarrow> u32 \<Rightarrow> dd \<Rightarrow> fd_template \<Rightarrow> template_match \<Rightarrow> (bit_writer, unit) go" where
  "dd_write s active d fd best =
    go_then (write_mandatory_fields s d best) (\<lambda>_.
    go_then (if has_extended_fields d best
        then go_then (write_extended_fields s d best) (\<lambda>_. write_frame_dependency_definition s active fd best)
        else go_return ()) (\<lambda>_.
    write_padding))"

definition structure_size_bits :: "fd_structure \<Rightarrow> int" where
  "structure_size_bits s =
    11 + 2 * int (length (fs_templates s)) + 2 * int (length (fs_templates s)) * fs_num_targets s +
    int (length (fs_templates s)) + sum_list (map (\<lambda>t. 5 * int (length (ft_frame_diffs t))) (fs_templates s)) +
    size_non_symmetric_bits (word_of_int (fs_num_chains s)) (word_of_int (fs_num_targets s + 1)) +
    (if fs_num_chains s > 0
     then sum_list (map (\<lambda>c. size_non_symmetric_bits (word_of_int c) (word_of_int (fs_num_chains s))) (fs_protected s)) +
       4 * int (length (fs_templates s)) * fs_num_chains s
     else 0) +
    (1 + 32 * int (length (fs_resolutions s)))"

definition value_size_bits :: "fd_structure \<Rightarrow> dd \<Rightarrow> template_match \<Rightarrow> int" where
  "value_size_bits s d best = 24 + tm_extra best +
    (if has_extended_fields d best
     then 5 + (if dd_attached d \<noteq> None then structure_size_bits s else 0) +
       (if should_write_bitmask s d then fs_num_targets s else 0)
     else 0)"

text \<open>
  \<open>MarshalWithActiveChains\<close>.  Without a structure or without the dependencies of the frame a nil
  pointer is dereferenced.  \<open>Write\<close> searches for the best template again, with the same result.
\<close>

definition dd_marshal_with_active_chains :: "u32 \<Rightarrow> dd \<Rightarrow> fd_structure option \<Rightarrow> (dd_err + u8 list) option" where
  "dd_marshal_with_active_chains active d structure = (case (structure, dd_dependencies d) of
     (Some s, Some fd) \<Rightarrow> (case find_best_template s active fd of
         Inl e \<Rightarrow> Some (Inl e)
       | Inr best \<Rightarrow>
           let len = (value_size_bits s d best + 7) div 8
           in if len < 0 then None
           else (case dd_write s active d fd best (new_bit_writer (replicate (nat len) 0)) of
             None \<Rightarrow> None
           | Some (w, Inl e) \<Rightarrow> Some (Inl e)
           | Some (w, Inr ()) \<Rightarrow> Some (Inr (bw_buf w))))
   | _ \<Rightarrow> None)"

definition dd_marshal :: "dd \<Rightarrow> fd_structure option \<Rightarrow> (dd_err + u8 list) option" where
  "dd_marshal d structure = dd_marshal_with_active_chains (- 1) d structure"

text \<open>The size alone, with the attached structure.\<close>

definition dd_marshal_size_with_active_chains :: "u32 \<Rightarrow> dd \<Rightarrow> (dd_err + int) option" where
  "dd_marshal_size_with_active_chains active d = (case (dd_attached d, dd_dependencies d) of
     (Some s, Some fd) \<Rightarrow> (case find_best_template s active fd of
         Inl e \<Rightarrow> Some (Inl e)
       | Inr best \<Rightarrow> Some (Inr ((value_size_bits s d best + 7) div 8)))
   | _ \<Rightarrow> None)"

end
