(* ===== verification/Dd_Reading.thy ===== *)
theory Dd_Reading
  imports Dependency_Descriptor
begin

text \<open>
  What the reader of dependency descriptors guarantees on any input: it returns, and what it
  returns is well formed.
\<close>

section \<open>Well-formed structures and frames\<close>

definition template_ok :: "fd_structure \<Rightarrow> fd_template \<Rightarrow> bool" where
  "template_ok s t \<longleftrightarrow> 0 \<le> ft_spatial t \<and> ft_spatial t < max_spatial_ids \<and> 0 \<le> ft_temporal t \<and> ft_temporal t < max_temporal_ids \<and>
    int (length (ft_dtis t)) = fs_num_targets s \<and> list_all (\<lambda>d. 1 \<le> d \<and> d \<le> 16) (ft_frame_diffs t) \<and>
    int (length (ft_chain_diffs t)) = fs_num_chains s \<and> list_all (\<lambda>d. 0 \<le> d \<and> d < 16) (ft_chain_diffs t)"

text \<open>The layers of the templates: they start at the lowest and go up in the order of the code.\<close>

fun layers_follow :: "int \<Rightarrow> int \<Rightarrow> fd_template list \<Rightarrow> bool" where
  "layers_follow s t [] \<longleftrightarrow> False"
| "layers_follow s t [a] \<longleftrightarrow> ft_spatial a = s \<and> ft_temporal a = t"
| "layers_follow s t (a # b # ts) \<longleftrightarrow> ft_spatial a = s \<and> ft_temporal a = t \<and> get_next_layer_idc a b < 3 \<and>
     layers_follow (ft_spatial b) (ft_temporal b) (b # ts)"

definition fs_ok :: "fd_structure \<Rightarrow> bool" where
  "fs_ok s \<longleftrightarrow> 0 \<le> fs_id s \<and> fs_id s < 64 \<and> 1 \<le> fs_num_targets s \<and> fs_num_targets s \<le> 32 \<and>
    0 \<le> fs_num_chains s \<and> fs_num_chains s \<le> fs_num_targets s \<and>
    (if fs_num_chains s = 0 then fs_protected s = [] else int (length (fs_protected s)) = fs_num_targets s) \<and>
    list_all (\<lambda>c. 0 \<le> c \<and> c < fs_num_chains s) (fs_protected s) \<and>
    length (fs_templates s) \<le> max_templates \<and> layers_follow 0 0 (fs_templates s) \<and> list_all (template_ok s) (fs_templates s) \<and>
    (fs_resolutions s = [] \<or> int (length (fs_resolutions s)) = ft_spatial (last (fs_templates s)) + 1) \<and>
    list_all (\<lambda>r. 1 \<le> rr_width r \<and> rr_width r \<le> 65536 \<and> 1 \<le> rr_height r \<and> rr_height r \<le> 65536) (fs_resolutions s)"

definition frame_ok :: "fd_structure \<Rightarrow> fd_template \<Rightarrow> bool" where
  "frame_ok s fd \<longleftrightarrow> int (length (ft_dtis fd)) = fs_num_targets s \<and> list_all (\<lambda>d. 1 \<le> d \<and> d \<le> 4096) (ft_frame_diffs fd) \<and>
    int (length (ft_chain_diffs fd)) = fs_num_chains s \<and> list_all (\<lambda>d. 0 \<le> d \<and> d < 256) (ft_chain_diffs fd) \<and>
    list_ex (same_layer fd) (fs_templates s)"

text \<open>A descriptor that is read under the structure \<open>s\<close>, its own or that of an earlier frame.\<close>

definition dd_ok :: "fd_structure \<Rightarrow> dd \<Rightarrow> bool" where
  "dd_ok s d \<longleftrightarrow> (case dd_dependencies d of
     None \<Rightarrow> False
   | Some fd \<Rightarrow> frame_ok s fd \<and>
       (if fs_resolutions s = [] then dd_resolution d = None
        else ft_spatial fd < int (length (fs_resolutions s)) \<and> dd_resolution d = Some (fs_resolutions s ! nat (ft_spatial fd)))) \<and>
    (case dd_bitmask d of None \<Rightarrow> dd_attached d = None | Some m \<Rightarrow> uint m < 2 ^ nat (fs_num_targets s)) \<and>
    (dd_attached d = None \<or> dd_attached d = Some s)"

section \<open>Readers return\<close>

text \<open>A reader that does not panic, and what holds of the value if it returns one.\<close>

definition returns :: "(bit_reader, 'a) go \<Rightarrow> ('a \<Rightarrow> bool) \<Rightarrow> bool" where
  "returns m P \<longleftrightarrow> (\<forall>r. rd_ok r \<longrightarrow> (\<exists>r' res. m r = Some (r', res) \<and>
     (\<forall>x. res = Inr x \<longrightarrow> rd_ok r' \<and> br_buf r' = br_buf r \<and> P x)))"

named_theorems returns_intros \<open>readers that return\<close>

lemma returns_return: "P x \<Longrightarrow> returns (go_return x) P"
  by (simp add: returns_def)

lemma returns_fail [returns_intros]: "returns (go_fail e) P" "returns (go_invalidate e) P"
  by (simp_all add: returns_def go_invalidate_def)

lemma returns_weaken: "returns m P \<Longrightarrow> (\<And>x. P x \<Longrightarrow> Q x) \<Longrightarrow> returns m Q"
  unfolding returns_def by meson

lemma returns_then:
  assumes "returns m P" "\<And>x. P x \<Longrightarrow> returns (f x) Q"
  shows "returns (go_then m f) Q"
  unfolding returns_def
proof (intro allI impI)
  fix r assume "rd_ok r"
  with assms(1) obtain r1 res where r1: "m r = Some (r1, res)" "\<And>x. res = Inr x \<Longrightarrow> rd_ok r1 \<and> br_buf r1 = br_buf r \<and> P x"
    unfolding returns_def by blast
  show "\<exists>r' res. go_then m f r = Some (r', res) \<and> (\<forall>x. res = Inr x \<longrightarrow> rd_ok r' \<and> br_buf r' = br_buf r \<and> Q x)"
  proof (cases res)
    case (Inl e)
    then show ?thesis using r1(1) by (simp add: go_then_def)
  next
    case (Inr x)
    with r1(2) have x: "rd_ok r1" "br_buf r1 = br_buf r" "P x" by blast+
    with assms(2) [OF x(3)] obtain r2 res2 where
      "f x r1 = Some (r2, res2)" "\<And>y. res2 = Inr y \<Longrightarrow> rd_ok r2 \<and> br_buf r2 = br_buf r1 \<and> Q y"
      unfolding returns_def by blast
    then show ?thesis using r1(1) Inr x(2) by (auto simp: go_then_def)
  qed
qed

lemma returns_if: "(c \<Longrightarrow> returns m P) \<Longrightarrow> (\<not> c \<Longrightarrow> returns n P) \<Longrightarrow> returns (if c then m else n) P"
  by simp

lemma returns_map:
  "(\<And>x. x \<in> set xs \<Longrightarrow> returns (f x) (R x)) \<Longrightarrow> returns (go_map f xs) (\<lambda>ys. list_all2 R xs ys)"
proof (induction xs)
  case Nil
  show ?case unfolding go_map.simps by (rule returns_return) simp
next
  case (Cons x xs)
  then have "returns (f x) (R x)" "returns (go_map f xs) (\<lambda>ys. list_all2 R xs ys)" by simp_all
  then show ?case unfolding go_map.simps
    by (intro returns_then [of "f x" "R x"] returns_then [of "go_map f xs" "\<lambda>ys. list_all2 R xs ys"] returns_return) simp_all
qed

lemma returns_bits: "0 \<le> n \<Longrightarrow> n \<le> 64 \<Longrightarrow> returns (read_bits n) (\<lambda>v. take_bit (nat n) v = v)"
  unfolding returns_def
proof (intro allI impI)
  fix r assume n: "0 \<le> n" "n \<le> 64" and r: "rd_ok r"
  show "\<exists>r' res. read_bits n r = Some (r', res) \<and> (\<forall>v. res = Inr v \<longrightarrow> rd_ok r' \<and> br_buf r' = br_buf r \<and> take_bit (nat n) v = v)"
  proof (cases "nat n \<le> length (unread r)")
    case True
    have "nat n \<le> 64" using n by simp
    from read_bits_next [OF r this True] n(1) show ?thesis by auto
  next
    case False
    with read_bits_short [OF r, of "nat n"] n show ?thesis by simp
  qed
qed

lemma small_value:
  fixes v :: u64
  assumes "take_bit n v = v" "n < 64"
  shows "uint v < 2 ^ n"
  using assms by (metis take_bit_int_less_exp unsigned_take_bit_eq)

lemma returns_value: "n < 64 \<Longrightarrow> returns (read_bits (int n)) (\<lambda>v. 0 \<le> uint v \<and> uint v < 2 ^ n)"
  by (rule returns_weaken [OF returns_bits]) (simp_all add: small_value)

lemma returns_bool [returns_intros]: "returns read_bool (\<lambda>_. True)"
  unfolding read_bool_def by (rule returns_then [OF returns_bits returns_return]) simp_all

lemma returns_dti: "returns read_dti (\<lambda>_. True)"
  unfolding read_dti_def by (rule returns_then [OF returns_bits returns_return]) simp_all

lemma returns_non_symmetric:
  assumes n: "0 < n" "n < 2 ^ 31"
  shows "returns (read_non_symmetric (of_nat n)) (\<lambda>v. unat v < n)"
proof -
  note f = ns_facts [OF n]
  define c where "c = bitwidth n"
  define k where "k = 2 ^ c - n"
  note f = f [folded c_def, folded k_def]
  have two: "(2 :: nat) ^ c = 2 * 2 ^ (c - 1)" using f(1) by (simp add: power_eq_if)
  note eq = read_non_symmetric_eq [OF n, folded c_def, folded k_def]
  have small: "\<exists>m. m < 2 ^ j \<and> v = of_nat m" if "take_bit j v = v" "j < 64" for v :: u64 and j
  proof (intro exI [of _ "unat v"] conjI)
    have "uint v < 2 ^ j" by (rule small_value [OF that])
    then show "unat v < 2 ^ j" by (simp only: uint_nat of_nat_less_numeral_power_cancel_iff)
    show "v = of_nat (unat v)" by simp
  qed
  have c31: "(2 :: nat) ^ (c - 1) \<le> 2 ^ 30" using f(2) by (intro power_increasing) auto
  show ?thesis unfolding eq
  proof (rule returns_then [OF returns_bits])
    show "0 \<le> int (c - 1)" "int (c - 1) \<le> 64" using f(2) by simp_all
  next
    fix v :: u64 assume "take_bit (nat (int (c - 1))) v = v"
    then have t: "take_bit (c - 1) v = v" by (simp only: nat_int)
    have "c - 1 < 64" using f(2) by linarith
    from small [OF t this] obtain m where m: "m < 2 ^ (c - 1)" "v = of_nat m" by blast
    have m31: "m < 2 ^ 31" using m(1) c31 by simp
    have less: "v < of_nat k \<longleftrightarrow> m < k" unfolding m(2) by (rule small_less(2) [OF m31 f(7)])
    show "returns (if v < of_nat k then go_return (ucast v)
      else go_then (read_bits 1) (\<lambda>b. go_return (ucast (push_bit 1 v + b - of_nat k)) :: (bit_reader, u32) go)) (\<lambda>v. unat v < n)"
    proof (rule returns_if)
      assume "v < of_nat k"
      then have "m < n" using f(4,5) less by linarith
      then have "unat (ucast v :: u32) < n" using m31 by (simp add: m(2) small_ucast small_word)
      then show "returns (go_return (ucast v :: u32)) (\<lambda>v. unat v < n)" by (rule returns_return)
    next
      assume "\<not> v < of_nat k"
      then have mk: "k \<le> m" using less by simp
      show "returns (go_then (read_bits 1) (\<lambda>b. go_return (ucast (push_bit 1 v + b - of_nat k) :: u32))) (\<lambda>v. unat v < n)"
      proof (rule returns_then [OF returns_bits])
        fix b :: u64 assume "take_bit (nat 1) b = b"
        then have "take_bit 1 b = b" by (simp only: nat_one_as_int [symmetric] nat_1 One_nat_def)
        from small [OF this] obtain j where j: "j < 2" "b = of_nat j" by auto
        have "2 * m + j - k < n" using m(1) j(1) two f(8) n(1) by linarith
        moreover have "push_bit 1 v + b - of_nat k = of_nat (2 * m + j - k)"
          using mk by (simp add: m(2) j(2) push_bit_eq_mult of_nat_diff)
        moreover have "2 * m + j - k < 2 ^ 31" using calculation(1) n(2) by linarith
        ultimately have "unat (ucast (push_bit 1 v + b - of_nat k) :: u32) < n" by (simp only: small_ucast small_word)
        then show "returns (go_return (ucast (push_bit 1 v + b - of_nat k) :: u32)) (\<lambda>v. unat v < n)" by (rule returns_return)
      qed simp_all
    qed
  qed
qed

lemma returns_fdiffs: "returns read_fdiffs (list_all (\<lambda>d. 1 \<le> d \<and> d \<le> 16))"
  unfolding returns_def
proof
  fix r show "rd_ok r \<longrightarrow> (\<exists>r' res. read_fdiffs r = Some (r', res) \<and>
    (\<forall>ds. res = Inr ds \<longrightarrow> rd_ok r' \<and> br_buf r' = br_buf r \<and> list_all (\<lambda>d. 1 \<le> d \<and> d \<le> 16) ds))"
  proof (induction r rule: read_fdiffs.induct)
    case (1 r)
    let ?goal = "\<exists>r' res. read_fdiffs r = Some (r', res) \<and>
      (\<forall>ds. res = Inr ds \<longrightarrow> rd_ok r' \<and> br_buf r' = br_buf r \<and> list_all (\<lambda>d. 1 \<le> d \<and> d \<le> 16) ds)"
    show ?case
    proof
      assume r: "rd_ok r"
      then obtain r1 res1 where r1: "read_bool r = Some (r1, res1)" "\<And>b. res1 = Inr b \<Longrightarrow> rd_ok r1 \<and> br_buf r1 = br_buf r"
        using returns_bool unfolding returns_def by blast
      consider (stop) e where "res1 = Inl e" | (last) "res1 = Inr False" | (more) "res1 = Inr True" by (cases res1) auto
      then show ?goal
      proof cases
        case stop
        then show ?goal using r1 by (subst read_fdiffs.simps) simp
      next
        case last
        then show ?goal using r1(1) r1(2) [OF last] by (subst read_fdiffs.simps) simp
      next
        case more
        with r1 have ok1: "rd_ok r1" "br_buf r1 = br_buf r" by blast+
        then obtain r2 res2 where r2: "read_bits 4 r1 = Some (r2, res2)"
          "\<And>v. res2 = Inr v \<Longrightarrow> rd_ok r2 \<and> br_buf r2 = br_buf r1 \<and> 0 \<le> uint v \<and> uint v < 2 ^ 4"
          using returns_value [of 4] unfolding returns_def by fastforce
        show ?goal
        proof (cases res2)
          case (Inr v)
          with r2 have ok2: "rd_ok r2" "br_buf r2 = br_buf r" "uint v < 2 ^ 4" using ok1 by auto
          then have "uint (v + 1) = uint v + 1" by (simp add: uint_plus_if')
          then have v: "1 \<le> uint (v + 1)" "uint (v + 1) \<le> 16" using ok2(3) by simp_all
          from "1.IH" [OF r1(1) refl more _ r2(1) refl Inr] ok2(1) obtain r3 res3 where
            "read_fdiffs r2 = Some (r3, res3)"
            "\<And>ds. res3 = Inr ds \<Longrightarrow> rd_ok r3 \<and> br_buf r3 = br_buf r2 \<and> list_all (\<lambda>d. 1 \<le> d \<and> d \<le> 16) ds" by blast
          then show ?goal using r1(1) more r2(1) Inr ok2(2) v
            by (subst read_fdiffs.simps) (cases res3; simp)
        next
          case (Inl e)
          then show ?goal using r1(1) more r2(1) by (subst read_fdiffs.simps) simp
        qed
      qed
    qed
  qed
qed

section \<open>What the reader returns\<close>

definition ft_layer :: "fd_template \<Rightarrow> int \<times> int" where
  "ft_layer t = (ft_spatial t, ft_temporal t)"

lemma layer_update [simp]:
  "ft_layer (t\<lparr>ft_dtis := ds\<rparr>) = ft_layer t" "ft_layer (t\<lparr>ft_frame_diffs := fs\<rparr>) = ft_layer t"
  "ft_layer (t\<lparr>ft_chain_diffs := cs\<rparr>) = ft_layer t" "ft_layer (new_template s u) = (s, u)"
  by (simp_all add: ft_layer_def new_template_def)

lemma new_template_fields: "ft_spatial (new_template s t) = s" "ft_temporal (new_template s t) = t"
  by (simp_all add: new_template_def)

lemma next_idc_layer: "ft_layer a = ft_layer a' \<Longrightarrow> ft_layer b = ft_layer b' \<Longrightarrow> get_next_layer_idc a b = get_next_layer_idc a' b'"
  by (simp add: ft_layer_def get_next_layer_idc_def)

lemma layers_follow_cong: "map ft_layer ts = map ft_layer ts' \<Longrightarrow> layers_follow s t ts = layers_follow s t ts'"
proof (induction s t ts arbitrary: ts' rule: layers_follow.induct)
  case (2 s t a)
  then show ?case by (auto simp: ft_layer_def Cons_eq_map_conv)
next
  case (3 s t a b ts)
  then obtain a' b' us where ts': "ts' = a' # b' # us" and l: "ft_layer a = ft_layer a'" "ft_layer b = ft_layer b'"
    "map ft_layer (b # ts) = map ft_layer (b' # us)"
    by (auto simp: Cons_eq_map_conv)
  show ?case using "3.IH" [OF l(3)] l(1,2) next_idc_layer [OF l(1,2)] unfolding ts' by (simp add: ft_layer_def)
qed simp

text \<open>The skeleton of the templates: their layers.\<close>

definition skeleton :: "nat \<Rightarrow> int \<Rightarrow> int \<Rightarrow> fd_template list \<Rightarrow> bool" where
  "skeleton n t s ts \<longleftrightarrow> layers_follow s t ts \<and> length ts \<le> n \<and>
    list_all (\<lambda>a. 0 \<le> ft_spatial a \<and> ft_spatial a < max_spatial_ids \<and> 0 \<le> ft_temporal a \<and> ft_temporal a < max_temporal_ids) ts"

lemma skeleton_cong:
  assumes "map ft_layer ts = map ft_layer ts'" "skeleton n t s ts"
  shows "skeleton n t s ts'"
proof -
  have "list_all (\<lambda>l. 0 \<le> fst l \<and> fst l < max_spatial_ids \<and> 0 \<le> snd l \<and> snd l < max_temporal_ids) (map ft_layer ts')"
    using assms(2) unfolding assms(1) [symmetric] by (simp add: skeleton_def list.pred_map o_def ft_layer_def)
  moreover have "length ts' = length ts" using assms(1) by (metis length_map)
  ultimately show ?thesis using assms(2) layers_follow_cong [OF assms(1)]
    by (simp add: skeleton_def list.pred_map o_def ft_layer_def)
qed

lemma skeleton_Cons:
  assumes "skeleton n t' s' ts" "get_next_layer_idc (new_template s t) (new_template s' t') < 3"
    "0 \<le> s" "s < max_spatial_ids" "0 \<le> t" "t < max_temporal_ids"
  shows "skeleton (Suc n) t s (new_template s t # ts)"
proof -
  from assms(1) obtain b us where ts: "ts = b # us" by (cases ts) (auto simp: skeleton_def)
  have "ft_spatial b = s'" "ft_temporal b = t'" using assms(1) unfolding ts by (cases us; simp add: skeleton_def)+
  moreover have "get_next_layer_idc (new_template s t) b = get_next_layer_idc (new_template s t) (new_template s' t')"
    using calculation by (intro next_idc_layer) (simp_all add: ft_layer_def new_template_def)
  ultimately show ?thesis using assms unfolding ts by (simp add: skeleton_def new_template_def)
qed

lemma returns_layers:
  "0 \<le> s \<Longrightarrow> s < max_spatial_ids \<Longrightarrow> 0 \<le> t \<Longrightarrow> t < max_temporal_ids \<Longrightarrow>
   returns (read_template_layers n t s) (\<lambda>ts. skeleton n t s ts \<and> list_all (\<lambda>a. a = new_template (ft_spatial a) (ft_temporal a)) ts)"
proof (induction n arbitrary: s t)
  case 0
  show ?case unfolding read_template_layers.simps by (rule returns_fail)
next
  case (Suc n)
  let ?P = "\<lambda>m ts. skeleton m t s ts \<and> list_all (\<lambda>a. a = new_template (ft_spatial a) (ft_temporal a)) ts"
  have rest: "returns (go_then reader_ok (\<lambda>ok. if idc = 3 \<or> \<not> ok then go_return [new_template s t]
        else go_then (read_template_layers n t' s') (\<lambda>ts. go_return (new_template s t # ts)))) (?P (Suc n))"
    if l: "0 \<le> s'" "s' < max_spatial_ids" "0 \<le> t'" "t' < max_temporal_ids"
      "get_next_layer_idc (new_template s t) (new_template s' t') < 3" for s' t' and idc :: u64
  proof (rule returns_then [of _ "\<lambda>_. True"])
    show "returns reader_ok (\<lambda>_. True)" by (simp add: returns_def reader_ok_def)
    fix ok
    show "returns (if idc = 3 \<or> \<not> ok then go_return [new_template s t]
      else go_then (read_template_layers n t' s') (\<lambda>ts. go_return (new_template s t # ts))) (?P (Suc n))"
    proof (rule returns_if)
      show "returns (go_return [new_template s t]) (?P (Suc n))"
        by (rule returns_return) (use Suc.prems in \<open>simp add: skeleton_def new_template_fields\<close>)
      show "returns (go_then (read_template_layers n t' s') (\<lambda>ts. go_return (new_template s t # ts))) (?P (Suc n))"
        by (rule returns_then [OF Suc.IH [OF l(1-4)]], rule returns_return)
          (simp add: skeleton_Cons [OF _ l(5) Suc.prems] new_template_fields)
    qed
  qed
  show ?case unfolding read_template_layers.simps Let_def
  proof (rule returns_then [of _ "\<lambda>_. True"])
    show "returns (read_bits 2) (\<lambda>_. True)" by (rule returns_weaken [OF returns_bits]) simp_all
    fix idc :: u64
    show "returns (if idc = 1 \<and> max_temporal_ids \<le> (if idc = 1 then t + 1 else if idc = 2 then 0 else t)
      then go_fail ErrDDReaderTooManyTemporalLayers
      else if idc = 2 \<and> max_spatial_ids \<le> (if idc = 2 then s + 1 else s) then go_fail ErrDDReaderTooManySpatialLayers
      else go_then reader_ok (\<lambda>ok. if idc = 3 \<or> \<not> ok then go_return [new_template s t]
        else go_then (read_template_layers n (if idc = 1 then t + 1 else if idc = 2 then 0 else t) (if idc = 2 then s + 1 else s))
          (\<lambda>ts. go_return (new_template s t # ts)))) (?P (Suc n))"
      by (intro returns_if returns_fail rest)
        (use Suc.prems in \<open>auto simp: get_next_layer_idc_def new_template_def max_temporal_ids_def\<close>)
  qed
qed

lemma uint_less_nat: "unat v < k \<Longrightarrow> 0 \<le> uint v \<and> uint v < int k"
  unfolding uint_nat of_nat_less_iff by (simp only: of_nat_0_le_iff simp_thms)

text \<open>The stages that fill in the templates.\<close>

lemma length_replicate_all: "list_all2 R (replicate n x) ys \<Longrightarrow> length ys = n"
  by (auto dest: list_all2_lengthD)

lemma returns_template_dtis:
  "0 \<le> n \<Longrightarrow> returns (read_template_dtis n ts) (list_all2 (\<lambda>t t'. \<exists>ds. t' = t\<lparr>ft_dtis := ds\<rparr> \<and> int (length ds) = n) ts)"
  unfolding read_template_dtis_def
proof (rule returns_map)
  fix t assume n: "0 \<le> n"
  show "returns (go_then (go_map (\<lambda>_. read_dti) (replicate (nat n) ())) (\<lambda>ds. go_return (t\<lparr>ft_dtis := ds\<rparr>)))
    (\<lambda>t'. \<exists>ds. t' = t\<lparr>ft_dtis := ds\<rparr> \<and> int (length ds) = n)"
    by (rule returns_then [OF returns_map [where R = "\<lambda>_ _. True"]], rule returns_dti, rule returns_return)
      (use n in \<open>auto dest!: length_replicate_all\<close>)
qed

lemma returns_template_fdiffs:
  "returns (read_template_fdiffs ts) (list_all2 (\<lambda>t t'. \<exists>ds. t' = t\<lparr>ft_frame_diffs := ds\<rparr> \<and> list_all (\<lambda>d. 1 \<le> d \<and> d \<le> 16) ds) ts)"
  unfolding read_template_fdiffs_def
  by (rule returns_map, rule returns_then [OF returns_fdiffs], rule returns_return) blast

lemma returns_values:
  assumes "n < 64"
  shows "returns (go_map (\<lambda>_. go_then (read_bits (int n)) (\<lambda>d. go_return (uint d))) xs)
    (\<lambda>ds. length ds = length xs \<and> list_all (\<lambda>d. 0 \<le> d \<and> d < 2 ^ n) ds)"
proof -
  have one: "returns (go_then (read_bits (int n)) (\<lambda>d. go_return (uint d))) (\<lambda>d. 0 \<le> d \<and> d < 2 ^ n)"
    by (rule returns_then [OF returns_value [OF assms]], rule returns_return)
  show ?thesis
  proof (rule returns_weaken [OF returns_map [where R = "\<lambda>_ d. 0 \<le> d \<and> d < 2 ^ n"]], rule one)
    fix ds :: "int list" assume "list_all2 (\<lambda>_ d. 0 \<le> d \<and> d < 2 ^ n) xs ds"
    then show "length ds = length xs \<and> list_all (\<lambda>d. 0 \<le> d \<and> d < 2 ^ n) ds"
      by (induction rule: list_all2_induct) auto
  qed
qed

lemma returns_template_chains:
  assumes n: "1 \<le> n" "n \<le> 32"
  shows "returns (read_template_chains n ts) (\<lambda>(c, protected, ts'). 0 \<le> c \<and> c \<le> n \<and>
    (if c = 0 then protected = [] else int (length protected) = n) \<and> list_all (\<lambda>k. 0 \<le> k \<and> k < c) protected \<and>
    (if c = 0 then ts' = ts
     else list_all2 (\<lambda>t t'. \<exists>ds. t' = t\<lparr>ft_chain_diffs := ds\<rparr> \<and> int (length ds) = c \<and> list_all (\<lambda>d. 0 \<le> d \<and> d < 16) ds) ts ts'))"
    (is "returns _ ?P")
proof -
  have num: "word_of_int n + 1 = (of_nat (nat n + 1) :: u32)" "0 < nat n + 1" "nat n + 1 < 2 ^ 31" using n by simp_all
  show ?thesis unfolding read_template_chains_def num(1)
  proof (rule returns_then [OF returns_non_symmetric [OF num(2,3)]], rule returns_if)
    fix c :: u32 assume c: "unat c < nat n + 1"
    show "returns (go_return (0, [], ts)) ?P" by (rule returns_return) (use n in simp)
    assume nz: "uint c \<noteq> 0"
    define k where "k = unat c"
    have ck: "c = of_nat k" "uint c = int k" by (simp_all add: k_def)
    then have pos: "0 < k" "int k \<le> n" using c nz n unfolding k_def [symmetric] by simp_all
    then have "k < 2 ^ 31" using n by simp
    note k = ck(1) pos(1) this ck(2) pos(2)
    have one: "returns (go_then (read_non_symmetric c) (\<lambda>c. go_return (uint c))) (\<lambda>v. 0 \<le> v \<and> v < int k)"
      unfolding k(1) by (rule returns_then [OF returns_non_symmetric [OF k(2,3)]], rule returns_return) (rule uint_less_nat)
    have prot: "returns (go_map (\<lambda>_. go_then (read_non_symmetric c) (\<lambda>c. go_return (uint c))) (replicate (nat n) ()))
      (\<lambda>ps. int (length ps) = n \<and> list_all (\<lambda>v. 0 \<le> v \<and> v < int k) ps)"
    proof (rule returns_weaken [OF returns_map [where R = "\<lambda>_ v. 0 \<le> v \<and> v < int k"]], rule one)
      fix ps assume ps: "list_all2 (\<lambda>_ v. 0 \<le> v \<and> v < int k) (replicate (nat n) ()) ps"
      then have "length ps = nat n" by (rule length_replicate_all)
      moreover have "list_all (\<lambda>v. 0 \<le> v \<and> v < int k) ps"
        using ps by (auto simp: list_all2_conv_all_nth list_all_length)
      ultimately show "int (length ps) = n \<and> list_all (\<lambda>v. 0 \<le> v \<and> v < int k) ps" using n by simp
    qed
    show "returns (go_then (go_map (\<lambda>_. go_then (read_non_symmetric c) (\<lambda>c. go_return (uint c))) (replicate (nat n) ())) (\<lambda>protected.
      go_then (go_map (\<lambda>t. go_then (go_map (\<lambda>_. go_then (read_bits 4) (\<lambda>d. go_return (uint d))) (replicate (unat c) ()))
        (\<lambda>ds. go_return (t\<lparr>ft_chain_diffs := ds\<rparr>))) ts) (\<lambda>ts'. go_return (uint c, protected, ts')))) ?P"
    proof (rule returns_then [OF prot])
      fix ps assume ps: "int (length ps) = n \<and> list_all (\<lambda>v. 0 \<le> v \<and> v < int k) ps"
      have t: "returns (go_then (go_map (\<lambda>_. go_then (read_bits 4) (\<lambda>d. go_return (uint d))) (replicate (unat c) ()))
          (\<lambda>ds. go_return (t\<lparr>ft_chain_diffs := ds\<rparr>)))
        (\<lambda>t'. \<exists>ds. t' = t\<lparr>ft_chain_diffs := ds\<rparr> \<and> int (length ds) = int k \<and> list_all (\<lambda>d. 0 \<le> d \<and> d < 16) ds)" for t
        by (rule returns_then [OF returns_values [of 4, simplified]], rule returns_return) (auto simp: k_def)
      show "returns (go_then (go_map (\<lambda>t. go_then (go_map (\<lambda>_. go_then (read_bits 4) (\<lambda>d. go_return (uint d))) (replicate (unat c) ()))
        (\<lambda>ds. go_return (t\<lparr>ft_chain_diffs := ds\<rparr>))) ts) (\<lambda>ts'. go_return (uint c, ps, ts'))) ?P"
        by (rule returns_then [OF returns_map [OF t]], rule returns_return) (use k ps in \<open>simp add: k(4)\<close>)
    qed
  qed
qed

lemma layers_of_stage:
  "list_all2 (\<lambda>t t'. \<exists>ds. t' = f t ds \<and> Q ds) ts ts' \<Longrightarrow> (\<And>t ds. ft_layer (f t ds) = ft_layer t) \<Longrightarrow> map ft_layer ts = map ft_layer ts'"
  by (induction rule: list_all2_induct) auto

lemma returns_resolutions:
  assumes "ts \<noteq> []" "0 \<le> ft_spatial (last ts)"
  shows "returns (read_resolutions ts) (\<lambda>rs. int (length rs) = ft_spatial (last ts) + 1 \<and>
    list_all (\<lambda>r. 1 \<le> rr_width r \<and> rr_width r \<le> 65536 \<and> 1 \<le> rr_height r \<and> rr_height r \<le> 65536) rs)"
proof -
  have last: "go_nth ts (int (length ts) - 1) = Some (last ts)"
    using assms(1) by (simp add: go_nth_def last_conv_nth nat_diff_distrib')
  have succ: "1 \<le> uint (w + 1) \<and> uint (w + 1) \<le> 65536" if "uint w < 2 ^ 16" for w :: u64
    using that uint_ge_0 [of w] by (simp add: uint_plus_if')
  have one: "returns (go_then (read_bits 16) (\<lambda>w. go_then (read_bits 16) (\<lambda>h.
      go_return \<lparr>rr_width = uint (w + 1), rr_height = uint (h + 1)\<rparr>)))
    (\<lambda>r. 1 \<le> rr_width r \<and> rr_width r \<le> 65536 \<and> 1 \<le> rr_height r \<and> rr_height r \<le> 65536)" (is "returns _ ?R")
    by (rule returns_then [OF returns_value [of 16, simplified]], rule returns_then [OF returns_value [of 16, simplified]],
        rule returns_return) (use succ in simp)
  show ?thesis unfolding read_resolutions_def last option.case
  proof (rule returns_weaken [OF returns_map [where R = "\<lambda>_. ?R"]], rule one)
    fix rs assume rs: "list_all2 (\<lambda>_. ?R) (replicate (nat (ft_spatial (last ts) + 1)) ()) rs"
    then have "length rs = nat (ft_spatial (last ts) + 1)" by (rule length_replicate_all)
    moreover have "list_all ?R rs" using rs by (auto simp: list_all2_conv_all_nth list_all_length)
    ultimately show "int (length rs) = ft_spatial (last ts) + 1 \<and> list_all ?R rs" using assms(2) by simp
  qed
qed

lemma all_after_stage:
  "list_all2 (\<lambda>t t'. \<exists>ds. t' = f t ds \<and> Q ds) ts ts' \<Longrightarrow> list_all P ts \<Longrightarrow> (\<And>t ds. P t \<Longrightarrow> Q ds \<Longrightarrow> R (f t ds)) \<Longrightarrow> list_all R ts'"
  by (induction rule: list_all2_induct) auto

lemma returns_structure: "returns read_template_dependency_structure fs_ok"
  unfolding read_template_dependency_structure_def Let_def
proof (rule returns_then [OF returns_value [of 6, simplified]], rule returns_then [OF returns_value [of 5, simplified]])
  fix id targets :: u64
  assume id: "uint id < 64" and tg: "uint targets < 32"
  define n where "n = uint targets + 1"
  have n: "1 \<le> n" "n \<le> 32" "0 \<le> n" using tg uint_ge_0 [of targets] unfolding n_def by linarith+
  have layers: "returns (read_template_layers max_templates 0 0)
      (\<lambda>ts. skeleton max_templates 0 0 ts \<and> list_all (\<lambda>a. a = new_template (ft_spatial a) (ft_temporal a)) ts)"
    by (rule returns_layers) (simp_all add: max_spatial_ids_def max_temporal_ids_def)
  show "returns (go_then (read_template_layers max_templates 0 0) (\<lambda>ts.
    go_then (read_template_dtis (uint targets + 1) ts) (\<lambda>ts.
    go_then (read_template_fdiffs ts) (\<lambda>ts.
    go_then (read_template_chains (uint targets + 1) ts) (\<lambda>(num_chains, protected, ts).
    go_then read_bool (\<lambda>flag.
    go_then (if flag then read_resolutions ts else go_return []) (\<lambda>resolutions.
    go_return \<lparr>fs_id = uint id, fs_num_targets = uint targets + 1, fs_num_chains = num_chains,
      fs_protected = protected, fs_resolutions = resolutions, fs_templates = ts\<rparr>)))))) ) fs_ok"
    unfolding n_def [symmetric]
  proof (rule returns_then [OF layers], rule returns_then [OF returns_template_dtis [OF n(3)]],
      rule returns_then [OF returns_template_fdiffs], rule returns_then [OF returns_template_chains [OF n(1,2)]])
    fix ts ts1 ts2 and x :: "int \<times> int list \<times> fd_template list"
    assume l: "skeleton max_templates 0 0 ts \<and> list_all (\<lambda>a. a = new_template (ft_spatial a) (ft_temporal a)) ts"
      and d: "list_all2 (\<lambda>t t'. \<exists>ds. t' = t\<lparr>ft_dtis := ds\<rparr> \<and> int (length ds) = n) ts ts1"
      and f: "list_all2 (\<lambda>t t'. \<exists>ds. t' = t\<lparr>ft_frame_diffs := ds\<rparr> \<and> list_all (\<lambda>d. 1 \<le> d \<and> d \<le> 16) ds) ts1 ts2"
      and c: "case x of (c, protected, ts') \<Rightarrow> 0 \<le> c \<and> c \<le> n \<and>
        (if c = 0 then protected = [] else int (length protected) = n) \<and> list_all (\<lambda>k. 0 \<le> k \<and> k < c) protected \<and>
        (if c = 0 then ts' = ts2
         else list_all2 (\<lambda>t t'. \<exists>ds. t' = t\<lparr>ft_chain_diffs := ds\<rparr> \<and> int (length ds) = c \<and> list_all (\<lambda>d. 0 \<le> d \<and> d < 16) ds) ts2 ts')"
    obtain chains protected ts3 where x: "x = (chains, protected, ts3)" by (cases x)
    note c = c [unfolded x prod.case]
    have "list_all (\<lambda>t. ft_chain_diffs t = []) ts" using l by (auto simp: list_all_iff new_template_def) (metis fd_template.select_convs(5))
    then have "list_all (\<lambda>t. ft_chain_diffs t = [] \<and> int (length (ft_dtis t)) = n) ts1"
      using all_after_stage [OF d] by fastforce
    then have "list_all (\<lambda>t. ft_chain_diffs t = [] \<and> int (length (ft_dtis t)) = n \<and> list_all (\<lambda>d. 1 \<le> d \<and> d \<le> 16) (ft_frame_diffs t)) ts2"
      by (rule all_after_stage [OF f]) simp
    then have filled: "list_all (\<lambda>t. int (length (ft_chain_diffs t)) = chains \<and> list_all (\<lambda>d. 0 \<le> d \<and> d < 16) (ft_chain_diffs t) \<and>
        int (length (ft_dtis t)) = n \<and> list_all (\<lambda>d. 1 \<le> d \<and> d \<le> 16) (ft_frame_diffs t)) ts3"
    proof (cases "chains = 0")
      case True
      assume "list_all (\<lambda>t. ft_chain_diffs t = [] \<and> int (length (ft_dtis t)) = n \<and> list_all (\<lambda>d. 1 \<le> d \<and> d \<le> 16) (ft_frame_diffs t)) ts2"
      then show ?thesis using c True by (auto simp: list_all_iff)
    next
      case False
      then have s: "list_all2 (\<lambda>t t'. \<exists>ds. t' = t\<lparr>ft_chain_diffs := ds\<rparr> \<and> int (length ds) = chains \<and> list_all (\<lambda>d. 0 \<le> d \<and> d < 16) ds) ts2 ts3"
        using c by simp
      assume "list_all (\<lambda>t. ft_chain_diffs t = [] \<and> int (length (ft_dtis t)) = n \<and> list_all (\<lambda>d. 1 \<le> d \<and> d \<le> 16) (ft_frame_diffs t)) ts2"
      then show ?thesis by (rule all_after_stage [OF s]) simp
    qed
    have "map ft_layer ts = map ft_layer ts1" using layers_of_stage [OF d] by simp
    moreover have "map ft_layer ts1 = map ft_layer ts2" using layers_of_stage [OF f] by simp
    moreover have "map ft_layer ts2 = map ft_layer ts3"
    proof (cases "chains = 0")
      case False
      then have "list_all2 (\<lambda>t t'. \<exists>ds. t' = t\<lparr>ft_chain_diffs := ds\<rparr> \<and> int (length ds) = chains \<and> list_all (\<lambda>d. 0 \<le> d \<and> d < 16) ds) ts2 ts3"
        using c by simp
      from layers_of_stage [OF this] show ?thesis by simp
    qed (use c in simp)
    ultimately have sk: "skeleton max_templates 0 0 ts3" using skeleton_cong l by metis
    then have ne: "ts3 \<noteq> []" "0 \<le> ft_spatial (last ts3)" by (cases ts3; auto simp: skeleton_def list_all_iff)+
    show "returns (case x of (num_chains, protected, ts) \<Rightarrow>
      go_then read_bool (\<lambda>flag. go_then (if flag then read_resolutions ts else go_return []) (\<lambda>resolutions.
        go_return \<lparr>fs_id = uint id, fs_num_targets = n, fs_num_chains = num_chains,
          fs_protected = protected, fs_resolutions = resolutions, fs_templates = ts\<rparr>))) fs_ok"
      unfolding x prod.case
    proof (rule returns_then [OF returns_bool], rule returns_then)
      fix flag
      let ?R = "\<lambda>rs :: render_resolution list. (rs = [] \<or> int (length rs) = ft_spatial (last ts3) + 1) \<and>
        list_all (\<lambda>r. 1 \<le> rr_width r \<and> rr_width r \<le> 65536 \<and> 1 \<le> rr_height r \<and> rr_height r \<le> 65536) rs"
      show "returns (if flag then read_resolutions ts3 else go_return []) ?R"
        by (intro returns_if returns_weaken [OF returns_resolutions [OF ne]] returns_return) simp_all
      fix rs assume "?R rs"
      then show "returns (go_return \<lparr>fs_id = uint id, fs_num_targets = n, fs_num_chains = chains,
          fs_protected = protected, fs_resolutions = rs, fs_templates = ts3\<rparr>) fs_ok"
        by (intro returns_return) (use n id c sk filled in \<open>auto simp: fs_ok_def skeleton_def template_ok_def list_all_iff\<close>)
    qed
  qed
qed

lemma returns_sized_fdiffs: "returns read_sized_fdiffs (list_all (\<lambda>d. 1 \<le> d \<and> d \<le> 4096))"
  unfolding returns_def
proof
  fix r show "rd_ok r \<longrightarrow> (\<exists>r' res. read_sized_fdiffs r = Some (r', res) \<and>
    (\<forall>ds. res = Inr ds \<longrightarrow> rd_ok r' \<and> br_buf r' = br_buf r \<and> list_all (\<lambda>d. 1 \<le> d \<and> d \<le> 4096) ds))"
  proof (induction r rule: read_sized_fdiffs.induct)
    case (1 r)
    let ?goal = "\<exists>r' res. read_sized_fdiffs r = Some (r', res) \<and>
      (\<forall>ds. res = Inr ds \<longrightarrow> rd_ok r' \<and> br_buf r' = br_buf r \<and> list_all (\<lambda>d. 1 \<le> d \<and> d \<le> 4096) ds)"
    show ?case
    proof
      assume r: "rd_ok r"
      then obtain r1 res1 where r1: "read_bits 2 r = Some (r1, res1)"
        "\<And>v. res1 = Inr v \<Longrightarrow> rd_ok r1 \<and> br_buf r1 = br_buf r \<and> uint v < 4"
        using returns_value [of 2, simplified] unfolding returns_def by blast
      show ?goal
      proof (cases res1)
        case (Inl e)
        then show ?goal using r1(1) by (subst read_sized_fdiffs.simps) simp
      next
        case sz: (Inr sz)
        note ok1 = r1(2) [OF sz]
        show ?goal
        proof (cases "sz = 0")
          case True
          then show ?goal using r1(1) sz ok1 by (subst read_sized_fdiffs.simps) simp
        next
          case nz: False
          define n where "n = nat (uint sz * 4)"
          have "uint sz * 4 = int n" unfolding n_def by simp
          moreover from this have "n \<le> 12" using ok1 by linarith
          ultimately have n: "uint sz * 4 = int n" "n \<le> 12" by blast+
          from n(2) have "returns (read_bits (int n)) (\<lambda>v. 0 \<le> uint v \<and> uint v < 2 ^ n)" by (intro returns_value) simp
          then obtain r2 res2 where r2: "read_bits (uint sz * 4) r1 = Some (r2, res2)"
            "\<And>v. res2 = Inr v \<Longrightarrow> rd_ok r2 \<and> br_buf r2 = br_buf r1 \<and> 0 \<le> uint v \<and> uint v < 2 ^ n"
            using ok1 unfolding returns_def n(1) by blast
          show ?goal
          proof (cases res2)
            case (Inl e)
            then show ?goal using r1(1) sz nz r2(1) by (subst read_sized_fdiffs.simps) simp
          next
            case (Inr v)
            note ok2 = r2(2) [OF Inr]
            have "(2 :: int) ^ n \<le> 2 ^ 12" using n(2) by (intro power_increasing) auto
            then have "uint v < 4096" using ok2 by simp
            then have v: "1 \<le> uint (v + 1)" "uint (v + 1) \<le> 4096" using uint_ge_0 [of v] by (simp_all add: uint_plus_if')
            from "1.IH" [OF r1(1) refl sz nz r2(1) refl Inr] ok2 obtain r3 res3 where
              "read_sized_fdiffs r2 = Some (r3, res3)"
              "\<And>ds. res3 = Inr ds \<Longrightarrow> rd_ok r3 \<and> br_buf r3 = br_buf r2 \<and> list_all (\<lambda>d. 1 \<le> d \<and> d \<le> 4096) ds" by blast
            then show ?goal using r1(1) sz nz r2(1) Inr ok1 ok2 v
              by (subst read_sized_fdiffs.simps) (cases res3; simp)
          qed
        qed
      qed
    qed
  qed
qed

lemma fs_okD:
  assumes "fs_ok s"
  shows "0 \<le> fs_id s" "fs_id s < 64" "1 \<le> fs_num_targets s" "fs_num_targets s \<le> 32" "0 \<le> fs_num_chains s"
    "fs_num_chains s \<le> fs_num_targets s" "length (fs_templates s) \<le> 64" "layers_follow 0 0 (fs_templates s)"
    "\<And>t. t \<in> set (fs_templates s) \<Longrightarrow> template_ok s t"
  using assms by (auto simp: fs_ok_def list_all_iff max_templates_def)

lemma returns_definition:
  assumes s: "fs_ok s" and id: "0 \<le> template_id"
  shows "returns (read_frame_dependency_definition s flags template_id) (\<lambda>(fd, res). frame_ok s fd \<and>
    (if fs_resolutions s = [] then res = None
     else ft_spatial fd < int (length (fs_resolutions s)) \<and> res = Some (fs_resolutions s ! nat (ft_spatial fd))))"
    (is "returns _ ?P")
proof -
  define idx where "idx = go_rem (template_id + int max_templates - fs_id s) (int max_templates)"
  have idx: "0 \<le> idx" using id fs_okD(2) [OF s] by (simp add: idx_def go_rem_def max_templates_def)
  show ?thesis unfolding read_frame_dependency_definition_def Let_def idx_def [symmetric]
  proof (rule returns_if)
    show "returns (go_invalidate ErrDDReaderInvalidTemplateIndex) ?P" by (rule returns_fail)
    assume "\<not> int (length (fs_templates s)) \<le> idx"
    then obtain t where t: "go_nth (fs_templates s) idx = Some t" "t \<in> set (fs_templates s)"
      using idx by (simp add: nat_less_iff)
    note tok = fs_okD(9) [OF s t(2)]
    let ?Q = "\<lambda>fd. ft_layer fd = ft_layer t \<and> int (length (ft_dtis fd)) = fs_num_targets s"
    have q1: "returns (if df_custom_dtis flags then read_frame_dtis s t else go_return t)
      (\<lambda>fd. ?Q fd \<and> ft_frame_diffs fd = ft_frame_diffs t \<and> ft_chain_diffs fd = ft_chain_diffs t)"
    proof (intro returns_if)
      show "returns (read_frame_dtis s t) (\<lambda>fd. ?Q fd \<and> ft_frame_diffs fd = ft_frame_diffs t \<and> ft_chain_diffs fd = ft_chain_diffs t)"
        unfolding read_frame_dtis_def
        by (rule returns_if, rule returns_fail, rule returns_then [OF returns_map [where R = "\<lambda>_ _. True"]], rule returns_dti,
            rule returns_return) (auto dest: list_all2_lengthD)
    qed (rule returns_return, use tok in \<open>simp add: template_ok_def\<close>)
    have q2: "returns (if df_custom_fdiffs flags then read_frame_fdiffs fd else go_return fd)
      (\<lambda>fd. ?Q fd \<and> list_all (\<lambda>d. 1 \<le> d \<and> d \<le> 4096) (ft_frame_diffs fd) \<and> ft_chain_diffs fd = ft_chain_diffs t)"
      if "?Q fd \<and> ft_frame_diffs fd = ft_frame_diffs t \<and> ft_chain_diffs fd = ft_chain_diffs t" for fd
    proof (intro returns_if)
      show "returns (read_frame_fdiffs fd) (\<lambda>fd. ?Q fd \<and> list_all (\<lambda>d. 1 \<le> d \<and> d \<le> 4096) (ft_frame_diffs fd) \<and> ft_chain_diffs fd = ft_chain_diffs t)"
        unfolding read_frame_fdiffs_def by (rule returns_then [OF returns_sized_fdiffs], rule returns_return) (use that in simp)
    qed (rule returns_return, use tok that in \<open>auto simp: template_ok_def list_all_iff\<close>)
    have q3: "returns (if df_custom_chains flags then read_frame_chains s fd else go_return fd)
      (\<lambda>fd. ?Q fd \<and> list_all (\<lambda>d. 1 \<le> d \<and> d \<le> 4096) (ft_frame_diffs fd) \<and>
        int (length (ft_chain_diffs fd)) = fs_num_chains s \<and> list_all (\<lambda>d. 0 \<le> d \<and> d < 256) (ft_chain_diffs fd))"
      if "?Q fd \<and> list_all (\<lambda>d. 1 \<le> d \<and> d \<le> 4096) (ft_frame_diffs fd) \<and> ft_chain_diffs fd = ft_chain_diffs t" for fd
    proof (intro returns_if)
      show "returns (read_frame_chains s fd)
        (\<lambda>fd. ?Q fd \<and> list_all (\<lambda>d. 1 \<le> d \<and> d \<le> 4096) (ft_frame_diffs fd) \<and>
          int (length (ft_chain_diffs fd)) = fs_num_chains s \<and> list_all (\<lambda>d. 0 \<le> d \<and> d < 256) (ft_chain_diffs fd))"
        unfolding read_frame_chains_def
        by (rule returns_if, rule returns_fail, rule returns_then [OF returns_values [of 8, simplified]], rule returns_return)
          (use that in auto)
    qed (rule returns_return, use tok that in \<open>auto simp: template_ok_def list_all_iff\<close>)
    show "returns (case go_nth (fs_templates s) idx of None \<Rightarrow> (\<lambda>r. None) | Some template \<Rightarrow>
         go_then (if df_custom_dtis flags then read_frame_dtis s template else go_return template) (\<lambda>fd.
         go_then (if df_custom_fdiffs flags then read_frame_fdiffs fd else go_return fd) (\<lambda>fd.
         go_then (if df_custom_chains flags then read_frame_chains s fd else go_return fd) (\<lambda>fd.
         if fs_resolutions s = [] then go_return (fd, None)
         else if ft_spatial fd \<ge> int (length (fs_resolutions s)) then go_invalidate ErrDDReaderInvalidSpatialLayer
         else case go_nth (fs_resolutions s) (ft_spatial fd) of
           None \<Rightarrow> (\<lambda>r. None)
         | Some res \<Rightarrow> go_return (fd, Some res))))) ?P"
      unfolding t(1) option.case
    proof (rule returns_then [OF q1], rule returns_then [OF q2], assumption, rule returns_then [OF q3], assumption)
      fix fd assume fd: "?Q fd \<and> list_all (\<lambda>d. 1 \<le> d \<and> d \<le> 4096) (ft_frame_diffs fd) \<and>
        int (length (ft_chain_diffs fd)) = fs_num_chains s \<and> list_all (\<lambda>d. 0 \<le> d \<and> d < 256) (ft_chain_diffs fd)"
      then have ok: "frame_ok s fd" using t(2) by (auto simp: frame_ok_def list_ex_iff same_layer_def ft_layer_def)
      have sp: "0 \<le> ft_spatial fd" using fd tok by (simp add: ft_layer_def template_ok_def)
      show "returns (if fs_resolutions s = [] then go_return (fd, None)
         else if ft_spatial fd \<ge> int (length (fs_resolutions s)) then go_invalidate ErrDDReaderInvalidSpatialLayer
         else case go_nth (fs_resolutions s) (ft_spatial fd) of
           None \<Rightarrow> (\<lambda>r. None)
         | Some res \<Rightarrow> go_return (fd, Some res)) ?P"
        by (intro returns_if returns_return returns_fail) (use ok sp in \<open>auto intro!: returns_return\<close>)
    qed
  qed
qed

lemma all_targets_less:
  assumes "1 \<le> n" "n \<le> 32"
  shows "uint (ucast (all_targets n) :: u32) < 2 ^ nat n" "all_targets n = mask (nat n)"
proof -
  show m: "all_targets n = mask (nat n)" by (simp add: all_targets_def mask_eq_exp_minus_1 push_bit_eq_mult)
  have "nat n \<le> 32" using assms by simp
  then have "(ucast (mask (nat n) :: u64) :: u32) = mask (nat n)"
    by (intro bit_word_eqI) (auto simp: bit_ucast_iff bit_mask_iff)
  moreover have "take_bit (nat n) (mask (nat n) :: u32) = mask (nat n)" by simp
  then have "uint (mask (nat n) :: u32) < 2 ^ nat n" by (metis take_bit_int_less_exp unsigned_take_bit_eq)
  ultimately show "uint (ucast (all_targets n) :: u32) < 2 ^ nat n" unfolding m by simp
qed

lemma returns_extended:
  "returns read_extended_fields (\<lambda>(flags, attached, bitmask). case attached of
     None \<Rightarrow> bitmask = None
   | Some s \<Rightarrow> fs_ok s \<and> (\<exists>m. bitmask = Some m \<and> uint m < 2 ^ nat (fs_num_targets s)))" (is "returns _ ?P")
proof -
  have "returns (if p then go_then read_template_dependency_structure (\<lambda>s. go_return (flags, Some s, Some (ucast (all_targets (fs_num_targets s)))))
      else go_return (flags, None, None)) ?P" for p flags
  proof (rule returns_if)
    show "returns (go_then read_template_dependency_structure (\<lambda>s. go_return (flags, Some s, Some (ucast (all_targets (fs_num_targets s)))))) ?P"
      by (rule returns_then [OF returns_structure], rule returns_return) (use all_targets_less(1) fs_okD(3,4) in simp)
  qed (rule returns_return, simp)
  then show ?thesis unfolding read_extended_fields_def Let_def
    by (intro returns_then [OF returns_bool])
qed

lemma bytes_read_bounds:
  assumes "rd_ok r"
  shows "0 \<le> bytes_read r" "bytes_read r \<le> int (length (br_buf r))"
proof -
  define L rem where "L = int (length (br_buf r))" and "rem = br_remaining r"
  have b: "0 \<le> rem" "rem \<le> 8 * L" "int (br_pos r) = (8 * L - rem) div 8" using assms by (simp_all add: rd_ok_def L_def rem_def)
  have "(if rem > 0 \<and> rem mod 8 > 0 then (8 * L - rem) div 8 + 1 else (8 * L - rem) div 8) \<le> L" using b(1) by presburger
  then show "bytes_read r \<le> int (length (br_buf r))" unfolding bytes_read_def rem_def [symmetric] L_def [symmetric] b(3) .
  show "0 \<le> bytes_read r" by (simp add: bytes_read_def)
qed

lemma new_reader_ok: "rd_ok (new_bit_reader buf)" "br_buf (new_bit_reader buf) = buf" "unread (new_bit_reader buf) = bits_of buf"
  by (simp_all add: new_bit_reader_def rd_ok_def unread_def rd_at_def)

lemma dd_unmarshal_returns:
  assumes known: "\<forall>s. structure = Some s \<longrightarrow> fs_ok s"
  shows "\<exists>res. dd_unmarshal buf structure = Some res \<and>
    (\<forall>n d. res = Inr (n, d) \<longrightarrow> 0 \<le> n \<and> n \<le> int (length buf) \<and>
      (\<exists>s. fs_ok s \<and> dd_ok s d \<and> (if dd_attached d = None then structure = Some s else dd_attached d = Some s)))"
proof -
  let ?D = "\<lambda>d. \<exists>s. fs_ok s \<and> dd_ok s d \<and> (if dd_attached d = None then structure = Some s else dd_attached d = Some s)"
  have mand: "returns read_mandatory_fields (\<lambda>(first, last, template_id, frame_number). 0 \<le> template_id)"
    unfolding read_mandatory_fields_def
    by (rule returns_then [OF returns_bool], rule returns_then [OF returns_bool],
        rule returns_then [OF returns_value [of 6, simplified]], rule returns_then [OF returns_value [of 16, simplified]], rule returns_return) simp
  have body: "returns (case (if attached \<noteq> None then attached else structure) of
      None \<Rightarrow> go_invalidate ErrDDReaderNoStructure
    | Some s \<Rightarrow>
        go_then (if df_active_targets flags
            then go_then (read_bits (fs_num_targets s)) (\<lambda>m. go_return (Some (ucast m))) else go_return bitmask) (\<lambda>bitmask.
        go_then (read_frame_dependency_definition s flags template_id) (\<lambda>(fd, resolution).
        go_return \<lparr>dd_first = first, dd_last = last, dd_frame_number = frame_number, dd_dependencies = Some fd,
          dd_resolution = resolution, dd_bitmask = bitmask, dd_attached = attached\<rparr>))) ?D"
    if id: "0 \<le> template_id" and att: "case attached of None \<Rightarrow> bitmask = None
       | Some s \<Rightarrow> fs_ok s \<and> (\<exists>m. bitmask = Some m \<and> uint m < 2 ^ nat (fs_num_targets s))"
    for flags attached bitmask template_id first last frame_number
  proof (cases "if attached \<noteq> None then attached else structure")
    case None
    then show ?thesis by (simp add: returns_fail)
  next
    case (Some s)
    then have s: "fs_ok s" "if attached = None then structure = Some s else attached = Some s"
      using att known by (auto split: if_splits)
    let ?M = "\<lambda>b. case b of None \<Rightarrow> attached = None | Some m \<Rightarrow> uint m < 2 ^ nat (fs_num_targets s)"
    have mask: "returns (if df_active_targets flags
        then go_then (read_bits (fs_num_targets s)) (\<lambda>m. go_return (Some (ucast m))) else go_return bitmask) ?M"
    proof (rule returns_if)
      have n: "0 \<le> fs_num_targets s" "fs_num_targets s \<le> 64" "nat (fs_num_targets s) \<le> 32" using fs_okD(3,4) [OF s(1)] by simp_all
      have lt: "uint (ucast m :: u32) < 2 ^ nat (fs_num_targets s)" if "take_bit (nat (fs_num_targets s)) m = m" for m :: u64
      proof -
        have "take_bit (nat (fs_num_targets s)) (ucast m :: u32) = ucast m"
          by (subst (2) that [symmetric], intro bit_word_eqI) (use n(3) in \<open>auto simp: bit_take_bit_iff bit_ucast_iff\<close>)
        then show ?thesis by (metis take_bit_int_less_exp unsigned_take_bit_eq)
      qed
      show "returns (go_then (read_bits (fs_num_targets s)) (\<lambda>m. go_return (Some (ucast m :: u32)))) ?M"
        by (rule returns_then [OF returns_bits [OF n(1,2)]], rule returns_return) (simp add: lt)
      show "returns (go_return bitmask) ?M"
        by (rule returns_return) (use att s(2) in \<open>auto split: option.splits if_splits\<close>)
    qed
    show ?thesis unfolding Some option.case
      by (rule returns_then [OF mask], rule returns_then [OF returns_definition [OF s(1) id]])
        (use s in \<open>auto intro!: returns_return exI [of _ s] simp: dd_ok_def split: if_splits option.splits\<close>)
  qed
  have ext: "returns (if length buf > 3 then read_extended_fields else go_return (no_flags, None, None))
    (\<lambda>(flags, attached, bitmask). case attached of
       None \<Rightarrow> bitmask = None
     | Some s \<Rightarrow> fs_ok s \<and> (\<exists>m. bitmask = Some m \<and> uint m < 2 ^ nat (fs_num_targets s)))"
    by (intro returns_if returns_extended returns_return) simp
  have "returns (dd_parse buf structure) ?D" unfolding dd_parse_def
    by (rule returns_then [OF mand], clarify, rule returns_then [OF ext], clarify) (rule body)
  then obtain r res where r: "dd_parse buf structure (new_bit_reader buf) = Some (r, res)"
    "\<And>d. res = Inr d \<Longrightarrow> rd_ok r \<and> br_buf r = buf \<and> ?D d"
    unfolding returns_def using new_reader_ok by metis
  show ?thesis
  proof (cases res)
    case (Inl e)
    then show ?thesis using r(1) by (simp add: dd_unmarshal_def)
  next
    case (Inr d)
    then show ?thesis using r bytes_read_bounds [of r] by (simp add: dd_unmarshal_def)
  qed
qed

text \<open>
  C19. Whatever bytes arrive as a dependency descriptor, the reader does not panic: it returns an
  error or a descriptor.  A descriptor that is returned is well formed under the structure that
  came with it or, when it has none, under the known one: its template exists, it has one
  indication per decode target and one difference per chain, its differences, resolution and bit
  mask are in range, and no more bytes were read than there are.
\<close>

theorem dd_unmarshal_well_formed:
  assumes known: "\<forall>s. structure = Some s \<longrightarrow> fs_ok s"
  shows "\<exists>res. dd_unmarshal buf structure = Some res \<and>
    (\<forall>n d. res = Inr (n, d) \<longrightarrow> 0 \<le> n \<and> n \<le> int (length buf) \<and>
      (\<exists>s. fs_ok s \<and> dd_ok s d \<and> (if dd_attached d = None then structure = Some s else dd_attached d = Some s)))"
  by (rule dd_unmarshal_returns [OF known])

theorem dd_unmarshal_well_formed_witness:
  "\<exists>res. dd_unmarshal [0x80, 0, 1, 0x80, 1, 2] None = Some res \<and>
    (\<forall>n d. res = Inr (n, d) \<longrightarrow> 0 \<le> n \<and> n \<le> int (length [0x80, 0, 1, 0x80, 1, 2 :: u8]) \<and>
      (\<exists>s. fs_ok s \<and> dd_ok s d \<and> (if dd_attached d = None then None = Some s else dd_attached d = Some s)))"
  by (rule dd_unmarshal_well_formed) simp

end
