(* ===== verification/Dd_Round_Trip.thy ===== *)
theory Dd_Round_Trip
  imports Dd_Reading
begin

text \<open>
  The reader of dependency descriptors reads back what the writer wrote.  A writer and a reader
  agree on a value if there are bits that the one emits and the other parses as the value; the
  rules for this relation follow the structure of the two programs.
\<close>

section \<open>Writers and readers that agree\<close>

definition codes :: "(bit_writer, unit) go \<Rightarrow> (bit_reader, 'a) go \<Rightarrow> 'a \<Rightarrow> nat \<Rightarrow> bool" where
  "codes w m x n \<longleftrightarrow> (\<exists>bs. length bs = n \<and> emits w bs \<and> parses m bs x)"

lemma codesI: "emits w bs \<Longrightarrow> parses m bs x \<Longrightarrow> length bs = n \<Longrightarrow> codes w m x n"
  by (auto simp: codes_def)

lemma codes_return: "codes (go_return ()) (go_return x) x 0"
  by (rule codesI [OF emits_return parses_return]) simp

lemma codes_then:
  assumes "codes w m x n" "codes (v ()) (f x) y k"
  shows "codes (go_then w v) (go_then m f) y (n + k)"
proof -
  from assms obtain as bs where "length as = n" "emits w as" "parses m as x" "length bs = k" "emits (v ()) bs" "parses (f x) bs y"
    unfolding codes_def by blast
  then show ?thesis by (intro codesI [OF emits_then parses_then]) auto
qed

text \<open>The reader goes on without reading.\<close>

lemma codes_result:
  assumes "codes w m x n"
  shows "codes w (go_then m (\<lambda>x. go_return (g x))) (g x) n"
proof -
  from assms obtain bs where bs: "length bs = n" "emits w bs" "parses m bs x" unfolding codes_def by blast
  have "parses (go_then m (\<lambda>x. go_return (g x))) (bs @ []) (g x)" by (rule parses_then [OF bs(3) parses_return])
  with bs show ?thesis by (intro codesI) simp_all
qed

lemma codes_cong: "codes w m x n \<Longrightarrow> x = y \<Longrightarrow> n = k \<Longrightarrow> codes w m y k"
  by simp

lemma codes_if:
  "(c \<Longrightarrow> codes w1 m1 x n1) \<Longrightarrow> (\<not> c \<Longrightarrow> codes w2 m2 x n2) \<Longrightarrow>
   codes (if c then w1 else w2) (if c then m1 else m2) x (if c then n1 else n2)"
  by simp

lemma codes_bits: "0 < n \<Longrightarrow> n \<le> 64 \<Longrightarrow> take_bit n v = v \<Longrightarrow> codes (write_bits v n) (read_bits (int n)) v n"
  by (rule codesI [OF emits_bits parses_bits]) simp_all

lemma codes_bool: "codes (write_bool b) read_bool b 1"
  by (rule codesI [OF emits_bool parses_bool]) simp

lemma codes_each:
  "length xs = length ks \<Longrightarrow> length ys = length ks \<Longrightarrow>
   (\<And>i. i < length ks \<Longrightarrow> codes (f (xs ! i)) (g (ks ! i)) (ys ! i) (h (xs ! i))) \<Longrightarrow>
   codes (go_each f xs) (go_map g ks) ys (sum_list (map h xs))"
proof (induction ks arbitrary: xs ys)
  case Nil
  then show ?case using codes_return by (simp del: go_return_simp)
next
  case (Cons k ks)
  then obtain x xs' y ys' where c: "xs = x # xs'" "ys = y # ys'" by (metis length_Suc_conv)
  have "codes (f x) (g k) y (h x)" using Cons.prems(3) [of 0] unfolding c by simp
  moreover have "codes (go_each f xs') (go_map g ks) ys' (sum_list (map h xs'))"
    by (rule Cons.IH) (use Cons.prems(1,2) Cons.prems(3) [of "Suc i" for i] in \<open>auto simp: c\<close>)
  from codes_result [OF this, of "\<lambda>ys. y # ys"]
  have "codes (go_each f xs') (go_then (go_map g ks) (\<lambda>ys. go_return (y # ys))) (y # ys') (sum_list (map h xs'))" .
  ultimately show ?case unfolding c go_each.simps go_map.simps list.map sum_list.Cons by (rule codes_then)
qed

text \<open>Integers in fields of a fixed width.\<close>

lemma take_int: "0 \<le> x \<Longrightarrow> x < 2 ^ n \<Longrightarrow> n < 64 \<Longrightarrow> take_bit n (word_of_int x :: u64) = word_of_int x \<and> uint (word_of_int x :: u64) = x"
proof -
  assume x: "0 \<le> x" "x < 2 ^ n" "n < 64"
  have "(2 :: int) ^ n \<le> 2 ^ 64" using x(3) by (intro power_increasing) auto
  then have "x < 2 ^ 64" using x(2) by linarith
  then have u: "uint (word_of_int x :: u64) = x" using x(1) by (simp add: unsigned_of_int take_bit_int_eq_self)
  have "take_bit n x = x" using x by (simp add: take_bit_int_eq_self)
  then have "take_bit n (word_of_int x :: u64) = word_of_int x"
    using x(3) by (simp add: take_bit_word_eq_self word_less_def u flip: of_int_take_bit)
  with u show ?thesis by blast
qed

lemma codes_num:
  "0 \<le> x \<Longrightarrow> x < 2 ^ n \<Longrightarrow> 0 < n \<Longrightarrow> n < 64 \<Longrightarrow>
   codes (write_bits (word_of_int x) n) (go_then (read_bits (int n)) (\<lambda>d. go_return (uint d))) x n"
  using codes_result [OF codes_bits [of n "word_of_int x"], of uint] take_int [of x n] by simp

lemma dti_code_bits: "take_bit 2 (dti_code x) = dti_code x" "dti_of_code (dti_code x) = x"
  by (cases x; simp add: dti_of_code_def take_bit_eq_mod)+

lemma codes_dti: "codes (write_dti x) read_dti x 2"
  using codes_result [OF codes_bits [of 2 "dti_code x"], of dti_of_code] dti_code_bits [of x]
  by (simp add: write_dti_def read_dti_def)

section \<open>The structure\<close>

definition bare :: "fd_template \<Rightarrow> fd_template" where
  "bare t = new_template (ft_spatial t) (ft_temporal t)"

lemma parses_layers:
  "layers_follow s t (a # ts) \<Longrightarrow> length (a # ts) \<le> n \<Longrightarrow>
   \<forall>x \<in> set (a # ts). ft_spatial x < max_spatial_ids \<and> ft_temporal x < max_temporal_ids \<Longrightarrow>
   parses (read_template_layers n t s)
     (concat (map (\<lambda>(p, q). to_bits 2 (word_of_int (get_next_layer_idc p q))) (zip (a # ts) ts)) @ to_bits 2 3) (map bare (a # ts))"
proof (induction ts arbitrary: a n s t)
  case Nil
  then obtain m where n: "n = Suc m" by (cases n) auto
  have st: "s = ft_spatial a" "t = ft_temporal a" using Nil by auto
  have three: "parses (read_bits 2) (to_bits 2 3) (3 :: u64)" using parses_bits [of 2 3] by (simp add: take_bit_eq_mod)
  have ok: "parses reader_ok [] True" by (simp add: parses_def reader_ok_def rd_ok_def)
  have "parses (go_then reader_ok (\<lambda>ok. if (3 :: u64) = 3 \<or> \<not> ok then go_return [new_template s t]
      else go_then (read_template_layers m t s) (\<lambda>ts. go_return (new_template s t # ts)))) ([] @ []) [bare a]"
    by (rule parses_then [OF ok]) (simp add: parses_return st bare_def del: go_return_simp)
  then show ?case unfolding n read_template_layers.simps
    by (intro parses_cong [OF parses_then [OF three, of _ "[]"]]) (simp_all add: Let_def)
next
  case (Cons b ts)
  then obtain m where n: "n = Suc m" by (cases n) auto
  define idc where "idc = get_next_layer_idc a b"
  have st: "s = ft_spatial a" "t = ft_temporal a" "idc < 3" "layers_follow (ft_spatial b) (ft_temporal b) (b # ts)"
    using Cons.prems(1) by (auto simp: idc_def)
  have lim: "ft_spatial b < max_spatial_ids" "ft_temporal b < max_temporal_ids" using Cons.prems(3) by auto
  let ?rest = "concat (map (\<lambda>(p, q). to_bits 2 (word_of_int (get_next_layer_idc p q))) (zip (b # ts) ts)) @ to_bits 2 3"
  have rest: "parses (read_template_layers m (ft_temporal b) (ft_spatial b)) ?rest (map bare (b # ts))"
    by (rule Cons.IH [OF st(4)]) (use Cons.prems(2,3) in \<open>auto simp: n\<close>)
  have cons: "parses (go_then (read_template_layers m (ft_temporal b) (ft_spatial b)) (\<lambda>ts. go_return (new_template s t # ts)))
      (?rest @ []) (map bare (a # b # ts))"
    by (rule parses_then [OF rest]) (simp add: parses_return st bare_def del: go_return_simp)
  have ok: "parses reader_ok [] True" by (simp add: parses_def reader_ok_def rd_ok_def)
  have idc: "idc = 0 \<and> ft_spatial b = s \<and> ft_temporal b = t \<or> idc = 1 \<and> ft_spatial b = s \<and> ft_temporal b = t + 1 \<or>
      idc = 2 \<and> ft_spatial b = s + 1 \<and> ft_temporal b = 0"
    using st by (auto simp: idc_def get_next_layer_idc_def split: if_splits)
  let ?v = "word_of_int idc :: u64"
  have v: "parses (read_bits 2) (to_bits 2 ?v) ?v"
    using parses_bits [of 2 ?v] take_int [of idc 2] idc by auto
  have n3: "?v \<noteq> 3" using idc by auto
  have "parses (let t' = (if ?v = 1 then t + 1 else if ?v = 2 then 0 else t); s' = (if ?v = 2 then s + 1 else s)
      in if ?v = 1 \<and> t' \<ge> max_temporal_ids then go_fail ErrDDReaderTooManyTemporalLayers
      else if ?v = 2 \<and> s' \<ge> max_spatial_ids then go_fail ErrDDReaderTooManySpatialLayers
      else go_then reader_ok (\<lambda>ok. if ?v = 3 \<or> \<not> ok then go_return [new_template s t]
        else go_then (read_template_layers m t' s') (\<lambda>ts. go_return (new_template s t # ts)))) ([] @ ?rest @ []) (map bare (a # b # ts))"
  proof -
    have e: "(if ?v = 1 then t + 1 else if ?v = 2 then 0 else t) = ft_temporal b" "(if ?v = 2 then s + 1 else s) = ft_spatial b"
      using idc by auto
    have "parses (go_then reader_ok (\<lambda>ok. if ?v = 3 \<or> \<not> ok then go_return [new_template s t]
        else go_then (read_template_layers m (ft_temporal b) (ft_spatial b)) (\<lambda>ts. go_return (new_template s t # ts))))
      ([] @ ?rest @ []) (map bare (a # b # ts))"
      by (rule parses_then [OF ok]) (use cons n3 in simp)
    then show ?thesis unfolding Let_def e using lim by (simp del: go_return_simp go_fail_simp)
  qed
  then show ?case unfolding n read_template_layers.simps
    by (intro parses_cong [OF parses_then [OF v]]) (simp_all add: idc_def)
qed

lemma layers_follow_pairs:
  "layers_follow s t (a # ts) \<Longrightarrow> x \<in> set (zip (a # ts) ts) \<Longrightarrow> 0 \<le> get_next_layer_idc (fst x) (snd x) \<and> get_next_layer_idc (fst x) (snd x) < 3"
proof (induction ts arbitrary: a s t)
  case (Cons b ts)
  have "0 \<le> get_next_layer_idc a b" by (simp add: get_next_layer_idc_def)
  moreover have "get_next_layer_idc a b < 3" "layers_follow (ft_spatial b) (ft_temporal b) (b # ts)" using Cons.prems(1) by simp_all
  moreover have "x = (a, b) \<or> x \<in> set (zip (b # ts) ts)" using Cons.prems(2) by simp
  ultimately show ?case using Cons.IH by fastforce
qed simp

lemma codes_layers:
  assumes "fs_ok s"
  shows "codes (write_template_layers s) (read_template_layers max_templates 0 0) (map bare (fs_templates s)) (2 * length (fs_templates s))"
proof -
  note f = fs_okD [OF assms]
  obtain a ts where ts: "fs_templates s = a # ts" using f(8) by (cases "fs_templates s") auto
  let ?enc = "\<lambda>x. to_bits 2 (word_of_int (get_next_layer_idc (fst x) (snd x)))"
  have e: "(\<lambda>(p, q). to_bits 2 (word_of_int (get_next_layer_idc p q))) = ?enc" by (rule ext) (simp add: case_prod_beta)
  have "emits (case x of (prev, nxt) \<Rightarrow> let idc = get_next_layer_idc prev nxt in
      if idc \<ge> 3 then go_fail ErrInvalidNextLayer else write_bits (word_of_int idc) 2) (?enc x)"
    if "x \<in> set (zip (a # ts) ts)" for x
    using layers_follow_pairs [OF f(8) [unfolded ts] that] emits_bits [of 2 "word_of_int (get_next_layer_idc (fst x) (snd x))"]
    by (simp add: case_prod_beta Let_def)
  from emits_each [OF this] have "emits (go_each (\<lambda>(prev, nxt). let idc = get_next_layer_idc prev nxt in
      if idc \<ge> 3 then go_fail ErrInvalidNextLayer else write_bits (word_of_int idc) 2) (zip (a # ts) ts)) (concat (map ?enc (zip (a # ts) ts)))" .
  from emits_then [OF this, of "\<lambda>_. write_bits 3 2" "to_bits 2 3"] emits_bits [of 2 3] have
    w: "emits (write_template_layers s) (concat (map ?enc (zip (a # ts) ts)) @ to_bits 2 3)"
    using f(7,8) by (auto simp: write_template_layers_def ts max_templates_def split: if_splits) (cases ts; auto)+
  have "\<forall>x \<in> set (a # ts). ft_spatial x < max_spatial_ids \<and> ft_temporal x < max_temporal_ids"
    using f(9) by (simp add: ts template_ok_def)
  from parses_layers [OF f(8) [unfolded ts] _ this, of max_templates] have
    r: "parses (read_template_layers max_templates 0 0) (concat (map ?enc (zip (a # ts) ts)) @ to_bits 2 3) (map bare (a # ts))"
    using f(7) unfolding e by (simp add: ts max_templates_def)
  have "length (concat (map ?enc (zip (a # ts) ts))) = 2 * length ts" by (simp add: length_concat o_def sum_list_triv)
  then have "length (concat (map ?enc (zip (a # ts) ts)) @ to_bits 2 3) = 2 * length (a # ts)" unfolding length_append by simp
  with w r show ?thesis unfolding ts by (rule codesI)
qed

lemma codes_template_dtis:
  assumes "fs_ok s"
  shows "codes (write_template_dtis s) (read_template_dtis (fs_num_targets s) (map bare (fs_templates s)))
    (map (\<lambda>t. (bare t)\<lparr>ft_dtis := ft_dtis t\<rparr>) (fs_templates s)) (2 * length (fs_templates s) * nat (fs_num_targets s))"
proof -
  let ?n = "nat (fs_num_targets s)"
  have len: "length (ft_dtis t) = ?n" if "t \<in> set (fs_templates s)" for t
    using fs_okD(9) [OF assms that] nat_int [of "length (ft_dtis t)"] by (simp add: template_ok_def)
  have one: "codes (go_each write_dti (ft_dtis t)) (go_then (go_map (\<lambda>_. read_dti) (replicate ?n ())) (\<lambda>ds. go_return ((bare t)\<lparr>ft_dtis := ds\<rparr>)))
      ((bare t)\<lparr>ft_dtis := ft_dtis t\<rparr>) (2 * ?n)" if "t \<in> set (fs_templates s)" for t
  proof (rule codes_result)
    have "codes (go_each write_dti (ft_dtis t)) (go_map (\<lambda>_. read_dti) (replicate ?n ())) (ft_dtis t) (sum_list (map (\<lambda>_. 2) (ft_dtis t)))"
      by (rule codes_each) (simp_all add: len [OF that] codes_dti)
    then show "codes (go_each write_dti (ft_dtis t)) (go_map (\<lambda>_. read_dti) (replicate ?n ())) (ft_dtis t) (2 * ?n)"
      by (simp add: sum_list_triv len [OF that] mult.commute)
  qed
  have "codes (write_template_dtis s) (read_template_dtis (fs_num_targets s) (map bare (fs_templates s)))
    (map (\<lambda>t. (bare t)\<lparr>ft_dtis := ft_dtis t\<rparr>) (fs_templates s)) (sum_list (map (\<lambda>_. 2 * ?n) (fs_templates s)))"
    unfolding write_template_dtis_def read_template_dtis_def by (rule codes_each) (simp_all add: one)
  then show ?thesis by (simp add: sum_list_triv algebra_simps)
qed

text \<open>Two fields written as one word.\<close>

lemma two_fields:
  assumes "take_bit m v = v" "n + m \<le> 64"
  shows "to_bits (n + m) (push_bit m k OR v) = to_bits n k @ to_bits m v"
proof -
  have nb: "\<not> bit v i" if "m \<le> i" for i using that by (subst assms(1) [symmetric]) (simp add: bit_take_bit_iff)
  have "to_bits (n + m) (push_bit m k OR v) = to_bits n (drop_bit m (push_bit m k OR v)) @ to_bits m (push_bit m k OR v)"
    by (rule to_bits_append)
  moreover have "to_bits m (push_bit m k OR v) = to_bits m v"
    by (rule nth_equalityI) (auto simp: to_bits_nth bit_or_iff bit_push_bit_iff)
  moreover have "to_bits n (drop_bit m (push_bit m k OR v)) = to_bits n k"
    by (rule nth_equalityI) (use assms(2) nb in \<open>auto simp: to_bits_nth bit_drop_bit_eq bit_or_iff bit_push_bit_iff\<close>)
  ultimately show ?thesis by (simp only:)
qed

text \<open>A difference of a template: a flag and four bits in one field.\<close>

lemma five_bits:
  assumes "1 \<le> d" "d \<le> 16"
  shows "to_bits 5 (push_bit 4 1 OR word_of_int (d - 1)) = [True] @ to_bits 4 (word_of_int (d - 1))"
proof -
  have "take_bit 4 (word_of_int (d - 1)) = (word_of_int (d - 1) :: u64)" using take_int [of "d - 1" 4] assms by simp
  from two_fields [OF this, of 1 1] show ?thesis by (simp add: to_bits_def)
qed

lemma parses_bool_then: "parses (f b) bs y \<Longrightarrow> parses (go_then read_bool f) (b # bs) y"
  using parses_then [OF parses_bool, of f b bs y] by simp

lemma emits_bool_then: "emits (f ()) bs \<Longrightarrow> emits (go_then (write_bool b) f) (b # bs)"
  using emits_then [OF emits_bool, of f bs b] by simp

lemma parses_fdiffs:
  "list_all (\<lambda>d. 1 \<le> d \<and> d \<le> 16) ds \<Longrightarrow>
   parses read_fdiffs (concat (map (\<lambda>d. True # to_bits 4 (word_of_int (d - 1))) ds) @ [False]) ds"
proof (induction ds)
  case Nil
  show ?case unfolding list.map concat.simps append_Nil
    by (subst read_fdiffs_unfold, rule parses_bool_then) (simp add: parses_return del: go_return_simp)
next
  case (Cons d ds)
  let ?v = "word_of_int (d - 1) :: u64"
  let ?rest = "concat (map (\<lambda>d. True # to_bits 4 (word_of_int (d - 1) :: u64)) ds) @ [False]"
  have d: "1 \<le> d" "d \<le> 16" and rest: "parses read_fdiffs ?rest ds" using Cons by simp_all
  have v: "parses (read_bits 4) (to_bits 4 ?v) ?v" using parses_bits [of 4 ?v] take_int [of "d - 1" 4] d by simp
  have "?v + 1 = word_of_int d" by simp
  then have u: "uint (?v + 1) = d" using take_int [of d 5] d by simp
  have "parses (go_then read_fdiffs (\<lambda>ds. go_return (uint (?v + 1) # ds))) (?rest @ []) (d # ds)"
    by (rule parses_then [OF rest]) (simp only: u parses_return)
  then have "parses (if \<not> True then go_return [] else go_then (read_bits 4) (\<lambda>d. go_then read_fdiffs (\<lambda>ds. go_return (uint (d + 1) # ds))))
      (to_bits 4 ?v @ ?rest) (d # ds)"
    unfolding not_True_eq_False if_False by (intro parses_cong [OF parses_then [OF v]]) simp_all
  then have "parses (go_then read_bool (\<lambda>follow. if \<not> follow then go_return []
     else go_then (read_bits 4) (\<lambda>d. go_then read_fdiffs (\<lambda>ds. go_return (uint (d + 1) # ds))))) (True # to_bits 4 ?v @ ?rest) (d # ds)"
    by (rule parses_bool_then)
  then show ?case by (subst read_fdiffs_unfold) simp
qed

lemma codes_fdiffs:
  assumes "list_all (\<lambda>d. 1 \<le> d \<and> d \<le> 16) ds"
  shows "codes (go_then (go_each (\<lambda>d. write_bits (push_bit 4 1 OR word_of_int (d - 1)) 5) ds) (\<lambda>_. write_bits 0 1)) read_fdiffs ds
    (5 * length ds + 1)"
proof (rule codesI [OF _ parses_fdiffs [OF assms]])
  have "emits (write_bits (push_bit 4 1 OR word_of_int (d - 1)) 5) (True # to_bits 4 (word_of_int (d - 1)))" if "d \<in> set ds" for d
  proof -
    have "1 \<le> d" "d \<le> 16" using assms that by (simp_all add: list_all_iff)
    from emits_bits [of 5 "push_bit 4 1 OR word_of_int (d - 1)"] five_bits [OF this] show ?thesis by simp
  qed
  then have "emits (go_each (\<lambda>d. write_bits (push_bit 4 1 OR word_of_int (d - 1)) 5) ds)
      (concat (map (\<lambda>d. True # to_bits 4 (word_of_int (d - 1))) ds))"
    by (rule emits_each)
  moreover have "to_bits 1 0 = [False]" by (simp add: to_bits_def)
  ultimately show "emits (go_then (go_each (\<lambda>d. write_bits (push_bit 4 1 OR word_of_int (d - 1)) 5) ds) (\<lambda>_. write_bits 0 1))
      (concat (map (\<lambda>d. True # to_bits 4 (word_of_int (d - 1))) ds) @ [False])"
    using emits_bits [of 1 0] by (intro emits_then) simp_all
  show "length (concat (map (\<lambda>d. True # to_bits 4 (word_of_int (d - 1))) ds) @ [False]) = 5 * length ds + 1"
    by (simp add: length_concat o_def sum_list_triv)
qed

lemma codes_template_fdiffs:
  assumes "fs_ok s" "length ts = length (fs_templates s)"
  shows "codes (write_template_fdiffs s) (read_template_fdiffs ts)
    (map2 (\<lambda>u t. u\<lparr>ft_frame_diffs := ft_frame_diffs t\<rparr>) ts (fs_templates s)) (sum_list (map (\<lambda>t. 5 * length (ft_frame_diffs t) + 1) (fs_templates s)))"
  unfolding write_template_fdiffs_def read_template_fdiffs_def
proof (rule codes_each)
  fix i assume i: "i < length ts"
  then have "template_ok s (fs_templates s ! i)" using assms fs_okD(9) by simp
  then have "list_all (\<lambda>d. 1 \<le> d \<and> d \<le> 16) (ft_frame_diffs (fs_templates s ! i))" by (simp add: template_ok_def)
  from codes_result [OF codes_fdiffs [OF this], of "\<lambda>ds. (ts ! i)\<lparr>ft_frame_diffs := ds\<rparr>"] i assms(2)
  show "codes (go_then (go_each (\<lambda>d. write_bits (push_bit 4 1 OR word_of_int (d - 1)) 5) (ft_frame_diffs (fs_templates s ! i))) (\<lambda>_. write_bits 0 1))
     (go_then read_fdiffs (\<lambda>ds. go_return ((ts ! i)\<lparr>ft_frame_diffs := ds\<rparr>)))
     (map2 (\<lambda>u t. u\<lparr>ft_frame_diffs := ft_frame_diffs t\<rparr>) ts (fs_templates s) ! i) (5 * length (ft_frame_diffs (fs_templates s ! i)) + 1)"
    by (simp del: go_return_simp)
qed (use assms(2) in simp_all)

text \<open>The chains.\<close>

lemma codes_non_symmetric:
  assumes "0 \<le> x" "x < n" "n < 2 ^ 31"
  shows "codes (write_non_symmetric (word_of_int x) (word_of_int n)) (read_non_symmetric (word_of_int n)) (word_of_int x)
    (length (ns_bits (nat x) (nat n)))"
proof -
  have "nat x < nat n" "nat n < 2 ^ 31" using assms by (simp_all add: nat_less_iff)
  from codesI [OF emits_non_symmetric [OF this] parses_non_symmetric [OF this] refl]
  show ?thesis using assms by (simp add: of_nat_nat)
qed

lemma codes_template_chains:
  assumes "fs_ok s" "length ts = length (fs_templates s)" "\<forall>t \<in> set ts. ft_chain_diffs t = []"
  shows "codes (write_template_chains s) (read_template_chains (fs_num_targets s) ts)
    (fs_num_chains s, fs_protected s, map2 (\<lambda>u t. u\<lparr>ft_chain_diffs := ft_chain_diffs t\<rparr>) ts (fs_templates s))
    (length (ns_bits (nat (fs_num_chains s)) (nat (fs_num_targets s + 1))) +
     (if fs_num_chains s = 0 then 0
      else sum_list (map (\<lambda>c. length (ns_bits (nat c) (nat (fs_num_chains s)))) (fs_protected s)) +
        sum_list (map (\<lambda>t. 4 * nat (fs_num_chains s)) (fs_templates s))))"
proof -
  note f = fs_okD [OF assms(1)]
  let ?c = "word_of_int (fs_num_chains s) :: u32"
  have c: "uint ?c = fs_num_chains s" using f(4,5,6) by (simp add: unsigned_of_int take_bit_int_eq_self)
  have num: "codes (write_non_symmetric ?c (word_of_int (fs_num_targets s + 1)))
      (read_non_symmetric (word_of_int (fs_num_targets s) + 1)) ?c (length (ns_bits (nat (fs_num_chains s)) (nat (fs_num_targets s + 1))))"
    using codes_non_symmetric [of "fs_num_chains s" "fs_num_targets s + 1"] f(4,5,6) by simp
  show ?thesis unfolding write_template_chains_def read_template_chains_def c
  proof (rule codes_then [OF num], unfold c, rule codes_if [OF codes_cong [OF codes_return]])
    assume z: "fs_num_chains s = 0"
    have "map2 (\<lambda>u t. u\<lparr>ft_chain_diffs := ft_chain_diffs t\<rparr>) ts (fs_templates s) = ts"
    proof (rule nth_equalityI)
      fix i assume i: "i < length (map2 (\<lambda>u t. u\<lparr>ft_chain_diffs := ft_chain_diffs t\<rparr>) ts (fs_templates s))"
      then have "ft_chain_diffs (fs_templates s ! i) = []" using f(9) [of "fs_templates s ! i"] z assms(2) by (simp add: template_ok_def)
      with i assms(2,3) show "map2 (\<lambda>u t. u\<lparr>ft_chain_diffs := ft_chain_diffs t\<rparr>) ts (fs_templates s) ! i = ts ! i"
        by (simp add: fd_template.equality)
    qed (use assms(2) in simp)
    then show "(0, [], ts) = (fs_num_chains s, fs_protected s, map2 (\<lambda>u t. u\<lparr>ft_chain_diffs := ft_chain_diffs t\<rparr>) ts (fs_templates s))"
      using assms(1) z by (simp add: fs_ok_def)
  next
    assume nz: "fs_num_chains s \<noteq> 0"
    define n where "n = nat (fs_num_chains s)"
    have n: "unat ?c = n" "fs_num_chains s = int n" using c f(5) by (simp_all add: n_def unat_eq_nat_uint)
    have prot: "length (fs_protected s) = nat (fs_num_targets s)" "list_all (\<lambda>c. 0 \<le> c \<and> c < fs_num_chains s) (fs_protected s)"
      using assms(1) nz nat_int [of "length (fs_protected s)"] by (simp_all add: fs_ok_def)
    have p: "codes (go_each (\<lambda>c. write_non_symmetric (word_of_int c) ?c) (fs_protected s))
        (go_map (\<lambda>_. go_then (read_non_symmetric ?c) (\<lambda>c. go_return (uint c))) (replicate (nat (fs_num_targets s)) ())) (fs_protected s)
        (sum_list (map (\<lambda>c. length (ns_bits (nat c) (nat (fs_num_chains s)))) (fs_protected s)))"
    proof (rule codes_each)
      fix i assume i: "i < length (replicate (nat (fs_num_targets s)) ())"
      then have x: "0 \<le> fs_protected s ! i" "fs_protected s ! i < fs_num_chains s" using prot by (simp_all add: list_all_length)
      from codes_result [OF codes_non_symmetric [OF x], of uint] x f(4,6)
      show "codes (write_non_symmetric (word_of_int (fs_protected s ! i)) ?c) (go_then (read_non_symmetric ?c) (\<lambda>c. go_return (uint c)))
        (fs_protected s ! i) (length (ns_bits (nat (fs_protected s ! i)) (nat (fs_num_chains s))))"
        by (simp add: unsigned_of_int take_bit_int_eq_self del: go_return_simp)
    qed (simp_all add: prot)
    have d: "codes (go_each (\<lambda>t. go_each (\<lambda>d. write_bits (word_of_int d) 4) (ft_chain_diffs t)) (fs_templates s))
        (go_map (\<lambda>t. go_then (go_map (\<lambda>_. go_then (read_bits 4) (\<lambda>d. go_return (uint d))) (replicate (unat ?c) ()))
              (\<lambda>ds. go_return (t\<lparr>ft_chain_diffs := ds\<rparr>))) ts)
        (map2 (\<lambda>u t. u\<lparr>ft_chain_diffs := ft_chain_diffs t\<rparr>) ts (fs_templates s)) (sum_list (map (\<lambda>t. 4 * nat (fs_num_chains s)) (fs_templates s)))"
    proof (rule codes_each)
      fix i assume i: "i < length ts"
      then have "template_ok s (fs_templates s ! i)" using f(9) assms(2) by simp
      then have t: "length (ft_chain_diffs (fs_templates s ! i)) = n" "list_all (\<lambda>d. 0 \<le> d \<and> d < 16) (ft_chain_diffs (fs_templates s ! i))"
        by (simp_all add: template_ok_def n(2))
      have "codes (go_each (\<lambda>d. write_bits (word_of_int d) 4) (ft_chain_diffs (fs_templates s ! i)))
          (go_map (\<lambda>_. go_then (read_bits 4) (\<lambda>d. go_return (uint d))) (replicate n ())) (ft_chain_diffs (fs_templates s ! i))
          (sum_list (map (\<lambda>_. 4) (ft_chain_diffs (fs_templates s ! i))))"
      proof (rule codes_each)
        fix j assume "j < length (replicate n ())"
        then show "codes (write_bits (word_of_int (ft_chain_diffs (fs_templates s ! i) ! j)) 4)
            (go_then (read_bits 4) (\<lambda>d. go_return (uint d))) (ft_chain_diffs (fs_templates s ! i) ! j) 4"
          using codes_num [of "ft_chain_diffs (fs_templates s ! i) ! j" 4] t by (simp add: list_all_length del: go_return_simp)
      qed (simp_all add: t)
      from codes_result [OF this, of "\<lambda>ds. (ts ! i)\<lparr>ft_chain_diffs := ds\<rparr>"] i assms(2) t(1)
      show "codes (go_each (\<lambda>d. write_bits (word_of_int d) 4) (ft_chain_diffs (fs_templates s ! i)))
          (go_then (go_map (\<lambda>_. go_then (read_bits 4) (\<lambda>d. go_return (uint d))) (replicate (unat ?c) ())) (\<lambda>ds. go_return ((ts ! i)\<lparr>ft_chain_diffs := ds\<rparr>)))
          (map2 (\<lambda>u t. u\<lparr>ft_chain_diffs := ft_chain_diffs t\<rparr>) ts (fs_templates s) ! i) (4 * nat (fs_num_chains s))"
        unfolding n(1) by (simp add: n(2) sum_list_triv mult.commute del: go_return_simp)
    qed (simp_all add: assms(2))
    show "codes
     (go_then (go_each (\<lambda>c. write_non_symmetric (word_of_int c) ?c) (fs_protected s))
       (\<lambda>_. go_each (\<lambda>t. go_each (\<lambda>d. write_bits (word_of_int d) 4) (ft_chain_diffs t)) (fs_templates s)))
     (go_then (go_map (\<lambda>_. go_then (read_non_symmetric ?c) (\<lambda>c. go_return (uint c))) (replicate (nat (fs_num_targets s)) ()))
       (\<lambda>protected. go_then (go_map (\<lambda>t. go_then (go_map (\<lambda>_. go_then (read_bits 4) (\<lambda>d. go_return (uint d))) (replicate (unat ?c) ()))
              (\<lambda>ds. go_return (t\<lparr>ft_chain_diffs := ds\<rparr>))) ts) (\<lambda>ts. go_return (fs_num_chains s, protected, ts))))
     (fs_num_chains s, fs_protected s, map2 (\<lambda>u t. u\<lparr>ft_chain_diffs := ft_chain_diffs t\<rparr>) ts (fs_templates s))
     (sum_list (map (\<lambda>c. length (ns_bits (nat c) (nat (fs_num_chains s)))) (fs_protected s)) +
        sum_list (map (\<lambda>t. 4 * nat (fs_num_chains s)) (fs_templates s)))"
      by (rule codes_then [OF p codes_result [OF d]])
  qed simp
qed

lemma size_non_symmetric:
  assumes "0 \<le> x" "x < n" "n < 2 ^ 31"
  shows "size_non_symmetric_bits (word_of_int x) (word_of_int n) = int (length (ns_bits (nat x) (nat n)))"
proof -
  define v m where "v = nat x" and "m = nat n"
  have vm: "v < m" "m < 2 ^ 31" "word_of_int x = (of_nat v :: u32)" "word_of_int n = (of_nat m :: u32)"
    using assms by (simp_all add: v_def m_def nat_less_iff of_nat_nat)
  note f = ns_facts [OF vm(1,2)]
  have v: "v < 2 ^ 31" using vm(1,2) by simp
  show ?thesis unfolding vm(3,4) v_def [symmetric] m_def [symmetric]
    using f(1) small_less(1) [OF v f(7)]
    by (simp add: size_non_symmetric_bits_def ns_bits_def Let_def small_word(1) [OF vm(2)] f(6) [simplified] of_nat_diff del: of_nat_add)
qed

text \<open>
  A value below a bound that is not a power of two is written with the number of bits that the
  size function announces, and reading with the same bound returns the value and consumes these
  bits.
\<close>

lemma non_symmetric_code:
  assumes "0 \<le> x" "x < n" "n < 2 ^ 31"
  shows "\<exists>bs. int (length bs) = size_non_symmetric_bits (word_of_int x) (word_of_int n) \<and>
    emits (write_non_symmetric (word_of_int x) (word_of_int n)) bs \<and> parses (read_non_symmetric (word_of_int n)) bs (word_of_int x)"
  using codes_non_symmetric [OF assms] size_non_symmetric [OF assms] unfolding codes_def by auto

lemma codes_resolutions:
  assumes "fs_ok s" "ts \<noteq> []" "ft_spatial (last ts) = ft_spatial (last (fs_templates s))" "fs_resolutions s \<noteq> []"
  shows "codes (write_resolutions s) (read_resolutions ts) (fs_resolutions s) (32 * length (fs_resolutions s))"
proof -
  have n: "length (fs_resolutions s) = nat (ft_spatial (last ts) + 1)"
    using assms nat_int [of "length (fs_resolutions s)"] by (simp add: fs_ok_def)
  have last: "go_nth ts (int (length ts) - 1) = Some (last ts)"
    using assms(2) by (simp add: go_nth_def last_conv_nth nat_diff_distrib')
  have word: "codes (write_bits (word_of_int x - 1) 16) (read_bits 16) (word_of_int (x - 1)) 16" "uint (word_of_int (x - 1) + 1 :: u64) = x"
    if "1 \<le> x" "x \<le> 65536" for x
  proof -
    have "word_of_int (x - 1) + 1 = (word_of_int x :: u64)" by simp
    then show "uint (word_of_int (x - 1) + 1 :: u64) = x" using take_int [of x 17] that by simp
    show "codes (write_bits (word_of_int x - 1) 16) (read_bits 16) (word_of_int (x - 1)) 16"
      using codes_bits [of 16 "word_of_int (x - 1)"] take_int [of "x - 1" 16] that by simp
  qed
  have "codes (write_resolutions s) (read_resolutions ts) (fs_resolutions s) (sum_list (map (\<lambda>_. 16 + 16) (fs_resolutions s)))"
    unfolding write_resolutions_def read_resolutions_def last option.case
  proof (rule codes_each)
    fix i assume "i < length (replicate (nat (ft_spatial (last ts) + 1)) ())"
    then have "1 \<le> rr_width (fs_resolutions s ! i) \<and> rr_width (fs_resolutions s ! i) \<le> 65536 \<and>
        1 \<le> rr_height (fs_resolutions s ! i) \<and> rr_height (fs_resolutions s ! i) \<le> 65536"
      using assms(1) by (simp add: fs_ok_def list_all_length n)
    then have r: "1 \<le> rr_width (fs_resolutions s ! i)" "rr_width (fs_resolutions s ! i) \<le> 65536"
        "1 \<le> rr_height (fs_resolutions s ! i)" "rr_height (fs_resolutions s ! i) \<le> 65536" by blast+
    let ?w = "word_of_int (rr_width (fs_resolutions s ! i) - 1) :: u64"
    have "codes (write_bits (word_of_int (rr_height (fs_resolutions s ! i)) - 1) 16)
       (go_then (read_bits 16) (\<lambda>h. go_return \<lparr>rr_width = uint (?w + 1), rr_height = uint (h + 1)\<rparr>)) (fs_resolutions s ! i) 16"
      by (rule codes_cong [OF codes_result [OF word(1) [OF r(3,4)]]]) (simp_all only: word(2) [OF r(1,2)] word(2) [OF r(3,4)], simp_all)
    then show "codes (go_then (write_bits (word_of_int (rr_width (fs_resolutions s ! i)) - 1) 16)
        (\<lambda>_. write_bits (word_of_int (rr_height (fs_resolutions s ! i)) - 1) 16))
      (go_then (read_bits 16) (\<lambda>w. go_then (read_bits 16) (\<lambda>h. go_return \<lparr>rr_width = uint (w + 1), rr_height = uint (h + 1)\<rparr>)))
      (fs_resolutions s ! i) (16 + 16)"
      by (rule codes_then [OF word(1) [OF r(1,2)]])
  qed (simp_all add: n)
  then show ?thesis by (simp add: sum_list_triv mult.commute)
qed

lemma int_sum_list: "int (sum_list (map f xs)) = sum_list (map (\<lambda>x. int (f x)) xs)"
  by (induction xs) simp_all

lemma map_cong_sum: "(\<And>x. x \<in> set xs \<Longrightarrow> f x = g x) \<Longrightarrow> sum_list (map f xs) = sum_list (map g xs)"
  by (metis map_cong)

lemma structure_size:
  assumes "fs_ok s"
  shows "structure_size_bits s = int (6 + (5 + (2 * length (fs_templates s) + (2 * length (fs_templates s) * nat (fs_num_targets s) +
    (sum_list (map (\<lambda>t. 5 * length (ft_frame_diffs t) + 1) (fs_templates s)) +
    ((length (ns_bits (nat (fs_num_chains s)) (nat (fs_num_targets s + 1))) +
     (if fs_num_chains s = 0 then 0
      else sum_list (map (\<lambda>c. length (ns_bits (nat c) (nat (fs_num_chains s)))) (fs_protected s)) +
        sum_list (map (\<lambda>t. 4 * nat (fs_num_chains s)) (fs_templates s)))) + (1 + 32 * length (fs_resolutions s))))))))"
proof -
  note f = fs_okD [OF assms]
  have c: "size_non_symmetric_bits (word_of_int (fs_num_chains s)) (word_of_int (fs_num_targets s + 1)) =
      int (length (ns_bits (nat (fs_num_chains s)) (nat (fs_num_targets s + 1))))"
    using f(4,5,6) by (intro size_non_symmetric) simp_all
  have pr: "\<And>x. x \<in> set (fs_protected s) \<Longrightarrow> 0 \<le> x" "\<And>x. x \<in> set (fs_protected s) \<Longrightarrow> x < fs_num_chains s"
    using assms by (simp_all add: fs_ok_def list_all_iff)
  have "fs_num_chains s < 2 ^ 31" using f(4,6) by simp
  with pr have p: "sum_list (map (\<lambda>c. size_non_symmetric_bits (word_of_int c) (word_of_int (fs_num_chains s))) (fs_protected s)) =
      sum_list (map (\<lambda>c. int (length (ns_bits (nat c) (nat (fs_num_chains s))))) (fs_protected s))"
    by (intro map_cong_sum size_non_symmetric)
  have d: "sum_list (map (\<lambda>t. 1 + 5 * int (length (ft_frame_diffs t))) ts) = sum_list (map (\<lambda>t. 5 * int (length (ft_frame_diffs t))) ts) + int (length ts)" for ts
    by (induction ts) simp_all
  show ?thesis using f(3,5) unfolding structure_size_bits_def c p
    by (cases "fs_num_chains s = 0") (simp_all add: int_sum_list d sum_list_triv)
qed

lemma codes_structure:
  assumes s: "fs_ok s"
  obtains n where "codes (write_template_dependency_structure s) read_template_dependency_structure s n" "int n = structure_size_bits s"
proof
  note f = fs_okD [OF s]
  let ?T = "fs_templates s"
  define ts1 where "ts1 = map (\<lambda>t. (bare t)\<lparr>ft_dtis := ft_dtis t\<rparr>) ?T"
  define ts2 where "ts2 = map2 (\<lambda>u t. u\<lparr>ft_frame_diffs := ft_frame_diffs t\<rparr>) ts1 ?T"
  have len: "length ts1 = length ?T" "length ts2 = length ?T" by (simp_all add: ts1_def ts2_def)
  have nochain: "\<forall>t \<in> set ts2. ft_chain_diffs t = []"
    by (auto simp: ts2_def ts1_def in_set_conv_nth bare_def new_template_def)
  have ts3: "map2 (\<lambda>u t. u\<lparr>ft_chain_diffs := ft_chain_diffs t\<rparr>) ts2 ?T = ?T"
    by (rule nth_equalityI) (simp_all add: ts1_def ts2_def bare_def new_template_def)
  have ne: "?T \<noteq> []" using f(8) by auto
  have tn: "word_of_int (fs_num_targets s) - 1 = (word_of_int (fs_num_targets s - 1) :: u64)" by simp
  have u: "uint (word_of_int (fs_id s) :: u64) = fs_id s" "uint (word_of_int (fs_num_targets s - 1) :: u64) + 1 = fs_num_targets s"
    using take_int [of "fs_id s" 6] take_int [of "fs_num_targets s - 1" 5] f(1,2,3,4) by simp_all
  have res: "codes (write_resolutions s) (go_then (if fs_resolutions s \<noteq> [] then read_resolutions ?T else go_return []) (\<lambda>resolutions.
      go_return \<lparr>fs_id = fs_id s, fs_num_targets = fs_num_targets s, fs_num_chains = fs_num_chains s,
        fs_protected = fs_protected s, fs_resolutions = resolutions, fs_templates = ?T\<rparr>)) s (32 * length (fs_resolutions s))"
  proof (rule codes_cong [OF codes_result])
    show "codes (write_resolutions s) (if fs_resolutions s \<noteq> [] then read_resolutions ?T else go_return []) (fs_resolutions s) (32 * length (fs_resolutions s))"
    proof (cases "fs_resolutions s = []")
      case True
      then show ?thesis using codes_return [of "[] :: render_resolution list"] by (simp add: write_resolutions_def del: go_return_simp)
    next
      case False
      then show ?thesis using codes_resolutions [OF s ne refl] by simp
    qed
  qed simp_all
  note dtis = codes_template_dtis [OF s, folded ts1_def]
  note fdiffs = codes_template_fdiffs [OF s len(1), folded ts2_def]
  note chains = codes_template_chains [OF s len(2) nochain, unfolded ts3]
  have id: "codes (write_bits (word_of_int (fs_id s)) 6) (read_bits 6) (word_of_int (fs_id s)) 6"
    using codes_bits [of 6 "word_of_int (fs_id s)"] take_int [of "fs_id s" 6] f(1,2) by simp
  have tg: "codes (write_bits (word_of_int (fs_num_targets s - 1)) 5) (read_bits 5) (word_of_int (fs_num_targets s - 1)) 5"
    using codes_bits [of 5 "word_of_int (fs_num_targets s - 1)"] take_int [of "fs_num_targets s - 1" 5] f(3,4) by simp
  show "codes (write_template_dependency_structure s) read_template_dependency_structure s (6 + (5 + (2 * length ?T + (2 * length ?T * nat (fs_num_targets s) +
    (sum_list (map (\<lambda>t. 5 * length (ft_frame_diffs t) + 1) ?T) +
    ((length (ns_bits (nat (fs_num_chains s)) (nat (fs_num_targets s + 1))) +
     (if fs_num_chains s = 0 then 0
      else sum_list (map (\<lambda>c. length (ns_bits (nat c) (nat (fs_num_chains s)))) (fs_protected s)) +
        sum_list (map (\<lambda>t. 4 * nat (fs_num_chains s)) ?T))) + (1 + 32 * length (fs_resolutions s))))))))"
  proof -
    have valid: "\<not> (fs_id s < 0 \<or> fs_id s \<ge> int max_templates \<or> fs_num_targets s \<le> 0 \<or> fs_num_targets s > max_decode_targets)"
      using f(1,2,3,4) by (simp add: max_templates_def max_decode_targets_def)
    show ?thesis
      unfolding write_template_dependency_structure_def read_template_dependency_structure_def Let_def if_not_P [OF valid]
      by (rule codes_then [OF id], unfold u(1), rule codes_then [OF tg], unfold u(2),
          rule codes_then [OF codes_layers [OF s]], rule codes_then [OF dtis], rule codes_then [OF fdiffs], rule codes_then [OF chains],
          unfold prod.case, rule codes_then [OF codes_bool], rule res)
  qed
  show "int (6 + (5 + (2 * length ?T + (2 * length ?T * nat (fs_num_targets s) +
    (sum_list (map (\<lambda>t. 5 * length (ft_frame_diffs t) + 1) ?T) +
    ((length (ns_bits (nat (fs_num_chains s)) (nat (fs_num_targets s + 1))) +
     (if fs_num_chains s = 0 then 0
      else sum_list (map (\<lambda>c. length (ns_bits (nat c) (nat (fs_num_chains s)))) (fs_protected s)) +
        sum_list (map (\<lambda>t. 4 * nat (fs_num_chains s)) ?T))) + (1 + 32 * length (fs_resolutions s)))))))) = structure_size_bits s"
    by (rule structure_size [OF s, symmetric])
qed

section \<open>The frame\<close>

lemma codes_frame_dtis:
  assumes "int (length (ft_dtis t)) = fs_num_targets s" "length (ft_dtis fd) = length (ft_dtis t)"
  shows "codes (go_each write_dti (ft_dtis fd)) (read_frame_dtis s t) (t\<lparr>ft_dtis := ft_dtis fd\<rparr>) (2 * length (ft_dtis fd))"
proof -
  have "codes (go_each write_dti (ft_dtis fd)) (go_map (\<lambda>_. read_dti) (ft_dtis t)) (ft_dtis fd) (sum_list (map (\<lambda>_. 2) (ft_dtis fd)))"
    by (rule codes_each) (simp_all add: assms(2) codes_dti)
  from codes_result [OF this, of "\<lambda>ds. t\<lparr>ft_dtis := ds\<rparr>"] show ?thesis
    using assms(1) by (simp add: read_frame_dtis_def sum_list_triv mult.commute del: go_return_simp)
qed

text \<open>The size of a difference of a frame in units of four bits.\<close>

definition fdiff_units :: "int \<Rightarrow> nat" where
  "fdiff_units d = (if d \<le> 16 then 1 else if d \<le> 256 then 2 else 3)"

definition fdiff_bits :: "int \<Rightarrow> bool list" where
  "fdiff_bits d = to_bits 2 (of_nat (fdiff_units d)) @ to_bits (4 * fdiff_units d) (word_of_int (d - 1))"

lemma fdiff_fits:
  assumes "1 \<le> d" "d \<le> 4096"
  shows "take_bit (4 * fdiff_units d) (word_of_int (d - 1)) = (word_of_int (d - 1) :: u64)"
  using assms take_int [of "d - 1" 4] take_int [of "d - 1" 8] take_int [of "d - 1" 12] by (simp add: fdiff_units_def)

lemma emits_fdiff:
  assumes "1 \<le> d" "d \<le> 4096"
  shows "emits (write_frame_fdiff d) (fdiff_bits d)"
proof -
  let ?u = "fdiff_units d"
  have "write_frame_fdiff d = write_bits (push_bit (4 * ?u) (of_nat ?u) OR word_of_int (d - 1)) (2 + 4 * ?u)"
    by (simp add: write_frame_fdiff_def fdiff_units_def)
  moreover have "2 + 4 * ?u \<le> 64" by (simp add: fdiff_units_def)
  ultimately show ?thesis
    using emits_bits [of "2 + 4 * ?u" "push_bit (4 * ?u) (of_nat ?u) OR word_of_int (d - 1)"]
      two_fields [OF fdiff_fits [OF assms], of 2 "of_nat ?u"] by (simp add: fdiff_bits_def)
qed

lemma parses_sized_fdiffs:
  "list_all (\<lambda>d. 1 \<le> d \<and> d \<le> 4096) ds \<Longrightarrow> parses read_sized_fdiffs (concat (map fdiff_bits ds) @ to_bits 2 0) ds"
proof (induction ds)
  case Nil
  have "parses (read_bits 2) (to_bits 2 0) 0" using parses_bits [of 2 0] by simp
  from parses_then [OF this, of "\<lambda>sz. if sz = 0 then go_return []
     else go_then (read_bits (uint sz * 4)) (\<lambda>d. go_then read_sized_fdiffs (\<lambda>ds. go_return (uint (d + 1) # ds)))" "[]" "[]"]
  show ?case by (subst read_sized_fdiffs_unfold) (simp add: parses_return del: go_return_simp)
next
  case (Cons d ds)
  let ?u = "fdiff_units d"
  let ?v = "word_of_int (d - 1) :: u64"
  let ?rest = "concat (map fdiff_bits ds) @ to_bits 2 0"
  have d: "1 \<le> d" "d \<le> 4096" and rest: "parses read_sized_fdiffs ?rest ds" using Cons by simp_all
  have sz: "parses (read_bits 2) (to_bits 2 (of_nat ?u)) (of_nat ?u)" "(of_nat ?u :: u64) \<noteq> 0" "uint (of_nat ?u :: u64) * 4 = int (4 * ?u)"
    using parses_bits [of 2 "of_nat ?u"] by (auto simp: fdiff_units_def take_bit_eq_mod)
  have "4 * ?u \<le> 64" by (simp add: fdiff_units_def)
  from parses_bits [OF this fdiff_fits [OF d]] have v: "parses (read_bits (int (4 * ?u))) (to_bits (4 * ?u) ?v) ?v" .
  have "?v + 1 = word_of_int d" by simp
  then have u: "uint (?v + 1) = d" using take_int [of d 13] d by simp
  have "parses (go_then read_sized_fdiffs (\<lambda>ds. go_return (uint (?v + 1) # ds))) (?rest @ []) (d # ds)"
    by (rule parses_then [OF rest]) (simp only: u parses_return)
  then have "parses (go_then (read_bits (int (4 * ?u))) (\<lambda>d. go_then read_sized_fdiffs (\<lambda>ds. go_return (uint (d + 1) # ds))))
      (to_bits (4 * ?u) ?v @ ?rest) (d # ds)"
    by (intro parses_cong [OF parses_then [OF v]]) simp_all
  then have "parses (if (of_nat ?u :: u64) = 0 then go_return []
     else go_then (read_bits (uint (of_nat ?u :: u64) * 4)) (\<lambda>d. go_then read_sized_fdiffs (\<lambda>ds. go_return (uint (d + 1) # ds))))
      (to_bits (4 * ?u) ?v @ ?rest) (d # ds)"
    unfolding sz(3) using sz(2) by simp
  then show ?case by (subst read_sized_fdiffs_unfold, intro parses_cong [OF parses_then [OF sz(1)]]) (simp_all add: fdiff_bits_def)
qed

lemma codes_frame_fdiffs:
  assumes "list_all (\<lambda>d. 1 \<le> d \<and> d \<le> 4096) (ft_frame_diffs fd)"
  shows "codes (go_then (go_each write_frame_fdiff (ft_frame_diffs fd)) (\<lambda>_. write_bits 0 2)) (read_frame_fdiffs t)
    (t\<lparr>ft_frame_diffs := ft_frame_diffs fd\<rparr>) (sum_list (map (\<lambda>d. 2 + 4 * fdiff_units d) (ft_frame_diffs fd)) + 2)"
proof -
  have "emits (go_each write_frame_fdiff (ft_frame_diffs fd)) (concat (map fdiff_bits (ft_frame_diffs fd)))"
    by (rule emits_each) (use assms in \<open>simp add: list_all_iff emits_fdiff\<close>)
  then have "emits (go_then (go_each write_frame_fdiff (ft_frame_diffs fd)) (\<lambda>_. write_bits 0 2)) (concat (map fdiff_bits (ft_frame_diffs fd)) @ to_bits 2 0)"
    using emits_bits [of 2 0] by (intro emits_then) simp_all
  moreover have "length (concat (map fdiff_bits ds) @ to_bits 2 0) = sum_list (map (\<lambda>d. 2 + 4 * fdiff_units d) ds) + 2" for ds
    by (simp add: length_concat o_def fdiff_bits_def)
  ultimately show ?thesis unfolding read_frame_fdiffs_def
    by (intro codes_result codesI [OF _ parses_sized_fdiffs [OF assms]])
qed

text \<open>The chains: what is written for those that are not active is zero.\<close>

definition active_chains :: "u32 \<Rightarrow> int list \<Rightarrow> int list" where
  "active_chains active ds = map (\<lambda>i. if bit active i then ds ! i else 0) [0..<length ds]"

lemma codes_frame_chains:
  assumes "int (length (ft_chain_diffs fd)) = fs_num_chains s" "list_all (\<lambda>d. 0 \<le> d \<and> d < 256) (ft_chain_diffs fd)"
    "length (ft_chain_diffs t) = length (ft_chain_diffs fd)"
  shows "codes (write_frame_chains s active fd) (read_frame_chains s t)
    (t\<lparr>ft_chain_diffs := active_chains active (ft_chain_diffs fd)\<rparr>) (8 * nat (fs_num_chains s))"
proof -
  have n: "nat (fs_num_chains s) = length (ft_chain_diffs fd)" using assms(1) nat_int by metis
  have "codes (write_frame_chains s active fd) (go_map (\<lambda>_. go_then (read_bits 8) (\<lambda>d. go_return (uint d))) (ft_chain_diffs t))
      (active_chains active (ft_chain_diffs fd)) (sum_list (map (\<lambda>_. 8) [0..<nat (fs_num_chains s)]))"
    unfolding write_frame_chains_def
  proof (rule codes_each)
    fix i assume "i < length (ft_chain_diffs t)"
    then have i: "i < length (ft_chain_diffs fd)" using assms(3) by simp
    then have d: "0 \<le> ft_chain_diffs fd ! i" "ft_chain_diffs fd ! i < 256" using assms(2) by (simp_all add: list_all_length)
    show "codes (if bit active ([0..<nat (fs_num_chains s)] ! i)
        then (case go_nth (ft_chain_diffs fd) (int ([0..<nat (fs_num_chains s)] ! i)) of None \<Rightarrow> (\<lambda>w. None) | Some d \<Rightarrow> write_bits (word_of_int d) 8)
        else write_bits 0 8) (go_then (read_bits 8) (\<lambda>d. go_return (uint d))) (active_chains active (ft_chain_diffs fd) ! i) 8"
      using codes_num [of "ft_chain_diffs fd ! i" 8] codes_num [of 0 8] i d
      by (simp add: n active_chains_def del: go_return_simp)
  qed (simp_all add: n assms(3) active_chains_def)
  from codes_result [OF this, of "\<lambda>ds. t\<lparr>ft_chain_diffs := ds\<rparr>"] show ?thesis
    using assms(1,3) by (simp add: read_frame_chains_def sum_list_triv mult.commute del: go_return_simp)
qed

text \<open>
  The template that the writer chooses: among the first template of the layer of the frame and
  those after it up to the last one of another layer, the one that needs the fewest extra bits,
  the first of them among equals.
\<close>

definition first_of_layer :: "fd_structure \<Rightarrow> fd_template \<Rightarrow> nat" where
  "first_of_layer s fd = length (takeWhile (\<lambda>t. \<not> same_layer fd t) (fs_templates s))"

definition template_candidate :: "fd_structure \<Rightarrow> fd_template \<Rightarrow> nat \<Rightarrow> bool" where
  "template_candidate s fd j \<longleftrightarrow> j = first_of_layer s fd \<or> first_of_layer s fd < j \<and>
     list_ex (\<lambda>t. \<not> same_layer fd t) (drop j (fs_templates s))"

definition template_cost :: "fd_structure \<Rightarrow> u32 \<Rightarrow> fd_template \<Rightarrow> nat \<Rightarrow> int" where
  "template_cost s active fd j = tm_extra (calculate_match s active fd j (fs_templates s ! j))"

definition template_chosen :: "fd_structure \<Rightarrow> u32 \<Rightarrow> fd_template \<Rightarrow> nat \<Rightarrow> bool" where
  "template_chosen s active fd i \<longleftrightarrow> i < length (fs_templates s) \<and> template_candidate s fd i \<and>
     list_all (\<lambda>j. template_candidate s fd j \<longrightarrow> template_cost s active fd i < template_cost s active fd j \<or>
       template_cost s active fd i = template_cost s active fd j \<and> i \<le> j) [0..<length (fs_templates s)]"

lemma fold_cheapest:
  fixes e :: "nat \<Rightarrow> int"
  assumes "\<And>i. tm_extra (m i) = e i" "sorted_wrt (<) (a # is)"
  shows "\<exists>i \<in> set (a # is). fold (\<lambda>i best. if tm_extra (m i) < tm_extra best then m i else best) is (m a) = m i \<and>
    (\<forall>j \<in> set (a # is). e i < e j \<or> e i = e j \<and> i \<le> j)"
  using assms(2)
proof (induction "is" rule: rev_induct)
  case Nil
  show ?case by simp
next
  case (snoc x "is")
  then have "sorted_wrt (<) (a # is)" and x: "\<forall>j \<in> set (a # is). j < x" by (auto simp: sorted_wrt_append)
  with snoc.IH obtain i where i: "i \<in> set (a # is)"
    "fold (\<lambda>i best. if tm_extra (m i) < tm_extra best then m i else best) is (m a) = m i"
    "\<forall>j \<in> set (a # is). e i < e j \<or> e i = e j \<and> i \<le> j" by blast
  show ?case
  proof (cases "e x < e i")
    case True
    then have "\<forall>j \<in> set (a # is). e x < e j" using i(3) by fastforce
    then show ?thesis using True i(2) assms(1) by (intro bexI [of _ x]) auto
  next
    case False
    have "i \<le> x" using x i(1) by fastforce
    then show ?thesis using False i assms(1) by (intro bexI [of _ i]) auto
  qed
qed

lemma first_of_layer_facts:
  assumes "list_ex (same_layer fd) (fs_templates s)"
  shows "first_of_layer s fd < length (fs_templates s)" "same_layer fd (fs_templates s ! first_of_layer s fd)"
    "j < first_of_layer s fd \<Longrightarrow> \<not> same_layer fd (fs_templates s ! j)"
proof -
  have ex: "\<exists>t \<in> set (fs_templates s). \<not> \<not> same_layer fd t" using assms by (auto simp: list_ex_iff)
  have ne: "takeWhile (\<lambda>t. \<not> same_layer fd t) (fs_templates s) \<noteq> fs_templates s"
  proof
    assume "takeWhile (\<lambda>t. \<not> same_layer fd t) (fs_templates s) = fs_templates s"
    with ex show False using set_takeWhileD by metis
  qed
  show l: "first_of_layer s fd < length (fs_templates s)"
    using ne length_takeWhile_le [of "\<lambda>t. \<not> same_layer fd t" "fs_templates s"] takeWhile_eq_take [of _ "fs_templates s"]
    by (metis first_of_layer_def le_neq_implies_less take_all_iff order_refl)
  then show "same_layer fd (fs_templates s ! first_of_layer s fd)"
    using nth_length_takeWhile [of "\<lambda>t. \<not> same_layer fd t" "fs_templates s"] by (simp add: first_of_layer_def)
  assume "j < first_of_layer s fd"
  then show "\<not> same_layer fd (fs_templates s ! j)"
    unfolding first_of_layer_def by (metis nth_mem set_takeWhileD takeWhile_nth)
qed

lemma sorted_le_last: "sorted xs \<Longrightarrow> x \<in> set xs \<Longrightarrow> x \<le> last xs"
  by (induction xs) auto

lemma find_best_template_chosen:
  assumes "list_ex (same_layer fd) (fs_templates s)"
  obtains i where "template_chosen s active fd i"
    "find_best_template s active fd = Inr (calculate_match s active fd i (fs_templates s ! i))"
proof -
  define m where "m = (\<lambda>i. calculate_match s active fd i (fs_templates s ! i))"
  let ?n = "length (fs_templates s)" and ?F = "first_of_layer s fd" and ?e = "template_cost s active fd"
  note F = first_of_layer_facts [OF assms]
  have fl: "filter (\<lambda>i. same_layer fd (fs_templates s ! i)) [0..<?n] = ?F # filter (\<lambda>i. same_layer fd (fs_templates s ! i)) [Suc ?F..<?n]"
  proof -
    have "[0..<?n] = [0..<?F] @ ?F # [Suc ?F..<?n]" using F(1) by (metis upt_add_eq_append upt_conv_Cons le_add_diff_inverse less_imp_le zero_le)
    moreover have "filter (\<lambda>i. same_layer fd (fs_templates s ! i)) [0..<?F] = []" using F(3) by (simp add: filter_empty_conv)
    ultimately show ?thesis using F(2) by simp
  qed
  define others where "others = filter (\<lambda>i. \<not> same_layer fd (fs_templates s ! i)) [?F..<?n]"
  define L where "L = (if others = [] then 0 else last others)"
  have best: "find_best_template s active fd =
      Inr (fold (\<lambda>i best. if tm_extra (m i) < tm_extra best then m i else best) [?F + 1..<L + 1] (m ?F))"
    unfolding find_best_template_def fl list.case Let_def L_def others_def m_def by simp
  have "sorted_wrt (<) [?F + 1..<L + 1]" by (rule sorted_wrt_upt)
  then have srt: "sorted_wrt (<) (?F # [?F + 1..<L + 1])" by (simp del: upt_Suc)
  have L: "?F < j \<Longrightarrow> j \<le> L \<longleftrightarrow> list_ex (\<lambda>t. \<not> same_layer fd t) (drop j (fs_templates s))" for j
  proof
    assume j: "?F < j" "j \<le> L"
    then have "others \<noteq> []" by (auto simp: L_def)
    then have "L \<in> set others" by (simp add: L_def)
    then have l: "L < ?n" "\<not> same_layer fd (fs_templates s ! L)" by (auto simp: others_def)
    have "fs_templates s ! L = drop j (fs_templates s) ! (L - j)" using j(2) l(1) by simp
    moreover have "L - j < length (drop j (fs_templates s))" using j(2) l(1) by simp
    ultimately show "list_ex (\<lambda>t. \<not> same_layer fd t) (drop j (fs_templates s))"
      using l(2) unfolding list_ex_length by metis
  next
    assume j: "?F < j" "list_ex (\<lambda>t. \<not> same_layer fd t) (drop j (fs_templates s))"
    then obtain k where "k < ?n - j" "\<not> same_layer fd (fs_templates s ! (j + k))" by (auto simp: list_ex_length)
    then have k: "j + k < ?n" "\<not> same_layer fd (fs_templates s ! (j + k))" by simp_all
    then have "j + k \<in> set others" using j(1) by (simp add: others_def)
    moreover have "sorted others" by (simp add: others_def sorted_wrt_filter)
    ultimately have "others \<noteq> []" "j + k \<le> last others" using sorted_le_last [of others "j + k"] by auto
    then show "j \<le> L" by (simp add: L_def)
  qed
  have me: "tm_extra (m i) = ?e i" for i by (simp add: m_def template_cost_def)
  obtain i where i: "i \<in> set (?F # [?F + 1..<L + 1])"
    "fold (\<lambda>i best. if tm_extra (m i) < tm_extra best then m i else best) [?F + 1..<L + 1] (m ?F) = m i"
    "\<forall>j \<in> set (?F # [?F + 1..<L + 1]). ?e i < ?e j \<or> ?e i = ?e j \<and> i \<le> j"
    using fold_cheapest [of m ?e, OF me srt] by blast
  have cand: "template_candidate s fd j \<longleftrightarrow> j \<in> set (?F # [?F + 1..<L + 1])" for j
    using L [of j] by (auto simp: template_candidate_def)
  have "i < ?n"
  proof (cases "i = ?F")
    case False
    then have "list_ex (\<lambda>t. \<not> same_layer fd t) (drop i (fs_templates s))" using i(1) cand [of i] by (simp add: template_candidate_def)
    then show ?thesis by (cases "i < ?n") simp_all
  qed (simp add: F(1))
  then have "template_chosen s active fd i" using i(1,3) cand by (auto simp: template_chosen_def list_all_iff)
  with that best i(2) show thesis by (simp add: m_def)
qed

text \<open>
  What the reader reconstructs of the dependencies of a frame: the layer is that of the template.
\<close>

definition as_received :: "fd_structure \<Rightarrow> u32 \<Rightarrow> fd_template \<Rightarrow> template_match \<Rightarrow> fd_template" where
  "as_received s active fd best = fd\<lparr>ft_spatial := ft_spatial (fs_templates s ! tm_idx best),
     ft_temporal := ft_temporal (fs_templates s ! tm_idx best), ft_chain_diffs :=
     (if tm_custom_chains best then active_chains active (ft_chain_diffs fd) else ft_chain_diffs (fs_templates s ! tm_idx best))\<rparr>"

definition definition_bits :: "fd_structure \<Rightarrow> fd_template \<Rightarrow> template_match \<Rightarrow> nat" where
  "definition_bits s fd best = (if tm_custom_dtis best then 2 * length (ft_dtis fd) else 0) +
     ((if tm_custom_fdiffs best then sum_list (map (\<lambda>d. 2 + 4 * fdiff_units d) (ft_frame_diffs fd)) + 2 else 0) +
      (if tm_custom_chains best then 8 * nat (fs_num_chains s) else 0))"

lemma match_extra:
  assumes "fs_ok s" "frame_ok s fd" "best = calculate_match s active fd i t"
  shows "tm_extra best = int (definition_bits s fd best)"
    "tm_extra best = 0 \<Longrightarrow> \<not> tm_custom_dtis best \<and> \<not> tm_custom_fdiffs best \<and> \<not> tm_custom_chains best"
proof -
  have unit: "2 * (1 + int (length ds)) + sum_list (map (\<lambda>d. if d \<le> 16 then 4 else if d \<le> 256 then 8 else 12) ds) =
      int (sum_list (map (\<lambda>d. 2 + 4 * fdiff_units d) ds) + 2)" for ds :: "int list"
    by (induction ds) (simp_all add: fdiff_units_def)
  show e: "tm_extra best = int (definition_bits s fd best)"
    unfolding assms(3) calculate_match_def Let_def template_match.select_convs definition_bits_def unit
    using fs_okD(5) [OF assms(1)] by simp
  have "0 < length (ft_dtis fd)" using assms(1,2) fs_okD(3) by (fastforce simp: frame_ok_def)
  moreover have "tm_custom_chains best \<Longrightarrow> 0 < nat (fs_num_chains s)"
    unfolding assms(3) calculate_match_def Let_def by (auto simp: list_ex_iff)
  ultimately show "tm_extra best = 0 \<Longrightarrow> \<not> tm_custom_dtis best \<and> \<not> tm_custom_fdiffs best \<and> \<not> tm_custom_chains best"
    unfolding e definition_bits_def by (auto split: if_splits)
qed

lemma template_index:
  fixes a b :: int
  assumes "0 \<le> a" "a < 64" "0 \<le> b" "b < 64"
  shows "go_rem ((a + b) mod 64 + int max_templates - b) (int max_templates) = a"
proof -
  have "((a + b) mod 64 + (64 - b)) mod 64 = (a + b + (64 - b)) mod 64" by (rule mod_add_left_eq)
  then have "((a + b) mod 64 + 64 - b) mod 64 = a" using assms by (simp add: add_diff_eq)
  moreover have "0 \<le> (a + b) mod 64 + 64 - b" using assms pos_mod_sign [of 64 "a + b"] by linarith
  ultimately show ?thesis by (simp add: go_rem_def max_templates_def)
qed

definition layer_resolution :: "fd_structure \<Rightarrow> int \<Rightarrow> render_resolution option" where
  "layer_resolution s spatial = (if fs_resolutions s = [] then None else Some (fs_resolutions s ! nat spatial))"

lemma layers_follow_last: "layers_follow sp t ts \<Longrightarrow> u \<in> set ts \<Longrightarrow> ft_spatial u \<le> ft_spatial (last ts)"
proof (induction sp t ts arbitrary: u rule: layers_follow.induct)
  case (3 sp t a b ts)
  have "ft_spatial a \<le> ft_spatial b" using 3(2) by (auto simp: get_next_layer_idc_def split: if_splits)
  moreover have "ft_spatial x \<le> ft_spatial (last (b # ts))" if "x \<in> set (b # ts)" for x using 3 that by simp
  ultimately show ?case using 3(3) by fastforce
qed simp_all

lemma resolution_found:
  assumes "fs_ok s" "i < length (fs_templates s)" "fs_resolutions s \<noteq> []"
  shows "ft_spatial (fs_templates s ! i) < int (length (fs_resolutions s))"
  using layers_follow_last [of 0 0 "fs_templates s" "fs_templates s ! i"] assms by (auto simp: fs_ok_def)

lemma codes_definition:
  assumes s: "fs_ok s" and fd: "frame_ok s fd" and i: "i < length (fs_templates s)"
    and best: "best = calculate_match s active fd i (fs_templates s ! i)"
    and res: "res = layer_resolution s (ft_spatial (fs_templates s ! i))"
    and flags: "df_custom_dtis flags = tm_custom_dtis best" "df_custom_fdiffs flags = tm_custom_fdiffs best"
      "df_custom_chains flags = tm_custom_chains best"
  shows "codes (write_frame_dependency_definition s active fd best)
    (read_frame_dependency_definition s flags ((int i + fs_id s) mod 64)) (as_received s active fd best, res) (definition_bits s fd best)"
proof -
  define t where "t = fs_templates s ! i"
  note f = fs_okD [OF s]
  have "i < 64" using i f(7) by simp
  then have idx: "go_rem ((int i + fs_id s) mod 64 + int max_templates - fs_id s) (int max_templates) = int i"
    using f(1,2) by (intro template_index) simp_all
  have tok: "template_ok s t" using i f(9) by (simp add: t_def)
  have len: "int (length (ft_dtis t)) = fs_num_targets s" "length (ft_dtis fd) = length (ft_dtis t)"
    "int (length (ft_chain_diffs fd)) = fs_num_chains s" "list_all (\<lambda>d. 0 \<le> d \<and> d < 256) (ft_chain_diffs fd)"
    "length (ft_chain_diffs t) = length (ft_chain_diffs fd)" "list_all (\<lambda>d. 1 \<le> d \<and> d \<le> 4096) (ft_frame_diffs fd)"
    using tok fd by (auto simp: template_ok_def frame_ok_def)
  have same: "\<not> tm_custom_dtis best \<Longrightarrow> ft_dtis fd = ft_dtis t" "\<not> tm_custom_fdiffs best \<Longrightarrow> ft_frame_diffs fd = ft_frame_diffs t"
    unfolding best calculate_match_def Let_def t_def by simp_all
  have idx_best: "tm_idx best = i" unfolding best calculate_match_def Let_def by simp
  define t1 where "t1 = t\<lparr>ft_dtis := ft_dtis fd\<rparr>"
  define t2 where "t2 = t1\<lparr>ft_frame_diffs := ft_frame_diffs fd\<rparr>"
  have d: "codes (if tm_custom_dtis best then go_each write_dti (ft_dtis fd) else go_return ())
      (if tm_custom_dtis best then read_frame_dtis s t else go_return t) t1 (if tm_custom_dtis best then 2 * length (ft_dtis fd) else 0)"
    using codes_frame_dtis [OF len(1,2)] by (intro codes_if codes_cong [OF codes_return]) (simp_all add: t1_def same)
  have fr: "codes (if tm_custom_fdiffs best then go_then (go_each write_frame_fdiff (ft_frame_diffs fd)) (\<lambda>_. write_bits 0 2) else go_return ())
      (if tm_custom_fdiffs best then read_frame_fdiffs t1 else go_return t1) t2
      (if tm_custom_fdiffs best then sum_list (map (\<lambda>d. 2 + 4 * fdiff_units d) (ft_frame_diffs fd)) + 2 else 0)"
    using codes_frame_fdiffs [OF len(6), of t1] by (intro codes_if codes_cong [OF codes_return]) (simp_all add: t2_def t1_def same)
  have r: "as_received s active fd best = t2\<lparr>ft_chain_diffs :=
      (if tm_custom_chains best then active_chains active (ft_chain_diffs fd) else ft_chain_diffs t)\<rparr>"
    by (simp add: as_received_def idx_best t_def [symmetric] t2_def t1_def)
  have "length (ft_chain_diffs t2) = length (ft_chain_diffs fd)" by (simp add: t2_def t1_def len)
  from codes_frame_chains [OF len(3,4) this] have
    c: "codes (if tm_custom_chains best then write_frame_chains s active fd else go_return ())
      (if tm_custom_chains best then read_frame_chains s t2 else go_return t2) (as_received s active fd best)
      (if tm_custom_chains best then 8 * nat (fs_num_chains s) else 0)"
    by (intro codes_if codes_cong [OF codes_return]) (simp_all add: r t2_def t1_def)
  have sp: "ft_spatial (as_received s active fd best) = ft_spatial t" "0 \<le> ft_spatial t"
    using tok by (simp_all add: as_received_def idx_best t_def [symmetric] template_ok_def)
  have out: "(if fs_resolutions s = [] then go_return (x, None)
      else if ft_spatial x \<ge> int (length (fs_resolutions s)) then go_invalidate ErrDDReaderInvalidSpatialLayer
      else case go_nth (fs_resolutions s) (ft_spatial x) of None \<Rightarrow> (\<lambda>r. None) | Some res \<Rightarrow> go_return (x, Some res)) = go_return (x, res)"
    if "x = as_received s active fd best" for x
    using res sp that resolution_found [OF s i]
    by (cases "fs_resolutions s = []") (simp_all add: go_nth_def layer_resolution_def t_def [symmetric])
  have cr: "codes (if tm_custom_chains best then write_frame_chains s active fd else go_return ())
      (go_then (if tm_custom_chains best then read_frame_chains s t2 else go_return t2) (\<lambda>fd.
         if fs_resolutions s = [] then go_return (fd, None)
         else if ft_spatial fd \<ge> int (length (fs_resolutions s)) then go_invalidate ErrDDReaderInvalidSpatialLayer
         else case go_nth (fs_resolutions s) (ft_spatial fd) of None \<Rightarrow> (\<lambda>r. None) | Some res \<Rightarrow> go_return (fd, Some res)))
      (as_received s active fd best, res) (if tm_custom_chains best then 8 * nat (fs_num_chains s) else 0)"
  proof -
    from c obtain bs where bs: "length bs = (if tm_custom_chains best then 8 * nat (fs_num_chains s) else 0)"
      "emits (if tm_custom_chains best then write_frame_chains s active fd else go_return ()) bs"
      "parses (if tm_custom_chains best then read_frame_chains s t2 else go_return t2) bs (as_received s active fd best)"
      unfolding codes_def by blast
    show ?thesis
      by (rule codesI [OF bs(2) parses_cong [OF parses_then [OF bs(3), of _ "[]"]] bs(1)]) (simp_all only: out parses_return append_Nil2)
  qed
  have lim: "\<not> int i \<ge> int (length (fs_templates s))" "go_nth (fs_templates s) (int i) = Some t"
    using i by (simp_all add: t_def)
  show ?thesis
    unfolding write_frame_dependency_definition_def read_frame_dependency_definition_def Let_def idx lim(2) option.case flags
      if_not_P [OF lim(1)] definition_bits_def
    by (rule codes_then [OF d], rule codes_then [OF fr], rule cr)
qed

section \<open>The descriptor\<close>

lemma codesE:
  assumes "codes w m x n"
  obtains bs where "length bs = n" "emits w bs" "parses m bs x"
  using assms unfolding codes_def by blast

definition flags_of :: "fd_structure \<Rightarrow> dd \<Rightarrow> template_match \<Rightarrow> dd_flags" where
  "flags_of s d best = \<lparr>df_active_targets = should_write_bitmask s d, df_custom_dtis = tm_custom_dtis best,
     df_custom_fdiffs = tm_custom_fdiffs best, df_custom_chains = tm_custom_chains best\<rparr>"

definition implied_mask :: "fd_structure \<Rightarrow> dd \<Rightarrow> u32 option" where
  "implied_mask s d = (if dd_attached d \<noteq> None then Some (ucast (all_targets (fs_num_targets s))) else None)"

definition extended_size :: "fd_structure \<Rightarrow> dd \<Rightarrow> int" where
  "extended_size s d = 5 + (if dd_attached d \<noteq> None then structure_size_bits s else 0) + (if should_write_bitmask s d then fs_num_targets s else 0)"

text \<open>
  A descriptor that may be sent under a structure, whatever its layer, resolution and mask; what
  arrives: the layer and the resolution are those of the chosen template, and of the mask those
  bits that stand for targets of the structure.
\<close>

definition dd_sendable :: "fd_structure \<Rightarrow> dd \<Rightarrow> bool" where
  "dd_sendable s d \<longleftrightarrow> (case dd_dependencies d of None \<Rightarrow> False | Some fd \<Rightarrow> frame_ok s fd) \<and>
    (dd_bitmask d = None \<longrightarrow> dd_attached d = None) \<and> (dd_attached d = None \<or> dd_attached d = Some s)"

definition mask_received :: "fd_structure \<Rightarrow> dd \<Rightarrow> u32 option" where
  "mask_received s d = map_option (take_bit (nat (fs_num_targets s))) (dd_bitmask d)"

definition dd_received :: "fd_structure \<Rightarrow> u32 \<Rightarrow> fd_template \<Rightarrow> template_match \<Rightarrow> dd \<Rightarrow> dd" where
  "dd_received s active fd best d = d\<lparr>dd_dependencies := Some (as_received s active fd best),
     dd_resolution := layer_resolution s (ft_spatial (fs_templates s ! tm_idx best)), dd_bitmask := mask_received s d\<rparr>"

lemma dd_ok_sendable: "dd_ok s d \<Longrightarrow> dd_sendable s d"
  by (auto simp: dd_ok_def dd_sendable_def split: option.splits)

lemma dd_ok_mask:
  assumes "dd_ok s d"
  shows "mask_received s d = dd_bitmask d"
proof (cases "dd_bitmask d")
  case (Some m)
  then have "uint m < 2 ^ nat (fs_num_targets s)" using assms by (simp add: dd_ok_def)
  then have "take_bit (nat (fs_num_targets s)) m = m"
    by (simp add: word_uint_eq_iff unsigned_take_bit_eq take_bit_int_eq_self)
  then show ?thesis by (simp add: mask_received_def Some)
qed (simp add: mask_received_def)

lemma to_bits_low: "to_bits n v = to_bits n (take_bit n v)"
  by (rule nth_equalityI) (simp_all add: to_bits_nth bit_take_bit_iff)

text \<open>The flags, the structure and the bit mask.\<close>

lemma extended_bits:
  assumes s: "fs_ok s" and d: "dd_sendable s d"
  obtains as bs where "emits (write_extended_fields s d best) (as @ bs)"
    "parses read_extended_fields as (flags_of s d best, dd_attached d, implied_mask s d)"
    "parses (if should_write_bitmask s d then go_then (read_bits (fs_num_targets s)) (\<lambda>m. go_return (Some (ucast m)))
       else go_return (implied_mask s d)) bs (mask_received s d)"
    "int (length (as @ bs)) = extended_size s d"
proof -
  note f = fs_okD [OF s]
  obtain n where n: "codes (write_template_dependency_structure s) read_template_dependency_structure s n" "int n = structure_size_bits s"
    by (rule codes_structure [OF s])
  obtain ss where ss: "emits (if dd_attached d \<noteq> None then write_template_dependency_structure s else go_return ()) ss"
    "parses (if dd_attached d \<noteq> None then go_then read_template_dependency_structure
        (\<lambda>s. go_return (flags_of s' d best, Some s, Some (ucast (all_targets (fs_num_targets s))))) else go_return (flags_of s' d best, None, None))
      ss (flags_of s' d best, dd_attached d, implied_mask s d)"
    "int (length ss) = (if dd_attached d \<noteq> None then structure_size_bits s else 0)" for s'
  proof (cases "dd_attached d = None")
    case True
    have "parses (go_return (flags_of s' d best, None, None)) [] (flags_of s' d best, None :: fd_structure option, None :: u32 option)" for s'
      by (rule parses_return)
    then show ?thesis using that [of "[]"] emits_return True by (simp add: implied_mask_def del: go_return_simp)
  next
    case False
    then have a: "dd_attached d = Some s" using d by (auto simp: dd_sendable_def)
    obtain bs where bs: "length bs = n" "emits (write_template_dependency_structure s) bs" "parses read_template_dependency_structure bs s"
      by (rule codesE [OF n(1)])
    have "parses (go_then read_template_dependency_structure (\<lambda>s. go_return (flags_of s' d best, Some s, Some (ucast (all_targets (fs_num_targets s))))))
        (bs @ []) (flags_of s' d best, Some s, implied_mask s d)" for s'
      by (rule parses_then [OF bs(3)]) (simp add: implied_mask_def a parses_return del: go_return_simp)
    then show ?thesis using that [of bs] bs n(2) a by simp
  qed
  let ?flags = "[dd_attached d \<noteq> None, should_write_bitmask s d, tm_custom_dtis best, tm_custom_fdiffs best, tm_custom_chains best]"
  obtain ms where ms: "emits (case dd_bitmask d of None \<Rightarrow> go_return ()
      | Some m \<Rightarrow> if should_write_bitmask s d then write_bits (ucast m) (nat (fs_num_targets s)) else go_return ()) ms"
    "parses (if should_write_bitmask s d then go_then (read_bits (fs_num_targets s)) (\<lambda>m. go_return (Some (ucast m)))
       else go_return (implied_mask s d)) ms (mask_received s d)" "int (length ms) = (if should_write_bitmask s d then fs_num_targets s else 0)"
  proof (cases "dd_bitmask d")
    case None
    then have "\<not> should_write_bitmask s d" "implied_mask s d = None" "mask_received s d = None"
      using d by (simp_all add: should_write_bitmask_def dd_sendable_def implied_mask_def mask_received_def)
    then show ?thesis using that [of "[]"] None emits_return parses_return [of "None :: u32 option"] by (simp del: go_return_simp)
  next
    case (Some m)
    let ?n = "nat (fs_num_targets s)"
    have n: "0 < ?n" "?n \<le> 32" "int ?n = fs_num_targets s" using f(3,4) by simp_all
    have mr: "mask_received s d = Some (take_bit ?n m)" by (simp add: mask_received_def Some)
    show ?thesis
    proof (cases "should_write_bitmask s d")
      case True
      let ?v = "take_bit ?n (ucast m :: u64)"
      have p: "parses (read_bits (int ?n)) (to_bits ?n (ucast m)) ?v"
        using n unfolding to_bits_low [of ?n "ucast m"] by (intro parses_bits) simp_all
      have "(ucast ?v :: u32) = take_bit ?n m" by (rule bit_word_eqI) (auto simp: bit_ucast_iff bit_take_bit_iff)
      then have "parses (go_then (read_bits (int ?n)) (\<lambda>m. go_return (Some (ucast m)))) (to_bits ?n (ucast m) @ []) (mask_received s d)"
        by (intro parses_then [OF p]) (simp add: mr parses_return del: go_return_simp)
      then show ?thesis using that [of "to_bits ?n (ucast m)"] True Some n emits_bits [of ?n "ucast m"] by simp
    next
      case False
      then have "dd_attached d \<noteq> None" and all: "ucast m = all_targets (fs_num_targets s)" using Some by (simp_all add: should_write_bitmask_def)
      have again: "ucast (ucast m :: u64) = m" by (rule bit_word_eqI) (simp add: bit_ucast_iff)
      have "take_bit ?n (ucast m :: u64) = ucast m" by (simp add: all all_targets_def take_bit_eq_mask push_bit_of_1 mask_eq_exp_minus_1 [symmetric])
      moreover have "(ucast (take_bit ?n (ucast m :: u64)) :: u32) = take_bit ?n m" by (rule bit_word_eqI) (auto simp: bit_ucast_iff bit_take_bit_iff)
      ultimately have "take_bit ?n m = m" using again by simp
      then have "implied_mask s d = mask_received s d" using \<open>dd_attached d \<noteq> None\<close> again unfolding implied_mask_def mr all by simp
      then show ?thesis using that [of "[]"] False Some emits_return parses_return [of "mask_received s d"] by (simp del: go_return_simp)
    qed
  qed
  have w: "emits (write_extended_fields s d best) ((?flags @ ss) @ ms)"
    unfolding write_extended_fields_def append_Cons append_Nil
    by (rule emits_bool_then)+ (rule emits_then [OF ss(1)], rule ms(1))
  have r: "parses read_extended_fields (?flags @ ss) (flags_of s d best, dd_attached d, implied_mask s d)"
    unfolding read_extended_fields_def Let_def append_Cons append_Nil
    by (intro parses_bool_then, fold flags_of_def, rule ss(2))
  show ?thesis using that [OF w r ms(2)] ss(3) ms(3) by (simp add: extended_size_def)
qed

lemma mandatory_bits:
  assumes "0 \<le> fs_id s"
  obtains bs where "emits (write_mandatory_fields s d best) bs" "length bs = 24"
    "parses read_mandatory_fields bs (dd_first d, dd_last d, (int (tm_idx best) + fs_id s) mod 64, dd_frame_number d)"
proof
  let ?id = "(int (tm_idx best) + fs_id s) mod 64"
  let ?t = "word_of_int ?id :: u64"
  have rem: "go_rem (int (tm_idx best) + fs_id s) 64 = ?id" using assms by (simp add: go_rem_def)
  show "length (dd_first d # dd_last d # (to_bits 6 ?t @ to_bits 16 (ucast (dd_frame_number d)))) = 24" by simp
  show "emits (write_mandatory_fields s d best) (dd_first d # dd_last d # (to_bits 6 ?t @ to_bits 16 (ucast (dd_frame_number d))))"
    unfolding write_mandatory_fields_def max_templates_def of_nat_numeral rem
    by (intro emits_bool_then emits_then emits_bits) simp_all
  have i: "parses (read_bits (int 6)) (to_bits 6 (word_of_int ?id)) (word_of_int ?id)" "uint (word_of_int ?id :: u64) = ?id"
  proof -
    have "0 \<le> ?id" "?id < 2 ^ 6" by simp_all
    from take_int [OF this] have t: "take_bit 6 ?t = ?t" "uint ?t = ?id" by (simp_all only: numeral_less_iff less_num_simps simp_thms)
    show "uint ?t = ?id" by (rule t(2))
    show "parses (read_bits (int 6)) (to_bits 6 ?t) ?t" by (rule parses_bits [OF _ t(1)]) simp
  qed
  have n: "parses (read_bits (int 16)) (to_bits 16 (ucast (dd_frame_number d))) (ucast (dd_frame_number d))"
    by (rule parses_bits, simp, rule bit_word_eqI) (auto simp: bit_take_bit_iff bit_ucast_iff dest: bit_imp_le_length)
  have "ucast (ucast (dd_frame_number d) :: u64) = dd_frame_number d" by (rule bit_word_eqI) (simp add: bit_ucast_iff)
  then have "parses (go_return (dd_first d, dd_last d, ?id, ucast (ucast (dd_frame_number d) :: u64))) [] (dd_first d, dd_last d, ?id, dd_frame_number d)"
    by (simp only: parses_return)
  then have "parses (go_then (read_bits (int 16)) (\<lambda>f. go_return (dd_first d, dd_last d, ?id, ucast f))) (to_bits 16 (ucast (dd_frame_number d)) @ [])
      (dd_first d, dd_last d, ?id, dd_frame_number d)" by (rule parses_then [OF n])
  then have "parses (go_then (read_bits 16) (\<lambda>f. go_return (dd_first d, dd_last d, ?id, ucast f))) (to_bits 16 (ucast (dd_frame_number d)))
      (dd_first d, dd_last d, ?id, dd_frame_number d)" by (simp only: append_Nil2 of_nat_numeral)
  then show "parses read_mandatory_fields (dd_first d # dd_last d # (to_bits 6 ?t @ to_bits 16 (ucast (dd_frame_number d)))) (dd_first d, dd_last d, ?id, dd_frame_number d)"
    unfolding read_mandatory_fields_def
    by (intro parses_bool_then parses_then [OF i(1) [unfolded of_nat_numeral]]) (simp only: i(2))
qed

lemma padding_bits:
  assumes "wr_ok w" "wr_at w + k = 8 * length (bw_buf w)" "k < 8"
  shows "\<exists>w'. write_padding w = Some (w', Inr ()) \<and> wr_ok w' \<and> wr_at w' = 8 * length (bw_buf w) \<and>
    length (bw_buf w') = length (bw_buf w) \<and> written w' = written w @ replicate k False"
proof -
  have rem: "bw_remaining w = int k" using wr_remaining [OF assms(1)] assms(2) by simp
  have r: "go_rem (int k) 64 = int k" "nat (int k div 64) = 0" using assms(3) by (simp_all add: go_rem_def)
  have z: "to_bits k 0 = replicate k False" by (rule nth_equalityI) (simp_all add: to_bits_nth)
  show ?thesis
  proof (cases "k = 0")
    case True
    then have "write_padding w = Some (w, Inr ())" unfolding write_padding_def rem Let_def r by (simp add: go_then_def)
    then show ?thesis using True assms by simp
  next
    case False
    then have "emits (write_bits 0 k) (replicate k False)" using emits_bits [of k 0] assms(3) by (simp add: z)
    then obtain w' where "write_bits 0 k w = Some (w', Inr ())" "wr_ok w'" "wr_at w' = wr_at w + k"
      "length (bw_buf w') = length (bw_buf w)" "written w' = written w @ replicate k False"
      using assms unfolding emits_def by fastforce
    then show ?thesis using False assms(2) unfolding write_padding_def rem Let_def r by (simp add: go_then_def)
  qed
qed

text \<open>The descriptor without the padding.\<close>

lemma descriptor_bits:
  assumes s: "fs_ok s" and d: "dd_sendable s d" and fd: "dd_dependencies d = Some fd"
    and i: "i < length (fs_templates s)" and best: "best = calculate_match s active fd i (fs_templates s ! i)"
  obtains bs where
    "emits (go_then (write_mandatory_fields s d best) (\<lambda>_. if has_extended_fields d best
        then go_then (write_extended_fields s d best) (\<lambda>_. write_frame_dependency_definition s active fd best)
        else go_return ())) bs"
    "int (length bs) = value_size_bits s d best"
    "\<And>buf. length buf > 3 \<longleftrightarrow> has_extended_fields d best \<Longrightarrow>
       parses (dd_parse buf (Some s)) bs (dd_received s active fd best d)"
proof -
  note f = fs_okD [OF s]
  have frame: "frame_ok s fd" and att: "dd_attached d = None \<or> dd_attached d = Some s" "dd_bitmask d = None \<Longrightarrow> dd_attached d = None"
    using d fd by (simp_all add: dd_sendable_def split: option.splits)
  define res where "res = layer_resolution s (ft_spatial (fs_templates s ! i))"
  have idx: "tm_idx best = i" unfolding best calculate_match_def Let_def by simp
  note extra = match_extra [OF s frame best]
  let ?out = "dd_received s active fd best d"
  define flags where "flags = (if has_extended_fields d best then flags_of s d best else no_flags)"
  define mask where "mask = (if has_extended_fields d best then implied_mask s d else None)"
  have fl: "df_custom_dtis flags = tm_custom_dtis best" "df_custom_fdiffs flags = tm_custom_fdiffs best" "df_custom_chains flags = tm_custom_chains best"
    using extra by (auto simp: flags_def flags_of_def no_flags_def has_extended_fields_def)
  have def: "codes (write_frame_dependency_definition s active fd best)
    (read_frame_dependency_definition s flags ((int i + fs_id s) mod 64)) (as_received s active fd best, res) (definition_bits s fd best)"
    by (rule codes_definition [OF s frame i best res_def fl])
  then obtain ds where ds: "length ds = definition_bits s fd best" "emits (write_frame_dependency_definition s active fd best) ds"
    "parses (read_frame_dependency_definition s flags ((int i + fs_id s) mod 64)) ds (as_received s active fd best, res)"
    by (rule codesE)
  obtain hs where hs: "emits (write_mandatory_fields s d best) hs" "length hs = 24"
    "parses read_mandatory_fields hs (dd_first d, dd_last d, (int i + fs_id s) mod 64, dd_frame_number d)"
    using mandatory_bits [OF f(1), of d best] unfolding idx by blast
  have out: "?out = \<lparr>dd_first = dd_first d, dd_last = dd_last d, dd_frame_number = dd_frame_number d,
      dd_dependencies = Some (as_received s active fd best), dd_resolution = res, dd_bitmask = mask_received s d, dd_attached = dd_attached d\<rparr>"
    by (cases d) (simp add: dd_received_def res_def idx)
  have fin: "parses (go_then (read_frame_dependency_definition s flags ((int i + fs_id s) mod 64)) (\<lambda>(fd, resolution).
        go_return \<lparr>dd_first = dd_first d, dd_last = dd_last d, dd_frame_number = dd_frame_number d, dd_dependencies = Some fd,
          dd_resolution = resolution, dd_bitmask = mask_received s d, dd_attached = dd_attached d\<rparr>)) (ds @ []) ?out"
    by (rule parses_then [OF ds(3)]) (simp only: prod.case out parses_return)
  show ?thesis
  proof (cases "has_extended_fields d best")
    case True
    obtain as ms where e: "emits (write_extended_fields s d best) (as @ ms)"
      "parses read_extended_fields as (flags_of s d best, dd_attached d, implied_mask s d)"
      "parses (if should_write_bitmask s d then go_then (read_bits (fs_num_targets s)) (\<lambda>m. go_return (Some (ucast m)))
       else go_return (implied_mask s d)) ms (mask_received s d)"
      "int (length (as @ ms)) = extended_size s d" by (rule extended_bits [OF s d])
    have fm: "flags = flags_of s d best" "mask = implied_mask s d" using True by (simp_all add: flags_def mask_def)
    have active_flag: "df_active_targets flags = should_write_bitmask s d" by (simp add: fm flags_of_def)
    have known: "(if dd_attached d \<noteq> None then dd_attached d else Some s) = Some s" using att(1) by auto
    show ?thesis
    proof (rule that)
      show "emits (go_then (write_mandatory_fields s d best) (\<lambda>_. if has_extended_fields d best
          then go_then (write_extended_fields s d best) (\<lambda>_. write_frame_dependency_definition s active fd best)
          else go_return ())) (hs @ ((as @ ms) @ ds))"
        unfolding if_P [OF True] by (rule emits_then [OF hs(1) emits_then [OF e(1) ds(2)]])
      show "int (length (hs @ ((as @ ms) @ ds))) = value_size_bits s d best"
        using True e(4) extra(1) unfolding value_size_bits_def if_P [OF True] length_append extended_size_def
        by (simp add: hs(2) ds(1))
      fix buf :: "u8 list" assume buf: "length buf > 3 \<longleftrightarrow> has_extended_fields d best"
      then have b3: "length buf > 3" using True by simp
      have p1: "parses (go_then (if df_active_targets flags
            then go_then (read_bits (fs_num_targets s)) (\<lambda>m. go_return (Some (ucast m))) else go_return (implied_mask s d)) (\<lambda>bitmask.
        go_then (read_frame_dependency_definition s flags ((int i + fs_id s) mod 64)) (\<lambda>(fd, resolution).
        go_return \<lparr>dd_first = dd_first d, dd_last = dd_last d, dd_frame_number = dd_frame_number d, dd_dependencies = Some fd,
          dd_resolution = resolution, dd_bitmask = bitmask, dd_attached = dd_attached d\<rparr>))) (ms @ (ds @ [])) ?out"
        unfolding active_flag by (rule parses_then [OF e(3)]) (rule fin)
      have "parses (go_then read_extended_fields (\<lambda>(flags, attached, bitmask).
        case (if attached \<noteq> None then attached else Some s) of
          None \<Rightarrow> go_invalidate ErrDDReaderNoStructure
        | Some z \<Rightarrow>
        go_then (if df_active_targets flags
            then go_then (read_bits (fs_num_targets z)) (\<lambda>m. go_return (Some (ucast m))) else go_return bitmask) (\<lambda>bitmask.
        go_then (read_frame_dependency_definition z flags ((int i + fs_id s) mod 64)) (\<lambda>(fd, resolution).
        go_return \<lparr>dd_first = dd_first d, dd_last = dd_last d, dd_frame_number = dd_frame_number d, dd_dependencies = Some fd,
          dd_resolution = resolution, dd_bitmask = bitmask, dd_attached = attached\<rparr>)))) (as @ (ms @ (ds @ []))) ?out"
        by (rule parses_then [OF e(2)]) (use p1 in \<open>simp only: prod.case known option.case fm\<close>)
      then have "parses (dd_parse buf (Some s)) (hs @ (as @ (ms @ (ds @ [])))) ?out"
        unfolding dd_parse_def if_P [OF b3] by (intro parses_then [OF hs(3)]) (simp only: prod.case)
      then show "parses (dd_parse buf (Some s)) (hs @ ((as @ ms) @ ds)) ?out" by simp
    qed
  next
    case False
    then have no: "dd_attached d = None" "dd_bitmask d = None" "tm_extra best = 0" "ds = []"
      "mask_received s d = None"
      using extra ds(1) by (auto simp: has_extended_fields_def mask_received_def)
    have fm: "flags = no_flags" "mask = None" using False by (simp_all add: flags_def mask_def)
    show ?thesis
    proof (rule that)
      show "emits (go_then (write_mandatory_fields s d best) (\<lambda>_. if has_extended_fields d best
          then go_then (write_extended_fields s d best) (\<lambda>_. write_frame_dependency_definition s active fd best)
          else go_return ())) (hs @ [])"
        unfolding if_not_P [OF False] by (rule emits_then [OF hs(1)]) (rule emits_return)
      show "int (length (hs @ [])) = value_size_bits s d best" using False no by (simp add: value_size_bits_def hs(2))
      fix buf :: "u8 list" assume buf: "length buf > 3 \<longleftrightarrow> has_extended_fields d best"
      then have b3: "\<not> length buf > 3" using False by simp
      have "parses (go_then (if df_active_targets no_flags
            then go_then (read_bits (fs_num_targets s)) (\<lambda>m. go_return (Some (ucast m))) else go_return None) (\<lambda>bitmask.
        go_then (read_frame_dependency_definition s no_flags ((int i + fs_id s) mod 64)) (\<lambda>(fd, resolution).
        go_return \<lparr>dd_first = dd_first d, dd_last = dd_last d, dd_frame_number = dd_frame_number d, dd_dependencies = Some fd,
          dd_resolution = resolution, dd_bitmask = bitmask, dd_attached = None\<rparr>))) ([] @ (ds @ [])) ?out"
      proof (rule parses_then)
        show "parses (if df_active_targets no_flags then go_then (read_bits (fs_num_targets s)) (\<lambda>m. go_return (Some (ucast m)))
            else go_return None) [] (None :: u32 option)" by (simp add: no_flags_def parses_return del: go_return_simp)
      qed (rule fin [unfolded fm no(1,5)])
      then have p: "parses (go_then (if df_active_targets no_flags
            then go_then (read_bits (fs_num_targets s)) (\<lambda>m. go_return (Some (ucast m))) else go_return None) (\<lambda>bitmask.
        go_then (read_frame_dependency_definition s no_flags ((int i + fs_id s) mod 64)) (\<lambda>(fd, resolution).
        go_return \<lparr>dd_first = dd_first d, dd_last = dd_last d, dd_frame_number = dd_frame_number d, dd_dependencies = Some fd,
          dd_resolution = resolution, dd_bitmask = bitmask, dd_attached = None\<rparr>))) [] ?out" unfolding no(4) by simp
      have "parses (go_then (go_return (no_flags, None, None)) (\<lambda>(flags, attached, bitmask).
        case (if attached \<noteq> None then attached else Some s) of
          None \<Rightarrow> go_invalidate ErrDDReaderNoStructure
        | Some z \<Rightarrow>
        go_then (if df_active_targets flags
            then go_then (read_bits (fs_num_targets z)) (\<lambda>m. go_return (Some (ucast m))) else go_return bitmask) (\<lambda>bitmask.
        go_then (read_frame_dependency_definition z flags ((int i + fs_id s) mod 64)) (\<lambda>(fd, resolution).
        go_return \<lparr>dd_first = dd_first d, dd_last = dd_last d, dd_frame_number = dd_frame_number d, dd_dependencies = Some fd,
          dd_resolution = resolution, dd_bitmask = bitmask, dd_attached = attached\<rparr>)))) ([] @ []) ?out"
        by (rule parses_then [OF parses_return]) (use p in \<open>simp only: prod.case option.case if_not_P not_not if_False simp_thms\<close>)
      then show "parses (dd_parse buf (Some s)) (hs @ []) ?out"
        unfolding dd_parse_def if_not_P [OF b3] by (intro parses_then [OF hs(3)]) (simp only: prod.case append_Nil)
    qed
  qed
qed

lemma go_then_assoc: "go_then (go_then m f) g = go_then m (\<lambda>x. go_then (f x) g)"
  by (rule ext) (simp add: go_then_def split: option.split sum.split prod.split)

lemma bytes_read_all:
  assumes "rd_ok r" "length (unread r) < 8"
  shows "bytes_read r = int (length (br_buf r))"
proof -
  define L rem where "L = int (length (br_buf r))" and "rem = br_remaining r"
  have b: "0 \<le> rem" "rem \<le> 8 * L" "int (br_pos r) = (8 * L - rem) div 8" using assms(1) by (simp_all add: rd_ok_def L_def rem_def)
  have "length (unread r) = nat rem" using b(1,2) by (simp add: unread_def rd_at_def L_def rem_def nat_diff_distrib')
  then have "rem < 8" using assms(2) by simp
  then have "(if rem > 0 \<and> rem mod 8 > 0 then (8 * L - rem) div 8 + 1 else (8 * L - rem) div 8) = L" using b(1) by presburger
  then show ?thesis unfolding bytes_read_def rem_def [symmetric] L_def [symmetric] b(3) .
qed

lemma marshal_unmarshal:
  assumes s: "fs_ok s" and d: "dd_sendable s d" and fd: "dd_dependencies d = Some fd"
    and best: "find_best_template s active fd = Inr best" "best = calculate_match s active fd i (fs_templates s ! i)"
    and i: "i < length (fs_templates s)"
  shows "\<exists>buf. dd_marshal_with_active_chains active d (Some s) = Some (Inr buf) \<and>
    dd_unmarshal buf (Some s) = Some (Inr (int (length buf), dd_received s active fd best d))"
proof -
  obtain bs where bs: "emits (go_then (write_mandatory_fields s d best) (\<lambda>_. if has_extended_fields d best
        then go_then (write_extended_fields s d best) (\<lambda>_. write_frame_dependency_definition s active fd best)
        else go_return ())) bs"
    "int (length bs) = value_size_bits s d best"
    "\<And>buf. length buf > 3 \<longleftrightarrow> has_extended_fields d best \<Longrightarrow>
       parses (dd_parse buf (Some s)) bs (dd_received s active fd best d)"
    using descriptor_bits [OF s d fd i best(2)] by blast
  define len where "len = (length bs + 7) div 8"
  have len: "nat ((value_size_bits s d best + 7) div 8) = len" "\<not> (value_size_bits s d best + 7) div 8 < 0"
    unfolding bs(2) [symmetric] len_def by (simp_all add: nat_div_distrib)
  define k where "k = 8 * len - length bs"
  have k: "k < 8" "length bs + k = 8 * len" unfolding k_def len_def by presburger+
  let ?w = "new_bit_writer (replicate len 0)"
  have w0: "wr_ok ?w" "wr_at ?w = 0" "length (bw_buf ?w) = len" "written ?w = []"
    by (simp_all add: new_bit_writer_def wr_ok_def wr_at_def written_def)
  then have "wr_at ?w + length bs \<le> 8 * length (bw_buf ?w)" using k(2) by simp
  with bs(1) w0 obtain w1 where w1: "go_then (write_mandatory_fields s d best) (\<lambda>_. if has_extended_fields d best
        then go_then (write_extended_fields s d best) (\<lambda>_. write_frame_dependency_definition s active fd best)
        else go_return ()) ?w = Some (w1, Inr ())" "wr_ok w1" "wr_at w1 = length bs" "length (bw_buf w1) = len" "written w1 = bs"
    unfolding emits_def by fastforce
  have "wr_at w1 + k = 8 * length (bw_buf w1)" using w1(3,4) k(2) by simp
  from padding_bits [OF w1(2) this k(1)] obtain w2 where w2: "write_padding w1 = Some (w2, Inr ())"
    "wr_at w2 = 8 * len" "length (bw_buf w2) = len" "written w2 = bs @ replicate k False" using w1(4,5) by auto
  have written: "dd_write s active d fd best ?w = Some (w2, Inr ())"
    unfolding dd_write_def go_then_assoc [symmetric] using w1(1) w2(1) by (simp add: go_then_simps(3))
  have marshal: "dd_marshal_with_active_chains active d (Some s) = Some (Inr (bw_buf w2))"
    unfolding dd_marshal_with_active_chains_def prod.case option.case fd best(1) sum.case Let_def len(1) if_not_P [OF len(2)] written unit.case by (rule refl)
  have bits: "bits_of (bw_buf w2) = bs @ replicate k False" using w2(2,3,4) by (simp add: written_def)
  obtain n where "int n = structure_size_bits s" by (rule codes_structure [OF s])
  then have nonneg: "0 \<le> (if dd_attached d \<noteq> None then structure_size_bits s else 0)" using of_nat_0_le_iff [of n] by simp
  have "frame_ok s fd" using d fd by (simp add: dd_sendable_def)
  then have extra: "0 \<le> tm_extra best" using match_extra(1) [OF s _ best(2)] by simp
  have targets: "0 \<le> (if should_write_bitmask s d then fs_num_targets s else 0)" using fs_okD(3) [OF s] by simp
  have "has_extended_fields d best \<longleftrightarrow> length bs > 24"
  proof (cases "has_extended_fields d best")
    case False
    then have "tm_extra best = 0" using extra by (simp add: has_extended_fields_def)
    then show ?thesis using False bs(2) by (simp add: value_size_bits_def)
  next
    case True
    have "value_size_bits s d best = 24 + tm_extra best + (5 + (if dd_attached d \<noteq> None then structure_size_bits s else 0) +
        (if should_write_bitmask s d then fs_num_targets s else 0))" using True unfolding value_size_bits_def by (simp only: if_True)
    then show ?thesis using True bs(2) nonneg extra targets by linarith
  qed
  then have "length (bw_buf w2) > 3 \<longleftrightarrow> has_extended_fields d best" unfolding w2(3) len_def by presburger
  from bs(3) [OF this] have p: "parses (dd_parse (bw_buf w2) (Some s)) bs (dd_received s active fd best d)" .
  have "unread (new_bit_reader (bw_buf w2)) = bs @ replicate k False" using new_reader_ok(3) bits by simp
  with p new_reader_ok obtain r where r: "dd_parse (bw_buf w2) (Some s) (new_bit_reader (bw_buf w2)) =
      Some (r, Inr (dd_received s active fd best d))" "rd_ok r" "br_buf r = bw_buf w2" "unread r = replicate k False"
    unfolding parses_def by metis
  have "bytes_read r = int (length (bw_buf w2))" using bytes_read_all [OF r(2)] r(3,4) k(1) by simp
  then have "dd_unmarshal (bw_buf w2) (Some s) = Some (Inr (int (length (bw_buf w2)), dd_received s active fd best d))"
    unfolding dd_unmarshal_def r(1) by simp
  with marshal show ?thesis by blast
qed

text \<open>
  What is received agrees with what was sent, except for the layer, which is that of the template,
  and the differences of chains that are not active.
\<close>

lemma as_received_chains:
  assumes s: "fs_ok s" and frame: "frame_ok s fd" and i: "i < length (fs_templates s)"
    and best: "best = calculate_match s active fd i (fs_templates s ! i)"
  shows "length (ft_chain_diffs (as_received s active fd best)) = length (ft_chain_diffs fd)"
    "k < length (ft_chain_diffs fd) \<Longrightarrow> bit active k \<Longrightarrow> ft_chain_diffs (as_received s active fd best) ! k = ft_chain_diffs fd ! k"
proof -
  define t where "t = fs_templates s ! i"
  have idx: "tm_idx best = i" unfolding best calculate_match_def Let_def by simp
  have n: "length (ft_chain_diffs fd) = nat (fs_num_chains s)" "length (ft_chain_diffs t) = nat (fs_num_chains s)"
    using frame fs_okD(9) [OF s, of t] i nat_int by (auto simp: frame_ok_def template_ok_def t_def)
  show "length (ft_chain_diffs (as_received s active fd best)) = length (ft_chain_diffs fd)"
    using n by (simp add: as_received_def active_chains_def idx t_def)
  assume k: "k < length (ft_chain_diffs fd)" "bit active k"
  have "ft_chain_diffs t ! k = ft_chain_diffs fd ! k" if "\<not> tm_custom_chains best"
    using that k n unfolding best calculate_match_def Let_def t_def [symmetric] by (auto simp: list_ex_iff)
  then show "ft_chain_diffs (as_received s active fd best) ! k = ft_chain_diffs fd ! k"
    using k by (simp add: as_received_def active_chains_def idx t_def)
qed

lemma as_received_all:
  assumes s: "fs_ok s" and frame: "frame_ok s fd" and i: "i < length (fs_templates s)"
    and best: "best = calculate_match s (- 1) fd i (fs_templates s ! i)"
  shows "as_received s (- 1) fd best =
    fd\<lparr>ft_spatial := ft_spatial (fs_templates s ! i), ft_temporal := ft_temporal (fs_templates s ! i)\<rparr>"
proof -
  let ?r = "as_received s (- 1) fd best"
  have idx: "tm_idx best = i" unfolding best calculate_match_def Let_def by simp
  have n: "length (ft_chain_diffs fd) \<le> 32" using frame fs_okD(4,6) [OF s] by (simp add: frame_ok_def)
  have "ft_chain_diffs ?r = ft_chain_diffs fd"
    by (rule nth_equalityI) (use as_received_chains [OF s frame i best] n in simp_all)
  moreover have "?r = fd\<lparr>ft_spatial := ft_spatial (fs_templates s ! i), ft_temporal := ft_temporal (fs_templates s ! i),
      ft_chain_diffs := ft_chain_diffs ?r\<rparr>" by (simp add: as_received_def idx)
  ultimately show ?thesis by simp
qed

text \<open>The descriptor with the layer of a template of the structure, and the resolution of that layer.\<close>

definition with_layer_of :: "fd_structure \<Rightarrow> nat \<Rightarrow> dd \<Rightarrow> dd" where
  "with_layer_of s i d = d\<lparr>dd_dependencies := map_option (\<lambda>fd. fd\<lparr>ft_spatial := ft_spatial (fs_templates s ! i),
       ft_temporal := ft_temporal (fs_templates s ! i)\<rparr>) (dd_dependencies d),
     dd_resolution := layer_resolution s (ft_spatial (fs_templates s ! i))\<rparr>"

lemma marshal_chosen:
  assumes s: "fs_ok s" and d: "dd_sendable s d" and fd: "dd_dependencies d = Some fd"
  obtains buf i where "dd_marshal d (Some s) = Some (Inr buf)" "template_chosen s (- 1) fd i"
    "dd_unmarshal buf (Some s) = Some (Inr (int (length buf), (with_layer_of s i d)\<lparr>dd_bitmask := mask_received s d\<rparr>))"
proof -
  have frame: "frame_ok s fd" using d fd by (simp add: dd_sendable_def)
  then have "list_ex (same_layer fd) (fs_templates s)" by (simp add: frame_ok_def)
  then obtain i where i: "template_chosen s (- 1) fd i"
    "find_best_template s (- 1) fd = Inr (calculate_match s (- 1) fd i (fs_templates s ! i))"
    by (rule find_best_template_chosen)
  let ?best = "calculate_match s (- 1) fd i (fs_templates s ! i)"
  have l: "i < length (fs_templates s)" using i(1) by (simp add: template_chosen_def)
  have "tm_idx ?best = i" by (simp add: calculate_match_def Let_def)
  then have "dd_received s (- 1) fd ?best d = (with_layer_of s i d)\<lparr>dd_bitmask := mask_received s d\<rparr>"
    using as_received_all [OF s frame l refl] fd by (simp add: dd_received_def with_layer_of_def)
  with that marshal_unmarshal [OF s d fd i(2) refl l] i(1) show thesis by (auto simp: dd_marshal_def)
qed

text \<open>When the chosen template is of the layer of the frame, nothing changes.\<close>

lemma dd_ok_resolution:
  "dd_ok s d \<Longrightarrow> dd_dependencies d = Some fd \<Longrightarrow> dd_resolution d = layer_resolution s (ft_spatial fd)"
  by (auto simp: dd_ok_def layer_resolution_def split: if_splits)

lemma with_layer_same:
  assumes res: "dd_resolution d = layer_resolution s (ft_spatial fd)" and fd: "dd_dependencies d = Some fd"
  shows "with_layer_of s i d = d \<longleftrightarrow> same_layer fd (fs_templates s ! i)"
proof
  assume "with_layer_of s i d = d"
  then have "dd_dependencies (with_layer_of s i d) = Some fd" using fd by simp
  then have "fd\<lparr>ft_spatial := ft_spatial (fs_templates s ! i), ft_temporal := ft_temporal (fs_templates s ! i)\<rparr> = fd"
    using fd by (simp add: with_layer_of_def)
  then show "same_layer fd (fs_templates s ! i)" by (cases fd) (simp add: same_layer_def)
next
  assume l: "same_layer fd (fs_templates s ! i)"
  have "fd\<lparr>ft_spatial := ft_spatial (fs_templates s ! i), ft_temporal := ft_temporal (fs_templates s ! i)\<rparr> = fd"
    using l by (cases fd) (simp add: same_layer_def)
  moreover have "d = d\<lparr>dd_dependencies := Some fd, dd_resolution := dd_resolution d\<rparr>" using fd by (cases d) simp
  ultimately show "with_layer_of s i d = d" using l fd res by (simp add: with_layer_of_def same_layer_def)
qed

lemma template_cost_nonneg: "fs_ok s \<Longrightarrow> frame_ok s fd \<Longrightarrow> 0 \<le> template_cost s active fd j"
  using match_extra(1) [of s fd "calculate_match s active fd j (fs_templates s ! j)" active j "fs_templates s ! j"]
  by (simp add: template_cost_def)

lemma chosen_same_layer:
  assumes "fs_ok s" "frame_ok s fd" "template_chosen s active fd i"
    and "template_cost s active fd (first_of_layer s fd) = 0 \<or> list_all (same_layer fd) (drop (first_of_layer s fd) (fs_templates s))"
  shows "same_layer fd (fs_templates s ! i)"
proof -
  let ?F = "first_of_layer s fd"
  have ex: "list_ex (same_layer fd) (fs_templates s)" using assms(2) by (simp add: frame_ok_def)
  note F = first_of_layer_facts [OF ex]
  have c: "template_candidate s fd i" "i < length (fs_templates s)" using assms(3) by (simp_all add: template_chosen_def)
  show ?thesis
  proof (cases "i = ?F")
    case False
    then have lt: "?F < i" "list_ex (\<lambda>t. \<not> same_layer fd t) (drop i (fs_templates s))" using c(1) by (simp_all add: template_candidate_def)
    have "template_candidate s fd ?F" by (simp add: template_candidate_def)
    then have "template_cost s active fd i < template_cost s active fd ?F"
      using assms(3) F(1) lt(1) by (fastforce simp: template_chosen_def list_all_iff)
    then have "list_all (same_layer fd) (drop ?F (fs_templates s))"
      using assms(4) template_cost_nonneg [OF assms(1,2), of active i] by auto
    moreover have "drop ?F (fs_templates s) ! (i - ?F) = fs_templates s ! i" "i - ?F < length (drop ?F (fs_templates s))"
      using lt(1) c(2) by simp_all
    ultimately show ?thesis unfolding list_all_length by metis
  qed (simp add: F(2))
qed

text \<open>
  C10. A well-formed descriptor of a frame, whether it carries a structure, custom indications,
  differences or chains, or a bit mask, is marshalled without error, and the bytes are read back,
  all of them, as the same descriptor except for its layer, which is that of the template that
  the writer chooses (with the resolution of that layer): among the first template of the layer
  of the frame and those after it up to the last one of another layer, the first one that needs
  the fewest extra bits.  So the same descriptor is read back if and only if that template is of
  the layer of the frame, and this is always so when the first template of the layer needs no
  extra bits, and when no template of another layer follows it.
\<close>

theorem dd_round_trip:
  assumes "fs_ok s" "dd_ok s d" "dd_dependencies d = Some fd"
  shows "\<exists>buf i d'. dd_marshal d (Some s) = Some (Inr buf) \<and> dd_unmarshal buf (Some s) = Some (Inr (int (length buf), d')) \<and>
    template_chosen s (- 1) fd i \<and> d' = with_layer_of s i d \<and> (d' = d \<longleftrightarrow> same_layer fd (fs_templates s ! i)) \<and>
    (template_cost s (- 1) fd (first_of_layer s fd) = 0 \<or>
     list_all (same_layer fd) (drop (first_of_layer s fd) (fs_templates s)) \<longrightarrow> d' = d)"
proof -
  have frame: "frame_ok s fd" using assms(2,3) by (simp add: dd_ok_def)
  obtain buf i where m: "dd_marshal d (Some s) = Some (Inr buf)" "template_chosen s (- 1) fd i"
    "dd_unmarshal buf (Some s) = Some (Inr (int (length buf), (with_layer_of s i d)\<lparr>dd_bitmask := mask_received s d\<rparr>))"
    by (rule marshal_chosen [OF assms(1) dd_ok_sendable [OF assms(2)] assms(3)])
  have "(with_layer_of s i d)\<lparr>dd_bitmask := mask_received s d\<rparr> = with_layer_of s i d"
    by (simp add: dd_ok_mask [OF assms(2)] with_layer_of_def)
  with m chosen_same_layer [OF assms(1) frame m(2)] with_layer_same [OF dd_ok_resolution [OF assms(2,3)] assms(3), of i] show ?thesis by auto
qed

definition example_template :: fd_template where
  "example_template = \<lparr>ft_spatial = 0, ft_temporal = 0, ft_dtis = [DecodeTargetSwitch, DecodeTargetSwitch], ft_frame_diffs = [], ft_chain_diffs = [0]\<rparr>"

definition example_upper :: fd_template where
  "example_upper = \<lparr>ft_spatial = 0, ft_temporal = 1, ft_dtis = [DecodeTargetNotPresent, DecodeTargetRequired], ft_frame_diffs = [1], ft_chain_diffs = [1]\<rparr>"

definition example_structure :: fd_structure where
  "example_structure = \<lparr>fs_id = 3, fs_num_targets = 2, fs_num_chains = 1, fs_protected = [0, 0],
     fs_resolutions = [\<lparr>rr_width = 640, rr_height = 360\<rparr>], fs_templates = [example_template, example_upper]\<rparr>"

definition example_frame :: dd where
  "example_frame = \<lparr>dd_first = True, dd_last = False, dd_frame_number = 4660,
     dd_dependencies = Some (example_template\<lparr>ft_frame_diffs := [300], ft_chain_diffs := [17]\<rparr>),
     dd_resolution = Some \<lparr>rr_width = 640, rr_height = 360\<rparr>, dd_bitmask = Some 2, dd_attached = Some example_structure\<rparr>"

lemma example_structure_ok: "fs_ok example_structure"
  by (simp add: fs_ok_def example_structure_def example_template_def example_upper_def template_ok_def max_templates_def
      max_spatial_ids_def max_temporal_ids_def get_next_layer_idc_def)

theorem dd_round_trip_witness:
  "\<exists>buf. dd_marshal example_frame (Some example_structure) = Some (Inr buf) \<and>
    dd_unmarshal buf (Some example_structure) = Some (Inr (int (length buf), example_frame))"
proof -
  let ?fd = "example_template\<lparr>ft_frame_diffs := [300], ft_chain_diffs := [17]\<rparr>"
  have fd: "dd_dependencies example_frame = Some ?fd" by (simp add: example_frame_def)
  have d: "dd_ok example_structure example_frame"
    by (simp add: dd_ok_def example_structure_def example_frame_def example_template_def frame_ok_def same_layer_def)
  have only: "i = 0" if "template_chosen example_structure (- 1) ?fd i" for i
  proof -
    have f: "first_of_layer example_structure ?fd = 0" "template_candidate example_structure ?fd 0" by code_simp+
    have c: "template_cost example_structure (- 1) ?fd 0 < template_cost example_structure (- 1) ?fd 1" by code_simp
    then have "\<not> template_chosen example_structure (- 1) ?fd 1"
      using f(2) by (auto simp: template_chosen_def list_all_iff example_structure_def)
    moreover have "i < 2" using that by (simp add: template_chosen_def example_structure_def)
    ultimately show ?thesis using that by (cases "i = 1") auto
  qed
  have l: "same_layer ?fd (fs_templates example_structure ! 0)" by code_simp
  obtain buf i d' where m: "dd_marshal example_frame (Some example_structure) = Some (Inr buf)"
    "dd_unmarshal buf (Some example_structure) = Some (Inr (int (length buf), d'))"
    "template_chosen example_structure (- 1) ?fd i" "d' = example_frame \<longleftrightarrow> same_layer ?fd (fs_templates example_structure ! i)"
    using dd_round_trip [OF example_structure_ok d fd] by blast
  have "d' = example_frame" using m(4) l only [OF m(3)] by simp
  with m(1,2) show ?thesis by blast
qed

text \<open>
  The template may be of another layer: the search goes up to the last template of another layer, and
  takes a template of another layer when it costs fewer bits.  A frame of the lower temporal layer
  with the indications and differences of the upper one is sent as a frame of the upper one.
\<close>

lemma best_template_of_another_layer:
  "\<exists>best. find_best_template example_structure (- 1) (example_upper\<lparr>ft_temporal := 0\<rparr>) = Inr best \<and> tm_idx best = 1 \<and>
    \<not> same_layer (example_upper\<lparr>ft_temporal := 0\<rparr>) (fs_templates example_structure ! tm_idx best)"
proof (intro exI conjI)
  let ?fd = "example_upper\<lparr>ft_temporal := 0\<rparr>"
  let ?best = "calculate_match example_structure (- 1) ?fd 1 example_upper"
  show "find_best_template example_structure (- 1) ?fd = Inr ?best" by code_simp
  show "tm_idx ?best = 1" by code_simp
  show "\<not> same_layer ?fd (fs_templates example_structure ! tm_idx ?best)" by code_simp
qed

end
