(* ===== verification/Dd_Parser.thy ===== *)
theory Dd_Parser
  imports Dd_Reading Wrap_Around Ext_Packet "HOL-Library.Multiset"
begin

text \<open>
  What arrives with the packets of a layered stream
  (\<open>DependencyDescriptorParser\<close> in \<open>pkg/sfu/buffer/dependencydescriptorparser.go\<close> and
  \<open>FrameIntegrityChecker\<close> in \<open>pkg/sfu/buffer/frameintegrity.go\<close>): which packets of a frame have
  come, the current structure, the layers of its decode targets, the extended frame numbers.

  The extension of a packet, read by an external package, and the time are arguments; the call of
  \<open>onMaxLayerChanged\<close> is a value that is returned.  \<open>slices.SortFunc\<close> leaves the order of equal
  elements open, so the function that sorts is an argument too.
\<close>

section \<open>The packets received\<close>

record packet_history =
  ph_base :: u64
  ph_last :: u64
  ph_bits :: "u64 list"
  ph_count :: nat
  ph_inited :: bool

definition new_packet_history :: "nat \<Rightarrow> packet_history" where
  "new_packet_history packet_count =
    (let n = (packet_count + 63) div 64 * 64 in
     \<lparr>ph_base = 0, ph_last = 0, ph_bits = replicate (n div 64) 0, ph_count = n, ph_inited = False\<rparr>)"

definition ph_pos :: "packet_history \<Rightarrow> u64 \<Rightarrow> nat \<times> nat" where
  "ph_pos ph seq = (let idx = (seq - ph_base ph) mod of_nat (ph_count ph) in (unat (drop_bit 6 idx), unat (idx mod 64)))"

definition ph_set :: "u64 \<Rightarrow> bool \<Rightarrow> packet_history \<Rightarrow> packet_history option" where
  "ph_set seq received ph = (case ph_pos ph seq of (i, offset) \<Rightarrow> do {
     m \<leftarrow> go_nth (ph_bits ph) (int i);
     bits \<leftarrow> go_update (ph_bits ph) (int i) (if received then m OR push_bit offset 1 else m AND NOT (push_bit offset 1));
     Some (ph\<lparr>ph_bits := bits\<rparr>) })"

text \<open>The loop that clears \<open>n\<close> packets from \<open>seq\<close> on.\<close>

fun ph_clear :: "nat \<Rightarrow> u64 \<Rightarrow> packet_history \<Rightarrow> packet_history option" where
  "ph_clear 0 seq ph = Some ph"
| "ph_clear (Suc n) seq ph = do { ph' \<leftarrow> ph_set seq False ph; ph_clear n (seq + 1) ph' }"

definition ph_add :: "u64 \<Rightarrow> packet_history \<Rightarrow> packet_history option" where
  "ph_add seq ph =
    (if \<not> ph_inited ph
     then ph_set seq True (ph\<lparr>ph_inited := True, ph_base := (if seq > 100 then seq - 100 else 0), ph_last := seq\<rparr>)
     else if seq \<le> ph_base ph then Some ph
     else if seq \<le> ph_last ph then
       (if ph_last ph - seq < of_nat (ph_count ph) then ph_set seq True ph else Some ph)
     else do {
       ph1 \<leftarrow> ph_clear (unat (seq - (ph_last ph + 1))) (ph_last ph + 1) ph;
       ph2 \<leftarrow> ph_set seq True ph1;
       Some (ph2\<lparr>ph_last := seq\<rparr>) })"

text \<open>
  The words strictly between two positions of the ring are full.  The fuel is more than the number
  of words.
\<close>

fun words_full :: "nat \<Rightarrow> nat \<Rightarrow> nat \<Rightarrow> u64 list \<Rightarrow> bool option" where
  "words_full 0 i stop bits = None"
| "words_full (Suc n) i stop bits =
    (if i = stop then Some True
     else let j = (if i = length bits then 0 else i)
     in if i = length bits \<and> j = stop then Some True
     else do {
       m \<leftarrow> go_nth bits (int j);
       if m + 1 \<noteq> 0 then Some False else words_full n (j + 1) stop bits })"

definition packets_consecutive :: "packet_history \<Rightarrow> u64 \<Rightarrow> u64 \<Rightarrow> bool option" where
  "packets_consecutive ph start stop =
    (if start > stop then Some False
     else if stop - start \<ge> of_nat (ph_count ph) then Some False
     else
       let (si, so) = ph_pos ph start; (ei, eo) = ph_pos ph stop in
       if si = ei \<and> stop - start \<le> 64 then
         (if eo + 1 < so then None
          else do {
            m \<leftarrow> go_nth (ph_bits ph) (int si);
            let test = push_bit so (push_bit (eo + 1 - so) 1 - 1);
            Some (m AND test = test) })
       else do {
         m \<leftarrow> go_nth (ph_bits ph) (int si);
         if drop_bit so m + 1 \<noteq> push_bit (64 - so) 1 then Some False
         else do {
           full \<leftarrow> words_full (length (ph_bits ph) + 2) (si + 1) ei (ph_bits ph);
           if \<not> full then Some False
           else do {
             e \<leftarrow> go_nth (ph_bits ph) (int ei);
             let test = push_bit (eo + 1) 1 - 1;
             Some (e AND test = test) } } })"

section \<open>The frames\<close>

record frame_entity =
  fe_start :: "u64 option"
  fe_end :: "u64 option"
  fe_integrity :: bool

definition frame_entity_reset :: frame_entity where
  "frame_entity_reset = \<lparr>fe_start = None, fe_end = None, fe_integrity = False\<rparr>"

definition fe_add :: "packet_history \<Rightarrow> u64 \<Rightarrow> dd \<Rightarrow> frame_entity \<Rightarrow> frame_entity option" where
  "fe_add ph seq d fe =
    (if fe_integrity fe then Some fe
     else
       let fe1 = (if fe_start fe = None \<and> dd_first d then fe\<lparr>fe_start := Some seq\<rparr> else fe);
           fe2 = (if fe_end fe1 = None \<and> dd_last d then fe1\<lparr>fe_end := Some seq\<rparr> else fe1)
       in case (fe_start fe2, fe_end fe2) of
         (Some a, Some b) \<Rightarrow> do {
           full \<leftarrow> packets_consecutive ph a b;
           Some (if full then fe2\<lparr>fe_integrity := True\<rparr> else fe2) }
       | _ \<Rightarrow> Some fe2)"

record frame_checker =
  fk_count :: nat
  fk_frames :: "frame_entity list"
  fk_base :: u64
  fk_last :: u64
  fk_history :: packet_history
  fk_inited :: bool

definition new_frame_checker :: "nat \<Rightarrow> nat \<Rightarrow> frame_checker" where
  "new_frame_checker frame_count packet_count =
    \<lparr>fk_count = frame_count, fk_frames = replicate frame_count frame_entity_reset, fk_base = 0, fk_last = 0,
     fk_history = new_packet_history packet_count, fk_inited = False\<rparr>"

text \<open>\<open>int(extFrameNum-fc.base) % fc.frameCount\<close>.\<close>

definition fk_slot :: "frame_checker \<Rightarrow> u64 \<Rightarrow> int" where
  "fk_slot fc e = go_rem (sint (e - fk_base fc)) (int (fk_count fc))"

definition fk_add_to_frame :: "u64 \<Rightarrow> u64 \<Rightarrow> dd \<Rightarrow> frame_checker \<Rightarrow> frame_checker option" where
  "fk_add_to_frame seq e d fc = do {
     fe \<leftarrow> go_nth (fk_frames fc) (fk_slot fc e);
     fe' \<leftarrow> fe_add (fk_history fc) seq d fe;
     frames \<leftarrow> go_update (fk_frames fc) (fk_slot fc e) fe';
     Some (fc\<lparr>fk_frames := frames\<rparr>) }"

fun fk_reset :: "nat \<Rightarrow> u64 \<Rightarrow> frame_checker \<Rightarrow> frame_checker option" where
  "fk_reset 0 e fc = Some fc"
| "fk_reset (Suc n) e fc = do {
     frames \<leftarrow> go_update (fk_frames fc) (fk_slot fc e) frame_entity_reset;
     fk_reset n (e + 1) (fc\<lparr>fk_frames := frames\<rparr>) }"

definition fk_add :: "u64 \<Rightarrow> u64 \<Rightarrow> dd \<Rightarrow> frame_checker \<Rightarrow> frame_checker option" where
  "fk_add seq e d fc0 = do {
     ph \<leftarrow> ph_add seq (fk_history fc0);
     let fc1 = fc0\<lparr>fk_history := ph\<rparr>;
     let fc = (if \<not> fk_inited fc1 then fc1\<lparr>fk_inited := True, fk_base := e, fk_last := e\<rparr> else fc1);
     if e < fk_base fc then Some fc
     else if e \<le> fk_last fc then
       (if fk_last fc - e \<ge> of_nat (fk_count fc) then Some fc else fk_add_to_frame seq e d fc)
     else do {
       fc2 \<leftarrow> fk_reset (unat (e + 1 - (fk_last fc + 1))) (fk_last fc + 1) fc;
       fc3 \<leftarrow> fk_add_to_frame seq e d fc2;
       Some (fc3\<lparr>fk_last := e\<rparr>) } }"

definition frame_integrity :: "frame_checker \<Rightarrow> u64 \<Rightarrow> bool option" where
  "frame_integrity fc e =
    (if e < fk_base fc \<or> e > fk_last fc \<or> fk_last fc - e \<ge> of_nat (fk_count fc) then Some False
     else map_option fe_integrity (go_nth (fk_frames fc) (fk_slot fc e)))"

section \<open>Decode targets\<close>

record decode_target_layer =
  dl_target :: nat
  dl_layer :: video_layer

definition target_layer :: "fd_template list \<Rightarrow> nat \<Rightarrow> video_layer option" where
  "target_layer ts target = fold (\<lambda>t acc. do {
     l \<leftarrow> acc;
     x \<leftarrow> go_nth (ft_dtis t) (int target);
     Some (if x \<noteq> DecodeTargetNotPresent
       then VideoLayer (max (vl_spatial l) (ft_spatial t)) (max (vl_temporal l) (ft_temporal t)) else l) }) ts (Some (VideoLayer 0 0))"

fun all_some :: "'a option list \<Rightarrow> 'a list option" where
  "all_some [] = Some []"
| "all_some (x # xs) = do { y \<leftarrow> x; ys \<leftarrow> all_some xs; Some (y # ys) }"

definition process_frame_dependency_structure ::
  "(decode_target_layer list \<Rightarrow> decode_target_layer list) \<Rightarrow> fd_structure \<Rightarrow> decode_target_layer list option" where
  "process_frame_dependency_structure sort_desc s =
    map_option sort_desc (all_some (map (\<lambda>target.
      map_option (\<lambda>l. \<lparr>dl_target = target, dl_layer = l\<rparr>) (target_layer (fs_templates s) target)) [0..<nat (fs_num_targets s)]))"

definition within_layer :: "video_layer \<Rightarrow> video_layer \<Rightarrow> bool" where
  "within_layer a b \<longleftrightarrow> vl_spatial a \<le> vl_spatial b \<and> vl_temporal a \<le> vl_temporal b"

definition get_active_decode_target_bitmask :: "video_layer \<Rightarrow> decode_target_layer list \<Rightarrow> u32" where
  "get_active_decode_target_bitmask layer targets =
    fold (\<lambda>dt m. if within_layer (dl_layer dt) layer then m OR push_bit (dl_target dt) 1 else m) targets 0"

section \<open>The parser\<close>

record ext_dd =
  ed_descriptor :: dd
  ed_targets :: "decode_target_layer list"
  ed_structure_updated :: bool
  ed_active_updated :: bool
  ed_integrity :: bool
  ed_frame_num :: u64
  ed_key_frame_num :: u64
  ed_restart_generation :: int

datatype parse_err =
    ErrDDExtentionNotFound
  | ErrUnmarshal dd_err
  | ErrFrameEarlierThanKeyFrame
  | ErrDDStructureAttachedToNonFirstPacket

record dd_parser =
  pr_structure :: "fd_structure option"
  pr_targets :: "decode_target_layer list"
  pr_seq :: "(u16, u64) wrap_around"
  pr_frame :: "(u16, u64) wrap_around"
  pr_structure_frame :: u64
  pr_active_seq :: u64
  pr_active_mask :: u32
  pr_checker :: frame_checker
  pr_restart_generation :: int
  pr_enable_restart :: bool
  pr_last_packet_at :: "int option"

definition integrity_check_frame :: nat where "integrity_check_frame = 180"
definition integrity_check_pkt :: nat where "integrity_check_pkt = 1024"

text \<open>In nanoseconds.\<close>

definition dd_restart_threshold :: int where "dd_restart_threshold = 30000000000"

definition new_dd_parser :: "bool \<Rightarrow> dd_parser" where
  "new_dd_parser enable_restart =
    \<lparr>pr_structure = None, pr_targets = [], pr_seq = new_wrap_around False, pr_frame = new_wrap_around False,
     pr_structure_frame = 0, pr_active_seq = 0, pr_active_mask = 0,
     pr_checker = new_frame_checker integrity_check_frame integrity_check_pkt,
     pr_restart_generation = 0, pr_enable_restart = enable_restart, pr_last_packet_at = None\<rparr>"

definition parser_restart :: "dd_parser \<Rightarrow> dd_parser" where
  "parser_restart r = r\<lparr>pr_checker := new_frame_checker integrity_check_frame integrity_check_pkt, pr_structure := None,
     pr_structure_frame := 0, pr_active_seq := 0, pr_active_mask := 0, pr_targets := [],
     pr_restart_generation := pr_restart_generation r + 1\<rparr>"

text \<open>The detection of a restart; the clock is read once.\<close>

definition maybe_restart :: "int \<Rightarrow> dd_parser \<Rightarrow> dd_parser \<times> bool" where
  "maybe_restart now r =
    (if pr_enable_restart r then
       let due = (case pr_last_packet_at r of None \<Rightarrow> False | Some t \<Rightarrow> now - t > dd_restart_threshold)
       in ((if due then parser_restart r else r)\<lparr>pr_last_packet_at := Some now\<rparr>, due)
     else (r, False))"

text \<open>A structure that is attached.\<close>

definition parser_structure ::
  "(decode_target_layer list \<Rightarrow> decode_target_layer list) \<Rightarrow> fd_structure \<Rightarrow> u64 \<Rightarrow> dd_parser \<times> ext_dd \<Rightarrow> (dd_parser \<times> ext_dd) option" where
  "parser_structure sort_desc s ext_fn x = (case x of (r, e) \<Rightarrow> do {
     targets \<leftarrow> process_frame_dependency_structure sort_desc s;
     Some (r\<lparr>pr_structure := Some s, pr_targets := targets, pr_structure_frame := ext_fn\<rparr>,
           e\<lparr>ed_structure_updated := True, ed_active_updated := True\<rparr>) })"

definition max_active_layer :: "u32 \<Rightarrow> decode_target_layer list \<Rightarrow> int \<times> int" where
  "max_active_layer msk targets = fold (\<lambda>dt (s, t). if bit msk (dl_target dt)
     then (max s (vl_spatial (dl_layer dt)), max t (vl_temporal (dl_layer dt))) else (s, t)) targets (0, 0)"

text \<open>A bit mask that arrives, and the call of \<open>onMaxLayerChanged\<close>.\<close>

definition parser_mask :: "u64 \<Rightarrow> dd_parser \<times> ext_dd \<Rightarrow> (dd_parser \<times> ext_dd) \<times> (int \<times> int) option" where
  "parser_mask ext_seq x = (case x of (r, e) \<Rightarrow> (case dd_bitmask (ed_descriptor e) of
     Some msk \<Rightarrow>
       if ext_seq > pr_active_seq r then
         let r1 = r\<lparr>pr_active_seq := ext_seq\<rparr>
         in if msk \<noteq> pr_active_mask r
           then ((r1\<lparr>pr_active_mask := msk\<rparr>, e\<lparr>ed_active_updated := True\<rparr>), Some (max_active_layer msk (pr_targets r)))
           else ((r1, e), None)
       else ((r, e), None)
   | None \<Rightarrow> ((r, e), None)))"

text \<open>\<open>Parse\<close>, after the descriptor has been read.\<close>

definition parser_frame ::
  "(decode_target_layer list \<Rightarrow> decode_target_layer list) \<Rightarrow> int \<Rightarrow> u16 \<Rightarrow> dd \<Rightarrow> dd_parser \<Rightarrow>
   (dd_parser \<times> (parse_err + ext_dd) \<times> (int \<times> int) option) option" where
  "parser_frame sort_desc now sn d r0 =
    (let (r1, restart) = maybe_restart now r0;
         (seq', sres) = wa_update (pr_seq r1) sn;
         (frame', fres) = update_with_order_known (pr_frame r1) (dd_frame_number d) restart;
         ext_seq = wr_ext_val sres;
         ext_fn = wr_ext_val fres;
         r2 = r1\<lparr>pr_seq := seq', pr_frame := frame'\<rparr>
     in if ext_fn < pr_structure_frame r2 then Some (r2, Inl ErrFrameEarlierThanKeyFrame, None)
     else do {
       checker \<leftarrow> fk_add ext_seq ext_fn d (pr_checker r2);
       integrity \<leftarrow> frame_integrity checker ext_fn;
       let r3 = r2\<lparr>pr_checker := checker\<rparr>;
       let e = \<lparr>ed_descriptor = d, ed_targets = [], ed_structure_updated = False, ed_active_updated = False,
         ed_integrity = integrity, ed_frame_num = ext_fn, ed_key_frame_num = 0,
         ed_restart_generation = pr_restart_generation r3\<rparr>;
       if dd_attached d \<noteq> None \<and> \<not> dd_first d
       then Some (r3, Inl ErrDDStructureAttachedToNonFirstPacket, None)
       else do {
         x \<leftarrow> (case dd_attached d of None \<Rightarrow> Some (r3, e) | Some s \<Rightarrow> parser_structure sort_desc s ext_fn (r3, e));
         let ((r4, e4), changed) = parser_mask ext_seq x;
         Some (r4, Inr (e4\<lparr>ed_targets := pr_targets r4, ed_key_frame_num := pr_structure_frame r4\<rparr>), changed) } })"

text \<open>
  \<open>Parse\<close>: the layer of the packet is that of the dependencies once the descriptor has been read,
  and the lowest one before.
\<close>

definition parser_parse ::
  "(decode_target_layer list \<Rightarrow> decode_target_layer list) \<Rightarrow> int \<Rightarrow> u16 \<Rightarrow> u8 list option \<Rightarrow> dd_parser \<Rightarrow>
   (dd_parser \<times> video_layer \<times> (parse_err + ext_dd) \<times> (int \<times> int) option) option" where
  "parser_parse sort_desc now sn ext r = (case ext of
     None \<Rightarrow> Some (r, VideoLayer 0 0, Inl ErrDDExtentionNotFound, None)
   | Some buf \<Rightarrow> (case dd_unmarshal buf (pr_structure r) of
       None \<Rightarrow> None
     | Some (Inl e) \<Rightarrow> Some (r, VideoLayer 0 0, Inl (ErrUnmarshal e), None)
     | Some (Inr (n, d)) \<Rightarrow> do {
         (r', res, changed) \<leftarrow> parser_frame sort_desc now sn d r;
         Some (r', (case dd_dependencies d of None \<Rightarrow> VideoLayer 0 0 | Some fd \<Rightarrow> VideoLayer (ft_spatial fd) (ft_temporal fd)), res, changed) }))"

section \<open>Consecutive packets\<close>

text \<open>
  The ring: its length in words is at least two, and divides the range of sequence numbers, so that
  neighbours have neighbouring places.
\<close>

definition ph_ok :: "packet_history \<Rightarrow> bool" where
  "ph_ok ph \<longleftrightarrow> 2 \<le> length (ph_bits ph) \<and> ph_count ph = 64 * length (ph_bits ph) \<and> ph_count ph dvd 2 ^ 64 \<and> ph_count ph < 2 ^ 16"

definition ph_place :: "packet_history \<Rightarrow> u64 \<Rightarrow> nat" where
  "ph_place ph seq = unat (seq - ph_base ph) mod ph_count ph"

definition place_set :: "u64 list \<Rightarrow> nat \<Rightarrow> bool" where
  "place_set bits p \<longleftrightarrow> bit (bits ! (p div 64)) (p mod 64)"

definition ph_has :: "packet_history \<Rightarrow> u64 \<Rightarrow> bool" where
  "ph_has ph seq \<longleftrightarrow> place_set (ph_bits ph) (ph_place ph seq)"

lemma ph_pos_place:
  assumes "ph_ok ph"
  shows "ph_pos ph seq = (ph_place ph seq div 64, ph_place ph seq mod 64)" "ph_place ph seq div 64 < length (ph_bits ph)"
    "ph_place ph seq < ph_count ph"
proof -
  have "ph_count ph < 2 ^ 16" "0 < ph_count ph" using assms by (auto simp: ph_ok_def)
  then have c: "unat (of_nat (ph_count ph) :: u64) = ph_count ph" "0 < ph_count ph"
    by (simp_all add: unat_of_nat take_bit_nat_eq_self)
  define idx where "idx = (seq - ph_base ph) mod of_nat (ph_count ph)"
  have u: "unat idx = ph_place ph seq" unfolding idx_def by (simp only: unat_mod c ph_place_def)
  have "unat (drop_bit 6 idx) = drop_bit 6 (unat idx)" by (rule unat_drop_bit_eq)
  then have "unat (drop_bit 6 idx) = unat idx div 64" by (simp only: drop_bit_eq_div) simp
  moreover have "unat (idx mod 64) = unat idx mod 64" by (simp only: unat_mod) simp
  ultimately show "ph_pos ph seq = (ph_place ph seq div 64, ph_place ph seq mod 64)"
    unfolding ph_pos_def Let_def idx_def [symmetric] u by simp
  show p: "ph_place ph seq < ph_count ph" using c(2) by (simp add: ph_place_def)
  then show "ph_place ph seq div 64 < length (ph_bits ph)" using assms by (simp add: ph_ok_def less_mult_imp_div_less mult.commute)
qed

lemma ph_place_next:
  assumes "ph_ok ph"
  shows "ph_place ph (seq + of_nat j) = (ph_place ph seq + j) mod ph_count ph"
proof -
  have d: "ph_count ph dvd 2 ^ 64" using assms unfolding ph_ok_def by blast
  have "seq + of_nat j - ph_base ph = (seq - ph_base ph) + of_nat j" by simp
  then have "unat (seq + of_nat j - ph_base ph) = (unat (seq - ph_base ph) + j mod 2 ^ 64) mod 2 ^ 64"
    by (simp only: unat_word_ariths unat_of_nat take_bit_eq_mod len_of_numeral_defs) simp
  then have "unat (seq + of_nat j - ph_base ph) mod ph_count ph = (unat (seq - ph_base ph) + j mod 2 ^ 64) mod ph_count ph"
    using mod_mod_cancel [OF d] by simp
  also have "\<dots> = (unat (seq - ph_base ph) + j) mod ph_count ph"
    by (metis mod_add_right_eq mod_mod_cancel [OF d])
  finally show ?thesis by (simp add: ph_place_def mod_add_left_eq)
qed

definition word_full :: "u64 list \<Rightarrow> nat \<Rightarrow> bool" where
  "word_full bits w \<longleftrightarrow> (\<forall>z < 64. bit (bits ! w) z)"

lemma full_word: "m + 1 = (0 :: u64) \<longleftrightarrow> (\<forall>z < 64. bit m z)"
proof -
  have "m + 1 = 0 \<longleftrightarrow> m = - 1" by (metis add_eq_0_iff2)
  also have "\<dots> \<longleftrightarrow> (\<forall>z < 64. bit m z)" by (auto simp: bit_eq_iff bit_minus_1_iff)
  finally show ?thesis .
qed

lemma word_full_iff: "bits ! w + 1 = 0 \<longleftrightarrow> word_full bits w"
  by (simp add: full_word word_full_def)

lemma words_full_up:
  "i \<le> stop \<Longrightarrow> stop < length bits \<Longrightarrow> stop - i < n \<Longrightarrow>
   words_full n i stop bits = Some (\<forall>w. i \<le> w \<and> w < stop \<longrightarrow> word_full bits w)"
proof (induction n arbitrary: i)
  case (Suc n)
  show ?case
  proof (cases "i = stop")
    case True
    then show ?thesis by (simp del: words_full.simps(1)) auto
  next
    case False
    then have i: "Suc i \<le> stop" "i < length bits" "stop - Suc i < n" using Suc.prems by simp_all
    have split: "(\<forall>w. i \<le> w \<and> w < stop \<longrightarrow> word_full bits w) \<longleftrightarrow> word_full bits i \<and> (\<forall>w. Suc i \<le> w \<and> w < stop \<longrightarrow> word_full bits w)"
      using i(1) by (metis Suc_le_eq le_neq_implies_less less_or_eq_imp_le)
    have "words_full (Suc n) i stop bits = (if word_full bits i then words_full n (Suc i) stop bits else Some False)"
      using i False by (simp add: word_full_iff Let_def)
    then show ?thesis using Suc.IH [OF i(1) Suc.prems(2) i(3)] unfolding split by simp
  qed
qed simp

lemma words_full_around:
  "stop < i \<Longrightarrow> i \<le> length bits \<Longrightarrow> length bits - i + stop + 1 < n \<Longrightarrow>
   words_full n i stop bits = Some (\<forall>w. (i \<le> w \<and> w < length bits \<or> w < stop) \<longrightarrow> word_full bits w)"
proof (induction n arbitrary: i)
  case (Suc n)
  show ?case
  proof (cases "i = length bits")
    case True
    show ?thesis
    proof (cases "stop = 0")
      case True
      then show ?thesis using \<open>i = length bits\<close> Suc.prems(1) by auto
    next
      case False
      have "words_full n 1 stop bits = Some (\<forall>w. 1 \<le> w \<and> w < stop \<longrightarrow> word_full bits w)"
        using False Suc.prems \<open>i = length bits\<close> by (intro words_full_up) auto
      moreover have "(\<forall>w. w < stop \<longrightarrow> word_full bits w) \<longleftrightarrow> word_full bits 0 \<and> (\<forall>w. 1 \<le> w \<and> w < stop \<longrightarrow> word_full bits w)"
        using False by (metis One_nat_def Suc_le_eq neq0_conv)
      moreover have "words_full (Suc n) i stop bits = (if word_full bits 0 then words_full n 1 stop bits else Some False)"
        using \<open>i = length bits\<close> False Suc.prems(1)
          by (cases "bits = []") (simp_all add: go_nth_def word_full_iff Let_def)
      moreover have "(\<forall>w. (i \<le> w \<and> w < length bits \<or> w < stop) \<longrightarrow> word_full bits w) \<longleftrightarrow> (\<forall>w. w < stop \<longrightarrow> word_full bits w)"
        using \<open>i = length bits\<close> by auto
      ultimately show ?thesis by simp
    qed
  next
    case False
    then have i: "stop < Suc i" "Suc i \<le> length bits" "length bits - Suc i + stop + 1 < n" using Suc.prems by simp_all
    have "(\<forall>w. (i \<le> w \<and> w < length bits \<or> w < stop) \<longrightarrow> word_full bits w) \<longleftrightarrow>
        word_full bits i \<and> (\<forall>w. (Suc i \<le> w \<and> w < length bits \<or> w < stop) \<longrightarrow> word_full bits w)"
      using i(2) by (metis Suc_le_eq le_neq_implies_less less_or_eq_imp_le)
    moreover have "words_full (Suc n) i stop bits = (if word_full bits i then words_full n (Suc i) stop bits else Some False)"
      using i False Suc.prems(1) by (simp add: word_full_iff Let_def)
    ultimately show ?thesis using Suc.IH [OF i] by simp
  qed
qed simp

text \<open>Places as words and bits.\<close>

lemma all_words_bits: "(\<forall>r. P r) \<longleftrightarrow> (\<forall>w. \<forall>z < 64. P (64 * w + z))" for P :: "nat \<Rightarrow> bool"
proof
  assume h: "\<forall>w. \<forall>z < 64. P (64 * w + z)"
  show "\<forall>r. P r"
  proof
    fix r show "P r" using h [rule_format, of "r mod 64" "r div 64"] by simp
  qed
qed simp

lemma two_digits:
  fixes a b c d :: nat
  assumes "b < 64" "d < 64"
  shows "64 * a + b \<le> 64 * c + d \<longleftrightarrow> a < c \<or> a = c \<and> b \<le> d"
  by (cases a c rule: linorder_cases) (use assms in linarith)+

lemma word_bit_order:
  assumes "z < (64 :: nat)"
  shows "p \<le> 64 * w + z \<longleftrightarrow> p div 64 < w \<or> p div 64 = w \<and> p mod 64 \<le> z"
    "64 * w + z \<le> q \<longleftrightarrow> w < q div 64 \<or> w = q div 64 \<and> z \<le> q mod 64" "64 * w + z < 64 * v \<longleftrightarrow> w < v"
proof -
  have d: "r = 64 * (r div 64) + r mod 64" "r mod 64 < 64" for r :: nat by simp_all
  show "p \<le> 64 * w + z \<longleftrightarrow> p div 64 < w \<or> p div 64 = w \<and> p mod 64 \<le> z"
    using two_digits [OF d(2) [of p] assms, of "p div 64" w] by simp
  show "64 * w + z \<le> q \<longleftrightarrow> w < q div 64 \<or> w = q div 64 \<and> z \<le> q mod 64"
    using two_digits [OF assms d(2) [of q], of w "q div 64"] by simp
  show "64 * w + z < 64 * v \<longleftrightarrow> w < v"
    using two_digits [of 0 z v w] assms by (auto simp: not_le [symmetric])
qed

lemma split_words:
  fixes B :: "nat \<Rightarrow> nat \<Rightarrow> bool"
  assumes "a < c" "d < 64"
  shows "(\<forall>w. \<forall>z < 64. (a < w \<or> a = w \<and> b \<le> z) \<and> (w < c \<or> w = c \<and> z \<le> d) \<longrightarrow> B w z) \<longleftrightarrow>
    (\<forall>z. b \<le> z \<and> z < 64 \<longrightarrow> B a z) \<and> (\<forall>w. a < w \<and> w < c \<longrightarrow> (\<forall>z < 64. B w z)) \<and> (\<forall>z \<le> d. B c z)"
proof (intro iffI conjI allI impI)
  fix z assume "\<forall>w. \<forall>z < 64. (a < w \<or> a = w \<and> b \<le> z) \<and> (w < c \<or> w = c \<and> z \<le> d) \<longrightarrow> B w z" "z \<le> d"
  then show "B c z" using assms by auto
qed (use assms in auto)

lemma place_set_word: "z < 64 \<Longrightarrow> place_set bits (64 * w + z) \<longleftrightarrow> bit (bits ! w) z"
  by (simp add: place_set_def)

lemma places_between:
  assumes "p div 64 < q div 64"
  shows "(\<forall>r. p \<le> r \<and> r \<le> q \<longrightarrow> place_set bits r) \<longleftrightarrow>
    (\<forall>z. p mod 64 \<le> z \<and> z < 64 \<longrightarrow> bit (bits ! (p div 64)) z) \<and> (\<forall>w. p div 64 < w \<and> w < q div 64 \<longrightarrow> word_full bits w) \<and>
    (\<forall>z \<le> q mod 64. bit (bits ! (q div 64)) z)"
proof -
  have "(\<forall>r. p \<le> r \<and> r \<le> q \<longrightarrow> place_set bits r) \<longleftrightarrow>
    (\<forall>w. \<forall>z < 64. (p div 64 < w \<or> p div 64 = w \<and> p mod 64 \<le> z) \<and> (w < q div 64 \<or> w = q div 64 \<and> z \<le> q mod 64) \<longrightarrow> bit (bits ! w) z)"
    by (subst all_words_bits) (simp add: word_bit_order place_set_word)
  also have "\<dots> \<longleftrightarrow> (\<forall>z. p mod 64 \<le> z \<and> z < 64 \<longrightarrow> bit (bits ! (p div 64)) z) \<and>
    (\<forall>w. p div 64 < w \<and> w < q div 64 \<longrightarrow> word_full bits w) \<and> (\<forall>z \<le> q mod 64. bit (bits ! (q div 64)) z)"
    unfolding word_full_def by (rule split_words [OF assms]) simp
  finally show ?thesis .
qed

lemma places_from:
  "(\<forall>r. p \<le> r \<and> r < 64 * v \<longrightarrow> place_set bits r) \<longleftrightarrow>
    (p div 64 < v \<longrightarrow> (\<forall>z. p mod 64 \<le> z \<and> z < 64 \<longrightarrow> bit (bits ! (p div 64)) z)) \<and>
    (\<forall>w. p div 64 < w \<and> w < v \<longrightarrow> word_full bits w)"
proof -
  have "(\<forall>r. p \<le> r \<and> r < 64 * v \<longrightarrow> place_set bits r) \<longleftrightarrow>
    (\<forall>w. \<forall>z < 64. (p div 64 < w \<or> p div 64 = w \<and> p mod 64 \<le> z) \<and> w < v \<longrightarrow> bit (bits ! w) z)"
    by (subst all_words_bits) (simp add: word_bit_order place_set_word)
  also have "\<dots> \<longleftrightarrow> (p div 64 < v \<longrightarrow> (\<forall>z. p mod 64 \<le> z \<and> z < 64 \<longrightarrow> bit (bits ! (p div 64)) z)) \<and>
    (\<forall>w. p div 64 < w \<and> w < v \<longrightarrow> word_full bits w)"
    unfolding word_full_def by blast
  finally show ?thesis .
qed

lemma places_up_to:
  "(\<forall>r. r \<le> q \<longrightarrow> place_set bits r) \<longleftrightarrow> (\<forall>w. w < q div 64 \<longrightarrow> word_full bits w) \<and> (\<forall>z \<le> q mod 64. bit (bits ! (q div 64)) z)"
proof -
  have "(\<forall>r. r \<le> q \<longrightarrow> place_set bits r) \<longleftrightarrow>
    (\<forall>w. \<forall>z < 64. (w < q div 64 \<or> w = q div 64 \<and> z \<le> q mod 64) \<longrightarrow> bit (bits ! w) z)"
    by (subst all_words_bits) (simp add: word_bit_order place_set_word)
  also have "\<dots> \<longleftrightarrow> (\<forall>w. w < q div 64 \<longrightarrow> word_full bits w) \<and> (\<forall>z \<le> q mod 64. bit (bits ! (q div 64)) z)"
  proof (intro iffI conjI allI impI)
    fix z assume "\<forall>w. \<forall>z < 64. (w < q div 64 \<or> w = q div 64 \<and> z \<le> q mod 64) \<longrightarrow> bit (bits ! w) z" "z \<le> q mod 64"
    then show "bit (bits ! (q div 64)) z" using mod_less_divisor [of 64 q] by auto
  qed (auto simp: word_full_def)
  finally show ?thesis .
qed

text \<open>The tests of the code.\<close>

lemma first_word_test:
  fixes m :: u64
  assumes "so < 64"
  shows "drop_bit so m + 1 = push_bit (64 - so) 1 \<longleftrightarrow> (\<forall>z. so \<le> z \<and> z < 64 \<longrightarrow> bit m z)"
proof -
  have "drop_bit so m + 1 = push_bit (64 - so) 1 \<longleftrightarrow> drop_bit so m = mask (64 - so)"
    unfolding mask_eq_exp_minus_1 push_bit_eq_mult by (metis add_diff_cancel_right' diff_add_cancel mult_1)
  also have "\<dots> \<longleftrightarrow> (\<forall>k < 64. bit m (so + k) \<longleftrightarrow> k < 64 - so)"
    by (auto simp: bit_eq_iff bit_drop_bit_eq bit_mask_iff)
  also have "\<dots> \<longleftrightarrow> (\<forall>z. so \<le> z \<and> z < 64 \<longrightarrow> bit m z)"
  proof
    assume h: "\<forall>k < 64. bit m (so + k) \<longleftrightarrow> k < 64 - so"
    show "\<forall>z. so \<le> z \<and> z < 64 \<longrightarrow> bit m z"
    proof (intro allI impI)
      fix i assume i: "so \<le> i \<and> i < 64"
      then have "i - so < 64" "i - so < 64 - so" "so + (i - so) = i" using assms by linarith+
      then show "bit m i" using h [rule_format, of "i - so"] by simp
    qed
  next
    assume "\<forall>z. so \<le> z \<and> z < 64 \<longrightarrow> bit m z"
    then show "\<forall>k < 64. bit m (so + k) \<longleftrightarrow> k < 64 - so" using bit_imp_le_length [of m] by fastforce
  qed
  finally show ?thesis .
qed

lemma mask_test:
  fixes m :: u64
  assumes "so + len \<le> 64"
  shows "m AND push_bit so (push_bit len 1 - 1) = push_bit so (push_bit len 1 - 1) \<longleftrightarrow> (\<forall>z. so \<le> z \<and> z < so + len \<longrightarrow> bit m z)"
proof -
  define t :: u64 where "t = push_bit so (push_bit len 1 - 1)"
  have "push_bit len 1 - 1 = (mask len :: u64)" by (simp add: mask_eq_exp_minus_1 push_bit_eq_mult)
  then have b: "bit t k \<longleftrightarrow> so \<le> k \<and> k < so + len" for k
    unfolding t_def using assms by (auto simp: bit_push_bit_iff bit_mask_iff)
  have "m AND t = t \<longleftrightarrow> (\<forall>z. so \<le> z \<and> z < so + len \<longrightarrow> bit m z)"
  proof -
    have "z < 64" if "so \<le> z \<and> z < so + len" for z using assms that by linarith
    then show ?thesis by (auto simp: bit_eq_iff bit_and_iff b)
  qed
  then show ?thesis unfolding t_def .
qed

text \<open>A round of the ring from \<open>p\<close> over \<open>n\<close> places.\<close>

lemma ring_segment:
  fixes c :: nat
  assumes "p < c" "n < c"
  shows "(\<forall>j \<le> n. P ((p + j) mod c)) \<longleftrightarrow>
    (if p + n < c then \<forall>r. p \<le> r \<and> r \<le> p + n \<longrightarrow> P r
     else (\<forall>r. p \<le> r \<and> r < c \<longrightarrow> P r) \<and> (\<forall>r. r \<le> p + n - c \<longrightarrow> P r))"
proof (cases "p + n < c")
  case True
  have "(\<forall>j \<le> n. P ((p + j) mod c)) \<longleftrightarrow> (\<forall>j \<le> n. P (p + j))" using True by auto
  also have "\<dots> \<longleftrightarrow> (\<forall>r. p \<le> r \<and> r \<le> p + n \<longrightarrow> P r)" by (metis add_le_cancel_left le_add1 le_add_diff_inverse)
  finally show ?thesis using True by simp
next
  case False
  show ?thesis unfolding if_not_P [OF False]
  proof
    assume h: "\<forall>j \<le> n. P ((p + j) mod c)"
    show "(\<forall>r. p \<le> r \<and> r < c \<longrightarrow> P r) \<and> (\<forall>r. r \<le> p + n - c \<longrightarrow> P r)"
    proof (intro conjI allI impI)
      fix r assume r: "p \<le> r \<and> r < c"
      then have "r - p \<le> n" "(p + (r - p)) mod c = r" using False by (linarith, simp)
      then show "P r" using h [rule_format, of "r - p"] by simp
    next
      fix r assume r: "r \<le> p + n - c"
      then have "(p + (c - p + r)) mod c = r" using assms False by simp
      then show "P r" using h [rule_format, of "c - p + r"] r assms False by simp
    qed
  next
    assume h: "(\<forall>r. p \<le> r \<and> r < c \<longrightarrow> P r) \<and> (\<forall>r. r \<le> p + n - c \<longrightarrow> P r)"
    show "\<forall>j \<le> n. P ((p + j) mod c)"
    proof (intro allI impI)
      fix j assume j: "j \<le> n"
      show "P ((p + j) mod c)"
      proof (cases "p + j < c")
        case False
        then have "(p + j) mod c = p + j - c" using assms j by (simp add: mod_if)
        then show ?thesis using h j by simp
      qed (use h in simp)
    qed
  qed
qed

lemma between_words:
  fixes a b :: u64
  assumes "a \<le> b"
  shows "(\<forall>k. a \<le> k \<and> k \<le> b \<longrightarrow> P k) \<longleftrightarrow> (\<forall>j \<le> unat (b - a). P (a + of_nat j))"
proof -
  have b: "b = a + of_nat (unat (b - a))" by simp
  have fits: "unat a + unat (b - a) < 2 ^ 64"
  proof -
    have "unat (b - a) = unat b - unat a" by (rule unat_sub [OF assms])
    then show ?thesis using unsigned_less [of b] assms by (simp add: word_le_nat_alt)
  qed
  have plus: "unat (a + of_nat j) = unat a + j" if "j \<le> unat (b - a)" for j
    using that fits by (subst unat_add_lem [THEN iffD1]) (simp_all add: unat_of_nat take_bit_nat_eq_self)
  show ?thesis
  proof
    assume h: "\<forall>k. a \<le> k \<and> k \<le> b \<longrightarrow> P k"
    show "\<forall>j \<le> unat (b - a). P (a + of_nat j)"
    proof (intro allI impI)
      fix j assume j: "j \<le> unat (b - a)"
      have "unat b = unat a + unat (b - a)" using plus [of "unat (b - a)"] b by simp
      then show "P (a + of_nat j)" using h plus [OF j] j by (simp add: word_le_nat_alt)
    qed
  next
    assume h: "\<forall>j \<le> unat (b - a). P (a + of_nat j)"
    show "\<forall>k. a \<le> k \<and> k \<le> b \<longrightarrow> P k"
    proof (intro allI impI)
      fix k assume k: "a \<le> k \<and> k \<le> b"
      then have "unat (k - a) = unat k - unat a" "unat (b - a) = unat b - unat a" using assms by (simp_all add: unat_sub)
      then have "unat (k - a) \<le> unat (b - a)" using k by (simp add: word_le_nat_alt diff_le_mono)
      then show "P k" using h [rule_format, of "unat (k - a)"] by simp
    qed
  qed
qed

lemma consecutive_test:
  assumes ph: "ph_ok ph" and le: "start \<le> stop" and close: "stop - start < of_nat (ph_count ph)"
  shows "packets_consecutive ph start stop = Some (\<forall>k. start \<le> k \<and> k \<le> stop \<longrightarrow> ph_has ph k)"
proof -
  define c W bits where "c = ph_count ph" and "W = length (ph_bits ph)" and "bits = ph_bits ph"
  have cW: "c = 64 * W" "2 \<le> W" "c < 2 ^ 16" "length bits = W" using ph by (simp_all add: ph_ok_def c_def W_def bits_def)
  define p n q where "p = ph_place ph start" and "n = unat (stop - start)" and "q = ph_place ph stop"
  have n: "n < c" using close cW(3) unfolding n_def word_less_nat_alt c_def [symmetric] by (simp add: unat_of_nat take_bit_nat_eq_self)
  note pp = ph_pos_place [OF ph]
  have p: "p < c" "p div 64 < W" and q: "q < c" "q div 64 < W" using pp(2,3) by (simp_all add: p_def q_def c_def W_def)
  have "stop = start + of_nat n" by (simp add: n_def)
  then have qn: "q = (p + n) mod c" unfolding q_def p_def c_def using ph_place_next [OF ph] by simp
  have n64: "stop - start \<le> 64 \<longleftrightarrow> n \<le> 64" by (simp add: n_def word_le_nat_alt)
  have spec: "(\<forall>k. start \<le> k \<and> k \<le> stop \<longrightarrow> ph_has ph k) \<longleftrightarrow>
      (if p + n < c then \<forall>r. p \<le> r \<and> r \<le> p + n \<longrightarrow> place_set bits r
       else (\<forall>r. p \<le> r \<and> r < c \<longrightarrow> place_set bits r) \<and> (\<forall>r. r \<le> p + n - c \<longrightarrow> place_set bits r))"
    unfolding between_words [OF le] ph_has_def ph_place_next [OF ph] bits_def [symmetric] n_def [symmetric] p_def [symmetric] c_def [symmetric]
    by (rule ring_segment [OF p(1) n])
  have limits: "\<not> start > stop" "\<not> stop - start \<ge> of_nat (ph_count ph)" using le close by (simp_all add: not_less not_le)
  have pos: "ph_pos ph start = (p div 64, p mod 64)" "ph_pos ph stop = (q div 64, q mod 64)" using pp(1) by (simp_all add: p_def q_def)
  have nth: "go_nth bits (int i) = Some (bits ! i)" if "i < W" for i using that cW(4) by simp
  have so: "p mod 64 < 64" "q mod 64 < 64" by simp_all
  have last: "(bits ! (q div 64)) AND (push_bit (q mod 64 + 1) 1 - 1) = push_bit (q mod 64 + 1) 1 - 1 \<longleftrightarrow> (\<forall>z \<le> q mod 64. bit (bits ! (q div 64)) z)"
    using mask_test [of 0 "q mod 64 + 1" "bits ! (q div 64)"] so(2) by (simp add: less_Suc_eq_le del: push_bit_of_1)
  show ?thesis
  proof (cases "p div 64 = q div 64 \<and> n \<le> 64")
    case True
    have pq: "p + n < c"
    proof (rule ccontr)
      assume "\<not> p + n < c"
      moreover from this have "q = p + n - c" using qn p n by (simp add: mod_if)
      ultimately have "q = p + n - c" "q < p" using n by linarith+
      moreover have "p < 64 * (p div 64) + 64" "64 * (q div 64) \<le> q" by simp_all
      then have "p < q + 64" using True by simp
      ultimately show False using True cW(1,2) \<open>\<not> p + n < c\<close> by linarith
    qed
    then have q': "q = p + n" using qn by simp
    have "p = 64 * (p div 64) + p mod 64" "q = 64 * (q div 64) + q mod 64" by simp_all
    then have eo: "q mod 64 = p mod 64 + n" using True q' by linarith
    have len: "p mod 64 + (q mod 64 + 1 - p mod 64) \<le> 64" "\<not> q mod 64 + 1 < p mod 64" "p mod 64 + (q mod 64 + 1 - p mod 64) = q mod 64 + 1"
      using eo so by linarith+
    have "(\<forall>r. p \<le> r \<and> r \<le> p + n \<longrightarrow> place_set bits r) \<longleftrightarrow> (\<forall>z. p mod 64 \<le> z \<and> z < q mod 64 + 1 \<longrightarrow> bit (bits ! (p div 64)) z)"
      unfolding q' [symmetric]
    proof
      assume h: "\<forall>r. p \<le> r \<and> r \<le> q \<longrightarrow> place_set bits r"
      show "\<forall>z. p mod 64 \<le> z \<and> z < q mod 64 + 1 \<longrightarrow> bit (bits ! (p div 64)) z"
      proof (intro allI impI)
        fix i assume i: "p mod 64 \<le> i \<and> i < q mod 64 + 1"
        then have "i < 64" using so(2) by linarith
        then show "bit (bits ! (p div 64)) i"
          using h [rule_format, of "64 * (p div 64) + i"] i True word_bit_order [of i p "p div 64"] word_bit_order(2) [of i "p div 64" q]
          by (simp add: place_set_word)
      qed
    next
      assume h: "\<forall>z. p mod 64 \<le> z \<and> z < q mod 64 + 1 \<longrightarrow> bit (bits ! (p div 64)) z"
      show "\<forall>r. p \<le> r \<and> r \<le> q \<longrightarrow> place_set bits r"
      proof (intro allI impI)
        fix r assume r: "p \<le> r \<and> r \<le> q"
        then have "r div 64 = p div 64" using True by (metis div_le_mono le_antisym)
        moreover have "p = 64 * (p div 64) + p mod 64" "q = 64 * (q div 64) + q mod 64" "r = 64 * (r div 64) + r mod 64" by simp_all
        ultimately have "r div 64 = p div 64" "p mod 64 \<le> r mod 64" "r mod 64 \<le> q mod 64" using r True by linarith+
        then show "place_set bits r" using h by (simp add: place_set_def)
      qed
    qed
    then show ?thesis unfolding spec if_P [OF pq]
      using True n64 len mask_test [OF len(1), of "bits ! (p div 64)"] p(2) cW(4)
      by (simp add: packets_consecutive_def limits [simplified] pos Let_def bits_def [symmetric] nth del: push_bit_of_1)
  next
    case False
    have up: "p div 64 < q div 64" if "p + n < c"
    proof (rule ccontr)
      have q': "q = p + n" using qn that by simp
      assume "\<not> p div 64 < q div 64"
      then have "p div 64 = q div 64" using div_le_mono [of p q 64] q' by simp
      moreover have "p = 64 * (p div 64) + p mod 64" "q = 64 * (q div 64) + q mod 64" by simp_all
      ultimately show False using False so q' by linarith
    qed
    have seg: "(if p + n < c then \<forall>r. p \<le> r \<and> r \<le> p + n \<longrightarrow> place_set bits r
       else (\<forall>r. p \<le> r \<and> r < c \<longrightarrow> place_set bits r) \<and> (\<forall>r. r \<le> p + n - c \<longrightarrow> place_set bits r)) \<longleftrightarrow>
      (\<forall>z. p mod 64 \<le> z \<and> z < 64 \<longrightarrow> bit (bits ! (p div 64)) z) \<and>
      (if p + n < c then \<forall>w. p div 64 < w \<and> w < q div 64 \<longrightarrow> word_full bits w
       else \<forall>w. (p div 64 < w \<and> w < W \<or> w < q div 64) \<longrightarrow> word_full bits w) \<and> (\<forall>z \<le> q mod 64. bit (bits ! (q div 64)) z)"
    proof (cases "p + n < c")
      case True
      then have q': "q = p + n" using qn by simp
      then have "p div 64 < q div 64" using up True by simp
      from places_between [OF this] show ?thesis using True q' by simp
    next
      case around: False
      then have q': "q = p + n - c" using qn p n by (simp add: mod_if)
      have "(\<forall>r. p \<le> r \<and> r < c \<longrightarrow> place_set bits r) \<longleftrightarrow> (\<forall>z. p mod 64 \<le> z \<and> z < 64 \<longrightarrow> bit (bits ! (p div 64)) z) \<and>
          (\<forall>w. p div 64 < w \<and> w < W \<longrightarrow> word_full bits w)"
        unfolding cW(1) places_from using p(2) by simp
      moreover have "(\<forall>w. (p div 64 < w \<and> w < W \<or> w < q div 64) \<longrightarrow> word_full bits w) \<longleftrightarrow>
          (\<forall>w. p div 64 < w \<and> w < W \<longrightarrow> word_full bits w) \<and> (\<forall>w. w < q div 64 \<longrightarrow> word_full bits w)" by blast
      ultimately show ?thesis unfolding if_not_P [OF around] q' [symmetric] places_up_to by (simp only: conj_ac)
    qed
    have words: "words_full (length bits + 2) (p div 64 + 1) (q div 64) bits =
      Some (if p + n < c then \<forall>w. p div 64 < w \<and> w < q div 64 \<longrightarrow> word_full bits w
       else \<forall>w. (p div 64 < w \<and> w < W \<or> w < q div 64) \<longrightarrow> word_full bits w)"
    proof (cases "p + n < c")
      case True
      then have q': "q = p + n" using qn by simp
      then have "p div 64 < q div 64" using up True by simp
      then show ?thesis using words_full_up [of "p div 64 + 1" "q div 64" bits "length bits + 2"] q(2) cW(4) True by (simp add: Suc_le_eq)
    next
      case around: False
      then have q': "q = p + n - c" using qn p n by (simp add: mod_if)
      then have "q < p" using around n by linarith
      then have "q div 64 < p div 64 + 1" using div_le_mono [of q p 64] by simp
      then show ?thesis using words_full_around [of "q div 64" "p div 64 + 1" bits "length bits + 2"] p(2) cW(4) around by (simp add: Suc_le_eq)
    qed
    have no: "\<not> (p div 64 = q div 64 \<and> stop - start \<le> 64)" using False n64 by simp
    show ?thesis unfolding spec seg packets_consecutive_def pos Let_def prod.case if_not_P [OF limits(1)] if_not_P [OF limits(2)]
        bits_def [symmetric] if_not_P [OF no] nth [OF p(2)] nth [OF q(2)] words Option.bind.simps
        first_word_test [OF so(1)] last
      by simp
  qed
qed

text \<open>The test says whether all packets in between are marked, around the end of the ring too.\<close>

lemma consecutive_means_all:
  assumes "ph_ok ph"
  shows "packets_consecutive ph start stop =
    Some (start \<le> stop \<and> stop - start < of_nat (ph_count ph) \<and> (\<forall>k. start \<le> k \<and> k \<le> stop \<longrightarrow> ph_has ph k))"
proof (cases "start \<le> stop \<and> stop - start < of_nat (ph_count ph)")
  case True
  then show ?thesis using consecutive_test [OF assms] by simp
next
  case False
  then show ?thesis by (auto simp: packets_consecutive_def not_le not_less)
qed

section \<open>Which packets are marked\<close>

lemma ph_set_effect:
  assumes "ph_ok ph"
  obtains ph' where "ph_set seq received ph = Some ph'" "ph_ok ph'" "ph_base ph' = ph_base ph" "ph_last ph' = ph_last ph"
    "ph_count ph' = ph_count ph" "ph_inited ph' = ph_inited ph"
    "\<And>k. ph_has ph' k \<longleftrightarrow> (if ph_place ph k = ph_place ph seq then received else ph_has ph k)"
proof -
  note pos = ph_pos_place [OF assms]
  define p where "p = ph_place ph seq"
  define m where "m = ph_bits ph ! (p div 64)"
  define m' where "m' = (if received then m OR push_bit (p mod 64) 1 else m AND NOT (push_bit (p mod 64) 1))"
  define ph' where "ph' = ph\<lparr>ph_bits := (ph_bits ph)[p div 64 := m']\<rparr>"
  have i: "p div 64 < length (ph_bits ph)" using pos(2) by (simp add: p_def)
  have set: "ph_set seq received ph = Some ph'" using i
    unfolding ph_set_def pos(1) prod.case p_def [symmetric] by (simp add: m_def m'_def ph'_def)
  have fields: "ph_count ph' = ph_count ph" "length (ph_bits ph') = length (ph_bits ph)" by (simp_all add: ph'_def)
  have ok: "ph_ok ph'" using assms unfolding ph_ok_def fields .
  have place: "ph_place ph' k = ph_place ph k" for k by (simp add: ph_place_def ph'_def)
  have bits: "ph_bits ph' = (ph_bits ph)[p div 64 := m']" by (simp add: ph'_def)
  have bit: "bit m' j \<longleftrightarrow> (if j = p mod 64 then received else bit m j)" if "j < 64" for j
  proof -
    have "bit (push_bit (p mod 64) 1 :: u64) j \<longleftrightarrow> j = p mod 64" using that by (auto simp: bit_push_bit_iff bit_1_iff simp del: push_bit_of_1)
    then show ?thesis using that by (auto simp: m'_def bit_or_iff bit_and_iff bit_not_iff simp del: push_bit_of_1)
  qed
  have "ph_has ph' k \<longleftrightarrow> (if ph_place ph k = p then received else ph_has ph k)" for k
  proof (cases "ph_place ph k div 64 = p div 64")
    case True
    then have "ph_place ph k = p \<longleftrightarrow> ph_place ph k mod 64 = p mod 64" by (metis mult_div_mod_eq)
    then show ?thesis using True i bit [of "ph_place ph k mod 64"] by (simp add: ph_has_def place_set_def place bits m_def)
  next
    case False
    then have "ph_place ph k \<noteq> p" by auto
    then show ?thesis using False by (simp add: ph_has_def place_set_def place bits)
  qed
  with set ok show ?thesis by (intro that [of ph']) (simp_all add: ph'_def p_def)
qed

lemma place_inj:
  assumes "ph_ok ph" "k \<le> s" "s - k < of_nat (ph_count ph)"
  shows "ph_place ph k = ph_place ph s \<longleftrightarrow> k = s"
proof -
  define c j where "c = ph_count ph" and "j = unat (s - k)"
  have c: "c < 2 ^ 16" using assms(1) by (simp add: ph_ok_def c_def)
  have j: "j < c" using assms(3) c unfolding j_def word_less_nat_alt c_def [symmetric] by (simp add: unat_of_nat take_bit_nat_eq_self)
  have "s = k + of_nat j" by (simp add: j_def)
  then have s: "ph_place ph s = (ph_place ph k + j) mod c" using ph_place_next [OF assms(1)] by (simp add: c_def)
  have p: "ph_place ph k < c" using ph_pos_place(3) [OF assms(1)] by (simp add: c_def)
  have "(ph_place ph k + j) mod c = ph_place ph k \<longleftrightarrow> j = 0" using p j by (auto simp: mod_if)
  moreover have "j = 0 \<longleftrightarrow> k = s" by (auto simp: j_def unat_eq_0)
  ultimately show ?thesis using s by auto
qed

lemma ph_clear_effect:
  assumes "ph_ok ph"
  shows "\<exists>ph'. ph_clear n seq ph = Some ph' \<and> ph_ok ph' \<and> ph_base ph' = ph_base ph \<and> ph_last ph' = ph_last ph \<and>
    ph_count ph' = ph_count ph \<and> ph_inited ph' = ph_inited ph \<and>
    (\<forall>k. ph_has ph' k \<longleftrightarrow> (\<forall>j < n. ph_place ph k \<noteq> ph_place ph (seq + of_nat j)) \<and> ph_has ph k)"
  using assms
proof (induction n arbitrary: seq ph)
  case (Suc n)
  obtain ph1 where p1: "ph_set seq False ph = Some ph1" "ph_ok ph1" "ph_base ph1 = ph_base ph" "ph_last ph1 = ph_last ph"
    "ph_count ph1 = ph_count ph" "ph_inited ph1 = ph_inited ph"
    "\<And>k. ph_has ph1 k \<longleftrightarrow> (if ph_place ph k = ph_place ph seq then False else ph_has ph k)"
    by (rule ph_set_effect [OF Suc.prems, of seq False]) blast
  have place: "ph_place ph1 k = ph_place ph k" for k using p1(3,5) by (simp add: ph_place_def)
  obtain ph2 where p2: "ph_clear n (seq + 1) ph1 = Some ph2" "ph_ok ph2" "ph_base ph2 = ph_base ph1" "ph_last ph2 = ph_last ph1"
    "ph_count ph2 = ph_count ph1" "ph_inited ph2 = ph_inited ph1"
    "\<And>k. ph_has ph2 k \<longleftrightarrow> (\<forall>j < n. ph_place ph1 k \<noteq> ph_place ph1 (seq + 1 + of_nat j)) \<and> ph_has ph1 k"
    using Suc.IH [OF p1(2), of "seq + 1"] by blast
  have "(\<forall>j < Suc n. P (seq + of_nat j)) \<longleftrightarrow> P seq \<and> (\<forall>j < n. P (seq + 1 + of_nat j))" for P :: "u64 \<Rightarrow> bool"
    by (auto simp: less_Suc_eq_0_disj add.assoc)
  from this [of "\<lambda>s. ph_place ph k \<noteq> ph_place ph s" for k]
  have all: "(\<forall>j < Suc n. ph_place ph k \<noteq> ph_place ph (seq + of_nat j)) \<longleftrightarrow>
      ph_place ph k \<noteq> ph_place ph seq \<and> (\<forall>j < n. ph_place ph k \<noteq> ph_place ph (seq + 1 + of_nat j))" for k .
  show ?case using p1 p2 by (intro exI [of _ ph2]) (auto simp: all place simp del: of_nat_Suc)
qed simp

text \<open>What the history says of the packets in its window: those of \<open>R\<close> have come.\<close>

definition ph_rep :: "packet_history \<Rightarrow> u64 set \<Rightarrow> bool" where
  "ph_rep ph R \<longleftrightarrow> ph_ok ph \<and> ph_inited ph \<and> ph_base ph \<le> ph_last ph \<and> ph_last ph < sn_limit \<and> (\<forall>k \<in> R. k \<le> ph_last ph) \<and>
    (\<forall>k. ph_base ph < k \<and> k \<le> ph_last ph \<and> ph_last ph - k < of_nat (ph_count ph) \<longrightarrow> (ph_has ph k \<longleftrightarrow> k \<in> R))"

lemma ph_ok_update: "ph_ok (ph\<lparr>ph_last := l\<rparr>) = ph_ok ph" "ph_ok (ph\<lparr>ph_inited := i, ph_base := b, ph_last := l\<rparr>) = ph_ok ph"
  by (simp_all add: ph_ok_def)

lemma of_nat_count: "ph_ok ph \<Longrightarrow> uint (of_nat (ph_count ph) :: u64) = int (ph_count ph)"
proof -
  assume "ph_ok ph"
  then have "ph_count ph < 2 ^ 16" unfolding ph_ok_def by blast
  then show ?thesis by (simp add: unsigned_of_nat take_bit_nat_eq_self)
qed

lemma window_uint:
  fixes k l :: u64
  assumes "ph_ok ph" "k \<le> l"
  shows "l - k < of_nat (ph_count ph) \<longleftrightarrow> uint l - uint k < int (ph_count ph)"
proof -
  have "uint (l - k) = uint l - uint k" using assms(2) by (simp add: word_le_def uint_sub_lem [THEN iffD1])
  then show ?thesis unfolding word_less_def of_nat_count [OF assms(1)] by simp
qed

lemma gap_length:
  fixes last seq :: u64
  assumes last: "last < sn_limit" "last < seq"
  shows "int (unat (seq - (last + 1))) = uint seq - uint last - 1"
proof -
  have last1: "uint (last + 1) = uint last + 1" using below_limit [OF last(1)] .
  have "last + 1 \<le> seq" using last(2) last1 by (simp add: word_le_def word_less_def)
  then have "uint (seq - (last + 1)) = uint seq - (uint last + 1)" using last1 by (simp add: uint_minus_simple_alt [THEN iffD1])
  then show ?thesis unfolding unat_eq_nat_uint using uint_ge_0 [of "seq - (last + 1)"] by linarith
qed

lemma skipped_number:
  fixes last seq :: u64
  assumes last: "last < sn_limit" "last < seq" and seq: "seq < sn_limit" and j: "j < unat (seq - (last + 1))"
  shows "last + 1 + of_nat j = m \<longleftrightarrow> uint m = uint last + 1 + int j"
proof -
  have "uint seq < 2 ^ 62" using seq by (simp add: word_less_def)
  moreover have "int j < uint seq - uint last - 1" using j gap_length [OF last] by linarith
  ultimately have "uint last + 1 + int j < 2 ^ 64" by simp
  moreover from this have "int j < 2 ^ 64" using uint_ge_0 [of last] by linarith
  then have "uint (of_nat j :: u64) = int j" by (simp add: unsigned_of_nat take_bit_nat_eq_self)
  ultimately have "uint (last + 1 + of_nat j) = uint last + 1 + int j"
    using uint_plus_if' [of "last + 1" "of_nat j"] below_limit [OF last(1)] by simp
  then show ?thesis by (auto simp: word_uint_eq_iff)
qed

lemma ph_add_inside:
  assumes rep: "ph_rep ph R" and inside: "ph_base ph < seq" "seq \<le> ph_last ph" "ph_last ph - seq < of_nat (ph_count ph)"
  obtains ph' where "ph_add seq ph = Some ph'" "ph_rep ph' (insert seq R)" "ph_base ph' = ph_base ph" "ph_count ph' = ph_count ph"
    "ph_last ph' = max (ph_last ph) seq"
proof -
  have ok: "ph_ok ph" "ph_inited ph" "ph_base ph \<le> ph_last ph" "ph_last ph < sn_limit" "\<And>k. k \<in> R \<Longrightarrow> k \<le> ph_last ph"
    "\<And>k. ph_base ph < k \<Longrightarrow> k \<le> ph_last ph \<Longrightarrow> ph_last ph - k < of_nat (ph_count ph) \<Longrightarrow> ph_has ph k \<longleftrightarrow> k \<in> R"
    using rep by (simp_all add: ph_rep_def)
  note win = window_uint [OF ok(1)]
  obtain ph' where p: "ph_set seq True ph = Some ph'" "ph_ok ph'" "ph_base ph' = ph_base ph" "ph_last ph' = ph_last ph"
    "ph_count ph' = ph_count ph" "ph_inited ph' = ph_inited ph"
    "\<And>k. ph_has ph' k \<longleftrightarrow> (if ph_place ph k = ph_place ph seq then True else ph_has ph k)"
    by (rule ph_set_effect [OF ok(1), of seq True]) blast
  have "ph_place ph k = ph_place ph seq \<longleftrightarrow> k = seq"
    if k: "k \<le> ph_last ph" "ph_last ph - k < of_nat (ph_count ph)" for k
  proof (cases "k \<le> seq")
    case True
    then have "seq - k < of_nat (ph_count ph)" using k inside(2) win [of k "ph_last ph"] win [of k seq] by (simp add: word_le_def)
    then show ?thesis using place_inj [OF ok(1) True] by simp
  next
    case False
    then have "seq \<le> k" by simp
    then have "k - seq < of_nat (ph_count ph)" using k inside(2,3) win [of seq "ph_last ph"] win [of seq k] by (simp add: word_le_def)
    then show ?thesis using place_inj [OF ok(1) \<open>seq \<le> k\<close>] by auto
  qed
  then have "ph_rep ph' (insert seq R)" using p ok inside(2) by (auto simp: ph_rep_def)
  moreover have "ph_add seq ph = Some ph'" using inside ok(2) p(1) by (simp add: ph_add_def not_le [symmetric])
  moreover have "max (ph_last ph) seq = ph_last ph" using inside by (auto simp: max_def)
  ultimately show ?thesis using that p by simp
qed

lemma ph_add_new:
  assumes rep: "ph_rep ph R" and seq: "seq < sn_limit" and new: "ph_last ph < seq"
  obtains ph' where "ph_add seq ph = Some ph'" "ph_rep ph' (insert seq R)" "ph_base ph' = ph_base ph" "ph_count ph' = ph_count ph"
    "ph_last ph' = max (ph_last ph) seq"
proof -
  have ok: "ph_ok ph" "ph_inited ph" "ph_base ph \<le> ph_last ph" "ph_last ph < sn_limit" "\<And>k. k \<in> R \<Longrightarrow> k \<le> ph_last ph"
    "\<And>k. ph_base ph < k \<Longrightarrow> k \<le> ph_last ph \<Longrightarrow> ph_last ph - k < of_nat (ph_count ph) \<Longrightarrow> ph_has ph k \<longleftrightarrow> k \<in> R"
    using rep by (simp_all add: ph_rep_def)
  note win = window_uint [OF ok(1)]
  define n where "n = unat (seq - (ph_last ph + 1))"
  note n = gap_length [OF ok(4) new, folded n_def]
  obtain ph1 where p1: "ph_clear n (ph_last ph + 1) ph = Some ph1" "ph_ok ph1" "ph_base ph1 = ph_base ph" "ph_last ph1 = ph_last ph"
    "ph_count ph1 = ph_count ph" "ph_inited ph1 = ph_inited ph"
    "\<And>k. ph_has ph1 k \<longleftrightarrow> (\<forall>j < n. ph_place ph k \<noteq> ph_place ph (ph_last ph + 1 + of_nat j)) \<and> ph_has ph k"
    using ph_clear_effect [OF ok(1), of n "ph_last ph + 1"] by blast
  obtain ph2 where p2: "ph_set seq True ph1 = Some ph2" "ph_ok ph2" "ph_base ph2 = ph_base ph1" "ph_last ph2 = ph_last ph1"
    "ph_count ph2 = ph_count ph1" "ph_inited ph2 = ph_inited ph1"
    "\<And>k. ph_has ph2 k \<longleftrightarrow> (if ph_place ph1 k = ph_place ph1 seq then True else ph_has ph1 k)"
    by (rule ph_set_effect [OF p1(2), of seq True]) blast
  define ph' where "ph' = ph2\<lparr>ph_last := seq\<rparr>"
  have add: "ph_add seq ph = Some ph'" using new ok(2,3) p1(1) p2(1) by (simp add: ph_add_def n_def ph'_def not_le [symmetric] del: not_le)
  have place: "ph_place ph1 k = ph_place ph k" for k using p1(3,5) by (simp add: ph_place_def)
  have has: "ph_has ph' k \<longleftrightarrow> (if ph_place ph k = ph_place ph seq then True
      else (\<forall>j < n. ph_place ph k \<noteq> ph_place ph (ph_last ph + 1 + of_nat j)) \<and> ph_has ph k)" for k
  proof -
    have "ph_has ph' k = ph_has ph2 k" by (simp add: ph'_def ph_has_def ph_place_def)
    then show ?thesis using p2(7) p1(7) place by simp
  qed
  note skipped = skipped_number [OF ok(4) new seq, folded n_def]
  have rep': "ph_has ph' k \<longleftrightarrow> k \<in> insert seq R"
    if k: "ph_base ph < k" "k \<le> seq" "seq - k < of_nat (ph_count ph)" for k
  proof -
    consider (self) "k = seq" | (skip) "ph_last ph < k" "k < seq" | (before) "k \<le> ph_last ph" using k(2) by fastforce
    then show ?thesis
    proof cases
      case self
      then show ?thesis by (simp add: has)
    next
      case skip
      define j where "j = nat (uint k - uint (ph_last ph) - 1)"
      have j: "int j = uint k - uint (ph_last ph) - 1" using skip(1) by (simp add: j_def word_less_def)
      then have "j < n" using skip(2) n by (simp add: word_less_def)
      then have "\<not> (\<forall>j < n. ph_place ph k \<noteq> ph_place ph (ph_last ph + 1 + of_nat j))" using skipped [of j k] j by auto
      moreover have "ph_place ph k \<noteq> ph_place ph seq" using place_inj [OF ok(1) k(2,3)] skip(2) by auto
      moreover have "k \<notin> R" using ok(5) skip(1) by (auto simp: not_le [symmetric])
      ultimately show ?thesis using skip(2) by (auto simp: has)
    next
      case before
      have far: "ph_place ph k \<noteq> ph_place ph m" if m: "ph_last ph < m" "m \<le> seq" for m
      proof -
        have le: "k \<le> m" using before m(1) by simp
        have "uint seq - uint k < int (ph_count ph)" using win [OF k(2)] k(3) by simp
        then have "uint m - uint k < int (ph_count ph)" using m(2) by (simp add: word_le_def)
        then have "m - k < of_nat (ph_count ph)" using win [OF le] by simp
        then show ?thesis using place_inj [OF ok(1) le] before m(1) by auto
      qed
      have "ph_last ph < ph_last ph + 1 + of_nat j \<and> ph_last ph + 1 + of_nat j \<le> seq" if "j < n" for j
        using skipped [OF that, of "ph_last ph + 1 + of_nat j"] that n by (simp add: word_less_def word_le_def)
      then have "ph_has ph' k \<longleftrightarrow> ph_has ph k" using far new by (simp add: has)
      moreover have "ph_last ph - k < of_nat (ph_count ph)"
        using win [OF before] win [OF k(2)] k(3) new by (simp add: word_less_def)
      then have "ph_has ph k \<longleftrightarrow> k \<in> R" using ok(6) [OF k(1) before] by simp
      moreover have "k \<noteq> seq" using before new by auto
      ultimately show ?thesis by simp
    qed
  qed
  have fields: "ph_ok ph'" "ph_inited ph'" "ph_base ph' = ph_base ph" "ph_count ph' = ph_count ph" "ph_last ph' = seq"
    using p1(3-6) p2(2-6) ok(2) unfolding ph'_def ph_ok_update by simp_all
  have "ph_rep ph' (insert seq R)" unfolding ph_rep_def fields(3-5)
    using fields(1,2) rep' ok(3,5) new seq by fastforce
  moreover have "max (ph_last ph) seq = seq" using new by (auto simp: max_def)
  ultimately show ?thesis using that add fields by simp
qed

lemma ph_add_rep:
  assumes rep: "ph_rep ph R" and seq: "seq < sn_limit"
  obtains ph' where "ph_add seq ph = Some ph'" "ph_rep ph' (insert seq R)" "ph_base ph' = ph_base ph" "ph_count ph' = ph_count ph"
    "ph_last ph' = max (ph_last ph) seq"
proof -
  have ok: "ph_ok ph" "ph_inited ph" "ph_base ph \<le> ph_last ph" "ph_last ph < sn_limit" "\<And>k. k \<in> R \<Longrightarrow> k \<le> ph_last ph"
    "\<And>k. ph_base ph < k \<Longrightarrow> k \<le> ph_last ph \<Longrightarrow> ph_last ph - k < of_nat (ph_count ph) \<Longrightarrow> ph_has ph k \<longleftrightarrow> k \<in> R"
    using rep by (simp_all add: ph_rep_def)
  consider (old) "seq \<le> ph_base ph" | (gone) "ph_base ph < seq" "seq \<le> ph_last ph" "\<not> ph_last ph - seq < of_nat (ph_count ph)"
    | (inside) "ph_base ph < seq" "seq \<le> ph_last ph" "ph_last ph - seq < of_nat (ph_count ph)" | (new) "ph_last ph < seq" by fastforce
  then show ?thesis
  proof cases
    case old
    then have "ph_add seq ph = Some ph" using ok(2) by (simp add: ph_add_def)
    moreover have "ph_rep ph (insert seq R)" using rep old by (auto simp: ph_rep_def)
    moreover have "max (ph_last ph) seq = ph_last ph" using old ok(3) by (auto simp: max_def)
    ultimately show ?thesis using that by simp
  next
    case gone
    then have "ph_add seq ph = Some ph" using ok(2) by (simp add: ph_add_def not_le)
    moreover have "ph_rep ph (insert seq R)" using rep gone by (auto simp: ph_rep_def)
    moreover have "max (ph_last ph) seq = ph_last ph" using gone by (auto simp: max_def)
    ultimately show ?thesis using that by simp
  next
    case inside
    from ph_add_inside [OF rep this] show ?thesis using that by blast
  next
    case new
    from ph_add_new [OF rep seq this] show ?thesis using that by blast
  qed
qed

lemma ph_repD: "ph_rep ph R \<Longrightarrow> ph_base ph < k \<Longrightarrow> k \<le> ph_last ph \<Longrightarrow> ph_last ph - k < of_nat (ph_count ph) \<Longrightarrow> ph_has ph k \<longleftrightarrow> k \<in> R"
  by (simp add: ph_rep_def)

lemma new_history: "ph_ok (new_packet_history 1024)" "ph_count (new_packet_history 1024) = 1024" "\<not> ph_inited (new_packet_history 1024)"
  "ph_bits (new_packet_history 1024) = replicate 16 0"
  by (simp_all add: ph_ok_def new_packet_history_def)

lemma ph_add_first:
  assumes "seq < sn_limit"
  obtains ph where "ph_add seq (new_packet_history 1024) = Some ph" "ph_rep ph {seq}" "ph_count ph = 1024" "ph_last ph = seq"
    "ph_base ph = (if seq > 100 then seq - 100 else 0)"
proof -
  define b :: u64 where "b = (if seq > 100 then seq - 100 else 0)"
  define ph0 where "ph0 = (new_packet_history 1024)\<lparr>ph_inited := True, ph_base := b, ph_last := seq\<rparr>"
  have ok: "ph_ok ph0" by (simp add: ph0_def ph_ok_def new_history)
  obtain ph where ph: "ph_set seq True ph0 = Some ph" "ph_ok ph" "ph_base ph = b" "ph_last ph = seq" "ph_count ph = 1024" "ph_inited ph"
    "\<And>k. ph_has ph k \<longleftrightarrow> (if ph_place ph0 k = ph_place ph0 seq then True else ph_has ph0 k)"
    using ph_set_effect [OF ok, of seq True] by (simp add: ph0_def new_history) metis
  have "ph_place ph0 k div 64 < 16" for k using ph_pos_place(2) [OF ok, of k] by (simp add: ph0_def new_history)
  then have zero: "\<not> ph_has ph0 k" for k by (simp add: ph_has_def place_set_def ph0_def new_history)
  have has: "ph_has ph k \<longleftrightarrow> k \<in> {seq}" if "k \<le> seq" "seq - k < of_nat (ph_count ph)" for k
    using place_inj [OF ok that(1)] that(2) ph(5,7) zero by (simp add: ph0_def new_history)
  have "b \<le> seq"
  proof (cases "seq > 100")
    case True
    then have "seq - 100 \<le> seq" by (simp add: word_sub_le)
    then show ?thesis using True by (simp add: b_def)
  qed (simp add: b_def)
  then have "ph_rep ph {seq}" using ph has assms by (simp add: ph_rep_def)
  moreover have "ph_add seq (new_packet_history 1024) = Some ph" using ph(1) by (simp add: ph_add_def new_history ph0_def b_def)
  ultimately show ?thesis using that ph unfolding b_def by simp
qed

lemma ph_feed_rep:
  "ph_rep ph R \<Longrightarrow> \<forall>s \<in> set seqs. s < sn_limit \<Longrightarrow>
   \<exists>ph'. run_ops (\<lambda>ph seq. ph_add seq ph) ph seqs = Some ph' \<and> ph_rep ph' (R \<union> set seqs) \<and> ph_base ph' = ph_base ph \<and>
     ph_count ph' = ph_count ph \<and> ph_last ph' = fold max seqs (ph_last ph)"
proof (induction seqs arbitrary: ph R)
  case (Cons s seqs)
  obtain ph1 where p: "ph_add s ph = Some ph1" "ph_rep ph1 (insert s R)" "ph_base ph1 = ph_base ph" "ph_count ph1 = ph_count ph"
    "ph_last ph1 = max (ph_last ph) s" using ph_add_rep [OF Cons.prems(1), of s] Cons.prems(2) by auto
  have "max (ph_last ph) s = max s (ph_last ph)" by (rule max.commute)
  then show ?case using Cons.IH [OF p(2)] Cons.prems(2) p by simp
qed simp

text \<open>
  C16. The ring of received packets tells which frames are complete: after any sequence of packets,
  late, repeated or with gaps, the test on whole words says of two packets of the window that all
  packets from the first to the second have arrived if and only if they have.
\<close>

theorem consecutive_iff_received:
  assumes "\<forall>s \<in> set (first # seqs). s < sn_limit"
  shows "\<exists>ph. run_ops (\<lambda>ph seq. ph_add seq ph) (new_packet_history 1024) (first # seqs) = Some ph \<and> ph_last ph = fold max seqs first \<and>
    (\<forall>a b. (if first > 100 then first - 100 else 0) < a \<and> b \<le> ph_last ph \<and> ph_last ph - a < 1024 \<longrightarrow>
       packets_consecutive ph a b = Some (a \<le> b \<and> (\<forall>k. a \<le> k \<and> k \<le> b \<longrightarrow> k \<in> set (first # seqs))))"
proof -
  obtain ph1 where p1: "ph_add first (new_packet_history 1024) = Some ph1" "ph_rep ph1 {first}" "ph_count ph1 = 1024" "ph_last ph1 = first"
    "ph_base ph1 = (if first > 100 then first - 100 else 0)" using ph_add_first [of first] assms by auto
  obtain ph where p: "run_ops (\<lambda>ph seq. ph_add seq ph) ph1 seqs = Some ph" "ph_rep ph ({first} \<union> set seqs)" "ph_base ph = ph_base ph1"
    "ph_count ph = 1024" "ph_last ph = fold max seqs first" using ph_feed_rep [OF p1(2), of seqs] assms p1(3,4) by auto
  have ok: "ph_ok ph" using p(2) by (simp add: ph_rep_def)
  have "packets_consecutive ph a b = Some (a \<le> b \<and> (\<forall>k. a \<le> k \<and> k \<le> b \<longrightarrow> k \<in> set (first # seqs)))"
    if w: "ph_base ph < a" "b \<le> ph_last ph" "ph_last ph - a < 1024" for a b
  proof (cases "a \<le> b")
    case True
    then have al: "a \<le> ph_last ph" using w(2) by simp
    have close: "ph_last ph - k < of_nat (ph_count ph)" if "a \<le> k" "k \<le> ph_last ph" for k
      using w(3) window_uint [OF ok al] window_uint [OF ok that(2)] p(4) that(1) by (simp add: word_le_def)
    have near: "b - a < of_nat (ph_count ph)"
      using w(2,3) window_uint [OF ok al] window_uint [OF ok True] p(4) by (simp add: word_le_def)
    have "ph_has ph k \<longleftrightarrow> k \<in> set (first # seqs)" if "a \<le> k" "k \<le> b" for k
    proof -
      have "ph_base ph < k" "k \<le> ph_last ph" using w(1,2) that by simp_all
      moreover from this have "ph_last ph - k < of_nat (ph_count ph)" using close that(1) by blast
      ultimately have "ph_has ph k \<longleftrightarrow> k \<in> {first} \<union> set seqs" by (rule ph_repD [OF p(2)])
      then show ?thesis by simp
    qed
    then have all: "(\<forall>k. a \<le> k \<and> k \<le> b \<longrightarrow> ph_has ph k) \<longleftrightarrow> (\<forall>k. a \<le> k \<and> k \<le> b \<longrightarrow> k \<in> set (first # seqs))" by blast
    show ?thesis unfolding consecutive_means_all [OF ok, of a b] all using near by blast
  next
    case False
    then show ?thesis using consecutive_means_all [OF ok, of a b] by simp
  qed
  then show ?thesis using p1(1,5) p by (intro exI [of _ ph]) simp
qed

theorem consecutive_iff_received_witness:
  "\<exists>ph. run_ops (\<lambda>ph seq. ph_add seq ph) (new_packet_history 1024) (5000 # [5003, 5001, 5001, 6100]) = Some ph \<and>
    ph_last ph = fold max [5003, 5001, 5001, 6100] 5000 \<and>
    (\<forall>a b. (if (5000 :: u64) > 100 then 5000 - 100 else 0) < a \<and> b \<le> ph_last ph \<and> ph_last ph - a < 1024 \<longrightarrow>
       packets_consecutive ph a b = Some (a \<le> b \<and> (\<forall>k. a \<le> k \<and> k \<le> b \<longrightarrow> k \<in> set (5000 # [5003, 5001, 5001, 6100]))))"
  by (rule consecutive_iff_received) (simp add: sn_limit_def word_less_nat_alt)

section \<open>The parser does not panic\<close>

text \<open>
  The extended frame numbers: whatever the packets say, \<open>n\<close> of them do not take the numbers beyond
  \<open>n\<close> cycles, nor below zero.
\<close>

definition frames_in :: "(u16, u64) wrap_around \<Rightarrow> nat \<Rightarrow> bool" where
  "frames_in w n \<longleftrightarrow> \<not> wa_restart_allowed w \<and> wa_full_range w = 65536 \<and>
    (\<not> wa_initialized w \<longrightarrow> wa_cycles w = 0) \<and>
    (wa_initialized w \<longrightarrow> (\<exists>c. wa_cycles w = of_nat (65536 * c) \<and> c < n \<and> wa_ext_highest w = wa_cycles w + ucast (wa_highest w) \<and>
       (c = 0 \<longrightarrow> wa_start w \<le> wa_highest w)))"

lemma ext_bound:
  assumes "c < 2 ^ 44"
  shows "uint (of_nat (65536 * c) + ucast (v :: u16) :: u64) = 65536 * int c + uint v"
proof -
  define m where "m = 65536 * c"
  have m: "m < 2 ^ 60" "int m = 65536 * int c" using assms by (simp_all add: m_def)
  then have c: "uint (of_nat m :: u64) = 65536 * int c" by (simp add: unsigned_of_nat take_bit_nat_eq_self)
  have v: "uint (ucast v :: u64) = uint v" "uint v < 2 ^ 16" "0 \<le> uint v"
    using uint_lt2p [of v] by (simp_all add: unsigned_ucast_eq take_bit_int_eq_self)
  show ?thesis unfolding m_def [symmetric] using c v m assms by (subst uint_plus_if') simp
qed

lemma late_frame:
  assumes w: "frames_in w n" "wa_initialized w" and n: "n < 2 ^ 44" and late: "v - wa_highest w > 32768"
  shows "fst (maybe_adjust_start w v) = w" "wr_ext_val (snd (maybe_adjust_start w v)) < sn_limit"
proof -
  obtain c where c: "wa_cycles w = of_nat (65536 * c)" "c < n" "wa_ext_highest w = wa_cycles w + ucast (wa_highest w)"
    "c = 0 \<longrightarrow> wa_start w \<le> wa_highest w" "\<not> wa_restart_allowed w" "wa_full_range w = 65536"
    using w by (auto simp: frames_in_def)
  have small: "get_extended (of_nat (65536 * k)) v < sn_limit" if "k < n" for k
  proof -
    have "k < 2 ^ 44" using that n by simp
    from ext_bound [OF this, of v] show ?thesis using \<open>k < 2 ^ 44\<close> uint_lt2p [of v]
      by (simp add: get_extended_def word_less_def)
  qed
  have half: "drop_bit 1 (65536 :: u64) = 32768" by (simp add: drop_bit_eq_div)
  have wraps: "is_wrap_back w v (wa_highest w) \<longleftrightarrow> wa_highest w < 32768 \<and> 32768 \<le> v"
  proof -
    have "uint (ucast x :: u64) = uint x" for x :: u16
      using uint_lt2p [of x] by (simp add: unsigned_ucast_eq take_bit_int_eq_self)
    then show ?thesis by (simp add: is_wrap_back_def c(6) half word_less_def word_le_def)
  qed
  show "fst (maybe_adjust_start w v) = w" using c(5) by (simp add: maybe_adjust_start_def Let_def)
  have zero: "\<not> is_wrap_back w v (wa_highest w) \<or> (\<not> wa_ext_highest w - wa_get_extended_start w + 1 > 32768 \<and> v - wa_start w > 32768)" if "c = 0"
  proof (rule disjCI)
    assume "\<not> (\<not> wa_ext_highest w - wa_get_extended_start w + 1 > 32768 \<and> v - wa_start w > 32768)"
    have le: "wa_start w \<le> wa_highest w" using c(4) that by simp
    show "\<not> is_wrap_back w v (wa_highest w)"
    proof
      assume b: "is_wrap_back w v (wa_highest w)"
      then have hv: "uint (wa_highest w) < 32768" "32768 \<le> uint v" unfolding wraps by (simp_all add: word_less_def word_le_def)
      have sh: "uint (wa_start w) \<le> uint (wa_highest w)" using le by (simp add: word_le_def)
      have "uint (wa_ext_highest w - wa_get_extended_start w + 1) = uint (wa_highest w) - uint (wa_start w) + 1"
      proof -
        have "wa_ext_highest w - wa_get_extended_start w + 1 = word_of_int (uint (wa_highest w) - uint (wa_start w) + 1)"
        proof -
          have "wa_ext_highest w = word_of_int (uint (wa_highest w))" using c(1,3) that by (simp add: ucast_eq [symmetric])
          moreover have "wa_get_extended_start w = word_of_int (uint (wa_start w))"
            unfolding wa_get_extended_start_def by (rule ucast_eq)
          ultimately show ?thesis by (simp only: wi_hom_sub wi_hom_add word_1_wi)
        qed
        then have "uint (wa_ext_highest w - wa_get_extended_start w + 1) = (uint (wa_highest w) - uint (wa_start w) + 1) mod 2 ^ 64"
          by (simp only: uint_word_of_int) simp
        then show ?thesis using sh hv(1) uint_ge_0 [of "wa_start w"] by simp
      qed
      then have "uint (wa_ext_highest w - wa_get_extended_start w + 1) \<le> 32768"
        using hv(1) uint_ge_0 [of "wa_start w"] by linarith
      then have "\<not> wa_ext_highest w - wa_get_extended_start w + 1 > 32768" by (simp add: word_less_def)
      moreover have "v - wa_start w > 32768"
      proof -
        have "uint (v - wa_highest w) = uint v - uint (wa_highest w)" "uint (v - wa_start w) = uint v - uint (wa_start w)"
          using hv sh by (simp_all add: uint_sub_lem [THEN iffD1])
        then show ?thesis using late sh by (simp add: word_less_def)
      qed
      ultimately show False using \<open>\<not> (\<not> wa_ext_highest w - wa_get_extended_start w + 1 > 32768 \<and> v - wa_start w > 32768)\<close> by blast
    qed
  qed
  have down: "wa_cycles w - 65536 = of_nat (65536 * (c - 1))" if "c \<noteq> 0"
    using that c(1) by (cases c) (simp_all add: algebra_simps)
  have here: "get_extended (wa_cycles w) v < sn_limit" unfolding c(1) by (rule small [OF c(2)])
  have below: "get_extended (wa_cycles w - 65536) v < sn_limit"
    if "is_wrap_back w v (wa_highest w)" "\<not> (\<not> wa_ext_highest w - wa_get_extended_start w + 1 > 32768 \<and> v - wa_start w > 32768)"
  proof -
    have nz: "c \<noteq> 0" using zero that by blast
    have "c - 1 < n" using c(2) by simp
    then show ?thesis unfolding down [OF nz] by (rule small)
  qed
  show "wr_ext_val (snd (maybe_adjust_start w v)) < sn_limit"
    using here below c(5) by (simp add: maybe_adjust_start_def Let_def c(6) half)
qed

lemma frames_in_update:
  assumes w: "frames_in w n" and n: "n < 2 ^ 44"
  shows "frames_in (fst (update_with_order_known w v ok)) (Suc n)" "wr_ext_val (snd (update_with_order_known w v ok)) < sn_limit"
proof -
  have half: "drop_bit 1 (65536 :: u64) = 32768" by (simp add: drop_bit_eq_div)
  have u16: "(ucast (32768 :: u64) :: u16) = 32768" by simp
  have "frames_in (fst (update_with_order_known w v ok)) (Suc n) \<and> wr_ext_val (snd (update_with_order_known w v ok)) < sn_limit"
  proof (cases "wa_initialized w")
    case False
    have "uint (ucast v :: u64) < 2 ^ 62" using uint_lt2p [of v] by (simp add: unsigned_ucast_eq take_bit_int_eq_self)
    then show ?thesis using w False
      by (auto simp: update_with_order_known_def frames_in_def update_ext_highest_def get_extended_def word_less_def intro!: exI [of _ 0])
  next
    case init: True
    show ?thesis
    proof (cases "\<not> ok \<and> v - wa_highest w > 32768")
      case True
      have "fst (maybe_adjust_start w v) = w" "wr_ext_val (snd (maybe_adjust_start w v)) < sn_limit"
        using late_frame [OF w init n] True by blast+
      moreover have "frames_in w (Suc n)" using w by (auto simp: frames_in_def intro: less_SucI)
      moreover have "update_with_order_known w v ok = maybe_adjust_start w v"
        using True init w half by (simp add: update_with_order_known_def frames_in_def)
      ultimately show ?thesis by simp
    next
      case False
      obtain c where c: "wa_cycles w = of_nat (65536 * c)" "c < n" "c = 0 \<longrightarrow> wa_start w \<le> wa_highest w" "wa_full_range w = 65536" "\<not> wa_restart_allowed w"
        using w init by (auto simp: frames_in_def)
      define d where "d = (if v < wa_highest w then Suc c else c)"
      have cyc: "(if v < wa_highest w then wa_cycles w + 65536 else wa_cycles w) = of_nat (65536 * d)" by (simp add: d_def c(1))
      have d: "d < Suc n" "d < 2 ^ 44" "d = 0 \<longrightarrow> wa_start w \<le> v" using c(2,3) n by (auto simp: d_def)
      have val: "get_extended (of_nat (65536 * d)) v < sn_limit"
        using ext_bound [OF d(2), of v] d(2) uint_lt2p [of v] by (simp add: get_extended_def word_less_def)
      have "update_with_order_known w v ok =
        (w\<lparr>wa_cycles := of_nat (65536 * d), wa_highest := v, wa_ext_highest := get_extended (of_nat (65536 * d)) v\<rparr>,
         wa_result_zero\<lparr>wr_pre_ext_highest := wa_ext_highest w, wr_ext_val := get_extended (of_nat (65536 * d)) v\<rparr>)"
      proof -
        have "update_with_order_known w v ok = (let w1 = (if v < wa_highest w then w\<lparr>wa_cycles := wa_cycles w + 65536\<rparr> else w);
           w2 = update_ext_highest (w1\<lparr>wa_highest := v\<rparr>)
         in (w2, wa_result_zero\<lparr>wr_pre_ext_highest := wa_ext_highest w, wr_ext_val := wa_ext_highest w2\<rparr>))"
          unfolding update_with_order_known_def c(4) half u16 if_not_P [OF False] using init by simp
        also have "(if v < wa_highest w then w\<lparr>wa_cycles := wa_cycles w + 65536\<rparr> else w) = w\<lparr>wa_cycles := of_nat (65536 * d)\<rparr>"
          using cyc by (cases "v < wa_highest w") auto
        finally show ?thesis by (simp add: Let_def update_ext_highest_def)
      qed
      then show ?thesis using val d init c by (auto simp: frames_in_def get_extended_def intro!: exI [of _ d])
    qed
  qed
  then show "frames_in (fst (update_with_order_known w v ok)) (Suc n)" "wr_ext_val (snd (update_with_order_known w v ok)) < sn_limit" by blast+
qed
text \<open>The history and the frames: no index leaves its slice.\<close>

lemma ph_add_ok:
  assumes ok: "ph_ok ph"
  obtains ph' where "ph_add seq ph = Some ph'" "ph_ok ph'"
proof -
  have set_ok: "\<exists>q'. ph_set seq True q = Some q' \<and> ph_ok q'" if "ph_ok q" for q
    by (rule ph_set_effect [OF that, of seq True]) blast
  have "ph_ok (ph\<lparr>ph_inited := True, ph_base := b, ph_last := seq\<rparr>) = ph_ok ph" for b by (simp add: ph_ok_def)
  then have first: "ph_ok (ph\<lparr>ph_inited := True, ph_base := b, ph_last := seq\<rparr>)" for b using ok by blast
  obtain ph1 where p1: "ph_clear (unat (seq - (ph_last ph + 1))) (ph_last ph + 1) ph = Some ph1" "ph_ok ph1"
    using ph_clear_effect [OF ok] by blast
  obtain ph2 where "ph_set seq True ph1 = Some ph2" "ph_ok ph2" using set_ok [OF p1(2)] by blast
  then have "\<exists>ph'. ph_add seq ph = Some ph' \<and> ph_ok ph'"
    using set_ok [OF ok] set_ok [OF first] p1 ok by (simp add: ph_add_def ph_ok_update)
  then show ?thesis using that by blast
qed

lemma fe_add_returns: "ph_ok ph \<Longrightarrow> \<exists>fe'. fe_add ph seq d fe = Some fe'"
  by (auto simp: fe_add_def Let_def consecutive_means_all split: option.split)

definition fk_ok :: "frame_checker \<Rightarrow> bool" where
  "fk_ok fc \<longleftrightarrow> ph_ok (fk_history fc) \<and> fk_frames fc \<noteq> [] \<and> fk_count fc = length (fk_frames fc) \<and>
    fk_base fc \<le> fk_last fc \<and> fk_last fc < sn_limit"

lemma fk_okD:
  assumes "fk_ok fc"
  shows "ph_ok (fk_history fc)" "0 < fk_count fc" "fk_count fc = length (fk_frames fc)" "fk_base fc \<le> fk_last fc" "fk_last fc < sn_limit"
  using assms by (auto simp: fk_ok_def)

lemma fk_slot_in_range:
  assumes "0 < fk_count fc" "fk_base fc \<le> e" "e < sn_limit"
  shows "0 \<le> fk_slot fc e" "fk_slot fc e < int (fk_count fc)"
proof -
  have "fk_base fc < sn_limit" using assms(2,3) by (rule le_less_trans)
  then have "sint (e - fk_base fc) = uint e - uint (fk_base fc)" using sn_diff [OF assms(3)] by (simp add: i64_of_def)
  then have "fk_slot fc e = (uint e - uint (fk_base fc)) mod int (fk_count fc)"
    using assms(2) by (simp add: fk_slot_def go_rem_def word_le_def)
  then show "0 \<le> fk_slot fc e" "fk_slot fc e < int (fk_count fc)" using assms(1) by simp_all
qed

lemma fk_add_to_frame_returns:
  assumes "ph_ok (fk_history fc)" "0 < fk_count fc" "fk_count fc = length (fk_frames fc)" "fk_base fc \<le> e" "e < sn_limit"
  obtains frames where "fk_add_to_frame seq e d fc = Some (fc\<lparr>fk_frames := frames\<rparr>)" "length frames = fk_count fc"
proof -
  have slot: "0 \<le> fk_slot fc e" "fk_slot fc e < int (length (fk_frames fc))"
    using fk_slot_in_range [OF assms(2,4,5)] assms(3) by simp_all
  obtain fe' where "fe_add (fk_history fc) seq d (fk_frames fc ! nat (fk_slot fc e)) = Some fe'"
    using fe_add_returns [OF assms(1)] by blast
  then show ?thesis using that [of "(fk_frames fc)[nat (fk_slot fc e) := fe']"] slot assms(3) by (simp add: fk_add_to_frame_def)
qed

lemma fk_reset_returns:
  "0 < fk_count fc \<Longrightarrow> fk_count fc = length (fk_frames fc) \<Longrightarrow> fk_base fc \<le> e \<Longrightarrow> uint e + int n \<le> 2 ^ 62 \<Longrightarrow>
   \<exists>frames. fk_reset n e fc = Some (fc\<lparr>fk_frames := frames\<rparr>) \<and> length frames = fk_count fc"
proof (induction n arbitrary: e fc)
  case 0
  then show ?case by (intro exI [of _ "fk_frames fc"]) simp
next
  case (Suc n)
  have e: "e < sn_limit" using Suc.prems(4) by (simp add: word_less_def)
  note slot = fk_slot_in_range [OF Suc.prems(1,3) e, unfolded Suc.prems(2)]
  define fc1 where "fc1 = fc\<lparr>fk_frames := (fk_frames fc)[nat (fk_slot fc e) := frame_entity_reset]\<rparr>"
  have succ: "uint (e + 1) = uint e + 1" by (rule below_limit [OF e])
  have "fk_base fc1 \<le> e + 1" "uint (e + 1) + int n \<le> 2 ^ 62" "0 < fk_count fc1" "fk_count fc1 = length (fk_frames fc1)"
    using Suc.prems by (simp_all add: fc1_def word_le_def succ)
  then obtain frames where "fk_reset n (e + 1) fc1 = Some (fc1\<lparr>fk_frames := frames\<rparr>)" "length frames = fk_count fc1"
    using Suc.IH by blast
  then show ?case using slot Suc.prems(2) by (intro exI [of _ frames]) (simp add: fc1_def)
qed

lemma fk_add_ok:
  assumes ok: "fk_ok fc0" and e: "e < sn_limit"
  obtains fc where "fk_add seq e d fc0 = Some fc" "fk_ok fc"
proof -
  obtain ph where ph: "ph_add seq (fk_history fc0) = Some ph" "ph_ok ph" using ph_add_ok ok unfolding fk_ok_def by blast
  define fc where "fc = (if \<not> fk_inited fc0 then fc0\<lparr>fk_history := ph, fk_inited := True, fk_base := e, fk_last := e\<rparr> else fc0\<lparr>fk_history := ph\<rparr>)"
  have fc: "fk_ok fc" using ok ph(2) e by (simp add: fc_def fk_ok_def)
  note f = fk_okD [OF this]
  have step: "fk_add seq e d fc0 =
    (if e < fk_base fc then Some fc
     else if e \<le> fk_last fc then (if fk_last fc - e \<ge> of_nat (fk_count fc) then Some fc else fk_add_to_frame seq e d fc)
     else do {
       fc2 \<leftarrow> fk_reset (unat (e + 1 - (fk_last fc + 1))) (fk_last fc + 1) fc;
       fc3 \<leftarrow> fk_add_to_frame seq e d fc2;
       Some (fc3\<lparr>fk_last := e\<rparr>) })" by (simp add: fk_add_def ph(1) fc_def Let_def)
  consider "e < fk_base fc" | "fk_base fc \<le> e" "e \<le> fk_last fc" | "fk_base fc \<le> e" "fk_last fc < e" by (meson not_le)
  then have "\<exists>fc'. fk_add seq e d fc0 = Some fc' \<and> fk_ok fc'"
  proof cases
    case 1
    then show ?thesis using fc by (simp add: step)
  next
    case 2
    obtain frames where "fk_add_to_frame seq e d fc = Some (fc\<lparr>fk_frames := frames\<rparr>)" "length frames = fk_count fc"
      by (rule fk_add_to_frame_returns [OF f(1-3) 2(1) e])
    then show ?thesis using 2 fc by (auto simp: step fk_ok_def)
  next
    case 3
    have n: "uint (fk_last fc + 1) = uint (fk_last fc) + 1" by (rule below_limit [OF f(5)])
    have "e + 1 - (fk_last fc + 1) = e - fk_last fc" by simp
    moreover have "uint (e - fk_last fc) = uint e - uint (fk_last fc)" using 3(2) by (simp add: word_less_def uint_sub_lem [THEN iffD1])
    ultimately have u: "int (unat (e + 1 - (fk_last fc + 1))) = uint e - uint (fk_last fc)" by simp
    have "fk_base fc \<le> fk_last fc + 1" using f(4) n by (simp add: word_le_def)
    moreover have "uint (fk_last fc + 1) + int (unat (e + 1 - (fk_last fc + 1))) \<le> 2 ^ 62" using u n e by (simp add: word_less_def)
    ultimately obtain frames where r: "fk_reset (unat (e + 1 - (fk_last fc + 1))) (fk_last fc + 1) fc = Some (fc\<lparr>fk_frames := frames\<rparr>)"
      "length frames = fk_count fc" using fk_reset_returns [OF f(2,3)] by blast
    obtain frames' where "fk_add_to_frame seq e d (fc\<lparr>fk_frames := frames\<rparr>) = Some ((fc\<lparr>fk_frames := frames\<rparr>)\<lparr>fk_frames := frames'\<rparr>)"
      "length frames' = fk_count (fc\<lparr>fk_frames := frames\<rparr>)"
      by (rule fk_add_to_frame_returns [of "fc\<lparr>fk_frames := frames\<rparr>" e]) (use f r(2) 3(1) e in simp_all)
    then show ?thesis using 3 r(1) f e by (auto simp: step fk_ok_def)
  qed
  then show ?thesis using that by blast
qed

lemma frame_integrity_returns: "fk_ok fc \<Longrightarrow> \<exists>b. frame_integrity fc e = Some b"
proof (cases "e < fk_base fc \<or> e > fk_last fc \<or> fk_last fc - e \<ge> of_nat (fk_count fc)")
  case False
  assume ok: "fk_ok fc"
  note f = fk_okD [OF ok]
  have e: "fk_base fc \<le> e" "e < sn_limit" using False f(5) by (auto intro: le_less_trans)
  have "0 \<le> fk_slot fc e" "fk_slot fc e < int (length (fk_frames fc))"
    unfolding f(3) [symmetric] by (rule fk_slot_in_range [OF f(2) e])+
  then show ?thesis unfolding frame_integrity_def if_not_P [OF False] by simp
qed (intro exI [of _ False], simp add: frame_integrity_def)

lemma new_checker_ok: "fk_ok (new_frame_checker integrity_check_frame integrity_check_pkt)"
  by (simp add: fk_ok_def new_frame_checker_def integrity_check_frame_def integrity_check_pkt_def new_history word_less_def)

text \<open>A structure that has been read has the layers of its decode targets.\<close>

lemma target_layer_returns:
  assumes "\<forall>t \<in> set ts. target < length (ft_dtis t)"
  shows "\<exists>l. target_layer ts target = Some l"
proof -
  define f where "f = (\<lambda>(t :: fd_template) acc. do {
     l \<leftarrow> acc;
     x \<leftarrow> go_nth (ft_dtis t) (int target);
     Some (if x \<noteq> DecodeTargetNotPresent
       then VideoLayer (max (vl_spatial l) (ft_spatial t)) (max (vl_temporal l) (ft_temporal t)) else l) })"
  have "\<exists>l. fold f ts (Some l0) = Some l" for l0 using assms
  proof (induction ts arbitrary: l0)
    case (Cons t ts)
    have "\<exists>l1. f t (Some l0) = Some l1" using Cons.prems by (simp add: f_def)
    then show ?case using Cons by auto
  qed simp
  then show ?thesis unfolding target_layer_def f_def by blast
qed

lemma all_some_map: "\<forall>x \<in> set xs. \<exists>y. f x = Some y \<Longrightarrow> all_some (map f xs) = Some (map (\<lambda>x. the (f x)) xs)"
  by (induction xs) auto

text \<open>A function that sorts keeps the elements.\<close>

definition sorts :: "(decode_target_layer list \<Rightarrow> decode_target_layer list) \<Rightarrow> bool" where
  "sorts sort_desc \<longleftrightarrow> (\<forall>xs. mset (sort_desc xs) = mset xs)"

text \<open>The decode targets of a structure, each once, and targets that are bits of a mask.\<close>

definition covers :: "fd_structure \<Rightarrow> decode_target_layer list \<Rightarrow> bool" where
  "covers s dts \<longleftrightarrow> distinct (map dl_target dts) \<and> dl_target ` set dts = {..<nat (fs_num_targets s)}"

definition targets_ok :: "decode_target_layer list \<Rightarrow> bool" where
  "targets_ok dts \<longleftrightarrow> (\<forall>dt \<in> set dts. dl_target dt < 32)"

lemma process_structure_returns:
  assumes s: "fs_ok s" and sort: "sorts sort_desc"
  obtains dts where "process_frame_dependency_structure sort_desc s = Some dts" "targets_ok dts"
    "covers s dts"
proof -
  let ?f = "\<lambda>target. map_option (\<lambda>l. \<lparr>dl_target = target, dl_layer = l\<rparr>) (target_layer (fs_templates s) target)"
  have "\<forall>t \<in> set (fs_templates s). int (length (ft_dtis t)) = fs_num_targets s"
    using s by (auto simp: fs_ok_def template_ok_def list_all_iff)
  then have layer: "\<exists>l. target_layer (fs_templates s) target = Some l" if "target < nat (fs_num_targets s)" for target
    using that by (intro target_layer_returns) auto
  define dts where "dts = map (\<lambda>target. the (?f target)) [0..<nat (fs_num_targets s)]"
  have "all_some (map ?f [0..<nat (fs_num_targets s)]) = Some dts"
    unfolding dts_def by (rule all_some_map) (use layer in auto)
  then have res: "process_frame_dependency_structure sort_desc s = Some (sort_desc dts)"
    by (simp add: process_frame_dependency_structure_def)
  have names: "map dl_target dts = [0..<nat (fs_num_targets s)]"
    unfolding dts_def map_map by (rule map_idI) (use layer in fastforce)
  have m: "mset (sort_desc dts) = mset dts" using sort unfolding sorts_def by blast
  then have m': "mset (map dl_target (sort_desc dts)) = mset (map dl_target dts)" by simp
  have n: "distinct (map dl_target (sort_desc dts))" "set (map dl_target (sort_desc dts)) = {..<nat (fs_num_targets s)}"
    using mset_eq_imp_distinct_iff [OF m'] mset_eq_setD [OF m'] unfolding names by auto
  have "fs_num_targets s \<le> 32" using s unfolding fs_ok_def by blast
  then have le: "nat (fs_num_targets s) \<le> 32" by simp
  have "targets_ok (sort_desc dts)" unfolding targets_ok_def
  proof
    fix dt assume "dt \<in> set (sort_desc dts)"
    then have "dl_target dt \<in> set (map dl_target (sort_desc dts))" by simp
    then show "dl_target dt < 32" using n(2) le by auto
  qed
  then show ?thesis using that res n by (auto simp: covers_def)
qed

text \<open>
  The parser between two packets, \<open>n\<close> packets after its start, and what it promises of a descriptor
  it hands out: its dependencies and, where the flags say so, its structure and its bit mask are
  there, and it is not of a frame before the one that brought its structure.
\<close>

definition pr_ok :: "nat \<Rightarrow> dd_parser \<Rightarrow> bool" where
  "pr_ok n r \<longleftrightarrow> frames_in (pr_seq r) n \<and> frames_in (pr_frame r) n \<and> fk_ok (pr_checker r) \<and>
    (\<forall>s. pr_structure r = Some s \<longrightarrow> fs_ok s \<and> covers s (pr_targets r)) \<and> targets_ok (pr_targets r)"

definition ed_ok :: "ext_dd \<Rightarrow> bool" where
  "ed_ok e \<longleftrightarrow> dd_dependencies (ed_descriptor e) \<noteq> None \<and> targets_ok (ed_targets e) \<and>
    (ed_structure_updated e \<longrightarrow> ed_active_updated e \<and>
      (\<exists>s. dd_attached (ed_descriptor e) = Some s \<and> fs_ok s \<and> covers s (ed_targets e))) \<and>
    (ed_active_updated e \<longrightarrow> dd_bitmask (ed_descriptor e) \<noteq> None) \<and>
    ed_key_frame_num e \<le> ed_frame_num e \<and> ed_frame_num e < sn_limit"

lemma parser_mask_keeps:
  assumes "parser_mask ext_seq (r, e) = ((r', e'), changed)"
  shows "pr_structure r' = pr_structure r" "pr_targets r' = pr_targets r" "pr_seq r' = pr_seq r" "pr_frame r' = pr_frame r"
    "pr_checker r' = pr_checker r" "pr_structure_frame r' = pr_structure_frame r" "ed_descriptor e' = ed_descriptor e"
    "ed_structure_updated e' = ed_structure_updated e" "ed_frame_num e' = ed_frame_num e"
    "ed_active_updated e' \<Longrightarrow> ed_active_updated e \<or> dd_bitmask (ed_descriptor e) \<noteq> None" "ed_active_updated e \<Longrightarrow> ed_active_updated e'"
    "ed_integrity e' = ed_integrity e" "pr_restart_generation r' = pr_restart_generation r"
  using assms by (auto simp: parser_mask_def Let_def split: option.splits if_splits)

lemma maybe_restart_ok:
  assumes "pr_ok n r" "maybe_restart now r = (r1, due)"
  shows "pr_ok n r1"
proof -
  have "pr_ok n (parser_restart r)" using assms(1) by (simp add: pr_ok_def parser_restart_def new_checker_ok targets_ok_def)
  then show ?thesis using assms by (auto simp: maybe_restart_def pr_ok_def Let_def split: if_splits option.splits)
qed

lemma frames_in_mono: "frames_in w n \<Longrightarrow> frames_in w (Suc n)"
  by (auto simp: frames_in_def intro: less_SucI)

lemma pr_ok_mono: "pr_ok n r \<Longrightarrow> pr_ok (Suc n) r"
  by (simp add: pr_ok_def frames_in_mono)

lemma parser_frame_ok:
  assumes ok: "pr_ok n r" and n: "n < 2 ^ 44" and sort: "sorts sort_desc"
    and d: "dd_dependencies d \<noteq> None" "\<forall>s. dd_attached d = Some s \<longrightarrow> fs_ok s \<and> dd_bitmask d \<noteq> None"
  obtains r' res changed where "parser_frame sort_desc now sn d r = Some (r', res, changed)" "pr_ok (Suc n) r'"
    "\<And>e. res = Inr e \<Longrightarrow> ed_ok e"
proof -
  obtain r1 due where m: "maybe_restart now r = (r1, due)" by fastforce
  have ok1: "pr_ok n r1" by (rule maybe_restart_ok [OF ok m])
  then have fr: "frames_in (pr_seq r1) n" "frames_in (pr_frame r1) n" by (simp_all add: pr_ok_def)
  obtain seq' sres where sq: "wa_update (pr_seq r1) sn = (seq', sres)" by fastforce
  obtain frame' fres where fm: "update_with_order_known (pr_frame r1) (dd_frame_number d) due = (frame', fres)" by fastforce
  have s: "frames_in seq' (Suc n)"
    using frames_in_update(1) [OF fr(1) n, of sn False] sq by (simp add: wa_update_def)
  have f: "frames_in frame' (Suc n)" "wr_ext_val fres < sn_limit"
    using frames_in_update [OF fr(2) n, of "dd_frame_number d" due] fm by simp_all
  define r2 where "r2 = r1\<lparr>pr_seq := seq', pr_frame := frame'\<rparr>"
  have ok2: "pr_ok (Suc n) r2" using ok1 s f(1) by (simp add: pr_ok_def r2_def)
  then obtain fc where fc: "fk_add (wr_ext_val sres) (wr_ext_val fres) d (pr_checker r2) = Some fc" "fk_ok fc"
    using fk_add_ok [OF _ f(2)] unfolding pr_ok_def by blast
  obtain b where b: "frame_integrity fc (wr_ext_val fres) = Some b" using frame_integrity_returns [OF fc(2)] by blast
  define r3 where "r3 = r2\<lparr>pr_checker := fc\<rparr>"
  have ok3: "pr_ok (Suc n) r3" using ok2 fc(2) by (simp add: pr_ok_def r3_def)
  define e where "e = \<lparr>ed_descriptor = d, ed_targets = [], ed_structure_updated = False, ed_active_updated = False,
    ed_integrity = b, ed_frame_num = wr_ext_val fres, ed_key_frame_num = 0, ed_restart_generation = pr_restart_generation r3\<rparr>"
  define x where "x = (case dd_attached d of None \<Rightarrow> Some (r3, e) | Some s \<Rightarrow> parser_structure sort_desc s (wr_ext_val fres) (r3, e))"
  have run: "parser_frame sort_desc now sn d r =
    (if wr_ext_val fres < pr_structure_frame r2 then Some (r2, Inl ErrFrameEarlierThanKeyFrame, None)
     else if dd_attached d \<noteq> None \<and> \<not> dd_first d then Some (r3, Inl ErrDDStructureAttachedToNonFirstPacket, None)
     else do { x \<leftarrow> x; let ((r4, e4), changed) = parser_mask (wr_ext_val sres) x;
       Some (r4, Inr (e4\<lparr>ed_targets := pr_targets r4, ed_key_frame_num := pr_structure_frame r4\<rparr>), changed) })"
    by (simp add: parser_frame_def m sq fm Let_def r2_def r3_def e_def x_def fc(1) [unfolded r2_def, simplified] b cong: option.case_cong)
  show ?thesis
  proof (cases "wr_ext_val fres < pr_structure_frame r2")
    case True
    then show ?thesis using that ok2 by (simp add: run)
  next
    case late: False
    show ?thesis
    proof (cases "dd_attached d \<noteq> None \<and> \<not> dd_first d")
      case True
      then show ?thesis using that late ok3 by (simp add: run)
    next
      case False
      obtain r4 e4 where x: "x = Some (r4, e4)" "pr_ok (Suc n) r4" "ed_descriptor e4 = d" "ed_frame_num e4 = wr_ext_val fres"
        "ed_structure_updated e4 \<longleftrightarrow> dd_attached d \<noteq> None" "ed_active_updated e4 \<longleftrightarrow> dd_attached d \<noteq> None"
        "pr_structure_frame r4 \<le> wr_ext_val fres"
        "\<forall>s. dd_attached d = Some s \<longrightarrow> covers s (pr_targets r4)"
      proof (cases "dd_attached d")
        case None
        then show ?thesis using that [of r3 e] ok3 late by (simp add: x_def e_def r3_def)
      next
        case (Some st)
        then have st: "fs_ok st" using d(2) by simp
        obtain dts where "process_frame_dependency_structure sort_desc st = Some dts" "targets_ok dts" "covers st dts"
          by (rule process_structure_returns [OF st sort])
        then show ?thesis using that [of "r3\<lparr>pr_structure := Some st, pr_targets := dts, pr_structure_frame := wr_ext_val fres\<rparr>"
            "e\<lparr>ed_structure_updated := True, ed_active_updated := True\<rparr>"] Some st ok3
          by (simp add: x_def parser_structure_def pr_ok_def e_def)
      qed
      obtain r5 e5 changed where p: "parser_mask (wr_ext_val sres) (r4, e4) = ((r5, e5), changed)" by (metis prod.exhaust)
      note keeps = parser_mask_keeps [OF p]
      have "pr_ok (Suc n) r5" using x(2) by (simp add: pr_ok_def keeps(1-5))
      moreover have "ed_ok (e5\<lparr>ed_targets := pr_targets r5, ed_key_frame_num := pr_structure_frame r5\<rparr>)"
      proof -
        have "targets_ok (pr_targets r4)" using x(2) by (simp add: pr_ok_def)
        moreover have "dd_bitmask d \<noteq> None" if "ed_active_updated e5" using keeps(10) [OF that] x(3,6) d(2) by auto
        moreover have "ed_active_updated e5" if "dd_attached d \<noteq> None" using keeps(11) x(6) that by blast
        ultimately show ?thesis using keeps x d f(2) by (auto simp: ed_ok_def)
      qed
      moreover have "parser_frame sort_desc now sn d r =
          Some (r5, Inr (e5\<lparr>ed_targets := pr_targets r5, ed_key_frame_num := pr_structure_frame r5\<rparr>), changed)"
        unfolding run if_not_P [OF late] if_not_P [OF False] using p x(1) by simp
      ultimately show ?thesis using that by blast
    qed
  qed
qed

lemma parser_parse_ok:
  assumes ok: "pr_ok n r" and n: "n < 2 ^ 44" and sort: "sorts sort_desc"
  obtains r' vl res changed where "parser_parse sort_desc now sn ext r = Some (r', vl, res, changed)" "pr_ok (Suc n) r'"
    "\<And>e. res = Inr e \<Longrightarrow> ed_ok e"
proof (cases ext)
  case None
  then show ?thesis using that pr_ok_mono [OF ok] by (simp add: parser_parse_def)
next
  case (Some buf)
  have known: "\<forall>s. pr_structure r = Some s \<longrightarrow> fs_ok s" using ok by (simp add: pr_ok_def)
  obtain res where u: "dd_unmarshal buf (pr_structure r) = Some res"
    "\<forall>m d. res = Inr (m, d) \<longrightarrow> 0 \<le> m \<and> m \<le> int (length buf) \<and>
      (\<exists>s. fs_ok s \<and> dd_ok s d \<and> (if dd_attached d = None then pr_structure r = Some s else dd_attached d = Some s))"
    using dd_unmarshal_returns [OF known, of buf] by blast
  show ?thesis
  proof (cases res)
    case (Inl e)
    then show ?thesis using that Some u(1) pr_ok_mono [OF ok] by (simp add: parser_parse_def)
  next
    case (Inr md)
    obtain m d where md: "md = (m, d)" by fastforce
    then obtain s where s: "fs_ok s" "dd_ok s d" "dd_attached d \<noteq> None \<Longrightarrow> dd_attached d = Some s"
      using u(2) Inr by (metis (full_types))
    have "dd_dependencies d \<noteq> None" using s(2) by (cases "dd_dependencies d") (simp_all add: dd_ok_def)
    moreover have "dd_attached d = None" if "dd_bitmask d = None" using s(2) that by (simp add: dd_ok_def)
    then have "\<forall>st. dd_attached d = Some st \<longrightarrow> fs_ok st \<and> dd_bitmask d \<noteq> None" using s(1,3) by fastforce
    ultimately obtain r' out changed where "parser_frame sort_desc now sn d r = Some (r', out, changed)" "pr_ok (Suc n) r'"
      "\<And>e. out = Inr e \<Longrightarrow> ed_ok e" using parser_frame_ok [OF ok n sort] by metis
    then show ?thesis using that Some u(1) Inr md by (simp add: parser_parse_def)
  qed
qed

text \<open>The packets of a stream, one after the other: their times, sequence numbers and extensions.\<close>

fun parser_run ::
  "(decode_target_layer list \<Rightarrow> decode_target_layer list) \<Rightarrow> dd_parser \<Rightarrow> (int \<times> u16 \<times> u8 list option) list \<Rightarrow>
   (dd_parser \<times> (parse_err + ext_dd) list) option" where
  "parser_run sort_desc r [] = Some (r, [])"
| "parser_run sort_desc r ((now, sn, ext) # ps) = (case parser_parse sort_desc now sn ext r of
     None \<Rightarrow> None
   | Some (r1, vl, res, changed) \<Rightarrow> (case parser_run sort_desc r1 ps of
       None \<Rightarrow> None
     | Some (r2, outs) \<Rightarrow> Some (r2, res # outs)))"

lemma parser_run_ok:
  "pr_ok n r \<Longrightarrow> n + length ps \<le> 2 ^ 44 \<Longrightarrow> sorts sort_desc \<Longrightarrow>
   \<exists>r' outs. parser_run sort_desc r ps = Some (r', outs) \<and> pr_ok (n + length ps) r' \<and> length outs = length ps \<and>
     (\<forall>e. Inr e \<in> set outs \<longrightarrow> ed_ok e)"
proof (induction ps arbitrary: n r)
  case (Cons p ps)
  obtain now sn ext where p: "p = (now, sn, ext)" by (metis prod.exhaust)
  have n: "n < 2 ^ 44" using Cons.prems(2) by simp
  obtain r1 vl res changed where r1: "parser_parse sort_desc now sn ext r = Some (r1, vl, res, changed)" "pr_ok (Suc n) r1"
    "\<And>e. res = Inr e \<Longrightarrow> ed_ok e" using parser_parse_ok [OF Cons.prems(1) n Cons.prems(3)] by metis
  have "Suc n + length ps \<le> 2 ^ 44" using Cons.prems(2) by simp
  then obtain r2 outs where "parser_run sort_desc r1 ps = Some (r2, outs)" "pr_ok (Suc n + length ps) r2" "length outs = length ps"
    "\<forall>e. Inr e \<in> set outs \<longrightarrow> ed_ok e" using Cons.IH [OF r1(2) _ Cons.prems(3)] by blast
  then show ?case using p r1 by auto
qed simp

lemma new_parser_ok: "pr_ok 0 (new_dd_parser restart)"
  by (simp add: pr_ok_def new_dd_parser_def new_checker_ok targets_ok_def frames_in_def new_wrap_around_def)

text \<open>
  C29. The parser of dependency descriptors survives every stream: whatever bytes the extensions hold,
  with packets lost, repeated, reordered or missing the extension and with restarts, fewer than
  2^44 packets do not make it panic, and every descriptor it hands out is fit for the selectors: it
  has its dependencies, a structure with each of its decode targets once where it says that the
  structure changed and a bit mask where it says that the decode targets changed, all targets are bits of the mask, and its frame is not one
  before the frame that brought the structure.
\<close>

theorem parser_survives:
  assumes "sorts sort_desc" "length packets \<le> 2 ^ 44"
  shows "\<exists>r outs. parser_run sort_desc (new_dd_parser restart) packets = Some (r, outs) \<and> length outs = length packets \<and>
    (\<forall>e. Inr e \<in> set outs \<longrightarrow> ed_ok e)"
  using parser_run_ok [OF new_parser_ok _ assms(1), of packets restart] assms(2) by auto

lemma sort_key_sorts: "sorts (\<lambda>dts. rev (sort_key (\<lambda>dt. vl_spatial (dl_layer dt) * 8 + vl_temporal (dl_layer dt)) dts))"
  by (simp add: sorts_def)

theorem parser_survives_witness:
  "\<exists>r outs. parser_run (\<lambda>dts. rev (sort_key (\<lambda>dt. vl_spatial (dl_layer dt) * 8 + vl_temporal (dl_layer dt)) dts)) (new_dd_parser True)
     [(0, 7, Some [0xC0, 0, 1, 0x80, 0]), (1, 8, None), (40000000000, 9, Some [0xFF])] = Some (r, outs) \<and>
    length outs = length [(0 :: int, 7 :: u16, Some [0xC0 :: u8, 0, 1, 0x80, 0]), (1, 8, None), (40000000000, 9, Some [0xFF])] \<and>
    (\<forall>e. Inr e \<in> set outs \<longrightarrow> ed_ok e)"
  by (rule parser_survives [OF sort_key_sorts]) simp

end
