(* ===== verification/Dd_Selector.thy ===== *)
theory Dd_Selector
  imports Dd_Parser Dd_Round_Trip Layer_Selector Decision_Cache
begin

text \<open>
  Which packets of a layered stream a subscriber gets when the packets carry dependency descriptors
  (\<open>DependencyDescriptor\<close> in \<open>pkg/sfu/videolayerselector/dependencydescriptor.go\<close> with
  \<open>framechain.go\<close>, \<open>decodetarget.go\<close> and \<open>framenumberwrapper.go\<close>).

  The frame chains are shared: the selector, the decode targets and the callbacks that wait in the
  decision cache hold pointers to them.  They live in a list, the pointers are positions in it, and a
  chain is never removed from the list.  Every chain that is in use refers to the decision cache of
  the selector, since a new cache is made only when all chains are given up.
\<close>

section \<open>Frame chains\<close>

record frame_chain =
  fc_broken :: bool
  fc_idx :: nat
  fc_active :: bool
  fc_updating :: bool
  fc_expect :: "u64 list"

definition new_frame_chain :: "nat \<Rightarrow> frame_chain" where
  "new_frame_chain idx = \<lparr>fc_broken = True, fc_idx = idx, fc_active = False, fc_updating = False, fc_expect = []\<rparr>"

text \<open>The first frame that is found makes room for the last one.\<close>

definition drop_expected :: "u64 \<Rightarrow> u64 list \<Rightarrow> u64 list" where
  "drop_expected f xs = (case find (\<lambda>i. xs ! i = f) [0..<length xs] of
     None \<Rightarrow> xs
   | Some i \<Rightarrow> butlast (xs[i := last xs]))"

definition on_expect_frame_changed :: "u64 \<Rightarrow> selector_decision \<Rightarrow> frame_chain \<Rightarrow> frame_chain" where
  "on_expect_frame_changed f sd fc =
    (if fc_broken fc then fc
     else if f \<in> set (fc_expect fc)
       then fc\<lparr>fc_broken := sd \<noteq> SdForwarded, fc_expect := drop_expected f (fc_expect fc)\<rparr>
     else fc)"

text \<open>The callbacks of the decision cache.\<close>

definition deliver :: "notice list \<Rightarrow> frame_chain list \<Rightarrow> frame_chain list" where
  "deliver ns heap = fold (\<lambda>(i, f, sd) h. h[i := on_expect_frame_changed f sd (h ! i)]) ns heap"

text \<open>
  A frame arrives at the chain \<open>i\<close>.  The result tells whether the chain is intact.
\<close>

definition fc_on_frame ::
  "u64 \<Rightarrow> fd_template \<Rightarrow> nat \<Rightarrow> frame_chain \<Rightarrow> decision_cache \<Rightarrow> (decision_cache \<times> frame_chain \<times> bool) option" where
  "fc_on_frame e fd i fc c =
    (if \<not> fc_active fc then Some (c, fc, False)
     else if length (ft_chain_diffs fd) \<le> fc_idx fc then Some (c, fc, fc_broken fc)
     else if ft_chain_diffs fd ! fc_idx fc = 0 then Some (c, fc\<lparr>fc_broken := False, fc_expect := []\<rparr>, True)
     else if fc_broken fc then Some (c, fc, False)
     else
       let prev = e - word_of_int (ft_chain_diffs fd ! fc_idx fc) in
       case dc_get_decision c prev of
         None \<Rightarrow> None
       | Some (sd, too_old) \<Rightarrow>
           (case (case sd of
               SdForwarded \<Rightarrow> (c, fc, True)
             | SdUnknown \<Rightarrow> (case dc_expect_decision prev i c of (c', expected) \<Rightarrow>
                 if expected then (c', fc\<lparr>fc_expect := fc_expect fc @ [prev]\<rparr>, True) else (c', fc, False))
             | _ \<Rightarrow> (c, fc, False)) of
             (c', fc', intact) \<Rightarrow> Some (c', if intact then fc' else fc'\<lparr>fc_broken := True\<rparr>, intact)))"

definition fc_begin_update_active :: "frame_chain \<Rightarrow> frame_chain" where
  "fc_begin_update_active fc = fc\<lparr>fc_updating := False\<rparr>"

definition fc_update_active :: "bool \<Rightarrow> frame_chain \<Rightarrow> frame_chain" where
  "fc_update_active active fc = fc\<lparr>fc_updating := fc_updating fc \<or> active\<rparr>"

definition fc_end_update_active :: "frame_chain \<Rightarrow> frame_chain" where
  "fc_end_update_active fc0 =
    (let active = fc_updating fc0;
         fc = fc0\<lparr>fc_updating := False\<rparr>
     in if active = fc_active fc then fc
        else (if \<not> fc_active fc then fc\<lparr>fc_broken := True\<rparr> else fc)\<lparr>fc_active := active\<rparr>)"

section \<open>Decode targets\<close>

record decode_target =
  dt_layer :: decode_target_layer
  dt_chain :: "nat option"
  dt_active :: bool

definition new_decode_target :: "decode_target_layer \<Rightarrow> nat option \<Rightarrow> decode_target" where
  "new_decode_target layer chain = \<lparr>dt_layer = layer, dt_chain = chain, dt_active = False\<rparr>"

definition dt_valid :: "frame_chain list \<Rightarrow> decode_target \<Rightarrow> bool" where
  "dt_valid heap dt = (case dt_chain dt of None \<Rightarrow> True | Some i \<Rightarrow> \<not> fc_broken (heap ! i))"

definition dt_update_active :: "u32 \<Rightarrow> decode_target \<Rightarrow> frame_chain list \<Rightarrow> decode_target \<times> frame_chain list" where
  "dt_update_active active_mask dt heap =
    (let active = (active_mask AND push_bit (dl_target (dt_layer dt)) 1 \<noteq> 0) in
     (dt\<lparr>dt_active := active\<rparr>,
      case dt_chain dt of None \<Rightarrow> heap | Some i \<Rightarrow> heap[i := fc_update_active active (heap ! i)]))"

datatype frame_err = ErrTargetMismatch

text \<open>Whether the target is valid, and the indication of the frame for it.\<close>

definition dt_on_frame :: "frame_chain list \<Rightarrow> fd_template \<Rightarrow> decode_target \<Rightarrow> frame_err + (bool \<times> dti)" where
  "dt_on_frame heap fd dt =
    (if length (ft_dtis fd) \<le> dl_target (dt_layer dt) then Inl ErrTargetMismatch
     else Inr (dt_valid heap dt, ft_dtis fd ! dl_target (dt_layer dt)))"

section \<open>Frame numbers\<close>

record fn_wrapper =
  fw_offset :: u64
  fw_last :: u64
  fw_inited :: bool

definition fn_wrapper_zero :: fn_wrapper where
  "fn_wrapper_zero = \<lparr>fw_offset = 0, fw_last = 0, fw_inited = False\<rparr>"

text \<open>The sums of the offset are those of \<open>uint16\<close>.\<close>

definition fw_update_and_get :: "u64 \<Rightarrow> bool \<Rightarrow> fn_wrapper \<Rightarrow> fn_wrapper \<times> u64" where
  "fw_update_and_get new update_offset f =
    (if \<not> fw_inited f then (f\<lparr>fw_last := new, fw_inited := True\<rparr>, new)
     else if new \<le> fw_last f then (f, new + fw_offset f)
     else
       let new16 = ucast (new + fw_offset f) :: u16;
           last16 = ucast (fw_last f + fw_offset f) :: u16;
           diff = new16 - last16;
           f1 = (if update_offset \<and> (diff > 0x8000 \<or> diff = 0x8000 \<and> new16 < last16)
                 then f\<lparr>fw_offset := fw_offset f + ucast (65535 - diff + 6000)\<rparr> else f)
       in (f1\<lparr>fw_last := new\<rparr>, new + fw_offset f1))"

section \<open>The selector\<close>

record dd_selector =
  ds_base :: base
  ds_decisions :: decision_cache
  ds_previous_mask :: "u32 option"
  ds_mask :: "u32 option"
  ds_structure :: "fd_structure option"
  ds_key_frame_num :: u64
  ds_key_frame_valid :: bool
  ds_chains :: "nat list"
  ds_targets :: "decode_target list"
  ds_fn :: fn_wrapper
  ds_restart_generation :: int
  ds_heap :: "frame_chain list"

definition new_dd_selector_from_other :: "base \<Rightarrow> dd_selector" where
  "new_dd_selector_from_other b =
    \<lparr>ds_base = b, ds_decisions = new_decision_cache 256 80, ds_previous_mask = None, ds_mask = None, ds_structure = None,
     ds_key_frame_num = 0, ds_key_frame_valid = False, ds_chains = [], ds_targets = [], ds_fn = fn_wrapper_zero,
     ds_restart_generation = 0, ds_heap = []\<rparr>"

definition new_dd_selector :: dd_selector where
  "new_dd_selector = new_dd_selector_from_other new_base"

definition ds_invalidate_key_frame :: "dd_selector \<Rightarrow> dd_selector" where
  "ds_invalidate_key_frame s = s\<lparr>ds_key_frame_valid := False, ds_chains := [], ds_targets := []\<rparr>"

definition ds_restart :: "int \<Rightarrow> dd_selector \<Rightarrow> dd_selector" where
  "ds_restart generation s =
    (ds_invalidate_key_frame (s\<lparr>ds_restart_generation := generation\<rparr>))\<lparr>ds_decisions := new_decision_cache 256 80\<rparr>"

definition ds_rollback :: "dd_selector \<Rightarrow> dd_selector" where
  "ds_rollback s = s\<lparr>ds_mask := ds_previous_mask s, ds_base := bs_rollback (ds_base s)\<rparr>"

text \<open>A decision, and the callbacks of the chains that wait for it.\<close>

definition ds_add_entity :: "u64 \<Rightarrow> selector_decision \<Rightarrow> dd_selector \<Rightarrow> dd_selector option" where
  "ds_add_entity e sd s = (case dc_add_entity e sd (ds_decisions s) of
     None \<Rightarrow> None
   | Some (c, ns) \<Rightarrow> Some (s\<lparr>ds_decisions := c, ds_heap := deliver ns (ds_heap s)\<rparr>))"

text \<open>The chain of a decode target: every target has one as soon as there are chains.\<close>

definition target_chain :: "fd_structure \<Rightarrow> nat list \<Rightarrow> decode_target_layer \<Rightarrow> nat option option" where
  "target_chain st ids dt =
    (if fs_num_chains st > 0 then do {
       idx \<leftarrow> go_nth (fs_protected st) (int (dl_target dt));
       if idx \<ge> int (length ids) then Some None else map_option Some (go_nth ids idx) }
     else Some None)"

definition ds_update_structure ::
  "fd_structure \<Rightarrow> decode_target_layer list \<Rightarrow> u64 \<Rightarrow> dd_selector \<Rightarrow> dd_selector option" where
  "ds_update_structure st targets e s =
    (let n = nat (fs_num_chains st);
         ids = [length (ds_heap s)..<length (ds_heap s) + n]
     in map_option (\<lambda>new_targets.
          s\<lparr>ds_structure := Some st, ds_key_frame_num := e, ds_key_frame_valid := True, ds_chains := ids,
            ds_targets := new_targets, ds_heap := ds_heap s @ map new_frame_chain [0..<n]\<rparr>)
        (all_some (map (\<lambda>dt. map_option (new_decode_target dt) (target_chain st ids dt)) targets)))"

definition ds_each_chain :: "(frame_chain \<Rightarrow> frame_chain) \<Rightarrow> nat list \<Rightarrow> frame_chain list \<Rightarrow> frame_chain list" where
  "ds_each_chain f ids heap = fold (\<lambda>i h. h[i := f (h ! i)]) ids heap"

fun targets_update_active :: "u32 \<Rightarrow> decode_target list \<Rightarrow> frame_chain list \<Rightarrow> decode_target list \<times> frame_chain list" where
  "targets_update_active m [] heap = ([], heap)"
| "targets_update_active m (dt # dts) heap =
    (let (dt', heap1) = dt_update_active m dt heap; (dts', heap2) = targets_update_active m dts heap1
     in (dt' # dts', heap2))"

definition ds_update_active_targets :: "u32 \<Rightarrow> dd_selector \<Rightarrow> dd_selector" where
  "ds_update_active_targets m s =
    (let heap1 = ds_each_chain fc_begin_update_active (ds_chains s) (ds_heap s);
         (targets, heap2) = targets_update_active m (ds_targets s) heap1
     in s\<lparr>ds_targets := targets, ds_heap := ds_each_chain fc_end_update_active (ds_chains s) heap2\<rparr>)"

fun ds_chains_on_frame :: "u64 \<Rightarrow> fd_template \<Rightarrow> nat list \<Rightarrow> dd_selector \<Rightarrow> dd_selector option" where
  "ds_chains_on_frame e fd [] s = Some s"
| "ds_chains_on_frame e fd (i # is) s = (case fc_on_frame e fd i (ds_heap s ! i) (ds_decisions s) of
     None \<Rightarrow> None
   | Some (c, fc, intact) \<Rightarrow> ds_chains_on_frame e fd is (s\<lparr>ds_decisions := c, ds_heap := (ds_heap s)[i := fc]\<rparr>))"

text \<open>The first target in the list that is active, within the layer and valid.\<close>

fun ds_find_target ::
  "frame_chain list \<Rightarrow> video_layer \<Rightarrow> fd_template \<Rightarrow> decode_target list \<Rightarrow> frame_err + (decode_target_layer \<times> dti) option" where
  "ds_find_target heap layer fd [] = Inr None"
| "ds_find_target heap layer fd (dt # dts) =
    (if \<not> dt_active dt \<or> vl_spatial (dl_layer (dt_layer dt)) > vl_spatial layer \<or> vl_temporal (dl_layer (dt_layer dt)) > vl_temporal layer
     then ds_find_target heap layer fd dts
     else case dt_on_frame heap fd dt of
       Inl err \<Rightarrow> Inl err
     | Inr (valid, d) \<Rightarrow> if valid then Inr (Some (dt_layer dt, d)) else ds_find_target heap layer fd dts)"

text \<open>None of the frames that the frame refers to has been dropped.\<close>

fun ds_decodable :: "decision_cache \<Rightarrow> u64 \<Rightarrow> int list \<Rightarrow> bool option" where
  "ds_decodable c e [] = Some True"
| "ds_decodable c e (d # ds) =
    (if d = 0 then ds_decodable c e ds
     else case dc_get_decision c (e - word_of_int d) of
       None \<Rightarrow> None
     | Some (sd, too_old) \<Rightarrow> if sd = SdDropped then Some False else ds_decodable c e ds)"

text \<open>The switch to the layer of the target.\<close>

definition ds_switch :: "ext_dd \<Rightarrow> video_layer \<Rightarrow> dd_selector \<times> vls_result \<Rightarrow> dd_selector \<times> vls_result" where
  "ds_switch x layer r = (case r of (s, res) \<Rightarrow>
     if bs_current (ds_base s) \<noteq> layer then
       (s\<lparr>ds_base := (ds_base s)\<lparr>bs_previous := bs_current (ds_base s), bs_current := layer\<rparr>,
          ds_previous_mask := ds_mask s, ds_mask := Some (get_active_decode_target_bitmask layer (ed_targets x))\<rparr>,
        res\<lparr>vr_is_switching := True, vr_is_resuming := \<not> vl_is_valid (bs_current (ds_base s)), vr_is_relevant := True\<rparr>)
     else (s, res))"

text \<open>The descriptor that is sent: its own frame number, and the mask of the subscriber.\<close>

definition ds_outgoing :: "u16 \<Rightarrow> u32 option \<Rightarrow> dd \<Rightarrow> dd" where
  "ds_outgoing fn msk d =
    (let d1 = (if fn \<noteq> dd_frame_number d then d\<lparr>dd_frame_number := fn\<rparr> else d)
     in if dd_attached d = None \<and> msk \<noteq> None then d1\<lparr>dd_bitmask := msk\<rparr> else d1)"

text \<open>A panic while the descriptor is written is caught: the packet is dropped as after an error.\<close>

definition ds_marshal :: "dd \<Rightarrow> fd_structure option \<Rightarrow> u8 list option" where
  "ds_marshal d st = (case dd_marshal d st of Some (Inr bytes) \<Rightarrow> Some bytes | _ \<Rightarrow> None)"

definition ds_forward ::
  "ext_dd ext_packet \<Rightarrow> ext_dd \<Rightarrow> fd_template \<Rightarrow> video_layer \<Rightarrow> dd_selector \<times> vls_result \<Rightarrow> (dd_selector \<times> vls_result) option" where
  "ds_forward p x fd layer r =
    (let (s1, res1) = ds_switch x layer r;
         (fw, fn) = fw_update_and_get (ed_frame_num x) (ed_structure_updated x) (ds_fn s1);
         s2 = s1\<lparr>ds_fn := fw\<rparr>
     in case ds_marshal (ds_outgoing (ucast fn) (ds_mask s2) (ed_descriptor x)) (ds_structure s2) of
       None \<Rightarrow> map_option (\<lambda>s. (s, res1)) (ds_add_entity (ed_frame_num x) SdDropped s2)
     | Some bytes \<Rightarrow> map_option (\<lambda>s. (s, res1\<lparr>vr_dd_extension := bytes,
           vr_rtp_marker := (rp_marker (ep_packet p) \<or> dd_last (ed_descriptor x) \<and> vl_spatial (bs_current (ds_base s)) = ft_spatial fd),
           vr_is_selected := True\<rparr>))
         (if ed_integrity x then ds_add_entity (ed_frame_num x) SdForwarded s2 else Some s2))"

definition ds_drop :: "u64 \<Rightarrow> dd_selector \<times> vls_result \<Rightarrow> (dd_selector \<times> vls_result) option" where
  "ds_drop e r = (case r of (s, res) \<Rightarrow> map_option (\<lambda>s'. (s', res)) (ds_add_entity e SdDropped s))"

text \<open>The frame has reached the chains; is there a target for it?\<close>

definition ds_choose ::
  "ext_dd ext_packet \<Rightarrow> ext_dd \<Rightarrow> fd_template \<Rightarrow> dd_selector \<times> vls_result \<Rightarrow> (dd_selector \<times> vls_result) option" where
  "ds_choose p x fd r = (case r of (s, res) \<Rightarrow>
     case ds_find_target (ds_heap s) (bs_target (ds_base s)) fd (ds_targets s) of
       Inl err \<Rightarrow> ds_drop (ed_frame_num x) r
     | Inr None \<Rightarrow> ds_drop (ed_frame_num x) r
     | Inr (Some (dt, d)) \<Rightarrow>
         if d = DecodeTargetNotPresent then ds_drop (ed_frame_num x) r
         else (case ds_decodable (ds_decisions s) (ed_frame_num x) (ft_frame_diffs fd) of
             None \<Rightarrow> None
           | Some fine \<Rightarrow> if fine then ds_forward p x fd (dl_layer dt) r else ds_drop (ed_frame_num x) r))"

text \<open>The structure and the active targets that come with the frame, and the chains.\<close>

definition ds_frame ::
  "ext_dd ext_packet \<Rightarrow> ext_dd \<Rightarrow> fd_template \<Rightarrow> dd_selector \<times> vls_result \<Rightarrow> (dd_selector \<times> vls_result) option" where
  "ds_frame p x fd r = (case r of (s0, res) \<Rightarrow> do {
     s1 \<leftarrow> (if ed_structure_updated x
       then (case dd_attached (ed_descriptor x) of None \<Rightarrow> None | Some st \<Rightarrow> ds_update_structure st (ed_targets x) (ed_frame_num x) s0)
       else Some s0);
     if ed_key_frame_num x \<noteq> ds_key_frame_num s1
     then map_option (\<lambda>s. (ds_invalidate_key_frame s, res)) (ds_add_entity (ed_frame_num x) SdDropped s1)
     else do {
       s2 \<leftarrow> (if ed_active_updated x
         then (case dd_bitmask (ed_descriptor x) of None \<Rightarrow> None | Some m \<Rightarrow> Some (ds_update_active_targets m s1))
         else Some s1);
       if length (ft_chain_diffs fd) \<noteq> length (ds_chains s2) then ds_drop (ed_frame_num x) (s2, res)
       else do {
         s3 \<leftarrow> ds_chains_on_frame (ed_frame_num x) fd (ds_chains s2) s2;
         ds_choose p x fd (s3, res) } } })"

definition ds_select :: "ext_dd ext_packet \<Rightarrow> dd_selector \<Rightarrow> (dd_selector \<times> vls_result) option" where
  "ds_select p s =
    (let res = vls_result_zero\<lparr>vr_is_relevant := vl_is_valid (bs_current (ds_base s))\<rparr>
     in case ep_dependency_descriptor p of
       None \<Rightarrow> Some (s, res)
     | Some x \<Rightarrow>
         let s0 = (if ed_restart_generation x > ds_restart_generation s then ds_restart (ed_restart_generation x) s else s)
         in case dd_dependencies (ed_descriptor x) of
           None \<Rightarrow> None
         | Some fd \<Rightarrow>
             if \<not> ds_key_frame_valid s0 \<and> dd_attached (ed_descriptor x) = None then Some (s0, res)
             else do {
               (sd, too_old) \<leftarrow> dc_get_decision (ds_decisions s0) (ed_frame_num x);
               if too_old \<or> sd = SdDropped then Some (s0, res) else ds_frame p x fd (s0, res) })"

definition ds_check_sync :: "dd_selector \<Rightarrow> bool \<times> int" where
  "ds_check_sync s =
    (let layer = bs_request_spatial (ds_base s) in
     if \<not> vl_is_valid (bs_current (ds_base s)) \<or> \<not> ds_key_frame_valid s then (False, layer)
     else (list_ex (\<lambda>dt. dt_active dt \<and> vl_spatial (dl_layer (dt_layer dt)) = layer \<and> dt_valid (ds_heap s) dt) (ds_targets s), layer))"

section \<open>Nobody who waits is forgotten\<close>

text \<open>
  How often a chain waits for a frame, and how often it is told of one.  An operation of the cache
  tells as many as it removes.
\<close>

definition waits :: "decision_cache \<Rightarrow> nat \<Rightarrow> u64 \<Rightarrow> nat" where
  "waits c i f = count (mset (waiting (dc_expect c) f)) i"

definition told :: "notice list \<Rightarrow> nat \<Rightarrow> u64 \<Rightarrow> nat" where
  "told ns i f = length (filter (\<lambda>(j, g, _). j = i \<and> g = f) ns)"

definition keys_ok :: "decision_cache \<Rightarrow> bool" where
  "keys_ok c \<longleftrightarrow> distinct (map fst (dc_expect c))"

definition accounts :: "decision_cache \<Rightarrow> notice list \<Rightarrow> decision_cache \<Rightarrow> bool" where
  "accounts c ns c' \<longleftrightarrow> dc_ok c' \<and> keys_ok c' \<and> (\<forall>i f. waits c' i f + told ns i f = waits c i f)"

lemma told_simps [simp]: "told [] i f = 0" "told (ns @ ms) i f = told ns i f + told ms i f"
  "told ((j, g, d) # ns) i f = (if j = i \<and> g = f then Suc (told ns i f) else told ns i f)"
  by (simp_all add: told_def)

lemma accounts_trans:
  assumes "accounts c ns c1" "accounts c1 ms c2"
  shows "accounts c (ns @ ms) c2"
proof -
  have "waits c2 i f + told (ns @ ms) i f = waits c i f" for i f
  proof -
    have "waits c1 i f + told ns i f = waits c i f" "waits c2 i f + told ms i f = waits c1 i f"
      using assms by (simp_all add: accounts_def)
    then show ?thesis by simp
  qed
  then show ?thesis using assms by (simp add: accounts_def)
qed

lemma accounts_refl: "dc_ok c \<Longrightarrow> keys_ok c \<Longrightarrow> accounts c [] c"
  by (simp add: accounts_def)

lemma map_of_filter_key: "map_of (filter (\<lambda>(k, _). P k) m) f = (if P f then map_of m f else None)"
  by (induction m) auto

lemma waiting_filter: "waiting (filter (\<lambda>(k, _). P k) m) f = (if P f then waiting m f else [])"
  by (simp add: waiting_def map_of_filter_key)

lemma waiting_not_waiting: "waiting (not_waiting m e) f = (if f = e then [] else waiting m f)"
  unfolding not_waiting_def waiting_filter by simp

lemma distinct_filter_keys: "distinct (map fst m) \<Longrightarrow> distinct (map fst (filter P m))"
  by (simp add: distinct_map_filter)

lemma told_call: "told (map (\<lambda>j. (j, e, d)) fns) i f = (if f = e then count (mset fns) i else 0)"
  by (induction fns) auto

lemma set_entity_accounts:
  assumes ok: "dc_ok c" "keys_ok c"
  obtains c' ns where "dc_set_entity e sd c = Some (c', ns)" "same_ring c c'" "accounts c ns c'"
    "\<And>i f d. (i, f, d) \<in> set ns \<Longrightarrow> f = e \<and> d = sd" "\<And>i. sd \<noteq> SdUnknown \<Longrightarrow> waits c' i e = 0"
proof -
  obtain c' where s: "dc_set_entity e sd c = Some (c', if sd \<noteq> SdUnknown then map (\<lambda>f. (f, e, sd)) (waiting (dc_expect c) e) else [])"
    "dc_initialized c' = dc_initialized c" "dc_base c' = dc_base c" "dc_last c' = dc_last c"
    "dc_num_entries c' = dc_num_entries c" "dc_num_nack_entries c' = dc_num_nack_entries c" "dc_ok c'"
    "\<And>k. entry c' k = (if slot_no c k = slot_no c e then sd else entry c k)"
    "dc_expect c' = (if sd \<noteq> SdUnknown then not_waiting (dc_expect c) e else dc_expect c)"
    by (rule set_entity_effect [OF ok(1), of e sd]) blast
  let ?ns = "if sd \<noteq> SdUnknown then map (\<lambda>f. (f, e, sd)) (waiting (dc_expect c) e) else []"
  have keys: "keys_ok c'" using ok(2) by (auto simp: keys_ok_def s(9) not_waiting_def intro: distinct_filter_keys)
  have "waits c' i f + told ?ns i f = waits c i f" for i f
    by (simp add: waits_def s(9) waiting_not_waiting told_call)
  then have "accounts c ?ns c'" using s(7) keys by (simp add: accounts_def)
  moreover have "same_ring c c'" using s by (simp add: same_ring_def)
  ultimately show ?thesis using that [OF s(1)] by (auto simp: waits_def s(9) waiting_not_waiting split: if_splits)
qed

lemma told_expire:
  "distinct (map fst m) \<Longrightarrow>
   told (concat (map (\<lambda>(e, fns). if P e then map (\<lambda>f. (f, e, d)) fns else []) m)) i f = (if P f then count (mset (waiting m f)) i else 0)"
proof (induction m)
  case (Cons x m)
  obtain e fns where x: "x = (e, fns)" by fastforce
  show ?case
  proof (cases "f = e")
    case True
    have "map_of m e = None" using Cons.prems x by (simp add: map_of_eq_None_iff)
    then show ?thesis using Cons True x by (simp add: told_call waiting_def)
  next
    case False
    then show ?thesis using Cons x by (simp add: told_call waiting_def)
  qed
qed (simp add: waiting_def)

lemma expire_accounts:
  assumes "keys_ok c" "dc_expire c = (c', ns)" "dc_ok c"
  shows "accounts c ns c'" "\<And>i f d. (i, f, d) \<in> set ns \<Longrightarrow> d = SdMissing"
    "waits c i e = 0 \<Longrightarrow> waits c' i e = 0" "dc_initialized c' = dc_initialized c" "dc_base c' = dc_base c" "dc_last c' = dc_last c"
proof -
  let ?P = "\<lambda>e. e + dc_num_entries c < dc_last c"
  have c': "c' = c\<lparr>dc_expect := filter (\<lambda>(e, _). \<not> ?P e) (dc_expect c)\<rparr>"
    and ns: "ns = concat (map (\<lambda>(e, fns). if ?P e then map (\<lambda>f. (f, e, SdMissing)) fns else []) (dc_expect c))"
    using assms(2) by (simp_all add: dc_expire_def)
  have "waits c' i f + told ns i f = waits c i f" for i f
    using told_expire [of "dc_expect c" ?P SdMissing i f] assms(1)
    by (simp add: waits_def c' ns waiting_filter keys_ok_def)
  then show "accounts c ns c'" using assms(1,3) by (auto simp: accounts_def keys_ok_def c' dc_ok_def intro: distinct_filter_keys)
  then show "waits c i e = 0 \<Longrightarrow> waits c' i e = 0" unfolding accounts_def by (metis add_is_0)
  show "\<And>i f d. (i, f, d) \<in> set ns \<Longrightarrow> d = SdMissing" by (auto simp: ns split: if_splits)
qed (use assms(2) in \<open>auto simp: dc_expire_def\<close>)

lemma loop_accounts:
  assumes op: "\<And>k c. dc_ok c \<Longrightarrow> keys_ok c \<Longrightarrow> \<exists>c' ns. f k c = Some (c', ns) \<and> same_ring c c' \<and> accounts c ns c' \<and> (\<forall>i g. (i, g, SdForwarded) \<notin> set ns)"
  shows "dc_ok c \<Longrightarrow> keys_ok c \<Longrightarrow>
    \<exists>c' ns. dc_loop f n e c = Some (c', ns) \<and> same_ring c c' \<and> accounts c ns c' \<and> (\<forall>i g. (i, g, SdForwarded) \<notin> set ns)"
proof (induction n arbitrary: c e)
  case 0
  then show ?case by (simp add: same_ring_refl accounts_refl)
next
  case (Suc n)
  obtain c1 ns1 where c1: "f e c = Some (c1, ns1)" "same_ring c c1" "accounts c ns1 c1" "\<forall>i g. (i, g, SdForwarded) \<notin> set ns1"
    using op [OF Suc.prems] by blast
  have "dc_ok c1" "keys_ok c1" using c1(3) by (simp_all add: accounts_def)
  from Suc.IH [OF this, of "e + 1"] obtain c2 ns2 where c2: "dc_loop f n (e + 1) c1 = Some (c2, ns2)" "same_ring c1 c2"
    "accounts c1 ns2 c2" "\<forall>i g. (i, g, SdForwarded) \<notin> set ns2" by blast
  have "dc_loop f (Suc n) e c = Some (c2, ns1 @ ns2)" using c1(1) c2(1) by simp
  moreover have "\<forall>i g. (i, g, SdForwarded) \<notin> set (ns1 @ ns2)" using c1(4) c2(4) by auto
  ultimately show ?case using same_ring_trans [OF c1(2) c2(2)] accounts_trans [OF c1(3) c2(3)] by blast
qed

lemma set_other_accounts:
  assumes "dc_ok c" "keys_ok c" "sd \<noteq> SdForwarded"
  shows "\<exists>c' ns. dc_set_entity k sd c = Some (c', ns) \<and> same_ring c c' \<and> accounts c ns c' \<and> (\<forall>i g. (i, g, SdForwarded) \<notin> set ns)"
  using set_entity_accounts [OF assms(1,2), of k sd] assms(3) by metis

lemma set_missing_accounts:
  assumes "dc_ok c" "keys_ok c"
  shows "\<exists>c' ns. dc_set_if_unknown k SdMissing c = Some (c', ns) \<and> same_ring c c' \<and> accounts c ns c' \<and> (\<forall>i g. (i, g, SdForwarded) \<notin> set ns)"
  using set_other_accounts [OF assms, of SdMissing k] assms
  by (cases "entry c k = SdUnknown") (simp_all add: dc_set_if_unknown_def get_entity_entry same_ring_refl accounts_refl)

lemma dc_ok_last:
  assumes "dc_ok c" "dc_base c \<le> e" "e < sn_limit"
  shows "dc_ok (c\<lparr>dc_last := e\<rparr>)"
  using assms by (simp add: dc_ok_def)

lemma add_accounts:
  assumes ok: "dc_ok c" "keys_ok c" and e: "e < sn_limit"
  obtains c' ns where "dc_add_entity e sd c = Some (c', ns)" "accounts c ns c'" "dc_initialized c'"
    "\<And>i f. (i, f, SdForwarded) \<in> set ns \<Longrightarrow> f = e \<and> sd = SdForwarded"
    "\<And>i. sd \<noteq> SdUnknown \<Longrightarrow> \<not> dc_initialized c \<or> dc_base c < e \<Longrightarrow> waits c' i e = 0"
proof -
  consider "\<not> dc_initialized c" | "dc_initialized c" "e \<le> dc_base c" | "dc_initialized c" "dc_base c < e" "e \<le> dc_last c"
    | "dc_initialized c" "dc_base c < e" "dc_last c < e" by (meson not_le)
  then show ?thesis
  proof cases
    case 1
    let ?c = "c\<lparr>dc_initialized := True, dc_base := e, dc_last := e\<rparr>"
    have "dc_ok ?c" "keys_ok ?c" using ok e by (simp_all add: dc_ok_def keys_ok_def)
    then obtain c' ns where s: "dc_set_entity e sd ?c = Some (c', ns)" "same_ring ?c c'" "accounts ?c ns c'"
      "\<And>i f d. (i, f, d) \<in> set ns \<Longrightarrow> f = e \<and> d = sd" "\<And>i. sd \<noteq> SdUnknown \<Longrightarrow> waits c' i e = 0"
      by (rule set_entity_accounts [of ?c e sd]) blast
    have "accounts c ns c'" using s(3) by (simp add: accounts_def waits_def)
    then show ?thesis using that [of c' ns] s 1 by (auto simp: dc_add_entity_def same_ring_def)
  next
    case 2
    then show ?thesis using that [of c "[]"] accounts_refl [OF ok] by (auto simp: dc_add_entity_def)
  next
    case 3
    obtain c' ns where s: "dc_set_entity e sd c = Some (c', ns)" "same_ring c c'" "accounts c ns c'"
      "\<And>i f d. (i, f, d) \<in> set ns \<Longrightarrow> f = e \<and> d = sd" "\<And>i. sd \<noteq> SdUnknown \<Longrightarrow> waits c' i e = 0"
      by (rule set_entity_accounts [OF ok, of e sd]) blast
    have "dc_add_entity e sd c = Some (c', ns)" using s(1) 3 3(2) [folded not_le] by (simp add: dc_add_entity_def)
    moreover have "dc_initialized c'" using s(2) 3(1) by (simp add: same_ring_def)
    ultimately show ?thesis using that s(3,4,5) by blast
  next
    case 4
    define n where "n = unat (e - (dc_last c + 1))"
    define start where "start = missing_limit c (dc_last c)"
    define stop where "stop = missing_limit c e"
    obtain c1 ns1 where c1: "dc_loop (\<lambda>k. dc_set_entity k SdUnknown) n (dc_last c + 1) c = Some (c1, ns1)" "same_ring c c1" "accounts c ns1 c1"
      "\<forall>i g. (i, g, SdForwarded) \<notin> set ns1"
    proof -
      have "\<exists>c' ns. dc_loop (\<lambda>k. dc_set_entity k SdUnknown) n (dc_last c + 1) c = Some (c', ns) \<and> same_ring c c' \<and>
        accounts c ns c' \<and> (\<forall>i g. (i, g, SdForwarded) \<notin> set ns)"
        by (rule loop_accounts [OF _ ok]) (simp add: set_other_accounts)
      then show ?thesis using that by blast
    qed
    then have ok1: "dc_ok c1" "keys_ok c1" by (simp_all add: accounts_def)
    obtain c2 ns2 where c2: "(if stop > start then dc_loop (\<lambda>k. dc_set_if_unknown k SdMissing) (unat (stop - start)) start c1 else Some (c1, [])) = Some (c2, ns2)"
      "same_ring c1 c2" "accounts c1 ns2 c2" "\<forall>i g. (i, g, SdForwarded) \<notin> set ns2"
    proof (cases "stop > start")
      case True
      have "\<exists>c' ns. dc_loop (\<lambda>k. dc_set_if_unknown k SdMissing) (unat (stop - start)) start c1 = Some (c', ns) \<and>
        same_ring c1 c' \<and> accounts c1 ns c' \<and> (\<forall>i g. (i, g, SdForwarded) \<notin> set ns)"
        by (rule loop_accounts [OF _ ok1]) (rule set_missing_accounts)
      then show ?thesis using that True by auto
    next
      case False
      then show ?thesis using that [of c1 "[]"] ok1 by (simp add: same_ring_refl accounts_refl)
    qed
    then have ok2: "dc_ok c2" "keys_ok c2" by (simp_all add: accounts_def)
    obtain c3 ns3 where c3: "dc_set_entity e sd c2 = Some (c3, ns3)" "same_ring c2 c3" "accounts c2 ns3 c3"
      "\<And>i f d. (i, f, d) \<in> set ns3 \<Longrightarrow> f = e \<and> d = sd" "\<And>i. sd \<noteq> SdUnknown \<Longrightarrow> waits c3 i e = 0"
      by (rule set_entity_accounts [OF ok2, of e sd]) blast
    have r: "same_ring c c3" by (rule same_ring_trans [OF same_ring_trans [OF c1(2) c2(2)] c3(2)])
    then have ok3: "dc_ok (c3\<lparr>dc_last := e\<rparr>)" "keys_ok (c3\<lparr>dc_last := e\<rparr>)"
      using dc_ok_last [of c3 e] 4 e c3(3) by (auto simp: same_ring_def accounts_def keys_ok_def)
    obtain c4 ns4 where x: "dc_expire (c3\<lparr>dc_last := e\<rparr>) = (c4, ns4)" by fastforce
    note x4 = expire_accounts [OF ok3(2) x ok3(1)]
    have "accounts c3 ns4 c4" using x4(1) by (simp add: accounts_def waits_def)
    then have "accounts c (((ns1 @ ns2) @ ns3) @ ns4) c4"
      using accounts_trans c1(3) c2(3) c3(3) by blast
    moreover have "dc_add_entity e sd c = Some (c4, ((ns1 @ ns2) @ ns3) @ ns4)"
      unfolding dc_add_entity_def Let_def n_def [symmetric] start_def [symmetric] stop_def [symmetric] c1(1) Option.bind.simps prod.case
      using 4(1) 4(2,3) [folded not_le] c2(1) c3(1) x by simp
    moreover have "waits c4 i e = 0" if "sd \<noteq> SdUnknown" for i
      using x4(3) c3(5) [OF that] by (simp add: waits_def)
    moreover have "f = e \<and> sd = SdForwarded" if "(i, f, SdForwarded) \<in> set (((ns1 @ ns2) @ ns3) @ ns4)" for i f
      using that c1(4) c2(4) c3(4) x4(2) by fastforce
    moreover have "dc_initialized c4" using x4(4) r 4 by (simp add: same_ring_def)
    ultimately show ?thesis using that by blast
  qed
qed

text \<open>What a chain expects is watched, unless the chain is broken.\<close>

definition chain_ok :: "decision_cache \<Rightarrow> nat \<Rightarrow> frame_chain \<Rightarrow> bool" where
  "chain_ok c i fc \<longleftrightarrow> (\<not> fc_broken fc \<longrightarrow> (\<forall>f. count (mset (fc_expect fc)) f \<le> waits c i f))"

lemma mset_drop_expected:
  assumes "f \<in> set xs"
  shows "mset (drop_expected f xs) = mset xs - {#f#}"
proof -
  obtain i where i: "find (\<lambda>i. xs ! i = f) [0..<length xs] = Some i"
  proof -
    have "find (\<lambda>i. xs ! i = f) [0..<length xs] \<noteq> None" using assms by (auto simp: find_None_iff in_set_conv_nth)
    then show ?thesis using that by blast
  qed
  then have n: "i < length xs" "xs ! i = f" by (auto simp: find_Some_iff)
  define ys where "ys = xs[i := last xs]"
  have "xs \<noteq> []" using n(1) by auto
  then have ne: "ys \<noteq> []" "last xs = xs ! (length xs - 1)" by (simp_all add: ys_def last_conv_nth)
  have l: "last ys = last xs" using ne n(1) by (simp add: ys_def last_conv_nth nth_list_update)
  have "mset ys = mset (butlast ys @ [last ys])" using ne(1) by simp
  then have "mset (butlast ys) = mset ys - {#last xs#}" by (simp add: l)
  also have "mset ys = add_mset (last xs) (mset xs - {#f#})" unfolding ys_def by (simp add: mset_update [OF n(1)] n(2))
  finally show ?thesis by (simp add: drop_expected_def i ys_def)
qed

lemma deliver_simps [simp]: "deliver [] heap = heap"
  "deliver ((j, f, d) # ns) heap = deliver ns (heap[j := on_expect_frame_changed f d (heap ! j)])"
  by (simp_all add: deliver_def)

lemma on_expect_fields [simp]: "fc_active (on_expect_frame_changed f d fc) = fc_active fc"
  "fc_idx (on_expect_frame_changed f d fc) = fc_idx fc" "fc_updating (on_expect_frame_changed f d fc) = fc_updating fc"
  by (simp_all add: on_expect_frame_changed_def)

lemma deliver_same: "length (deliver ns heap) = length heap"
  "i < length heap \<Longrightarrow> fc_active (deliver ns heap ! i) = fc_active (heap ! i) \<and> fc_idx (deliver ns heap ! i) = fc_idx (heap ! i)"
proof -
  have "length (deliver ns heap) = length heap \<and> (i < length heap \<longrightarrow>
      fc_active (deliver ns heap ! i) = fc_active (heap ! i) \<and> fc_idx (deliver ns heap ! i) = fc_idx (heap ! i))"
  proof (induction ns arbitrary: heap)
    case (Cons n ns)
    obtain j f d where n: "n = (j, f, d)" by (metis prod.exhaust)
    show ?case using Cons.IH [of "heap[j := on_expect_frame_changed f d (heap ! j)]"] n by (cases "j = i") auto
  qed simp
  then show "length (deliver ns heap) = length heap"
    "i < length heap \<Longrightarrow> fc_active (deliver ns heap ! i) = fc_active (heap ! i) \<and> fc_idx (deliver ns heap ! i) = fc_idx (heap ! i)" by auto
qed

lemma deliver_watch:
  "i < length heap \<Longrightarrow> (\<not> fc_broken (heap ! i) \<Longrightarrow> \<forall>f. count (mset (fc_expect (heap ! i))) f \<le> w f + told ns i f) \<Longrightarrow>
   \<not> fc_broken (deliver ns heap ! i) \<Longrightarrow>
   (\<forall>f. count (mset (fc_expect (deliver ns heap ! i))) f \<le> w f) \<and> \<not> fc_broken (heap ! i) \<and>
   (\<forall>f \<in> set (fc_expect (heap ! i)). f \<in> set (fc_expect (deliver ns heap ! i)) \<or> (i, f, SdForwarded) \<in> set ns)"
proof (induction ns arbitrary: heap)
  case (Cons n ns)
  obtain j g d where n: "n = (j, g, d)" by (metis prod.exhaust)
  define fc where "fc = heap ! i"
  define heap1 where "heap1 = heap[j := on_expect_frame_changed g d (heap ! j)]"
  have len: "i < length heap1" using Cons.prems(1) by (simp add: heap1_def)
  have unb: "\<not> fc_broken (deliver ns heap1 ! i)" using Cons.prems(3) n by (simp add: heap1_def)
  have del: "deliver (n # ns) heap = deliver ns heap1" by (simp add: n heap1_def)
  consider "j \<noteq> i \<or> fc_broken fc \<or> g \<notin> set (fc_expect fc)" | "j = i" "\<not> fc_broken fc" "g \<in> set (fc_expect fc)" by blast
  then show ?case
  proof cases
    case 1
    then have same: "heap1 ! i = fc" using Cons.prems(1)
      by (cases "j = i") (auto simp: heap1_def fc_def on_expect_frame_changed_def)
    have "\<forall>f. count (mset (fc_expect (heap1 ! i))) f \<le> w f + told ns i f" if b: "\<not> fc_broken (heap1 ! i)"
    proof
      fix f
      have le: "count (mset (fc_expect fc)) f \<le> w f + told (n # ns) i f" using Cons.prems(2) b same by (simp add: fc_def)
      show "count (mset (fc_expect (heap1 ! i))) f \<le> w f + told ns i f"
      proof (cases "j = i \<and> g = f")
        case True
        then have "f \<notin> set (fc_expect fc)" using 1 b same by auto
        then have "count (mset (fc_expect fc)) f = 0" by (simp add: count_eq_zero_iff)
        then show ?thesis unfolding same by linarith
      next
        case False
        then show ?thesis using le by (auto simp: same n)
      qed
    qed
    from Cons.IH [OF len this unb] show ?thesis unfolding del same fc_def [symmetric] by auto
  next
    case 2
    then have new: "heap1 ! i = fc\<lparr>fc_broken := d \<noteq> SdForwarded, fc_expect := drop_expected g (fc_expect fc)\<rparr>"
      using Cons.prems(1) by (simp add: heap1_def fc_def on_expect_frame_changed_def)
    have "\<forall>f. count (mset (fc_expect (heap1 ! i))) f \<le> w f + told ns i f"
    proof
      fix f
      have "count (mset (fc_expect fc)) f \<le> w f + told (n # ns) i f" using Cons.prems(2) 2(2) by (simp add: fc_def)
      then show "count (mset (fc_expect (heap1 ! i))) f \<le> w f + told ns i f"
        using 2(1,3) by (auto simp: new mset_drop_expected n)
    qed
    from Cons.IH [OF len this unb] have ih: "\<forall>f. count (mset (fc_expect (deliver ns heap1 ! i))) f \<le> w f"
      "\<not> fc_broken (heap1 ! i)"
      "\<forall>f \<in> set (fc_expect (heap1 ! i)). f \<in> set (fc_expect (deliver ns heap1 ! i)) \<or> (i, f, SdForwarded) \<in> set ns" by blast+
    have d: "d = SdForwarded" using ih(2) by (simp add: new)
    have "f \<in> set (fc_expect (heap1 ! i)) \<or> f = g" if "f \<in> set (fc_expect fc)" for f
    proof -
      have "set_mset (mset (fc_expect (heap1 ! i))) = set_mset (mset (fc_expect fc) - {#g#})" using 2(3) by (simp add: new mset_drop_expected)
      then have "f \<in># mset (fc_expect fc) - {#g#} \<longleftrightarrow> f \<in> set (fc_expect (heap1 ! i))" by auto
      moreover have "f \<in># mset (fc_expect fc) - {#g#}" if "f \<noteq> g" using that \<open>f \<in> set (fc_expect fc)\<close> by (simp add: in_diff_count)
      ultimately show ?thesis by blast
    qed
    then show ?thesis unfolding del using ih 2(1,2) d by (auto simp: n fc_def)
  qed
qed simp

end
