(* ===== verification/Dd_Selecting.thy ===== *)
theory Dd_Selecting
  imports Dd_Selector
begin

text \<open>
  The properties of the selector for dependency descriptors: it does not panic on what the parser
  hands out, what it forwards can be decoded, no chain loses sight of a frame it waits for, and the
  frame numbers it writes are in order.
\<close>

section \<open>The invariant\<close>

text \<open>
  The cache is in order and every chain in use is in the list of chains; a chain that is not broken
  will be told of all frames it expects; the targets point to chains in use, which are active if the
  target is, and whoever waits exists.
\<close>

definition target_ok :: "dd_selector \<Rightarrow> decode_target \<Rightarrow> bool" where
  "target_ok s dt \<longleftrightarrow> (\<forall>i. dt_chain dt = Some i \<longrightarrow> i \<in> set (ds_chains s) \<and> (dt_active dt \<longrightarrow> fc_active (ds_heap s ! i)))"

definition chains_ok :: "decision_cache \<Rightarrow> nat list \<Rightarrow> frame_chain list \<Rightarrow> bool" where
  "chains_ok c ids heap \<longleftrightarrow> distinct ids \<and> (\<forall>k < length ids. ids ! k < length heap \<and> fc_idx (heap ! (ids ! k)) = k) \<and>
    (\<forall>i \<in> set ids. chain_ok c i (heap ! i)) \<and> (\<forall>i f. 0 < waits c i f \<longrightarrow> i < length heap)"

definition ds_ok :: "dd_selector \<Rightarrow> bool" where
  "ds_ok s \<longleftrightarrow> dc_ok (ds_decisions s) \<and> keys_ok (ds_decisions s) \<and> chains_ok (ds_decisions s) (ds_chains s) (ds_heap s) \<and>
    (\<forall>dt \<in> set (ds_targets s). target_ok s dt)"

lemma chains_okD:
  assumes "chains_ok c ids heap"
  shows "distinct ids" "\<And>i. i \<in> set ids \<Longrightarrow> i < length heap" "\<And>i. i \<in> set ids \<Longrightarrow> chain_ok c i (heap ! i)"
    "\<And>i f. 0 < waits c i f \<Longrightarrow> i < length heap" "\<And>i. i \<in> set ids \<Longrightarrow> fc_idx (heap ! i) < length ids"
  using assms unfolding chains_ok_def by (metis in_set_conv_nth)+

text \<open>A decision.\<close>

lemma add_entity_ok:
  assumes ok: "ds_ok s" and e: "e < sn_limit"
  obtains c h where "ds_add_entity e sd s = Some (s\<lparr>ds_decisions := c, ds_heap := h\<rparr>)" "ds_ok (s\<lparr>ds_decisions := c, ds_heap := h\<rparr>)"
    "length h = length (ds_heap s)" "\<And>i. i \<in> set (ds_chains s) \<Longrightarrow> fc_idx (h ! i) = fc_idx (ds_heap s ! i)"
    "\<And>i f. i \<in> set (ds_chains s) \<Longrightarrow> \<not> fc_broken (h ! i) \<Longrightarrow> f \<in> set (fc_expect (ds_heap s ! i)) \<Longrightarrow>
       \<not> fc_broken (ds_heap s ! i) \<and> (f \<in> set (fc_expect (h ! i)) \<or> f = e \<and> sd = SdForwarded)"
    "\<And>i. i \<in> set (ds_chains s) \<Longrightarrow> sd \<noteq> SdUnknown \<Longrightarrow> \<not> dc_initialized (ds_decisions s) \<or> dc_base (ds_decisions s) < e \<Longrightarrow>
       \<not> fc_broken (h ! i) \<Longrightarrow> e \<notin> set (fc_expect (h ! i))"
proof -
  have dc: "dc_ok (ds_decisions s)" "keys_ok (ds_decisions s)" and ch: "chains_ok (ds_decisions s) (ds_chains s) (ds_heap s)"
    using ok by (simp_all add: ds_ok_def)
  note chd = chains_okD [OF ch]
  obtain c ns where a: "dc_add_entity e sd (ds_decisions s) = Some (c, ns)" "accounts (ds_decisions s) ns c" "dc_initialized c"
    "\<And>i f. (i, f, SdForwarded) \<in> set ns \<Longrightarrow> f = e \<and> sd = SdForwarded"
    "\<And>i. sd \<noteq> SdUnknown \<Longrightarrow> \<not> dc_initialized (ds_decisions s) \<or> dc_base (ds_decisions s) < e \<Longrightarrow> waits c i e = 0"
    by (rule add_accounts [OF dc e, of sd]) blast
  define h where "h = deliver ns (ds_heap s)"
  have acc: "dc_ok c" "keys_ok c" "\<And>i f. waits c i f + told ns i f = waits (ds_decisions s) i f" using a(2) by (simp_all add: accounts_def)
  have watch: "(\<forall>f. count (mset (fc_expect (h ! i))) f \<le> waits c i f) \<and> \<not> fc_broken (ds_heap s ! i) \<and>
      (\<forall>f \<in> set (fc_expect (ds_heap s ! i)). f \<in> set (fc_expect (h ! i)) \<or> (i, f, SdForwarded) \<in> set ns)"
    if i: "i \<in> set (ds_chains s)" "\<not> fc_broken (h ! i)" for i
    unfolding h_def
  proof (rule deliver_watch)
    show "\<forall>f. count (mset (fc_expect (ds_heap s ! i))) f \<le> waits c i f + told ns i f" if "\<not> fc_broken (ds_heap s ! i)"
      using chd(3) [OF i(1)] that acc(3) by (simp add: chain_ok_def)
  qed (use i chd(2) in \<open>auto simp: h_def\<close>)
  have same: "length h = length (ds_heap s)" "\<And>i. i < length (ds_heap s) \<Longrightarrow> fc_active (h ! i) = fc_active (ds_heap s ! i) \<and> fc_idx (h ! i) = fc_idx (ds_heap s ! i)"
    using deliver_same by (simp_all add: h_def)
  have "chains_ok c (ds_chains s) h"
  proof -
    have "0 < waits (ds_decisions s) i f" if "0 < waits c i f" for i f using acc(3) [of i f] that by linarith
    then show ?thesis using ch same watch unfolding chains_ok_def chain_ok_def by (metis nth_mem)
  qed
  moreover have "\<forall>dt \<in> set (ds_targets s). target_ok (s\<lparr>ds_decisions := c, ds_heap := h\<rparr>) dt"
    using ok same chd(2) by (auto simp: ds_ok_def target_ok_def)
  ultimately have "ds_ok (s\<lparr>ds_decisions := c, ds_heap := h\<rparr>)" using acc by (simp add: ds_ok_def)
  moreover have "e \<notin> set (fc_expect (h ! i))" if "i \<in> set (ds_chains s)" "sd \<noteq> SdUnknown"
    "\<not> dc_initialized (ds_decisions s) \<or> dc_base (ds_decisions s) < e" "\<not> fc_broken (h ! i)" for i
  proof -
    have "count (mset (fc_expect (h ! i))) e = 0" using watch [OF that(1,4)] a(5) [OF that(2,3)] by (metis le_zero_eq)
    then show ?thesis by (simp add: count_eq_zero_iff)
  qed
  moreover have "\<not> fc_broken (ds_heap s ! i) \<and> (f \<in> set (fc_expect (h ! i)) \<or> f = e \<and> sd = SdForwarded)"
    if "i \<in> set (ds_chains s)" "\<not> fc_broken (h ! i)" "f \<in> set (fc_expect (ds_heap s ! i))" for i f
    using watch [OF that(1,2)] that(3) a(4) by blast
  moreover have "fc_idx (h ! i) = fc_idx (ds_heap s ! i)" if "i \<in> set (ds_chains s)" for i using same(2) chd(2) that by blast
  ultimately show ?thesis using that [of h c] same(1) a(1) by (simp add: ds_add_entity_def h_def)
qed

text \<open>A frame reaches a chain.\<close>

lemma get_decision_returns: "dc_ok c \<Longrightarrow> \<exists>d err. dc_get_decision c e = Some (d, err)"
proof -
  assume "dc_ok c"
  then show ?thesis by (cases "dc_get_decision c e") (auto simp: dc_get_decision_def get_entity_entry split: if_splits)
qed

lemma waiting_append: "waiting (not_waiting m e @ [(e, fns)]) f = (if f = e then fns else waiting m f)"
proof -
  have "map_of (not_waiting m e) f = (if f = e then None else map_of m f)"
    unfolding not_waiting_def using map_of_filter_key [of "\<lambda>k. k \<noteq> e" m f] by simp
  then show ?thesis by (auto simp: waiting_def map_add_def split: option.split)
qed

lemma expect_effect:
  assumes ok: "dc_ok c" "keys_ok c" and e: "dc_expect_decision e i c = (c', expected)"
  shows "dc_ok c'" "keys_ok c'" "\<And>k. dc_get_decision c' k = dc_get_decision c k"
    "\<And>j f. waits c' j f = waits c j f + (if expected \<and> j = i \<and> f = e then 1 else 0)"
    "dc_initialized c' = dc_initialized c" "dc_base c' = dc_base c"
proof -
  consider "c' = c" "\<not> expected" | "c' = c\<lparr>dc_expect := not_waiting (dc_expect c) e @ [(e, waiting (dc_expect c) e @ [i])]\<rparr>" expected
    using e by (auto simp: dc_expect_decision_def split: if_splits)
  then have "dc_ok c' \<and> keys_ok c' \<and> (\<forall>k. dc_get_decision c' k = dc_get_decision c k) \<and>
    (\<forall>j f. waits c' j f = waits c j f + (if expected \<and> j = i \<and> f = e then 1 else 0)) \<and> dc_initialized c' = dc_initialized c \<and> dc_base c' = dc_base c"
  proof cases
    case 1
    then show ?thesis using ok by simp
  next
    case 2
    have "distinct (map fst (not_waiting (dc_expect c) e))" "e \<notin> set (map fst (not_waiting (dc_expect c) e))"
      using ok(2) by (auto simp: keys_ok_def not_waiting_def intro: distinct_filter_keys)
    then show ?thesis using 2 ok(1)
      by (auto simp: keys_ok_def dc_ok_def dc_get_decision_def dc_get_entity_def dc_pos_def waits_def waiting_append)
  qed
  then show "dc_ok c'" "keys_ok c'" "\<And>k. dc_get_decision c' k = dc_get_decision c k"
    "\<And>j f. waits c' j f = waits c j f + (if expected \<and> j = i \<and> f = e then 1 else 0)"
    "dc_initialized c' = dc_initialized c" "dc_base c' = dc_base c" by blast+
qed

text \<open>The frame that came before in the chain is a reason to keep it.\<close>

definition intact_with :: "decision_cache \<Rightarrow> u64 \<Rightarrow> int \<Rightarrow> bool" where
  "intact_with c e diff \<longleftrightarrow> diff = 0 \<or> (\<exists>sd err. dc_get_decision c (e - word_of_int diff) = Some (sd, err) \<and> sd \<in> {SdForwarded, SdUnknown})"

lemma fc_on_frame_ok:
  assumes ok: "dc_ok c" "keys_ok c" "chain_ok c i fc"
  obtains c' fc' b where "fc_on_frame e fd i fc c = Some (c', fc', b)" "dc_ok c'" "keys_ok c'" "chain_ok c' i fc'"
    "\<And>k. dc_get_decision c' k = dc_get_decision c k" "\<And>j f. waits c j f \<le> waits c' j f"
    "\<And>j f. waits c' j f \<noteq> waits c j f \<Longrightarrow> j = i" "fc_idx fc' = fc_idx fc" "fc_active fc' = fc_active fc"
    "fc_active fc \<Longrightarrow> fc_idx fc < length (ft_chain_diffs fd) \<Longrightarrow> \<not> fc_broken fc' \<Longrightarrow> intact_with c e (ft_chain_diffs fd ! fc_idx fc)"
proof -
  let ?d = "ft_chain_diffs fd ! fc_idx fc"
  let ?prev = "e - word_of_int ?d :: u64"
  consider "\<not> fc_active fc" | "fc_active fc" "length (ft_chain_diffs fd) \<le> fc_idx fc"
    | "fc_active fc" "fc_idx fc < length (ft_chain_diffs fd)" "?d = 0"
    | "fc_active fc" "fc_idx fc < length (ft_chain_diffs fd)" "?d \<noteq> 0" "fc_broken fc"
    | "\<not> (\<not> fc_active fc \<or> length (ft_chain_diffs fd) \<le> fc_idx fc \<or> ?d = 0 \<or> fc_broken fc)" by (meson not_le)
  then show ?thesis
  proof cases
    case 1
    then show ?thesis using that [of c fc False] ok by (simp add: fc_on_frame_def)
  next
    case 2
    then show ?thesis using that [of c fc "fc_broken fc"] ok by (simp add: fc_on_frame_def)
  next
    case 3
    then show ?thesis using that [of c "fc\<lparr>fc_broken := False, fc_expect := []\<rparr>" True] ok
      by (simp add: fc_on_frame_def chain_ok_def intact_with_def)
  next
    case 4
    then show ?thesis using that [of c fc False] ok by (simp add: fc_on_frame_def)
  next
    case 5
    note False = this
    obtain sd err where d: "dc_get_decision c ?prev = Some (sd, err)" using get_decision_returns [OF ok(1)] by blast
    have run: "fc_on_frame e fd i fc c = (case (case sd of SdForwarded \<Rightarrow> (c, fc, True)
       | SdUnknown \<Rightarrow> (case dc_expect_decision ?prev i c of (c', expected) \<Rightarrow>
           if expected then (c', fc\<lparr>fc_expect := fc_expect fc @ [?prev]\<rparr>, True) else (c', fc, False))
       | _ \<Rightarrow> (c, fc, False)) of (c', fc', intact) \<Rightarrow> Some (c', if intact then fc' else fc'\<lparr>fc_broken := True\<rparr>, intact))"
      using False d by (simp add: fc_on_frame_def Let_def)
    show ?thesis
    proof (cases "sd = SdUnknown")
      case True
      obtain c' expected where x: "dc_expect_decision ?prev i c = (c', expected)" by fastforce
      note x' = expect_effect [OF ok(1,2) x]
      have intact: "intact_with c e ?d" using d True by (simp add: intact_with_def)
      show ?thesis
      proof (cases expected)
        case yes: True
        have "chain_ok c' i (fc\<lparr>fc_expect := fc_expect fc @ [?prev]\<rparr>)" using ok(3) yes by (simp add: chain_ok_def x'(4))
        moreover have "fc_on_frame e fd i fc c = Some (c', fc\<lparr>fc_expect := fc_expect fc @ [?prev]\<rparr>, True)"
          using True yes by (simp add: run x)
        ultimately show ?thesis
          by (intro that [of c' "fc\<lparr>fc_expect := fc_expect fc @ [?prev]\<rparr>" True])
            (use x'(1-4) intact yes in \<open>auto split: if_splits\<close>)
      next
        case no: False
        have "fc_on_frame e fd i fc c = Some (c', fc\<lparr>fc_broken := True\<rparr>, False)" using True no by (simp add: run x)
        then show ?thesis
          by (intro that [of c' "fc\<lparr>fc_broken := True\<rparr>" False]) (use x'(1-4) no in \<open>auto simp: chain_ok_def\<close>)
      qed
    next
      case other: False
      have "intact_with c e ?d" if "sd = SdForwarded" using d that by (simp add: intact_with_def)
      then show ?thesis using that [of c] ok other
        by (cases sd) (auto simp: run chain_ok_def)
    qed
  qed
qed

lemma chain_ok_mono: "chain_ok c i fc \<Longrightarrow> (\<And>f. waits c i f \<le> waits c' i f) \<Longrightarrow> chain_ok c' i fc"
  unfolding chain_ok_def by (meson le_trans)

lemma one_chain_ok:
  assumes ok: "ds_ok s" and i: "i \<in> set (ds_chains s)"
  obtains c fc b where "fc_on_frame e fd i (ds_heap s ! i) (ds_decisions s) = Some (c, fc, b)"
    "ds_ok (s\<lparr>ds_decisions := c, ds_heap := (ds_heap s)[i := fc]\<rparr>)" "\<And>k. dc_get_decision c k = dc_get_decision (ds_decisions s) k"
    "fc_idx fc = fc_idx (ds_heap s ! i)"
    "fc_active (ds_heap s ! i) \<Longrightarrow> fc_idx fc < length (ft_chain_diffs fd) \<Longrightarrow> \<not> fc_broken fc \<Longrightarrow>
       intact_with (ds_decisions s) e (ft_chain_diffs fd ! fc_idx fc)"
proof -
  have dc: "dc_ok (ds_decisions s)" "keys_ok (ds_decisions s)" and ch: "chains_ok (ds_decisions s) (ds_chains s) (ds_heap s)"
    using ok by (simp_all add: ds_ok_def)
  note chd = chains_okD [OF ch]
  obtain c fc b where f: "fc_on_frame e fd i (ds_heap s ! i) (ds_decisions s) = Some (c, fc, b)" "dc_ok c" "keys_ok c" "chain_ok c i fc"
    "\<And>k. dc_get_decision c k = dc_get_decision (ds_decisions s) k" "\<And>j f. waits (ds_decisions s) j f \<le> waits c j f"
    "\<And>j f. waits c j f \<noteq> waits (ds_decisions s) j f \<Longrightarrow> j = i" "fc_idx fc = fc_idx (ds_heap s ! i)" "fc_active fc = fc_active (ds_heap s ! i)"
    "fc_active (ds_heap s ! i) \<Longrightarrow> fc_idx (ds_heap s ! i) < length (ft_chain_diffs fd) \<Longrightarrow> \<not> fc_broken fc \<Longrightarrow>
       intact_with (ds_decisions s) e (ft_chain_diffs fd ! fc_idx (ds_heap s ! i))"
    by (rule fc_on_frame_ok [OF dc chd(3) [OF i], of e fd]) blast
  let ?h = "(ds_heap s)[i := fc]"
  have h: "length ?h = length (ds_heap s)" "?h ! i = fc" "\<And>j. j \<noteq> i \<Longrightarrow> ?h ! j = ds_heap s ! j" using chd(2) [OF i] by simp_all
  have "chains_ok c (ds_chains s) ?h"
    unfolding chains_ok_def
  proof (intro conjI allI ballI impI)
    fix k assume "k < length (ds_chains s)"
    then show "ds_chains s ! k < length ?h" "fc_idx (?h ! (ds_chains s ! k)) = k"
      using ch f(8) h by (auto simp: chains_ok_def) (metis h(2,3))
  next
    fix j assume j: "j \<in> set (ds_chains s)"
    show "chain_ok c j (?h ! j)"
    proof (cases "j = i")
      case False
      then show ?thesis using chain_ok_mono [OF chd(3) [OF j] f(6)] h(3) by simp
    qed (use f(4) h(2) in simp)
  next
    fix j g assume "0 < waits c j g"
    then show "j < length ?h" using f(7) [of j g] chd(2) [OF i] chd(4) [of j g] h(1) by (metis)
  qed (rule chd(1))
  moreover have "\<forall>dt \<in> set (ds_targets s). target_ok (s\<lparr>ds_decisions := c, ds_heap := ?h\<rparr>) dt"
  proof
    fix dt assume "dt \<in> set (ds_targets s)"
    then have t: "target_ok s dt" using ok by (simp add: ds_ok_def)
    have "fc_active (?h ! j) = fc_active (ds_heap s ! j)" for j using h f(9) by (cases "j = i") simp_all
    then show "target_ok (s\<lparr>ds_decisions := c, ds_heap := ?h\<rparr>) dt" using t by (simp add: target_ok_def)
  qed
  ultimately have "ds_ok (s\<lparr>ds_decisions := c, ds_heap := ?h\<rparr>)" using f(2,3) by (simp add: ds_ok_def)
  then show ?thesis using f by (intro that [of c fc b]) auto
qed

lemma chains_on_frame_ok:
  "ds_ok s \<Longrightarrow> set ids \<subseteq> set (ds_chains s) \<Longrightarrow> distinct ids \<Longrightarrow>
   \<exists>c h. ds_chains_on_frame e fd ids s = Some (s\<lparr>ds_decisions := c, ds_heap := h\<rparr>) \<and> ds_ok (s\<lparr>ds_decisions := c, ds_heap := h\<rparr>) \<and>
     (\<forall>k. dc_get_decision c k = dc_get_decision (ds_decisions s) k) \<and> (\<forall>j. j \<notin> set ids \<longrightarrow> h ! j = ds_heap s ! j) \<and>
     (\<forall>i \<in> set ids. fc_idx (h ! i) = fc_idx (ds_heap s ! i) \<and>
       (fc_active (ds_heap s ! i) \<longrightarrow> fc_idx (h ! i) < length (ft_chain_diffs fd) \<longrightarrow> \<not> fc_broken (h ! i) \<longrightarrow>
         intact_with (ds_decisions s) e (ft_chain_diffs fd ! fc_idx (h ! i))))"
proof (induction ids arbitrary: s)
  case Nil
  then show ?case by (intro exI [of _ "ds_decisions s"] exI [of _ "ds_heap s"]) simp
next
  case (Cons i ids)
  have i: "i \<in> set (ds_chains s)" "i \<notin> set ids" "i < length (ds_heap s)"
    using Cons.prems chains_okD(2) [of "ds_decisions s" "ds_chains s" "ds_heap s" i] by (auto simp: ds_ok_def)
  obtain c1 fc b where f: "fc_on_frame e fd i (ds_heap s ! i) (ds_decisions s) = Some (c1, fc, b)"
    "ds_ok (s\<lparr>ds_decisions := c1, ds_heap := (ds_heap s)[i := fc]\<rparr>)" "\<And>k. dc_get_decision c1 k = dc_get_decision (ds_decisions s) k"
    "fc_idx fc = fc_idx (ds_heap s ! i)"
    "fc_active (ds_heap s ! i) \<Longrightarrow> fc_idx fc < length (ft_chain_diffs fd) \<Longrightarrow> \<not> fc_broken fc \<Longrightarrow>
       intact_with (ds_decisions s) e (ft_chain_diffs fd ! fc_idx fc)"
    by (rule one_chain_ok [OF Cons.prems(1) i(1), of e fd]) blast
  define s1 where "s1 = s\<lparr>ds_decisions := c1, ds_heap := (ds_heap s)[i := fc]\<rparr>"
  have "set ids \<subseteq> set (ds_chains s1)" "distinct ids" using Cons.prems by (simp_all add: s1_def)
  moreover have s1: "ds_heap s1 = (ds_heap s)[i := fc]" "ds_decisions s1 = c1" by (simp_all add: s1_def)
  ultimately obtain c h where r: "ds_chains_on_frame e fd ids s1 = Some (s1\<lparr>ds_decisions := c, ds_heap := h\<rparr>)"
    "ds_ok (s1\<lparr>ds_decisions := c, ds_heap := h\<rparr>)" "\<And>k. dc_get_decision c k = dc_get_decision c1 k"
    "\<And>j. j \<notin> set ids \<Longrightarrow> h ! j = (ds_heap s)[i := fc] ! j"
    "\<And>j. j \<in> set ids \<Longrightarrow> fc_idx (h ! j) = fc_idx ((ds_heap s)[i := fc] ! j) \<and>
       (fc_active ((ds_heap s)[i := fc] ! j) \<longrightarrow> fc_idx (h ! j) < length (ft_chain_diffs fd) \<longrightarrow> \<not> fc_broken (h ! j) \<longrightarrow>
         intact_with c1 e (ft_chain_diffs fd ! fc_idx (h ! j)))"
    using Cons.IH [OF f(2) [folded s1_def], unfolded s1] by blast
  have same: "s1\<lparr>ds_decisions := c, ds_heap := h\<rparr> = s\<lparr>ds_decisions := c, ds_heap := h\<rparr>" by (simp add: s1_def)
  have hi: "h ! i = fc" using r(4) [OF i(2)] i(3) by simp
  have iw: "intact_with c1 e d = intact_with (ds_decisions s) e d" for d by (simp add: intact_with_def f(3))
  have "fc_idx (h ! j) = fc_idx (ds_heap s ! j) \<and> (fc_active (ds_heap s ! j) \<longrightarrow> fc_idx (h ! j) < length (ft_chain_diffs fd) \<longrightarrow>
      \<not> fc_broken (h ! j) \<longrightarrow> intact_with (ds_decisions s) e (ft_chain_diffs fd ! fc_idx (h ! j)))" if "j \<in> set (i # ids)" for j
  proof (cases "j = i")
    case True
    then show ?thesis using f(4,5) by (simp add: hi)
  next
    case False
    then have j: "j \<in> set ids" "(ds_heap s)[i := fc] ! j = ds_heap s ! j" using that by simp_all
    show ?thesis using r(5) [OF j(1)] unfolding j(2) iw by blast
  qed
  moreover have "ds_chains_on_frame e fd (i # ids) s = Some (s\<lparr>ds_decisions := c, ds_heap := h\<rparr>)"
    using f(1) r(1) by (simp add: s1_def)
  moreover have "h ! j = ds_heap s ! j" if "j \<notin> set (i # ids)" for j using r(4) [of j] that by simp
  moreover have "dc_get_decision c k = dc_get_decision (ds_decisions s) k" for k by (simp add: r(3) f(3))
  ultimately show ?case using r(2) unfolding same by blast
qed

text \<open>A structure: chains and targets of its own.\<close>

lemma new_decode_target_fields [simp]: "dt_chain (new_decode_target l ch) = ch" "\<not> dt_active (new_decode_target l ch)"
  by (simp_all add: new_decode_target_def)

lemma target_chain_returns:
  assumes st: "fs_ok st" and dt: "dl_target dt < nat (fs_num_targets st)" and ids: "length ids = nat (fs_num_chains st)"
  obtains ch where "target_chain st ids dt = Some ch" "\<And>i. ch = Some i \<Longrightarrow> i \<in> set ids"
proof (cases "fs_num_chains st > 0")
  case True
  have "int (length (fs_protected st)) = fs_num_targets st" "list_all (\<lambda>c. 0 \<le> c \<and> c < fs_num_chains st) (fs_protected st)"
    using st True by (simp_all add: fs_ok_def)
  moreover from this have t: "dl_target dt < length (fs_protected st)" using dt by linarith
  ultimately have idx: "0 \<le> fs_protected st ! dl_target dt" "fs_protected st ! dl_target dt < fs_num_chains st"
    by (simp_all add: list_all_length)
  then have "nat (fs_protected st ! dl_target dt) < length ids" using ids by simp
  then show ?thesis using that [of "Some (ids ! nat (fs_protected st ! dl_target dt))"] True t idx ids
    by (simp add: target_chain_def)
next
  case False
  then show ?thesis using that [of None] by (simp add: target_chain_def)
qed

lemma update_structure_ok:
  assumes ok: "ds_ok s" and st: "fs_ok st" and targets: "covers st targets"
  obtains s' where "ds_update_structure st targets e s = Some s'" "ds_ok s'" "ds_decisions s' = ds_decisions s" "ds_base s' = ds_base s"
    "ds_key_frame_num s' = e" "ds_key_frame_valid s'" "ds_structure s' = Some st" "ds_fn s' = ds_fn s"
proof -
  define n where "n = nat (fs_num_chains st)"
  define ids where "ids = [length (ds_heap s)..<length (ds_heap s) + n]"
  define heap where "heap = ds_heap s @ map new_frame_chain [0..<n]"
  let ?f = "\<lambda>dt. map_option (new_decode_target dt) (target_chain st ids dt)"
  have f: "\<exists>dt'. ?f dt = Some dt' \<and> \<not> dt_active dt' \<and> (\<forall>i. dt_chain dt' = Some i \<longrightarrow> i \<in> set ids)" if "dt \<in> set targets" for dt
  proof -
    have "dl_target dt \<in> dl_target ` set targets" using that by simp
    then have "dl_target dt < nat (fs_num_targets st)" using targets unfolding covers_def by blast
    then obtain ch where "target_chain st ids dt = Some ch" "\<And>i. ch = Some i \<Longrightarrow> i \<in> set ids"
      using target_chain_returns [OF st] by (metis (full_types) n_def ids_def add_diff_cancel_left' length_upt)
    then show ?thesis by simp
  qed
  define dts where "dts = map (\<lambda>dt. the (?f dt)) targets"
  have some: "all_some (map ?f targets) = Some dts" unfolding dts_def by (rule all_some_map) (use f in blast)
  define s' where "s' = s\<lparr>ds_structure := Some st, ds_key_frame_num := e, ds_key_frame_valid := True, ds_chains := ids, ds_targets := dts, ds_heap := heap\<rparr>"
  have run: "ds_update_structure st targets e s = Some s'"
    using some by (simp add: ds_update_structure_def Let_def n_def [symmetric] ids_def [symmetric] heap_def [symmetric] s'_def)
  have new: "heap ! (length (ds_heap s) + k) = new_frame_chain k" if "k < n" for k using that by (simp add: heap_def nth_append)
  have "chains_ok (ds_decisions s) ids heap"
    unfolding chains_ok_def
  proof (intro conjI allI ballI impI)
    show "distinct ids" by (simp add: ids_def)
    fix k assume "k < length ids"
    then show "ids ! k < length heap" "fc_idx (heap ! (ids ! k)) = k" using new [of k] by (simp_all add: ids_def heap_def new_frame_chain_def)
  next
    fix i assume "i \<in> set ids"
    then obtain k where "i = length (ds_heap s) + k" "k < n" using le_Suc_ex by (auto simp: ids_def)
    then show "chain_ok (ds_decisions s) i (heap ! i)" using new by (simp add: chain_ok_def new_frame_chain_def)
  next
    fix i f assume "0 < waits (ds_decisions s) i f"
    then have "i < length (ds_heap s)" using ok chains_okD(4) by (metis ds_ok_def)
    then show "i < length heap" by (simp add: heap_def)
  qed
  moreover have "target_ok s' dt'" if mem: "dt' \<in> set dts" for dt'
  proof -
    obtain dt where dt: "dt \<in> set targets" "dt' = the (?f dt)" using mem unfolding dts_def by auto
    from f [OF dt(1)] dt(2) show ?thesis by (auto simp: target_ok_def s'_def)
  qed
  ultimately have "ds_ok s'" using ok by (simp add: ds_ok_def s'_def)
  then show ?thesis using that [OF run] by (simp add: s'_def)
qed

text \<open>The active targets: chains keep what they expect, and may only break.\<close>

definition weaker :: "frame_chain list \<Rightarrow> frame_chain list \<Rightarrow> bool" where
  "weaker h h' \<longleftrightarrow> length h' = length h \<and>
    (\<forall>i. fc_expect (h' ! i) = fc_expect (h ! i) \<and> fc_idx (h' ! i) = fc_idx (h ! i) \<and> (fc_broken (h ! i) \<longrightarrow> fc_broken (h' ! i)))"

lemma weaker_refl: "weaker h h"
  by (simp add: weaker_def)

lemma weaker_trans: "weaker a b \<Longrightarrow> weaker b c \<Longrightarrow> weaker a c"
  by (simp add: weaker_def)

lemma weaker_update:
  "fc_expect fc = fc_expect (h ! i) \<Longrightarrow> fc_idx fc = fc_idx (h ! i) \<Longrightarrow> (fc_broken (h ! i) \<Longrightarrow> fc_broken fc) \<Longrightarrow> weaker h (h[i := fc])"
  by (cases "i < length h") (auto simp: weaker_def nth_list_update not_less list_update_beyond)

lemma each_chain_simps [simp]: "ds_each_chain f [] h = h" "ds_each_chain f (i # ids) h = ds_each_chain f ids (h[i := f (h ! i)])"
  by (simp_all add: ds_each_chain_def)

lemma each_chain_weaker:
  assumes "\<And>fc. fc_expect (f fc) = fc_expect fc \<and> fc_idx (f fc) = fc_idx fc \<and> (fc_broken fc \<longrightarrow> fc_broken (f fc))"
  shows "weaker h (ds_each_chain f ids h)"
proof (induction ids arbitrary: h)
  case (Cons i ids)
  have "weaker h (h[i := f (h ! i)])" using assms by (intro weaker_update) auto
  then show ?case using Cons.IH weaker_trans by auto
qed (simp add: weaker_refl)

lemma each_chain_at: "distinct ids \<Longrightarrow> i < length h \<Longrightarrow> ds_each_chain f ids h ! i = (if i \<in> set ids then f (h ! i) else h ! i)"
proof (induction ids arbitrary: h)
  case (Cons j ids)
  then show ?case using Cons.IH [of "h[j := f (h ! j)]"] by (cases "i = j") auto
qed simp

lemma targets_update_effect:
  "targets_update_active m dts h = (dts', h') \<Longrightarrow> weaker h h' \<and> (\<forall>i. fc_updating (h ! i) \<longrightarrow> fc_updating (h' ! i)) \<and>
   (\<forall>dt \<in> set dts'. \<forall>i. dt_chain dt = Some i \<longrightarrow> i < length h \<longrightarrow> dt_active dt \<longrightarrow> fc_updating (h' ! i)) \<and>
   dt_chain ` set dts' = dt_chain ` set dts"
proof (induction dts arbitrary: h dts')
  case (Cons dt dts)
  obtain dt1 h1 where one: "dt_update_active m dt h = (dt1, h1)" by fastforce
  obtain dts2 where rest: "targets_update_active m dts h1 = (dts2, h')" "dts' = dt1 # dts2"
    using Cons.prems one by (auto simp: split: prod.splits)
  have w1: "weaker h h1 \<and> (\<forall>i. fc_updating (h ! i) \<longrightarrow> fc_updating (h1 ! i)) \<and> dt_chain dt1 = dt_chain dt \<and>
    (\<forall>i. dt_chain dt1 = Some i \<longrightarrow> i < length h \<longrightarrow> dt_active dt1 \<longrightarrow> fc_updating (h1 ! i))"
  proof (cases "dt_chain dt")
    case None
    then show ?thesis using one by (auto simp: dt_update_active_def Let_def weaker_refl)
  next
    case (Some i)
    define active where "active = (m AND push_bit (dl_target (dt_layer dt)) 1 \<noteq> 0)"
    have h1: "h1 = h[i := fc_update_active active (h ! i)]" "dt1 = dt\<lparr>dt_active := active\<rparr>"
      using one Some by (auto simp: dt_update_active_def Let_def active_def)
    have "weaker h h1" unfolding h1 by (rule weaker_update) (simp_all add: fc_update_active_def)
    moreover have "fc_updating (h1 ! j)" if "fc_updating (h ! j)" for j
      using that by (cases "i < length h") (auto simp: h1 fc_update_active_def nth_list_update not_less list_update_beyond)
    ultimately show ?thesis using Some by (auto simp: h1 fc_update_active_def)
  qed
  have len: "length h1 = length h" using w1 by (simp add: weaker_def)
  note r = Cons.IH [OF rest(1)]
  have "fc_updating (h' ! i)" if "d \<in> set dts'" "dt_chain d = Some i" "i < length h" "dt_active d" for d i
    using that r w1 len rest(2) by auto
  then show ?case using r w1 rest(2) weaker_trans by auto
qed (simp add: weaker_refl)

lemma update_active_ok:
  assumes ok: "ds_ok s"
  obtains dts h where "ds_update_active_targets m s = s\<lparr>ds_targets := dts, ds_heap := h\<rparr>" "ds_ok (s\<lparr>ds_targets := dts, ds_heap := h\<rparr>)"
proof -
  define h1 where "h1 = ds_each_chain fc_begin_update_active (ds_chains s) (ds_heap s)"
  obtain dts h2 where t: "targets_update_active m (ds_targets s) h1 = (dts, h2)" by fastforce
  define h3 where "h3 = ds_each_chain fc_end_update_active (ds_chains s) h2"
  note t' = targets_update_effect [OF t]
  have w1: "weaker (ds_heap s) h1" unfolding h1_def by (rule each_chain_weaker) (simp add: fc_begin_update_active_def)
  have w3: "weaker h2 h3" unfolding h3_def by (rule each_chain_weaker) (simp add: fc_end_update_active_def Let_def)
  have w2: "weaker h1 h2" using t' by (rule conjunct1)
  have w: "weaker (ds_heap s) h3" by (rule weaker_trans [OF weaker_trans [OF w1 w2] w3])
  then have len: "length h3 = length (ds_heap s)" "length h2 = length (ds_heap s)" "length h1 = length (ds_heap s)"
    using w1 w2 w3 by (simp_all add: weaker_def)
  have ch: "chains_ok (ds_decisions s) (ds_chains s) (ds_heap s)" using ok by (simp add: ds_ok_def)
  note chd = chains_okD [OF ch]
  have "chain_ok (ds_decisions s) i (h3 ! i)" if "i \<in> set (ds_chains s)" for i
    using chd(3) [OF that] w by (auto simp: chain_ok_def weaker_def)
  then have "chains_ok (ds_decisions s) (ds_chains s) h3" using ch w by (simp add: chains_ok_def weaker_def)
  moreover have "target_ok (s\<lparr>ds_targets := dts, ds_heap := h3\<rparr>) dt" if dt: "dt \<in> set dts" for dt
    unfolding target_ok_def
  proof (intro allI impI conjI)
    fix i assume i: "dt_chain dt = Some i"
    have "Some i \<in> dt_chain ` set dts" using dt i by force
    then have "Some i \<in> dt_chain ` set (ds_targets s)" using t' by simp
    then have in_use: "i \<in> set (ds_chains s)" using ok by (auto simp: ds_ok_def target_ok_def)
    then show "i \<in> set (ds_chains (s\<lparr>ds_targets := dts, ds_heap := h3\<rparr>))" by simp
    assume a: "dt_active dt"
    have i_len: "i < length h2" using chd(2) [OF in_use] len by simp
    then have "fc_updating (h2 ! i)" using t' dt i a len by auto
    then show "fc_active (ds_heap (s\<lparr>ds_targets := dts, ds_heap := h3\<rparr>) ! i)"
      using in_use each_chain_at [OF chd(1) i_len] by (simp add: h3_def fc_end_update_active_def Let_def)
  qed
  ultimately have "ds_ok (s\<lparr>ds_targets := dts, ds_heap := h3\<rparr>)" using ok by (simp add: ds_ok_def)
  then show ?thesis
    by (intro that [of h3 dts]) (simp_all add: ds_update_active_targets_def Let_def h1_def [symmetric] t h3_def [symmetric])
qed

text \<open>The target that is found, and the references of the frame.\<close>

lemma find_target_sound:
  "ds_find_target heap layer fd dts = Inr (Some (l, d)) \<Longrightarrow>
   \<exists>dt \<in> set dts. dt_active dt \<and> within_layer (dl_layer l) layer \<and> l = dt_layer dt \<and> dl_target l < length (ft_dtis fd) \<and>
     d = ft_dtis fd ! dl_target l \<and> dt_valid heap dt"
  by (induction dts) (auto simp: dt_on_frame_def within_layer_def split: if_splits)

lemma decodable_iff:
  assumes "dc_ok c"
  shows "ds_decodable c e ds = Some (\<forall>d \<in> set ds. d \<noteq> 0 \<longrightarrow> (\<forall>err. dc_get_decision c (e - word_of_int d) \<noteq> Some (SdDropped, err)))"
proof (induction ds)
  case (Cons d ds)
  obtain sd err where "dc_get_decision c (e - word_of_int d) = Some (sd, err)" using get_decision_returns [OF assms] by blast
  then show ?case using Cons by simp
qed simp

lemma drop_returns:
  assumes "ds_ok s" "e < sn_limit"
  obtains c h where "ds_drop e (s, res) = Some (s\<lparr>ds_decisions := c, ds_heap := h\<rparr>, res)" "ds_ok (s\<lparr>ds_decisions := c, ds_heap := h\<rparr>)"
  by (rule add_entity_ok [OF assms, of SdDropped]) (use that in \<open>simp add: ds_drop_def\<close>)

lemma ds_ok_irrelevant:
  "ds_ok (s\<lparr>ds_base := b\<rparr>) = ds_ok s" "ds_ok (s\<lparr>ds_fn := f\<rparr>) = ds_ok s" "ds_ok (s\<lparr>ds_mask := m\<rparr>) = ds_ok s"
  "ds_ok (s\<lparr>ds_previous_mask := m\<rparr>) = ds_ok s" "ds_ok (s\<lparr>ds_restart_generation := g\<rparr>) = ds_ok s"
  "ds_ok (s\<lparr>ds_key_frame_valid := v\<rparr>) = ds_ok s"
  by (simp_all add: ds_ok_def target_ok_def)

lemma switch_fields:
  assumes "ds_switch x layer (s, res) = (s1, res1)"
  shows "ds_ok s1 = ds_ok s" "ds_decisions s1 = ds_decisions s" "ds_heap s1 = ds_heap s" "ds_chains s1 = ds_chains s"
    "ds_targets s1 = ds_targets s" "bs_current (ds_base s1) = layer" "bs_target (ds_base s1) = bs_target (ds_base s)"
    "vr_is_selected res1 = vr_is_selected res" "ds_structure s1 = ds_structure s" "ds_fn s1 = ds_fn s"
    "ds_key_frame_num s1 = ds_key_frame_num s"
  using assms by (auto simp: ds_switch_def ds_ok_irrelevant split: if_splits)

lemma forward_returns:
  assumes ok: "ds_ok s" and e: "ed_frame_num x < sn_limit" and unsel: "\<not> vr_is_selected res"
  obtains s' res' where "ds_forward p x fd layer (s, res) = Some (s', res')" "ds_ok s'" "ds_targets s' = ds_targets s" "ds_chains s' = ds_chains s"
    "bs_current (ds_base s') = layer" "ds_structure s' = ds_structure s" "ds_key_frame_num s' = ds_key_frame_num s"
    "\<And>i. i \<in> set (ds_chains s) \<Longrightarrow> fc_idx (ds_heap s' ! i) = fc_idx (ds_heap s ! i)"
    "vr_is_selected res' \<Longrightarrow> ds_marshal (ds_outgoing (ucast (snd (fw_update_and_get (ed_frame_num x) (ed_structure_updated x) (ds_fn s))))
       (ds_mask s') (ed_descriptor x)) (ds_structure s) = Some (vr_dd_extension res')"
proof -
  obtain s1 res1 where sw: "ds_switch x layer (s, res) = (s1, res1)" by fastforce
  note f1 = switch_fields [OF sw]
  obtain fw fn where w: "fw_update_and_get (ed_frame_num x) (ed_structure_updated x) (ds_fn s1) = (fw, fn)" by fastforce
  define s2 where "s2 = s1\<lparr>ds_fn := fw\<rparr>"
  have ok2: "ds_ok s2" using ok f1(1) by (simp add: s2_def ds_ok_irrelevant)
  have f2: "ds_decisions s2 = ds_decisions s" "ds_heap s2 = ds_heap s" "ds_chains s2 = ds_chains s" "ds_targets s2 = ds_targets s"
    "bs_current (ds_base s2) = layer" "ds_structure s2 = ds_structure s" "ds_key_frame_num s2 = ds_key_frame_num s"
    using f1 by (simp_all add: s2_def)
  let ?m = "ds_marshal (ds_outgoing (ucast fn) (ds_mask s2) (ed_descriptor x)) (ds_structure s2)"
  define marked where "marked = (\<lambda>bytes (s :: dd_selector). res1\<lparr>vr_dd_extension := bytes,
    vr_rtp_marker := (rp_marker (ep_packet p) \<or> dd_last (ed_descriptor x) \<and> vl_spatial (bs_current (ds_base s)) = ft_spatial fd),
    vr_is_selected := True\<rparr>)"
  have run: "ds_forward p x fd layer (s, res) = (case ?m of
     None \<Rightarrow> map_option (\<lambda>s. (s, res1)) (ds_add_entity (ed_frame_num x) SdDropped s2)
   | Some bytes \<Rightarrow> map_option (\<lambda>s. (s, marked bytes s)) (if ed_integrity x then ds_add_entity (ed_frame_num x) SdForwarded s2 else Some s2))"
    unfolding ds_forward_def sw Let_def prod.case w s2_def [symmetric] marked_def by (rule refl)
  have added: "\<exists>s'. ds_add_entity (ed_frame_num x) sd s2 = Some s' \<and> ds_ok s' \<and> ds_targets s' = ds_targets s \<and> ds_chains s' = ds_chains s \<and>
      bs_current (ds_base s') = layer \<and> ds_structure s' = ds_structure s \<and> ds_key_frame_num s' = ds_key_frame_num s \<and> ds_mask s' = ds_mask s2 \<and>
      (\<forall>i \<in> set (ds_chains s). fc_idx (ds_heap s' ! i) = fc_idx (ds_heap s ! i))" for sd
    by (rule add_entity_ok [OF ok2 e, of sd]) (use f2 in auto)
  show ?thesis
  proof (cases ?m)
    case None
    obtain s' where "ds_add_entity (ed_frame_num x) SdDropped s2 = Some s'" "ds_ok s'" "ds_targets s' = ds_targets s" "ds_chains s' = ds_chains s"
      "bs_current (ds_base s') = layer" "ds_structure s' = ds_structure s" "ds_key_frame_num s' = ds_key_frame_num s"
      "\<forall>i \<in> set (ds_chains s). fc_idx (ds_heap s' ! i) = fc_idx (ds_heap s ! i)" using added by blast
    then show ?thesis using None unsel f1(8) by (intro that [of s' res1]) (simp_all add: run)
  next
    case (Some bytes)
    obtain s' where s': "(if ed_integrity x then ds_add_entity (ed_frame_num x) SdForwarded s2 else Some s2) = Some s'"
      "ds_ok s'" "ds_targets s' = ds_targets s" "ds_chains s' = ds_chains s" "bs_current (ds_base s') = layer" "ds_structure s' = ds_structure s"
      "ds_key_frame_num s' = ds_key_frame_num s" "ds_mask s' = ds_mask s2"
      "\<forall>i \<in> set (ds_chains s). fc_idx (ds_heap s' ! i) = fc_idx (ds_heap s ! i)"
      using added [of SdForwarded] ok2 f2 by (cases "ed_integrity x") auto
    have "vr_dd_extension (marked bytes s') = bytes" by (simp add: marked_def)
    then show ?thesis using Some s' f1(10) w f2(6) by (intro that [of s' "marked bytes s'"]) (simp_all add: run)
  qed
qed

text \<open>
  What justifies that the frame \<open>e\<close> is sent: an active target within the layer of the subscriber,
  whose layer is now the current one and for which the frame is present, and whose chain is intact.
\<close>

definition good_target :: "decision_cache \<Rightarrow> u64 \<Rightarrow> fd_template \<Rightarrow> video_layer \<Rightarrow> dd_selector \<Rightarrow> bool" where
  "good_target c e fd layer s \<longleftrightarrow> (\<exists>dt \<in> set (ds_targets s). dt_active dt \<and> within_layer (dl_layer (dt_layer dt)) layer \<and>
     bs_current (ds_base s) = dl_layer (dt_layer dt) \<and> dl_target (dt_layer dt) < length (ft_dtis fd) \<and>
     ft_dtis fd ! dl_target (dt_layer dt) \<noteq> DecodeTargetNotPresent \<and>
     (\<forall>i. dt_chain dt = Some i \<longrightarrow> fc_idx (ds_heap s ! i) < length (ft_chain_diffs fd) \<and>
        intact_with c e (ft_chain_diffs fd ! fc_idx (ds_heap s ! i))))"

definition no_reference_dropped :: "decision_cache \<Rightarrow> u64 \<Rightarrow> int list \<Rightarrow> bool" where
  "no_reference_dropped c e diffs \<longleftrightarrow>
    (\<forall>d \<in> set diffs. d \<noteq> 0 \<longrightarrow> (\<forall>err. dc_get_decision c (e - word_of_int d) \<noteq> Some (SdDropped, err)))"

definition sent_as :: "fn_wrapper \<Rightarrow> ext_dd \<Rightarrow> dd_selector \<Rightarrow> vls_result \<Rightarrow> bool" where
  "sent_as f x s res \<longleftrightarrow> ds_marshal (ds_outgoing (ucast (snd (fw_update_and_get (ed_frame_num x) (ed_structure_updated x) f)))
     (ds_mask s) (ed_descriptor x)) (ds_structure s) = Some (vr_dd_extension res)"

definition justified :: "decision_cache \<Rightarrow> fn_wrapper \<Rightarrow> ext_dd \<Rightarrow> fd_template \<Rightarrow> video_layer \<Rightarrow> dd_selector \<Rightarrow> vls_result \<Rightarrow> bool" where
  "justified c f x fd layer s res \<longleftrightarrow> good_target c (ed_frame_num x) fd layer s \<and>
    no_reference_dropped c (ed_frame_num x) (ft_frame_diffs fd) \<and> sent_as f x s res \<and> ds_key_frame_num s = ed_key_frame_num x"

lemma choose_ok:
  assumes ok: "ds_ok s" and e: "ed_frame_num x < sn_limit" and unsel: "\<not> vr_is_selected res"
    and kf: "ds_key_frame_num s = ed_key_frame_num x"
    and same: "\<And>k. dc_get_decision (ds_decisions s) k = dc_get_decision c k"
    and fine: "\<And>dt i. dt \<in> set (ds_targets s) \<Longrightarrow> dt_active dt \<Longrightarrow> dt_chain dt = Some i \<Longrightarrow> \<not> fc_broken (ds_heap s ! i) \<Longrightarrow>
      fc_idx (ds_heap s ! i) < length (ft_chain_diffs fd) \<and> intact_with c (ed_frame_num x) (ft_chain_diffs fd ! fc_idx (ds_heap s ! i))"
  obtains s' res' where "ds_choose p x fd (s, res) = Some (s', res')" "ds_ok s'"
    "vr_is_selected res' \<Longrightarrow> justified c (ds_fn s) x fd (bs_target (ds_base s)) s' res'"
proof -
  have dropped: "\<exists>s' res'. ds_drop (ed_frame_num x) (s, res) = Some (s', res') \<and> ds_ok s' \<and> \<not> vr_is_selected res'"
    by (rule drop_returns [OF ok e, of res]) (use unsel in auto)
  let ?found = "ds_find_target (ds_heap s) (bs_target (ds_base s)) fd (ds_targets s)"
  let ?ref = "no_reference_dropped c (ed_frame_num x) (ft_frame_diffs fd)"
  have dec: "ds_decodable (ds_decisions s) (ed_frame_num x) (ft_frame_diffs fd) = Some ?ref"
    using decodable_iff [of "ds_decisions s" "ed_frame_num x" "ft_frame_diffs fd"] ok by (simp add: ds_ok_def no_reference_dropped_def same)
  have "\<exists>s' res'. ds_choose p x fd (s, res) = Some (s', res') \<and> ds_ok s' \<and>
    (vr_is_selected res' \<longrightarrow> justified c (ds_fn s) x fd (bs_target (ds_base s)) s' res')"
  proof (cases "\<exists>l d. ?found = Inr (Some (l, d)) \<and> d \<noteq> DecodeTargetNotPresent \<and> ?ref")
    case False
    then have "ds_choose p x fd (s, res) = ds_drop (ed_frame_num x) (s, res)"
      by (auto simp: ds_choose_def dec split: sum.splits option.splits prod.splits)
    then show ?thesis using dropped by auto
  next
    case True
    then obtain l d where found: "?found = Inr (Some (l, d))" "d \<noteq> DecodeTargetNotPresent" "?ref" by blast
    obtain dt where dt: "dt \<in> set (ds_targets s)" "dt_active dt" "within_layer (dl_layer l) (bs_target (ds_base s))" "l = dt_layer dt"
      "dl_target l < length (ft_dtis fd)" "d = ft_dtis fd ! dl_target l" "dt_valid (ds_heap s) dt"
      using find_target_sound [OF found(1)] by blast
    obtain s' res' where f: "ds_forward p x fd (dl_layer l) (s, res) = Some (s', res')" "ds_ok s'" "ds_targets s' = ds_targets s"
      "ds_chains s' = ds_chains s" "bs_current (ds_base s') = dl_layer l" "ds_structure s' = ds_structure s" "ds_key_frame_num s' = ds_key_frame_num s"
      "\<And>i. i \<in> set (ds_chains s) \<Longrightarrow> fc_idx (ds_heap s' ! i) = fc_idx (ds_heap s ! i)"
      "vr_is_selected res' \<Longrightarrow> ds_marshal (ds_outgoing (ucast (snd (fw_update_and_get (ed_frame_num x) (ed_structure_updated x) (ds_fn s))))
         (ds_mask s') (ed_descriptor x)) (ds_structure s) = Some (vr_dd_extension res')"
      by (rule forward_returns [OF ok e unsel, of p fd "dl_layer l"]) blast
    have "good_target c (ed_frame_num x) fd (bs_target (ds_base s)) s'"
      unfolding good_target_def
    proof (intro bexI [of _ dt] conjI allI impI)
      fix i assume i: "dt_chain dt = Some i"
      then have "i \<in> set (ds_chains s)" "\<not> fc_broken (ds_heap s ! i)" using ok dt(1,7) by (auto simp: ds_ok_def target_ok_def dt_valid_def)
      then show "fc_idx (ds_heap s' ! i) < length (ft_chain_diffs fd)"
        "intact_with c (ed_frame_num x) (ft_chain_diffs fd ! fc_idx (ds_heap s' ! i))" using f(8) fine [OF dt(1,2) i] by auto
    qed (use dt found f in auto)
    moreover have "ds_choose p x fd (s, res) = Some (s', res')" using found f(1) by (simp add: ds_choose_def dec)
    moreover have "sent_as (ds_fn s) x s' res'" if "vr_is_selected res'" using f(6,9) that unfolding sent_as_def by simp
    ultimately show ?thesis using f(2,7) found(3) kf by (auto simp: justified_def)
  qed
  then show ?thesis using that by blast
qed

lemma invalidate_ok: "ds_ok s \<Longrightarrow> ds_ok (ds_invalidate_key_frame s)"
  by (simp add: ds_ok_def ds_invalidate_key_frame_def chains_ok_def)

lemma new_cache: "dc_ok (new_decision_cache 256 80)" "dc_expect (new_decision_cache 256 80) = []" "\<not> dc_initialized (new_decision_cache 256 80)"
  by (simp_all add: dc_ok_def new_decision_cache_def Let_def)

lemma restart_ok: "ds_ok s \<Longrightarrow> ds_ok (ds_restart g s)"
  by (simp add: ds_ok_def ds_restart_def ds_invalidate_key_frame_def chains_ok_def new_cache keys_ok_def waits_def waiting_def)

lemma new_selector_ok: "ds_ok new_dd_selector"
  by (simp add: ds_ok_def new_dd_selector_def new_dd_selector_from_other_def chains_ok_def new_cache keys_ok_def waits_def waiting_def)

lemma ds_frame_ok:
  assumes ok: "ds_ok s" and x: "ed_ok x" and unsel: "\<not> vr_is_selected res"
  obtains s' res' where "ds_frame p x fd (s, res) = Some (s', res')" "ds_ok s'"
    "vr_is_selected res' \<Longrightarrow> justified (ds_decisions s) (ds_fn s) x fd (bs_target (ds_base s)) s' res'"
proof -
  have e: "ed_frame_num x < sn_limit" using x by (simp add: ed_ok_def)
  obtain s1 where s1: "(if ed_structure_updated x
       then (case dd_attached (ed_descriptor x) of None \<Rightarrow> None | Some st \<Rightarrow> ds_update_structure st (ed_targets x) (ed_frame_num x) s)
       else Some s) = Some s1" "ds_ok s1" "ds_decisions s1 = ds_decisions s" "ds_base s1 = ds_base s" "ds_fn s1 = ds_fn s"
  proof (cases "ed_structure_updated x")
    case True
    then obtain st where st: "dd_attached (ed_descriptor x) = Some st" "fs_ok st" "covers st (ed_targets x)" using x by (auto simp: ed_ok_def)
    show ?thesis by (rule update_structure_ok [OF ok st(2,3), of "ed_frame_num x"]) (use that True st in auto)
  qed (use that ok in auto)
  show ?thesis
  proof (cases "ed_key_frame_num x \<noteq> ds_key_frame_num s1")
    case True
    obtain c h where "ds_add_entity (ed_frame_num x) SdDropped s1 = Some (s1\<lparr>ds_decisions := c, ds_heap := h\<rparr>)" "ds_ok (s1\<lparr>ds_decisions := c, ds_heap := h\<rparr>)"
      by (rule add_entity_ok [OF s1(2) e, of SdDropped]) blast
    then show ?thesis using True s1(1) unsel
      by (intro that [of "ds_invalidate_key_frame (s1\<lparr>ds_decisions := c, ds_heap := h\<rparr>)" res]) (simp_all add: ds_frame_def invalidate_ok)
  next
    case kf: False
    obtain s2 where s2: "(if ed_active_updated x
         then (case dd_bitmask (ed_descriptor x) of None \<Rightarrow> None | Some m \<Rightarrow> Some (ds_update_active_targets m s1)) else Some s1) = Some s2"
      "ds_ok s2" "ds_decisions s2 = ds_decisions s1" "ds_base s2 = ds_base s1" "ds_key_frame_num s2 = ds_key_frame_num s1" "ds_fn s2 = ds_fn s1"
    proof (cases "ed_active_updated x")
      case True
      then obtain m where m: "dd_bitmask (ed_descriptor x) = Some m" using x by (auto simp: ed_ok_def)
      show ?thesis by (rule update_active_ok [OF s1(2), of m]) (use that True m in auto)
    qed (use that s1 in auto)
    show ?thesis
    proof (cases "length (ft_chain_diffs fd) \<noteq> length (ds_chains s2)")
      case True
      obtain c h where "ds_drop (ed_frame_num x) (s2, res) = Some (s2\<lparr>ds_decisions := c, ds_heap := h\<rparr>, res)" "ds_ok (s2\<lparr>ds_decisions := c, ds_heap := h\<rparr>)"
        by (rule drop_returns [OF s2(2) e, of res]) blast
      then show ?thesis using True kf s1(1) s2(1) unsel
        by (intro that [of "s2\<lparr>ds_decisions := c, ds_heap := h\<rparr>" res]) (simp_all add: ds_frame_def)
    next
      case len: False
      have ch: "chains_ok (ds_decisions s2) (ds_chains s2) (ds_heap s2)" using s2(2) by (simp add: ds_ok_def)
      note chd = chains_okD [OF ch]
      obtain c h where r: "ds_chains_on_frame (ed_frame_num x) fd (ds_chains s2) s2 = Some (s2\<lparr>ds_decisions := c, ds_heap := h\<rparr>)"
        "ds_ok (s2\<lparr>ds_decisions := c, ds_heap := h\<rparr>)" "\<And>k. dc_get_decision c k = dc_get_decision (ds_decisions s2) k"
        "\<And>i. i \<in> set (ds_chains s2) \<Longrightarrow> fc_idx (h ! i) = fc_idx (ds_heap s2 ! i) \<and>
           (fc_active (ds_heap s2 ! i) \<longrightarrow> fc_idx (h ! i) < length (ft_chain_diffs fd) \<longrightarrow> \<not> fc_broken (h ! i) \<longrightarrow>
             intact_with (ds_decisions s2) (ed_frame_num x) (ft_chain_diffs fd ! fc_idx (h ! i)))"
        using chains_on_frame_ok [OF s2(2) subset_refl chd(1), of "ed_frame_num x" fd] by blast
      define s3 where "s3 = s2\<lparr>ds_decisions := c, ds_heap := h\<rparr>"
      have f3: "ds_targets s3 = ds_targets s2" "ds_heap s3 = h" "ds_decisions s3 = c" "ds_base s3 = ds_base s" "ds_key_frame_num s3 = ed_key_frame_num x"
        "ds_fn s3 = ds_fn s" using s1(4,5) s2(4-6) kf by (simp_all add: s3_def)
      have fine: "fc_idx (ds_heap s3 ! i) < length (ft_chain_diffs fd) \<and>
          intact_with (ds_decisions s) (ed_frame_num x) (ft_chain_diffs fd ! fc_idx (ds_heap s3 ! i))"
        if dt: "dt \<in> set (ds_targets s3)" "dt_active dt" "dt_chain dt = Some i" "\<not> fc_broken (ds_heap s3 ! i)" for dt i
      proof -
        have i: "i \<in> set (ds_chains s2)" "fc_active (ds_heap s2 ! i)" using dt s2(2) f3(1) by (auto simp: ds_ok_def target_ok_def)
        then have "fc_idx (h ! i) < length (ft_chain_diffs fd)" using chd(5) [OF i(1)] r(4) [OF i(1)] len by simp
        then show ?thesis using r(4) [OF i(1)] i(2) dt(4) unfolding f3(2) s1(3) s2(3) by blast
      qed
      obtain s' res' where "ds_choose p x fd (s3, res) = Some (s', res')" "ds_ok s'"
        "vr_is_selected res' \<Longrightarrow> justified (ds_decisions s) (ds_fn s3) x fd (bs_target (ds_base s3)) s' res'"
      proof (rule choose_ok [of s3 x res "ds_decisions s" fd p])
        show "dc_get_decision (ds_decisions s3) k = dc_get_decision (ds_decisions s) k" for k using r(3) s1(3) s2(3) by (simp add: f3(3))
      qed (use r(2) e unsel f3 fine s3_def in auto)
      then show ?thesis using kf len s1(1) s2(1) r(1) f3(4,6)
        by (intro that [of s' res']) (simp_all add: ds_frame_def s3_def [symmetric])
    qed
  qed
qed

section \<open>Selecting\<close>

definition decisions_at :: "ext_dd \<Rightarrow> dd_selector \<Rightarrow> decision_cache" where
  "decisions_at x s = (if ed_restart_generation x > ds_restart_generation s then new_decision_cache 256 80 else ds_decisions s)"

lemma ds_select_ok:
  assumes ok: "ds_ok s" and p: "\<And>x. ep_dependency_descriptor p = Some x \<Longrightarrow> ed_ok x"
  obtains s' res where "ds_select p s = Some (s', res)" "ds_ok s'"
    "vr_is_selected res \<Longrightarrow> \<exists>x fd. ep_dependency_descriptor p = Some x \<and> dd_dependencies (ed_descriptor x) = Some fd \<and>
       (\<forall>err. dc_get_decision (decisions_at x s) (ed_frame_num x) \<noteq> Some (SdDropped, err)) \<and>
       justified (decisions_at x s) (ds_fn s) x fd (bs_target (ds_base s)) s' res"
proof (cases "ep_dependency_descriptor p")
  case None
  then show ?thesis using that ok by (simp add: ds_select_def vls_result_zero_def)
next
  case (Some x)
  have x: "ed_ok x" by (rule p [OF Some])
  obtain fd where fd: "dd_dependencies (ed_descriptor x) = Some fd" using x by (auto simp: ed_ok_def)
  define s0 where "s0 = (if ed_restart_generation x > ds_restart_generation s then ds_restart (ed_restart_generation x) s else s)"
  have ok0: "ds_ok s0" using ok restart_ok by (simp add: s0_def)
  have f0: "ds_decisions s0 = decisions_at x s" "ds_base s0 = ds_base s" "ds_fn s0 = ds_fn s"
    by (simp_all add: s0_def decisions_at_def ds_restart_def ds_invalidate_key_frame_def)
  define res0 where "res0 = vls_result_zero\<lparr>vr_is_relevant := vl_is_valid (bs_current (ds_base s))\<rparr>"
  have unsel: "\<not> vr_is_selected res0" by (simp add: res0_def vls_result_zero_def)
  obtain sd err where d: "dc_get_decision (ds_decisions s0) (ed_frame_num x) = Some (sd, err)"
    using get_decision_returns ok0 by (metis ds_ok_def)
  have run: "ds_select p s = (if \<not> ds_key_frame_valid s0 \<and> dd_attached (ed_descriptor x) = None then Some (s0, res0)
     else if err \<or> sd = SdDropped then Some (s0, res0) else ds_frame p x fd (s0, res0))"
    using d by (simp add: ds_select_def Some fd Let_def s0_def [symmetric] res0_def)
  show ?thesis
  proof (cases "(\<not> ds_key_frame_valid s0 \<and> dd_attached (ed_descriptor x) = None) \<or> err \<or> sd = SdDropped")
    case True
    then have "ds_select p s = Some (s0, res0)" by (auto simp: run)
    then show ?thesis using that ok0 unsel by blast
  next
    case False
    obtain s' res where f: "ds_frame p x fd (s0, res0) = Some (s', res)" "ds_ok s'"
      "vr_is_selected res \<Longrightarrow> justified (ds_decisions s0) (ds_fn s0) x fd (bs_target (ds_base s0)) s' res"
      by (rule ds_frame_ok [OF ok0 x unsel, of p fd]) blast
    have "ds_select p s = Some (s', res)" using False f(1) by (auto simp: run)
    then show ?thesis using that f(2,3) Some fd d False unfolding f0 by auto
  qed
qed

text \<open>
  C2. What the selector forwards can be decoded.  Whatever happened to the selector before, a packet
  is selected only if its frame has not been dropped before and none of the frames it refers to has
  been, and if there is a decode target that is active, within the layer meant for the subscriber
  and the layer that is now current, for which the frame is present and whose chain is intact: the
  frame starts the chain anew or the frame before it in the chain has been forwarded or is still to
  come.
\<close>

theorem selected_is_decodable:
  assumes "ds_ok s" "ep_dependency_descriptor p = Some x" "ed_ok x" "dd_dependencies (ed_descriptor x) = Some fd"
    and "ds_select p s = Some (s', res)" "vr_is_selected res"
  shows "(\<forall>err. dc_get_decision (decisions_at x s) (ed_frame_num x) \<noteq> Some (SdDropped, err)) \<and>
    (\<forall>d \<in> set (ft_frame_diffs fd). d \<noteq> 0 \<longrightarrow> (\<forall>err. dc_get_decision (decisions_at x s) (ed_frame_num x - word_of_int d) \<noteq> Some (SdDropped, err))) \<and>
    (\<exists>dt \<in> set (ds_targets s'). dt_active dt \<and> within_layer (dl_layer (dt_layer dt)) (bs_target (ds_base s)) \<and>
       bs_current (ds_base s') = dl_layer (dt_layer dt) \<and> dl_target (dt_layer dt) < length (ft_dtis fd) \<and>
       ft_dtis fd ! dl_target (dt_layer dt) \<noteq> DecodeTargetNotPresent \<and>
       (\<forall>i. dt_chain dt = Some i \<longrightarrow> fc_idx (ds_heap s' ! i) < length (ft_chain_diffs fd) \<and>
          intact_with (decisions_at x s) (ed_frame_num x) (ft_chain_diffs fd ! fc_idx (ds_heap s' ! i))))"
proof -
  have p: "ep_dependency_descriptor p = Some y \<Longrightarrow> ed_ok y" for y using assms(2,3) by simp
  obtain s1 res1 where r: "ds_select p s = Some (s1, res1)"
    "vr_is_selected res1 \<Longrightarrow> \<exists>x fd. ep_dependency_descriptor p = Some x \<and> dd_dependencies (ed_descriptor x) = Some fd \<and>
       (\<forall>err. dc_get_decision (decisions_at x s) (ed_frame_num x) \<noteq> Some (SdDropped, err)) \<and>
       justified (decisions_at x s) (ds_fn s) x fd (bs_target (ds_base s)) s1 res1"
  proof (rule ds_select_ok [OF assms(1), of p])
    fix y assume "ep_dependency_descriptor p = Some y"
    then show "ed_ok y" by (rule p)
  qed (rule that)
  then have "s1 = s'" "res1 = res" using assms(5) by simp_all
  then show ?thesis using r(2) assms(2,4,6) by (auto simp: justified_def good_target_def no_reference_dropped_def)
qed

definition example_key_frame :: ext_dd where
  "example_key_frame = \<lparr>ed_descriptor = example_frame\<lparr>dd_dependencies := Some example_template, dd_bitmask := Some 3\<rparr>,
     ed_targets = [\<lparr>dl_target = 1, dl_layer = VideoLayer 0 1\<rparr>, \<lparr>dl_target = 0, dl_layer = VideoLayer 0 0\<rparr>],
     ed_structure_updated = True, ed_active_updated = True, ed_integrity = True, ed_frame_num = 4660, ed_key_frame_num = 4660,
     ed_restart_generation = 0\<rparr>"

definition example_packet :: "ext_dd ext_packet" where
  "example_packet = ext_packet_zero\<lparr>ep_dependency_descriptor := Some example_key_frame\<rparr>"

definition example_selector :: dd_selector where
  "example_selector = new_dd_selector\<lparr>ds_base := bs_set_target (VideoLayer 2 2) new_base\<rparr>"

lemma example_ok: "fs_ok example_structure" "ed_ok example_key_frame" "ds_ok example_selector"
proof -
  show fs: "fs_ok example_structure"
    by (simp add: fs_ok_def example_structure_def example_template_def example_upper_def template_ok_def max_templates_def
        max_spatial_ids_def max_temporal_ids_def get_next_layer_idc_def)
  have "nat (fs_num_targets example_structure) = 2" "{..<2 :: nat} = {1, 0}" by (auto simp: example_structure_def)
  then show "ed_ok example_key_frame" using fs
    by (simp add: ed_ok_def example_key_frame_def example_frame_def targets_ok_def covers_def word_less_def)
  show "ds_ok example_selector" using new_selector_ok by (simp add: example_selector_def ds_ok_irrelevant)
qed

lemma example_selected:
  "map_option (\<lambda>(s', res). vr_is_selected res \<and> ds_structure s' = Some example_structure \<and> ds_mask s' = Some 3)
    (ds_select example_packet example_selector) = Some True"
  by code_simp

theorem selected_is_decodable_witness:
  "\<exists>s' res. ds_select example_packet example_selector = Some (s', res) \<and> vr_is_selected res \<and>
    (\<exists>dt \<in> set (ds_targets s'). dt_active dt \<and> within_layer (dl_layer (dt_layer dt)) (VideoLayer 2 2) \<and>
       bs_current (ds_base s') = dl_layer (dt_layer dt))"
proof -
  obtain s' res where r: "ds_select example_packet example_selector = Some (s', res)" "vr_is_selected res"
    using example_selected by auto
  have "ep_dependency_descriptor example_packet = Some example_key_frame" "bs_target (ds_base example_selector) = VideoLayer 2 2"
    "dd_dependencies (ed_descriptor example_key_frame) = Some example_template"
    by (simp_all add: example_packet_def example_selector_def bs_set_target_def example_key_frame_def)
  with selected_is_decodable [OF example_ok(3) _ example_ok(2) _ r] r show ?thesis by auto
qed

end
