(* ===== verification/Forwarder_Translation.thy ===== *)
theory Forwarder_Translation
  imports Forwarder Dd_Selecting "HOL-Library.Signed_Division"
begin

text \<open>
  What the forwarder makes of a packet (\<open>GetTranslationParams\<close> and what it calls in
  \<open>pkg/sfu/forwarder.go\<close>): the selector, the RTP munger and the codec munger at work together, the
  switch to another source, and the numbers of padding.  The difference of two NTP times is that of
  \<open>pkg/samvaad/transport/helpers.go\<close>.

  The statistics of the sender, the clock and the random numbers are an argument (\<open>surroundings\<close>).
  Quotients by the clock rate are compared with thresholds only, as exact rationals; with a clock rate
  of zero they are infinite.
\<close>

section \<open>Data\<close>

datatype forward_err =
    ErrUnknownKind
  | ErrInvalidLayers int int
  | ErrUnavailableLayerRef int int
  | ErrUnavailableLayerTarget int int
  | ErrOf sfu_err

record translation_params =
  tp_should_drop :: bool
  tp_is_starting :: bool
  tp_is_resuming :: bool
  tp_is_switching :: bool
  tp_rtp :: translation_params_rtp
  tp_dd_bytes :: "u8 list"
  tp_incoming_header_size :: int
  tp_codec_bytes :: "u8 list"
  tp_marker :: bool

definition translation_zero :: translation_params where
  "translation_zero = \<lparr>tp_should_drop = False, tp_is_starting = False, tp_is_resuming = False, tp_is_switching = False,
     tp_rtp = tr_only SnContiguous, tp_dd_bytes = [], tp_incoming_header_size = 0, tp_codec_bytes = [], tp_marker = False\<rparr>"

abbreviation dropped :: "translation_params \<Rightarrow> translation_params" where
  "dropped tp \<equiv> tp\<lparr>tp_should_drop := True\<rparr>"

text \<open>
  What the forwarder asks the statistics for: there are none, they have not started, or they expect
  this timestamp now.
\<close>

datatype expected_ts = NoStats | NotStarted | ExpectedTs u64

record surroundings =
  se_now :: int
  se_expected :: expected_ts
  se_random_sn :: int
  se_random_ts :: int

type_synonym ('mi, 'mb) forwarder_dd = "('mi, 'mb, dd_selector) forwarder"
type_synonym dd_packet = "ext_dd ext_packet"

section \<open>The selector in use\<close>

text \<open>The selector for dependency descriptors holds the common state in its own record.\<close>

definition dd_vls :: "dd_selector \<Rightarrow> dd_selector vls" where
  "dd_vls s = VlsDD (ds_base s) s"

fun vls_select :: "dd_selector vls \<Rightarrow> dd_packet \<Rightarrow> int \<Rightarrow> (dd_selector vls \<times> vls_result) option" where
  "vls_select (VlsNull b) p layer = Some (VlsNull b, vls_result_zero)"
| "vls_select (VlsSimulcast b) p layer = (case sc_select b p layer of (b', r) \<Rightarrow> Some (VlsSimulcast b', r))"
| "vls_select (VlsVP9 b) p layer = (case vp9_select b p layer of (b', r) \<Rightarrow> Some (VlsVP9 b', r))"
| "vls_select (VlsDD b d) p layer = map_option (\<lambda>(s, r). (dd_vls s, r)) (ds_select p (d\<lparr>ds_base := b\<rparr>))"

fun vls_rollback :: "dd_selector vls \<Rightarrow> dd_selector vls" where
  "vls_rollback (VlsDD b d) = dd_vls (ds_rollback (d\<lparr>ds_base := b\<rparr>))"
| "vls_rollback v = vls_map_base bs_rollback v"

definition vls_select_temporal :: "'d vls \<Rightarrow> 'dd ext_packet \<Rightarrow> 'd vls \<times> int" where
  "vls_select_temporal v p =
    (vls_map_base (\<lambda>b. fst (bs_select_temporal b p)) v, snd (bs_select_temporal (vls_base v) p))"

section \<open>The timestamp of another layer\<close>

text \<open>\<open>NtpTime.Duration\<close>, the nanoseconds since 1900.\<close>

definition ntp_nanos :: "u64 \<Rightarrow> int" where
  "ntp_nanos t =
    (let sec = drop_bit 32 t * 1000000000;
         frac = (t AND 0xffffffff) * 1000000000;
         nsec = drop_bit 32 frac
     in i64_of (sec + (if (ucast frac :: u32) \<ge> 0x80000000 then nsec + 1 else nsec)))"

text \<open>Ticks of a clock in a time in nanoseconds: the product is one of \<open>int64\<close>.\<close>

definition clock_ticks :: "int \<Rightarrow> u32 \<Rightarrow> int" where
  "clock_ticks nanos clock_rate = i64 (nanos * uint clock_rate) sdiv 1000000000"

text \<open>The offset of the clocks of two layers, from a sender report of each.\<close>

definition report_offset :: "u32 \<Rightarrow> sender_report \<Rightarrow> sender_report \<Rightarrow> u32" where
  "report_offset clock_rate sr_ref sr_target =
    (let ntp_diff = ntp_nanos (sr_ntp_timestamp sr_ref) - ntp_nanos (sr_ntp_timestamp sr_target)
     in sr_rtp_timestamp sr_ref - (sr_rtp_timestamp sr_target + word_of_int (clock_ticks ntp_diff clock_rate)))"

text \<open>A sender report that has been received.\<close>

definition usable_report :: "ref_info \<Rightarrow> sender_report option" where
  "usable_report i = (case ri_sender_report i of
     None \<Rightarrow> None
   | Some sr \<Rightarrow> if sr_ntp_timestamp sr = 0 then None else Some sr)"

definition get_ref_layer_rtp_timestamp ::
  "u32 \<Rightarrow> int \<Rightarrow> int \<Rightarrow> ('mi, 'mb, 'd) forwarder \<Rightarrow> (forward_err + u32) option" where
  "get_ref_layer_rtp_timestamp ts ref target f =
    (let n = int (length (fw_ref_infos f)) in
     if ref < 0 \<or> ref > n \<or> target < 0 \<or> target > n then Some (Inl (ErrInvalidLayers ref target))
     else if ref = target \<or> fw_ref_video_layer_mode f = MultipleSpatialLayersPerStream then Some (Inr ts)
     else do {
       info_ref \<leftarrow> go_nth (fw_ref_infos f) ref;
       info_target \<leftarrow> go_nth (fw_ref_infos f) target;
       Some (case usable_report info_ref of
           None \<Rightarrow> Inl (ErrUnavailableLayerRef ref target)
         | Some sr_ref \<Rightarrow>
             (case usable_report info_target of
                None \<Rightarrow> Inl (ErrUnavailableLayerTarget ref target)
              | Some sr_target \<Rightarrow> Inr (ts + report_offset (fw_clock_rate f) sr_ref sr_target))) })"

section \<open>Switching the source\<close>

text \<open>The extended timestamp with these low bits in the cycle of the last one, or the neighbouring cycle.\<close>

definition near_last :: "u64 \<Rightarrow> u64 \<Rightarrow> u64" where
  "near_last ext prev =
    (let r = ucast ext :: u32; l = ucast prev :: u32;
         e1 = (if r - l < 0x80000000 \<and> r < l then ext + 0x100000000 else ext)
     in if l - r < 0x80000000 \<and> l < r \<and> e1 \<ge> 0x100000000 then e1 - 0x100000000 else e1)"

text \<open>The timestamps of the packet by the reference layer and by the elapsed time.\<close>

definition switch_reference ::
  "surroundings \<Rightarrow> u32 \<Rightarrow> ('mi, 'mb, 'd) forwarder \<Rightarrow> ('mi, 'mb, 'd) forwarder \<times> u64 \<times> u64" where
  "switch_reference se ref_ts f =
    (let last_ts = rg_ext_last_ts (fw_rtp_munger f);
         ext = (last_ts AND 0xffffffff00000000) + ucast ref_ts + fw_dummy_start_ts_offset f;
         low = ucast (ucast ext :: u32) :: u64;
         ext_ref = near_last ext last_ts
     in case se_expected se of
          NoStats \<Rightarrow> (f, ext_ref, last_ts)
        | ExpectedTs t \<Rightarrow>
            (if fw_last_reference_payload_type f = -1 then (f\<lparr>fw_dummy_start_ts_offset := t - low\<rparr>, t, t) else (f, ext_ref, t))
        | NotStarted \<Rightarrow>
            (case fw_pre_start_time f of
               None \<Rightarrow> (f, ext_ref, last_ts)
             | Some start \<Rightarrow>
                 let t = fw_ext_first_ts f + word_of_int (clock_ticks (se_now se - start) (fw_clock_rate f))
                 in if fw_dummy_start_ts_offset f = 0 then (f\<lparr>fw_dummy_start_ts_offset := t - low\<rparr>, t, t) else (f, ext_ref, t)))"

text \<open>\<open>diff\<close> ticks last longer than \<open>seconds\<close>.\<close>

definition lasts_longer :: "int \<Rightarrow> u32 \<Rightarrow> rat \<Rightarrow> bool" where
  "lasts_longer diff clock_rate seconds \<longleftrightarrow>
     (if clock_rate = 0 then 0 < diff else of_int diff / of_int (uint clock_rate) > seconds)"

definition resume_behind_high_threshold :: rat where
  "resume_behind_high_threshold = 2"

definition layer_switch_behind_threshold :: rat where
  "layer_switch_behind_threshold = 1 / 20"

definition switch_timestamp ::
  "u64 \<Rightarrow> u64 \<Rightarrow> ('mi, 'mb, 'd) forwarder \<Rightarrow> forward_err + u64" where
  "switch_timestamp ext_ref expected f =
    (let last_ts = rg_ext_last_ts (fw_rtp_munger f); clock_rate = fw_clock_rate f
     in and_then
       (if fw_last_ssrc f = 0 then
          let diff = i64_of (expected - ext_ref) in
          Inr (if diff \<ge> 0 \<and> (fw_resume_behind_threshold f > 0 \<and> lasts_longer diff clock_rate (fw_resume_behind_threshold f) \<or>
                 lasts_longer diff clock_rate resume_behind_high_threshold)
               then expected else ext_ref)
        else
          let diff = i64_of (ext_ref - last_ts) in
          if diff < 0 then
            if lasts_longer (- diff) clock_rate layer_switch_behind_threshold then Inl (ErrOf ErrSwitchPointTooFarBehind)
            else Inr (last_ts + 1)
          else Inr ext_ref)
       (\<lambda>ts. Inr (if i64_of (ts - last_ts) \<le> 0 then last_ts + 1 else ts)))"

text \<open>The result: whether forwarding starts with the packet, and the error.\<close>

definition process_source_switch ::
  "('mi, 'mb) vm_env \<Rightarrow> surroundings \<Rightarrow> 'dd ext_packet \<Rightarrow> int \<Rightarrow> ('mi, 'mb, 'd) forwarder \<Rightarrow>
   (('mi, 'mb, 'd) forwarder \<times> bool \<times> forward_err option) option" where
  "process_source_switch env se p layer f =
    (if \<not> fw_started f then
       Some (if ep_is_out_of_order p then (f, False, Some (ErrOf ErrSkipStartOnOutOfOrderPacket))
         else (f\<lparr>fw_started := True, fw_reference_layer_spatial := layer, fw_rtp_munger := set_last_sn_ts (fw_rtp_munger f) p,
                 fw_codec_munger := cm_set_last (fw_codec_munger f) p\<rparr>, True, None))
     else
       let starting = (fw_reference_layer_spatial f = invalid_layer_spatial) in
       if starting \<and> ep_is_out_of_order p then Some (f, False, Some (ErrOf ErrSkipStartOnOutOfOrderPacket))
       else
         let f1 = (if starting then f\<lparr>fw_reference_layer_spatial := layer, fw_codec_munger := cm_set_last (fw_codec_munger f) p\<rparr> else f);
             last_ts = rg_ext_last_ts (fw_rtp_munger f1)
         in do {
           ref \<leftarrow> (if fw_skip_reference_ts f1 then Some (Inr (ucast last_ts))
             else get_ref_layer_rtp_timestamp (rp_timestamp (ep_packet p)) (fw_reference_layer_spatial f1) layer f1);
           Some (case ref of
               Inl e \<Rightarrow> (f1, starting, Some e)
             | Inr ref_ts \<Rightarrow>
                 (case switch_reference se ref_ts f1 of (f2, ext_ref, expected) \<Rightarrow>
                    (case switch_timestamp ext_ref expected f2 of
                       Inl e \<Rightarrow> (f2, starting, Some e)
                     | Inr ts \<Rightarrow>
                         let f3 = (if fw_last_ssrc f2 = 0 then f2\<lparr>fw_resume_behind_threshold := 0\<rparr> else f2)
                         in (f3\<lparr>fw_rtp_munger := update_sn_ts_offsets (fw_rtp_munger f3) p 1 (ts - last_ts),
                                fw_codec_munger := cm_update_offsets env (fw_codec_munger f3) p\<rparr>, starting, None)))) })"

section \<open>Translating a packet\<close>

definition translate_codec_header ::
  "('mi, 'mb) vm_env \<Rightarrow> 'dd ext_packet \<Rightarrow> ('mi, 'mb, 'd) forwarder \<Rightarrow> translation_params \<Rightarrow>
   (('mi, 'mb, 'd) forwarder \<times> translation_params \<times> forward_err option) option" where
  "translate_codec_header env p f tp =
    (case vls_select_temporal (fw_vls f) p of (v, tlayer) \<Rightarrow> do {
       (cm, r) \<leftarrow> cm_update_and_get env (fw_codec_munger f) p
         (tr_sn_ordering (tp_rtp tp) = SnOutOfOrder) (tr_sn_ordering (tp_rtp tp) = SnGap) tlayer;
       let f1 = f\<lparr>fw_vls := v, fw_codec_munger := cm\<rparr>;
       Some (case r of
           Inr (hs, bytes) \<Rightarrow> (f1, tp\<lparr>tp_incoming_header_size := hs, tp_codec_bytes := bytes\<rparr>, None)
         | Inl e \<Rightarrow>
             if e = ErrFilteredVP8TemporalLayer
             then (f1\<lparr>fw_rtp_munger := packet_dropped (fw_rtp_munger f1) p\<rparr>, dropped tp, None)
             else if e = ErrOutOfOrderVP8PictureIdCacheMiss then (f1, dropped tp, None)
             else (f1, dropped tp, Some (ErrOf e))) })"

definition translation_common ::
  "('mi, 'mb) vm_env \<Rightarrow> surroundings \<Rightarrow> dd_packet \<Rightarrow> int \<Rightarrow> ('mi, 'mb) forwarder_dd \<Rightarrow> translation_params \<Rightarrow>
   (('mi, 'mb) forwarder_dd \<times> translation_params \<times> bool \<times> forward_err option) option" where
  "translation_common env se p layer f tp =
    (let ssrc = rp_ssrc (ep_packet p); switching = (fw_last_ssrc f \<noteq> ssrc) in do {
       (f1, starting, err) \<leftarrow> (if switching then process_source_switch env se p layer f else Some (f, False, None));
       if err \<noteq> None then Some (f1\<lparr>fw_vls := vls_rollback (fw_vls f1)\<rparr>, dropped tp, starting, None)
       else
         let f2 = (if switching
               then f1\<lparr>fw_last_ssrc := ssrc, fw_last_reference_payload_type := sint (rp_payload_type (ep_packet p)),
                       fw_last_switch_ext_incoming_ts := ep_ext_timestamp p\<rparr>
               else f1)
         in case update_and_get_sn_ts (fw_rtp_munger f2) p (tp_marker tp) of (m, rtp, e) \<Rightarrow>
              let f3 = f2\<lparr>fw_rtp_munger := m\<rparr> in
              (case e of
                 Some e' \<Rightarrow> Some (f3, dropped tp, starting,
                   if e' \<in> {ErrPaddingOnlyPacket, ErrDuplicatePacket, ErrOutOfOrderSequenceNumberCacheMiss} then None else Some (ErrOf e'))
               | None \<Rightarrow>
                   if ep_has_payload p
                   then map_option (\<lambda>(f4, tp', e'). (f4, tp', starting, e')) (translate_codec_header env p f3 (tp\<lparr>tp_rtp := rtp\<rparr>))
                   else Some (f3, tp\<lparr>tp_rtp := rtp\<rparr>, starting, None)) })"

definition translation_audio ::
  "('mi, 'mb) vm_env \<Rightarrow> surroundings \<Rightarrow> dd_packet \<Rightarrow> int \<Rightarrow> ('mi, 'mb) forwarder_dd \<Rightarrow>
   (('mi, 'mb) forwarder_dd \<times> translation_params \<times> forward_err option) option" where
  "translation_audio env se p layer f = do {
     (f1, tp, starting, e) \<leftarrow> translation_common env se p layer f translation_zero;
     Some (f1, (if e \<noteq> None then dropped tp else tp)\<lparr>tp_is_starting := starting\<rparr>, e) }"

text \<open>A packet without dependency descriptor arrives: the stream has none any more.\<close>

definition dd_turned_off :: "('mi, 'mb, 'd) forwarder \<Rightarrow> ('mi, 'mb, 'd) forwarder" where
  "dd_turned_off f = f\<lparr>fw_is_dd_available := False,
     fw_vls := (case fw_mime f of MimeVP9 \<Rightarrow> new_vp9_from_other (fw_vls f) | MimeAV1 \<Rightarrow> new_simulcast_from_other (fw_vls f) | _ \<Rightarrow> fw_vls f)\<rparr>"

text \<open>A packet that is not selected still counts for the RTP munger, if it is of a layer that is forwarded.\<close>

definition not_selected :: "vls_result \<Rightarrow> dd_packet \<Rightarrow> ('mi, 'mb) forwarder_dd \<Rightarrow> ('mi, 'mb) forwarder_dd" where
  "not_selected res p f =
    (let f1 = (if fw_is_dd_available f \<and> ep_dependency_descriptor p = None then dd_turned_off f else f)
     in if fw_started f1 \<and> vr_is_relevant res then
          (case update_and_get_sn_ts (fw_rtp_munger f1) p (vr_rtp_marker res) of (m, rtp, e) \<Rightarrow>
             f1\<lparr>fw_rtp_munger := (if e = None \<and> tr_sn_ordering rtp = SnContiguous then packet_dropped m p else m)\<rparr>)
        else f1)"

text \<open>A stream that is to go down a layer for lack of bandwidth is held back until it can.\<close>

definition pausing_downgrade :: "('mi, 'mb, 'd) forwarder \<Rightarrow> bool" where
  "pausing_downgrade f \<longleftrightarrow> va_is_deficient (fw_last_allocation f) \<and>
     vl_spatial (bs_target (fw_base f)) < vl_spatial (bs_current (fw_base f))"

definition translation_video ::
  "('mi, 'mb) vm_env \<Rightarrow> surroundings \<Rightarrow> dd_packet \<Rightarrow> int \<Rightarrow> ('mi, 'mb) forwarder_dd \<Rightarrow>
   (('mi, 'mb) forwarder_dd \<times> translation_params \<times> forward_err option) option" where
  "translation_video env se p layer f =
    (if \<not> vl_is_valid (bs_target (fw_base f)) then Some (f, dropped translation_zero, None)
     else do {
       (v, res) \<leftarrow> vls_select (fw_vls f) p layer;
       let f1 = f\<lparr>fw_vls := v\<rparr>;
       if \<not> vr_is_selected res then Some (not_selected res p f1, dropped translation_zero, None)
       else do {
         (f2, tp, starting, e) \<leftarrow> translation_common env se p layer f1
           (translation_zero\<lparr>tp_is_resuming := vr_is_resuming res, tp_is_switching := vr_is_switching res,
              tp_dd_bytes := vr_dd_extension res, tp_marker := vr_rtp_marker res\<rparr>);
         let tp1 = tp\<lparr>tp_is_starting := starting\<rparr>;
         Some (if tp_should_drop tp1 then (f2, tp1, e)
           else if pausing_downgrade f2 then (f2, dropped tp1, None) else (f2, tp1, None)) } })"

definition get_translation_params ::
  "('mi, 'mb) vm_env \<Rightarrow> surroundings \<Rightarrow> dd_packet \<Rightarrow> int \<Rightarrow> ('mi, 'mb) forwarder_dd \<Rightarrow>
   (('mi, 'mb) forwarder_dd \<times> translation_params \<times> forward_err option) option" where
  "get_translation_params env se p layer f =
    (if fw_muted f \<or> fw_pub_muted f then Some (f, dropped translation_zero, None)
     else case fw_kind f of
       KindAudio \<Rightarrow> translation_audio env se p layer f
     | KindVideo \<Rightarrow> translation_video env se p layer f
     | KindUnknown \<Rightarrow> Some (f, dropped translation_zero, Some ErrUnknownKind))"

section \<open>Padding\<close>

definition maybe_start :: "surroundings \<Rightarrow> ('mi, 'mb, 'd) forwarder \<Rightarrow> ('mi, 'mb, 'd) forwarder" where
  "maybe_start se f =
    (if fw_started f then f
     else
       let sn = (word_of_int (se_random_sn se) :: u16) + 0x8000;
           ts = (word_of_int (se_random_ts se) :: u32) + 0x80000000;
           p = ext_packet_zero\<lparr>ep_packet := rtp_packet_zero\<lparr>rp_sequence_number := sn, rp_timestamp := ts\<rparr>,
                 ep_ext_sequence_number := ucast sn, ep_ext_timestamp := ucast ts\<rparr> :: unit ext_packet
       in f\<lparr>fw_started := True, fw_pre_start_time := Some (se_now se), fw_rtp_munger := set_last_sn_ts (fw_rtp_munger f) p,
            fw_ext_first_ts := ucast ts\<rparr>)"

definition get_sn_ts_for_padding ::
  "surroundings \<Rightarrow> int \<Rightarrow> u32 \<Rightarrow> bool \<Rightarrow> ('mi, 'mb, 'd) forwarder \<Rightarrow> (('mi, 'mb, 'd) forwarder \<times> (sfu_err + sn_ts list)) option" where
  "get_sn_ts_for_padding se num frame_rate force_marker f =
    (let f1 = maybe_start se f
     in map_option (\<lambda>(m, r). (f1\<lparr>fw_rtp_munger := m\<rparr>, r))
          (update_and_get_padding_sn_ts (fw_rtp_munger f1) num (fw_clock_rate f1) frame_rate
             (force_marker \<or> \<not> vl_is_valid (bs_target (fw_base f1))) (rg_ext_last_ts (fw_rtp_munger f1))))"

definition get_sn_ts_for_blank_frames ::
  "surroundings \<Rightarrow> u32 \<Rightarrow> int \<Rightarrow> ('mi, 'mb, 'd) forwarder \<Rightarrow> (('mi, 'mb, 'd) forwarder \<times> bool \<times> (sfu_err + sn_ts list)) option" where
  "get_sn_ts_for_blank_frames se frame_rate num f =
    (let f1 = maybe_start se f;
         frame_end_needed = (\<not> rg_last_marker (fw_rtp_munger f1));
         last_ts = rg_ext_last_ts (fw_rtp_munger f1);
         expected = (case se_expected se of ExpectedTs t \<Rightarrow> t | _ \<Rightarrow> last_ts)
     in map_option (\<lambda>(m, r). (f1\<lparr>fw_rtp_munger := m\<rparr>, frame_end_needed, r))
          (update_and_get_padding_sn_ts (fw_rtp_munger f1) (if frame_end_needed then num + 1 else num) (fw_clock_rate f1) frame_rate
             frame_end_needed (if i64_of (expected - last_ts) \<le> 0 then last_ts + 1 else expected)))"

definition get_padding :: "bool \<Rightarrow> ('mi, 'mb, 'd) forwarder \<Rightarrow> (('mi, 'mb, 'd) forwarder \<times> (vp8_err + u8 list)) option" where
  "get_padding frame_end_needed f =
     map_option (\<lambda>(cm, r). (f\<lparr>fw_codec_munger := cm\<rparr>, r)) (cm_update_and_get_padding (fw_codec_munger f) (\<not> frame_end_needed))"

end
