(* ===== verification/Forwarding.thy ===== *)
theory Forwarding
  imports Forwarder_Translation
begin

text \<open>
  What the translation of packets guarantees: the outgoing stream goes on over changes of the source,
  the layers share a clock, dropped packets leave no hole, and every run of the forwarder returns.
\<close>

section \<open>Switching the source goes on where the last one ended\<close>

text \<open>What the parts leave alone.\<close>

lemma switch_reference_effect:
  "switch_reference se ref_ts f = (f', a, b) \<Longrightarrow> \<exists>d. f' = f\<lparr>fw_dummy_start_ts_offset := d\<rparr>"
  by (auto simp: switch_reference_def Let_def split: expected_ts.splits option.splits if_splits intro: exI [of _ "fw_dummy_start_ts_offset f"])

lemma i64_of_one [simp]: "i64_of 1 = 1"
  by (simp add: i64_of_def)

lemma switch_timestamp_later: "switch_timestamp a b f = Inr ts \<Longrightarrow> 0 < i64_of (ts - rg_ext_last_ts (fw_rtp_munger f))"
  by (auto simp: switch_timestamp_def Let_def split: if_splits)

lemma switch_munger_next:
  assumes "update_and_get_sn_ts (update_sn_ts_offsets r p 1 adj) p marker = (r', tp, None)"
  shows "tr_sn_ordering tp = SnContiguous" "tr_ext_sequence_number tp = rg_ext_last_sn r + 1" "tr_ext_timestamp tp = rg_ext_last_ts r + adj"
  using assms
  by (auto simp: update_and_get_sn_ts_def update_sn_ts_offsets_def update_sn_offset_def get_value_or_zero_def get_value_def
      clear_and_reset_value_def init_ranges_def Let_def split: if_splits)

lemma start_munger_next:
  assumes "update_and_get_sn_ts (set_last_sn_ts r p) p marker = (r', tp, None)"
  shows "tr_sn_ordering tp = SnContiguous" "tr_ext_sequence_number tp = ep_ext_sequence_number p" "tr_ext_timestamp tp = ep_ext_timestamp p"
  using assms
  by (auto simp: update_and_get_sn_ts_def set_last_sn_ts_def update_sn_offset_def get_value_or_zero_def get_value_def
      clear_and_reset_value_def init_ranges_def Let_def split: if_splits)

lemma switch_starts:
  assumes "process_source_switch env se p layer f = Some (f', starting, None)" "\<not> fw_started f"
  shows "fw_rtp_munger f' = set_last_sn_ts (fw_rtp_munger f) p \<and> starting"
  using assms by (auto simp: process_source_switch_def split: if_splits)

lemma switch_goes_on:
  assumes "process_source_switch env se p layer f = Some (f', starting, None)" "fw_started f"
  shows "\<exists>adj. fw_rtp_munger f' = update_sn_ts_offsets (fw_rtp_munger f) p 1 adj \<and> 0 < i64_of adj"
proof -
  let ?f1 = "if fw_reference_layer_spatial f = invalid_layer_spatial
    then f\<lparr>fw_reference_layer_spatial := layer, fw_codec_munger := cm_set_last (fw_codec_munger f) p\<rparr> else f"
  have m: "fw_rtp_munger ?f1 = fw_rtp_munger f" by simp
  obtain ref_ts f2 a b ts where sw: "switch_reference se ref_ts ?f1 = (f2, a, b)" "switch_timestamp a b f2 = Inr ts"
    "fw_rtp_munger f' = update_sn_ts_offsets (fw_rtp_munger f2) p 1 (ts - rg_ext_last_ts (fw_rtp_munger f))"
    using assms unfolding process_source_switch_def Let_def
    by (auto simp: bind_eq_Some_conv split: if_splits sum.splits prod.splits)
  obtain d where "f2 = ?f1\<lparr>fw_dummy_start_ts_offset := d\<rparr>" using switch_reference_effect [OF sw(1)] by blast
  then have "fw_rtp_munger f2 = fw_rtp_munger f" using m by simp
  with sw(3) switch_timestamp_later [OF sw(2)] show ?thesis by auto
qed

text \<open>The outcomes of the codec munger.\<close>

lemma codec_header_cases:
  assumes "translate_codec_header env p f tp = Some (f', tp', e)"
  obtains (sent) hs bytes v cm where "f' = f\<lparr>fw_vls := v, fw_codec_munger := cm\<rparr>" "e = None"
      "tp' = tp\<lparr>tp_incoming_header_size := hs, tp_codec_bytes := bytes\<rparr>"
      "cm_update_and_get env (fw_codec_munger f) p (tr_sn_ordering (tp_rtp tp) = SnOutOfOrder) (tr_sn_ordering (tp_rtp tp) = SnGap)
         (snd (vls_select_temporal (fw_vls f) p)) = Some (cm, Inr (hs, bytes))"
  | (filtered) v cm where "f' = f\<lparr>fw_vls := v, fw_codec_munger := cm, fw_rtp_munger := packet_dropped (fw_rtp_munger f) p\<rparr>"
      "e = None" "tp' = dropped tp"
      "cm_update_and_get env (fw_codec_munger f) p (tr_sn_ordering (tp_rtp tp) = SnOutOfOrder) (tr_sn_ordering (tp_rtp tp) = SnGap)
         (snd (vls_select_temporal (fw_vls f) p)) = Some (cm, Inl ErrFilteredVP8TemporalLayer)"
  | (refused) v cm err where "f' = f\<lparr>fw_vls := v, fw_codec_munger := cm\<rparr>" "tp' = dropped tp" "err \<noteq> ErrFilteredVP8TemporalLayer"
      "e = (if err = ErrOutOfOrderVP8PictureIdCacheMiss then None else Some (ErrOf err))"
      "cm_update_and_get env (fw_codec_munger f) p (tr_sn_ordering (tp_rtp tp) = SnOutOfOrder) (tr_sn_ordering (tp_rtp tp) = SnGap)
         (snd (vls_select_temporal (fw_vls f) p)) = Some (cm, Inl err)"
proof -
  obtain v tlayer where t: "vls_select_temporal (fw_vls f) p = (v, tlayer)" by fastforce
  obtain cm r where c: "cm_update_and_get env (fw_codec_munger f) p (tr_sn_ordering (tp_rtp tp) = SnOutOfOrder)
      (tr_sn_ordering (tp_rtp tp) = SnGap) tlayer = Some (cm, r)"
    using assms by (auto simp: translate_codec_header_def t bind_eq_Some_conv)
  have run: "(case r of
      Inr (hs, bytes) \<Rightarrow> (f\<lparr>fw_vls := v, fw_codec_munger := cm\<rparr>, tp\<lparr>tp_incoming_header_size := hs, tp_codec_bytes := bytes\<rparr>, None)
    | Inl e \<Rightarrow> if e = ErrFilteredVP8TemporalLayer
        then (f\<lparr>fw_vls := v, fw_codec_munger := cm, fw_rtp_munger := packet_dropped (fw_rtp_munger f) p\<rparr>, dropped tp, None)
        else if e = ErrOutOfOrderVP8PictureIdCacheMiss then (f\<lparr>fw_vls := v, fw_codec_munger := cm\<rparr>, dropped tp, None)
        else (f\<lparr>fw_vls := v, fw_codec_munger := cm\<rparr>, dropped tp, Some (ErrOf e))) = (f', tp', e)"
    using assms by (cases r) (simp_all add: translate_codec_header_def t c Let_def split: if_splits prod.splits)
  show ?thesis
  proof (cases r)
    case (Inl err)
    show ?thesis
    proof (cases "err = ErrFilteredVP8TemporalLayer")
      case True
      then show ?thesis using filtered [where v = v and cm = cm] run c by (simp add: Inl t)
    next
      case False
      then show ?thesis using refused [where v = v and cm = cm and err = err] run c by (auto simp: Inl t split: if_splits)
    qed
  next
    case (Inr x)
    then show ?thesis using sent [where v = v and cm = cm and hs = "fst x" and bytes = "snd x"] run c by (cases x) (simp add: t)
  qed
qed

lemma codec_header_sends:
  assumes "translate_codec_header env p f tp = Some (f', tp', e)" "\<not> tp_should_drop tp'"
  shows "tp_rtp tp' = tp_rtp tp" "fw_rtp_munger f' = fw_rtp_munger f" "fw_last_ssrc f' = fw_last_ssrc f" "e = None"
  using assms(2) by (cases rule: codec_header_cases [OF assms(1)]; simp)+

text \<open>The packet gets the numbers of the munger, after a switch if there is one.\<close>

lemma common_sends:
  assumes "translation_common env se p layer f tp = Some (f', tp', starting, e)" "\<not> tp_should_drop tp'"
  obtains f1 m where
    "if fw_last_ssrc f = rp_ssrc (ep_packet p) then f1 = f \<and> \<not> starting else process_source_switch env se p layer f = Some (f1, starting, None)"
    "update_and_get_sn_ts (fw_rtp_munger f1) p (tp_marker tp) = (m, tp_rtp tp', None)" "fw_rtp_munger f' = m"
    "fw_last_ssrc f' = rp_ssrc (ep_packet p)" "e = None"
proof -
  let ?sw = "fw_last_ssrc f \<noteq> rp_ssrc (ep_packet p)"
  let ?first = "if ?sw then process_source_switch env se p layer f else Some (f, False, None)"
  obtain f1 st err where f1: "?first = Some (f1, st, err)"
    using assms(1) unfolding translation_common_def Let_def bind_eq_Some_conv by (metis prod_cases3)
  have err: "err = None"
    using assms unfolding translation_common_def Let_def f1 bind.simps prod.case by (cases err) auto
  define f2 where "f2 = (if ?sw then f1\<lparr>fw_last_ssrc := rp_ssrc (ep_packet p), fw_last_reference_payload_type := sint (rp_payload_type (ep_packet p)),
    fw_last_switch_ext_incoming_ts := ep_ext_timestamp p\<rparr> else f1)"
  have f2': "fw_rtp_munger f2 = fw_rtp_munger f1" "fw_last_ssrc f2 = rp_ssrc (ep_packet p)" using f1 by (auto simp: f2_def)
  obtain m rtp e' where u: "update_and_get_sn_ts (fw_rtp_munger f2) p (tp_marker tp) = (m, rtp, e')" by (metis prod_cases3)
  have run: "(case e' of
      Some e1 \<Rightarrow> Some (f2\<lparr>fw_rtp_munger := m\<rparr>, dropped tp, st,
        if e1 \<in> {ErrPaddingOnlyPacket, ErrDuplicatePacket, ErrOutOfOrderSequenceNumberCacheMiss} then None else Some (ErrOf e1))
    | None \<Rightarrow> if ep_has_payload p
        then map_option (\<lambda>(f4, tp', e'). (f4, tp', st, e')) (translate_codec_header env p (f2\<lparr>fw_rtp_munger := m\<rparr>) (tp\<lparr>tp_rtp := rtp\<rparr>))
        else Some (f2\<lparr>fw_rtp_munger := m\<rparr>, tp\<lparr>tp_rtp := rtp\<rparr>, st, None)) = Some (f', tp', starting, e)"
    using assms(1) unfolding translation_common_def Let_def f1 bind.simps prod.case err f2_def [symmetric] u by simp
  have e': "e' = None" using run assms(2) by (cases e') auto
  have "tp_rtp tp' = rtp \<and> fw_rtp_munger f' = m \<and> fw_last_ssrc f' = rp_ssrc (ep_packet p) \<and> e = None \<and> st = starting"
  proof (cases "ep_has_payload p")
    case True
    then have "translate_codec_header env p (f2\<lparr>fw_rtp_munger := m\<rparr>) (tp\<lparr>tp_rtp := rtp\<rparr>) = Some (f', tp', e)" "st = starting"
      using run e' by auto
    from codec_header_sends [OF this(1) assms(2)] f2' this(2) show ?thesis by simp
  next
    case False
    then show ?thesis using run e' f2' by auto
  qed
  then show ?thesis using that [of f1 m] f1 u f2' err e' by (auto split: if_splits)
qed

lemma params_send:
  assumes "get_translation_params env se p layer f = Some (f', tp, e)" "\<not> tp_should_drop tp"
  obtains v tp0 tp1 starting where "translation_common env se p layer (f\<lparr>fw_vls := v\<rparr>) tp0 = Some (f', tp1, starting, e)"
    "\<not> tp_should_drop tp1" "tp = tp1\<lparr>tp_is_starting := starting\<rparr>"
proof (cases "fw_kind f")
  case KindAudio
  then have "translation_audio env se p layer f = Some (f', tp, e)"
    using assms by (auto simp: get_translation_params_def split: if_splits)
  then obtain f1 tp1 starting e1 where "translation_common env se p layer f translation_zero = Some (f1, tp1, starting, e1)"
    "f' = f1" "tp = (if e1 \<noteq> None then dropped tp1 else tp1)\<lparr>tp_is_starting := starting\<rparr>" "e = e1"
    by (auto simp: translation_audio_def bind_eq_Some_conv)
  with that [of "fw_vls f" translation_zero tp1 starting] assms(2) show ?thesis by (auto split: if_splits)
next
  case KindVideo
  then have "translation_video env se p layer f = Some (f', tp, e)"
    using assms by (auto simp: get_translation_params_def split: if_splits)
  then obtain v tp0 f1 tp1 starting e1 where "translation_common env se p layer (f\<lparr>fw_vls := v\<rparr>) tp0 = Some (f1, tp1, starting, e1)"
    "(f', tp, e) = (if tp_should_drop tp1 then (f1, tp1\<lparr>tp_is_starting := starting\<rparr>, e1)
       else if pausing_downgrade f1 then (f1, dropped (tp1\<lparr>tp_is_starting := starting\<rparr>), None)
       else (f1, tp1\<lparr>tp_is_starting := starting\<rparr>, None))"
    using assms(2) by (auto simp: translation_video_def bind_eq_Some_conv Let_def split: if_splits)
  moreover from this have "\<not> tp_should_drop tp1" "f' = f1" "e = None" "tp = tp1\<lparr>tp_is_starting := starting\<rparr>"
    using assms(2) by (auto split: if_splits)
  moreover have "e1 = None" using common_sends [OF calculation(1,3)] by blast
  ultimately show ?thesis using that by blast
qed (use assms in \<open>auto simp: get_translation_params_def split: if_splits\<close>)

text \<open>
  C3. The outgoing stream goes on over every change of the source.  The first packet of a new source
  that is sent gets the number after the last one sent and a timestamp that is later than the last
  one, whatever the clocks, the sender reports and the numbers of the source are; only when nothing
  has been sent yet does it keep its own number and timestamp.
\<close>

theorem source_switch_continues:
  assumes "get_translation_params env se p layer f = Some (f', tp, e)" "\<not> tp_should_drop tp"
    and "fw_last_ssrc f \<noteq> rp_ssrc (ep_packet p)"
  shows "e = None \<and> fw_last_ssrc f' = rp_ssrc (ep_packet p) \<and> tr_sn_ordering (tp_rtp tp) = SnContiguous \<and>
    (if fw_started f
     then tr_ext_sequence_number (tp_rtp tp) = rg_ext_last_sn (fw_rtp_munger f) + 1 \<and>
       0 < i64_of (tr_ext_timestamp (tp_rtp tp) - rg_ext_last_ts (fw_rtp_munger f))
     else tp_is_starting tp \<and> tr_ext_sequence_number (tp_rtp tp) = ep_ext_sequence_number p \<and>
       tr_ext_timestamp (tp_rtp tp) = ep_ext_timestamp p)"
proof -
  obtain v tp0 tp1 starting where c: "translation_common env se p layer (f\<lparr>fw_vls := v\<rparr>) tp0 = Some (f', tp1, starting, e)"
    "\<not> tp_should_drop tp1" "tp = tp1\<lparr>tp_is_starting := starting\<rparr>"
    using params_send [OF assms(1,2)] .
  let ?f = "f\<lparr>fw_vls := v\<rparr>"
  obtain f1 m where s0: "if fw_last_ssrc ?f = rp_ssrc (ep_packet p) then f1 = ?f \<and> \<not> starting
      else process_source_switch env se p layer ?f = Some (f1, starting, None)"
    and s: "update_and_get_sn_ts (fw_rtp_munger f1) p (tp_marker tp0) = (m, tp_rtp tp1, None)" "fw_last_ssrc f' = rp_ssrc (ep_packet p)" "e = None"
    by (rule common_sends [OF c(1,2)])
  have sw: "process_source_switch env se p layer ?f = Some (f1, starting, None)" using s0 assms(3) by simp
  show ?thesis
  proof (cases "fw_started f")
    case True
    then obtain adj where "fw_rtp_munger f1 = update_sn_ts_offsets (fw_rtp_munger f) p 1 adj" "0 < i64_of adj"
      using switch_goes_on [OF sw] by auto
    with switch_munger_next [of "fw_rtp_munger f" p adj "tp_marker tp0" m] s True c(3) show ?thesis by simp
  next
    case False
    then have "fw_rtp_munger f1 = set_last_sn_ts (fw_rtp_munger f) p \<and> starting" using switch_starts [OF sw] by simp
    with start_munger_next [of "fw_rtp_munger f" p "tp_marker tp0" m] s False c(3) show ?thesis by simp
  qed
qed

section \<open>The reference timestamp\<close>

lemma high_half: "(x :: u64) AND 0xffffffff00000000 = x - ucast (ucast x :: u32)"
proof -
  have c: "(0xffffffff00000000 :: u64) = push_bit 32 (mask 32)" by (simp add: mask_eq_exp_minus_1 push_bit_eq_mult)
  have "x AND 0xffffffff00000000 = push_bit 32 (drop_bit 32 x)"
    unfolding c by (rule bit_eqI) (auto simp: bit_simps)
  moreover have "ucast (ucast x :: u32) = take_bit 32 x" by (rule bit_eqI) (auto simp: bit_simps)
  ultimately show ?thesis using bits_ident [of 32 x] by (simp add: algebra_simps)
qed

lemma small_int64: "- (2 ^ 63) \<le> D \<Longrightarrow> D < 2 ^ 63 \<Longrightarrow> i64_of (word_of_int D) = D"
  by (simp add: i64_of_def sint_sbintrunc' signed_take_bit_int_eq_self)

lemma uint_word_of_int64: "0 \<le> D \<Longrightarrow> D < 2 ^ 64 \<Longrightarrow> uint (word_of_int D :: u64) = D"
  by (simp add: unsigned_of_int take_bit_int_eq_self)

lemma ucast_low: "(ucast (x + y) :: u32) = ucast x + ucast y" "(ucast (x - y) :: u32) = ucast x - ucast y" for x y :: u64
  by (simp_all add: word_uint_eq_iff unsigned_ucast_eq uint_word_ariths take_bit_eq_mod mod_mod_cancel mod_simps)

lemma ucast_down_up: "(ucast (ucast x :: u64) :: u32) = x" for x :: u32
  by (rule bit_eqI) (auto simp: bit_simps)

lemma sint_diff32: "sint (r - l :: u32) = (if uint r - uint l < - (2 ^ 31) then uint r - uint l + 2 ^ 32
    else if uint r - uint l \<ge> 2 ^ 31 then uint r - uint l - 2 ^ 32 else uint r - uint l)"
proof -
  have b: "0 \<le> uint r" "uint r < 2 ^ 32" "0 \<le> uint l" "uint l < 2 ^ 32" using uint_lt2p [of r] uint_lt2p [of l] by auto
  have sw: "sint (word_of_int X :: u32) = signed_take_bit 31 X" for X by (simp add: sint_sbintrunc')
  have "r - l = word_of_int (uint r - uint l + k * 2 ^ 32)" for k
    by (simp add: word_uint_eq_iff uint_word_ariths unsigned_of_int take_bit_eq_mod)
  then have "sint (r - l) = signed_take_bit 31 (uint r - uint l + k * 2 ^ 32)" for k
    using sw [of "uint r - uint l + k * 2 ^ 32"] by metis
  note eq = this [of 0] this [of 1] this [of "- 1"]
  have id: "signed_take_bit 31 X = X" if "- (2 ^ 31) \<le> X" "X < 2 ^ 31" for X :: int
    using that by (simp add: signed_take_bit_int_eq_self)
  have r: "uint r - uint l < 2 ^ 32" "- (2 ^ 32) < uint r - uint l" using b by linarith+
  show ?thesis
    using eq r id [of "uint r - uint l"] id [of "uint r - uint l + 2 ^ 32"] id [of "uint r - uint l - 2 ^ 32"] by (auto simp del: uint_minus_simple_iff)
qed

lemma near_last_diff:
  fixes lst :: u64 and r :: u32
  assumes "0x100000000 \<le> lst" "lst < 0x8000000000000000" and d: "sint (r - ucast lst) = d" "d \<noteq> - (2 ^ 31)"
  shows "i64_of (near_last ((lst AND 0xffffffff00000000) + ucast r) lst - lst) = d"
proof -
  let ?l = "ucast lst :: u32"
  let ?e = "lst - ucast ?l + ucast r :: u64"
  define D where "D = uint r - uint ?l"
  have b: "0 \<le> uint r" "uint r < 2 ^ 32" "0 \<le> uint ?l" "uint ?l < 2 ^ 32" using uint_lt2p [of r] uint_lt2p [of ?l] by auto
  have low: "(ucast ?e :: u32) = r" by (simp add: ucast_low ucast_down_up)
  have "?e - lst = ucast r - ucast ?l" by simp
  then have e: "?e - lst = word_of_int D" by (simp only: D_def ucast_eq wi_hom_sub)
  have l: "uint ?l = uint lst mod 2 ^ 32" by (simp add: unsigned_ucast_eq take_bit_eq_mod)
  have L: "2 ^ 32 \<le> uint lst" "uint lst < 2 ^ 63" using assms(1,2) by (simp_all add: word_le_def word_less_def)
  then have "1 \<le> uint lst div 2 ^ 32" by simp
  then have high: "2 ^ 32 \<le> uint lst - uint ?l" unfolding l minus_mod_eq_mult_div using mult_left_mono [of 1 "uint lst div 2 ^ 32" "2 ^ 32"] by simp
  have "?e = word_of_int (uint lst + D)" using e by (simp add: algebra_simps)
  have two: "(2 :: int) ^ 63 + 2 ^ 32 < 2 ^ 64" by simp
  from \<open>?e = _\<close> have "uint ?e = uint (word_of_int (uint lst + D) :: u64)" by (rule arg_cong)
  also have "\<dots> = uint lst + D" unfolding D_def
    by (rule uint_word_of_int64; use b L high two in linarith)
  finally have ue: "uint ?e = uint lst + D" .
  have tests: "r - ?l < 0x80000000 \<longleftrightarrow> D mod 2 ^ 32 < 2 ^ 31" "?l - r < 0x80000000 \<longleftrightarrow> (- D) mod 2 ^ 32 < 2 ^ 31"
    "r < ?l \<longleftrightarrow> D < 0" "?l < r \<longleftrightarrow> 0 < D"
    using b by (auto simp: word_less_def word_le_def uint_word_ariths D_def)
  have "uint (0x100000000 :: u64) = 2 ^ 32" by simp
  then have ge: "0x100000000 \<le> ?e" unfolding word_le_def ue D_def using high b by linarith
  have mods: "D mod 2 ^ 32 = (if D < 0 then D + 2 ^ 32 else D)" "(- D) mod 2 ^ 32 = (if D \<le> 0 then - D else 2 ^ 32 - D)"
  proof -
    have B: "- (2 ^ 32) < D" "D < 2 ^ 32" unfolding D_def using b by linarith+
    have neg: "x mod 2 ^ 32 = x + 2 ^ 32" if "x < 0" "- (2 ^ 32) < x" for x :: int
      using mod_pos_pos_trivial [of "x + 2 ^ 32" "2 ^ 32"] that by simp
    show "D mod 2 ^ 32 = (if D < 0 then D + 2 ^ 32 else D)" "(- D) mod 2 ^ 32 = (if D \<le> 0 then - D else 2 ^ 32 - D)"
      using B neg [of D] neg [of "- D"] by (auto simp: mod_pos_pos_trivial)
  qed
  have dD: "d = (if D < - (2 ^ 31) then D + 2 ^ 32 else if D \<ge> 2 ^ 31 then D - 2 ^ 32 else D)"
    unfolding D_def by (rule sint_diff32 [of r ?l, unfolded d(1)])
  have "near_last ((lst AND 0xffffffff00000000) + ucast r) lst = near_last ?e lst" by (simp only: high_half)
  also have "\<dots> = ?e + word_of_int (d - D)"
    using d(2) b tests ge mods dD by (auto simp: near_last_def low Let_def D_def [symmetric])
  finally have n: "near_last ((lst AND 0xffffffff00000000) + ucast r) lst = ?e + word_of_int (d - D)" .
  have "near_last ((lst AND 0xffffffff00000000) + ucast r) lst - lst = (?e - lst) + word_of_int (d - D)" unfolding n by simp
  also have "\<dots> = word_of_int D + word_of_int (d - D)" unfolding e ..
  also have "\<dots> = word_of_int d" by (simp only: wi_hom_add) simp
  finally have w: "near_last ((lst AND 0xffffffff00000000) + ucast r) lst - lst = word_of_int d" .
  have "- (2 ^ 31) \<le> d" "d < 2 ^ 31" using sint_ge [of "r - ?l"] sint_lt [of "r - ?l"] d(1) by simp_all
  then show ?thesis unfolding w by (intro small_int64) simp_all
qed


text \<open>The clock of a layer: its timestamp at the time \<open>tau\<close>, in nanoseconds, from its value at time zero.\<close>

definition clock_at :: "u32 \<Rightarrow> int \<Rightarrow> int \<Rightarrow> u32" where
  "clock_at clock_rate origin tau = word_of_int (origin + uint clock_rate * tau div 1000000000)"

lemma sdiv_pos: "0 < n \<Longrightarrow> a sdiv n = (if a < 0 then - ((- a) div n) else a div n)" for a n :: int
  by (auto simp: signed_divide_int_def sgn_if abs_if)

lemma div_diff:
  fixes a b n :: int
  assumes "0 < n"
  shows "a div n - b div n - (a - b) sdiv n \<in> {- 1, 0, 1}" "n dvd a - b \<Longrightarrow> a div n - b div n = (a - b) sdiv n"
proof -
  have r: "0 \<le> a mod n" "a mod n < n" "0 \<le> b mod n" "b mod n < n" using assms by auto
  have eq: "a - b = (a div n - b div n) * n + (a mod n - b mod n)" by (simp add: algebra_simps)
  define q where "q = (a - b) div n"
  have q: "a - b = q * n + (a - b) mod n" "0 \<le> (a - b) mod n" "(a - b) mod n < n" using assms by (simp_all add: q_def)
  have "(a div n - b div n - q) * n = (a - b) mod n - (a mod n - b mod n)" using eq q(1) by (simp add: algebra_simps)
  then have "- 1 * n < (a div n - b div n - q) * n" "(a div n - b div n - q) * n < 2 * n" using r q by linarith+
  then have d: "0 \<le> a div n - b div n - q" "a div n - b div n - q \<le> 1"
    using assms by (simp_all only: mult_less_cancel_right_pos)
  have s: "(a - b) sdiv n = (if a - b < 0 \<and> \<not> n dvd a - b then q + 1 else q)"
    using zdiv_zminus1_eq_if [of n "a - b"] assms by (auto simp: sdiv_pos q_def dvd_eq_mod_eq_0)
  show "a div n - b div n - (a - b) sdiv n \<in> {- 1, 0, 1}" using d unfolding s by auto
  show "n dvd a - b \<Longrightarrow> a div n - b div n = (a - b) sdiv n"
  proof -
    assume dvd: "n dvd a - b"
    then have "(a - b) mod n = 0" by simp
    then have "(a div n - b div n - q) * n < 1 * n"
      using \<open>(a div n - b div n - q) * n = _\<close> r by linarith
    then have "a div n - b div n - q < 1" using assms by (simp only: mult_less_cancel_right_pos)
    then show ?thesis using d(1) dvd unfolding s by simp
  qed
qed

text \<open>
  C18. The layers share one time.  Let the sender reports of the reference layer and of another layer
  be taken from clocks of the same rate, however far their timestamps are apart.  Then the timestamp
  of a packet of the other layer is translated into what the clock of the reference layer shows at the
  time of that packet, up to one tick, and exactly if the reports lie a whole number of ticks apart.
\<close>

theorem layers_share_clock:
  assumes layers: "0 \<le> ref" "ref < int (length (fw_ref_infos f))" "0 \<le> target" "target < int (length (fw_ref_infos f))"
    "ref \<noteq> target" "fw_ref_video_layer_mode f \<noteq> MultipleSpatialLayersPerStream"
    and reports: "usable_report (fw_ref_infos f ! nat ref) = Some sr" "usable_report (fw_ref_infos f ! nat target) = Some st"
    "sr_rtp_timestamp sr = clock_at (fw_clock_rate f) r0 (ntp_nanos (sr_ntp_timestamp sr))"
    "sr_rtp_timestamp st = clock_at (fw_clock_rate f) t0 (ntp_nanos (sr_ntp_timestamp st))"
    and apart: "\<bar>(ntp_nanos (sr_ntp_timestamp sr) - ntp_nanos (sr_ntp_timestamp st)) * uint (fw_clock_rate f)\<bar> < 2 ^ 63"
  shows "\<exists>e \<in> {- 1, 0, 1}. get_ref_layer_rtp_timestamp (clock_at (fw_clock_rate f) t0 tau) ref target f =
      Some (Inr (clock_at (fw_clock_rate f) (r0 + e) tau)) \<and>
    (1000000000 dvd (ntp_nanos (sr_ntp_timestamp sr) - ntp_nanos (sr_ntp_timestamp st)) * uint (fw_clock_rate f) \<longrightarrow> e = 0)"
proof -
  let ?c = "uint (fw_clock_rate f)" and ?x = "ntp_nanos (sr_ntp_timestamp sr)" and ?y = "ntp_nanos (sr_ntp_timestamp st)"
  have ab: "(?x - ?y) * ?c = ?c * ?x - ?c * ?y" by (simp add: algebra_simps)
  have i: "i64 ((?x - ?y) * ?c) = (?x - ?y) * ?c" using apart by (intro i64_id) auto
  define e where "e = ?c * ?x div 1000000000 - ?c * ?y div 1000000000 - ((?x - ?y) * ?c) sdiv 1000000000"
  have e: "e \<in> {- 1, 0, 1}" "1000000000 dvd (?x - ?y) * ?c \<Longrightarrow> e = 0"
    using div_diff [of 1000000000 "?c * ?x" "?c * ?y"] unfolding e_def ab by simp_all
  have "clock_at (fw_clock_rate f) t0 tau + report_offset (fw_clock_rate f) sr st = clock_at (fw_clock_rate f) (r0 + e) tau"
    unfolding report_offset_def Let_def reports(3,4) clock_ticks_def i clock_at_def wi_hom_add wi_hom_sub
    by (rule arg_cong [where f = word_of_int]) (simp add: e_def)
  then have "get_ref_layer_rtp_timestamp (clock_at (fw_clock_rate f) t0 tau) ref target f =
      Some (Inr (clock_at (fw_clock_rate f) (r0 + e) tau))"
    using layers reports(1,2) by (simp add: get_ref_layer_rtp_timestamp_def Let_def)
  then show ?thesis using e by blast
qed

section \<open>When a layer is switched\<close>

lemma switch_reference_plain:
  assumes "fw_last_reference_payload_type f \<noteq> - 1" "fw_pre_start_time f = None" "fw_dummy_start_ts_offset f = 0"
  obtains t where "switch_reference se r f =
    (f, near_last ((rg_ext_last_ts (fw_rtp_munger f) AND 0xffffffff00000000) + ucast r) (rg_ext_last_ts (fw_rtp_munger f)), t)"
  using assms by (cases "se_expected se") (auto simp: switch_reference_def Let_def)

text \<open>
  C17. A switch between layers follows the clock.  Let the forwarder have started with a packet, and
  let \<open>d\<close> be how far the timestamp of the packet, translated to the reference layer, lies after the
  last one sent, in the arithmetic of 32 bits.  If that is more than 50 milliseconds before the last
  one, the switch is refused and nothing changes; otherwise the outgoing timestamps go on by exactly
  \<open>d\<close>, and by one tick if the packet is not later than the last one.
\<close>

theorem layer_switch_by_reference:
  assumes state: "fw_started f" "fw_reference_layer_spatial f \<noteq> - 1" "fw_last_ssrc f \<noteq> 0" "\<not> fw_skip_reference_ts f"
      "fw_last_reference_payload_type f \<noteq> - 1" "fw_pre_start_time f = None" "fw_dummy_start_ts_offset f = 0"
    and ref: "get_ref_layer_rtp_timestamp (rp_timestamp (ep_packet p)) (fw_reference_layer_spatial f) layer f = Some (Inr r)"
    and last_ts: "0x100000000 \<le> rg_ext_last_ts (fw_rtp_munger f)" "rg_ext_last_ts (fw_rtp_munger f) < 0x8000000000000000"
    and d: "sint (r - ucast (rg_ext_last_ts (fw_rtp_munger f))) = d" "d \<noteq> - (2 ^ 31)"
  shows "process_source_switch env se p layer f = Some
    (if d < 0 \<and> lasts_longer (- d) (fw_clock_rate f) (1 / 20) then (f, False, Some (ErrOf ErrSwitchPointTooFarBehind))
     else (f\<lparr>fw_rtp_munger := update_sn_ts_offsets (fw_rtp_munger f) p 1 (word_of_int (max 1 d)),
             fw_codec_munger := cm_update_offsets env (fw_codec_munger f) p\<rparr>, False, None))"
proof -
  let ?l = "rg_ext_last_ts (fw_rtp_munger f)"
  let ?e = "near_last ((?l AND 0xffffffff00000000) + ucast r) ?l"
  have e: "i64_of (?e - ?l) = d" by (rule near_last_diff [OF last_ts d])
  then have ew: "?e - ?l = word_of_int d" by (simp only: e [symmetric] i64_of_def scast_eq [symmetric] scast_id)
  obtain t where "switch_reference se r f = (f, ?e, t)" by (rule switch_reference_plain [OF state(5-7)])
  moreover have "switch_timestamp ?e t f = (if d < 0 \<and> lasts_longer (- d) (fw_clock_rate f) (1 / 20)
      then Inl (ErrOf ErrSwitchPointTooFarBehind) else Inr (?l + word_of_int (max 1 d)))"
    using ew e state(3) by (auto simp: switch_timestamp_def Let_def layer_switch_behind_threshold_def max_def algebra_simps)
  ultimately show ?thesis using state ref by (auto simp: process_source_switch_def Let_def)
qed

text \<open>The guard admits the number of layers itself as a layer: then the code panics.\<close>

lemma ref_layer_off_by_one:
  assumes "length (fw_ref_infos f) = 3" "0 \<le> target" "target < 3" "fw_ref_video_layer_mode f \<noteq> MultipleSpatialLayersPerStream"
  shows "get_ref_layer_rtp_timestamp ts 3 target f = None"
  using assms by (simp add: get_ref_layer_rtp_timestamp_def Let_def go_nth_def)

text \<open>
  A forwarder that has started with padding, whose timestamps are \<open>10 ^ 9\<close> below those of the
  reference layer: when the latter wrap, a packet that is 3000 ticks after the last one sent is found
  to be too far behind, for the cycle of the sum is not that of the last timestamp.
\<close>

lemma switch_refused_after_wrap:
  fixes f :: "('mi, 'mb, 'd) forwarder"
  assumes "fw_dummy_start_ts_offset f = - 1000000000" "fw_last_reference_payload_type f = 96" "fw_last_ssrc f \<noteq> 0"
    "fw_clock_rate f = 90000" "rg_ext_last_ts (fw_rtp_munger f) = 3295054296" "se_expected se = ExpectedTs t"
  shows "(90000 :: u32) + ucast (fw_dummy_start_ts_offset f) = ucast (rg_ext_last_ts (fw_rtp_munger f)) + 3000 \<and>
    (case switch_reference se 90000 f of (f', ext_ref, expected) \<Rightarrow>
      switch_timestamp ext_ref expected f' = Inl (ErrOf ErrSwitchPointTooFarBehind))"
proof -
  have e: "near_last ((3295054296 AND 0xffffffff00000000) + ucast (90000 :: u32) + - 1000000000) 3295054296 = (- 999910000 :: u64)"
    by code_simp
  have i: "i64_of (- 999910000 - 3295054296) = - 4294964296" by code_simp
  have s: "switch_reference se 90000 f = (f, - 999910000, t)" unfolding switch_reference_def Let_def assms using e by simp
  show ?thesis unfolding s prod.case switch_timestamp_def Let_def assms i using assms(3)
    by (simp add: lasts_longer_def layer_switch_behind_threshold_def)
qed

section \<open>An example\<close>

text \<open>
  A simulcast stream at layer 0 with a sender report of two layers, and a key frame of layer 1: the
  clocks of the layers started at 5000 and 700000, the reports are from 10 and 12 seconds, and the key
  frame is from 13 seconds.
\<close>

definition example_report :: "u64 \<Rightarrow> u32 \<Rightarrow> ref_info" where
  "example_report ntp rtp = ref_info_zero\<lparr>ri_sender_report :=
     Some \<lparr>sr_rtp_timestamp = rtp, sr_rtp_timestamp_ext = ucast rtp, sr_ntp_timestamp = ntp\<rparr>\<rparr>"

definition example_forwarder :: "((int \<times> int) list, (int \<times> bool) list) forwarder_dd" where
  "example_forwarder = (new_forwarder KindVideo False False)\<lparr>fw_mime := MimeH264, fw_clock_rate := 90000, fw_started := True,
     fw_last_ssrc := 7, fw_last_reference_payload_type := 102, fw_reference_layer_spatial := 0,
     fw_ref_infos := [example_report 42949672960 905000, example_report 51539607552 1780000, ref_info_zero],
     fw_rtp_munger := mg_example\<lparr>rg_ext_last_ts := 4295967296\<rparr>,
     fw_vls := VlsSimulcast (new_base\<lparr>bs_max := VideoLayer 2 3, bs_max_seen := VideoLayer 2 3, bs_target := VideoLayer 1 3,
       bs_current := VideoLayer 0 3\<rparr>)\<rparr>"

definition example_switch :: dd_packet where
  "example_switch = ext_packet_zero\<lparr>ep_layer := VideoLayer 1 0, ep_ext_sequence_number := 500, ep_ext_timestamp := 1870000,
     ep_packet := rtp_packet_zero\<lparr>rp_ssrc := 9, rp_timestamp := 1870000, rp_payload := [1], rp_payload_type := 102\<rparr>,
     ep_is_key_frame := True\<rparr>"

definition example_surroundings :: surroundings where
  "example_surroundings = \<lparr>se_now = 0, se_expected = NoStats, se_random_sn = 0, se_random_ts = 0\<rparr>"

lemma example_sent:
  "map_option (\<lambda>(f', tp, e). tp_should_drop tp) (get_translation_params env_alist example_surroundings example_switch 1 example_forwarder) = Some False"
  by code_simp

theorem source_switch_continues_witness:
  "\<exists>f' tp e. get_translation_params env_alist example_surroundings example_switch 1 example_forwarder = Some (f', tp, e) \<and>
    tr_ext_sequence_number (tp_rtp tp) = 1001 \<and> 0 < i64_of (tr_ext_timestamp (tp_rtp tp) - 4295967296)"
proof -
  obtain f' tp e where r: "get_translation_params env_alist example_surroundings example_switch 1 example_forwarder = Some (f', tp, e)"
    "\<not> tp_should_drop tp"
    using example_sent by auto
  have "fw_last_ssrc example_forwarder \<noteq> rp_ssrc (ep_packet example_switch)" by (simp add: example_forwarder_def example_switch_def)
  from source_switch_continues [OF r this] r show ?thesis
    by (simp add: example_forwarder_def mg_eval)
qed

lemma example_nanos: "ntp_nanos 42949672960 = 10000000000" "ntp_nanos 51539607552 = 12000000000"
  by code_simp+

theorem layers_share_clock_witness:
  "get_ref_layer_rtp_timestamp 1870000 0 1 example_forwarder = Some (Inr 1175000)"
proof -
  let ?sr = "\<lparr>sr_rtp_timestamp = 905000, sr_rtp_timestamp_ext = 905000, sr_ntp_timestamp = 42949672960\<rparr>"
  let ?st = "\<lparr>sr_rtp_timestamp = 1780000, sr_rtp_timestamp_ext = 1780000, sr_ntp_timestamp = 51539607552\<rparr>"
  have "\<exists>e \<in> {- 1, 0, 1}. get_ref_layer_rtp_timestamp (clock_at (fw_clock_rate example_forwarder) 700000 13000000000) 0 1 example_forwarder =
      Some (Inr (clock_at (fw_clock_rate example_forwarder) (5000 + e) 13000000000)) \<and>
    (1000000000 dvd (ntp_nanos (sr_ntp_timestamp ?sr) - ntp_nanos (sr_ntp_timestamp ?st)) * uint (fw_clock_rate example_forwarder) \<longrightarrow> e = 0)"
    by (rule layers_share_clock)
      (simp_all add: example_forwarder_def example_report_def usable_report_def example_nanos clock_at_def new_forwarder_def on_vls_def Let_def)
  then show ?thesis by (simp add: example_nanos clock_at_def example_forwarder_def)
qed

theorem layer_switch_by_reference_witness:
  "\<exists>f'. process_source_switch env_alist example_surroundings example_switch 1 example_forwarder = Some (f', False, None) \<and>
    fw_rtp_munger f' = update_sn_ts_offsets (fw_rtp_munger example_forwarder) example_switch 1 175000"
proof -
  have r: "get_ref_layer_rtp_timestamp (rp_timestamp (ep_packet example_switch)) (fw_reference_layer_spatial example_forwarder) 1
      example_forwarder = Some (Inr 1175000)"
    by code_simp
  have d: "sint ((1175000 :: u32) - ucast (rg_ext_last_ts (fw_rtp_munger example_forwarder))) = 175000"
    by (simp add: example_forwarder_def)
  have "process_source_switch env_alist example_surroundings example_switch 1 example_forwarder = Some
    (if (175000 :: int) < 0 \<and> lasts_longer (- 175000) (fw_clock_rate example_forwarder) (1 / 20)
     then (example_forwarder, False, Some (ErrOf ErrSwitchPointTooFarBehind))
     else (example_forwarder\<lparr>fw_rtp_munger := update_sn_ts_offsets (fw_rtp_munger example_forwarder) example_switch 1 (word_of_int (max 1 175000)),
             fw_codec_munger := cm_update_offsets env_alist (fw_codec_munger example_forwarder) example_switch\<rparr>, False, None))"
    by (rule layer_switch_by_reference [OF _ _ _ _ _ _ _ r _ _ d]) (simp_all add: example_forwarder_def new_forwarder_def on_vls_def Let_def)
  then show ?thesis by simp
qed

end
