(* ===== verification/Forwarder_Layers.thy ===== *)
theory Forwarder_Layers
  imports Forwarder_Translation Forwarder_Congestion
begin

text \<open>
  The layers of a forwarder stay inside the tables.  Every layer that the selectors and the
  allocations put into the state of a forwarder is one of the three spatial and four temporal
  layers, or stands for none; so the searches of the allocations find their numbers, and every
  allocation returns.
\<close>

section \<open>Selectors\<close>

definition base_ok :: "base \<Rightarrow> bool" where
  "base_ok b \<longleftrightarrow> layers_ok b \<and> layer_ok (bs_previous b) \<and> layer_ok (bs_previous_target b)"

lemma base_okD:
  assumes "base_ok b"
  shows "layers_ok b" "layer_ok (bs_max b)" "layer_ok (bs_max_seen b)" "layer_ok (bs_target b)" "layer_ok (bs_current b)"
  using assms by (simp_all add: base_ok_def layers_ok_def)

lemma new_base_ok: "base_ok new_base"
  by (simp add: base_ok_def layers_ok_def new_base_def)

text \<open>The settings.\<close>

lemma layer_parts [simp]:
  "layer_ok l \<Longrightarrow> - 1 \<le> s \<Longrightarrow> s \<le> 2 \<Longrightarrow> layer_ok (set_spatial s l)"
  "layer_ok l \<Longrightarrow> - 1 \<le> t \<Longrightarrow> t \<le> 3 \<Longrightarrow> layer_ok (set_temporal t l)"
  by (simp_all add: layer_ok_def)

lemma base_settings:
  assumes "base_ok b"
  shows "- 1 \<le> s \<Longrightarrow> s \<le> 2 \<Longrightarrow> base_ok (bs_set_max_spatial s b)" "- 1 \<le> t \<Longrightarrow> t \<le> 3 \<Longrightarrow> base_ok (bs_set_max_temporal t b)"
    "- 1 \<le> s \<Longrightarrow> s \<le> 2 \<Longrightarrow> base_ok (bs_set_max_seen_spatial s b)" "- 1 \<le> t \<Longrightarrow> t \<le> 3 \<Longrightarrow> base_ok (bs_set_max_seen_temporal t b)"
    "layer_ok l \<Longrightarrow> base_ok (bs_set_target l b)" "layer_ok l \<Longrightarrow> base_ok (b\<lparr>bs_current := l\<rparr>)" "base_ok (b\<lparr>bs_request_spatial := r\<rparr>)"
    "base_ok (b\<lparr>bs_tls := tls\<rparr>)" "base_ok (bs_rollback b)"
  using assms by (simp_all add: base_ok_def layers_ok_def bs_set_max_spatial_def bs_set_max_temporal_def bs_set_max_seen_spatial_def
      bs_set_max_seen_temporal_def bs_set_target_def bs_rollback_def)

text \<open>A packet: its layers are those of the tables.\<close>

definition packet_layers_ok :: "'dd ext_packet \<Rightarrow> int \<Rightarrow> bool" where
  "packet_layers_ok p layer \<longleftrightarrow> - 1 \<le> layer \<and> layer \<le> 2 \<and> layer_ok (ep_layer p)"

lemma simulcast_layers:
  assumes "base_ok b" "packet_layers_ok p layer"
  shows "base_ok (fst (sc_select b p layer))"
proof -
  have l: "layer_ok (VideoLayer layer (vl_temporal (ep_layer p)))" using assms(2) by (simp add: packet_layers_ok_def layer_ok_def)
  have settle: "base_ok (sc_settle b')" if "base_ok b'" for b'
    using that by (auto simp: sc_settle_def base_ok_def layers_ok_def layer_ok_def)
  have towards: "base_ok (fst (sc_towards_target b p layer (b, r)))" for r
  proof -
    have "base_ok (b\<lparr>bs_previous := bs_current b, bs_current := VideoLayer layer (vl_temporal (ep_layer p)), bs_previous_target := bs_target b\<rparr>)"
      using assms(1) l by (simp add: base_ok_def layers_ok_def)
    from settle [OF this] show ?thesis using assms(1) by (simp add: sc_towards_target_def)
  qed
  have over: "base_ok (fst (sc_overshoot (b', r) p layer))" if "base_ok b'" for b' r
  proof -
    have "base_ok (b'\<lparr>bs_previous := bs_current b', bs_current := set_spatial layer (bs_current b'), bs_previous_target := bs_target b'\<rparr>)"
      using that assms(2) by (simp add: base_ok_def layers_ok_def packet_layers_ok_def)
    from settle [OF this] show ?thesis using that by (simp add: sc_overshoot_def)
  qed
  show ?thesis using over [OF towards, of vls_result_zero "snd (sc_towards_target b p layer (b, vls_result_zero))"]
    by (simp add: sc_select_def case_prod_beta)
qed

lemma vp9_layers_ok:
  assumes "base_ok b" "packet_layers_ok p layer"
  shows "base_ok (fst (vp9_select b p layer))"
proof -
  have ok: "layer_ok (bs_current b)" "layer_ok (bs_target b)" "layer_ok (ep_layer p)"
    using assms by (simp_all add: base_okD packet_layers_ok_def)
  have moved: "layer_ok (snd (vp9_layers b p v))" for v
    using ok by (auto simp: vp9_layers_def Let_def layer_ok_def)
  then have moved': "vp9_layers b p v = (x, y) \<Longrightarrow> layer_ok y" for v x y by (metis snd_conv)
  have upd: "base_ok (b\<lparr>bs_previous := bs_current b, bs_current := l\<rparr>)" if "layer_ok l" for l
    using that assms(1) by (simp add: base_ok_def layers_ok_def)
  show ?thesis using assms(1) upd ok(3) moved' by (auto simp: vp9_select_def Let_def split: payload.splits prod.splits)
qed

lemma temporal_layers:
  assumes "base_ok b"
  shows "base_ok (fst (bs_select_temporal b p))"
proof (cases "bs_tls b")
  case (Some tls)
  obtain x y where t: "tls_select tls p (vl_temporal (bs_current b)) (vl_temporal (bs_target b)) = (x, y)" by fastforce
  have "layer_ok (bs_current b)" "layer_ok (bs_target b)" using assms by (simp_all add: base_okD)
  then have "- 1 \<le> y \<and> y \<le> 3"
    using t by (cases tls) (auto simp: tls_vp8_select_def layer_ok_def Let_def split: if_splits payload.splits)
  then show ?thesis using assms base_settings(6) [OF assms] by (simp add: bs_select_temporal_def Some t base_okD)
qed (use assms in \<open>simp add: bs_select_temporal_def\<close>)

section \<open>The selector of dependency descriptors\<close>

text \<open>The layers of the decode targets are not negative: they are maxima of those of templates and 0.\<close>

definition not_negative :: "decode_target_layer \<Rightarrow> bool" where
  "not_negative dl \<longleftrightarrow> 0 \<le> vl_spatial (dl_layer dl) \<and> 0 \<le> vl_temporal (dl_layer dl)"

lemma target_layer_not_negative: "target_layer ts target = Some l \<Longrightarrow> 0 \<le> vl_spatial l \<and> 0 \<le> vl_temporal l"
proof -
  let ?step = "\<lambda>t acc. do {
     l \<leftarrow> acc;
     x \<leftarrow> go_nth (ft_dtis t) (int target);
     Some (if x \<noteq> DecodeTargetNotPresent
       then VideoLayer (max (vl_spatial l) (ft_spatial t)) (max (vl_temporal l) (ft_temporal t)) else l) }"
  have "0 \<le> vl_spatial l \<and> 0 \<le> vl_temporal l"
    if "fold ?step ts acc = Some l" "\<And>k. acc = Some k \<Longrightarrow> 0 \<le> vl_spatial k \<and> 0 \<le> vl_temporal k" for acc
    using that
  proof (induction ts arbitrary: acc)
    case (Cons t ts)
    show ?case
    proof (rule Cons.IH [of "?step t acc"])
      show "0 \<le> vl_spatial k \<and> 0 \<le> vl_temporal k" if "?step t acc = Some k" for k
        using that Cons.prems(2) by (fastforce simp: bind_eq_Some_conv le_max_iff_disj split: if_splits)
    qed (use Cons.prems(1) in simp)
  qed simp
  from this [of "Some (VideoLayer 0 0)"] show "target_layer ts target = Some l \<Longrightarrow> 0 \<le> vl_spatial l \<and> 0 \<le> vl_temporal l"
    unfolding target_layer_def by simp
qed

lemma all_some_member: "all_some (map f xs) = Some ys \<Longrightarrow> y \<in> set ys \<Longrightarrow> \<exists>x \<in> set xs. f x = Some y"
  by (induction xs arbitrary: ys) (auto simp: bind_eq_Some_conv)

text \<open>So those that the parser hands out.\<close>

lemma structure_targets_not_negative:
  assumes "process_frame_dependency_structure sort_desc s = Some dts" "sorts sort_desc" "dt \<in> set dts"
  shows "not_negative dt"
proof -
  obtain ys where ys: "all_some (map (\<lambda>target. map_option (\<lambda>l. \<lparr>dl_target = target, dl_layer = l\<rparr>) (target_layer (fs_templates s) target))
      [0..<nat (fs_num_targets s)]) = Some ys" "dts = sort_desc ys"
    using assms(1) by (auto simp: process_frame_dependency_structure_def)
  then have "dt \<in> set ys" using assms(2,3) by (auto simp: sorts_def dest: mset_eq_setD)
  from all_some_member [OF ys(1) this] show ?thesis by (auto simp: not_negative_def dest: target_layer_not_negative)
qed

definition targets_in_table :: "dd_selector \<Rightarrow> bool" where
  "targets_in_table s \<longleftrightarrow> (\<forall>dt \<in> set (ds_targets s). not_negative (dt_layer dt))"

definition packet_targets_ok :: "ext_dd ext_packet \<Rightarrow> bool" where
  "packet_targets_ok p \<longleftrightarrow> (case ep_dependency_descriptor p of None \<Rightarrow> True | Some x \<Rightarrow> list_all not_negative (ed_targets x))"

text \<open>What an operation of the selector keeps: the layers in the state.\<close>

definition keeps_layers :: "dd_selector \<Rightarrow> dd_selector \<Rightarrow> bool" where
  "keeps_layers s s' \<longleftrightarrow> (base_ok (ds_base s) \<and> targets_in_table s \<longrightarrow> base_ok (ds_base s') \<and> targets_in_table s')"

lemma keeps_same: "ds_base s' = ds_base s \<Longrightarrow> ds_targets s' = ds_targets s \<Longrightarrow> keeps_layers s s'"
  by (simp add: keeps_layers_def targets_in_table_def)

lemma keeps_trans: "keeps_layers a b \<Longrightarrow> keeps_layers b c \<Longrightarrow> keeps_layers a c"
  by (simp add: keeps_layers_def)

lemma add_entity_keeps: "ds_add_entity e sd s = Some s' \<Longrightarrow> keeps_layers s s'"
  by (rule keeps_same) (auto simp: ds_add_entity_def split: option.splits)

lemma invalidate_keeps: "keeps_layers s (ds_invalidate_key_frame s)" "keeps_layers s (ds_restart g s)"
  by (simp_all add: keeps_layers_def targets_in_table_def ds_restart_def ds_invalidate_key_frame_def)

lemma drop_keeps: "ds_drop e (s, res) = Some (s', res') \<Longrightarrow> keeps_layers s s'"
  by (auto simp: ds_drop_def intro: add_entity_keeps)

lemma update_structure_keeps:
  assumes "ds_update_structure st targets e s = Some s'" "list_all not_negative targets"
  shows "keeps_layers s s'"
proof -
  obtain ids dts where d: "all_some (map (\<lambda>dt. map_option (new_decode_target dt) (target_chain st ids dt)) targets) = Some dts"
    and s': "ds_targets s' = dts" "ds_base s' = ds_base s"
    using assms(1) by (auto simp: ds_update_structure_def Let_def)
  have "not_negative (dt_layer dt)" if "dt \<in> set dts" for dt
    using all_some_member [OF d that] assms(2) by (auto simp: list_all_iff new_decode_target_def)
  then show ?thesis by (simp add: keeps_layers_def targets_in_table_def s')
qed

lemma targets_update_layers: "targets_update_active m dts h = (dts', h') \<Longrightarrow> map dt_layer dts' = map dt_layer dts"
  by (induction dts arbitrary: h dts') (auto simp: dt_update_active_def Let_def split: prod.splits)

lemma update_active_keeps: "keeps_layers s (ds_update_active_targets m s)"
proof -
  obtain dts h where t: "targets_update_active m (ds_targets s) (ds_each_chain fc_begin_update_active (ds_chains s) (ds_heap s)) = (dts, h)"
    by fastforce
  have "dt_layer ` set dts = dt_layer ` set (ds_targets s)" using targets_update_layers [OF t] by (metis list.set_map)
  moreover have "targets_in_table s \<longleftrightarrow> (\<forall>l \<in> dt_layer ` set (ds_targets s). not_negative l)" for s by (simp add: targets_in_table_def)
  ultimately have "targets_in_table (ds_update_active_targets m s) = targets_in_table s"
    by (simp only: ds_update_active_targets_def Let_def t prod.case) simp
  then show ?thesis by (simp add: keeps_layers_def ds_update_active_targets_def Let_def t)
qed

lemma chains_on_frame_keeps: "ds_chains_on_frame e fd is s = Some s' \<Longrightarrow> keeps_layers s s'"
proof (induction "is" arbitrary: s)
  case Nil
  then show ?case by (simp add: keeps_layers_def)
next
  case (Cons i "is")
  then obtain c fc intact where "ds_chains_on_frame e fd is (s\<lparr>ds_decisions := c, ds_heap := (ds_heap s)[i := fc]\<rparr>) = Some s'"
    by (auto split: option.splits)
  then have "keeps_layers (s\<lparr>ds_decisions := c, ds_heap := (ds_heap s)[i := fc]\<rparr>) s'" by (rule Cons.IH)
  then show ?case by (simp add: keeps_layers_def targets_in_table_def)
qed

lemma forward_keeps_layers:
  assumes "ds_forward p x fd layer (s, res) = Some (s', res')" "layer_ok layer"
  shows "keeps_layers s s'"
proof -
  obtain s1 res1 where sw: "ds_switch x layer (s, res) = (s1, res1)" by fastforce
  obtain fw fn where w: "fw_update_and_get (ed_frame_num x) (ed_structure_updated x) (ds_fn s1) = (fw, fn)" by fastforce
  have "keeps_layers s s1"
    using sw assms(2) by (auto simp: ds_switch_def keeps_layers_def targets_in_table_def base_ok_def layers_ok_def split: if_splits)
  moreover have "keeps_layers s1 (s1\<lparr>ds_fn := fw\<rparr>)" by (rule keeps_same) simp_all
  moreover have "keeps_layers (s1\<lparr>ds_fn := fw\<rparr>) s'"
  proof -
    have "s' = s1\<lparr>ds_fn := fw\<rparr> \<or> (\<exists>sd. ds_add_entity (ed_frame_num x) sd (s1\<lparr>ds_fn := fw\<rparr>) = Some s')"
      using assms(1) unfolding ds_forward_def sw w Let_def prod.case by (auto split: option.splits if_splits)
    then show ?thesis using add_entity_keeps keeps_same by blast
  qed
  ultimately show ?thesis using keeps_trans by blast
qed

lemma found_target: "ds_find_target heap layer fd dts = Inr (Some (dt, d)) \<Longrightarrow>
  vl_spatial (dl_layer dt) \<le> vl_spatial layer \<and> vl_temporal (dl_layer dt) \<le> vl_temporal layer \<and> dt \<in> dt_layer ` set dts"
  by (induction dts) (auto split: if_splits sum.splits)

lemma choose_keeps:
  assumes "ds_choose p x fd (s, res) = Some (s', res')"
  shows "keeps_layers s s'"
proof -
  have d: "ds_drop (ed_frame_num x) (s, res) = Some (s', res') \<Longrightarrow> ?thesis" by (rule drop_keeps)
  have f: "?thesis" if "ds_find_target (ds_heap s) (bs_target (ds_base s)) fd (ds_targets s) = Inr (Some (dt, i))"
    "ds_forward p x fd (dl_layer dt) (s, res) = Some (s', res')" for dt i
  proof (cases "base_ok (ds_base s) \<and> targets_in_table s")
    case True
    then have "layer_ok (dl_layer dt)"
      using found_target [OF that(1)] base_okD(4) [of "ds_base s"] by (auto simp: targets_in_table_def not_negative_def layer_ok_def)
    with that(2) show ?thesis by (rule forward_keeps_layers)
  qed (auto simp: keeps_layers_def)
  show ?thesis using assms d f unfolding ds_choose_def prod.case by (auto split: sum.splits option.splits if_splits)
qed

lemma frame_keeps:
  assumes "ds_frame p x fd (s, res) = Some (s', res')" "list_all not_negative (ed_targets x)"
  shows "keeps_layers s s'"
proof -
  obtain s1 where s1: "(if ed_structure_updated x
       then (case dd_attached (ed_descriptor x) of None \<Rightarrow> None | Some st \<Rightarrow> ds_update_structure st (ed_targets x) (ed_frame_num x) s)
       else Some s) = Some s1"
    using assms(1) by (auto simp: ds_frame_def bind_eq_Some_conv)
  have k1: "keeps_layers s s1" using s1 update_structure_keeps assms(2) keeps_same [of s s] by (auto split: if_splits option.splits)
  show ?thesis
  proof (cases "ed_key_frame_num x \<noteq> ds_key_frame_num s1")
    case True
    then obtain s2 where "ds_add_entity (ed_frame_num x) SdDropped s1 = Some s2" "s' = ds_invalidate_key_frame s2"
      using assms(1) s1 by (auto simp: ds_frame_def)
    then show ?thesis using k1 add_entity_keeps invalidate_keeps(1) keeps_trans by blast
  next
    case False
    then obtain s2 where s2: "(if ed_active_updated x
         then (case dd_bitmask (ed_descriptor x) of None \<Rightarrow> None | Some m \<Rightarrow> Some (ds_update_active_targets m s1))
         else Some s1) = Some s2"
      and r: "(if length (ft_chain_diffs fd) \<noteq> length (ds_chains s2) then ds_drop (ed_frame_num x) (s2, res)
       else do { s3 \<leftarrow> ds_chains_on_frame (ed_frame_num x) fd (ds_chains s2) s2; ds_choose p x fd (s3, res) }) = Some (s', res')"
      using assms(1) s1 by (auto simp: ds_frame_def bind_eq_Some_conv)
    have k2: "keeps_layers s1 s2" using s2 update_active_keeps keeps_same [of s1 s1] by (auto split: if_splits option.splits)
    have "keeps_layers s2 s'"
      using r drop_keeps chains_on_frame_keeps choose_keeps keeps_trans by (fastforce simp: bind_eq_Some_conv split: if_splits)
    then show ?thesis using k1 k2 keeps_trans by blast
  qed
qed

lemma select_keeps:
  assumes "ds_select p s = Some (s', res)" "packet_targets_ok p"
  shows "keeps_layers s s'"
proof (cases "ep_dependency_descriptor p")
  case None
  then have "s' = s" using assms(1) by (simp add: ds_select_def)
  then show ?thesis by (simp add: keeps_layers_def)
next
  case (Some x)
  define s0 where "s0 = (if ed_restart_generation x > ds_restart_generation s then ds_restart (ed_restart_generation x) s else s)"
  have k0: "keeps_layers s s0" using invalidate_keeps(2) keeps_same [of s s] by (simp add: s0_def)
  have "s' = s0 \<or> (\<exists>fd res0. ds_frame p x fd (s0, res0) = Some (s', res))"
    using assms(1) unfolding ds_select_def Some Let_def option.case s0_def [symmetric]
    by (auto simp: bind_eq_Some_conv split: option.splits if_splits prod.splits)
  moreover have "list_all not_negative (ed_targets x)" using assms(2) by (simp add: packet_targets_ok_def Some)
  ultimately have "keeps_layers s0 s'" using frame_keeps keeps_same [of s0 s0] by blast
  with k0 show ?thesis by (rule keeps_trans)
qed

section \<open>Allocations\<close>

text \<open>What is prepared, and the layers, are those of the tables.\<close>

definition alloc_ok :: "('mi, 'mb, 'd) forwarder \<Rightarrow> bool" where
  "alloc_ok f \<longleftrightarrow> base_ok (fw_base f) \<and> (case fw_provisional f of None \<Rightarrow> True | Some p \<Rightarrow> provisional_ok p)"

text \<open>An allocation changes only what belongs to the allocation.\<close>

definition settles :: "('mi, 'mb, 'd) forwarder \<Rightarrow> ('mi, 'mb, 'd) forwarder \<Rightarrow> bool" where
  "settles f f' \<longleftrightarrow> fw_rtp_munger f' = fw_rtp_munger f \<and> fw_codec_munger f' = fw_codec_munger f \<and> fw_ref_infos f' = fw_ref_infos f \<and>
     fw_reference_layer_spatial f' = fw_reference_layer_spatial f \<and> (\<exists>g. fw_vls f' = vls_map_base g (fw_vls f)) \<and>
     alloc_ok f' \<and> (fw_provisional f \<noteq> None \<longrightarrow> fw_provisional f' \<noteq> None)"

lemma map_base_id: "vls_map_base (\<lambda>b. b) v = v"
  by (cases v) simp_all

lemma map_base_comp: "vls_map_base g (vls_map_base h v) = vls_map_base (\<lambda>b. g (h b)) v"
  by (cases v) simp_all

lemma settles_refl: "alloc_ok f \<Longrightarrow> settles f f"
  unfolding settles_def using map_base_id by metis

lemma settles_trans: "settles f g \<Longrightarrow> settles g h \<Longrightarrow> settles f h"
  unfolding settles_def using map_base_comp by metis

lemma settles_on_vls: "alloc_ok (on_vls g f) \<Longrightarrow> settles f (on_vls g f)"
  by (auto simp: settles_def on_vls_def)

lemma resync_alloc: "alloc_ok f \<Longrightarrow> alloc_ok (resync_locked f)"
  by (simp add: alloc_ok_def base_settings)

lemma settles_update:
  assumes "alloc_ok f" "layer_ok (va_target_layer al)"
  shows "settles f (fst (update_allocation f al))"
proof -
  define a where "a = (if vl_is_valid (va_target_layer al) \<and> fw_mime f = MimeH264
    then al\<lparr>va_target_layer := set_temporal 0 (va_target_layer al)\<rparr> else al)"
  define f1 where "f1 = set_target_layer (va_target_layer a) (va_request_layer_spatial a) (f\<lparr>fw_last_allocation := a\<rparr>)"
  have r: "fst (update_allocation f al) = (if vl_is_valid (bs_target (fw_base f1)) then f1 else resync_locked f1)"
    by (simp add: update_allocation_def Let_def a_def [symmetric] f1_def [symmetric])
  have "layer_ok (va_target_layer a)" using assms(2) by (simp add: a_def)
  then have k: "alloc_ok f1" using assms(1) by (simp add: f1_def alloc_ok_def set_target_layer_def base_settings)
  have v: "fw_vls f1 = vls_map_base (\<lambda>b. (bs_set_target (va_target_layer a) b)\<lparr>bs_request_spatial :=
      (if vl_is_valid (va_target_layer a) then va_request_layer_spatial a else invalid_layer_spatial)\<rparr>) (fw_vls f)"
    by (simp add: f1_def set_target_layer_def on_vls_def)
  have rest: "fw_rtp_munger f1 = fw_rtp_munger f" "fw_codec_munger f1 = fw_codec_munger f" "fw_ref_infos f1 = fw_ref_infos f"
    "fw_reference_layer_spatial f1 = fw_reference_layer_spatial f" "fw_provisional f1 = fw_provisional f"
    by (simp_all add: f1_def set_target_layer_def on_vls_def)
  have "settles f f1" unfolding settles_def rest using k v by blast
  moreover have "settles f1 (resync_locked f1)"
    using resync_alloc [OF k] by (auto simp: settles_def resync_locked_def on_vls_def Let_def)
  ultimately show ?thesis unfolding r using settles_trans by auto
qed

lemma settles_allocated:
  assumes "alloc_ok f" "fw_provisional f = Some p" "layer_ok l"
  shows "settles f (set_allocated p l f)"
proof -
  have "provisional_ok (p\<lparr>pv_allocated := l\<rparr>)" using assms by (simp add: alloc_ok_def provisional_ok_def)
  moreover have "\<exists>g. fw_vls f = vls_map_base g (fw_vls f)" using map_base_id by metis
  ultimately show ?thesis using assms(1) by (simp add: settles_def alloc_ok_def set_allocated_def)
qed

lemma settles_via:
  assumes "settles f g" "layer_ok (va_target_layer al)"
  shows "settles f (fst (update_allocation g al))"
proof (rule settles_trans [OF assms(1)])
  have "alloc_ok g" using assms(1) by (simp add: settles_def)
  then show "settles g (fst (update_allocation g al))" using assms(2) by (rule settles_update)
qed

text \<open>An operation returns, and what it leaves is a forwarder that only its allocation makes different.\<close>

definition allocates :: "('mi, 'mb, 'd) forwarder \<Rightarrow> (('mi, 'mb, 'd) forwarder \<times> 'a) option \<Rightarrow> bool" where
  "allocates f r \<longleftrightarrow> (\<exists>f' a. r = Some (f', a) \<and> settles f f')"

lemma allocates_update: "settles f g \<Longrightarrow> layer_ok (va_target_layer al) \<Longrightarrow> allocates f (Some (update_allocation g al))"
  using settles_via unfolding allocates_def by (metis prod.collapse)

lemma allocates_same: "alloc_ok f \<Longrightarrow> allocates f (Some (f, a))"
  using settles_refl by (auto simp: allocates_def)

text \<open>The numbers that every allocation asks for.\<close>

definition available_ok :: "int list \<Rightarrow> bool" where
  "available_ok available \<longleftrightarrow> list_all (\<lambda>l. 0 \<le> l \<and> l \<le> 2) available"

lemma alloc_layers:
  assumes "alloc_ok f"
  shows "layers_ok (fw_base f)" "layer_ok (bs_max (fw_base f))" "layer_ok (bs_max_seen (fw_base f))" "layer_ok (bs_target (fw_base f))"
    "layer_ok (bs_current (fw_base f))"
  using assms base_okD unfolding alloc_ok_def by blast+

lemma optimal_returns:
  assumes ok: "alloc_ok f" and av: "available_ok available"
  shows "allocates f (allocate_optimal f available brs allow hold)"
proof (cases "fw_kind f = KindAudio")
  case True
  then show ?thesis by (simp add: allocate_optimal_def allocates_same [OF ok])
next
  case False
  note av' = av [unfolded available_ok_def]
  obtain pause target request requested existing distance where
    c: "optimal_choice f available allow hold (if fw_muted f \<or> fw_pub_muted f \<or> vl_spatial (bs_max_seen (fw_base f)) = -1 then 0
        else best_rate brs (bs_max (fw_base f))) = (pause, target, request)"
    and r: "allocate_optimal f available brs allow hold = Some (update_allocation f
      \<lparr>va_pause_reason = pause, va_is_deficient = False, va_bandwidth_requested = requested,
       va_bandwidth_delta = i64 (requested - existing),
       va_bandwidth_needed = (if fw_muted f \<or> fw_pub_muted f \<or> vl_spatial (bs_max_seen (fw_base f)) = -1 then 0
         else best_rate brs (bs_max (fw_base f))), va_bitrates = brs,
       va_target_layer = target, va_request_layer_spatial = request, va_max_layer = bs_max (fw_base f),
       va_distance_to_desired = distance\<rparr>)"
    by (rule allocate_optimal_eq [OF alloc_layers(1) [OF ok] av' False])
  have "layer_ok target" by (rule optimal_choice_facts(1) [OF alloc_layers(1) [OF ok] av' c])
  then show ?thesis unfolding r using allocates_update [OF settles_refl [OF ok]] by simp
qed

lemma pause_returns:
  assumes ok: "alloc_ok f" and av: "available_ok available"
  shows "allocates f (fw_pause f available brs)"
proof -
  note l = alloc_layers [OF ok]
  obtain existing where e: "get_bandwidth_needed brs (bs_target (fw_base f)) (va_bandwidth_requested (fw_last_allocation f)) = Some existing"
    using bandwidth_needed [OF l(4)] by blast
  obtain distance where d: "get_distance_to_desired (fw_muted f) (fw_pub_muted f) (bs_max_seen (fw_base f)) available brs invalid_layer
      (bs_max (fw_base f)) = Some distance"
    using distance_total [OF l(3,2) av [unfolded available_ok_def]] by blast
  show ?thesis unfolding fw_pause_def Let_def optimal_bandwidth [OF l(2)] e d Option.bind.bind_lunit
    by (auto intro!: allocates_update settles_refl [OF ok] split: prod.split)
qed

lemma prepare_settles:
  assumes "alloc_ok f" "available_ok available"
  shows "settles f (provisional_prepare available brs f)"
proof -
  note l = alloc_layers [OF assms(1)]
  have "\<exists>g. fw_vls f = vls_map_base g (fw_vls f)" using map_base_id by metis
  then show ?thesis using assms l by (simp add: settles_def provisional_prepare_def alloc_ok_def provisional_ok_def available_ok_def)
qed

text \<open>Calls on a provisional allocation.\<close>

lemma provisional_parts:
  assumes "alloc_ok f" "fw_provisional f = Some p"
  shows "provisional_ok p" "layer_ok (pv_max_seen p)" "layer_ok (pv_max p)" "layer_ok (pv_current p)" "layer_ok (pv_allocated p)"
    "list_all (\<lambda>l. 0 \<le> l \<and> l \<le> 2) (pv_available p)"
  using assms by (simp_all add: alloc_ok_def provisional_ok_def)

lemma allocates_allocated:
  "alloc_ok f \<Longrightarrow> fw_provisional f = Some p \<Longrightarrow> layer_ok l \<Longrightarrow> allocates f (Some (set_allocated p l f, a))"
  using settles_allocated by (auto simp: allocates_def)

lemma provisional_allocate_returns:
  assumes ok: "alloc_ok f" and p: "fw_provisional f = Some p" and l: "in_grid l"
  shows "allocates f (provisional_allocate capacity l allow_pause allow f)"
proof -
  have a: "(if vl_is_valid (pv_allocated p) then br_at (pv_bitrates p) (pv_allocated p) else Some 0) \<noteq> None"
    using valid_in_grid [OF provisional_parts(5) [OF ok p]] by simp
  then obtain already where "(if vl_is_valid (pv_allocated p) then br_at (pv_bitrates p) (pv_allocated p) else Some 0) = Some already" by blast
  then show ?thesis unfolding provisional_allocate_def p Option.bind.bind_lunit br_at_grid [OF l]
    by (simp add: allocates_same [OF ok] allocates_allocated [OF ok p grid_layer_ok(1) [OF l]])
qed

lemma find_next_returns:
  assumes "list_all in_grid (layers_up s0 s1 t0 t1)"
  obtains l bw where "find_next_layer brs s0 s1 t0 t1 = Some (l, bw)" "layer_ok l"
proof -
  have "first_such (\<lambda>r. r \<noteq> 0) brs (layers_up s0 s1 t0 t1) \<noteq> None" using assms by (rule first_such_total)
  then consider "first_such (\<lambda>r. r \<noteq> 0) brs (layers_up s0 s1 t0 t1) = Some None"
    | l where "first_such (\<lambda>r. r \<noteq> 0) brs (layers_up s0 s1 t0 t1) = Some (Some l)" by (metis not_None_eq)
  then show thesis
  proof cases
    case 2
    then have "in_grid l" using first_such_some by blast
    then show thesis using 2 that by (simp add: find_next_layer_def)
  qed (use that in \<open>simp add: find_next_layer_def\<close>)
qed

lemma fallback_returns:
  assumes p: "provisional_ok p"
  obtains l bw where "cooperative_fallback p allow f = Some (l, bw)" "layer_ok l"
proof -
  have m: "layer_ok (pv_max p)" "layer_ok (pv_current p)" using p by (simp_all add: provisional_ok_def)
  obtain l0 bw0 where n: "find_next_layer (pv_bitrates p) 0 (vl_spatial (pv_max p)) 0 (vl_temporal (pv_max p)) = Some (l0, bw0)" "layer_ok l0"
    by (rule find_next_returns [OF grid_up [OF m(1)]])
  have up: "i32 (vl_spatial (pv_max p) + 1) = vl_spatial (pv_max p) + 1" "0 \<le> vl_spatial (pv_max p) + 1"
    using m(1) by (simp_all add: layer_ok_def i32_small)
  have "list_all in_grid (layers_up (i32 (vl_spatial (pv_max p) + 1)) default_max_layer_spatial 0 default_max_layer_temporal)"
    unfolding list_all_iff set_layers_up up(1) using up(2) by (auto simp: in_grid_def)
  then obtain l1 bw1 where o: "find_next_layer (pv_bitrates p) (i32 (vl_spatial (pv_max p) + 1)) default_max_layer_spatial 0
      default_max_layer_temporal = Some (l1, bw1)" "layer_ok l1"
    by (rule find_next_returns)
  have c: "vl_is_valid (pv_current p) \<Longrightarrow> br_at (pv_bitrates p) (pv_current p) = Some (rate (pv_bitrates p) (pv_current p))"
    using valid_in_grid [OF m(2)] by simp
  have "\<exists>l bw. cooperative_fallback p allow f = Some (l, bw) \<and> layer_ok l"
    unfolding cooperative_fallback_def n(1) o(1) using n(2) o(2) c m(2) by auto
  with that show thesis by blast
qed

lemma cooperative_returns:
  assumes ok: "alloc_ok f" and p: "fw_provisional f = Some p"
  shows "allocates f (cooperative_transition allow f)"
proof -
  note t = alloc_layers(4) [OF ok] and pv = provisional_parts [OF ok p]
  let ?T = "bs_target (fw_base f)" and ?brs = "pv_bitrates p"
  obtain needed where n: "get_bandwidth_needed ?brs ?T (va_bandwidth_requested (fw_last_allocation f)) = Some needed"
    using bandwidth_needed [OF t] by blast
  obtain l bw where fb: "cooperative_fallback p allow f = Some (l, bw)" "layer_ok l" by (rule fallback_returns [OF pv(1)])
  obtain maximal where m: "(if vl_is_valid ?T then first_such (\<lambda>r. r \<noteq> 0) ?brs (layers_down (vl_spatial (pv_max p)) (vl_temporal (pv_max p)))
      else Some None) = Some maximal" "\<And>k. maximal = Some k \<Longrightarrow> vl_is_valid ?T \<and> in_grid k"
  proof (cases "vl_is_valid ?T")
    case True
    have "list_all in_grid (layers_down (vl_spatial (pv_max p)) (vl_temporal (pv_max p)))"
      using grid_up [OF pv(3)] by (simp add: layers_down_def list_all_iff)
    then obtain x where "first_such (\<lambda>r. r \<noteq> 0) ?brs (layers_down (vl_spatial (pv_max p)) (vl_temporal (pv_max p))) = Some x"
      using first_such_total by (metis not_None_eq)
    then show thesis using that [of x] True first_such_some by fastforce
  qed (use that in simp)
  have keep: "vl_is_valid ?T \<Longrightarrow> br_at ?brs ?T = Some (rate ?brs ?T)" using valid_in_grid [OF t] by simp
  note set = allocates_allocated [OF ok p]
  show ?thesis
  proof (cases "pv_muted p \<or> pv_pub_muted p")
    case True
    then show ?thesis by (simp add: cooperative_transition_def p n set)
  next
    case False
    have run: "cooperative_transition allow f = do {
       keeps \<leftarrow> (case maximal of None \<Rightarrow> Some False
         | Some m \<Rightarrow> if vl_greater_than ?T m then Some False else map_option (\<lambda>r. r \<noteq> 0) (br_at ?brs ?T));
       if keeps then Some (set_allocated p ?T f, transition_to ?T ?T 0)
       else do {
         (target, bw) \<leftarrow> (case maximal of
             Some m \<Rightarrow> if vl_greater_than ?T m then Some (m, rate ?brs m) else Some (l, bw)
           | None \<Rightarrow> Some (l, bw));
         Some (set_allocated p target f, transition_to ?T target (i64 (bw - needed)))
       } }"
      unfolding cooperative_transition_def p Let_def Option.bind.bind_lunit if_not_P [OF False] m(1) n fb(1) by (rule refl)
    show ?thesis
    proof (cases maximal)
      case None
      then show ?thesis unfolding run by (simp add: set fb(2))
    next
      case (Some k)
      then show ?thesis unfolding run using m(2) [OF Some] keep by (simp add: set fb(2) t)
    qed
  qed
qed

lemma reachable_returns: "layer_ok mx \<Longrightarrow> max_reachable_temporal brs mx \<noteq> None"
proof -
  assume ok: "layer_ok mx"
  let ?ls = "concat (map (\<lambda>t. map (\<lambda>s. VideoLayer s t) (rev [0..vl_spatial mx])) (rev [0..vl_temporal mx]))"
  have "list_all in_grid ?ls" using ok by (auto simp: list_all_iff in_grid_def layer_ok_def)
  from first_such_total [OF this, of "\<lambda>r. r \<noteq> 0" brs] show ?thesis
    by (auto simp: max_reachable_temporal_def split: option.splits)
qed

lemma best_weighted_returns:
  assumes ok: "alloc_ok f" and p: "fw_provisional f = Some p"
  shows "allocates f (best_weighted_transition f)"
proof -
  note t = alloc_layers(4) [OF ok] and pv = provisional_parts [OF ok p] and set = allocates_allocated [OF ok p]
  let ?T = "bs_target (fw_base f)" and ?brs = "pv_bitrates p"
  obtain existing where n: "get_bandwidth_needed ?brs ?T (va_bandwidth_requested (fw_last_allocation f)) = Some existing"
    using bandwidth_needed [OF t] by blast
  obtain reachable where r: "max_reachable_temporal ?brs (pv_max p) = Some reachable" using reachable_returns [OF pv(3)] by blast
  let ?ls = "filter (\<lambda>l. l \<noteq> ?T) (layers_up 0 (vl_spatial ?T) 0 (vl_temporal ?T))"
  have g: "list_all in_grid ?ls" using grid_up [OF t] by (auto simp: list_all_iff)
  obtain l d v where w: "weigh ?brs ?T reachable existing ?ls (invalid_layer, 0, 0) = Some (l, d, v)"
    "(l, d, v) = (invalid_layer, 0, 0) \<or> l \<in> set ?ls"
    using weigh_best [OF g, of ?brs ?T reachable existing invalid_layer 0 0] by blast
  have l: "layer_ok l" using w(2) g by (auto simp: list_all_iff)
  show ?thesis unfolding best_weighted_transition_def p Let_def Option.bind.bind_lunit n r w(1)
    by (simp add: set l pv(4))
qed

lemma commit_returns:
  assumes ok: "alloc_ok f" and p: "fw_provisional f = Some p"
  shows "allocates f (provisional_commit f)"
proof -
  note t = alloc_layers(4) [OF ok] and pv = provisional_parts [OF ok p]
  let ?brs = "pv_bitrates p"
  obtain existing where e: "get_bandwidth_needed ?brs (bs_target (fw_base f)) (va_bandwidth_requested (fw_last_allocation f)) = Some existing"
    using bandwidth_needed [OF t] by blast
  obtain distance where d: "get_distance_to_desired (pv_muted p) (pv_pub_muted p) (pv_max_seen p) (pv_available p) ?brs (pv_allocated p)
      (pv_max p) = Some distance"
    using distance_total [OF pv(2,3,6)] by blast
  obtain requested where r: "(if vl_is_valid (pv_allocated p) then br_at ?brs (pv_allocated p) else Some 0) = Some requested"
    using valid_in_grid [OF pv(5)] by auto
  note up = allocates_update [OF settles_refl [OF ok]] allocates_update [OF settles_allocated [OF ok p pv(4)]]
  show ?thesis
    unfolding provisional_commit_def p Let_def Option.bind.bind_lunit optimal_bandwidth [OF pv(3)] e d r
    by (auto intro!: up simp: pv)
qed

section \<open>The next higher layer\<close>

lemma regions_grid:
  assumes "alloc_ok f"
  shows "list_all in_grid (concat (regions_above allow f))"
proof -
  let ?T = "bs_target (fw_base f)" and ?M = "bs_max (fw_base f)"
  note l = alloc_layers [OF assms]
  have b: "- 1 \<le> vl_spatial ?T" "vl_spatial ?T \<le> 2" "- 1 \<le> vl_temporal ?T" "vl_temporal ?T \<le> 3"
    "- 1 \<le> vl_spatial ?M" "vl_spatial ?M \<le> 2" "vl_temporal ?M \<le> 3" using l(2,4) by (auto simp: layer_ok_def)
  have i: "i32 (vl_temporal ?T + 1) = vl_temporal ?T + 1" "i32 (vl_spatial ?T + 1) = vl_spatial ?T + 1" "i32 (vl_spatial ?M + 1) = vl_spatial ?M + 1"
    using b by (simp_all add: i32_small)
  have "vl_is_valid ?T \<longleftrightarrow> in_grid ?T" using l(4) by (rule valid_in_grid)
  then show ?thesis using b by (auto simp: list_all_iff regions_above_def Let_def set_layers_up i in_grid_def)
qed

lemma already_returns: "alloc_ok f \<Longrightarrow> already_allocated brs f \<noteq> None"
  using valid_in_grid [OF alloc_layers(4), of f] by (simp add: already_allocated_def)

lemma next_higher_returns:
  assumes ok: "alloc_ok f" and av: "available_ok available"
  shows "allocates f (allocate_next_higher capacity available brs allow f)"
proof (cases "fw_kind f = KindAudio \<or> \<not> va_is_deficient (fw_last_allocation f)")
  case True
  then show ?thesis by (simp add: allocate_next_higher_def allocates_same [OF ok])
next
  case False
  note l = alloc_layers [OF ok]
  obtain needed where n: "get_optimal_bandwidth_needed (fw_muted f) (fw_pub_muted f) (vl_spatial (bs_max_seen (fw_base f))) brs
      (bs_max (fw_base f)) = Some needed" using optimal_bandwidth [OF l(2)] by blast
  obtain already where a: "already_allocated brs f = Some already" using already_returns [OF ok] by blast
  obtain found where s: "first_such (\<lambda>r. r \<noteq> 0) brs (concat (regions_above allow f)) = Some found"
    using first_such_total [OF regions_grid [OF ok]] by (metis not_None_eq)
  have run: "allocate_next_higher capacity available brs allow f = (case found of None \<Rightarrow> Some (f, fw_last_allocation f, False)
    | Some k \<Rightarrow> boost_to capacity available brs allow needed already f k)"
    unfolding allocate_next_higher_def if_not_P [OF False] n a Option.bind.bind_lunit first_done_allocation s
    by (auto split: option.splits simp: map_option_case)
  show ?thesis
  proof (cases found)
    case (Some k)
    then have k: "layer_ok k" using s first_such_some by fastforce
    obtain distance where "get_distance_to_desired (fw_muted f) (fw_pub_muted f) (bs_max_seen (fw_base f)) available brs k
        (bs_max (fw_base f)) = Some distance"
      using distance_total [OF l(3,2) av [unfolded available_ok_def]] by blast
    moreover have "settles f f'" if "update_allocation f al = (f', a)" "va_target_layer al = k" for al f' a
      using settles_update [OF ok, of al] k that by simp
    ultimately show ?thesis unfolding run Some option.case boost_to_def
      using settles_refl [OF ok] by (auto simp: allocates_def split: prod.split)
  qed (simp add: run allocates_same [OF ok])
qed

lemma next_transition_returns:
  assumes ok: "alloc_ok f"
  shows "get_next_higher_transition brs allow f \<noteq> None"
proof -
  obtain already where a: "already_allocated brs f = Some already" using already_returns [OF ok] by blast
  obtain found where s: "first_such (\<lambda>r. \<not> (r = 0 \<or> r < already)) brs (concat (regions_above allow f)) = Some found"
    using first_such_total [OF regions_grid [OF ok]] by (metis not_None_eq)
  show ?thesis unfolding get_next_higher_transition_def Let_def a Option.bind.bind_lunit first_done_regions s by (simp del: not_None_eq)
qed

lemma max_spatial_returns:
  assumes ok: "alloc_ok f" and l: "- 1 \<le> l" "l \<le> 2"
  shows "allocates f (set_max_spatial_layer l f)"
proof -
  let ?f = "on_vls (bs_set_max_spatial l) f"
  have k: "alloc_ok ?f" using ok base_settings(1) l by (simp add: alloc_ok_def)
  have mx: "layer_ok (bs_max (fw_base ?f))" using alloc_layers(2) [OF k] .
  obtain distance where "get_distance_to_desired (fw_muted f) (fw_pub_muted f) (bs_max_seen (fw_base f)) [] no_bitrates
      (bs_max (fw_base ?f)) (bs_max (fw_base ?f)) = Some distance"
    using distance_total [OF alloc_layers(3) [OF ok] mx, of "[]"] by force
  then show ?thesis
    using settles_refl [OF ok] settles_on_vls [OF k] settles_via [OF settles_on_vls [OF k]] mx
    by (auto simp: set_max_spatial_layer_def Let_def allocates_def)
qed

end
