(* ===== verification/Forwarder_Run.thy ===== *)
theory Forwarder_Run
  imports Forwarding Forwarder_Layers
begin

text \<open>
  The numbers of a forwarder and its runs: packets that are dropped leave no hole, and whatever is
  called, in whatever order, returns.
\<close>

section \<open>The numbers of the munger\<close>

lemma reset_munger:
  assumes "munger_ok r" "0 < ep_ext_sequence_number p" "ep_ext_sequence_number p < sn_limit"
  shows "munger_ok (set_last_sn_ts r p)" "munger_ok (update_sn_ts_offsets r p a b)"
proof -
  let ?sn = "ep_ext_sequence_number p"
  have "uint (?sn - 1) = uint ?sn - 1" using assms(2) by (simp add: word_less_def uint_sub_if')
  then have h: "?sn - 1 < sn_limit" using assms(3) by (simp add: word_less_def)
  have s: "?sn \<le> 2 ^ 63" using limit_bounds(1) [OF assms(3)] by simp
  have "rm_ok (clear_and_reset_value (rg_sn_range_map r) ?sn v)" "rmap.head (clear_and_reset_value (rg_sn_range_map r) ?sn v) = v"
    "rm_frontier (clear_and_reset_value (rg_sn_range_map r) ?sn v) = ?sn" for v
    using rmap.ok_reset [OF munger_okD(1) [OF assms(1)] s] rmap.head_reset [OF munger_okD(1) [OF assms(1)] s] rmap.front_reset by auto
  then show "munger_ok (set_last_sn_ts r p)" "munger_ok (update_sn_ts_offsets r p a b)"
    using h by (simp_all add: munger_ok_def set_last_sn_ts_def update_sn_ts_offsets_def update_sn_offset_def get_value_or_zero_head Let_def)
qed

lemma new_munger_ok: "munger_ok new_rtp_munger"
  by (simp add: munger_ok_def new_rtp_munger_def new_range_map_def init_ranges_def rm_ok_def rm_frontier_def rm_head sn_limit_def min_ranges_def)

text \<open>The last number sent is the one before the next.\<close>

definition in_step :: "rtp_munger \<Rightarrow> bool" where
  "in_step r \<longleftrightarrow> rg_ext_last_sn r = rg_next r - 1"

text \<open>What a packet does to the munger.\<close>

lemma update_cases:
  assumes "munger_ok r" "ep_ext_sequence_number p < sn_limit" "update_and_get_sn_ts r p marker = (r', tp, e)"
  obtains (ahead) "rg_ext_highest_incoming_sn r < ep_ext_sequence_number p" "e = None" "munger_ok r'" "in_step r'"
      "rg_next r' = tr_ext_sequence_number tp + 1" "rg_ext_highest_incoming_sn r' = ep_ext_sequence_number p"
      "tr_ext_sequence_number tp = rg_next r + (ep_ext_sequence_number p - (rg_ext_highest_incoming_sn r + 1))"
      "rg_ext_second_last_sn r' = rg_ext_last_sn r" "rm_frontier (rg_sn_range_map r') \<le> rg_ext_highest_incoming_sn r + 1"
      "tr_sn_ordering tp = (if ep_ext_sequence_number p = rg_ext_highest_incoming_sn r + 1 then SnContiguous else SnGap)"
  | (late) "ep_ext_sequence_number p \<le> rg_ext_highest_incoming_sn r" "r' = r" "e = None" "tr_sn_ordering tp = SnOutOfOrder"
      "tr_ext_sequence_number tp < rg_ext_last_sn r"
      "rm_lookup (rg_sn_range_map r) (ep_ext_sequence_number p) = Some (ep_ext_sequence_number p - tr_ext_sequence_number tp)"
  | (refused) "e \<noteq> None" "munger_ok r'" "rg_next r' = rg_next r" "rg_ext_last_sn r' = rg_ext_last_sn r"
proof -
  let ?sn = "ep_ext_sequence_number p" and ?h = "rg_ext_highest_incoming_sn r"
  consider (l) "?sn \<le> ?h" | (pad) "?sn = ?h + 1" "\<not> ep_has_payload p" | (new) "?h < ?sn" "ep_has_payload p \<or> ?sn \<noteq> ?h + 1"
    by force
  then show ?thesis
  proof cases
    case l
    then show ?thesis using late_step [OF assms(1) l assms(3)] late refused assms(1) by blast
  next
    case pad
    then show ?thesis using padding_only_step [OF assms(1) pad(1) assms(2) pad(2) assms(3)] refused by simp
  next
    case new
    then show ?thesis
      using in_order_step [OF assms(1,2) new assms(3)] munger_okD(3) [OF assms(1)] ahead by (simp add: in_step_def rg_next_def)
  qed
qed

text \<open>The next packet is taken back.\<close>

lemma take_back:
  assumes "munger_ok r" "in_step r" "ep_ext_sequence_number p < sn_limit" "update_and_get_sn_ts r p marker = (r', tp, None)"
    "tr_sn_ordering tp = SnContiguous"
  shows "munger_ok (packet_dropped r' p)" "rg_next (packet_dropped r' p) = rg_next r" "in_step (packet_dropped r' p)"
proof -
  have "munger_ok (packet_dropped r' p) \<and> rg_next (packet_dropped r' p) = rg_next r \<and> in_step (packet_dropped r' p)"
  proof (cases rule: update_cases [OF assms(1,3,4)])
    case 1
    then have "ep_ext_sequence_number p = rg_ext_highest_incoming_sn r + 1" using assms(5) by (simp split: if_splits)
    then show ?thesis using drop_step [of r' p] 1 assms(2) by (simp add: in_step_def)
  qed (use assms(5) in simp_all)
  then show "munger_ok (packet_dropped r' p)" "rg_next (packet_dropped r' p) = rg_next r" "in_step (packet_dropped r' p)" by blast+
qed

lemma filtered_contiguous:
  assumes "cm_update_and_get env cm p ooo gap tlayer = Some (cm', Inl ErrFilteredVP8TemporalLayer)"
  shows "\<not> ooo" "\<not> gap"
  using assms
  by (cases cm; auto simp: vm_update_and_get_def vm_emit_def vm_forward_def Let_def split: payload.splits prod.splits option.splits if_splits sum.splits)+

lemma refused_out_of_order:
  assumes "cm_update_and_get env cm p ooo gap tlayer = Some (cm', Inl ErrOutOfOrderVP8PictureIdCacheMiss)"
  shows ooo
  using assms
  by (cases cm; auto simp: vm_update_and_get_def vm_emit_def vm_forward_def Let_def split: payload.splits prod.splits option.splits if_splits sum.splits)+

section \<open>Dropped packets leave no hole\<close>

text \<open>What becomes of the munger when a packet is not sent.\<close>

definition numbering_kept :: "rtp_munger \<Rightarrow> rtp_munger \<Rightarrow> bool" where
  "numbering_kept r r' \<longleftrightarrow> munger_ok r' \<and> in_step r' \<and> rg_next r' = rg_next r"

lemma kept_refl: "munger_ok r \<Longrightarrow> in_step r \<Longrightarrow> numbering_kept r r"
  by (simp add: numbering_kept_def)

text \<open>A packet with these numbers is sent.\<close>

definition sent_with :: "rtp_munger \<Rightarrow> rtp_munger \<Rightarrow> u64 \<Rightarrow> u64 \<Rightarrow> bool" where
  "sent_with r r' sn x \<longleftrightarrow>
    (if rg_ext_highest_incoming_sn r < sn
     then x = rg_next r + (sn - (rg_ext_highest_incoming_sn r + 1)) \<and> rg_next r' = x + 1
     else r' = r \<and> x < rg_ext_last_sn r \<and> rm_lookup (rg_sn_range_map r) sn = Some (sn - x))"

lemma update_sent:
  assumes "munger_ok r" "in_step r" "ep_ext_sequence_number p < sn_limit" "update_and_get_sn_ts r p marker = (r', tp, None)"
  shows "munger_ok r'" "in_step r'" "sent_with r r' (ep_ext_sequence_number p) (tr_ext_sequence_number tp)"
    "tr_sn_ordering tp = SnGap \<Longrightarrow> rg_ext_highest_incoming_sn r + 1 < ep_ext_sequence_number p"
    "tr_sn_ordering tp = SnOutOfOrder \<Longrightarrow> r' = r"
proof -
  have h: "rg_ext_highest_incoming_sn r + 1 \<le> ep_ext_sequence_number p" if "rg_ext_highest_incoming_sn r < ep_ext_sequence_number p"
    using that below_limit [OF munger_okD(2) [OF assms(1)]] by (simp add: word_le_def word_less_def)
  have "munger_ok r' \<and> in_step r' \<and> sent_with r r' (ep_ext_sequence_number p) (tr_ext_sequence_number tp) \<and>
    (tr_sn_ordering tp = SnGap \<longrightarrow> rg_ext_highest_incoming_sn r + 1 < ep_ext_sequence_number p) \<and> (tr_sn_ordering tp = SnOutOfOrder \<longrightarrow> r' = r)"
  proof (cases rule: update_cases [OF assms(1,3,4)])
    case 1
    then show ?thesis using h by (auto simp: sent_with_def split: if_splits)
  next
    case 2
    then show ?thesis using assms(1,2) by (auto simp: sent_with_def)
  qed simp
  then show "munger_ok r'" "in_step r'" "sent_with r r' (ep_ext_sequence_number p) (tr_ext_sequence_number tp)"
    "tr_sn_ordering tp = SnGap \<Longrightarrow> rg_ext_highest_incoming_sn r + 1 < ep_ext_sequence_number p"
    "tr_sn_ordering tp = SnOutOfOrder \<Longrightarrow> r' = r" by blast+
qed

lemma update_refused:
  assumes "munger_ok r" "in_step r" "ep_ext_sequence_number p < sn_limit" "update_and_get_sn_ts r p marker = (r', tp, Some err)"
  shows "numbering_kept r r'"
  by (cases rule: update_cases [OF assms(1,3,4)]) (use assms(2) in \<open>auto simp: numbering_kept_def in_step_def\<close>)

text \<open>The ordering that is neither is contiguous.\<close>

lemma update_ordering:
  assumes "munger_ok r" "ep_ext_sequence_number p < sn_limit" "update_and_get_sn_ts r p marker = (r', tp, None)"
    "tr_sn_ordering tp \<noteq> SnOutOfOrder" "tr_sn_ordering tp \<noteq> SnGap"
  shows "tr_sn_ordering tp = SnContiguous"
  by (cases rule: update_cases [OF assms(1-3)]) (use assms(4,5) in \<open>auto split: if_splits\<close>)

text \<open>The outcome of a packet of the same source, for the numbering.\<close>

definition outcome_ok :: "rtp_munger \<Rightarrow> dd_packet \<Rightarrow> rtp_munger \<Rightarrow> translation_params \<Rightarrow> forward_err option \<Rightarrow> bool" where
  "outcome_ok r p r' tp e \<longleftrightarrow> munger_ok r' \<and> in_step r' \<and>
    (if tp_should_drop tp
     then rg_next r' = rg_next r \<or> rg_ext_highest_incoming_sn r + 1 < ep_ext_sequence_number p \<or> e \<noteq> None
     else sent_with r r' (ep_ext_sequence_number p) (tr_ext_sequence_number (tp_rtp tp)))"

lemma common_outcome:
  assumes ok: "munger_ok (fw_rtp_munger f)" "in_step (fw_rtp_munger f)" "ep_ext_sequence_number p < sn_limit"
    and same: "fw_last_ssrc f = rp_ssrc (ep_packet p)" and tp: "\<not> tp_should_drop tp"
    and run: "translation_common env se p layer f tp = Some (f', tp', starting, e)"
  shows "outcome_ok (fw_rtp_munger f) p (fw_rtp_munger f') tp' e"
proof -
  let ?r = "fw_rtp_munger f"
  obtain m rtp err where u: "update_and_get_sn_ts ?r p (tp_marker tp) = (m, rtp, err)" by (metis prod_cases3)
  show ?thesis
  proof (cases err)
    case (Some x)
    then have "f' = f\<lparr>fw_rtp_munger := m\<rparr>" "tp' = dropped tp"
      using run by (auto simp: translation_common_def same u Let_def)
    with update_refused [OF ok u [unfolded Some]] show ?thesis by (simp add: outcome_ok_def numbering_kept_def)
  next
    case None
    note sent = update_sent [OF ok u [unfolded None]]
    show ?thesis
    proof (cases "ep_has_payload p")
      case False
      then have "f' = f\<lparr>fw_rtp_munger := m\<rparr>" "tp' = tp\<lparr>tp_rtp := rtp\<rparr>"
        using run by (auto simp: translation_common_def same u None Let_def)
      with sent tp show ?thesis by (simp add: outcome_ok_def)
    next
      case True
      then have h: "translate_codec_header env p (f\<lparr>fw_rtp_munger := m\<rparr>) (tp\<lparr>tp_rtp := rtp\<rparr>) = Some (f', tp', e)"
        using run by (auto simp: translation_common_def same u None Let_def)
      show ?thesis
      proof (cases rule: codec_header_cases [OF h])
        case (1 hs bytes v cm)
        with sent tp show ?thesis by (simp add: outcome_ok_def)
      next
        case (2 v cm)
        then have "tr_sn_ordering rtp = SnContiguous"
          using filtered_contiguous update_ordering [OF ok(1,3) u [unfolded None]] by fastforce
        with take_back [OF ok u [unfolded None]] 2 show ?thesis by (simp add: outcome_ok_def)
      next
        case (3 v cm err)
        have "e \<noteq> None \<or> m = ?r"
        proof (cases "err = ErrOutOfOrderVP8PictureIdCacheMiss")
          case True
          then show ?thesis using 3 refused_out_of_order sent(5) by fastforce
        next
          case False
          then show ?thesis using 3 by simp
        qed
        with 3 sent show ?thesis by (auto simp: outcome_ok_def)
      qed
    qed
  qed
qed

lemma not_selected_outcome:
  assumes ok: "munger_ok (fw_rtp_munger f)" "in_step (fw_rtp_munger f)" "ep_ext_sequence_number p < sn_limit"
  shows "outcome_ok (fw_rtp_munger f) p (fw_rtp_munger (not_selected res p f)) (dropped tp) e"
proof -
  let ?r = "fw_rtp_munger f"
  obtain m rtp err where u: "update_and_get_sn_ts ?r p (vr_rtp_marker res) = (m, rtp, err)" by (metis prod_cases3)
  have same: "fw_rtp_munger (dd_turned_off f) = ?r" by (simp add: dd_turned_off_def)
  have cases: "fw_rtp_munger (not_selected res p f) \<in>
      {?r, if err = None \<and> tr_sn_ordering rtp = SnContiguous then packet_dropped m p else m}"
    by (auto simp: not_selected_def Let_def same u split: if_splits prod.splits)
  show ?thesis
  proof (cases err)
    case (Some x)
    then show ?thesis using cases update_refused [OF ok u [unfolded Some]] ok by (auto simp: outcome_ok_def numbering_kept_def)
  next
    case None
    note sent = update_sent [OF ok u [unfolded None]]
    consider "tr_sn_ordering rtp = SnContiguous" | "tr_sn_ordering rtp = SnOutOfOrder" | "tr_sn_ordering rtp = SnGap"
      using update_ordering [OF ok(1,3) u [unfolded None]] by blast
    then show ?thesis
      using cases None sent take_back [OF ok u [unfolded None]] ok by cases (auto simp: outcome_ok_def)
  qed
qed

text \<open>The outcome of a whole packet: as of its parts, or the pause before a downgrade.\<close>

definition whole_outcome :: "('mi, 'mb) forwarder_dd \<Rightarrow> dd_packet \<Rightarrow> ('mi, 'mb) forwarder_dd \<Rightarrow> translation_params \<Rightarrow> forward_err option \<Rightarrow> bool" where
  "whole_outcome f p f' tp e \<longleftrightarrow> outcome_ok (fw_rtp_munger f) p (fw_rtp_munger f') tp e \<or>
     tp_should_drop tp \<and> pausing_downgrade f' \<and> munger_ok (fw_rtp_munger f') \<and> in_step (fw_rtp_munger f')"

lemma nothing_sent: "munger_ok (fw_rtp_munger f) \<Longrightarrow> in_step (fw_rtp_munger f) \<Longrightarrow> whole_outcome f p f (dropped tp) e"
  by (simp add: whole_outcome_def outcome_ok_def)

lemma audio_outcome:
  assumes "munger_ok (fw_rtp_munger f)" "in_step (fw_rtp_munger f)" "ep_ext_sequence_number p < sn_limit"
    and "fw_last_ssrc f = rp_ssrc (ep_packet p)" "translation_audio env se p layer f = Some (f', tp, e)"
  shows "whole_outcome f p f' tp e"
proof -
  obtain tp1 starting where "translation_common env se p layer f translation_zero = Some (f', tp1, starting, e)"
    "tp = (if e \<noteq> None then dropped tp1 else tp1)\<lparr>tp_is_starting := starting\<rparr>"
    using assms(5) by (auto simp: translation_audio_def bind_eq_Some_conv)
  with common_outcome [OF assms(1-4) _ this(1)] show ?thesis by (auto simp: whole_outcome_def outcome_ok_def translation_zero_def)
qed

lemma video_outcome:
  assumes "munger_ok (fw_rtp_munger f)" "in_step (fw_rtp_munger f)" "ep_ext_sequence_number p < sn_limit"
    and "fw_last_ssrc f = rp_ssrc (ep_packet p)" "translation_video env se p layer f = Some (f', tp, e)"
  shows "whole_outcome f p f' tp e"
proof (cases "vl_is_valid (bs_target (fw_base f))")
  case True
  then obtain v res where sel: "vls_select (fw_vls f) p layer = Some (v, res)"
    using assms(5) by (auto simp: translation_video_def bind_eq_Some_conv)
  let ?f = "f\<lparr>fw_vls := v\<rparr>"
  have ok: "munger_ok (fw_rtp_munger ?f)" "in_step (fw_rtp_munger ?f)" "fw_last_ssrc ?f = rp_ssrc (ep_packet p)"
    using assms(1,2,4) by simp_all
  show ?thesis
  proof (cases "vr_is_selected res")
    case no: False
    then have "f' = not_selected res p ?f" "tp = dropped translation_zero"
      using assms(5) True sel by (auto simp: translation_video_def)
    with not_selected_outcome [OF ok(1,2) assms(3)] show ?thesis by (auto simp: whole_outcome_def)
  next
    case yes: True
    obtain f2 tp1 starting e1 where c: "translation_common env se p layer ?f (translation_zero\<lparr>tp_is_resuming := vr_is_resuming res,
        tp_is_switching := vr_is_switching res, tp_dd_bytes := vr_dd_extension res, tp_marker := vr_rtp_marker res\<rparr>) = Some (f2, tp1, starting, e1)"
      and o': "(f', tp, e) = (if tp_should_drop tp1 then (f2, tp1\<lparr>tp_is_starting := starting\<rparr>, e1)
        else if pausing_downgrade f2 then (f2, dropped (tp1\<lparr>tp_is_starting := starting\<rparr>), None)
        else (f2, tp1\<lparr>tp_is_starting := starting\<rparr>, None))"
      using assms(5) True sel yes by (auto simp: translation_video_def bind_eq_Some_conv Let_def split: if_splits)
    have "outcome_ok (fw_rtp_munger f) p (fw_rtp_munger f2) tp1 e1"
      using common_outcome [OF ok(1,2) assms(3) ok(3) _ c] by (simp add: translation_zero_def)
    with o' show ?thesis by (auto simp: whole_outcome_def outcome_ok_def split: if_splits)
  qed
next
  case False
  then show ?thesis using assms(5) nothing_sent [OF assms(1,2)] by (auto simp: translation_video_def)
qed

text \<open>
  C4. The numbers of a stream whose source stays the same.  A packet that is sent gets the next
  outgoing number if it is the next incoming one, a number as much later as packets are missing before
  it, and the place that was left for it if it is late.  A packet that is dropped, by the layer
  selector, the RTP munger or the codec munger, does not use up a number: the next packet gets the
  number that it would have got.  The exceptions are packets that come after a gap, packets whose
  codec header gives an error, and the pause before a downgrade.
\<close>

theorem dropped_leave_no_hole:
  assumes "munger_ok (fw_rtp_munger f)" "in_step (fw_rtp_munger f)" "ep_ext_sequence_number p < sn_limit"
    and "fw_last_ssrc f = rp_ssrc (ep_packet p)" "get_translation_params env se p layer f = Some (f', tp, e)"
  shows "munger_ok (fw_rtp_munger f') \<and> in_step (fw_rtp_munger f') \<and>
    (if tp_should_drop tp
     then rg_next (fw_rtp_munger f') = rg_next (fw_rtp_munger f) \<or>
       rg_ext_highest_incoming_sn (fw_rtp_munger f) + 1 < ep_ext_sequence_number p \<or> e \<noteq> None \<or> pausing_downgrade f'
     else sent_with (fw_rtp_munger f) (fw_rtp_munger f') (ep_ext_sequence_number p) (tr_ext_sequence_number (tp_rtp tp)))"
proof -
  have "whole_outcome f p f' tp e"
    using assms(5) nothing_sent [OF assms(1,2)] audio_outcome [OF assms(1-4)] video_outcome [OF assms(1-4)]
    by (auto simp: get_translation_params_def split: if_splits codec_kind.splits)
  then show ?thesis unfolding whole_outcome_def outcome_ok_def by (metis (full_types))
qed

definition example_packet_at :: "u64 \<Rightarrow> dd_packet" where
  "example_packet_at sn = ext_packet_zero\<lparr>ep_ext_sequence_number := sn, ep_ext_timestamp := 1000000,
     ep_packet := rtp_packet_zero\<lparr>rp_ssrc := 7, rp_payload := [1]\<rparr>\<rparr>"

lemma example_gap_sent:
  "map_option (\<lambda>(f', tp, e). tp_should_drop tp)
    (get_translation_params env_alist example_surroundings (example_packet_at 1003) 0 example_forwarder) = Some False"
  by code_simp

theorem dropped_leave_no_hole_witness:
  "\<exists>f' tp e. get_translation_params env_alist example_surroundings (example_packet_at 1003) 0 example_forwarder = Some (f', tp, e) \<and>
    munger_ok (fw_rtp_munger f') \<and> tr_ext_sequence_number (tp_rtp tp) = 1003 \<and> rg_next (fw_rtp_munger f') = 1004"
proof -
  obtain f' tp e where r: "get_translation_params env_alist example_surroundings (example_packet_at 1003) 0 example_forwarder = Some (f', tp, e)"
    "\<not> tp_should_drop tp"
    using example_gap_sent by auto
  let ?m = "mg_example\<lparr>rg_ext_last_ts := 4295967296\<rparr>"
  have m: "fw_rtp_munger example_forwarder = ?m" "munger_ok ?m" "in_step ?m"
    using mg_example_ok by (simp_all add: example_forwarder_def munger_ok_def in_step_def rg_next_def)
  have "rg_ext_highest_incoming_sn ?m = 1000" "rg_next ?m = 1001" by (simp_all add: mg_eval rg_next_def)
  moreover have "munger_ok (fw_rtp_munger example_forwarder)" "in_step (fw_rtp_munger example_forwarder)" using m by simp_all
  moreover have "ep_ext_sequence_number (example_packet_at 1003) < sn_limit" by (simp add: example_packet_at_def sn_limit_def)
  moreover have "fw_last_ssrc example_forwarder = rp_ssrc (ep_packet (example_packet_at 1003))"
    by (simp add: example_forwarder_def example_packet_at_def)
  ultimately show ?thesis
    using dropped_leave_no_hole [of example_forwarder "example_packet_at 1003", OF _ _ _ _ r(1)] r m(1)
    by (simp add: sent_with_def example_packet_at_def)
qed

text \<open>
  The pause before a downgrade: the stream is deficient, its target is layer 0 and it is still at
  layer 1.  The packet of layer 1 is dropped after it has been given its number, and the next one is
  sent with the number after that.
\<close>

lemma downgrade_pause_leaves_hole:
  "map_option (\<lambda>(f', tp, e). (tp_should_drop tp, rg_next (fw_rtp_munger example_forwarder), rg_next (fw_rtp_munger f')))
    (get_translation_params env_alist example_surroundings (example_packet_at 1001) 1
      (example_forwarder\<lparr>fw_last_allocation := video_allocation_default\<lparr>va_is_deficient := True\<rparr>,
         fw_vls := VlsSimulcast (new_base\<lparr>bs_max := VideoLayer 2 3, bs_max_seen := VideoLayer 2 3, bs_target := VideoLayer 0 3,
           bs_current := VideoLayer 1 3\<rparr>)\<rparr>)) = Some (True, 1001, 1002)"
  by code_simp

section \<open>Every run returns\<close>

text \<open>
  The invariant of the forwarder: that of the munger, of the selector and of the codec munger, which
  has seen at most \<open>n\<close> packets; there is a place for the report of each layer.
\<close>

fun vls_inner_ok :: "dd_selector vls \<Rightarrow> bool" where
  "vls_inner_ok (VlsDD b d) \<longleftrightarrow> ds_ok d \<and> targets_in_table d"
| "vls_inner_ok _ \<longleftrightarrow> True"

definition vls_ok :: "dd_selector vls \<Rightarrow> bool" where
  "vls_ok v \<longleftrightarrow> base_ok (vls_base v) \<and> vls_inner_ok v"

fun cm_ok :: "('mi, 'mb) vm_env \<Rightarrow> nat \<Rightarrow> ('mi, 'mb) codec_munger \<Rightarrow> bool" where
  "cm_ok env n (CmNull seed) = True"
| "cm_ok env n (CmVP8 v) = vm_safe env n v"

text \<open>A provisional allocation is inside the tables; it is there if one has been prepared.\<close>

definition prepared_ok :: "bool \<Rightarrow> provisional option \<Rightarrow> bool" where
  "prepared_ok prepared p \<longleftrightarrow> (case p of None \<Rightarrow> \<not> prepared | Some p \<Rightarrow> provisional_ok p)"

definition forwarder_ok :: "('mi, 'mb) vm_env \<Rightarrow> bool \<Rightarrow> nat \<Rightarrow> ('mi, 'mb) forwarder_dd \<Rightarrow> bool" where
  "forwarder_ok env prepared n f \<longleftrightarrow> munger_ok (fw_rtp_munger f) \<and> vls_ok (fw_vls f) \<and> cm_ok env n (fw_codec_munger f) \<and>
     prepared_ok prepared (fw_provisional f) \<and> length (fw_ref_infos f) = 3 \<and> fw_reference_layer_spatial f \<le> 2"

text \<open>
  A packet as the receiver hands it over: with the numbers and the payload of the buffer, a
  descriptor of the parser, and one of the three spatial and four temporal layers
  (\<open>forwardRTP\<close> drops the packets of other spatial layers).
\<close>

definition packet_ok :: "dd_packet \<Rightarrow> int \<Rightarrow> bool" where
  "packet_ok p layer \<longleftrightarrow> 0 < ep_ext_sequence_number p \<and> ep_ext_sequence_number p < sn_limit \<and> parsed p \<and>
     (case ep_dependency_descriptor p of None \<Rightarrow> True | Some x \<Rightarrow> ed_ok x) \<and> packet_targets_ok p \<and> packet_layers_ok p layer"

lemma vls_inner_map [simp]: "vls_inner_ok (vls_map_base g v) = vls_inner_ok v"
  by (cases v) simp_all

lemma vls_map_ok: "vls_ok v \<Longrightarrow> base_ok (g (vls_base v)) \<Longrightarrow> vls_ok (vls_map_base g v)"
  by (simp add: vls_ok_def)

lemma vls_ok_base: "vls_ok v \<Longrightarrow> base_ok (vls_base v)"
  by (simp add: vls_ok_def)

lemma on_dd_base: "ds_ok (d\<lparr>ds_base := b\<rparr>) = ds_ok d" "targets_in_table (d\<lparr>ds_base := b\<rparr>) = targets_in_table d"
  by (simp_all add: ds_ok_irrelevant targets_in_table_def)

lemma select_returns:
  assumes "vls_ok v" "packet_ok p layer"
  shows "\<exists>v' res. vls_select v p layer = Some (v', res) \<and> vls_ok v'"
proof (cases v)
  case (VlsDD b d)
  have d: "ds_ok (d\<lparr>ds_base := b\<rparr>)" "targets_in_table (d\<lparr>ds_base := b\<rparr>)" "base_ok (ds_base (d\<lparr>ds_base := b\<rparr>))"
    using assms(1) VlsDD by (simp_all add: vls_ok_def on_dd_base)
  have "ed_ok x" if "ep_dependency_descriptor p = Some x" for x using assms(2) that by (simp add: packet_ok_def)
  then obtain s res where s: "ds_select p (d\<lparr>ds_base := b\<rparr>) = Some (s, res)" "ds_ok s" using ds_select_ok [OF d(1), of p] by metis
  have "keeps_layers (d\<lparr>ds_base := b\<rparr>) s" by (rule select_keeps [OF s(1)]) (use assms(2) in \<open>simp add: packet_ok_def\<close>)
  then have "base_ok (ds_base s)" "targets_in_table s" using d(2,3) by (simp_all add: keeps_layers_def)
  then show ?thesis using s by (simp add: VlsDD dd_vls_def vls_ok_def)
next
  case (VlsSimulcast b)
  then show ?thesis using assms simulcast_layers [of b p layer] by (auto simp: vls_ok_def packet_ok_def case_prod_beta)
next
  case (VlsVP9 b)
  then show ?thesis using assms vp9_layers_ok [of b p layer] by (auto simp: vls_ok_def packet_ok_def case_prod_beta)
qed (use assms(1) in simp)

lemma rollback_ok: "vls_ok v \<Longrightarrow> vls_ok (vls_rollback v)"
  by (cases v) (simp_all add: vls_ok_def dd_vls_def ds_rollback_def ds_ok_irrelevant on_dd_base targets_in_table_def base_settings)

lemma vm_safe_mono: "vm_safe env n v \<Longrightarrow> n \<le> n' \<Longrightarrow> vm_safe env n' v"
  by (auto simp: vm_safe_def wh_sane_def intro: order_trans)

lemma cm_ok_mono: "cm_ok env n cm \<Longrightarrow> n \<le> n' \<Longrightarrow> cm_ok env n' cm"
  by (cases cm) (auto intro: vm_safe_mono)

lemma new_vp8_ok:
  assumes "env_lawful env ii ib"
  shows "vm_safe env n (new_vp8_munger env)"
proof -
  have "om_len (ve_int env) (om_new (ve_int env)) = 0" "om_len (ve_bool env) (om_new (ve_bool env)) = 0"
    by (rule ordered_map.len_new [OF env_maps(1) [OF assms]], rule ordered_map.len_new [OF env_maps(2) [OF assms]])
  then show ?thesis
    by (simp add: vm_safe_def vm_bounded_def new_vp8_munger_def wh_sane_def wrap_handler_zero_def
        missing_picture_ids_threshold_def dropped_picture_ids_threshold_def exempted_picture_ids_threshold_def)
qed

lemma cm_ops_ok:
  assumes env: "env_lawful env ii ib" and ok: "cm_ok env n cm"
  shows "cm_ok env n (cm_set_last cm p)" "cm_ok env n (cm_update_offsets env cm p)" "cm_ok env n (CmVP8 (new_vp8_from_other env cm))"
    "\<exists>cm' r. cm_update_and_get_padding cm b = Some (cm', r) \<and> cm_ok env n cm'"
proof -
  have new: "om_len (ve_int env) (om_new (ve_int env)) = 0" "om_len (ve_bool env) (om_new (ve_bool env)) = 0"
    by (rule ordered_map.len_new [OF env_maps(1) [OF env]], rule ordered_map.len_new [OF env_maps(2) [OF env]])
  show "cm_ok env n (cm_set_last cm p)"
    using ok by (cases cm) (auto simp: vm_set_last_def vm_safe_def vm_bounded_def wh_sane_def wh_init_def Let_def uint_minus_one split: payload.splits)
  show "cm_ok env n (cm_update_offsets env cm p)"
    using ok by (cases cm) (auto simp: vm_update_offsets_def vm_safe_def vm_bounded_def wh_sane_def wh_init_def Let_def new uint_minus_one
        missing_picture_ids_threshold_def dropped_picture_ids_threshold_def exempted_picture_ids_threshold_def split: payload.splits)
  have seed: "vm_safe env n (vm_seed_state (new_vp8_munger env) st)" for st
    using new_vp8_ok [OF env, of n] by (cases st) (auto simp: vm_seed_state_def vm_safe_def vm_bounded_def)
  then show "cm_ok env n (CmVP8 (new_vp8_from_other env cm))" by (cases cm) simp_all
  show "\<exists>cm' r. cm_update_and_get_padding cm b = Some (cm', r) \<and> cm_ok env n cm'"
  proof (cases cm)
    case (CmVP8 v)
    with padding_total [of v b] ok show ?thesis by (auto simp: vm_safe_def vm_bounded_def)
  qed simp
qed

lemma codec_returns:
  assumes "env_lawful env ii ib" "cm_ok env n cm" "n \<le> 32000" "parsed p"
  shows "\<exists>cm' r. cm_update_and_get env cm p ooo gap tlayer = Some (cm', r) \<and> cm_ok env (Suc n) cm'"
proof (cases cm)
  case (CmVP8 v)
  then show ?thesis using packet_safe [OF assms(1) _ assms(3,4), of v ooo gap tlayer] assms(2) by auto
qed simp

text \<open>A source switch.\<close>

lemma ref_timestamp_returns:
  assumes "length (fw_ref_infos f) = 3" "ref \<le> 2" "layer \<le> 2"
  shows "\<exists>r. get_ref_layer_rtp_timestamp ts ref layer f = Some r"
  using assms by (auto simp: get_ref_layer_rtp_timestamp_def Let_def)

lemma switch_returns:
  assumes env: "env_lawful env ii ib" and ok: "forwarder_ok env pre n f" and p: "packet_ok p layer" and layer: "layer \<le> 2"
  shows "\<exists>f' starting e. process_source_switch env se p layer f = Some (f', starting, e) \<and> forwarder_ok env pre n f'"
proof -
  note parts = ok [unfolded forwarder_ok_def]
  have sn: "0 < ep_ext_sequence_number p" "ep_ext_sequence_number p < sn_limit" using p by (simp_all add: packet_ok_def)
  note cm = cm_ops_ok(1) [OF env, where n = n and cm = "fw_codec_munger f" and p = p]
  show ?thesis
  proof (cases "fw_started f")
    case False
    then show ?thesis using parts cm reset_munger(1) [OF _ sn] layer
      by (auto simp: process_source_switch_def forwarder_ok_def)
  next
    case started: True
    define f1 where "f1 = (if fw_reference_layer_spatial f = invalid_layer_spatial
      then f\<lparr>fw_reference_layer_spatial := layer, fw_codec_munger := cm_set_last (fw_codec_munger f) p\<rparr> else f)"
    have ok1: "forwarder_ok env pre n f1" using parts cm layer by (simp add: f1_def forwarder_ok_def)
    note parts1 = ok1 [unfolded forwarder_ok_def]
    obtain ref where ref: "(if fw_skip_reference_ts f1 then Some (Inr (ucast (rg_ext_last_ts (fw_rtp_munger f1))))
        else get_ref_layer_rtp_timestamp (rp_timestamp (ep_packet p)) (fw_reference_layer_spatial f1) layer f1) = Some ref"
      using ref_timestamp_returns [of f1 "fw_reference_layer_spatial f1" layer] parts1 layer by (cases "fw_skip_reference_ts f1") auto
    show ?thesis
    proof (cases "fw_reference_layer_spatial f = invalid_layer_spatial \<and> ep_is_out_of_order p")
      case True
      then have "process_source_switch env se p layer f = Some (f, False, Some (ErrOf ErrSkipStartOnOutOfOrderPacket))"
        using started by (simp add: process_source_switch_def)
      then show ?thesis using ok by blast
    next
      case go: False
      let ?st = "fw_reference_layer_spatial f = invalid_layer_spatial"
      have run: "process_source_switch env se p layer f = Some (case ref of
          Inl e \<Rightarrow> (f1, ?st, Some e)
        | Inr ref_ts \<Rightarrow>
            (case switch_reference se ref_ts f1 of (f2, ext_ref, expected) \<Rightarrow>
               (case switch_timestamp ext_ref expected f2 of
                  Inl e \<Rightarrow> (f2, ?st, Some e)
                | Inr ts \<Rightarrow>
                    let f3 = (if fw_last_ssrc f2 = 0 then f2\<lparr>fw_resume_behind_threshold := 0\<rparr> else f2)
                    in (f3\<lparr>fw_rtp_munger := update_sn_ts_offsets (fw_rtp_munger f3) p 1 (ts - rg_ext_last_ts (fw_rtp_munger f1)),
                           fw_codec_munger := cm_update_offsets env (fw_codec_munger f3) p\<rparr>, ?st, None))))"
        unfolding process_source_switch_def Let_def f1_def [symmetric] ref bind.simps
        by (simp only: started go if_False not_True_eq_False simp_thms)
      show ?thesis
      proof (cases ref)
        case (Inl e)
        then show ?thesis using ok1 unfolding run by auto
      next
        case (Inr ref_ts)
        obtain f2 a b where r: "switch_reference se ref_ts f1 = (f2, a, b)" by (metis prod_cases3)
        obtain d where f2: "f2 = f1\<lparr>fw_dummy_start_ts_offset := d\<rparr>" using switch_reference_effect [OF r] by blast
        have ok2: "forwarder_ok env pre n f2" using ok1 by (simp add: f2 forwarder_ok_def)
        have ok3: "forwarder_ok env pre n (g\<lparr>fw_rtp_munger := update_sn_ts_offsets (fw_rtp_munger g) p 1 adj,
            fw_codec_munger := cm_update_offsets env (fw_codec_munger g) p\<rparr>)"
          if "g = f2 \<or> g = f2\<lparr>fw_resume_behind_threshold := 0\<rparr>" for g adj
          using ok2 that reset_munger(2) [OF _ sn] cm_ops_ok(2) [OF env] by (auto simp: forwarder_ok_def)
        show ?thesis unfolding run Inr
          using r ok2 ok3 by (cases "switch_timestamp a b f2") (auto simp: Let_def)
      qed
    qed
  qed
qed

text \<open>A packet.\<close>

lemma update_munger_ok:
  assumes "munger_ok r" "ep_ext_sequence_number p < sn_limit" "update_and_get_sn_ts r p marker = (r', tp, e)"
  shows "munger_ok r'" "e = None \<Longrightarrow> tr_sn_ordering tp = SnContiguous \<Longrightarrow> munger_ok (packet_dropped r' p)"
proof -
  show "munger_ok r'" by (cases rule: update_cases [OF assms]) (use assms(1) in simp_all)
  assume c: "e = None" "tr_sn_ordering tp = SnContiguous"
  show "munger_ok (packet_dropped r' p)"
  proof (cases rule: update_cases [OF assms])
    case 1
    then have "ep_ext_sequence_number p = rg_ext_highest_incoming_sn r + 1" using c by (simp split: if_splits)
    then show ?thesis using drop_step [of r' p] 1 by simp
  qed (use c in simp_all)
qed

lemma header_returns:
  assumes env: "env_lawful env ii ib" and ok: "forwarder_ok env pre n f" and p: "packet_ok p layer" and n: "n \<le> 32000"
    and drop: "tr_sn_ordering (tp_rtp tp) = SnContiguous \<Longrightarrow> munger_ok (packet_dropped (fw_rtp_munger f) p)"
      "tr_sn_ordering (tp_rtp tp) \<noteq> SnDuplicate"
  shows "\<exists>f' tp' e. translate_codec_header env p f tp = Some (f', tp', e) \<and> forwarder_ok env pre (Suc n) f'"
proof -
  note parts = ok [unfolded forwarder_ok_def]
  have v: "vls_ok (fst (vls_select_temporal (fw_vls f) p))"
    using parts vls_map_ok [of "fw_vls f" "\<lambda>b. fst (bs_select_temporal b p)"] temporal_layers [OF vls_ok_base, of "fw_vls f" p]
    by (simp add: vls_select_temporal_def)
  obtain cm r where c: "cm_update_and_get env (fw_codec_munger f) p (tr_sn_ordering (tp_rtp tp) = SnOutOfOrder)
      (tr_sn_ordering (tp_rtp tp) = SnGap) (snd (vls_select_temporal (fw_vls f) p)) = Some (cm, r)" "cm_ok env (Suc n) cm"
    using codec_returns [OF env _ n] parts p unfolding packet_ok_def by metis
  have "munger_ok (packet_dropped (fw_rtp_munger f) p)" if "r = Inl ErrFilteredVP8TemporalLayer"
    using filtered_contiguous [OF c(1) [unfolded that]] drop by (cases "tr_sn_ordering (tp_rtp tp)") auto
  then show ?thesis using c v parts
    by (cases r) (auto simp: translate_codec_header_def Let_def forwarder_ok_def split: prod.splits)
qed

lemma common_returns:
  assumes env: "env_lawful env ii ib" and ok: "forwarder_ok env pre n f" and p: "packet_ok p layer" and n: "n \<le> 32000" and layer: "layer \<le> 2"
  shows "\<exists>f' tp' starting e. translation_common env se p layer f tp = Some (f', tp', starting, e) \<and> forwarder_ok env pre (Suc n) f'"
proof -
  let ?ssrc = "rp_ssrc (ep_packet p)"
  let ?first = "if fw_last_ssrc f \<noteq> ?ssrc then process_source_switch env se p layer f else Some (f, False, None)"
  obtain f1 starting err where f1: "?first = Some (f1, starting, err)" "forwarder_ok env pre n f1"
    using switch_returns [OF env ok p layer, of se] ok by (cases "fw_last_ssrc f = ?ssrc") auto
  have mono: "forwarder_ok env pre n g \<Longrightarrow> forwarder_ok env pre (Suc n) g" for g by (auto simp: forwarder_ok_def intro: cm_ok_mono)
  show ?thesis
  proof (cases err)
    case (Some x)
    have "translation_common env se p layer f tp = Some (f1\<lparr>fw_vls := vls_rollback (fw_vls f1)\<rparr>, dropped tp, starting, None)"
      unfolding translation_common_def Let_def f1(1) bind.simps prod.case Some by simp
    moreover have "forwarder_ok env pre n (f1\<lparr>fw_vls := vls_rollback (fw_vls f1)\<rparr>)" using f1(2) by (simp add: forwarder_ok_def rollback_ok)
    ultimately show ?thesis using mono by blast
  next
    case None
    define f2 where "f2 = (if fw_last_ssrc f \<noteq> ?ssrc then f1\<lparr>fw_last_ssrc := ?ssrc, fw_last_reference_payload_type := sint (rp_payload_type (ep_packet p)),
      fw_last_switch_ext_incoming_ts := ep_ext_timestamp p\<rparr> else f1)"
    have ok2: "forwarder_ok env pre n f2" using f1(2) by (simp add: f2_def forwarder_ok_def)
    obtain m rtp e where u: "update_and_get_sn_ts (fw_rtp_munger f2) p (tp_marker tp) = (m, rtp, e)" by (metis prod_cases3)
    have sn: "ep_ext_sequence_number p < sn_limit" using p by (simp add: packet_ok_def)
    have m: "munger_ok (fw_rtp_munger f2)" using ok2 by (simp add: forwarder_ok_def)
    note um = update_munger_ok [OF m sn u]
    let ?f3 = "f2\<lparr>fw_rtp_munger := m\<rparr>"
    have ok3: "forwarder_ok env pre n ?f3" using ok2 um(1) by (simp add: forwarder_ok_def)
    have run: "translation_common env se p layer f tp = (case e of
        Some e' \<Rightarrow> Some (?f3, dropped tp, starting,
          if e' \<in> {ErrPaddingOnlyPacket, ErrDuplicatePacket, ErrOutOfOrderSequenceNumberCacheMiss} then None else Some (ErrOf e'))
      | None \<Rightarrow> if ep_has_payload p
          then map_option (\<lambda>(f4, tp', e'). (f4, tp', starting, e')) (translate_codec_header env p ?f3 (tp\<lparr>tp_rtp := rtp\<rparr>))
          else Some (?f3, tp\<lparr>tp_rtp := rtp\<rparr>, starting, None))"
      unfolding translation_common_def Let_def f1(1) bind.simps prod.case None f2_def [symmetric] u by simp
    have "\<exists>f' tp' e'. translate_codec_header env p ?f3 (tp\<lparr>tp_rtp := rtp\<rparr>) = Some (f', tp', e') \<and> forwarder_ok env pre (Suc n) f'" if "e = None"
    proof (rule header_returns [OF env ok3 p n])
      show "tr_sn_ordering (tp_rtp (tp\<lparr>tp_rtp := rtp\<rparr>)) \<noteq> SnDuplicate"
        by (cases rule: update_cases [OF m sn u]) (use that in \<open>simp_all split: if_splits\<close>)
    qed (use um(2) that in simp)
    then show ?thesis using mono [OF ok3] unfolding run by (cases e) auto
  qed
qed

lemma dd_off_ok:
  assumes "forwarder_ok env pre n f"
  shows "forwarder_ok env pre n (dd_turned_off f)" "fw_rtp_munger (dd_turned_off f) = fw_rtp_munger f"
  using assms by (auto simp: forwarder_ok_def vls_ok_def dd_turned_off_def new_vp9_from_other_def new_simulcast_from_other_def split: mime_type.split)

lemma not_selected_ok:
  assumes "forwarder_ok env pre n f" "ep_ext_sequence_number p < sn_limit"
  shows "forwarder_ok env pre n (not_selected res p f)"
proof -
  define g where "g = (if fw_is_dd_available f \<and> ep_dependency_descriptor p = None then dd_turned_off f else f)"
  have g: "forwarder_ok env pre n g" using assms(1) dd_off_ok(1) [OF assms(1)] by (simp add: g_def)
  have m: "munger_ok (fw_rtp_munger g)" using g by (simp add: forwarder_ok_def)
  obtain m' rtp e where u: "update_and_get_sn_ts (fw_rtp_munger g) p (vr_rtp_marker res) = (m', rtp, e)" by (metis prod_cases3)
  have "not_selected res p f = (if fw_started g \<and> vr_is_relevant res
      then g\<lparr>fw_rtp_munger := (if e = None \<and> tr_sn_ordering rtp = SnContiguous then packet_dropped m' p else m')\<rparr> else g)"
    unfolding not_selected_def g_def [symmetric] Let_def u by simp
  then show ?thesis using g update_munger_ok [OF m assms(2) u] by (auto simp: forwarder_ok_def)
qed

lemma params_return:
  assumes env: "env_lawful env ii ib" and ok: "forwarder_ok env pre n f" and p: "packet_ok p layer" and n: "n \<le> 32000" and layer: "layer \<le> 2"
  shows "\<exists>f' tp e. get_translation_params env se p layer f = Some (f', tp, e) \<and> forwarder_ok env pre (Suc n) f'"
proof -
  have mono: "forwarder_ok env pre n g \<Longrightarrow> forwarder_ok env pre (Suc n) g" for g by (auto simp: forwarder_ok_def intro: cm_ok_mono)
  have audio: "\<exists>f' tp e. translation_audio env se p layer f = Some (f', tp, e) \<and> forwarder_ok env pre (Suc n) f'"
    using common_returns [OF env ok p n layer, of se translation_zero] by (auto simp: translation_audio_def)
  have sn: "ep_ext_sequence_number p < sn_limit" using p by (simp add: packet_ok_def)
  have "\<exists>f' tp e. translation_video env se p layer f = Some (f', tp, e) \<and> forwarder_ok env pre (Suc n) f'"
  proof (cases "vl_is_valid (bs_target (fw_base f))")
    case True
    have m: "munger_ok (fw_rtp_munger f)" using ok by (simp add: forwarder_ok_def)
    obtain v res where sel: "vls_select (fw_vls f) p layer = Some (v, res)" "vls_ok v"
      using select_returns [of "fw_vls f" p layer] ok p by (auto simp: forwarder_ok_def)
    have ok1: "forwarder_ok env pre n (f\<lparr>fw_vls := v\<rparr>)" using ok sel by (simp add: forwarder_ok_def)
    show ?thesis
    proof (cases "vr_is_selected res")
      case yes: True
      show ?thesis
        using common_returns [OF env ok1 p n layer, of se "translation_zero\<lparr>tp_is_resuming := vr_is_resuming res,
            tp_is_switching := vr_is_switching res, tp_dd_bytes := vr_dd_extension res, tp_marker := vr_rtp_marker res\<rparr>"] True sel yes
        by (auto simp: translation_video_def Let_def)
    next
      case no: False
      have "forwarder_ok env pre n (not_selected res p (f\<lparr>fw_vls := v\<rparr>))"
        by (rule not_selected_ok [OF ok1 sn])
      then show ?thesis using True sel no mono by (simp add: translation_video_def)
    qed
  next
    case False
    then show ?thesis using mono [OF ok] by (simp add: translation_video_def)
  qed
  then show ?thesis using audio mono [OF ok] by (auto simp: get_translation_params_def split: codec_kind.splits)
qed

text \<open>What is asked about the allocation, and what changes it.\<close>

datatype allocation_op =
    AoOptimal "int list" bitrates bool bool
  | AoPause "int list" bitrates
  | AoPrepare "int list" bitrates
  | AoReset
  | AoAllocate int video_layer bool bool
  | AoCooperative bool
  | AoBestWeighted
  | AoCommit
  | AoNextHigher int "int list" bitrates bool
  | AoNextTransition bitrates bool
  | AoMaxSpatial int
  | AoBandwidthRequested bitrates
  | AoDistance "int list" bitrates
  | AoBandwidthNeeded bitrates

fun allocation_step :: "('mi, 'mb, 'd) forwarder \<Rightarrow> allocation_op \<Rightarrow> ('mi, 'mb, 'd) forwarder option" where
  "allocation_step f (AoOptimal available brs allow hold) = map_option fst (allocate_optimal f available brs allow hold)"
| "allocation_step f (AoPause available brs) = map_option fst (fw_pause f available brs)"
| "allocation_step f (AoPrepare available brs) = Some (provisional_prepare available brs f)"
| "allocation_step f AoReset = provisional_reset f"
| "allocation_step f (AoAllocate capacity l allow_pause allow) = map_option fst (provisional_allocate capacity l allow_pause allow f)"
| "allocation_step f (AoCooperative allow) = map_option fst (cooperative_transition allow f)"
| "allocation_step f AoBestWeighted = map_option fst (best_weighted_transition f)"
| "allocation_step f AoCommit = map_option fst (provisional_commit f)"
| "allocation_step f (AoNextHigher capacity available brs allow) = map_option fst (allocate_next_higher capacity available brs allow f)"
| "allocation_step f (AoNextTransition brs allow) = map_option (\<lambda>_. f) (get_next_higher_transition brs allow f)"
| "allocation_step f (AoMaxSpatial l) = map_option fst (set_max_spatial_layer l f)"
| "allocation_step f (AoBandwidthRequested brs) = map_option (\<lambda>_. f) (bandwidth_requested f brs)"
| "allocation_step f (AoDistance available brs) = map_option (\<lambda>_. f) (distance_to_desired f available brs)"
| "allocation_step f (AoBandwidthNeeded brs) = map_option (\<lambda>_. f) (optimal_bandwidth_needed f brs)"

text \<open>The layers that are handed in are those of the tables.\<close>

fun allocation_admissible :: "allocation_op \<Rightarrow> bool" where
  "allocation_admissible (AoOptimal available brs allow hold) \<longleftrightarrow> available_ok available"
| "allocation_admissible (AoPause available brs) \<longleftrightarrow> available_ok available"
| "allocation_admissible (AoPrepare available brs) \<longleftrightarrow> available_ok available"
| "allocation_admissible (AoAllocate capacity l allow_pause allow) \<longleftrightarrow> in_grid l"
| "allocation_admissible (AoNextHigher capacity available brs allow) \<longleftrightarrow> available_ok available"
| "allocation_admissible (AoMaxSpatial l) \<longleftrightarrow> - 1 \<le> l \<and> l \<le> 2"
| "allocation_admissible (AoDistance available brs) \<longleftrightarrow> available_ok available"
| "allocation_admissible _ \<longleftrightarrow> True"

text \<open>The calls on a provisional allocation come after one has been prepared.\<close>

definition needs_prepared :: "allocation_op \<Rightarrow> bool" where
  "needs_prepared a = (case a of AoReset \<Rightarrow> True | AoAllocate _ _ _ _ \<Rightarrow> True | AoCooperative _ \<Rightarrow> True | AoBestWeighted \<Rightarrow> True
     | AoCommit \<Rightarrow> True | _ \<Rightarrow> False)"

definition prepares :: "allocation_op \<Rightarrow> bool" where
  "prepares a = (case a of AoPrepare _ _ \<Rightarrow> True | _ \<Rightarrow> False)"

lemma allocates_step: "allocates f r \<Longrightarrow> \<exists>f'. map_option fst r = Some f' \<and> settles f f'"
  by (auto simp: allocates_def)

lemma allocation_returns:
  assumes ok: "alloc_ok f" and adm: "allocation_admissible a" and pre: "needs_prepared a \<Longrightarrow> fw_provisional f \<noteq> None"
  shows "\<exists>f'. allocation_step f a = Some f' \<and> settles f f' \<and> (prepares a \<longrightarrow> fw_provisional f' \<noteq> None)"
proof -
  note l = alloc_layers [OF ok] and same = settles_refl [OF ok]
  have p: "\<exists>p. fw_provisional f = Some p" if "needs_prepared a" using pre [OF that] by blast
  have step: "\<exists>f'. allocation_step f a = Some f' \<and> settles f f'"
  proof (cases a)
    case (AoPrepare available brs)
    then show ?thesis using prepare_settles [OF ok] adm by simp
  next
    case AoReset
    then obtain p where "fw_provisional f = Some p" using p by (auto simp: needs_prepared_def)
    with settles_allocated [OF ok this, of invalid_layer] AoReset show ?thesis by (simp add: provisional_reset_def)
  next
    case (AoAllocate capacity k allow_pause allow)
    then obtain p where "fw_provisional f = Some p" using p by (auto simp: needs_prepared_def)
    from allocates_step [OF provisional_allocate_returns [OF ok this]] AoAllocate adm show ?thesis by simp
  next
    case (AoCooperative allow)
    then obtain p where "fw_provisional f = Some p" using p by (auto simp: needs_prepared_def)
    from allocates_step [OF cooperative_returns [OF ok this]] AoCooperative show ?thesis by simp
  next
    case AoBestWeighted
    then obtain p where "fw_provisional f = Some p" using p by (auto simp: needs_prepared_def)
    from allocates_step [OF best_weighted_returns [OF ok this]] AoBestWeighted show ?thesis by simp
  next
    case AoCommit
    then obtain p where "fw_provisional f = Some p" using p by (auto simp: needs_prepared_def)
    from allocates_step [OF commit_returns [OF ok this]] AoCommit show ?thesis by simp
  next
    case (AoDistance available brs)
    then show ?thesis using distance_total [OF l(3,2), of available] adm same by (fastforce simp: distance_to_desired_def available_ok_def)
  qed (use adm allocates_step [OF optimal_returns [OF ok]] allocates_step [OF pause_returns [OF ok]] allocates_step [OF next_higher_returns [OF ok]]
      next_transition_returns [OF ok] allocates_step [OF max_spatial_returns [OF ok]] same
      in \<open>auto simp: bandwidth_requested_def optimal_bandwidth_needed_def bandwidth_needed [OF l(4)] optimal_bandwidth [OF l(2)]\<close>)
  show ?thesis
  proof (cases a)
    case (AoPrepare available brs)
    then show ?thesis using step by (auto simp: provisional_prepare_def)
  qed (use step in \<open>simp_all add: prepares_def\<close>)
qed

text \<open>
  What is called on a forwarder: packets, padding, allocations, and what changes its state from
  outside.  The questions that only read a field (\<open>GetState\<close>, \<open>FilterRTX\<close>, \<open>CheckSync\<close>, the layers)
  have nothing that could fail.
\<close>

datatype forwarder_op =
    FoPacket surroundings dd_packet int
  | FoPadding surroundings int u32 bool
  | FoBlankFrames surroundings u32 int
  | FoPaddingPayload bool
  | FoCodec mime_type u32 bool video_layer_mode
  | FoMute bool bool
  | FoPubMute bool
  | FoReport int sender_report
  | FoReportParams
  | FoAllocation allocation_op
  | FoMaxPublished int
  | FoMaxTemporalSeen int
  | FoMaxTemporal int
  | FoMaxSubscribed
  | FoSeed "forwarder_state option"
  | FoResync
  | FoRestart

fun forwarder_step :: "('mi, 'mb) vm_env \<Rightarrow> ('mi, 'mb) forwarder_dd \<Rightarrow> forwarder_op \<Rightarrow> ('mi, 'mb) forwarder_dd option" where
  "forwarder_step env f (FoPacket se p layer) = map_option fst (get_translation_params env se p layer f)"
| "forwarder_step env f (FoPadding se num frate force) = map_option fst (get_sn_ts_for_padding se num frate force f)"
| "forwarder_step env f (FoBlankFrames se frate num) = map_option fst (get_sn_ts_for_blank_frames se frate num f)"
| "forwarder_step env f (FoPaddingPayload frame_end) = map_option fst (get_padding frame_end f)"
| "forwarder_step env f (FoCodec mime clock_rate dd_available mode) =
     Some (determine_codec env new_dd_selector mime clock_rate dd_available mode f)"
| "forwarder_step env f (FoMute muted mutable) = Some (fst (fw_mute muted mutable f))"
| "forwarder_step env f (FoPubMute muted) = Some (fst (fw_pub_mute muted f))"
| "forwarder_step env f (FoReport layer sr) = set_ref_sender_report layer (Some sr) f"
| "forwarder_step env f FoReportParams = map_option (\<lambda>_. f) (get_sender_report_params f)"
| "forwarder_step env f (FoAllocation a) = allocation_step f a"
| "forwarder_step env f (FoMaxPublished l) = Some (fst (set_max_published_layer l f))"
| "forwarder_step env f (FoMaxTemporalSeen l) = Some (fst (set_max_temporal_layer_seen l f))"
| "forwarder_step env f (FoMaxTemporal l) = Some (fst (set_max_temporal_layer l f))"
| "forwarder_step env f FoMaxSubscribed = map_option (\<lambda>_. f) (get_max_subscribed_spatial f)"
| "forwarder_step env f (FoSeed st) = fw_seed_state st f"
| "forwarder_step env f FoResync = Some (resync_locked f)"
| "forwarder_step env f FoRestart = Some (fw_restart f)"

text \<open>
  Packets come from the receiver; \<open>rand.Intn(1<<14)\<close> is below that bound; a number of padding
  packets is not negative; layers are those of the tables; a state to start from is one of a
  forwarder, with at most three sender reports and a reference layer of the table.
\<close>

definition seed_ok :: "forwarder_state option \<Rightarrow> bool" where
  "seed_ok st \<longleftrightarrow> (case st of None \<Rightarrow> True | Some st \<Rightarrow> length (fs_sender_reports st) \<le> 3 \<and> fs_reference_layer_spatial st \<le> 2)"

fun op_admissible :: "forwarder_op \<Rightarrow> bool" where
  "op_admissible (FoPacket se p layer) \<longleftrightarrow> packet_ok p layer"
| "op_admissible (FoPadding se num frate force) \<longleftrightarrow> 0 \<le> num \<and> 0 \<le> se_random_sn se \<and> se_random_sn se < 16384"
| "op_admissible (FoBlankFrames se frate num) \<longleftrightarrow> 0 \<le> num \<and> 0 \<le> se_random_sn se \<and> se_random_sn se < 16384"
| "op_admissible (FoAllocation a) \<longleftrightarrow> allocation_admissible a"
| "op_admissible (FoMaxPublished l) \<longleftrightarrow> l \<le> 2"
| "op_admissible (FoMaxTemporalSeen l) \<longleftrightarrow> l \<le> 3"
| "op_admissible (FoMaxTemporal l) \<longleftrightarrow> - 1 \<le> l \<and> l \<le> 3"
| "op_admissible (FoSeed st) \<longleftrightarrow> seed_ok st"
| "op_admissible _ \<longleftrightarrow> True"

definition is_prepare :: "forwarder_op \<Rightarrow> bool" where
  "is_prepare a \<longleftrightarrow> (case a of FoAllocation b \<Rightarrow> prepares b | _ \<Rightarrow> False)"

fun prepared_first :: "bool \<Rightarrow> forwarder_op list \<Rightarrow> bool" where
  "prepared_first pre [] \<longleftrightarrow> True"
| "prepared_first pre (a # ops) \<longleftrightarrow> (case a of FoAllocation b \<Rightarrow> needs_prepared b \<longrightarrow> pre | _ \<Rightarrow> True) \<and>
     prepared_first (pre \<or> is_prepare a) ops"

lemma on_vls_ok: "forwarder_ok env pre n f \<Longrightarrow> base_ok (g (fw_base f)) \<Longrightarrow> forwarder_ok env pre n (on_vls g f)"
  by (simp add: forwarder_ok_def on_vls_def vls_map_ok)

lemma forwarder_base: "forwarder_ok env pre n f \<Longrightarrow> base_ok (fw_base f)"
  by (simp add: forwarder_ok_def vls_ok_base)

lemma resync_ok: "forwarder_ok env pre n f \<Longrightarrow> forwarder_ok env pre n (resync_locked f)"
  using on_vls_ok [of env pre n f "\<lambda>b. b\<lparr>bs_current := invalid_layer\<rparr>"] base_settings(6) [OF forwarder_base, of env pre n f invalid_layer]
  by (simp add: resync_locked_def forwarder_ok_def Let_def)

lemma set_target_ok: "forwarder_ok env pre n f \<Longrightarrow> layer_ok t \<Longrightarrow> forwarder_ok env pre n (set_target_layer t r f)"
  unfolding set_target_layer_def by (rule on_vls_ok) (simp_all add: base_settings forwarder_base)

lemma settles_ok:
  assumes ok: "forwarder_ok env pre n f" and s: "settles f f'"
  shows "forwarder_ok env pre n f'" "fw_provisional f' \<noteq> None \<Longrightarrow> forwarder_ok env True n f'"
proof -
  obtain g where g: "fw_vls f' = vls_map_base g (fw_vls f)" using s by (auto simp: settles_def)
  have "base_ok (fw_base f')" "vls_inner_ok (fw_vls f')" using s ok by (simp_all add: settles_def alloc_ok_def forwarder_ok_def vls_ok_def g)
  then have v: "vls_ok (fw_vls f')" by (simp add: vls_ok_def)
  have pv: "prepared_ok pre (fw_provisional f')" "fw_provisional f' \<noteq> None \<Longrightarrow> prepared_ok True (fw_provisional f')"
    using s ok by (auto simp: settles_def alloc_ok_def forwarder_ok_def prepared_ok_def split: option.splits)
  show "forwarder_ok env pre n f'" "fw_provisional f' \<noteq> None \<Longrightarrow> forwarder_ok env True n f'"
    using ok s v pv by (simp_all add: forwarder_ok_def settles_def)
qed

lemma codec_ok:
  assumes env: "env_lawful env ii ib" and ok: "forwarder_ok env pre n f"
  shows "forwarder_ok env pre n (determine_codec env new_dd_selector mime clock_rate dd_available mode f)"
proof -
  have b: "base_ok (fw_base f)" "targets_in_table new_dd_selector"
    using forwarder_base [OF ok] by (simp_all add: targets_in_table_def new_dd_selector_def new_dd_selector_from_other_def)
  have v: "vls_ok (selector_for new_dd_selector mime dd_available mode (fw_vls f))"
    using ok new_selector_ok b base_settings(8) [OF b(1)]
    by (auto simp: forwarder_ok_def vls_ok_def selector_for_def new_simulcast_from_other_def new_vp9_from_other_def split: mime_type.split)
  have c: "vm_safe env n (new_vp8_from_other env (fw_codec_munger f))"
    using cm_ops_ok(3) [OF env, of n "fw_codec_munger f"] ok by (simp add: forwarder_ok_def)
  show ?thesis using ok v c by (cases mime) (simp_all add: determine_codec_def Let_def forwarder_ok_def)
qed

lemma start_ok:
  assumes ok: "forwarder_ok env pre n f" and r: "0 \<le> se_random_sn se" "se_random_sn se < 16384"
  shows "forwarder_ok env pre n (maybe_start se f)"
proof (cases "fw_started f")
  case False
  define sn :: u64 where "sn = ucast (word_of_int (se_random_sn se) + 0x8000 :: u16)"
  have "uint (word_of_int (se_random_sn se) + 0x8000 :: u16) = se_random_sn se + 32768"
    using r by (simp add: uint_word_ariths unsigned_of_int take_bit_eq_mod mod_simps)
  then have u: "uint sn = se_random_sn se + 32768"
    using r by (simp add: sn_def unsigned_ucast_eq take_bit_int_eq_self)
  have "0 < sn" "sn < sn_limit" unfolding word_less_def u using r by simp_all
  then have "munger_ok (set_last_sn_ts (fw_rtp_munger f) (p\<lparr>ep_ext_sequence_number := sn, ep_ext_timestamp := t\<rparr>))" for p :: "unit ext_packet" and t
    using reset_munger(1) [of "fw_rtp_munger f" "p\<lparr>ep_ext_sequence_number := sn, ep_ext_timestamp := t\<rparr>"] ok
    by (simp add: forwarder_ok_def)
  then show ?thesis using ok False by (simp add: maybe_start_def forwarder_ok_def Let_def sn_def)
qed (use ok in \<open>simp add: maybe_start_def\<close>)

lemma padding_returns:
  assumes "munger_ok r" "0 \<le> num"
  shows "\<exists>r' x. update_and_get_padding_sn_ts r num c frate force ts = Some (r', x) \<and> munger_ok r'"
proof (cases "num = 0 \<or> \<not> (rg_last_marker r \<or> force)")
  case True
  then show ?thesis using assms(1) by (auto simp: update_and_get_padding_sn_ts_def)
next
  case False
  then show ?thesis using padding_step [OF assms(1), of num force c frate ts] assms(2) by auto
qed

lemma report_ok:
  assumes "forwarder_ok env pre n f"
  shows "\<exists>f'. set_ref_sender_report layer (Some sr) f = Some f' \<and> forwarder_ok env pre n f'"
  using assms by (auto simp: set_ref_sender_report_def forwarder_ok_def Let_def)

lemma seed_reports_some:
  "k + length rs \<le> length infos \<Longrightarrow> \<exists>infos'. seed_reports infos (int k) rs = Some infos' \<and> length infos' = length infos"
proof (induction rs arbitrary: k infos)
  case (Cons r rs)
  let ?i = "infos[k := case r of Some sr \<Rightarrow> if sr_ntp_timestamp sr \<noteq> 0 then ref_info_zero\<lparr>ri_sender_report := Some sr\<rparr> else ref_info_zero
    | None \<Rightarrow> ref_info_zero]"
  obtain infos' where "seed_reports ?i (int (Suc k)) rs = Some infos'" "length infos' = length ?i"
    using Cons.IH [of "Suc k" ?i] Cons.prems by auto
  then show ?case using Cons.prems by (simp add: add.commute)
qed simp

lemma seed_ok_returns:
  assumes ok: "forwarder_ok env pre n f" and st: "seed_ok st"
  shows "\<exists>f'. fw_seed_state st f = Some f' \<and> forwarder_ok env pre n f'"
proof (cases "\<exists>s. st = Some s \<and> fs_started s")
  case True
  then obtain s where s: "st = Some s" "fs_started s" by blast
  obtain infos where i: "seed_reports (fw_ref_infos f) 0 (fs_sender_reports s) = Some infos" "length infos = 3"
    using seed_reports_some [of 0 "fs_sender_reports s" "fw_ref_infos f"] ok st s by (auto simp: seed_ok_def forwarder_ok_def)
  have m: "munger_ok (rg_seed_state (fw_rtp_munger f) x)" for x using ok by (simp add: forwarder_ok_def munger_ok_def rg_seed_state_def)
  have c: "cm_ok env n (cm_seed_state (fw_codec_munger f) x)" for x
    using ok by (cases "fw_codec_munger f"; cases x) (auto simp: forwarder_ok_def vm_seed_state_def vm_safe_def vm_bounded_def)
  show ?thesis using ok st s i m c by (simp add: fw_seed_state_def forwarder_ok_def seed_ok_def)
qed (use ok in \<open>auto simp: fw_seed_state_def split: option.split\<close>)

lemma max_subscribed_returns:
  assumes "forwarder_ok env pre n f"
  shows "get_max_subscribed_spatial f \<noteq> None"
proof -
  have "- 1 \<le> vl_spatial (bs_max (fw_base f))" using base_okD(2) [OF forwarder_base [OF assms]] by (simp add: layer_ok_def)
  then show ?thesis using assms by (auto simp: get_max_subscribed_spatial_def Let_def forwarder_ok_def)
qed

lemma report_params_return:
  assumes "forwarder_ok env pre n f"
  shows "get_sender_report_params f \<noteq> None"
  using assms by (auto simp: get_sender_report_params_def get_ref_layer_def Let_def forwarder_ok_def split: prod.splits if_splits)

text \<open>The settings that are steps of the base.\<close>

lemma settings_ok:
  assumes ok: "forwarder_ok env pre n f"
  shows "l \<le> 2 \<Longrightarrow> forwarder_ok env pre n (fst (set_max_published_layer l f))"
    "l \<le> 3 \<Longrightarrow> forwarder_ok env pre n (fst (set_max_temporal_layer_seen l f))"
    "- 1 \<le> l \<Longrightarrow> l \<le> 3 \<Longrightarrow> forwarder_ok env pre n (fst (set_max_temporal_layer l f))"
    "forwarder_ok env pre n (fst (fw_mute muted mutable f))" "forwarder_ok env pre n (fst (fw_pub_mute muted f))"
    "forwarder_ok env pre n (fw_restart f)"
proof -
  note b = forwarder_base [OF ok]
  have s: "- 1 \<le> vl_spatial (bs_max_seen (fw_base f))" "- 1 \<le> vl_temporal (bs_max_seen (fw_base f))"
    using base_okD(3) [OF b] by (simp_all add: layer_ok_def)
  show "l \<le> 2 \<Longrightarrow> forwarder_ok env pre n (fst (set_max_published_layer l f))"
    using ok on_vls_ok [OF ok, of "bs_set_max_seen_spatial l"] base_settings(3) [OF b, of l] s by (simp add: set_max_published_layer_def)
  show "l \<le> 3 \<Longrightarrow> forwarder_ok env pre n (fst (set_max_temporal_layer_seen l f))"
    using ok on_vls_ok [OF ok, of "bs_set_max_seen_temporal l"] base_settings(4) [OF b, of l] s by (simp add: set_max_temporal_layer_seen_def)
  show "- 1 \<le> l \<Longrightarrow> l \<le> 3 \<Longrightarrow> forwarder_ok env pre n (fst (set_max_temporal_layer l f))"
    using ok on_vls_ok [OF ok, of "bs_set_max_temporal l"] base_settings(2) [OF b, of l] by (simp add: set_max_temporal_layer_def Let_def)
  have m: "forwarder_ok env pre n (f\<lparr>fw_muted := x\<rparr>)" "forwarder_ok env pre n (f\<lparr>fw_pub_muted := x\<rparr>)" for x
    using ok by (simp_all add: forwarder_ok_def)
  show "forwarder_ok env pre n (fst (fw_mute muted mutable f))" "forwarder_ok env pre n (fst (fw_pub_mute muted f))"
    using ok m resync_ok [OF m(1)] resync_ok [OF m(2)] by (simp_all add: fw_mute_def fw_pub_mute_def Let_def)
  show "forwarder_ok env pre n (fw_restart f)"
    using set_target_ok [OF resync_ok [OF ok], of invalid_layer invalid_layer_spatial] ok by (simp add: fw_restart_def forwarder_ok_def)
qed

text \<open>Each operation returns; only a packet counts for the codec munger.\<close>

lemma plain_op_returns:
  assumes env: "env_lawful env ii ib" and ok: "forwarder_ok env pre n f" and n: "n \<le> 32000" and adm: "op_admissible a"
    and plain: "\<And>b. a \<noteq> FoAllocation b"
  shows "\<exists>f'. forwarder_step env f a = Some f' \<and> forwarder_ok env pre (Suc n) f'"
proof -
  have mono: "forwarder_ok env pre n g \<Longrightarrow> forwarder_ok env pre (Suc n) g" for g by (auto simp: forwarder_ok_def intro: cm_ok_mono)
  have munger: "forwarder_ok env pre n (g\<lparr>fw_rtp_munger := m\<rparr>)" if "forwarder_ok env pre n g" "munger_ok m" for g :: "('a, 'b) forwarder_dd" and m
    using that by (simp add: forwarder_ok_def)
  have "(\<exists>f'. forwarder_step env f a = Some f' \<and> forwarder_ok env pre n f') \<or> (\<exists>f'. forwarder_step env f a = Some f' \<and> forwarder_ok env pre (Suc n) f')"
  proof (cases a)
    case (FoPacket se p layer)
    then have p: "packet_ok p layer" using adm by simp
    then have "layer \<le> 2" by (simp add: packet_ok_def packet_layers_ok_def)
    from params_return [OF env ok p n this, of se] FoPacket show ?thesis by auto
  next
    case (FoPadding se num frate force)
    have s: "forwarder_ok env pre n (maybe_start se f)" using start_ok [OF ok] adm FoPadding by simp
    then have "munger_ok (fw_rtp_munger (maybe_start se f))" by (simp add: forwarder_ok_def)
    from padding_returns [OF this] adm FoPadding obtain m x where
      "update_and_get_padding_sn_ts (fw_rtp_munger (maybe_start se f)) num (fw_clock_rate (maybe_start se f)) frate
         (force \<or> \<not> vl_is_valid (bs_target (fw_base (maybe_start se f)))) (rg_ext_last_ts (fw_rtp_munger (maybe_start se f))) = Some (m, x)"
      "munger_ok m" by fastforce
    then show ?thesis using munger [OF s] FoPadding by (simp add: get_sn_ts_for_padding_def Let_def)
  next
    case (FoBlankFrames se frate num)
    have s: "forwarder_ok env pre n (maybe_start se f)" using start_ok [OF ok] adm FoBlankFrames by simp
    let ?m = "fw_rtp_munger (maybe_start se f)"
    let ?t = "case se_expected se of ExpectedTs t \<Rightarrow> t | _ \<Rightarrow> rg_ext_last_ts ?m"
    have mo: "munger_ok ?m" using s by (simp add: forwarder_ok_def)
    have "0 \<le> (if \<not> rg_last_marker ?m then num + 1 else num)" using adm FoBlankFrames by simp
    from padding_returns [OF mo this] obtain m x where
      "update_and_get_padding_sn_ts ?m (if \<not> rg_last_marker ?m then num + 1 else num) (fw_clock_rate (maybe_start se f)) frate
         (\<not> rg_last_marker ?m) (if i64_of (?t - rg_ext_last_ts ?m) \<le> 0 then rg_ext_last_ts ?m + 1 else ?t) = Some (m, x)"
      and m: "munger_ok m" by metis
    then have "get_sn_ts_for_blank_frames se frate num f = Some ((maybe_start se f)\<lparr>fw_rtp_munger := m\<rparr>, \<not> rg_last_marker ?m, x)"
      by (simp only: get_sn_ts_for_blank_frames_def Let_def) simp
    then show ?thesis using munger [OF s m] FoBlankFrames by simp
  next
    case (FoPaddingPayload b)
    have "cm_ok env n (fw_codec_munger f)" using ok by (simp add: forwarder_ok_def)
    from cm_ops_ok(4) [OF env this, of "\<not> b"] show ?thesis using ok FoPaddingPayload by (auto simp: get_padding_def forwarder_ok_def)
  next
    case (FoReport layer sr)
    then show ?thesis using report_ok [OF ok] by simp
  next
    case (FoSeed st)
    then show ?thesis using seed_ok_returns [OF ok] adm by simp
  qed (use ok adm plain resync_ok [OF ok] settings_ok [OF ok] codec_ok [OF env ok] max_subscribed_returns [OF ok] report_params_return [OF ok] in auto)
  then show ?thesis using mono by blast
qed

lemma forwarder_op_returns:
  assumes env: "env_lawful env ii ib" and ok: "forwarder_ok env pre n f" and n: "n \<le> 32000" and adm: "op_admissible a"
    and first: "prepared_first pre [a]"
  shows "\<exists>f'. forwarder_step env f a = Some f' \<and> forwarder_ok env (pre \<or> is_prepare a) (Suc n) f'"
proof (cases "\<exists>b. a = FoAllocation b")
  case True
  then obtain b where a: "a = FoAllocation b" by blast
  have "alloc_ok f" using forwarder_base [OF ok] ok by (auto simp: alloc_ok_def forwarder_ok_def prepared_ok_def split: option.splits)
  moreover have "needs_prepared b \<Longrightarrow> fw_provisional f \<noteq> None"
    using ok first by (auto simp: a forwarder_ok_def prepared_ok_def split: option.splits)
  ultimately obtain f' where f': "allocation_step f b = Some f'" "settles f f'" "prepares b \<longrightarrow> fw_provisional f' \<noteq> None"
    using allocation_returns [of f b] adm a by auto
  have "forwarder_ok env (pre \<or> prepares b) n f'" using settles_ok [OF ok f'(2)] f'(3) by (cases "prepares b") simp_all
  then have "forwarder_ok env (pre \<or> prepares b) (Suc n) f'" by (auto simp: forwarder_ok_def intro: cm_ok_mono)
  then show ?thesis using f'(1) by (simp add: a is_prepare_def)
next
  case False
  then have "\<not> is_prepare a" by (auto simp: is_prepare_def split: forwarder_op.split)
  then show ?thesis using plain_op_returns [OF env ok n adm] False by simp
qed

lemma new_forwarder_ok: "forwarder_ok env False n (new_forwarder kind skip disable)"
proof -
  have "base_ok (bs_set_max_temporal default_max_layer_temporal new_base)" by (rule base_settings(2) [OF new_base_ok]) simp_all
  then show ?thesis
    using new_munger_ok new_base_ok by (simp add: new_forwarder_def forwarder_ok_def on_vls_def Let_def new_null_selector_def prepared_ok_def vls_ok_def)
qed

text \<open>
  C5. A forwarder returns from everything that is called on it.  Up to 32000 calls in any order, of
  packets of all layers and sources, with payloads and dependency descriptors as the parsers hand them
  over, of padding, new codecs, mutes, sender reports, seeded states, resyncs and restarts, and of all
  allocations, optimal, paused, provisional (after one has been prepared) and of the next higher layer:
  no loop runs forever, nothing panics, and the munger, the selector, its layers, the provisional
  allocation and the codec munger keep their invariants.  The layers that come from outside are those of
  the tables: three spatial ones, as \<open>forwardRTP\<close> checks, and four temporal ones, which nothing
  checks (\<open>temporal_layer_panics\<close>).
\<close>

theorem forwarder_returns:
  assumes "env_lawful env ii ib" "length ops \<le> 32000" "list_all op_admissible ops" "prepared_first False ops"
  shows "\<exists>f. run_ops (forwarder_step env) (new_forwarder kind skip disable) ops = Some f \<and>
    forwarder_ok env (list_ex is_prepare ops) (length ops) f"
proof -
  have "\<exists>g. run_ops (forwarder_step env) f ops = Some g \<and> forwarder_ok env (pre \<or> list_ex is_prepare ops) (n + length ops) g"
    if "forwarder_ok env pre n f" "n + length ops \<le> 32000" "prepared_first pre ops" for n f pre
    using that assms(3)
  proof (induction ops arbitrary: n f pre)
    case (Cons a ops)
    have first: "prepared_first pre [a]" "prepared_first (pre \<or> is_prepare a) ops" using Cons.prems(3) by simp_all
    have h: "op_admissible a" "list_all op_admissible ops" "n \<le> 32000" "Suc n + length ops \<le> 32000" using Cons.prems(2,4) by simp_all
    obtain f1 where f1: "forwarder_step env f a = Some f1" "forwarder_ok env (pre \<or> is_prepare a) (Suc n) f1"
      using forwarder_op_returns [OF assms(1) Cons.prems(1) h(3,1) first(1)] by blast
    from Cons.IH [OF f1(2) h(4) first(2) h(2)] f1(1) show ?case by (simp add: disj_assoc)
  qed simp
  from this [OF new_forwarder_ok [of env 0] _ assms(4)] assms(2) show ?thesis by simp
qed

theorem forwarder_returns_witness:
  "\<exists>f. run_ops (forwarder_step env_alist) (new_forwarder KindVideo False False)
      [FoCodec MimeVP8 90000 False OneSpatialLayerPerStream, FoPadding example_surroundings 3 30 True, FoMaxPublished 1,
       FoAllocation (AoMaxSpatial 2), FoAllocation (AoOptimal [0, 1] example_rates False False), FoPacket example_surroundings example_switch 1,
       FoAllocation (AoPrepare [0, 1] example_rates), FoAllocation (AoAllocate 300 (VideoLayer 0 1) True False),
       FoAllocation (AoCooperative False), FoAllocation AoBestWeighted, FoAllocation AoCommit, FoMaxSubscribed,
       FoAllocation (AoNextHigher 1000 [0, 1] example_rates False), FoMute True True, FoPaddingPayload False, FoRestart] = Some f \<and>
    munger_ok (fw_rtp_munger f) \<and> fw_provisional f \<noteq> None"
proof -
  let ?ops = "[FoCodec MimeVP8 90000 False OneSpatialLayerPerStream, FoPadding example_surroundings 3 30 True, FoMaxPublished 1,
       FoAllocation (AoMaxSpatial 2), FoAllocation (AoOptimal [0, 1] example_rates False False), FoPacket example_surroundings example_switch 1,
       FoAllocation (AoPrepare [0, 1] example_rates), FoAllocation (AoAllocate 300 (VideoLayer 0 1) True False),
       FoAllocation (AoCooperative False), FoAllocation AoBestWeighted, FoAllocation AoCommit, FoMaxSubscribed,
       FoAllocation (AoNextHigher 1000 [0, 1] example_rates False), FoMute True True, FoPaddingPayload False, FoRestart]"
  have "list_all op_admissible ?ops"
    by (simp add: example_surroundings_def packet_ok_def packet_layers_ok_def packet_targets_ok_def layer_ok_def in_grid_def available_ok_def
        example_switch_def ext_packet_zero_def parsed_def sn_limit_def)
  moreover have "prepared_first False ?ops" by (simp add: needs_prepared_def prepares_def is_prepare_def)
  moreover have "length ?ops \<le> 32000" "list_ex is_prepare ?ops" by (simp_all add: is_prepare_def prepares_def)
  ultimately obtain f where f: "run_ops (forwarder_step env_alist) (new_forwarder KindVideo False False) ?ops = Some f"
    "forwarder_ok env_alist True (length ?ops) f"
    using forwarder_returns [OF env_alist_lawful, of ?ops KindVideo False False] by metis
  have "munger_ok (fw_rtp_munger f)" "fw_provisional f \<noteq> None" using f(2) by (auto simp: forwarder_ok_def prepared_ok_def split: option.splits)
  with f(1) show ?thesis by blast
qed

text \<open>
  Nothing checks the temporal layer of a packet, which has three bits in VP9 and H.265: a VP9 key frame
  of temporal layer 5 makes it the current layer, and the cooperative transition then looks for its
  bitrate outside the table.
\<close>

definition example_vp9 :: "((int \<times> int) list, (int \<times> bool) list) forwarder_dd" where
  "example_vp9 = (new_forwarder KindVideo False False)\<lparr>fw_mime := MimeVP9, fw_clock_rate := 90000,
     fw_vls := VlsVP9 (new_base\<lparr>bs_max := VideoLayer 2 3, bs_max_seen := VideoLayer 2 3, bs_target := VideoLayer 0 3\<rparr>)\<rparr>"

definition example_vp9_key_frame :: dd_packet where
  "example_vp9_key_frame = (example_packet_at 1001)\<lparr>ep_is_key_frame := True, ep_layer := VideoLayer 0 5,
     ep_payload := PayloadVP9 \<lparr>v9_I = False, v9_P = False, v9_L = True, v9_F = False, v9_B = True, v9_E = True,
       v9_U = False, v9_D = False, v9_tid = 5, v9_sid = 0\<rparr>\<rparr>"

lemma temporal_layer_panics:
  "run_ops (forwarder_step env_alist) example_vp9 [FoPacket example_surroundings example_vp9_key_frame 0] \<noteq> None \<and>
   run_ops (forwarder_step env_alist) example_vp9 [FoPacket example_surroundings example_vp9_key_frame 0,
     FoAllocation (AoPrepare [] no_bitrates), FoAllocation (AoCooperative False)] = None"
  by code_simp

end
