(* ===== verification/Spec2Isabelle.thy ===== *)
theory Spec2Isabelle
  imports Wrap_Around Range_Map Vp8_Codec Ext_Packet Rtp_Munger Packet_Sequencer Vp8_Munger Packet_Bucket Layer_Selector
    Layer_Rates Forwarder Forwarder_Congestion Decision_Cache Bit_Stream Dependency_Descriptor Dd_Reading Dd_Round_Trip
    Dd_Parser Dd_Selector Dd_Selecting Dd_Run Forwarder_Translation Forwarding
    Forwarder_Layers Forwarder_Run
begin

text \<open>
  This development verifies the media path of the selective forwarding unit in \<open>pkg/sfu\<close>: how the
  packets of a published track become the packets of one subscriber.

  \<^bold>\<open>The program and its parts.\<close>  A published track arrives as RTP packets of one or several layers.
  Their 16- and 32-bit numbers are extended to 64 bits (\<open>WrapAround\<close>) and the packets are kept in a
  ring for retransmission (\<open>Bucket\<close>).  The payload header is parsed (\<open>VP8\<close>), and so is the dependency
  descriptor, an RTP header extension that says which frame and which layers a packet belongs to
  (\<open>DependencyDescriptorParser\<close> with its \<open>FrameIntegrityChecker\<close>).  For each subscriber there is a
  \<open>Forwarder\<close>.  The allocation of the channel gives it a target layer; a layer selector decides packet
  by packet what is on the way to that target and can be decoded; the RTP munger closes the gaps that
  the dropped packets leave in sequence numbers and timestamps, and the codec munger does the same for
  the picture ids of VP8.  What is sent is remembered by a \<open>sequencer\<close>, so that a NACK of the
  subscriber can be answered with the packet of the bucket.

  \<^bold>\<open>Theories\<close>, in the order of their imports (paths under \<open>src/\<close>):

  \<^item> \<^theory_text>\<open>Go_Prelude\<close>: integers of Go, slices, early returns, runs of operations, and the locale
    \<open>safe_component\<close>.
  \<^item> \<^theory_text>\<open>Wrap_Around\<close>: \<open>pkg/samvaad/transport/pkg/utils/wraparound.go\<close>.  The extension of a wrapping number
    stays within half a cycle of the highest one; the undo of an update.
  \<^item> \<^theory_text>\<open>Range_Map\<close>: \<open>pkg/sfu/utils/rangemap.go\<close>.  The specification of offsets that change at the frontier
    is the locale \<open>offset_map\<close>, and the range map implements it.
  \<^item> \<^theory_text>\<open>Vp8_Codec\<close>: \<open>pkg/samvaad/transport/pkg/codec/vp8.go\<close>, \<open>helpers.go\<close>.  Parsing and writing are inverse.
  \<^item> \<^theory_text>\<open>Ext_Packet\<close>: \<open>pkg/sfu/buffer/videolayer.go\<close>, the packets of \<open>buffer_base.go\<close>, the errors.
  \<^item> \<^theory_text>\<open>Rtp_Munger\<close>: \<open>pkg/sfu/rtpmunger.go\<close>.  The outgoing numbers of a run are contiguous, every number
    is a packet, a padding packet or the place of a lost one.
  \<^item> \<^theory_text>\<open>Packet_Sequencer\<close>: \<open>pkg/sfu/sequencer.go\<close>.  The ring implements a map from outgoing numbers to what was
    sent; in every history of packets, padding (also after gaps), NACKs and round trip times a NACK is
    answered with packets that were sent under the numbers asked for.
  \<^item> \<^theory_text>\<open>Vp8_Munger\<close>: \<open>pkg/sfu/codecmunger/vp8.go\<close>, \<open>null.go\<close>.  Picture ids are unwrapped to the true
    picture number and sent without holes, late pictures fill their place, the caches stay bounded.
  \<^item> \<^theory_text>\<open>Packet_Bucket\<close>: \<open>pkg/samvaad/transport/pkg/bucket/bucket.go\<close>.  The ring implements a partial map of
    the newest packets, also when it starts, starts over or grows.
  \<^item> \<^theory_text>\<open>Layer_Selector\<close>: \<open>pkg/sfu/videolayerselector/base.go\<close>, \<open>simulcast.go\<close>, \<open>vp9.go\<close>, \<open>null.go\<close> and
    \<open>temporallayerselector/vp8.go\<close>.  What simulcast forwards can be decoded, also
    after switches that are rolled back, and reaches the target.
  \<^item> \<^theory_text>\<open>Layer_Rates\<close>: the bitrates of \<open>pkg/sfu/receiver_base.go\<close> and the searches over layers in
    \<open>pkg/sfu/forwarder.go\<close>, with the order of layers as their specification.
  \<^item> \<^theory_text>\<open>Forwarder\<close>, \<^theory_text>\<open>Forwarder_Congestion\<close>: \<open>pkg/sfu/forwarder.go\<close>, the state and its configuration,
    the allocation without and with congestion.
  \<^item> \<^theory_text>\<open>Decision_Cache\<close>: \<open>pkg/sfu/videolayerselector/selectordecisioncache.go\<close>.  Two bits per frame in a
    ring of masks implement a map of the last frames.
  \<^item> \<^theory_text>\<open>Bit_Stream\<close>, \<^theory_text>\<open>Dependency_Descriptor\<close>, \<^theory_text>\<open>Dd_Reading\<close>, \<^theory_text>\<open>Dd_Round_Trip\<close>:
    \<open>pkg/sfu/rtpextension/dependencydescriptor\<close>.  Bit readers and writers implement lists of bits; the
    reader returns on every input, and reads back what the writer wrote, with the layer of the template
    that the writer has chosen.
  \<^item> \<^theory_text>\<open>Dd_Parser\<close>: \<open>pkg/sfu/buffer/frameintegrity.go\<close>, \<open>dependencydescriptorparser.go\<close>.  A frame is
    complete just when all of its packets have come; the parser survives every stream.
  \<^item> \<^theory_text>\<open>Dd_Selector\<close>, \<^theory_text>\<open>Dd_Selecting\<close>, \<^theory_text>\<open>Dd_Run\<close>: \<open>dependencydescriptor.go\<close>, \<open>framechain.go\<close>,
    \<open>decodetarget.go\<close>, \<open>framenumberwrapper.go\<close> in \<open>pkg/sfu/videolayerselector\<close>.  What is forwarded
    refers to nothing that was dropped, a chain that is not broken is told of the frames it waits for,
    frame numbers stay in order, the descriptor that is sent is read back.
  \<^item> \<^theory_text>\<open>Forwarder_Translation\<close>, \<^theory_text>\<open>Forwarding\<close>, \<^theory_text>\<open>Forwarder_Layers\<close>, \<^theory_text>\<open>Forwarder_Run\<close>: \<open>pkg/sfu/forwarder.go\<close>
    (\<open>GetTranslationParams\<close>, \<open>processSourceSwitch\<close>, padding) and
    \<open>pkg/samvaad/transport/helpers.go\<close>.  Selector and mungers at work together:
    the outgoing stream goes on over every change of the source, layers are aligned by their sender reports,
    packets that are dropped leave no hole in the numbers, the layers in the state stay inside the tables,
    and every run of packets, padding, settings and allocations returns.

  \<^bold>\<open>Conventions.\<close>  An unsigned integer of Go is a word of its width; \<open>int32\<close> and \<open>int64\<close> are integers
  with \<^const>\<open>i32\<close> and \<^const>\<open>i64\<close> where a result can leave the range.  A panic is \<^const>\<open>None\<close>, a
  returned error the left of a sum.  A lock is held over a whole operation, so an operation is one
  step.  Time, statistics, random numbers and the order that \<open>slices.SortFunc\<close> gives to equal elements
  are arguments; callbacks are values that are returned (the notices of \<^theory_text>\<open>Decision_Cache\<close>).  Shared
  pointers are positions in a list (the frame chains).  The ordered maps of an external package are an
  argument, with the documented behaviour as the locale \<open>ordered_map\<close> and association lists as its
  instance.  A quotient of \<open>float64\<close> is an exact rational where it is only compared or stored;
  products and quotients of \<open>float32\<close> are rounded as the code has them.  Logging is left out.

  \<^bold>\<open>Interfaces.\<close>  \<open>safe_component\<close> is the contract of a component that is driven by operations: an
  admissible operation keeps the invariant and does not panic, so neither does a run.  The RTP munger
  and the selector for dependency descriptors are instances.  \<open>offset_map\<close> (with \<open>dense_map\<close>) and
  \<open>ordered_map\<close> are the contracts of the two kinds of maps.

  \<^bold>\<open>Bounds.\<close>  Extended sequence numbers are below \<open>2 ^ 62\<close> (they grow by one per packet), frame numbers
  likewise, with fewer than \<open>2 ^ 44\<close> packets for the parser; a VP8 munger, and with it
  a forwarder, is followed over 32000 operations, in which the unwrapped picture ids cannot leave \<open>int32\<close>.  Loops of the code that may
  not end are partial functions into options; that they return is part of the properties.

  \<^bold>\<open>Not modelled.\<close>  The receive buffer and the RTP statistics, down tracks, the stream allocator with the bandwidth estimation, stream trackers and
  pacers are clocks, goroutines and callbacks around this path; what they give to it is an argument
  here.  Rooms, participants, transports, signalling, service, routing, agents, telemetry and
  authentication are other subsystems, over an external WebRTC stack, Redis, HTTP and RPC; generated
  code and fakes carry no logic of their own.
\<close>

end
